(* ===== verification/Prelude.thy ===== *)
theory Prelude
  imports Main "HOL-Library.Word" "HOL-Library.Char_ord" "HOL-Library.List_Lexorder"
begin

text \<open>
  What every component of the model shares: the machine integers, the error numbers, the view of
  \<^verbatim>\<open>std::string\<close> and of NUL-terminated strings as lists of 8-bit characters, the parts of the C
  library that the sources call on them (\<^verbatim>\<open>strtoul\<close>, decimal and hexadecimal printing), and the
  interface locale of the encoders that work one symbol at a time.
\<close>

unbundle bit_operations_syntax

section \<open>Machine integers and error numbers\<close>

type_synonym u8 = "8 word"
type_synonym u16 = "16 word"
type_synonym u32 = "32 word"
type_synonym u64 = "64 word"

text \<open>The \<^verbatim>\<open>errno\<close> values (Linux numbering) that the operations return; 0 is success.\<close>

abbreviation (input) OK :: u32 where "OK \<equiv> 0"
abbreviation (input) EPERM :: u32 where "EPERM \<equiv> 1"
abbreviation (input) ENOENT :: u32 where "ENOENT \<equiv> 2"
abbreviation (input) EIO :: u32 where "EIO \<equiv> 5"
abbreviation (input) EWOULDBLOCK :: u32 where "EWOULDBLOCK \<equiv> 11"
abbreviation (input) EACCES :: u32 where "EACCES \<equiv> 13"
abbreviation (input) EINVAL :: u32 where "EINVAL \<equiv> 22"
abbreviation (input) ENOSPC :: u32 where "ENOSPC \<equiv> 28"
abbreviation (input) ESPIPE :: u32 where "ESPIPE \<equiv> 29"

named_theorems word_nat \<open>reading word operations as arithmetic on natural numbers\<close>

lemma unat_and_mask_nat [word_nat]: "unat (w AND mask n :: 'a::len word) = unat w mod 2 ^ n"
  by (simp flip: take_bit_eq_mask take_bit_eq_mod add: unsigned_take_bit_eq)

lemma unat_drop_bit_nat [word_nat]: "unat (drop_bit n w :: 'a::len word) = unat w div 2 ^ n"
  by (subst unat_drop_bit_eq) (rule drop_bit_eq_div)

lemma unat_of_nat_u32 [word_nat]: "n < 2 ^ 32 \<Longrightarrow> unat (of_nat n :: u32) = n"
  by (simp add: unsigned_of_nat take_bit_nat_eq_self)

lemma mask_numerals:
  "(1 :: 'a::len word) = mask 1" "(3 :: 'a::len word) = mask 2" "(7 :: 'a::len word) = mask 3"
  "(15 :: 'a::len word) = mask 4" "(31 :: 'a::len word) = mask 5" "(63 :: 'a::len word) = mask 6"
  "(255 :: 'a::len word) = mask 8" "(1023 :: 'a::len word) = mask 10"
  by (simp_all add: mask_eq_exp_minus_1)

section \<open>Characters and C strings\<close>

text \<open>
  A \<^verbatim>\<open>char\<close> converted to an unsigned integer (\<^verbatim>\<open>(unsigned char)c\<close>), and an integer
  converted to \<^verbatim>\<open>char\<close>, which keeps the low eight bits.
\<close>

definition byte :: "char \<Rightarrow> u32" where
  "byte c = of_nat (of_char c)"

definition chr8 :: "u32 \<Rightarrow> char" where
  "chr8 w = char_of (unat w)"

text \<open>The value of a plain \<^verbatim>\<open>char\<close>, which is signed on the platforms the sources build for.\<close>

definition schar :: "char \<Rightarrow> int" where
  "schar c = (let n = of_char c :: nat in if n < 128 then int n else int n - 256)"

lemma unat_byte [simp, word_nat]: "unat (byte c) = of_char c"
proof -
  have "(of_char c :: nat) < 2 ^ 32"
    by (rule order.strict_trans [OF nat_of_char_less_256]) simp
  then show ?thesis
    by (simp add: byte_def unsigned_of_nat take_bit_nat_eq_self)
qed

lemma byte_less [simp]: "byte c < 256"
  by (simp add: word_less_nat_alt nat_of_char_less_256)

lemma byte_and_255 [simp]: "byte c AND 255 = byte c"
  using nat_of_char_less_256 [of c]
  by (simp add: word_unat_eq_iff mask_numerals(7) unat_and_mask_nat)

lemma chr8_byte [simp]: "chr8 (byte c) = c"
  by (simp add: chr8_def)

lemma byte_inject [simp]: "byte c = byte d \<longleftrightarrow> c = d"
  by (metis chr8_byte)

lemma of_char_chr8 [word_nat]: "(of_char (chr8 w) :: nat) = unat w mod 256"
  by (simp add: chr8_def)

lemma byte_chr8: "w < 256 \<Longrightarrow> byte (chr8 w) = w"
  by (simp add: word_less_nat_alt word_unat_eq_iff of_char_chr8)

text \<open>\<^verbatim>\<open>s.c_str()\<close> as a C function sees it: up to the first NUL.\<close>

abbreviation (input) NUL :: char where "NUL \<equiv> CHR 0x00"

definition c_str :: "string \<Rightarrow> string" where
  "c_str s = takeWhile (\<lambda>c. c \<noteq> NUL) s"

lemma c_str_id: "NUL \<notin> set s \<Longrightarrow> c_str s = s"
  by (auto simp: c_str_def takeWhile_eq_all_conv)

lemma NUL_notin_c_str [simp]: "NUL \<notin> set (c_str s)"
  by (auto simp: c_str_def dest: set_takeWhileD)

section \<open>The C library on buffers\<close>

definition char_at :: "nat \<Rightarrow> string \<Rightarrow> char" where
  "char_at k s = (if k < length s then s ! k else NUL)"

definition strchr :: "char \<Rightarrow> string \<Rightarrow> nat option" where
  "strchr c s = (let t = c_str s in if c \<in> set t then Some (length (takeWhile (\<lambda>x. x \<noteq> c) t)) else None)"

definition strrchr :: "char \<Rightarrow> string \<Rightarrow> nat option" where
  "strrchr c s = (let t = c_str s in if c \<in> set t then Some (length t - 1 - length (takeWhile (\<lambda>x. x \<noteq> c) (rev t))) else None)"

definition strspn :: "string \<Rightarrow> string \<Rightarrow> nat" where
  "strspn s accept = length (takeWhile (\<lambda>c. c \<in> set accept) (c_str s))"

definition strcspn :: "string \<Rightarrow> string \<Rightarrow> nat" where
  "strcspn s reject = length (takeWhile (\<lambda>c. c \<notin> set reject) (c_str s))"

lemma takeWhile_neq: "c \<notin> set u \<Longrightarrow> takeWhile (\<lambda>x. x \<noteq> c) (u @ c # v) = u"
  by (induction u) auto

lemma dropWhile_neq: "c \<notin> set u \<Longrightarrow> dropWhile (\<lambda>x. x \<noteq> c) (u @ c # v) = c # v"
  by (induction u) auto

lemma strchr_char: "NUL \<notin> set s \<Longrightarrow> strchr c s = (if c \<in> set s then Some (length (takeWhile (\<lambda>x. x \<noteq> c) s)) else None)"
  by (simp add: strchr_def Let_def c_str_id)

lemma strchr_split: "NUL \<notin> set s \<Longrightarrow> strchr c s = Some k \<Longrightarrow> \<exists>u v. s = u @ c # v \<and> c \<notin> set u \<and> k = length u"
proof -
  assume "NUL \<notin> set s" "strchr c s = Some k"
  then have c: "c \<in> set s" "k = length (takeWhile (\<lambda>x. x \<noteq> c) s)"
    by (auto simp: strchr_char split: if_splits)
  obtain u v where "s = u @ c # v" "c \<notin> set u"
    using split_list_first [OF c(1)] by blast
  then show ?thesis
    using c(2) by (intro exI [of _ u] exI [of _ v]) (simp add: takeWhile_neq)
qed

lemma strchr_none: "NUL \<notin> set s \<Longrightarrow> strchr c s = None \<longleftrightarrow> c \<notin> set s"
  by (simp add: strchr_char)

lemma strrchr_none: "NUL \<notin> set s \<Longrightarrow> strrchr c s = None \<longleftrightarrow> c \<notin> set s"
  by (simp add: strrchr_def Let_def c_str_id)

lemma strrchr_split: "NUL \<notin> set s \<Longrightarrow> strrchr c s = Some k \<Longrightarrow> \<exists>u v. s = u @ c # v \<and> c \<notin> set v \<and> k = length u"
proof -
  assume "NUL \<notin> set s" "strrchr c s = Some k"
  then have c: "c \<in> set s" "k = length s - 1 - length (takeWhile (\<lambda>x. x \<noteq> c) (rev s))"
    by (auto simp: strrchr_def Let_def c_str_id split: if_splits)
  obtain u v where s: "s = u @ c # v" "c \<notin> set v"
    using split_list_last [OF c(1)] by blast
  then have "takeWhile (\<lambda>x. x \<noteq> c) (rev s) = rev v"
    by (simp add: takeWhile_neq)
  then show ?thesis
    using s c(2) by (intro exI [of _ u] exI [of _ v]) simp
qed

section \<open>Numbers as text\<close>

text \<open>
  Printing an unsigned integer in decimal (\<^verbatim>\<open>os << n\<close>), a byte as two hexadecimal digits
  (\<^verbatim>\<open>%02x\<close>), and the C library's \<^verbatim>\<open>strtoul\<close> on a 64-bit \<^verbatim>\<open>unsigned long\<close>: white space,
  a sign, for base 16 a \<^verbatim>\<open>0x\<close> that is followed by a digit, then the longest run of digits; a value
  that does not fit is \<^verbatim>\<open>ULONG_MAX\<close>, and a minus sign negates modulo the width.
\<close>

definition digit_char :: "nat \<Rightarrow> char" where
  "digit_char n = char_of (if n < 10 then 48 + n else 87 + n)"

fun dec :: "nat \<Rightarrow> string" where
  "dec n = (if n < 10 then [digit_char n] else dec (n div 10) @ [digit_char (n mod 10)])"

declare dec.simps [simp del]

definition hex2 :: "u32 \<Rightarrow> string" where
  "hex2 w = [digit_char (unat w div 16 mod 16), digit_char (unat w mod 16)]"

definition digit_val :: "char \<Rightarrow> nat" where
  "digit_val c =
     (let n = of_char c in
      if 48 \<le> n \<and> n \<le> 57 then n - 48
      else if 97 \<le> n \<and> n \<le> 122 then n - 87
      else if 65 \<le> n \<and> n \<le> 90 then n - 55
      else 36)"

definition is_space :: "char \<Rightarrow> bool" where
  "is_space c = (let n = of_char c :: nat in n = 32 \<or> 9 \<le> n \<and> n \<le> 13)"

definition digits_value :: "nat \<Rightarrow> string \<Rightarrow> nat" where
  "digits_value b ds = foldl (\<lambda>v c. v * b + digit_val c) 0 ds"

definition skip_0x :: "nat \<Rightarrow> string \<Rightarrow> string" where
  "skip_0x b s =
     (case s of z # x # d # r \<Rightarrow>
        if b = 16 \<and> z = CHR ''0'' \<and> (x = CHR ''x'' \<or> x = CHR ''X'') \<and> digit_val d < 16
        then d # r else s
      | _ \<Rightarrow> s)"

definition strtoul :: "nat \<Rightarrow> string \<Rightarrow> u64" where
  "strtoul b s =
     (let t = dropWhile is_space (c_str s);
          neg = (t \<noteq> [] \<and> hd t = CHR ''-'');
          u = (if t \<noteq> [] \<and> (hd t = CHR ''-'' \<or> hd t = CHR ''+'') then tl t else t);
          v = digits_value b (takeWhile (\<lambda>c. digit_val c < b) (skip_0x b u))
      in if 2 ^ 64 \<le> v then - 1 else if neg then - of_nat v else of_nat v)"

text \<open>\<^verbatim>\<open>(uint32_t)strtoul(s.c_str(), NULL, 10)\<close>, the integer reading of a string field.\<close>

definition parse_u32 :: "string \<Rightarrow> u32" where
  "parse_u32 s = ucast (strtoul 10 s)"

lemma digit_val_digit_char [simp]: "n < 36 \<Longrightarrow> digit_val (digit_char n) = n"
  by (auto simp: digit_val_def digit_char_def Let_def)

lemma digit_char_not_space: "n < 36 \<Longrightarrow> \<not> is_space (digit_char n)"
  by (auto simp: is_space_def digit_char_def Let_def)

lemma of_char_digit_char: "n < 36 \<Longrightarrow> of_char (digit_char n) = (if n < 10 then 48 + n else 87 + n)"
  by (auto simp: digit_char_def)

lemma digit_char_neq [simp]:
  assumes "n < 36"
  shows "digit_char n \<noteq> CHR ''-''" "digit_char n \<noteq> CHR ''+''" "digit_char n \<noteq> NUL"
    "digit_char n \<noteq> CHR ''%''" "digit_char n \<noteq> CHR ''X''"
    "NUL \<noteq> digit_char n"
proof -
  have "(of_char (digit_char n) :: nat) = (if n < 10 then 48 + n else 87 + n)"
    using assms by (rule of_char_digit_char)
  then show "digit_char n \<noteq> CHR ''-''" "digit_char n \<noteq> CHR ''+''" "digit_char n \<noteq> NUL"
    "digit_char n \<noteq> CHR ''%''" "digit_char n \<noteq> CHR ''X''"
    by (auto split: if_splits)
  then show "NUL \<noteq> digit_char n" by (metis (full_types))
qed

lemma dec_digits: "c \<in> set (dec n) \<Longrightarrow> \<exists>k<10. c = digit_char k"
proof (induction n rule: dec.induct)
  case (1 n)
  then show ?case
    by (cases "n < 10") (auto simp: dec.simps [of n] intro: exI [of _ "n mod 10"])
qed

lemma dec_nonempty [simp]: "dec n \<noteq> []"
  by (subst dec.simps) simp

lemma digits_value_snoc: "digits_value b (ds @ [c]) = digits_value b ds * b + digit_val c"
  by (simp add: digits_value_def)

lemma digits_value_dec [simp]: "digits_value 10 (dec n) = n"
proof (induction n rule: dec.induct)
  case (1 n)
  show ?case
  proof (cases "n < 10")
    case True
    then show ?thesis by (simp add: dec.simps [of n] digits_value_def)
  next
    case False
    then show ?thesis by (simp add: dec.simps [of n] digits_value_snoc 1)
  qed
qed

lemma strtoul_digits:
  assumes "ds \<noteq> []" and "\<forall>c\<in>set ds. \<exists>k<10. c = digit_char k" and "digits_value 10 ds < 2 ^ 64"
  shows "strtoul 10 ds = of_nat (digits_value 10 ds)"
proof -
  have "NUL \<notin> set ds"
  proof
    assume "NUL \<in> set ds"
    then obtain k where "k < 10" "NUL = digit_char k" using assms(2) by auto
    then show False using digit_char_neq(3) [of k] by simp
  qed
  then have c: "c_str ds = ds" by (rule c_str_id)
  obtain d r where ds: "ds = d # r" using assms(1) by (cases ds) auto
  obtain k where k: "k < 10" "d = digit_char k" using assms(2) ds by auto
  have w: "dropWhile is_space ds = ds"
    using k ds by (simp add: digit_char_not_space)
  have n: "hd ds \<noteq> CHR ''-''" "hd ds \<noteq> CHR ''+''"
    using k ds by simp_all
  have t: "takeWhile (\<lambda>c. digit_val c < 10) ds = ds"
    using assms(2) by (auto simp: takeWhile_eq_all_conv)
  have z: "skip_0x 10 ds = ds" by (simp add: skip_0x_def split: list.splits)
  show ?thesis
    using assms(3) n by (simp add: strtoul_def Let_def c w z t)
qed

lemma parse_u32_Nil [simp]: "parse_u32 [] = 0"
  by (simp add: parse_u32_def strtoul_def c_str_def skip_0x_def digits_value_def)

lemma parse_u32_dec [simp]: "parse_u32 (dec (unat w)) = w"
proof -
  have "unat w < 2 ^ 64"
    using unsigned_less [of w, where ?'a = nat] by simp
  then have "strtoul 10 (dec (unat w)) = of_nat (unat w)"
    by (subst strtoul_digits) (auto dest: dec_digits)
  then show ?thesis
    by (simp add: parse_u32_def is_up ucast_up_ucast_id)
qed

section \<open>Encoders that work one symbol at a time\<close>

text \<open>
  Most of the encoders are a loop that appends the encoding of one symbol after the other, and
  their decoders a loop that takes one encoded symbol off the front, some of which reject bad
  input. The contract between the two loops is the law of one step; that whole strings round-trip
  follows once, here. A decoder that never rejects is the special case that returns
  \<^verbatim>\<open>Some\<close>.
\<close>

locale partial_symbol_codec =
  fixes esc :: "'a \<Rightarrow> 'b list"
    and dec_opt :: "'b list \<Rightarrow> 'a list option"
    and ok :: "'a \<Rightarrow> bool"
  assumes dec_opt_Nil: "dec_opt [] = Some []"
    and dec_opt_step: "ok c \<Longrightarrow> dec_opt (esc c @ r) = map_option (Cons c) (dec_opt r)"
begin

lemma dec_opt_concat:
  "\<forall>c\<in>set s. ok c \<Longrightarrow> dec_opt (concat (map esc s) @ r) = map_option ((@) s) (dec_opt r)"
  by (induction s; cases "dec_opt r") (auto simp: dec_opt_step)

lemma dec_opt_round_trip: "\<forall>c\<in>set s. ok c \<Longrightarrow> dec_opt (concat (map esc s)) = Some s"
  using dec_opt_concat [of s "[]"] by (simp add: dec_opt_Nil)

lemma esc_injective:
  "\<forall>c\<in>set s. ok c \<Longrightarrow> \<forall>c\<in>set t. ok c \<Longrightarrow>
   concat (map esc s) = concat (map esc t) \<longleftrightarrow> s = t"
  by (metis dec_opt_round_trip option.inject)

end

locale symbol_codec =
  fixes esc :: "'a \<Rightarrow> 'b list"
    and dec_all :: "'b list \<Rightarrow> 'a list"
    and ok :: "'a \<Rightarrow> bool"
  assumes dec_Nil: "dec_all [] = []"
    and dec_step: "ok c \<Longrightarrow> dec_all (esc c @ r) = c # dec_all r"

sublocale symbol_codec \<subseteq> partial_symbol_codec esc "\<lambda>s. Some (dec_all s)" ok
  by unfold_locales (simp_all add: dec_Nil dec_step)

context symbol_codec
begin

lemma dec_concat: "\<forall>c\<in>set s. ok c \<Longrightarrow> dec_all (concat (map esc s) @ r) = s @ dec_all r"
  using dec_opt_concat by simp

lemma round_trip: "\<forall>c\<in>set s. ok c \<Longrightarrow> dec_all (concat (map esc s)) = s"
  using dec_opt_round_trip by simp

end

end
