(* ===== verification/Escape.thy ===== *)
theory Escape
  imports Prelude
begin

text \<open>
  The text encodings of libutil: \<^verbatim>\<open>URLEscape\<close>/\<^verbatim>\<open>URLUnEscape\<close> (urlescape.cpp),
  \<^verbatim>\<open>XmlEscape\<close>/\<^verbatim>\<open>XmlUnEscape\<close> (xmlescape.cpp), \<^verbatim>\<open>QuoteEscape\<close>/\<^verbatim>\<open>QuoteUnEscape\<close>
  (quote_escape.cpp) and \<^verbatim>\<open>PathToURL\<close>/\<^verbatim>\<open>URLToPath\<close> (file.cpp). An encoder appends one
  encoded character after the other to its result; a decoder is the loop over the rest of its input.
  Each pair is an interpretation of \<^verbatim>\<open>symbol_codec\<close>.
\<close>

section \<open>URL escaping\<close>

definition url_reserved :: string where
  "url_reserved = ''$&+,/:?@'' @ [CHR 0x27] @ ''<>'' @ [CHR 0x22] @ ''#%''"

text \<open>
  The comparison \<^verbatim>\<open>c<33 || c>126\<close> is on a signed \<^verbatim>\<open>char\<close>: a byte above 127 is negative and
  so below 33. \<^verbatim>\<open>strchr\<close> also finds the terminating NUL, which is below 33 already.
\<close>

definition url_needs_escape :: "char \<Rightarrow> bool" where
  "url_needs_escape c \<longleftrightarrow> schar c < 33 \<or> schar c > 126 \<or> c = NUL \<or> c \<in> set url_reserved"

definition url_escape_char :: "char \<Rightarrow> string" where
  "url_escape_char c = (if url_needs_escape c then CHR ''%'' # hex2 (byte c AND 0xFF) else [c])"

definition URLEscape :: "string \<Rightarrow> string" where
  "URLEscape s = concat (map url_escape_char s)"

fun url_unescape_loop :: "string \<Rightarrow> string" where
  "url_unescape_loop (p # a # b # r) =
     (if p = CHR ''%'' then chr8 (ucast (strtoul 16 [a, b])) # url_unescape_loop r
      else p # url_unescape_loop (a # b # r))"
| "url_unescape_loop (p # r) = p # url_unescape_loop r"
| "url_unescape_loop [] = []"

definition URLUnEscape :: "string \<Rightarrow> string" where
  "URLUnEscape s = url_unescape_loop (c_str s)"

lemma strtoul_hex2 [simp]:
  assumes "a < 16" "b < 16"
  shows "strtoul 16 [digit_char a, digit_char b] = of_nat (16 * a + b)"
proof -
  have "c_str [digit_char a, digit_char b] = [digit_char a, digit_char b]"
    using assms by (intro c_str_id) (simp add: digit_char_neq [symmetric])
  then show ?thesis
    using assms by (simp add: strtoul_def Let_def digit_char_not_space skip_0x_def digits_value_def)
qed

lemma unat_hex2_value [simp]: "16 * (unat w div 16 mod 16) + unat w mod 16 = unat w mod 256"
  by (simp add: mod_mult2_eq [of "unat w" 16 16, simplified] ac_simps)

lemma chr8_ucast_of_nat: "chr8 (ucast (of_nat n :: u64)) = char_of n"
proof -
  have "unat (ucast (of_nat n :: u64) :: u32) = n mod 2 ^ 32"
    by (simp only: unsigned_ucast_eq unsigned_of_nat take_bit_take_bit) (simp add: take_bit_eq_mod)
  moreover have "n mod 2 ^ 32 mod 256 = n mod 256"
    by (rule mod_mod_cancel) simp
  ultimately show ?thesis
    by (metis chr8_def char_of_mod_256)
qed

lemma hex2_decode: "chr8 (ucast (strtoul 16 (hex2 (byte c)))) = c"
proof -
  have "(of_char c :: nat) mod 256 = of_char c"
    using nat_of_char_less_256 [of c] by simp
  then show ?thesis
    using unat_hex2_value [of "byte c"] by (simp add: hex2_def chr8_ucast_of_nat)
qed

lemma percent_escaped [simp]: "url_needs_escape (CHR ''%'')"
  by (simp add: url_needs_escape_def url_reserved_def)

interpretation url: symbol_codec url_escape_char url_unescape_loop "\<lambda>_. True"
proof
  show "url_unescape_loop [] = []" by simp
next
  fix c r
  have "c \<noteq> CHR ''%'' \<Longrightarrow> url_unescape_loop (c # r) = c # url_unescape_loop r"
    by (cases r rule: list.exhaust; cases "tl r") auto
  then show "url_unescape_loop (url_escape_char c @ r) = c # url_unescape_loop r"
    using hex2_decode [of c] percent_escaped
    by (cases "c = CHR ''%''") (auto simp: url_escape_char_def hex2_def)
qed

text \<open>Un-escaping an escaped string gives the string back.\<close>

theorem URL_round_trip: "URLUnEscape (URLEscape s) = s"
proof -
  have "NUL \<notin> set (url_escape_char c)" for c
    by (auto simp: url_escape_char_def hex2_def url_needs_escape_def )
  then have "c_str (URLEscape s) = URLEscape s"
    by (intro c_str_id) (auto simp: URLEscape_def)
  then show ?thesis
    by (simp add: URLUnEscape_def URLEscape_def url.round_trip)
qed


lemma url_reserved_codes:
  "d \<in> set url_reserved \<Longrightarrow> (of_char d :: nat) < 48 \<or> 57 < (of_char d :: nat) \<and> (of_char d :: nat) < 65"
  by (auto simp: url_reserved_def)

lemma hex_digit_not_escaped: "k < 16 \<Longrightarrow> \<not> url_needs_escape (digit_char k)"
  using url_reserved_codes [of "digit_char k"]
  by (auto simp: url_needs_escape_def schar_def Let_def of_char_digit_char split: if_splits)

lemma url_escape_char_safe: "d \<in> set (url_escape_char c) \<Longrightarrow> d = CHR ''%'' \<or> \<not> url_needs_escape d"
  by (auto simp: url_escape_char_def hex2_def hex_digit_not_escaped split: if_splits)

text \<open>An escaped string holds printable ASCII only, and of the reserved characters only the
  percent sign.\<close>

theorem URLEscape_safe:
  "set (URLEscape s) \<subseteq> {c. 33 \<le> schar c \<and> schar c \<le> 126} - (set url_reserved - {CHR ''%''})"
  using url_escape_char_safe
  by (fastforce simp: URLEscape_def url_needs_escape_def schar_def)

section \<open>XML escaping\<close>

definition xml_keeps :: "char \<Rightarrow> bool" where
  "xml_keeps c \<longleftrightarrow> byte c \<ge> 32 \<or> byte c = 10"

definition xml_escape_char :: "char \<Rightarrow> string" where
  "xml_escape_char c =
     (if c = CHR ''&'' then ''&amp;''
      else if c = CHR 0x22 then ''&quot;''
      else if c = CHR ''<'' then ''&lt;''
      else if c = CHR ''>'' then ''&gt;''
      else if byte c \<ge> 32 \<or> byte c = 10 then [c]
      else [])"

definition XmlEscape :: "string \<Rightarrow> string" where
  "XmlEscape s = concat (map xml_escape_char s)"

text \<open>
  The text between an ampersand and the next semicolon. The code tests the distance of the
  semicolon together with the characters, which is an equality of the two strings; an unknown
  entity is dropped.
\<close>

definition xml_entity :: "string \<Rightarrow> string" where
  "xml_entity name =
     (if name = ''quot'' then [CHR 0x22]
      else if name = ''amp'' then ''&''
      else if name = ''lt'' then ''<''
      else if name = ''gt'' then ''>''
      else [])"

lemma length_tl_dropWhile [termination_simp]: "length (dropWhile P r) - Suc 0 < Suc (length r)"
  using length_dropWhile_le [of P r] by simp

fun xml_unescape_loop :: "string \<Rightarrow> string" where
  "xml_unescape_loop [] = []"
| "xml_unescape_loop (p # r) =
     (if p = CHR ''&'' then
        (if CHR '';'' \<notin> set r then CHR ''&'' # xml_unescape_loop r
         else xml_entity (takeWhile (\<lambda>c. c \<noteq> CHR '';'') r)
              @ xml_unescape_loop (tl (dropWhile (\<lambda>c. c \<noteq> CHR '';'') r)))
      else p # xml_unescape_loop r)"

definition XmlUnEscape :: "string \<Rightarrow> string" where
  "XmlUnEscape s = xml_unescape_loop (c_str s)"

interpretation xml: symbol_codec xml_escape_char xml_unescape_loop xml_keeps
  by unfold_locales (auto simp: xml_escape_char_def xml_keeps_def xml_entity_def)

lemma xml_escape_char_dropped: "\<not> xml_keeps c \<Longrightarrow> xml_escape_char c = []"
  by (auto simp: xml_keeps_def xml_escape_char_def byte_def)

lemma XmlEscape_filter: "XmlEscape s = XmlEscape (filter xml_keeps s)"
  by (induction s) (auto simp: XmlEscape_def xml_escape_char_dropped)

lemma NUL_notin_XmlEscape: "NUL \<notin> set (XmlEscape s)"
proof -
  have "NUL \<notin> set (xml_escape_char c)" for c
    by (auto simp: xml_escape_char_def byte_def)
  then show ?thesis by (auto simp: XmlEscape_def)
qed

text \<open>XML un-escaping gives an escaped string back without its control characters, which the
  encoder drops; text without them comes back unchanged.\<close>

theorem Xml_round_trip: "XmlUnEscape (XmlEscape s) = filter xml_keeps s"
proof -
  have "XmlUnEscape (XmlEscape s) = xml_unescape_loop (XmlEscape (filter xml_keeps s))"
    by (simp add: XmlUnEscape_def c_str_id NUL_notin_XmlEscape flip: XmlEscape_filter)
  also have "\<dots> = filter xml_keeps s"
    unfolding XmlEscape_def by (rule xml.round_trip) simp
  finally show ?thesis .
qed

section \<open>Backslash quoting\<close>

definition quote_escape_char :: "char \<Rightarrow> string" where
  "quote_escape_char c = (if c = CHR 0x22 \<or> c = CHR 0x5C then [CHR 0x5C, c] else [c])"

definition QuoteEscape :: "string \<Rightarrow> string" where
  "QuoteEscape s = concat (map quote_escape_char s)"

text \<open>A backslash is skipped and the character after it, if there is one, is taken as it is.\<close>

fun quote_unescape_loop :: "string \<Rightarrow> string" where
  "quote_unescape_loop [] = []"
| "quote_unescape_loop [p] = (if p = CHR 0x5C then [] else [p])"
| "quote_unescape_loop (p # q # r) =
     (if p = CHR 0x5C then q # quote_unescape_loop r else p # quote_unescape_loop (q # r))"

definition QuoteUnEscape :: "string \<Rightarrow> string" where
  "QuoteUnEscape s = quote_unescape_loop (c_str s)"

lemma quote_unescape_plain [simp]:
  "c \<noteq> CHR 0x5C \<Longrightarrow> quote_unescape_loop (c # r) = c # quote_unescape_loop r"
  by (cases r) auto

interpretation quote: symbol_codec quote_escape_char quote_unescape_loop "\<lambda>_. True"
  by unfold_locales (auto simp: quote_escape_char_def)

text \<open>Quoting round-trips on every string without a NUL character.\<close>

theorem Quote_round_trip:
  assumes "NUL \<notin> set s"
  shows "QuoteUnEscape (QuoteEscape s) = s"
proof -
  have "c_str (QuoteEscape s) = QuoteEscape s"
    using assms by (intro c_str_id) (auto simp: QuoteEscape_def quote_escape_char_def split: if_splits)
  then show ?thesis
    by (simp add: QuoteUnEscape_def QuoteEscape_def quote.round_trip)
qed

theorem Quote_round_trip_witness:
  "QuoteUnEscape (QuoteEscape [CHR ''f'', CHR 0x22, CHR 0x5C]) = [CHR ''f'', CHR 0x22, CHR 0x5C]"
  by (rule Quote_round_trip) simp

section \<open>File URLs\<close>

text \<open>
  \<^verbatim>\<open>isxdigit\<close>, \<^verbatim>\<open>isdigit\<close> and \<^verbatim>\<open>tolower\<close> in the C locale, and the upper-case
  digits of the table \<^verbatim>\<open>uchex\<close>.
\<close>

definition is_digit :: "char \<Rightarrow> bool" where
  "is_digit c = (let n = of_char c :: nat in 48 \<le> n \<and> n \<le> 57)"

definition is_xdigit :: "char \<Rightarrow> bool" where
  "is_xdigit c = (let n = of_char c :: nat in
     48 \<le> n \<and> n \<le> 57 \<or> 65 \<le> n \<and> n \<le> 70 \<or> 97 \<le> n \<and> n \<le> 102)"

definition to_lower :: "char \<Rightarrow> char" where
  "to_lower c = (let n = of_char c :: nat in if 65 \<le> n \<and> n \<le> 90 then char_of (n + 32) else c)"

definition uchex :: string where
  "uchex = ''0123456789ABCDEF''"

definition path_url_plain :: "char \<Rightarrow> bool" where
  "path_url_plain c = (let n = of_char c :: nat in
     65 \<le> n \<and> n \<le> 90 \<or> 97 \<le> n \<and> n \<le> 122 \<or> 48 \<le> n \<and> n \<le> 57
     \<or> c \<in> set (''/-._~'' @ ''!$&'' @ [CHR 0x27] @ ''()*+;='' @ '':@''))"

definition path_url_char :: "char \<Rightarrow> string" where
  "path_url_char c =
     (if path_url_plain c then [c]
      else [CHR ''%'', uchex ! unat (drop_bit 4 (byte c)), uchex ! unat (byte c AND 15)])"

definition PathToURL :: "string \<Rightarrow> string" where
  "PathToURL path = ''file://'' @ concat (map path_url_char path)"

definition url_hex_pair :: "char \<Rightarrow> char \<Rightarrow> char" where
  "url_hex_pair a b =
     (let uc = push_bit 4 (byte a AND 15);
          uc = (if is_digit a then uc else uc + 0x90);
          uc = uc + (byte b AND 15);
          uc = (if is_digit b then uc else uc + 0x9)
      in chr8 uc)"

text \<open>
  The loop of \<^verbatim>\<open>URLToPath\<close> from index 7 on; \<^verbatim>\<open>None\<close> is the early return of an empty
  string on an invalid percent sign. Reading \<^verbatim>\<open>url[i+1]\<close> at the end of a \<^verbatim>\<open>std::string\<close>
  gives NUL, which is no hexadecimal digit.
\<close>

fun url_to_path_loop :: "string \<Rightarrow> string option" where
  "url_to_path_loop [] = Some []"
| "url_to_path_loop (c # r) =
     (if c \<noteq> CHR ''%'' then map_option (Cons c) (url_to_path_loop r)
      else case r of
          a # b # r' \<Rightarrow>
            if is_xdigit a \<and> is_xdigit b then map_option (Cons (url_hex_pair a b)) (url_to_path_loop r')
            else None
        | _ \<Rightarrow> None)"

definition URLToPath :: "string \<Rightarrow> string" where
  "URLToPath url =
     (if map to_lower (take 8 (c_str url)) \<noteq> ''file:///'' then []
      else case url_to_path_loop (drop 7 url) of None \<Rightarrow> [] | Some s \<Rightarrow> s)"


lemma below_16: "h < (16::nat) \<Longrightarrow> h \<in> {0,1,2,3,4,5,6,7,8,9,10,11,12,13,14,15}"
  by simp arith

lemma uchex_digit:
  assumes "h < 16"
  shows "is_xdigit (uchex ! h)" "is_digit (uchex ! h) \<longleftrightarrow> h < 10"
    "byte (uchex ! h) AND 15 = (if h < 10 then of_nat h else of_nat h - 9)"
  using below_16 [OF assms] by (auto simp: uchex_def is_xdigit_def is_digit_def byte_def)

lemma url_hex_pair_uchex:
  assumes "h < 16" "l < 16"
  shows "url_hex_pair (uchex ! h) (uchex ! l) = char_of (16 * h + l)"
proof -
  have "url_hex_pair (uchex ! h) (uchex ! l) = chr8 (of_nat (16 * h + l))"
    using assms by (simp add: url_hex_pair_def Let_def uchex_digit push_bit_eq_mult mult.commute)
  also have "16 * h + l < 2 ^ 32" using assms by simp
  then have "chr8 (of_nat (16 * h + l)) = char_of (16 * h + l)"
    by (simp only: chr8_def unat_of_nat_u32)
  finally show ?thesis .
qed

interpretation path_url: partial_symbol_codec path_url_char url_to_path_loop "\<lambda>_. True"
proof
  show "url_to_path_loop [] = Some []" by simp
next
  fix c r
  define h l where "h = unat (drop_bit 4 (byte c))" and "l = unat (byte c AND 15)"
  have hl: "h = of_char c div 16" "l = of_char c mod 16"
    by (simp_all add: h_def l_def mask_numerals(4) word_nat)
  have "h < 16" "l < 16" and c: "char_of (16 * h + l) = c"
    using nat_of_char_less_256 [of c] by (auto simp: hl less_mult_imp_div_less)
  then have "url_hex_pair (uchex ! h) (uchex ! l) = c"
    "is_xdigit (uchex ! h)" "is_xdigit (uchex ! l)"
    by (simp_all add: url_hex_pair_uchex uchex_digit)
  moreover have "path_url_plain c \<Longrightarrow> c \<noteq> CHR ''%''"
    by (auto simp: path_url_plain_def)
  ultimately show "url_to_path_loop (path_url_char c @ r) = map_option (Cons c) (url_to_path_loop r)"
    unfolding path_url_char_def h_def l_def by simp
qed

text \<open>Every absolute path comes back from its file URL.\<close>

theorem PathToURL_round_trip: "URLToPath (PathToURL (CHR ''/'' # p)) = CHR ''/'' # p"
proof -
  have "path_url_char (CHR ''/'') = ''/''"
    by (simp add: path_url_char_def path_url_plain_def)
  then have "PathToURL (CHR ''/'' # p) = ''file://'' @ concat (map path_url_char (CHR ''/'' # p))"
    "take 8 (c_str (PathToURL (CHR ''/'' # p))) = ''file:///''"
    by (simp_all add: PathToURL_def c_str_def)
  moreover have "map to_lower ''file:///'' = ''file:///''"
    by (simp add: to_lower_def)
  moreover have "url_to_path_loop (concat (map path_url_char (CHR ''/'' # p))) = Some (CHR ''/'' # p)"
    by (rule path_url.dec_opt_round_trip) simp
  ultimately show ?thesis
    by (simp add: URLToPath_def)
qed

end
