(* ===== verification/Schema.thy ===== *)
theory Schema
  imports Prelude "HOL-Library.Monad_Syntax"
begin

text \<open>
  libmediadb/schema.h and schema.cpp: the numbering of the fields and of the item types of a media
  database, and the encoding of a list of child identifiers as a string field.
\<close>

section \<open>Fields and item types\<close>

definition field_ID :: nat where "field_ID = 0"
definition field_TITLE :: nat where "field_TITLE = 1"
definition field_CHILDREN :: nat where "field_CHILDREN = 25"
definition field_IDHIGH :: nat where "field_IDHIGH = 26"
definition field_IDPARENT :: nat where "field_IDPARENT = 27"
definition FIELD_COUNT :: nat where "FIELD_COUNT = 30"

lemmas field_defs =
  field_ID_def field_TITLE_def field_CHILDREN_def field_IDHIGH_def field_IDPARENT_def FIELD_COUNT_def

definition BROWSE_ROOT :: u32 where "BROWSE_ROOT = 0x100"

section \<open>The encoding of a number as a UTF-8 style sequence\<close>

text \<open>
  \<^verbatim>\<open>AppendUTF8\<close> uses the original UTF-8 scheme of up to six bytes, good for 31 bits. Zero,
  which would end a C string, becomes a question mark; a number with the top bit set appends nothing.
\<close>

definition AppendUTF8 :: "string \<Rightarrow> u32 \<Rightarrow> string" where
  "AppendUTF8 s ch = s @
     (if ch = 0 then ''?''
      else if ch < 0x80 then [chr8 ch]
      else if ch < 0x800 then
        [chr8 (0xC0 + drop_bit 6 ch), chr8 (0x80 + (ch AND 0x3F))]
      else if ch < 0x10000 then
        [chr8 (0xE0 + drop_bit 12 ch), chr8 (0x80 + (drop_bit 6 ch AND 0x3F)),
         chr8 (0x80 + (ch AND 0x3F))]
      else if ch < 0x200000 then
        [chr8 (0xF0 + drop_bit 18 ch), chr8 (0x80 + (drop_bit 12 ch AND 0x3F)),
         chr8 (0x80 + (drop_bit 6 ch AND 0x3F)), chr8 (0x80 + (ch AND 0x3F))]
      else if ch < 0x04000000 then
        [chr8 (0xF8 + drop_bit 24 ch), chr8 (0x80 + (drop_bit 18 ch AND 0x3F)),
         chr8 (0x80 + (drop_bit 12 ch AND 0x3F)), chr8 (0x80 + (drop_bit 6 ch AND 0x3F)),
         chr8 (0x80 + (ch AND 0x3F))]
      else if ch < 0x80000000 then
        [chr8 (0xFC + drop_bit 30 ch), chr8 (0x80 + (drop_bit 24 ch AND 0x3F)),
         chr8 (0x80 + (drop_bit 18 ch AND 0x3F)), chr8 (0x80 + (drop_bit 12 ch AND 0x3F)),
         chr8 (0x80 + (drop_bit 6 ch AND 0x3F)), chr8 (0x80 + (ch AND 0x3F))]
      else [])"

text \<open>
  A \<^verbatim>\<open>const char *\<close> into a NUL-terminated buffer is the rest of the buffer, terminator
  included; reading it and stepping past it is \<^verbatim>\<open>fetch\<close>. Reading past the terminator is
  undefined behaviour, \<^verbatim>\<open>None\<close>.
\<close>

fun fetch :: "string \<Rightarrow> (u32 \<times> string) option" where
  "fetch [] = None"
| "fetch (c # r) = Some (byte c, r)"

definition GetUTF8Char :: "string \<Rightarrow> (u32 \<times> string) option" where
  "GetUTF8Char p = do {
     (ch, r) \<leftarrow> fetch p;
     if ch = 0 then Some (ch, p)
     else if ch < 0x80 then Some (ch, r)
     else if ch < 0xC0 then Some (0, r)
     else if ch < 0xE0 then do {
       (ch2, r) \<leftarrow> fetch r;
       Some ((ch2 AND 0x3F) + push_bit 6 (ch AND 0x1F), r) }
     else if ch < 0xF0 then do {
       (ch2, r) \<leftarrow> fetch r; (ch3, r) \<leftarrow> fetch r;
       Some ((ch3 AND 0x3F) + push_bit 6 (ch2 AND 0x3F) + push_bit 12 (ch AND 0xF), r) }
     else if ch < 0xF8 then do {
       (ch2, r) \<leftarrow> fetch r; (ch3, r) \<leftarrow> fetch r; (ch4, r) \<leftarrow> fetch r;
       Some ((ch4 AND 0x3F) + push_bit 6 (ch3 AND 0x3F) + push_bit 12 (ch2 AND 0x3F)
             + push_bit 18 (ch AND 7), r) }
     else if ch < 0xFC then do {
       (ch2, r) \<leftarrow> fetch r; (ch3, r) \<leftarrow> fetch r; (ch4, r) \<leftarrow> fetch r; (ch5, r) \<leftarrow> fetch r;
       Some ((ch5 AND 0x3F) + push_bit 6 (ch4 AND 0x3F) + push_bit 12 (ch3 AND 0x3F)
             + push_bit 18 (ch2 AND 0x3F) + push_bit 24 (ch AND 3), r) }
     else if ch < 0xFE then do {
       (ch2, r) \<leftarrow> fetch r; (ch3, r) \<leftarrow> fetch r; (ch4, r) \<leftarrow> fetch r; (ch5, r) \<leftarrow> fetch r;
       (ch6, r) \<leftarrow> fetch r;
       Some ((ch6 AND 0x3F) + push_bit 6 (ch5 AND 0x3F) + push_bit 12 (ch4 AND 0x3F)
             + push_bit 18 (ch3 AND 0x3F) + push_bit 24 (ch2 AND 0x3F) + push_bit 30 (ch AND 1), r) }
     else Some (0, r) }"

section \<open>The children field\<close>

definition VectorToChildren :: "u32 list \<Rightarrow> string" where
  "VectorToChildren v =
     (if length v = 0 then []
      else foldl AppendUTF8 (AppendUTF8 [] (of_nat (length v))) v)"

fun read_children :: "nat \<Rightarrow> string \<Rightarrow> u32 list option" where
  "read_children 0 p = Some []"
| "read_children (Suc n) p = do {
     (ch, r) \<leftarrow> GetUTF8Char p;
     rest \<leftarrow> read_children n r;
     Some (ch # rest) }"

definition ChildrenToVector :: "string \<Rightarrow> u32 list option" where
  "ChildrenToVector children_field =
     (let ptr = c_str children_field @ [NUL] in
      if hd ptr = NUL then Some []
      else do {
        (n, r) \<leftarrow> GetUTF8Char ptr;
        if n = 0 \<or> n > 20000 then Some [] else read_children (unat n) r })"

section \<open>Properties\<close>

lemma and_mask_of_nat: "(w :: u32) AND mask k = of_nat (unat w mod 2 ^ k)"
  by (simp flip: unat_and_mask_nat)

lemma and_numerals_nat:
  "(w :: u32) AND 63 = of_nat (unat w mod 64)" "w AND 31 = of_nat (unat w mod 32)"
  "w AND 15 = of_nat (unat w mod 16)" "w AND 7 = of_nat (unat w mod 8)"
  "w AND 3 = of_nat (unat w mod 4)" "w AND 1 = of_nat (unat w mod 2)"
  using and_mask_of_nat [of w 6] and_mask_of_nat [of w 5] and_mask_of_nat [of w 4]
    and_mask_of_nat [of w 3] and_mask_of_nat [of w 2] and_mask_of_nat [of w 1]
  by (simp_all add: mask_eq_exp_minus_1)

lemma drop_bit_of_nat_unat: "drop_bit k (w :: u32) = of_nat (unat w div 2 ^ k)"
  by (simp flip: unat_drop_bit_nat)

lemma byte_chr8_of_nat: "n < 256 \<Longrightarrow> byte (chr8 (of_nat n)) = of_nat n"
  by (rule byte_chr8) (simp add: word_less_nat_alt unat_of_nat_u32)

text \<open>The step of the decoder on the bytes of one number, with the number as a natural number.\<close>

lemma small_of_nat:
  assumes "k < 256"
  shows "(of_nat k :: u32) = 0 \<longleftrightarrow> k = 0"
    "(of_nat k :: u32) < 0x80 \<longleftrightarrow> k < 0x80" "(of_nat k :: u32) < 0xC0 \<longleftrightarrow> k < 0xC0"
    "(of_nat k :: u32) < 0xE0 \<longleftrightarrow> k < 0xE0" "(of_nat k :: u32) < 0xF0 \<longleftrightarrow> k < 0xF0"
    "(of_nat k :: u32) < 0xF8 \<longleftrightarrow> k < 0xF8" "(of_nat k :: u32) < 0xFC \<longleftrightarrow> k < 0xFC"
    "(of_nat k :: u32) < 0xFE \<longleftrightarrow> k < 0xFE"
  using assms by (simp_all add: word_less_nat_alt unat_of_nat_u32 word_unat_eq_iff)

lemma mod_offsets:
  "b < 64 \<Longrightarrow> (128 + b) mod 64 = (b::nat)" "a < 32 \<Longrightarrow> (192 + a) mod 32 = (a::nat)"
  "a < 16 \<Longrightarrow> (224 + a) mod 16 = (a::nat)" "a < 8 \<Longrightarrow> (240 + a) mod 8 = (a::nat)"
  "a < 4 \<Longrightarrow> (248 + a) mod 4 = (a::nat)" "a < 2 \<Longrightarrow> (252 + a) mod 2 = (a::nat)"
  using mod_mult_self3 [of 2 64 b] mod_mult_self3 [of 6 32 a] mod_mult_self3 [of 14 16 a]
    mod_mult_self3 [of 30 8 a] mod_mult_self3 [of 62 4 a] mod_mult_self3 [of 126 2 a]
  by simp_all

lemmas decode_simps =
  GetUTF8Char_def byte_chr8_of_nat small_of_nat and_numerals_nat unat_of_nat_u32 mod_offsets
  push_bit_eq_mult

lemma GetUTF8Char_bytes:
  "0 < n \<Longrightarrow> n < 0x80 \<Longrightarrow> GetUTF8Char (chr8 (of_nat n) # r) = Some (of_nat n, r)"
  "a < 32 \<Longrightarrow> b < 64 \<Longrightarrow>
   GetUTF8Char (chr8 (of_nat (192 + a)) # chr8 (of_nat (128 + b)) # r) = Some (of_nat (b + 2^6 * a), r)"
  "a < 16 \<Longrightarrow> b < 64 \<Longrightarrow> c < 64 \<Longrightarrow>
   GetUTF8Char (chr8 (of_nat (224 + a)) # chr8 (of_nat (128 + b)) # chr8 (of_nat (128 + c)) # r)
     = Some (of_nat (c + 2^6 * b + 2^12 * a), r)"
  "a < 8 \<Longrightarrow> b < 64 \<Longrightarrow> c < 64 \<Longrightarrow> d < 64 \<Longrightarrow>
   GetUTF8Char (chr8 (of_nat (240 + a)) # chr8 (of_nat (128 + b)) # chr8 (of_nat (128 + c))
     # chr8 (of_nat (128 + d)) # r) = Some (of_nat (d + 2^6 * c + 2^12 * b + 2^18 * a), r)"
  "a < 4 \<Longrightarrow> b < 64 \<Longrightarrow> c < 64 \<Longrightarrow> d < 64 \<Longrightarrow> e < 64 \<Longrightarrow>
   GetUTF8Char (chr8 (of_nat (248 + a)) # chr8 (of_nat (128 + b)) # chr8 (of_nat (128 + c))
     # chr8 (of_nat (128 + d)) # chr8 (of_nat (128 + e)) # r)
     = Some (of_nat (e + 2^6 * d + 2^12 * c + 2^18 * b + 2^24 * a), r)"
  "a < 2 \<Longrightarrow> b < 64 \<Longrightarrow> c < 64 \<Longrightarrow> d < 64 \<Longrightarrow> e < 64 \<Longrightarrow> f < 64 \<Longrightarrow>
   GetUTF8Char (chr8 (of_nat (252 + a)) # chr8 (of_nat (128 + b)) # chr8 (of_nat (128 + c))
     # chr8 (of_nat (128 + d)) # chr8 (of_nat (128 + e)) # chr8 (of_nat (128 + f)) # r)
     = Some (of_nat (f + 2^6 * e + 2^12 * d + 2^18 * c + 2^24 * b + 2^30 * a), r)"
  by (simp_all add: decode_simps del: of_nat_add) (simp_all add: algebra_simps)

text \<open>The bytes that the encoder appends, in the same form.\<close>

definition utf8_bytes :: "nat \<Rightarrow> nat list" where
  "utf8_bytes n =
     (if n < 0x80 then [n]
      else if n < 0x800 then [192 + n div 2^6, 128 + n mod 64]
      else if n < 0x10000 then [224 + n div 2^12, 128 + n div 2^6 mod 64, 128 + n mod 64]
      else if n < 0x200000 then
        [240 + n div 2^18, 128 + n div 2^12 mod 64, 128 + n div 2^6 mod 64, 128 + n mod 64]
      else if n < 0x04000000 then
        [248 + n div 2^24, 128 + n div 2^18 mod 64, 128 + n div 2^12 mod 64,
         128 + n div 2^6 mod 64, 128 + n mod 64]
      else [252 + n div 2^30, 128 + n div 2^24 mod 64, 128 + n div 2^18 mod 64,
         128 + n div 2^12 mod 64, 128 + n div 2^6 mod 64, 128 + n mod 64])"

lemma AppendUTF8_bytes:
  assumes "0 < ch" "ch < 0x80000000"
  shows "AppendUTF8 s ch = s @ map (\<lambda>b. chr8 (of_nat b)) (utf8_bytes (unat ch))"
  using assms
  by (auto simp add: AppendUTF8_def utf8_bytes_def word_less_nat_alt drop_bit_of_nat_unat and_numerals_nat
    unat_of_nat_u32)

lemma sextets_sum: "n mod 64 + 2^6 * (n div 2^6 mod 64) = n mod (2^12 :: nat)"
  "n mod 2^12 + 2^12 * (n div 2^12 mod 64) = n mod (2^18 :: nat)"
  "n mod 2^18 + 2^18 * (n div 2^18 mod 64) = n mod (2^24 :: nat)"
  "n mod 2^24 + 2^24 * (n div 2^24 mod 64) = n mod (2^30 :: nat)"
  using mod_mult2_eq [of n "2^6" 64] mod_mult2_eq [of n "2^12" 64] mod_mult2_eq [of n "2^18" 64]
    mod_mult2_eq [of n "2^24" 64] by simp_all


lemma GetUTF8Char_utf8_bytes:
  assumes "0 < n" "n < 2 ^ 31"
  shows "GetUTF8Char (map (\<lambda>b. chr8 (of_nat b)) (utf8_bytes n) @ r) = Some (of_nat n, r)"
proof -
  have top: "n mod 2 ^ k + 2 ^ k * (n div 2 ^ k) = n" for k by simp
  have bounds: "n < 0x800 \<Longrightarrow> n div 2^6 < 32" "n < 0x10000 \<Longrightarrow> n div 2^12 < 16"
    "n < 0x200000 \<Longrightarrow> n div 2^18 < 8" "n < 0x04000000 \<Longrightarrow> n div 2^24 < 4" "n div 2^30 < 2"
    using assms(2) by (simp_all add: less_mult_imp_div_less)
  note e = sextets_sum [of n] top
  have m: "x mod 64 < 64" for x :: nat by simp
  note step2 = GetUTF8Char_bytes(2) [OF bounds(1) m, of n r, unfolded e]
  note step3 = GetUTF8Char_bytes(3) [OF bounds(2) m m, of "n div 2^6" n r, unfolded e]
  note step4 = GetUTF8Char_bytes(4) [OF bounds(3) m m m, of "n div 2^12" "n div 2^6" n r, unfolded e]
  note step5 = GetUTF8Char_bytes(5)
    [OF bounds(4) m m m m, of "n div 2^18" "n div 2^12" "n div 2^6" n r, unfolded e]
  note step6 = GetUTF8Char_bytes(6)
    [OF bounds(5) m m m m m, of "n div 2^24" "n div 2^18" "n div 2^12" "n div 2^6" n r, unfolded e]
  consider "n < 0x80" | "\<not> n < 0x80" "n < 0x800" | "\<not> n < 0x800" "n < 0x10000"
    | "\<not> n < 0x10000" "n < 0x200000" | "\<not> n < 0x200000" "n < 0x04000000" | "\<not> n < 0x04000000"
    by fastforce
  then show ?thesis
  proof cases
    case 1
    then show ?thesis using assms by (simp add: utf8_bytes_def GetUTF8Char_bytes(1))
  next
    case 2
    then show ?thesis unfolding utf8_bytes_def using step2 by simp
  next
    case 3
    then show ?thesis unfolding utf8_bytes_def using step3 by simp
  next
    case 4
    then show ?thesis unfolding utf8_bytes_def using step4 by simp
  next
    case 5
    then show ?thesis unfolding utf8_bytes_def using step5 by simp
  next
    case 6
    then show ?thesis unfolding utf8_bytes_def using step6 by simp
  qed
qed

lemma AppendUTF8_append: "AppendUTF8 s ch = s @ AppendUTF8 [] ch"
  by (simp add: AppendUTF8_def)

lemma foldl_AppendUTF8: "foldl AppendUTF8 s v = s @ concat (map (AppendUTF8 []) v)"
proof (induction v arbitrary: s)
  case (Cons x v)
  then show ?case using AppendUTF8_append [of s x] by simp
qed simp

lemma AppendUTF8_zero: "AppendUTF8 s 0 = s @ ''?''"
  by (simp add: AppendUTF8_def)

lemma AppendUTF8_big: "0x80000000 \<le> x \<Longrightarrow> AppendUTF8 s x = s"
proof -
  assume "0x80000000 \<le> x"
  then have "2147483648 \<le> unat x" by (simp add: word_le_nat_alt)
  then show ?thesis
    by (simp add: AppendUTF8_def word_less_nat_alt word_unat_eq_iff)
qed

definition child_ok :: "u32 \<Rightarrow> bool" where
  "child_ok x \<longleftrightarrow> 0 < x \<and> x < 0x80000000"

lemma GetUTF8Char_AppendUTF8:
  assumes "child_ok x"
  shows "GetUTF8Char (AppendUTF8 [] x @ r) = Some (x, r)"
proof -
  have "0 < unat x" "unat x < 2 ^ 31"
    using assms by (simp_all add: child_ok_def word_less_nat_alt)
  then show ?thesis
    using assms GetUTF8Char_utf8_bytes [of "unat x" r] by (simp add: AppendUTF8_bytes child_ok_def)
qed

lemma read_children_concat:
  "\<forall>x\<in>set v. child_ok x \<Longrightarrow> read_children (length v) (concat (map (AppendUTF8 []) v) @ r) = Some v"
  by (induction v) (simp_all add: GetUTF8Char_AppendUTF8)

lemma utf8_bytes_range: "0 < n \<Longrightarrow> n < 2 ^ 31 \<Longrightarrow> b \<in> set (utf8_bytes n) \<Longrightarrow> 0 < b \<and> b < 256"
  using pos_mod_bound [of 64]
  by (auto simp: utf8_bytes_def less_mult_imp_div_less dest!: spec split: if_splits)

lemma chr8_of_nat_NUL: "0 < b \<Longrightarrow> b < 256 \<Longrightarrow> chr8 (of_nat b) \<noteq> NUL"
proof
  assume "0 < b" "b < 256" "chr8 (of_nat b) = NUL"
  then have "(of_nat b :: u32) = byte NUL"
    by (metis byte_chr8_of_nat)
  then have "unat (of_nat b :: u32) = 0"
    by (simp add: byte_def)
  then show False
    using \<open>0 < b\<close> \<open>b < 256\<close> by (simp add: unat_of_nat_u32)
qed

lemma AppendUTF8_no_NUL: "NUL \<notin> set (AppendUTF8 [] x)"
proof (cases "child_ok x")
  case True
  then have "NUL \<noteq> chr8 (of_nat b)" if "b \<in> set (utf8_bytes (unat x))" for b
    using utf8_bytes_range [OF _ _ that] chr8_of_nat_NUL [of b]
    by (auto simp: child_ok_def word_less_nat_alt)
  with True show ?thesis
    by (auto simp: AppendUTF8_bytes child_ok_def)
next
  case False
  then have "x = 0 \<or> 0x80000000 \<le> x"
    by (auto simp: child_ok_def word_greater_zero_iff not_less)
  then show ?thesis
    by (auto simp: AppendUTF8_zero AppendUTF8_big)
qed


lemma AppendUTF8_nonempty: "child_ok x \<Longrightarrow> AppendUTF8 [] x \<noteq> []"
  by (auto simp: AppendUTF8_def child_ok_def)

lemma VectorToChildren_concat:
  "v \<noteq> [] \<Longrightarrow> VectorToChildren v = concat (map (AppendUTF8 []) (of_nat (length v) # v))"
  by (simp add: VectorToChildren_def foldl_AppendUTF8)

lemma c_str_VectorToChildren [simp]: "c_str (VectorToChildren v) = VectorToChildren v"
proof (cases "v = []")
  case False
  then have "NUL \<notin> set (VectorToChildren v)"
    by (auto simp: VectorToChildren_concat AppendUTF8_no_NUL)
  then show ?thesis by (rule c_str_id)
qed (simp add: VectorToChildren_def c_str_def)

lemma VectorToChildren_Nil [simp]: "VectorToChildren [] = []"
  by (simp add: VectorToChildren_def)

lemma ChildrenToVector_Nil [simp]: "ChildrenToVector [] = Some []"
  by (simp add: ChildrenToVector_def c_str_def)

text \<open>Decoding starts with the length, when that is a number the encoding can carry.\<close>

lemma ChildrenToVector_VectorToChildren:
  assumes "v \<noteq> []" "length v < 2 ^ 31"
  shows "ChildrenToVector (VectorToChildren v) =
    (if length v > 20000 then Some []
     else read_children (length v) (concat (map (AppendUTF8 []) v) @ [NUL]))"
proof -
  define n where "n = (of_nat (length v) :: u32)"
  have un: "unat n = length v"
    using assms(2) by (simp add: n_def unat_of_nat_u32)
  then have ok: "child_ok n"
    using assms by (simp add: child_ok_def word_less_nat_alt)
  let ?body = "concat (map (AppendUTF8 []) v) @ [NUL]"
  have buf: "c_str (VectorToChildren v) @ [NUL] = AppendUTF8 [] n @ ?body"
    unfolding c_str_VectorToChildren using assms(1) by (simp add: VectorToChildren_concat n_def)
  have "hd (AppendUTF8 [] n @ ?body) \<noteq> NUL"
    using AppendUTF8_nonempty [OF ok] AppendUTF8_no_NUL [of n] by (metis hd_append2 hd_in_set)
  moreover have "n \<noteq> 0" using ok by (auto simp: child_ok_def)
  ultimately show ?thesis
    unfolding ChildrenToVector_def buf
    by (simp add: Let_def GetUTF8Char_AppendUTF8 [OF ok] un word_less_nat_alt)
qed

lemma children_decode:
  assumes "length v \<le> 20000" "\<forall>x\<in>set v. child_ok x"
  shows "ChildrenToVector (VectorToChildren v) = Some v"
proof (cases "v = []")
  case False
  then show ?thesis
    using assms read_children_concat [of v "[NUL]"] by (simp add: ChildrenToVector_VectorToChildren)
qed simp

text \<open>C12: A list of up to 20000 child identifiers, none of them zero or above 31 bits, survives the
  children field.\<close>

theorem children_round_trip:
  assumes "length v \<le> 20000" "\<forall>x\<in>set v. child_ok x"
  shows "ChildrenToVector (VectorToChildren v) = Some v"
  using assms by (rule children_decode)

theorem children_round_trip_witness:
  "ChildrenToVector (VectorToChildren [130, 10000, 100000, 0x400000, 0x4000000, 0x40000000])
   = Some [130, 10000, 100000, 0x400000, 0x4000000, 0x40000000]"
  by (rule children_round_trip) (simp_all add: child_ok_def)

text \<open>A list of more than 20000 children is read back as an empty list, without an error.\<close>

theorem children_too_many:
  assumes "20000 < length v" "length v < 2 ^ 31"
  shows "ChildrenToVector (VectorToChildren v) = Some []"
  using assms by (subst ChildrenToVector_VectorToChildren) auto

theorem children_too_many_witness:
  "ChildrenToVector (VectorToChildren (replicate 20001 5)) = Some []"
  by (rule children_too_many) simp_all

lemma read_children_zeros: "read_children n [NUL] = Some (replicate n 0)"
  by (induction n) (simp_all add: GetUTF8Char_def byte_def)

lemma read_children_append:
  "\<forall>x\<in>set v. child_ok x \<Longrightarrow>
   read_children (length v + k) (concat (map (AppendUTF8 []) v) @ r) = map_option ((@) v) (read_children k r)"
  by (induction v; cases "read_children k r") (simp_all add: GetUTF8Char_AppendUTF8)

lemma children_decode_lost:
  assumes "\<forall>x\<in>set v. child_ok x" "\<forall>x\<in>set w. 0x80000000 \<le> x" "w \<noteq> []" "length v + length w \<le> 20000"
  shows "ChildrenToVector (VectorToChildren (v @ w)) = Some (v @ replicate (length w) 0)"
proof -
  have "concat (map (AppendUTF8 []) w) = []"
    using assms(2) by (simp add: AppendUTF8_big)
  then have body: "concat (map (AppendUTF8 []) (v @ w)) = concat (map (AppendUTF8 []) v)"
    by (simp only: map_append concat_append append_Nil2)
  have "read_children (length (v @ w)) (concat (map (AppendUTF8 []) (v @ w)) @ [NUL])
      = Some (v @ replicate (length w) 0)"
    unfolding body
    using read_children_append [OF assms(1), of "length w" "[NUL]"] by (simp add: read_children_zeros)
  then show ?thesis
    using assms(3,4) ChildrenToVector_VectorToChildren [of "v @ w"] by simp
qed

text \<open>Identifiers with the top bit set are lost: at the end of a list they come back as zeros.\<close>

theorem children_top_bit_lost:
  assumes "\<forall>x\<in>set v. child_ok x" "\<forall>x\<in>set w. 0x80000000 \<le> x" "w \<noteq> []" "length v + length w \<le> 20000"
  shows "ChildrenToVector (VectorToChildren (v @ w)) = Some (v @ replicate (length w) 0)"
  using assms by (rule children_decode_lost)

theorem children_top_bit_lost_witness:
  "ChildrenToVector (VectorToChildren ([0x120] @ [0x80000120])) = Some ([0x120] @ replicate (length [0x80000120::u32]) 0)"
  by (rule children_top_bit_lost) (simp_all add: child_ok_def)

end
