(* ===== verification/StdMap.thy ===== *)
theory StdMap
  imports Prelude
begin

text \<open>
  The standard containers the database is made of. A \<^verbatim>\<open>std::map\<close> is the list of its
  entries in key order, an iterator into it the rest of that list, \<^verbatim>\<open>end()\<close> the empty list;
  a \<^verbatim>\<open>std::set\<close> is the list of its elements in order. The second part is the interface of an
  index from keys to sets of record numbers, and the lemma that an index which every change of a
  record updates keeps tracking the records.
\<close>

section \<open>Ordered maps\<close>

type_synonym ('k, 'v) smap = "('k \<times> 'v) list"

definition smap_ok :: "('k::linorder, 'v) smap \<Rightarrow> bool" where
  "smap_ok m \<longleftrightarrow> sorted_wrt (<) (map fst m)"

definition smap_find :: "('k, 'v) smap \<Rightarrow> 'k \<Rightarrow> 'v option" where
  "smap_find m k = map_of m k"

fun smap_set :: "'k::linorder \<Rightarrow> 'v \<Rightarrow> ('k, 'v) smap \<Rightarrow> ('k, 'v) smap" where
  "smap_set k v [] = [(k, v)]"
| "smap_set k v ((k', v') # m) =
     (if k < k' then (k, v) # (k', v') # m
      else if k = k' then (k, v) # m
      else (k', v') # smap_set k v m)"

definition smap_erase :: "'k \<Rightarrow> ('k, 'v) smap \<Rightarrow> ('k, 'v) smap" where
  "smap_erase k m = filter (\<lambda>(k', v). k' \<noteq> k) m"

definition smap_upper_bound :: "('k::linorder, 'v) smap \<Rightarrow> 'k \<Rightarrow> ('k, 'v) smap" where
  "smap_upper_bound m k = dropWhile (\<lambda>(k', v). k' \<le> k) m"

definition smap_lower_bound :: "('k::linorder, 'v) smap \<Rightarrow> 'k \<Rightarrow> ('k, 'v) smap" where
  "smap_lower_bound m k = dropWhile (\<lambda>(k', v). k' < k) m"

lemma smap_ok_Nil [simp]: "smap_ok []"
  by (simp add: smap_ok_def)

lemma smap_ok_Cons: "smap_ok ((k, v) # m) \<longleftrightarrow> smap_ok m \<and> (\<forall>k'\<in>fst ` set m. k < k')"
  by (auto simp: smap_ok_def)

lemma smap_find_Nil [simp]: "smap_find [] k = None"
  by (simp add: smap_find_def)

lemma smap_find_Cons [simp]: "smap_find ((k', v) # m) k = (if k = k' then Some v else smap_find m k)"
  by (simp add: smap_find_def)

lemma smap_find_None: "smap_find m k = None \<longleftrightarrow> k \<notin> fst ` set m"
  by (simp add: smap_find_def map_of_eq_None_iff)

lemma fst_set_smap_set [simp]: "fst ` set (smap_set k v m) = insert k (fst ` set m)"
  by (induction k v m rule: smap_set.induct) auto

lemma smap_ok_set [simp]: "smap_ok m \<Longrightarrow> smap_ok (smap_set k v m)"
  by (induction k v m rule: smap_set.induct) (auto simp: smap_ok_Cons)

lemma smap_find_set [simp]:
  "smap_ok m \<Longrightarrow> smap_find (smap_set k v m) j = (if j = k then Some v else smap_find m j)"
  by (induction k v m rule: smap_set.induct) (auto simp: smap_ok_Cons)

lemma smap_ok_filter: "smap_ok m \<Longrightarrow> smap_ok (filter P m)"
  by (induction m) (auto simp: smap_ok_Cons)

lemma smap_ok_erase [simp]: "smap_ok m \<Longrightarrow> smap_ok (smap_erase k m)"
  by (simp add: smap_erase_def smap_ok_filter)

lemma smap_find_erase [simp]: "smap_find (smap_erase k m) j = (if j = k then None else smap_find m j)"
  by (induction m) (auto simp: smap_erase_def)

lemma set_smap_set: "smap_ok m \<Longrightarrow> set (smap_set k v m) = insert (k, v) {e \<in> set m. fst e \<noteq> k}"
  by (induction k v m rule: smap_set.induct) (auto simp: smap_ok_Cons)

lemma smap_ok_distinct: "smap_ok m \<Longrightarrow> distinct (map fst m)"
  unfolding smap_ok_def using strict_sorted_iff by blast

lemma smap_in_set: "smap_ok m \<Longrightarrow> (k, v) \<in> set m \<longleftrightarrow> smap_find m k = Some v"
  by (simp add: smap_find_def map_of_eq_Some_iff smap_ok_distinct)

lemma smap_upper_bound_filter: "smap_ok m \<Longrightarrow> smap_upper_bound m k = filter (\<lambda>(j, v). k < j) m"
  by (induction m) (auto simp: smap_upper_bound_def smap_ok_Cons not_le intro!: filter_True [symmetric],
      force)

lemma smap_lower_bound_filter: "smap_ok m \<Longrightarrow> smap_lower_bound m k = filter (\<lambda>(j, v). k \<le> j) m"
  by (induction m) (auto simp: smap_lower_bound_def smap_ok_Cons not_less intro!: filter_True [symmetric],
      force)

section \<open>Ordered sets\<close>

definition sset_ok :: "'a::linorder list \<Rightarrow> bool" where
  "sset_ok s \<longleftrightarrow> sorted_wrt (<) s"

fun sset_insert :: "'a::linorder \<Rightarrow> 'a list \<Rightarrow> 'a list" where
  "sset_insert x [] = [x]"
| "sset_insert x (y # s) = (if x < y then x # y # s else if x = y then y # s else y # sset_insert x s)"

definition sset_erase :: "'a \<Rightarrow> 'a list \<Rightarrow> 'a list" where
  "sset_erase x s = filter (\<lambda>y. y \<noteq> x) s"

lemma set_sset_insert [simp]: "set (sset_insert x s) = insert x (set s)"
  by (induction x s rule: sset_insert.induct) auto

lemma sset_ok_insert [simp]: "sset_ok s \<Longrightarrow> sset_ok (sset_insert x s)"
  by (induction x s rule: sset_insert.induct) (auto simp: sset_ok_def)

lemma set_sset_erase [simp]: "set (sset_erase x s) = set s - {x}"
  by (auto simp: sset_erase_def)

lemma sset_erase_Nil: "sset_erase x s = [] \<longleftrightarrow> set s \<subseteq> {x}"
  by (auto simp: sset_erase_def filter_empty_conv)

lemma sset_ok_erase [simp]: "sset_ok s \<Longrightarrow> sset_ok (sset_erase x s)"
  by (simp add: sset_ok_def sset_erase_def sorted_wrt_filter)

lemma sset_insert_nonempty [simp]: "sset_insert x s \<noteq> []"
  by (cases s) auto

section \<open>Indexes\<close>

text \<open>
  The contract of an index: which records are posted under a key after a record has been added to
  or dropped from a key. Inside it, what the owner of an index relies on: if the index tracks the
  function \<^verbatim>\<open>f\<close> from records to keys, it still does after the updates that go with a change
  of one record's key.
\<close>

locale posting_index =
  fixes postings :: "'i \<Rightarrow> 'k \<Rightarrow> 'r set"
    and add :: "'k \<Rightarrow> 'r \<Rightarrow> 'i \<Rightarrow> 'i"
    and drop :: "'k \<Rightarrow> 'r \<Rightarrow> 'i \<Rightarrow> 'i"
    and invar :: "'i \<Rightarrow> bool"
  assumes postings_add: "invar i \<Longrightarrow> postings (add k r i) = (postings i)(k := insert r (postings i k))"
    and postings_drop: "invar i \<Longrightarrow> postings (drop k r i) = (postings i)(k := postings i k - {r})"
    and invar_add: "invar i \<Longrightarrow> invar (add k r i)"
    and invar_drop: "invar i \<Longrightarrow> invar (drop k r i)"
begin

lemma tracks_drop:
  assumes "invar i" "\<forall>k. postings i k = {r. f r = Some k}"
  shows "postings (case f r of Some k0 \<Rightarrow> drop k0 r i | None \<Rightarrow> i) k = {r'. (f(r := None)) r' = Some k}"
  using assms by (auto simp: postings_drop split: option.splits)

lemma invar_case_drop: "invar i \<Longrightarrow> invar (case ko of Some k0 \<Rightarrow> drop k0 r i | None \<Rightarrow> i)"
  by (auto simp: invar_drop split: option.splits)

lemma tracks_move:
  assumes "invar i" "\<forall>k. postings i k = {r. f r = Some k}"
  shows "postings (add k1 r (case f r of Some k0 \<Rightarrow> drop k0 r i | None \<Rightarrow> i)) k
    = {r'. (f(r := Some k1)) r' = Some k}"
  using tracks_drop [OF assms, of r] invar_case_drop [OF assms(1), of r "f r"]
  by (auto simp: postings_add split: if_splits)

lemma invar_move: "invar i \<Longrightarrow> invar (add k1 r (case ko of Some k0 \<Rightarrow> drop k0 r i | None \<Rightarrow> i))"
  by (simp add: invar_add invar_case_drop)

end

end
