(* ===== verification/SteamDb.thy ===== *)
theory SteamDb
  imports StdMap
begin

text \<open>
  libdbsteam: the in-memory database (\<^verbatim>\<open>db::steam::Database\<close>, db.h and db.cpp) and the
  operations that every cursor on it shares (\<^verbatim>\<open>db::steam::Recordset\<close>, rs.cpp): reading and
  writing a field with the upkeep of the per-field indexes, adding and deleting records.
\<close>

section \<open>State\<close>

definition FIELD_STRING :: u32 where "FIELD_STRING = 0x0"
definition FIELD_INT :: u32 where "FIELD_INT = 0x1"
definition FIELD_TYPEMASK :: u32 where "FIELD_TYPEMASK = 0x7"
definition FIELD_INDEXED :: u32 where "FIELD_INDEXED = 0x8"

definition is_int_type :: "u32 \<Rightarrow> bool" where
  "is_int_type flags \<longleftrightarrow> flags AND FIELD_TYPEMASK = FIELD_INT"

definition is_string_type :: "u32 \<Rightarrow> bool" where
  "is_string_type flags \<longleftrightarrow> flags AND FIELD_TYPEMASK = FIELD_STRING"

definition is_indexed :: "u32 \<Rightarrow> bool" where
  "is_indexed flags \<longleftrightarrow> flags AND FIELD_INDEXED \<noteq> 0"

text \<open>
  A field value holds a string, an integer, or both, with a flag for each that says it is
  current. The bit flags of the C++ are booleans here.
\<close>

record field_value =
  fv_s :: string
  fv_i :: u32
  svalid :: bool
  ivalid :: bool

definition FieldValue :: field_value where
  "FieldValue = \<lparr>fv_s = [], fv_i = 0, svalid = False, ivalid = False\<rparr>"

type_synonym row = "field_value list"
type_synonym stringindex = "(string, u32 list) smap"
type_synonym intindex = "(u32, u32 list) smap"

record steam =
  m_nfields :: nat
  m_next_recno :: u32
  m_fields :: "u32 list"
  m_data :: "(u32, row) smap"
  m_stringindexes :: "stringindex list"
  m_intindexes :: "intindex list"

fun apply_field_infos :: "(nat \<times> u32) list \<Rightarrow> u32 list \<Rightarrow> u32 list" where
  "apply_field_infos [] fs = fs"
| "apply_field_infos ((which, flags) # ifi) fs =
     (if which \<noteq> 0 \<or> flags \<noteq> 0 then apply_field_infos ifi (fs[which := flags]) else fs)"

definition Database :: "nat \<Rightarrow> (nat \<times> u32) list \<Rightarrow> steam" where
  "Database nfields ifi =
     \<lparr>m_nfields = nfields, m_next_recno = 0,
      m_fields = apply_field_infos ifi (replicate nfields 0), m_data = [],
      m_stringindexes = replicate nfields [], m_intindexes = replicate nfields []\<rparr>"

definition SetFieldInfo :: "nat \<Rightarrow> u32 \<Rightarrow> steam \<Rightarrow> steam" where
  "SetFieldInfo which flags db = db\<lparr>m_fields := (m_fields db)[which := flags]\<rparr>"

text \<open>The cursor of the base class: a current record number and the end-of-results flag.\<close>

record cursor =
  m_record :: u32
  m_eof :: bool

definition Recordset :: "steam \<Rightarrow> cursor" where
  "Recordset db =
     (case m_data db of [] \<Rightarrow> \<lparr>m_record = 0, m_eof = True\<rparr>
      | (r, _) # _ \<Rightarrow> \<lparr>m_record = r, m_eof = False\<rparr>)"

definition SetRecordNumber :: "u32 \<Rightarrow> cursor \<Rightarrow> cursor" where
  "SetRecordNumber which rs = rs\<lparr>m_record := which, m_eof := False\<rparr>"

definition IsEOF :: "cursor \<Rightarrow> bool" where
  "IsEOF rs = m_eof rs"

section \<open>Indexes\<close>

text \<open>
  \<^verbatim>\<open>index[k].insert(r)\<close>, and \<^verbatim>\<open>index[k].erase(r); if (index[k].empty()) index.erase(k)\<close>,
  where \<^verbatim>\<open>index[k]\<close> makes an empty set if there is none.
\<close>

definition index_get :: "('k, u32 list) smap \<Rightarrow> 'k \<Rightarrow> u32 list" where
  "index_get i k = (case smap_find i k of None \<Rightarrow> [] | Some s \<Rightarrow> s)"

definition index_add :: "'k::linorder \<Rightarrow> u32 \<Rightarrow> ('k, u32 list) smap \<Rightarrow> ('k, u32 list) smap" where
  "index_add k r i = smap_set k (sset_insert r (index_get i k)) i"

definition index_drop :: "'k::linorder \<Rightarrow> u32 \<Rightarrow> ('k, u32 list) smap \<Rightarrow> ('k, u32 list) smap" where
  "index_drop k r i =
     (let i = smap_set k (sset_erase r (index_get i k)) i in
      if index_get i k = [] then smap_erase k i else i)"

definition string_add :: "nat \<Rightarrow> string \<Rightarrow> u32 \<Rightarrow> steam \<Rightarrow> steam" where
  "string_add f k r db = db\<lparr>m_stringindexes := (m_stringindexes db)[f := index_add k r (m_stringindexes db ! f)]\<rparr>"

definition string_drop :: "nat \<Rightarrow> string \<Rightarrow> u32 \<Rightarrow> steam \<Rightarrow> steam" where
  "string_drop f k r db = db\<lparr>m_stringindexes := (m_stringindexes db)[f := index_drop k r (m_stringindexes db ! f)]\<rparr>"

definition int_add :: "nat \<Rightarrow> u32 \<Rightarrow> u32 \<Rightarrow> steam \<Rightarrow> steam" where
  "int_add f k r db = db\<lparr>m_intindexes := (m_intindexes db)[f := index_add k r (m_intindexes db ! f)]\<rparr>"

definition int_drop :: "nat \<Rightarrow> u32 \<Rightarrow> u32 \<Rightarrow> steam \<Rightarrow> steam" where
  "int_drop f k r db = db\<lparr>m_intindexes := (m_intindexes db)[f := index_drop k r (m_intindexes db ! f)]\<rparr>"

section \<open>Operations of a cursor\<close>

text \<open>
  \<^verbatim>\<open>i->second[which]\<close> is a reference, so a change of the field value changes the record. The
  field number is in range in every caller; outside it the C++ has no defined behaviour.
\<close>

definition put_value :: "u32 \<Rightarrow> nat \<Rightarrow> field_value \<Rightarrow> steam \<Rightarrow> steam" where
  "put_value r which v db =
     (case smap_find (m_data db) r of None \<Rightarrow> db
      | Some row \<Rightarrow> db\<lparr>m_data := smap_set r (row[which := v]) (m_data db)\<rparr>)"

definition GetInteger :: "steam \<Rightarrow> cursor \<Rightarrow> nat \<Rightarrow> u32 \<times> steam" where
  "GetInteger db rs which =
     (if m_eof rs then (0, db)
      else case smap_find (m_data db) (m_record rs) of
          None \<Rightarrow> (0, db)
        | Some row \<Rightarrow>
            (let v = row ! which in
             if ivalid v then (fv_i v, db)
             else if svalid v then
               (let n = parse_u32 (fv_s v) in
                (n, put_value (m_record rs) which (v\<lparr>ivalid := True, fv_i := n\<rparr>) db))
             else (0, db)))"

definition GetString :: "steam \<Rightarrow> cursor \<Rightarrow> nat \<Rightarrow> string" where
  "GetString db rs which =
     (if m_eof rs then []
      else case smap_find (m_data db) (m_record rs) of
          None \<Rightarrow> []
        | Some row \<Rightarrow>
            (let v = row ! which in
             if svalid v then fv_s v
             else if ivalid v \<and> fv_i v \<noteq> 0 then dec (unat (fv_i v))
             else []))"

definition SetString :: "steam \<Rightarrow> cursor \<Rightarrow> nat \<Rightarrow> string \<Rightarrow> u32 \<times> steam" where
  "SetString db rs which s =
     (if m_eof rs then (ENOENT, db)
      else case smap_find (m_data db) (m_record rs) of
          None \<Rightarrow> (ENOENT, db)
        | Some row \<Rightarrow>
            (let r = m_record rs; v = row ! which in
             if svalid v \<and> fv_s v = s then (0, db)
             else
               (let flags = m_fields db ! which;
                    (db, v) =
                      (if is_indexed flags then
                         (if is_int_type flags then
                            (let db = (if ivalid v then int_drop which (fv_i v) r db else db);
                                 v = v\<lparr>fv_i := parse_u32 s, ivalid := True\<rparr>
                             in (int_add which (fv_i v) r db, v))
                          else
                            (let db = (if svalid v then string_drop which (fv_s v) r db else db)
                             in (string_add which s r db, v\<lparr>ivalid := False\<rparr>)))
                       else (db, v\<lparr>ivalid := False\<rparr>));
                    v =
                      (if is_int_type flags then
                         (let v = (if \<not> ivalid v then v\<lparr>fv_i := parse_u32 s, ivalid := True\<rparr> else v)
                          in v\<lparr>fv_s := dec (unat (fv_i v))\<rparr>)
                       else v\<lparr>fv_s := s\<rparr>)
                in (0, put_value r which (v\<lparr>svalid := True\<rparr>) db))))"

text \<open>In \<^verbatim>\<open>SetInteger\<close> and \<^verbatim>\<open>Delete\<close> the \<^verbatim>\<open>default\<close> of the switch is the
  integer case, in \<^verbatim>\<open>SetString\<close> it is the string case.\<close>

definition SetInteger :: "steam \<Rightarrow> cursor \<Rightarrow> nat \<Rightarrow> u32 \<Rightarrow> u32 \<times> steam" where
  "SetInteger db rs which n =
     (if m_eof rs then (ENOENT, db)
      else case smap_find (m_data db) (m_record rs) of
          None \<Rightarrow> (ENOENT, db)
        | Some row \<Rightarrow>
            (let r = m_record rs; v = row ! which; flags = m_fields db ! which;
                 (db, v) =
                   (if is_indexed flags then
                      (if is_string_type flags then
                         (let db = (if svalid v then string_drop which (fv_s v) r db else db);
                              v = v\<lparr>fv_s := dec (unat n), svalid := True\<rparr>
                          in (string_add which (fv_s v) r db, v))
                       else
                         (let db = (if ivalid v then int_drop which (fv_i v) r db else db)
                          in (int_add which n r db, v\<lparr>svalid := False\<rparr>)))
                    else (db, v\<lparr>svalid := False\<rparr>))
             in (0, put_value r which (v\<lparr>fv_i := n, ivalid := True\<rparr>) db)))"

definition AddRecord :: "steam \<Rightarrow> cursor \<Rightarrow> u32 \<times> cursor \<times> steam" where
  "AddRecord db rs =
     (0, rs\<lparr>m_record := m_next_recno db, m_eof := False\<rparr>,
      db\<lparr>m_next_recno := m_next_recno db + 1,
         m_data := smap_set (m_next_recno db)
           (case smap_find (m_data db) (m_next_recno db) of
              None \<Rightarrow> replicate (m_nfields db) FieldValue
            | Some row \<Rightarrow> take (m_nfields db) row @ replicate (m_nfields db - length row) FieldValue)
           (m_data db)\<rparr>)"

definition Commit :: "steam \<Rightarrow> u32 \<times> steam" where
  "Commit db = (0, db)"

text \<open>
  \<^verbatim>\<open>Delete\<close> removes the record from the indexes of all fields, in order, then the record. The
  caller's \<^verbatim>\<open>MoveNext\<close>, a virtual function, follows; it is part of the derived cursors.
\<close>

definition unindex_field :: "u32 \<Rightarrow> row \<Rightarrow> steam \<Rightarrow> nat \<Rightarrow> steam" where
  "unindex_field r row db i =
     (let flags = m_fields db ! i; v = row ! i in
      if is_indexed flags then
        (if is_string_type flags then
           (if svalid v then string_drop i (fv_s v) r db else db)
         else
           (if ivalid v then int_drop i (fv_i v) r db else db))
      else db)"

definition delete_record :: "steam \<Rightarrow> cursor \<Rightarrow> u32 \<times> steam" where
  "delete_record db rs =
     (if m_eof rs then (ENOENT, db)
      else case smap_find (m_data db) (m_record rs) of
          None \<Rightarrow> (ENOENT, db)
        | Some row \<Rightarrow>
            (let db = foldl (unindex_field (m_record rs) row) db [0..<m_nfields db]
             in (0, db\<lparr>m_data := smap_erase (m_record rs) (m_data db)\<rparr>)))"

end
