(* ===== verification/SteamInv.thy ===== *)
theory SteamInv
  imports SteamDb
begin

text \<open>
  The invariant of the steam database: its vectors have one entry per field, the two caches of a
  value agree, and the index of every indexed field posts exactly the records that hold the key.
  Every operation of the base cursor keeps it. The second half says what the operations do to the
  values that can be read.
\<close>

section \<open>Indexes meet the contract\<close>

definition index_ok :: "('k::linorder, u32 list) smap \<Rightarrow> bool" where
  "index_ok i \<longleftrightarrow> smap_ok i \<and> (\<forall>s\<in>snd ` set i. s \<noteq> [] \<and> sset_ok s)"

definition index_postings :: "('k, u32 list) smap \<Rightarrow> 'k \<Rightarrow> u32 set" where
  "index_postings i k = set (index_get i k)"

lemma index_ok_Nil [simp]: "index_ok []"
  by (simp add: index_ok_def)

lemma index_get_ok: "index_ok i \<Longrightarrow> sset_ok (index_get i k)"
  unfolding index_ok_def index_get_def smap_find_def
  by (auto simp: sset_ok_def split: option.splits dest!: map_of_SomeD intro: rev_image_eqI)

lemma index_get_set [simp]:
  "smap_ok i \<Longrightarrow> index_get (smap_set k s i) j = (if j = k then s else index_get i j)"
  by (simp add: index_get_def)

lemma index_get_erase [simp]: "index_get (smap_erase k i) j = (if j = k then [] else index_get i j)"
  by (simp add: index_get_def)

lemma index_ok_set: "index_ok i \<Longrightarrow> s \<noteq> [] \<Longrightarrow> sset_ok s \<Longrightarrow> index_ok (smap_set k s i)"
  by (auto simp: index_ok_def set_smap_set)

lemma index_ok_erase_set: "index_ok i \<Longrightarrow> index_ok (smap_erase k (smap_set k s i))"
  by (auto simp: index_ok_def set_smap_set smap_erase_def smap_ok_filter)

lemma index_ok_add: "index_ok i \<Longrightarrow> index_ok (index_add k r i)"
  by (simp add: index_add_def index_ok_set index_get_ok)

lemma index_ok_drop: "index_ok i \<Longrightarrow> index_ok (index_drop k r i)"
proof -
  assume i: "index_ok i"
  then have "smap_ok i" by (simp add: index_ok_def)
  with i show ?thesis
    by (auto simp: index_drop_def Let_def index_ok_erase_set index_get_ok intro: index_ok_set)
qed

interpretation idx: posting_index index_postings index_add index_drop index_ok
proof
  fix i :: "('a::linorder, u32 list) smap" and k r
  assume i: "index_ok i"
  then have "smap_ok i" by (simp add: index_ok_def)
  then show "index_postings (index_add k r i) = (index_postings i)(k := insert r (index_postings i k))"
    and "index_postings (index_drop k r i) = (index_postings i)(k := index_postings i k - {r})"
    by (auto simp: index_postings_def index_add_def index_drop_def Let_def fun_eq_iff sset_erase_Nil)
  from i show "index_ok (index_add k r i)" "index_ok (index_drop k r i)"
    by (simp_all add: index_ok_add index_ok_drop)
qed

section \<open>The invariant\<close>

definition string_key :: "(u32, row) smap \<Rightarrow> nat \<Rightarrow> u32 \<Rightarrow> string option" where
  "string_key data f r =
     (case smap_find data r of None \<Rightarrow> None
      | Some row \<Rightarrow> if svalid (row ! f) then Some (fv_s (row ! f)) else None)"

definition int_key :: "(u32, row) smap \<Rightarrow> nat \<Rightarrow> u32 \<Rightarrow> u32 option" where
  "int_key data f r =
     (case smap_find data r of None \<Rightarrow> None
      | Some row \<Rightarrow> if ivalid (row ! f) then Some (fv_i (row ! f)) else None)"

definition value_ok :: "u32 \<Rightarrow> field_value \<Rightarrow> bool" where
  "value_ok flags v \<longleftrightarrow>
     (svalid v \<and> ivalid v \<longrightarrow> fv_i v = parse_u32 (fv_s v)) \<and>
     (is_int_type flags \<longrightarrow> svalid v \<longrightarrow> ivalid v \<and> fv_s v = dec (unat (fv_i v))) \<and>
     (is_indexed flags \<and> \<not> is_int_type flags \<longrightarrow> ivalid v \<longrightarrow> svalid v)"

definition row_ok :: "u32 list \<Rightarrow> row \<Rightarrow> bool" where
  "row_ok fs row \<longleftrightarrow> length row = length fs \<and> (\<forall>f<length fs. value_ok (fs ! f) (row ! f))"

definition flags_ok :: "u32 \<Rightarrow> bool" where
  "flags_ok flags \<longleftrightarrow> (is_indexed flags \<longrightarrow> is_string_type flags \<or> is_int_type flags)"

definition index_tracks :: "('k::linorder, u32 list) smap \<Rightarrow> bool \<Rightarrow> (u32 \<Rightarrow> 'k option) \<Rightarrow> bool" where
  "index_tracks i on f \<longleftrightarrow> index_ok i \<and>
     (\<forall>k. index_postings i k = (if on then {r. f r = Some k} else {}))"

definition field_indexes_ok :: "steam \<Rightarrow> nat \<Rightarrow> bool" where
  "field_indexes_ok db f \<longleftrightarrow>
     (let flags = m_fields db ! f in
      index_tracks (m_stringindexes db ! f) (is_indexed flags \<and> is_string_type flags) (string_key (m_data db) f) \<and>
      index_tracks (m_intindexes db ! f) (is_indexed flags \<and> is_int_type flags) (int_key (m_data db) f))"

definition steam_ok :: "steam \<Rightarrow> bool" where
  "steam_ok db \<longleftrightarrow>
     length (m_fields db) = m_nfields db \<and>
     length (m_stringindexes db) = m_nfields db \<and> length (m_intindexes db) = m_nfields db \<and>
     smap_ok (m_data db) \<and>
     (\<forall>flags\<in>set (m_fields db). flags_ok flags) \<and>
     (\<forall>r row. smap_find (m_data db) r = Some row \<longrightarrow> r < m_next_recno db \<and> row_ok (m_fields db) row) \<and>
     (\<forall>f<m_nfields db. field_indexes_ok db f)"

lemma string_int_type: "is_string_type flags \<Longrightarrow> \<not> is_int_type flags"
  by (simp add: is_string_type_def is_int_type_def FIELD_STRING_def FIELD_INT_def)

lemma index_tracks_Nil [simp]: "index_tracks [] False f"
  by (simp add: index_tracks_def index_postings_def index_get_def)

lemma index_tracks_Nil_None [simp]: "index_tracks [] on (\<lambda>_. None)"
  by (auto simp add: index_tracks_def index_postings_def index_get_def)

lemma index_tracks_off: "index_tracks i False f \<Longrightarrow> index_tracks i False g"
  by (simp add: index_tracks_def)

lemma index_tracks_move:
  "index_tracks i True f \<Longrightarrow>
   index_tracks (index_add k r (case f r of Some k0 \<Rightarrow> index_drop k0 r i | None \<Rightarrow> i)) True (f(r := Some k))"
  unfolding index_tracks_def using idx.tracks_move [of i f k r] idx.invar_move [where ko = "f r"] by simp

lemma index_tracks_drop:
  "index_tracks i True f \<Longrightarrow>
   index_tracks (case f r of Some k0 \<Rightarrow> index_drop k0 r i | None \<Rightarrow> i) True (f(r := None))"
  unfolding index_tracks_def using idx.tracks_drop [of i f r] idx.invar_case_drop [where ko = "f r"] by simp

lemma apply_field_infos_length [simp]: "length (apply_field_infos ifi fs) = length fs"
  by (induction ifi fs rule: apply_field_infos.induct) auto

lemma apply_field_infos_set:
  "set (apply_field_infos ifi fs) \<subseteq> set fs \<union> snd ` set ifi"
proof (induction ifi fs rule: apply_field_infos.induct)
  case (2 which flags ifi fs)
  then show ?case using set_update_subset_insert [of fs which flags] by auto
qed auto

text \<open>A new database satisfies the invariant when its field table uses the two types it has.\<close>

lemma Database_ok:
  assumes "\<forall>(which, flags)\<in>set ifi. flags_ok flags"
  shows "steam_ok (Database nfields ifi)"
proof -
  have "flags_ok flags" if "flags \<in> set (m_fields (Database nfields ifi))" for flags
  proof -
    have "flags \<in> set (replicate nfields 0) \<union> snd ` set ifi"
      by (rule subsetD [OF apply_field_infos_set]) (use that in \<open>simp add: Database_def\<close>)
    then show ?thesis
      using assms by (auto simp: flags_ok_def is_indexed_def)
  qed
  moreover have "string_key [] f = (\<lambda>_. None)" "int_key [] f = (\<lambda>_. None)" for f
    by (auto simp: string_key_def int_key_def)
  ultimately show ?thesis
    by (auto simp: steam_ok_def field_indexes_ok_def Database_def Let_def)
qed

section \<open>Changing one value\<close>

abbreviation (input) skey_of :: "field_value \<Rightarrow> string option" where
  "skey_of v \<equiv> (if svalid v then Some (fv_s v) else None)"

abbreviation (input) ikey_of :: "field_value \<Rightarrow> u32 option" where
  "ikey_of v \<equiv> (if ivalid v then Some (fv_i v) else None)"

lemma keys_after_set:
  assumes "smap_ok data" "smap_find data r = Some row" "f < length row"
  shows "string_key (smap_set r (row[f := v]) data) g =
      (if g = f then (string_key data f)(r := skey_of v) else string_key data g)"
    "int_key (smap_set r (row[f := v]) data) g =
      (if g = f then (int_key data f)(r := ikey_of v) else int_key data g)"
  using assms by (auto simp: string_key_def int_key_def fun_eq_iff split: option.splits)

definition with_indexes :: "nat \<Rightarrow> stringindex \<Rightarrow> intindex \<Rightarrow> steam \<Rightarrow> steam" where
  "with_indexes f si ii db =
     db\<lparr>m_stringindexes := (m_stringindexes db)[f := si], m_intindexes := (m_intindexes db)[f := ii]\<rparr>"

lemma steam_ok_change:
  assumes ok: "steam_ok db" and row: "smap_find (m_data db) r = Some row" and f: "f < m_nfields db"
    and fl: "flags = m_fields db ! f" and v: "value_ok flags v"
    and si: "index_tracks si (is_indexed flags \<and> is_string_type flags)
      ((string_key (m_data db) f)(r := skey_of v))"
    and ii: "index_tracks ii (is_indexed flags \<and> is_int_type flags)
      ((int_key (m_data db) f)(r := ikey_of v))"
  shows "steam_ok (put_value r f v (with_indexes f si ii db))"
proof -
  have d: "smap_ok (m_data db)" and l: "length row = m_nfields db" "row_ok (m_fields db) row"
    and n: "length (m_fields db) = m_nfields db"
    using ok row by (auto simp: steam_ok_def row_ok_def)
  have "row_ok (m_fields db) (row[f := v])"
    using l n v fl f by (auto simp: row_ok_def nth_list_update)
  moreover have "field_indexes_ok (put_value r f v (with_indexes f si ii db)) g" if "g < m_nfields db" for g
    using ok that row d l f si ii fl
    by (auto simp: steam_ok_def field_indexes_ok_def put_value_def with_indexes_def keys_after_set Let_def)
  ultimately show ?thesis
    using ok row d by (auto simp: steam_ok_def put_value_def with_indexes_def)
qed

lemma with_indexes_same:
  "with_indexes f (m_stringindexes db ! f) (m_intindexes db ! f) db = db"
  by (simp add: with_indexes_def)

lemma put_value_same_keys:
  assumes "steam_ok db" "smap_find (m_data db) r = Some row" "f < m_nfields db"
    "value_ok (m_fields db ! f) v"
    "is_indexed (m_fields db ! f) \<Longrightarrow> is_string_type (m_fields db ! f) \<Longrightarrow> skey_of v = skey_of (row ! f)"
    "is_indexed (m_fields db ! f) \<Longrightarrow> is_int_type (m_fields db ! f) \<Longrightarrow> ikey_of v = ikey_of (row ! f)"
  shows "steam_ok (put_value r f v db)"
proof -
  have tr: "field_indexes_ok db f" using assms(1,3) by (simp add: steam_ok_def)
  have keys: "string_key (m_data db) f r = skey_of (row ! f)" "int_key (m_data db) f r = ikey_of (row ! f)"
    using assms(2) by (simp_all add: string_key_def int_key_def)
  let ?str = "is_indexed (m_fields db ! f) \<and> is_string_type (m_fields db ! f)"
  let ?int = "is_indexed (m_fields db ! f) \<and> is_int_type (m_fields db ! f)"
  have "?str \<Longrightarrow> (string_key (m_data db) f)(r := skey_of v) = string_key (m_data db) f"
    using assms(5) keys(1) by (intro fun_upd_idem) presburger
  then have "index_tracks (m_stringindexes db ! f) ?str ((string_key (m_data db) f)(r := skey_of v))"
    using tr unfolding field_indexes_ok_def Let_def by (cases ?str) (auto intro: index_tracks_off)
  moreover have "?int \<Longrightarrow> (int_key (m_data db) f)(r := ikey_of v) = int_key (m_data db) f"
    using assms(6) keys(2) by (intro fun_upd_idem) presburger
  then have "index_tracks (m_intindexes db ! f) ?int ((int_key (m_data db) f)(r := ikey_of v))"
    using tr unfolding field_indexes_ok_def Let_def by (cases ?int) (auto intro: index_tracks_off)
  ultimately have "steam_ok (put_value r f v (with_indexes f (m_stringindexes db ! f) (m_intindexes db ! f) db))"
    by (rule steam_ok_change [OF assms(1,2,3) refl assms(4)])
  then show ?thesis
    by (simp add: with_indexes_same)
qed

text \<open>Reading an integer, which caches the number a string field holds, keeps the invariant.\<close>

lemma GetInteger_ok:
  assumes "steam_ok db" "which < m_nfields db"
  shows "steam_ok (snd (GetInteger db rs which))"
proof (cases "m_eof rs \<or> smap_find (m_data db) (m_record rs) = None")
  case False
  then obtain row where row: "smap_find (m_data db) (m_record rs) = Some row" and e: "\<not> m_eof rs" by auto
  then have v: "value_ok (m_fields db ! which) (row ! which)"
    using assms by (auto simp: steam_ok_def row_ok_def)
  show ?thesis
  proof (cases "\<not> ivalid (row ! which) \<and> svalid (row ! which)")
    case True
    then have "steam_ok (put_value (m_record rs) which
        ((row ! which)\<lparr>ivalid := True, fv_i := parse_u32 (fv_s (row ! which))\<rparr>) db)"
      using v string_int_type by (intro put_value_same_keys [OF assms(1) row assms(2)]) (simp_all add: value_ok_def)
    with True row e show ?thesis by (simp add: GetInteger_def Let_def)
  next
    case F: False
    with row e assms(1) show ?thesis by (auto simp add: GetInteger_def Let_def)
  qed
qed (use assms in \<open>auto simp: GetInteger_def split: option.splits\<close>)


lemma string_add_with_indexes:
  assumes "f < length (m_stringindexes db)"
  shows "string_add f k r (if b then string_drop f k0 r db else db) =
    with_indexes f (index_add k r (if b then index_drop k0 r (m_stringindexes db ! f) else m_stringindexes db ! f))
      (m_intindexes db ! f) db"
  using assms by (simp add: string_add_def string_drop_def with_indexes_def)

lemma int_add_with_indexes:
  assumes "f < length (m_intindexes db)"
  shows "int_add f k r (if b then int_drop f k0 r db else db) =
    with_indexes f (m_stringindexes db ! f)
      (index_add k r (if b then index_drop k0 r (m_intindexes db ! f) else m_intindexes db ! f)) db"
  using assms by (simp add: int_add_def int_drop_def with_indexes_def)

text \<open>The three ways in which a write replaces the value of a field.\<close>

lemma write_unindexed:
  assumes "steam_ok db" "smap_find (m_data db) r = Some row" "f < m_nfields db"
    "\<not> is_indexed (m_fields db ! f)" "value_ok (m_fields db ! f) v"
  shows "steam_ok (put_value r f v db)"
  using assms by (intro put_value_same_keys) auto

lemma write_string_indexed:
  assumes ok: "steam_ok db" and row: "smap_find (m_data db) r = Some row" and f: "f < m_nfields db"
    and fl: "is_indexed (m_fields db ! f)" "is_string_type (m_fields db ! f)"
    and v: "value_ok (m_fields db ! f) v" "svalid v"
  shows "steam_ok (put_value r f v (string_add f (fv_s v) r
    (if svalid (row ! f) then string_drop f (fv_s (row ! f)) r db else db)))"
proof -
  have tr: "field_indexes_ok db f" and len: "f < length (m_stringindexes db)"
    using ok f by (simp_all add: steam_ok_def)
  have "string_key (m_data db) f r = skey_of (row ! f)"
    using row by (simp add: string_key_def)
  then have "index_tracks (index_add (fv_s v) r (if svalid (row ! f) then index_drop (fv_s (row ! f)) r
      (m_stringindexes db ! f) else m_stringindexes db ! f)) True ((string_key (m_data db) f)(r := Some (fv_s v)))"
    using index_tracks_move [of "m_stringindexes db ! f" "string_key (m_data db) f" "fv_s v" r] tr fl
    by (auto simp: field_indexes_ok_def Let_def split: if_splits)
  moreover have "\<not> is_int_type (m_fields db ! f)" using fl(2) by (rule string_int_type)
  ultimately show ?thesis
    unfolding string_add_with_indexes [OF len]
    using tr fl v
    by (intro steam_ok_change [OF ok row f refl v(1)])
       (auto simp: field_indexes_ok_def Let_def intro: index_tracks_off)
qed

lemma write_int_indexed:
  assumes ok: "steam_ok db" and row: "smap_find (m_data db) r = Some row" and f: "f < m_nfields db"
    and fl: "is_indexed (m_fields db ! f)" "is_int_type (m_fields db ! f)"
    and v: "value_ok (m_fields db ! f) v" "ivalid v"
  shows "steam_ok (put_value r f v (int_add f (fv_i v) r
    (if ivalid (row ! f) then int_drop f (fv_i (row ! f)) r db else db)))"
proof -
  have tr: "field_indexes_ok db f" and len: "f < length (m_intindexes db)"
    using ok f by (simp_all add: steam_ok_def)
  have "int_key (m_data db) f r = ikey_of (row ! f)"
    using row by (simp add: int_key_def)
  then have "index_tracks (index_add (fv_i v) r (if ivalid (row ! f) then index_drop (fv_i (row ! f)) r
      (m_intindexes db ! f) else m_intindexes db ! f)) True ((int_key (m_data db) f)(r := Some (fv_i v)))"
    using index_tracks_move [of "m_intindexes db ! f" "int_key (m_data db) f" "fv_i v" r] tr fl
    by (auto simp: field_indexes_ok_def Let_def split: if_splits)
  moreover have "\<not> is_string_type (m_fields db ! f)" using fl(2) string_int_type by blast
  ultimately show ?thesis
    unfolding int_add_with_indexes [OF len]
    using tr fl v
    by (intro steam_ok_change [OF ok row f refl v(1)])
       (auto simp: field_indexes_ok_def Let_def intro: index_tracks_off)
qed


text \<open>Writing a string keeps the invariant, whatever the type and the index of the field.\<close>

lemma SetString_ok:
  assumes ok: "steam_ok db" and f: "which < m_nfields db"
  shows "steam_ok (snd (SetString db rs which s))"
proof (cases "m_eof rs \<or> smap_find (m_data db) (m_record rs) = None")
  case False
  then obtain row where row: "smap_find (m_data db) (m_record rs) = Some row" and e: "\<not> m_eof rs" by auto
  let ?v = "row ! which" and ?fl = "m_fields db ! which" and ?n = "parse_u32 s"
  have flags: "flags_ok ?fl" using ok f by (auto simp: steam_ok_def)
  consider "svalid ?v" "fv_s ?v = s" | "\<not> (svalid ?v \<and> fv_s ?v = s)" "is_indexed ?fl" "is_int_type ?fl"
    | "\<not> (svalid ?v \<and> fv_s ?v = s)" "is_indexed ?fl" "is_string_type ?fl" "\<not> is_int_type ?fl"
    | "\<not> (svalid ?v \<and> fv_s ?v = s)" "\<not> is_indexed ?fl"
    using flags string_int_type by (auto simp: flags_ok_def)
  then show ?thesis
  proof cases
    case 1
    with row e ok show ?thesis by (simp add: SetString_def Let_def)
  next
    case 2
    let ?w = "?v\<lparr>fv_i := ?n, ivalid := True, fv_s := dec (unat ?n), svalid := True\<rparr>"
    have "value_ok ?fl ?w" by (simp add: value_ok_def)
    from write_int_indexed [OF ok row f 2(2,3) this] row e 2 show ?thesis
      by (auto simp add: SetString_def Let_def)
  next
    case 3
    let ?w = "?v\<lparr>ivalid := False, fv_s := s, svalid := True\<rparr>"
    have "value_ok ?fl ?w" using 3 by (simp add: value_ok_def)
    from write_string_indexed [OF ok row f 3(2,3) this] row e 3 show ?thesis
      by (auto simp add: SetString_def Let_def)
  next
    case 4
    let ?w = "if is_int_type ?fl
      then ?v\<lparr>fv_i := ?n, ivalid := True, fv_s := dec (unat ?n), svalid := True\<rparr>
      else ?v\<lparr>ivalid := False, fv_s := s, svalid := True\<rparr>"
    have "value_ok ?fl ?w" using 4 by (simp add: value_ok_def)
    from write_unindexed [OF ok row f 4(2) this] row e 4 ok show ?thesis
      by (auto simp add: SetString_def Let_def)
  qed
qed (use ok in \<open>auto simp: SetString_def split: option.splits\<close>)

text \<open>Writing an integer keeps the invariant.\<close>

lemma SetInteger_ok:
  assumes ok: "steam_ok db" and f: "which < m_nfields db"
  shows "steam_ok (snd (SetInteger db rs which n))"
proof (cases "m_eof rs \<or> smap_find (m_data db) (m_record rs) = None")
  case False
  then obtain row where row: "smap_find (m_data db) (m_record rs) = Some row" and e: "\<not> m_eof rs" by auto
  let ?v = "row ! which" and ?fl = "m_fields db ! which"
  have "flags_ok ?fl" using ok f by (auto simp: steam_ok_def)
  then consider "is_indexed ?fl" "is_int_type ?fl" "\<not> is_string_type ?fl"
    | "is_indexed ?fl" "is_string_type ?fl" "\<not> is_int_type ?fl" | "\<not> is_indexed ?fl"
    using string_int_type by (auto simp: flags_ok_def)
  then show ?thesis
  proof cases
    case 1
    let ?w = "?v\<lparr>svalid := False, fv_i := n, ivalid := True\<rparr>"
    have "value_ok ?fl ?w" using 1 by (simp add: value_ok_def)
    from write_int_indexed [OF ok row f 1(1,2) this] row e 1 show ?thesis
      by (simp add: SetInteger_def Let_def)
  next
    case 2
    let ?w = "?v\<lparr>fv_s := dec (unat n), svalid := True, fv_i := n, ivalid := True\<rparr>"
    have "value_ok ?fl ?w" using 2 by (simp add: value_ok_def)
    from write_string_indexed [OF ok row f 2(1,2) this] row e 2 show ?thesis
      by (simp add: SetInteger_def Let_def)
  next
    case 3
    let ?w = "?v\<lparr>svalid := False, fv_i := n, ivalid := True\<rparr>"
    have "value_ok ?fl ?w" using 3 by (simp add: value_ok_def)
    from write_unindexed [OF ok row f 3 this] row e 3 show ?thesis
      by (simp add: SetInteger_def Let_def)
  qed
qed (use ok in \<open>auto simp: SetInteger_def split: option.splits\<close>)


text \<open>Adding a record keeps the invariant as long as the 32-bit record counter has not run out.\<close>

lemma AddRecord_ok:
  assumes ok: "steam_ok db" and n: "m_next_recno db \<noteq> - 1"
  shows "steam_ok (snd (snd (AddRecord db rs)))"
proof -
  let ?r = "m_next_recno db"
  let ?row = "replicate (m_nfields db) FieldValue"
  have new: "smap_find (m_data db) ?r = None"
    using ok by (cases "smap_find (m_data db) ?r") (auto simp: steam_ok_def)
  have d: "smap_ok (m_data db)" and l: "length (m_fields db) = m_nfields db"
    using ok by (simp_all add: steam_ok_def)
  have keys: "string_key (smap_set ?r ?row (m_data db)) f = string_key (m_data db) f"
    "int_key (smap_set ?r ?row (m_data db)) f = int_key (m_data db) f" if "f < m_nfields db" for f
    using that d new by (auto simp: string_key_def int_key_def fun_eq_iff FieldValue_def split: option.splits)
  have "row_ok (m_fields db) ?row"
    using l by (simp add: row_ok_def value_ok_def FieldValue_def)
  moreover have step: "?r < ?r + 1"
    using n inc_less_eq_self_iff_eq [of ?r] by (simp add: not_le [symmetric])
  moreover have "r < ?r + 1" if "r < ?r" for r
    using that step by (rule less_trans)
  ultimately show ?thesis
    using ok new d keys by (auto simp: AddRecord_def steam_ok_def field_indexes_ok_def Let_def)
qed


section \<open>Deleting a record\<close>

definition field_tracks :: "steam \<Rightarrow> nat \<Rightarrow> (u32 \<Rightarrow> string option) \<Rightarrow> (u32 \<Rightarrow> u32 option) \<Rightarrow> bool" where
  "field_tracks db f sk ik \<longleftrightarrow>
     (let flags = m_fields db ! f in
      index_tracks (m_stringindexes db ! f) (is_indexed flags \<and> is_string_type flags) sk \<and>
      index_tracks (m_intindexes db ! f) (is_indexed flags \<and> is_int_type flags) ik)"

lemma field_indexes_ok_tracks:
  "field_indexes_ok db f \<longleftrightarrow> field_tracks db f (string_key (m_data db) f) (int_key (m_data db) f)"
  by (simp add: field_indexes_ok_def field_tracks_def)

text \<open>What unindexing one field leaves alone.\<close>

lemma unindex_field_frame [simp]:
  "m_data (unindex_field r row db i) = m_data db" "m_fields (unindex_field r row db i) = m_fields db"
  "m_nfields (unindex_field r row db i) = m_nfields db"
  "m_next_recno (unindex_field r row db i) = m_next_recno db"
  "length (m_stringindexes (unindex_field r row db i)) = length (m_stringindexes db)"
  "length (m_intindexes (unindex_field r row db i)) = length (m_intindexes db)"
  "g \<noteq> i \<Longrightarrow> m_stringindexes (unindex_field r row db i) ! g = m_stringindexes db ! g"
  "g \<noteq> i \<Longrightarrow> m_intindexes (unindex_field r row db i) ! g = m_intindexes db ! g"
  by (simp_all add: unindex_field_def string_drop_def int_drop_def Let_def)

lemma unindex_field_tracks:
  assumes "field_tracks db i sk ik" "i < length (m_stringindexes db)" "i < length (m_intindexes db)"
    "sk r = skey_of (row ! i)" "ik r = ikey_of (row ! i)" "flags_ok (m_fields db ! i)"
  shows "field_tracks (unindex_field r row db i) i (sk(r := None)) (ik(r := None))"
proof -
  let ?fl = "m_fields db ! i"
  consider "is_indexed ?fl" "is_int_type ?fl" "\<not> is_string_type ?fl"
    | "is_indexed ?fl" "is_string_type ?fl" "\<not> is_int_type ?fl" | "\<not> is_indexed ?fl"
    using assms(6) string_int_type by (auto simp: flags_ok_def)
  then show ?thesis
  proof cases
    case 1
    then show ?thesis
      using assms index_tracks_drop [of "m_intindexes db ! i" ik r]
      by (auto simp: field_tracks_def unindex_field_def int_drop_def Let_def intro: index_tracks_off split: if_splits)
  next
    case 2
    then show ?thesis
      using assms index_tracks_drop [of "m_stringindexes db ! i" sk r]
      by (auto simp: field_tracks_def unindex_field_def string_drop_def Let_def intro: index_tracks_off split: if_splits)
  next
    case 3
    then show ?thesis
      using assms by (auto simp: field_tracks_def unindex_field_def Let_def intro: index_tracks_off)
  qed
qed

lemma unindex_fields:
  fixes db :: steam and row :: row and r :: u32
  defines "dbk \<equiv> \<lambda>k. foldl (unindex_field r row) db [0..<k]"
  assumes ok: "steam_ok db" and row: "smap_find (m_data db) r = Some row" and k: "k \<le> m_nfields db"
  shows "m_data (dbk k) = m_data db \<and> m_fields (dbk k) = m_fields db \<and> m_nfields (dbk k) = m_nfields db \<and>
    m_next_recno (dbk k) = m_next_recno db \<and>
    length (m_stringindexes (dbk k)) = m_nfields db \<and> length (m_intindexes (dbk k)) = m_nfields db \<and>
    (\<forall>g<m_nfields db. field_tracks (dbk k) g
      ((string_key (m_data db) g)(r := if g < k then None else string_key (m_data db) g r))
      ((int_key (m_data db) g)(r := if g < k then None else int_key (m_data db) g r)))"
  using k
proof (induction k)
  case 0
  then show ?case
    using ok by (auto simp: dbk_def steam_ok_def field_indexes_ok_tracks)
next
  case (Suc k)
  let ?sk = "string_key (m_data db) k" and ?ik = "int_key (m_data db) k"
  note IH = Suc.IH [OF Suc_leD [OF Suc.prems]]
  have step: "dbk (Suc k) = unindex_field r row (dbk k) k"
    by (simp add: dbk_def)
  have "flags_ok (m_fields db ! k)"
    using ok Suc.prems by (auto simp: steam_ok_def)
  moreover have "field_tracks (dbk k) k (?sk(r := if k < k then None else ?sk r)) (?ik(r := if k < k then None else ?ik r))"
    using IH Suc_le_lessD [OF Suc.prems] by blast
  then have "field_tracks (dbk k) k ?sk ?ik"
    by (simp only: less_irrefl if_False fun_upd_triv)
  ultimately have "field_tracks (dbk (Suc k)) k (?sk(r := None)) (?ik(r := None))"
    unfolding step using IH Suc.prems row
    by (intro unindex_field_tracks) (simp_all add: string_key_def int_key_def)
  moreover have "field_tracks (dbk (Suc k)) g
      ((string_key (m_data db) g)(r := if g < Suc k then None else string_key (m_data db) g r))
      ((int_key (m_data db) g)(r := if g < Suc k then None else int_key (m_data db) g r))"
    if "g < m_nfields db" "g \<noteq> k" for g
  proof -
    have "field_tracks (dbk k) g
        ((string_key (m_data db) g)(r := if g < k then None else string_key (m_data db) g r))
        ((int_key (m_data db) g)(r := if g < k then None else int_key (m_data db) g r))"
      using IH that(1) by blast
    moreover have "field_tracks (dbk (Suc k)) g sk ik \<longleftrightarrow> field_tracks (dbk k) g sk ik" for sk ik
      using that(2) by (simp add: field_tracks_def step)
    moreover have "g < Suc k \<longleftrightarrow> g < k"
      using that(2) by auto
    ultimately show ?thesis by (simp only:)
  qed
  ultimately have "field_tracks (dbk (Suc k)) g
      ((string_key (m_data db) g)(r := if g < Suc k then None else string_key (m_data db) g r))
      ((int_key (m_data db) g)(r := if g < Suc k then None else int_key (m_data db) g r))"
    if "g < m_nfields db" for g
    using that by (cases "g = k") (simp_all only: lessI if_True)
  then have "\<forall>g<m_nfields db. field_tracks (dbk (Suc k)) g
      ((string_key (m_data db) g)(r := if g < Suc k then None else string_key (m_data db) g r))
      ((int_key (m_data db) g)(r := if g < Suc k then None else int_key (m_data db) g r))"
    by (intro allI impI)
  moreover have "m_data (dbk (Suc k)) = m_data db" "m_fields (dbk (Suc k)) = m_fields db"
    "m_nfields (dbk (Suc k)) = m_nfields db" "m_next_recno (dbk (Suc k)) = m_next_recno db"
    "length (m_stringindexes (dbk (Suc k))) = m_nfields db"
    "length (m_intindexes (dbk (Suc k))) = m_nfields db"
    unfolding step using IH by simp_all
  ultimately show ?case by blast
qed

text \<open>Deleting a record keeps the invariant: no index is left posting it.\<close>

lemma delete_record_ok:
  assumes ok: "steam_ok db"
  shows "steam_ok (snd (delete_record db rs))"
proof (cases "m_eof rs \<or> smap_find (m_data db) (m_record rs) = None")
  case False
  then obtain row where row: "smap_find (m_data db) (m_record rs) = Some row" and e: "\<not> m_eof rs" by auto
  let ?r = "m_record rs"
  have "string_key (smap_erase ?r (m_data db)) f = (string_key (m_data db) f)(?r := None)"
    "int_key (smap_erase ?r (m_data db)) f = (int_key (m_data db) f)(?r := None)" for f
    by (auto simp: string_key_def int_key_def fun_eq_iff)
  then show ?thesis
    using unindex_fields [OF ok row le_refl] ok row e
    by (auto simp: delete_record_def Let_def steam_ok_def field_indexes_ok_tracks field_tracks_def
        simp del: fun_upd_apply)
qed (use ok in \<open>auto simp: delete_record_def split: option.splits\<close>)


section \<open>Databases that can arise\<close>

text \<open>
  Any number of cursors may be open on a database, each at any record; so the steps below take an
  arbitrary cursor. The field number of every access is in range, and the 32-bit record counter has
  not run out.
\<close>

inductive reachable :: "steam \<Rightarrow> bool" where
  reach_new: "\<forall>(which, flags)\<in>set ifi. flags_ok flags \<Longrightarrow> reachable (Database nfields ifi)"
| reach_GetInteger: "reachable db \<Longrightarrow> which < m_nfields db \<Longrightarrow> reachable (snd (GetInteger db rs which))"
| reach_SetString: "reachable db \<Longrightarrow> which < m_nfields db \<Longrightarrow> reachable (snd (SetString db rs which s))"
| reach_SetInteger: "reachable db \<Longrightarrow> which < m_nfields db \<Longrightarrow> reachable (snd (SetInteger db rs which n))"
| reach_AddRecord: "reachable db \<Longrightarrow> m_next_recno db \<noteq> - 1 \<Longrightarrow> reachable (snd (snd (AddRecord db rs)))"
| reach_Commit: "reachable db \<Longrightarrow> reachable (snd (Commit db))"
| reach_Delete: "reachable db \<Longrightarrow> reachable (snd (delete_record db rs))"

text \<open>C4: In every database that the operations can bring about, whatever their order and whatever
  the cursors, the caches of each value agree and each index posts exactly the records that hold its
  keys.\<close>

theorem reachable_ok: "reachable db \<Longrightarrow> steam_ok db"
  by (induction rule: reachable.induct)
    (simp_all add: Database_ok GetInteger_ok SetString_ok SetInteger_ok AddRecord_ok delete_record_ok
      Commit_def)

lemma example_infos: "\<forall>(which, flags)\<in>set [(0, 9), (1, 8)]. flags_ok flags"
  by (simp add: flags_ok_def is_string_type_def is_int_type_def FIELD_TYPEMASK_def FIELD_STRING_def FIELD_INT_def)

lemma reachable_ok_witness:
  "steam_ok (snd (SetString (snd (snd (AddRecord (Database 2 [(0, 9), (1, 8)]) \<lparr>m_record = 0, m_eof = True\<rparr>)))
     \<lparr>m_record = 0, m_eof = False\<rparr> 1 ''x''))"
proof (rule reachable_ok, rule reach_SetString)
  show "reachable (snd (snd (AddRecord (Database 2 [(0, 9), (1, 8)]) \<lparr>m_record = 0, m_eof = True\<rparr>)))"
    by (rule reach_AddRecord) (rule reach_new, rule example_infos, simp add: Database_def)
qed (simp add: AddRecord_def Database_def)

section \<open>What can be read back\<close>

text \<open>
  The value that a cursor sees in a field, and what a reader makes of it: the cache that a
  \<^verbatim>\<open>GetInteger\<close> writes never changes either reading.
\<close>

definition value_at :: "steam \<Rightarrow> u32 \<Rightarrow> nat \<Rightarrow> field_value option" where
  "value_at db r f = map_option (\<lambda>row. row ! f) (smap_find (m_data db) r)"

definition str_of :: "field_value \<Rightarrow> string" where
  "str_of v = (if svalid v then fv_s v else if ivalid v \<and> fv_i v \<noteq> 0 then dec (unat (fv_i v)) else [])"

definition int_of :: "field_value \<Rightarrow> u32" where
  "int_of v = (if ivalid v then fv_i v else if svalid v then parse_u32 (fv_s v) else 0)"

lemma GetString_value: "GetString db rs which =
    (if m_eof rs then [] else case value_at db (m_record rs) which of None \<Rightarrow> [] | Some v \<Rightarrow> str_of v)"
  by (simp add: GetString_def value_at_def str_of_def Let_def split: option.splits)

lemma GetInteger_value: "fst (GetInteger db rs which) =
    (if m_eof rs then 0 else case value_at db (m_record rs) which of None \<Rightarrow> 0 | Some v \<Rightarrow> int_of v)"
  by (simp add: GetInteger_def value_at_def int_of_def Let_def split: option.splits)

lemma value_at_put:
  assumes "steam_ok db" "smap_find (m_data db) r = Some row" "f < m_nfields db"
    "m_data db' = m_data db"
  shows "value_at (put_value r f v db') r' g = (if r' = r \<and> g = f then Some v else value_at db r' g)"
proof -
  have "smap_ok (m_data db)" "length row = m_nfields db"
    using assms(1,2) by (auto simp: steam_ok_def row_ok_def)
  then show ?thesis
    using assms(2-4) by (auto simp: value_at_def put_value_def)
qed

lemma index_updates_data [simp]:
  "m_data (string_add f k r db) = m_data db" "m_data (string_drop f k r db) = m_data db"
  "m_data (int_add f n r db) = m_data db" "m_data (int_drop f n r db) = m_data db"
  by (simp_all add: string_add_def string_drop_def int_add_def int_drop_def)

lemma GetInteger_values:
  fixes rs :: cursor
  assumes "steam_ok db" "which < m_nfields db"
  defines "db' \<equiv> snd (GetInteger db rs which)"
  shows "map_option str_of (value_at db' r f) = map_option str_of (value_at db r f)"
    "map_option int_of (value_at db' r f) = map_option int_of (value_at db r f)"
proof -
  have "map_option str_of (value_at db' r f) = map_option str_of (value_at db r f) \<and>
      map_option int_of (value_at db' r f) = map_option int_of (value_at db r f)"
  proof (cases "smap_find (m_data db) (m_record rs)")
    case (Some row)
    have "value_at db (m_record rs) which = Some (row ! which)"
      using Some by (simp add: value_at_def)
    with Some show ?thesis
      using value_at_put [OF assms(1) Some assms(2) refl]
      by (auto simp: GetInteger_def Let_def str_of_def int_of_def db'_def)
  qed (simp add: GetInteger_def db'_def)
  then show "map_option str_of (value_at db' r f) = map_option str_of (value_at db r f)"
    "map_option int_of (value_at db' r f) = map_option int_of (value_at db r f)"
    by auto
qed

lemma reads_of_values:
  assumes "map_option str_of (value_at db' (m_record rs) f) = map_option str_of (value_at db (m_record rs) f)"
    "map_option int_of (value_at db' (m_record rs) f) = map_option int_of (value_at db (m_record rs) f)"
  shows "GetString db' rs f = GetString db rs f" "fst (GetInteger db' rs f) = fst (GetInteger db rs f)"
  using assms by (auto simp: GetString_value GetInteger_value split: option.splits)

text \<open>Reading an integer, which may store the number a string field holds, changes nothing
  that can be read, of any record through any cursor.\<close>

theorem GetInteger_reads:
  assumes "steam_ok db" "which < m_nfields db"
  shows "GetString (snd (GetInteger db rs which)) rs' f = GetString db rs' f \<and>
    fst (GetInteger (snd (GetInteger db rs which)) rs' f) = fst (GetInteger db rs' f)"
  by (intro conjI reads_of_values GetInteger_values assms)

lemma GetString_frame: "value_at db' (m_record rs) f = value_at db (m_record rs) f \<Longrightarrow> GetString db' rs f = GetString db rs f"
  by (simp add: GetString_value)

lemma GetInteger_frame:
  "value_at db' (m_record rs) f = value_at db (m_record rs) f \<Longrightarrow> fst (GetInteger db' rs f) = fst (GetInteger db rs f)"
  by (simp add: GetInteger_value)

text \<open>What reads back after a write: the written value at that place, and the old one elsewhere.\<close>

definition reads_after :: "steam \<Rightarrow> u32 \<times> steam \<Rightarrow> cursor \<Rightarrow> nat \<Rightarrow> string \<Rightarrow> u32 \<Rightarrow> bool" where
  "reads_after db res rs which s n \<longleftrightarrow>
     fst res = 0 \<and> GetString (snd res) rs which = s \<and> fst (GetInteger (snd res) rs which) = n \<and>
     (\<forall>rs' f. m_record rs' \<noteq> m_record rs \<or> f \<noteq> which \<longrightarrow>
        GetString (snd res) rs' f = GetString db rs' f \<and>
        fst (GetInteger (snd res) rs' f) = fst (GetInteger db rs' f))"

lemma reads_after_put:
  assumes "steam_ok db" "smap_find (m_data db) (m_record rs) = Some row" "which < m_nfields db"
    "\<not> m_eof rs" "m_data db' = m_data db" "str_of v = s" "int_of v = n"
  shows "reads_after db (0, put_value (m_record rs) which v db') rs which s n"
  using value_at_put [OF assms(1-3,5), of v] assms(4,6,7)
  by (auto simp: reads_after_def GetString_value GetInteger_value)

lemma SetString_reads_after:
  assumes ok: "steam_ok db" and f: "which < m_nfields db"
    and e: "\<not> m_eof rs" and ex: "smap_find (m_data db) (m_record rs) \<noteq> None"
  shows "reads_after db (SetString db rs which s) rs which
    (if is_int_type (m_fields db ! which) then dec (unat (parse_u32 s)) else s) (parse_u32 s)"
proof -
  obtain row where row: "smap_find (m_data db) (m_record rs) = Some row" using ex by auto
  let ?v = "row ! which"
  have v: "value_ok (m_fields db ! which) ?v"
    using ok f row by (auto simp: steam_ok_def row_ok_def)
  show ?thesis
  proof (cases "svalid ?v \<and> fv_s ?v = s")
    case True
    have at: "value_at db (m_record rs) which = Some ?v" using row by (simp add: value_at_def)
    have "svalid ?v \<and> ivalid ?v \<longrightarrow> fv_i ?v = parse_u32 (fv_s ?v)"
      using v unfolding value_ok_def by blast
    then have i: "int_of ?v = parse_u32 s"
      using True by (simp add: int_of_def)
    have "is_int_type (m_fields db ! which) \<Longrightarrow> ivalid ?v \<and> fv_s ?v = dec (unat (fv_i ?v))"
      using v True unfolding value_ok_def by blast
    then have "is_int_type (m_fields db ! which) \<Longrightarrow> dec (unat (parse_u32 s)) = s"
      using i True by (auto simp: int_of_def)
    moreover have "SetString db rs which s = (0, db)"
      using True row e by (simp add: SetString_def Let_def)
    ultimately show ?thesis
      using True i e at by (simp add: reads_after_def GetString_value GetInteger_value str_of_def)
  next
    case False
    then have n: "\<not> (svalid ?v \<and> fv_s ?v = s)" by blast
    show ?thesis
      unfolding SetString_def
      using e row n by (auto simp: Let_def str_of_def int_of_def intro!: reads_after_put [OF ok row f e])
  qed
qed

text \<open>C8: a string that has been written is what is read back, and its number is what is read as an
  integer; in an integer field, text that is no number becomes the number read from it. Nothing else changes.\<close>

theorem SetString_reads:
  assumes ok: "steam_ok db" and f: "which < m_nfields db"
    and e: "\<not> m_eof rs" and ex: "smap_find (m_data db) (m_record rs) \<noteq> None"
  shows "reads_after db (SetString db rs which s) rs which
    (if is_int_type (m_fields db ! which) then dec (unat (parse_u32 s)) else s) (parse_u32 s)"
  using assms by (rule SetString_reads_after)

text \<open>An integer that has been written is what is read back; its text is its decimal form, but for
  zero, which reads as the empty string where no string is kept with it.\<close>

theorem SetInteger_reads:
  assumes ok: "steam_ok db" and f: "which < m_nfields db"
    and e: "\<not> m_eof rs" and ex: "smap_find (m_data db) (m_record rs) \<noteq> None"
  shows "reads_after db (SetInteger db rs which n) rs which
    (if n = 0 \<and> \<not> (is_indexed (m_fields db ! which) \<and> is_string_type (m_fields db ! which)) then []
     else dec (unat n)) n"
proof -
  obtain row where row: "smap_find (m_data db) (m_record rs) = Some row" using ex by auto
  show ?thesis
    unfolding SetInteger_def
    using e row by (auto simp: Let_def str_of_def int_of_def intro!: reads_after_put [OF ok row f e])
qed

text \<open>C9: Deleting a record removes it and every posting of it, and leaves what other records
  hold as it was.\<close>

theorem delete_record_gone:
  assumes ok: "steam_ok db" and e: "\<not> m_eof rs" and ex: "smap_find (m_data db) (m_record rs) \<noteq> None"
    and res: "delete_record db rs = (rc, db')"
  shows "rc = 0 \<and> smap_find (m_data db') (m_record rs) = None \<and>
    (\<forall>r f. r \<noteq> m_record rs \<longrightarrow> value_at db' r f = value_at db r f) \<and>
    (\<forall>f<m_nfields db'. \<forall>k. m_record rs \<notin> index_postings (m_stringindexes db' ! f) k) \<and>
    (\<forall>f<m_nfields db'. \<forall>k. m_record rs \<notin> index_postings (m_intindexes db' ! f) k)"
proof -
  obtain row where row: "smap_find (m_data db) (m_record rs) = Some row" using ex by auto
  note uf = unindex_fields [OF ok row order_refl]
  have data: "m_data db' = smap_erase (m_record rs) (m_data db)" and rc: "rc = 0"
    using res e row uf by (auto simp: delete_record_def Let_def)
  then have gone: "smap_find (m_data db') (m_record rs) = None"
    by simp
  have ok': "steam_ok db'"
    using delete_record_ok [OF ok, of rs] res by simp
  have "m_record rs \<notin> index_postings (m_stringindexes db' ! f) k \<and>
      m_record rs \<notin> index_postings (m_intindexes db' ! f) j" if "f < m_nfields db'" for f k j
  proof -
    have "field_indexes_ok db' f"
      using ok' that by (simp add: steam_ok_def)
    then show ?thesis
      using gone by (simp add: field_indexes_ok_def index_tracks_def Let_def string_key_def int_key_def)
  qed
  with gone rc data show ?thesis
    by (simp add: value_at_def)
qed

text \<open>A record that has been added is new and empty: its number was not in use, the cursor is at
  it, its fields read as the empty string and 0, and what other records hold is as it was.\<close>

theorem AddRecord_new:
  assumes ok: "steam_ok db" and n: "m_next_recno db \<noteq> - 1" and res: "AddRecord db rs = (rc, rs', db')"
  shows "rc = 0 \<and> \<not> m_eof rs' \<and> smap_find (m_data db) (m_record rs') = None \<and>
    (\<forall>f<m_nfields db. GetString db' rs' f = [] \<and> fst (GetInteger db' rs' f) = 0) \<and>
    (\<forall>r f. r \<noteq> m_record rs' \<longrightarrow> value_at db' r f = value_at db r f)"
proof -
  have none: "smap_find (m_data db) (m_next_recno db) = None"
    using ok by (cases "smap_find (m_data db) (m_next_recno db)") (auto simp: steam_ok_def)
  have sm: "smap_ok (m_data db)"
    using ok by (simp add: steam_ok_def)
  have rs': "m_record rs' = m_next_recno db" "\<not> m_eof rs'" "rc = 0"
    and data: "m_data db' = smap_set (m_next_recno db) (replicate (m_nfields db) FieldValue) (m_data db)"
    using res none by (auto simp: AddRecord_def)
  have "value_at db' (m_next_recno db) f = Some FieldValue" if "f < m_nfields db" for f
    using sm that by (simp add: value_at_def data)
  moreover have "value_at db' r f = value_at db r f" if "r \<noteq> m_next_recno db" for r f
    using sm that by (simp add: value_at_def data)
  ultimately show ?thesis
    using rs' none by (simp add: GetString_value GetInteger_value str_of_def int_of_def FieldValue_def)
qed

section \<open>The theorems on a small database\<close>

definition example_db :: steam where
  "example_db = snd (snd (AddRecord (Database 2 [(0, 9), (1, 8)]) \<lparr>m_record = 0, m_eof = True\<rparr>))"

definition example_rs :: cursor where
  "example_rs = \<lparr>m_record = 0, m_eof = False\<rparr>"

lemma example_db_ok: "steam_ok example_db"
  unfolding example_db_def
  by (rule AddRecord_ok, rule Database_ok, rule example_infos) (simp add: Database_def)

lemma replicate_2: "replicate 2 x = [x, x]"
  by (simp add: numeral_2_eq_2)

lemma example_db_simps [simp]:
  "m_nfields example_db = 2" "m_next_recno example_db = 1" "m_eof example_rs = False"
  "smap_find (m_data example_db) (m_record example_rs) = Some [FieldValue, FieldValue]"
  "m_fields example_db = [9, 8]"
  by (simp_all add: example_db_def example_rs_def AddRecord_def Database_def replicate_2)

lemma GetInteger_reads_witness:
  "GetString (snd (GetInteger example_db example_rs 1)) example_rs 0 = GetString example_db example_rs 0 \<and>
   fst (GetInteger (snd (GetInteger example_db example_rs 1)) example_rs 0) = fst (GetInteger example_db example_rs 0)"
  by (rule GetInteger_reads [OF example_db_ok]) simp

lemma SetString_reads_witness:
  "reads_after example_db (SetString example_db example_rs 1 ''x'') example_rs 1 ''x'' (parse_u32 ''x'')"
  using SetString_reads [OF example_db_ok, of 1 example_rs "''x''"]
  by (simp add: is_int_type_def FIELD_TYPEMASK_def FIELD_INT_def)

lemma SetInteger_reads_witness:
  "reads_after example_db (SetInteger example_db example_rs 0 7) example_rs 0 (dec 7) 7"
  using SetInteger_reads [OF example_db_ok, of 0 example_rs 7] by simp

lemma delete_record_gone_witness:
  "fst (delete_record example_db example_rs) = 0"
  using delete_record_gone [OF example_db_ok, of example_rs "fst (delete_record example_db example_rs)"
      "snd (delete_record example_db example_rs)"] by simp

lemma AddRecord_new_witness: "fst (AddRecord example_db example_rs) = 0"
  using AddRecord_new [OF example_db_ok, of example_rs "fst (AddRecord example_db example_rs)"
      "fst (snd (AddRecord example_db example_rs))" "snd (snd (AddRecord example_db example_rs))"] by simp

end
