(* ===== verification/Query.thy ===== *)
theory Query
  imports Prelude "HOL-Library.Monad_Syntax"
begin

text \<open>
  libdb/query.h and query.cpp: a database query as the client builds it. Restrictions and the
  relations that combine them live in two vectors; a \<^verbatim>\<open>Subexpression\<close> is an \<^verbatim>\<open>int\<close> that
  is \<open>n > 0\<close> for restriction number \<open>n\<close>, \<open>n < 0\<close> for relation number \<open>-n\<close>, and 0 for none. A failed
  \<^verbatim>\<open>assert\<close>, which aborts the program, is \<^verbatim>\<open>None\<close>.
\<close>

section \<open>Data\<close>

datatype RestrictionType = EQ | NE | GT | LT | GE | LE | LIKE

record restriction =
  r_which :: nat
  r_rt :: RestrictionType
  r_is_string :: bool
  r_sval :: string
  r_ival :: u32

definition string_restriction :: "nat \<Rightarrow> RestrictionType \<Rightarrow> string \<Rightarrow> restriction" where
  "string_restriction w r v = \<lparr>r_which = w, r_rt = r, r_is_string = True, r_sval = v, r_ival = 0\<rparr>"

definition int_restriction :: "nat \<Rightarrow> RestrictionType \<Rightarrow> u32 \<Rightarrow> restriction" where
  "int_restriction w r v = \<lparr>r_which = w, r_rt = r, r_is_string = False, r_sval = [], r_ival = v\<rparr>"

record relation =
  anditive :: bool
  rel_a :: int
  rel_b :: int

record query =
  m_restrictions :: "restriction list"
  m_relations :: "relation list"
  m_root :: int
  m_orderby :: "nat list"
  m_collateby :: "nat list"

definition new_query :: query where
  "new_query = \<lparr>m_restrictions = [], m_relations = [], m_root = 0, m_orderby = [], m_collateby = []\<rparr>"

section \<open>Building a query\<close>

definition push_restriction :: "restriction \<Rightarrow> query \<Rightarrow> int \<times> query" where
  "push_restriction r q =
     (let q = q\<lparr>m_restrictions := m_restrictions q @ [r]\<rparr>
      in (int (length (m_restrictions q)), q))"

definition Restrict_string :: "nat \<Rightarrow> RestrictionType \<Rightarrow> string \<Rightarrow> query \<Rightarrow> int \<times> query" where
  "Restrict_string w rt v q = push_restriction (string_restriction w rt v) q"

definition Restrict_int :: "nat \<Rightarrow> RestrictionType \<Rightarrow> u32 \<Rightarrow> query \<Rightarrow> int \<times> query" where
  "Restrict_int w rt v q = push_restriction (int_restriction w rt v) q"

definition IsValid :: "int \<Rightarrow> bool" where
  "IsValid val \<longleftrightarrow> val \<noteq> 0"

definition in_range :: "query \<Rightarrow> int \<Rightarrow> bool" where
  "in_range q s \<longleftrightarrow>
     (if s > 0 then s \<le> int (length (m_restrictions q)) else - s \<le> int (length (m_relations q)))"

definition push_relation :: "bool \<Rightarrow> int \<Rightarrow> int \<Rightarrow> query \<Rightarrow> (int \<times> query) option" where
  "push_relation andit sa sb q =
     (if sa = 0 \<or> sb = 0 \<or> \<not> in_range q sa \<or> \<not> in_range q sb then None
      else
        (let q = q\<lparr>m_relations := m_relations q @ [\<lparr>anditive = andit, rel_a = sa, rel_b = sb\<rparr>]\<rparr>
         in Some (- int (length (m_relations q)), q)))"

definition And :: "int \<Rightarrow> int \<Rightarrow> query \<Rightarrow> (int \<times> query) option" where
  "And a b q = push_relation True a b q"

definition Or :: "int \<Rightarrow> int \<Rightarrow> query \<Rightarrow> (int \<times> query) option" where
  "Or a b q = push_relation False a b q"

definition Where :: "int \<Rightarrow> query \<Rightarrow> (u32 \<times> query) option" where
  "Where expr q =
     (if expr \<noteq> 0 \<and> \<not> in_range q expr then None else Some (0, q\<lparr>m_root := expr\<rparr>))"

definition OrderBy :: "nat \<Rightarrow> query \<Rightarrow> u32 \<times> query" where
  "OrderBy w q = (0, q\<lparr>m_orderby := m_orderby q @ [w]\<rparr>)"

definition CollateBy :: "nat \<Rightarrow> query \<Rightarrow> u32 \<times> query" where
  "CollateBy w q = (0, q\<lparr>m_collateby := m_collateby q @ [w]\<rparr>)"

section \<open>Copying a query\<close>

fun clone_restrictions :: "restriction list \<Rightarrow> query \<Rightarrow> query" where
  "clone_restrictions [] q = q"
| "clone_restrictions (r # rs) q =
     clone_restrictions rs
       (snd (if r_is_string r then Restrict_string (r_which r) (r_rt r) (r_sval r) q
             else Restrict_int (r_which r) (r_rt r) (r_ival r) q))"

fun clone_relations :: "relation list \<Rightarrow> query \<Rightarrow> query option" where
  "clone_relations [] q = Some q"
| "clone_relations (r # rs) q = do {
     (_, q) \<leftarrow> (if anditive r then And (rel_a r) (rel_b r) q else Or (rel_a r) (rel_b r) q);
     clone_relations rs q }"

text \<open>
  The return codes of \<^verbatim>\<open>Where\<close>, \<^verbatim>\<open>OrderBy\<close> and \<^verbatim>\<open>CollateBy\<close> are passed on; on this
  class they are always 0.
\<close>

fun clone_fields :: "(nat \<Rightarrow> query \<Rightarrow> u32 \<times> query) \<Rightarrow> nat list \<Rightarrow> query \<Rightarrow> u32 \<times> query" where
  "clone_fields op [] q = (0, q)"
| "clone_fields op (w # ws) q =
     (let (rc, q) = op w q in if rc \<noteq> 0 then (rc, q) else clone_fields op ws q)"

definition Clone :: "query \<Rightarrow> query \<Rightarrow> (u32 \<times> query) option" where
  "Clone other q = do {
     q \<leftarrow> clone_relations (m_relations other) (clone_restrictions (m_restrictions other) q);
     (rc, q) \<leftarrow> Where (m_root other) q;
     if rc \<noteq> 0 then Some (rc, q)
     else
       (let (rc, q) = clone_fields OrderBy (m_orderby other) q in
        if rc \<noteq> 0 then Some (rc, q) else Some (clone_fields CollateBy (m_collateby other) q)) }"

section \<open>Printing a query\<close>

definition rt_string :: "RestrictionType \<Rightarrow> string" where
  "rt_string rt =
     (case rt of EQ \<Rightarrow> ''='' | NE \<Rightarrow> ''!='' | GT \<Rightarrow> ''>'' | GE \<Rightarrow> ''>='' | LT \<Rightarrow> ''<'' | LE \<Rightarrow> ''<=''
      | LIKE \<Rightarrow> ''?='')"

definition restriction_string :: "restriction \<Rightarrow> string" where
  "restriction_string r =
     ''#'' @ dec (r_which r) @ '' '' @ rt_string (r_rt r) @ '' ''
     @ (if r_is_string r then [CHR 0x22] @ r_sval r @ [CHR 0x22] else dec (unat (r_ival r))) @ '' ''"

partial_function (option) ToStringElement :: "query \<Rightarrow> int \<Rightarrow> string option" where
  "ToStringElement q elem =
     (if elem = 0 then Some []
      else if elem > 0 then Some (restriction_string (m_restrictions q ! nat (elem - 1)))
      else do {
        let r = m_relations q ! nat (- elem - 1);
        a \<leftarrow> ToStringElement q (rel_a r);
        b \<leftarrow> ToStringElement q (rel_b r);
        Some (''( '' @ a @ (if anditive r then ''and '' else ''or '') @ b @ '') '') })"

definition ToString :: "query \<Rightarrow> string option" where
  "ToString q = do {
     s \<leftarrow> ToStringElement q (m_root q);
     Some (s @ concat (map (\<lambda>w. ''order by #'' @ dec w @ '' '') (m_orderby q))
             @ concat (map (\<lambda>w. ''collate by #'' @ dec w @ '' '') (m_collateby q))) }"

section \<open>Well-formed queries\<close>

text \<open>
  The asserts make every relation refer to restrictions that exist and to earlier relations, which
  is why the recursive walks over a query end.
\<close>

definition elem_ok :: "query \<Rightarrow> nat \<Rightarrow> int \<Rightarrow> bool" where
  "elem_ok q k e \<longleftrightarrow>
     (if e > 0 then e \<le> int (length (m_restrictions q)) else e < 0 \<and> - e \<le> int k)"

definition query_ok :: "query \<Rightarrow> bool" where
  "query_ok q \<longleftrightarrow>
     (\<forall>r\<in>set (m_restrictions q). if r_is_string r then r_ival r = 0 else r_sval r = []) \<and>
     (\<forall>k<length (m_relations q).
        elem_ok q k (rel_a (m_relations q ! k)) \<and> elem_ok q k (rel_b (m_relations q ! k))) \<and>
     (m_root q = 0 \<or> elem_ok q (length (m_relations q)) (m_root q))"

lemma in_range_elem_ok: "e \<noteq> 0 \<Longrightarrow> in_range q e \<longleftrightarrow> elem_ok q (length (m_relations q)) e"
  by (auto simp: in_range_def elem_ok_def)

lemma new_query_ok: "query_ok new_query"
  by (simp add: query_ok_def new_query_def)

lemma elem_ok_mono:
  assumes "elem_ok q k e" "length (m_restrictions q) \<le> length (m_restrictions q')" "k \<le> k'"
  shows "elem_ok q' k' e"
  using assms unfolding elem_ok_def by (simp split: if_splits)

definition restriction_ok :: "restriction \<Rightarrow> bool" where
  "restriction_ok r \<longleftrightarrow> (if r_is_string r then r_ival r = 0 else r_sval r = [])"

lemma restriction_ok_string [simp]: "restriction_ok (string_restriction w rt v)"
  by (simp add: restriction_ok_def string_restriction_def)

lemma restriction_ok_int [simp]: "restriction_ok (int_restriction w rt v)"
  by (simp add: restriction_ok_def int_restriction_def)

definition relation_ok :: "query \<Rightarrow> nat \<Rightarrow> bool" where
  "relation_ok q k \<longleftrightarrow>
     elem_ok q k (rel_a (m_relations q ! k)) \<and> elem_ok q k (rel_b (m_relations q ! k))"

lemma query_ok_alt:
  "query_ok q \<longleftrightarrow>
     (\<forall>r\<in>set (m_restrictions q). restriction_ok r) \<and>
     (\<forall>k<length (m_relations q). relation_ok q k) \<and>
     (m_root q = 0 \<or> elem_ok q (length (m_relations q)) (m_root q))"
  by (simp add: query_ok_def restriction_ok_def relation_ok_def)

lemma push_restriction_ok:
  assumes q: "query_ok q" and r: "restriction_ok r" and p: "push_restriction r q = (e, q')"
  shows "query_ok q' \<and> e \<noteq> 0 \<and> in_range q' e"
proof -
  have q': "q' = q\<lparr>m_restrictions := m_restrictions q @ [r]\<rparr>"
    and e: "e = int (length (m_restrictions q'))"
    using p by (auto simp: push_restriction_def Let_def)
  have mono: "elem_ok q k x \<Longrightarrow> elem_ok q' k x" for k x
    by (erule elem_ok_mono) (simp_all add: q')
  have "e > 0"
    by (simp add: e q')
  then have "in_range q' e"
    by (simp add: in_range_def e)
  have rels: "m_relations q' = m_relations q" and root: "m_root q' = m_root q"
    and res: "set (m_restrictions q') = insert r (set (m_restrictions q))"
    by (simp_all add: q')
  have "query_ok q'"
    using q r unfolding query_ok_alt relation_ok_def rels root res by (auto intro: mono)
  with \<open>e > 0\<close> \<open>in_range q' e\<close> show ?thesis
    by simp
qed

lemma push_relation_ok:
  assumes q: "query_ok q" and p: "push_relation c a b q = Some (e, q')"
  shows "query_ok q' \<and> e \<noteq> 0 \<and> in_range q' e"
proof -
  let ?k = "length (m_relations q)"
  have q': "q' = q\<lparr>m_relations := m_relations q @ [\<lparr>anditive = c, rel_a = a, rel_b = b\<rparr>]\<rparr>"
    and e: "e = - int (length (m_relations q'))"
    and a: "elem_ok q ?k a" and b: "elem_ok q ?k b"
    using p by (auto simp: push_relation_def Let_def in_range_elem_ok split: if_splits)
  have mono: "elem_ok q k x \<Longrightarrow> k \<le> k' \<Longrightarrow> elem_ok q' k' x" for k k' x
    by (erule elem_ok_mono) (simp_all add: q')
  have "e < 0"
    by (simp add: e q')
  then have "in_range q' e"
    by (simp add: in_range_def e)
  have rels: "m_relations q' ! k = (if k < ?k then m_relations q ! k
      else \<lparr>anditive = c, rel_a = a, rel_b = b\<rparr>)" if "k \<le> ?k" for k
    using that by (simp add: q' nth_append)
  have "relation_ok q' k" if "k < length (m_relations q')" for k
  proof (cases "k < ?k")
    case True
    then have "relation_ok q k"
      using q by (simp add: query_ok_alt)
    then show ?thesis
      using True mono [of k] by (simp add: relation_ok_def rels)
  next
    case False
    then have "k = ?k"
      using that by (simp add: q')
    then show ?thesis
      using a b mono [of ?k] by (simp add: relation_ok_def rels)
  qed
  moreover have "m_root q' = 0 \<or> elem_ok q' (length (m_relations q')) (m_root q')"
    using q mono [of ?k "m_root q"] by (auto simp: query_ok_alt q')
  moreover have "\<forall>r\<in>set (m_restrictions q'). restriction_ok r"
    using q by (simp add: query_ok_alt q')
  ultimately have "query_ok q'"
    by (simp add: query_ok_alt)
  with \<open>e < 0\<close> \<open>in_range q' e\<close> show ?thesis
    by simp
qed

lemma Where_ok: "query_ok q \<Longrightarrow> Where e q = Some (rc, q') \<Longrightarrow> query_ok q' \<and> rc = 0"
  by (auto simp: Where_def query_ok_def in_range_elem_ok elem_ok_def split: if_splits)


lemma Restrict_ok:
  assumes "query_ok q"
  shows "Restrict_string w rt v q = (e, q') \<Longrightarrow> query_ok q' \<and> e \<noteq> 0 \<and> in_range q' e"
    and "Restrict_int w rt n q = (e, q') \<Longrightarrow> query_ok q' \<and> e \<noteq> 0 \<and> in_range q' e"
  unfolding Restrict_string_def Restrict_int_def
  by (rule push_restriction_ok [OF assms]; simp)+

lemma AndOr_ok:
  assumes "query_ok q"
  shows "And a b q = Some (e, q') \<Longrightarrow> query_ok q' \<and> e \<noteq> 0 \<and> in_range q' e"
    and "Or a b q = Some (e, q') \<Longrightarrow> query_ok q' \<and> e \<noteq> 0 \<and> in_range q' e"
  unfolding And_def Or_def by (rule push_relation_ok [OF assms]; simp)+

lemma query_ok_fields [simp]:
  "query_ok (q\<lparr>m_orderby := ws\<rparr>) = query_ok q" "query_ok (q\<lparr>m_collateby := ws\<rparr>) = query_ok q"
  by (simp_all add: query_ok_def elem_ok_def)

text \<open>
  The queries a client can hold: what it gets from an empty query by calling the operations in any
  order, with any arguments that no assert refuses.
\<close>

inductive built :: "query \<Rightarrow> bool" where
  built_new: "built new_query"
| built_string: "built q \<Longrightarrow> built (snd (Restrict_string w rt v q))"
| built_int: "built q \<Longrightarrow> built (snd (Restrict_int w rt n q))"
| built_and: "built q \<Longrightarrow> And a b q = Some (e, q') \<Longrightarrow> built q'"
| built_or: "built q \<Longrightarrow> Or a b q = Some (e, q') \<Longrightarrow> built q'"
| built_where: "built q \<Longrightarrow> Where e q = Some (rc, q') \<Longrightarrow> built q'"
| built_order: "built q \<Longrightarrow> built (snd (OrderBy w q))"
| built_collate: "built q \<Longrightarrow> built (snd (CollateBy w q))"

text \<open>C10: Whatever a client does to a query without tripping an assert, the query is well-formed:
  every relation and the root refer to restrictions that exist and to earlier relations.\<close>
theorem built_query_ok: "built q \<Longrightarrow> query_ok q"
proof (induction rule: built.induct)
  case (built_string q w rt v)
  then show ?case
    using Restrict_ok(1) [of q w rt v] by (cases "Restrict_string w rt v q") auto
next
  case (built_int q w rt n)
  then show ?case
    using Restrict_ok(2) [of q w rt n] by (cases "Restrict_int w rt n q") auto
qed (auto simp: new_query_ok OrderBy_def CollateBy_def dest: AndOr_ok Where_ok)

definition example_query :: query where
  "example_query =
     \<lparr>m_restrictions = [string_restriction 1 EQ ''x'', int_restriction 2 GT 3],
      m_relations = [\<lparr>anditive = True, rel_a = 1, rel_b = 2\<rparr>], m_root = - 1,
      m_orderby = [4], m_collateby = []\<rparr>"

lemma example_built: "built example_query"
proof -
  note s = built_string [OF built_new, of 1 EQ "''x''"]
  note i = built_int [OF s, of 2 GT 3]
  let ?q = "snd (Restrict_int 2 GT 3 (snd (Restrict_string 1 EQ ''x'' new_query)))"
  have "And 1 2 ?q = Some (- 1, ?q\<lparr>m_relations := [\<lparr>anditive = True, rel_a = 1, rel_b = 2\<rparr>]\<rparr>)"
    by (simp add: And_def push_relation_def in_range_def Restrict_int_def Restrict_string_def
        push_restriction_def new_query_def Let_def)
  note a = built_and [OF i this]
  let ?q' = "?q\<lparr>m_relations := [\<lparr>anditive = True, rel_a = 1, rel_b = 2\<rparr>]\<rparr>"
  have "Where (- 1) ?q' = Some (0, ?q'\<lparr>m_root := - 1\<rparr>)"
    by (simp add: Where_def in_range_def)
  note w = built_where [OF a this]
  have "example_query = snd (OrderBy 4 (?q'\<lparr>m_root := - 1\<rparr>))"
    by (simp add: example_query_def OrderBy_def Restrict_int_def Restrict_string_def
        push_restriction_def new_query_def Let_def)
  then show ?thesis
    using built_order [OF w, of 4] by simp
qed

lemma built_query_ok_witness: "query_ok example_query"
  by (rule built_query_ok [OF example_built])

section \<open>Walking a query ends\<close>

text \<open>
  A walk that goes from an element to the operands of its relation visits elements of smaller and
  smaller height.
\<close>

definition height :: "int \<Rightarrow> nat" where
  "height e = (if e > 0 then 0 else nat (- e))"

lemma relation_operands:
  assumes "query_ok q" "e < 0" "- e \<le> int (length (m_relations q))"
  defines "r \<equiv> m_relations q ! nat (- e - 1)"
  shows "elem_ok q (nat (- e) - 1) (rel_a r)" "elem_ok q (nat (- e) - 1) (rel_b r)"
    "height (rel_a r) < height e" "height (rel_b r) < height e"
proof -
  have k: "nat (- e - 1) < length (m_relations q)" "nat (- e - 1) = nat (- e) - 1"
    using assms by auto
  have "relation_ok q (nat (- e - 1))"
    using assms(1) k by (simp add: query_ok_alt)
  then show "elem_ok q (nat (- e) - 1) (rel_a r)" "elem_ok q (nat (- e) - 1) (rel_b r)"
    by (simp_all add: relation_ok_def r_def k(2))
  then show "height (rel_a r) < height e" "height (rel_b r) < height e"
    using assms(2) by (auto simp: height_def elem_ok_def split: if_splits)
qed

lemma query_walk_induct [consumes 2, case_names leaf node]:
  assumes q: "query_ok q" and e: "elem_ok q (length (m_relations q)) e"
    and leaf: "\<And>e. 0 < e \<Longrightarrow> nat (e - 1) < length (m_restrictions q) \<Longrightarrow> P e"
    and node: "\<And>e. e < 0 \<Longrightarrow> P (rel_a (m_relations q ! nat (- e - 1))) \<Longrightarrow>
      P (rel_b (m_relations q ! nat (- e - 1))) \<Longrightarrow> P e"
  shows "P e"
  using e
proof (induction "height e" arbitrary: e rule: less_induct)
  case less
  show ?case
  proof (cases "e > 0")
    case True
    then show ?thesis
      using less.prems by (intro leaf) (auto simp: elem_ok_def)
  next
    case False
    then have e: "e < 0" "- e \<le> int (length (m_relations q))"
      using less.prems by (auto simp: elem_ok_def)
    note ops = relation_operands [OF q e]
    have "nat (- e) - 1 \<le> length (m_relations q)"
      using e by simp
    then show ?thesis
      using ops less.hyps elem_ok_mono [OF ops(1)] elem_ok_mono [OF ops(2)]
      by (intro node [OF e(1)]) auto
  qed
qed

text \<open>C11: Printing a well-formed query returns.\<close>
theorem ToString_returns: "query_ok q \<Longrightarrow> \<exists>s. ToString q = Some s"
proof -
  assume q: "query_ok q"
  have "\<exists>s. ToStringElement q (m_root q) = Some s"
  proof (cases "m_root q = 0")
    case True
    then show ?thesis
      by (simp add: ToStringElement.simps)
  next
    case False
    then have "elem_ok q (length (m_relations q)) (m_root q)"
      using q by (simp add: query_ok_def)
    with q show ?thesis
      by (induction rule: query_walk_induct) (subst ToStringElement.simps, auto simp: Let_def)+
  qed
  then show ?thesis
    by (auto simp: ToString_def)
qed

lemma ToString_returns_witness: "\<exists>s. ToString example_query = Some s"
proof -
  have "query_ok example_query"
    by (simp add: query_ok_def example_query_def elem_ok_def string_restriction_def int_restriction_def)
  then show ?thesis
    by (rule ToString_returns)
qed

section \<open>A clone is a copy\<close>

lemma clone_restrictions_append:
  "\<forall>r\<in>set rs. restriction_ok r \<Longrightarrow>
     clone_restrictions rs q = q\<lparr>m_restrictions := m_restrictions q @ rs\<rparr>"
proof (induction rs arbitrary: q)
  case (Cons r rs)
  have "r = (if r_is_string r then string_restriction (r_which r) (r_rt r) (r_sval r)
      else int_restriction (r_which r) (r_rt r) (r_ival r))"
    using Cons.prems by (cases r) (auto simp: string_restriction_def int_restriction_def restriction_ok_def)
  then have "snd (if r_is_string r then Restrict_string (r_which r) (r_rt r) (r_sval r) q
      else Restrict_int (r_which r) (r_rt r) (r_ival r) q) = q\<lparr>m_restrictions := m_restrictions q @ [r]\<rparr>"
    by (auto simp: Restrict_string_def Restrict_int_def push_restriction_def Let_def)
  then show ?case
    using Cons by simp
qed simp

lemma clone_relations_append:
  assumes "\<forall>k<length rs. elem_ok q (length (m_relations q) + k) (rel_a (rs ! k)) \<and>
    elem_ok q (length (m_relations q) + k) (rel_b (rs ! k))"
  shows "clone_relations rs q = Some (q\<lparr>m_relations := m_relations q @ rs\<rparr>)"
  using assms
proof (induction rs arbitrary: q)
  case (Cons r rs)
  let ?q = "q\<lparr>m_relations := m_relations q @ [r]\<rparr>"
  have "elem_ok q (length (m_relations q)) (rel_a r)" "elem_ok q (length (m_relations q)) (rel_b r)"
    using Cons.prems [rule_format, of 0] by simp_all
  then have nz: "rel_a r \<noteq> 0 \<and> rel_b r \<noteq> 0"
    and "in_range q (rel_a r)" "in_range q (rel_b r)"
    by (auto simp: elem_ok_def in_range_def split: if_splits)
  then have push: "push_relation (anditive r) (rel_a r) (rel_b r) q = Some (- int (length (m_relations ?q)), ?q)"
    by (simp add: push_relation_def Let_def)
  have rest: "clone_relations rs ?q = Some (?q\<lparr>m_relations := m_relations ?q @ rs\<rparr>)"
  proof (rule Cons.IH, intro allI impI)
    fix k assume "k < length rs"
    then show "elem_ok ?q (length (m_relations ?q) + k) (rel_a (rs ! k)) \<and>
        elem_ok ?q (length (m_relations ?q) + k) (rel_b (rs ! k))"
      using Cons.prems [rule_format, of "Suc k"] by (auto simp: elem_ok_def split: if_splits)
  qed
  show ?case
    using push rest by (cases "anditive r") (simp_all add: And_def Or_def)
qed simp

lemma clone_fields_append:
  "clone_fields OrderBy ws q = (0, q\<lparr>m_orderby := m_orderby q @ ws\<rparr>)"
  "clone_fields CollateBy ws q = (0, q\<lparr>m_collateby := m_collateby q @ ws\<rparr>)"
  by (induction ws arbitrary: q) (simp_all add: OrderBy_def CollateBy_def)

lemma Clone_fresh: "query_ok q \<Longrightarrow> Clone q new_query = Some (0, q)"
proof -
  assume q: "query_ok q"
  let ?q1 = "new_query\<lparr>m_restrictions := m_restrictions q\<rparr>"
  let ?q2 = "?q1\<lparr>m_relations := m_relations q\<rparr>"
  have 1: "clone_restrictions (m_restrictions q) new_query = ?q1"
    using q by (subst clone_restrictions_append) (auto simp: query_ok_alt new_query_def)
  have rels: "\<forall>k<length (m_relations q). elem_ok ?q1 (length (m_relations ?q1) + k) (rel_a (m_relations q ! k)) \<and>
      elem_ok ?q1 (length (m_relations ?q1) + k) (rel_b (m_relations q ! k))"
    using q unfolding query_ok_def elem_ok_def by (simp add: new_query_def)
  have 2: "clone_relations (m_relations q) ?q1 = Some ?q2"
    using clone_relations_append [OF rels] by (simp add: new_query_def)
  have 3: "Where (m_root q) ?q2 = Some (0, ?q2\<lparr>m_root := m_root q\<rparr>)"
    using q by (auto simp: Where_def in_range_def query_ok_def elem_ok_def new_query_def split: if_splits)
  show ?thesis
    unfolding Clone_def by (simp add: 1 2 3 clone_fields_append) (simp add: new_query_def)
qed

text \<open>Cloning a well-formed query into a fresh one gives the same query.\<close>
theorem Clone_copies: "query_ok q \<Longrightarrow> Clone q new_query = Some (0, q)"
  by (rule Clone_fresh)

lemma Clone_copies_witness: "Clone example_query new_query = Some (0, example_query)"
proof -
  have "query_ok example_query"
    by (simp add: query_ok_def example_query_def elem_ok_def string_restriction_def int_restriction_def)
  then show ?thesis
    by (rule Clone_copies)
qed

end
