(* ===== verification/SteamQuery.thy ===== *)
theory SteamQuery
  imports SteamDb Query
begin

text \<open>
  libdbsteam/query.h, query.cpp and the rest of rs.h, rs.cpp: executing a query on the database and
  the four kinds of cursor that deliver its results. \<^verbatim>\<open>None\<close> is an abnormal end: a failed
  \<^verbatim>\<open>assert\<close> or an uncaught exception. The regular expressions of Boost are the parameters
  \<^verbatim>\<open>regex_ok\<close> (the constructor accepts the pattern) and \<^verbatim>\<open>re\<close> (what
  \<^verbatim>\<open>regex_match\<close> says of a compiled pattern, or of the empty regex, and a text).
\<close>

section \<open>Matching one record\<close>

type_synonym regexes = "(nat, string) smap"

record steam_query =
  sq_query :: query
  m_regexes :: regexes

definition match_restriction ::
  "(string option \<Rightarrow> string \<Rightarrow> bool) \<Rightarrow> regexes \<Rightarrow> nat \<Rightarrow> restriction \<Rightarrow> cursor \<Rightarrow> steam \<Rightarrow> (bool \<times> steam) option"
where
  "match_restriction re regexes i r rs db =
     (if r_is_string r then
        (let val = GetString db rs (r_which r) in
         case r_rt r of
           EQ \<Rightarrow> Some (val = r_sval r, db)
         | NE \<Rightarrow> Some (val \<noteq> r_sval r, db)
         | LIKE \<Rightarrow> Some (re (smap_find regexes i) val, db)
         | _ \<Rightarrow> None)
      else
        (let (val, db) = GetInteger db rs (r_which r) in
         case r_rt r of
           EQ \<Rightarrow> Some (val = r_ival r, db)
         | NE \<Rightarrow> Some (val \<noteq> r_ival r, db)
         | GT \<Rightarrow> Some (\<not> val \<le> r_ival r, db)
         | LT \<Rightarrow> Some (\<not> val \<ge> r_ival r, db)
         | LE \<Rightarrow> Some (\<not> val > r_ival r, db)
         | GE \<Rightarrow> Some (\<not> val < r_ival r, db)
         | LIKE \<Rightarrow> None))"

partial_function (option) MatchElement ::
  "(string option \<Rightarrow> string \<Rightarrow> bool) \<Rightarrow> steam_query \<Rightarrow> cursor \<Rightarrow> int \<Rightarrow> steam \<Rightarrow> (bool \<times> steam) option"
where
  "MatchElement re q rs elem db =
     (if elem > 0 then
        match_restriction re (m_regexes q) (nat (elem - 1))
          (m_restrictions (sq_query q) ! nat (elem - 1)) rs db
      else if elem = 0 then None
      else do {
        let r = m_relations (sq_query q) ! nat (- elem - 1);
        (lhs, db) \<leftarrow> MatchElement re q rs (rel_a r) db;
        (if anditive r \<and> \<not> lhs then Some (False, db)
         else if \<not> anditive r \<and> lhs then Some (True, db)
         else MatchElement re q rs (rel_b r) db) })"

definition Match ::
  "(string option \<Rightarrow> string \<Rightarrow> bool) \<Rightarrow> steam_query \<Rightarrow> cursor \<Rightarrow> steam \<Rightarrow> (bool \<times> steam) option" where
  "Match re q rs db =
     (if m_root (sq_query q) = 0 then Some (True, db)
      else MatchElement re q rs (m_root (sq_query q)) db)"

text \<open>\<^verbatim>\<open>!m_query || m_query->Match(this)\<close>\<close>

definition match_opt ::
  "(string option \<Rightarrow> string \<Rightarrow> bool) \<Rightarrow> steam_query option \<Rightarrow> cursor \<Rightarrow> steam \<Rightarrow> (bool \<times> steam) option" where
  "match_opt re qo rs db = (case qo of None \<Rightarrow> Some (True, db) | Some q \<Rightarrow> Match re q rs db)"

section \<open>SimpleRecordset\<close>

partial_function (option) Simple_MoveNext ::
  "(string option \<Rightarrow> string \<Rightarrow> bool) \<Rightarrow> steam_query option \<Rightarrow> cursor \<Rightarrow> steam \<Rightarrow> (cursor \<times> steam) option"
where
  "Simple_MoveNext re qo rs db =
     (if m_eof rs then Some (rs, db)
      else case smap_upper_bound (m_data db) (m_record rs) of
          [] \<Rightarrow> Some (rs\<lparr>m_eof := True\<rparr>, db)
        | e # i \<Rightarrow> do {
            let rs = rs\<lparr>m_record := fst e\<rparr>;
            (ok, db) \<leftarrow> match_opt re qo rs db;
            (if ok then Some (rs, db) else Simple_MoveNext re qo rs db) })"

definition SimpleRecordset ::
  "(string option \<Rightarrow> string \<Rightarrow> bool) \<Rightarrow> steam_query option \<Rightarrow> steam \<Rightarrow> (cursor \<times> steam) option" where
  "SimpleRecordset re qo db =
     (let rs = Recordset db in
      if m_eof rs then Some (rs, db)
      else do {
        (ok, db) \<leftarrow> match_opt re qo rs db;
        (if ok then Some (rs, db) else Simple_MoveNext re qo rs db) })"

section \<open>IndexedRecordset\<close>

record index_cursor = cursor +
  ic_field :: nat
  ic_is_int :: bool
  ic_stringval :: string
  ic_intval :: u32
  ic_subrecno :: u32

text \<open>\<^verbatim>\<open>*(i->second.begin())\<close>, and the element after \<^verbatim>\<open>n\<close> increments.\<close>

definition index_first :: "u32 list option \<Rightarrow> index_cursor \<Rightarrow> index_cursor" where
  "index_first so c =
     (case so of None \<Rightarrow> c\<lparr>m_eof := True\<rparr> | Some s \<Rightarrow> c\<lparr>m_eof := False, m_record := hd s\<rparr>)"

definition index_cursor_of :: "cursor \<Rightarrow> nat \<Rightarrow> bool \<Rightarrow> string \<Rightarrow> u32 \<Rightarrow> index_cursor" where
  "index_cursor_of rs f b s n =
     \<lparr>m_record = m_record rs, m_eof = m_eof rs, ic_field = f, ic_is_int = b, ic_stringval = s,
      ic_intval = n, ic_subrecno = 0\<rparr>"

definition IndexedRecordset_int :: "steam \<Rightarrow> nat \<Rightarrow> u32 \<Rightarrow> index_cursor" where
  "IndexedRecordset_int db f n =
     index_first (smap_find (m_intindexes db ! f) n) (index_cursor_of (Recordset db) f True [] n)"

definition IndexedRecordset_string :: "steam \<Rightarrow> nat \<Rightarrow> string \<Rightarrow> index_cursor" where
  "IndexedRecordset_string db f s =
     index_first (smap_find (m_stringindexes db ! f) s) (index_cursor_of (Recordset db) f False s 0)"

definition index_next :: "u32 list option \<Rightarrow> index_cursor \<Rightarrow> index_cursor" where
  "index_next so c =
     (case so of None \<Rightarrow> c\<lparr>m_eof := True\<rparr>
      | Some s \<Rightarrow>
          (let c = c\<lparr>ic_subrecno := ic_subrecno c + 1\<rparr> in
           if unat (ic_subrecno c) \<ge> length s then c\<lparr>m_eof := True\<rparr>
           else c\<lparr>m_record := s ! unat (ic_subrecno c)\<rparr>))"

definition Indexed_MoveNext :: "index_cursor \<Rightarrow> steam \<Rightarrow> index_cursor" where
  "Indexed_MoveNext c db =
     (if m_eof c then c
      else if ic_is_int c then index_next (smap_find (m_intindexes db ! ic_field c) (ic_intval c)) c
      else index_next (smap_find (m_stringindexes db ! ic_field c) (ic_stringval c)) c)"

section \<open>OrderedRecordset\<close>

definition OrderedRecordset :: "steam \<Rightarrow> nat \<Rightarrow> index_cursor" where
  "OrderedRecordset db f =
     (let is_int = is_int_type (m_fields db ! f);
          c = index_cursor_of (Recordset db) f is_int [] 0
      in if is_int then
           (case m_intindexes db ! f of [] \<Rightarrow> c\<lparr>m_eof := True\<rparr>
            | (k, s) # _ \<Rightarrow> c\<lparr>m_eof := False, m_record := hd s, ic_subrecno := 0, ic_intval := k\<rparr>)
         else
           (case m_stringindexes db ! f of [] \<Rightarrow> c\<lparr>m_eof := True\<rparr>
            | (k, s) # _ \<Rightarrow> c\<lparr>m_eof := False, m_record := hd s, ic_subrecno := 0, ic_stringval := k\<rparr>))"

text \<open>
  The \<^verbatim>\<open>while\<close> loop: the position in the set, and the key and the set the iterator stops at,
  or none at the end of the index.
\<close>

fun ordered_seek :: "('k \<times> u32 list) list \<Rightarrow> u32 \<Rightarrow> u32 \<times> ('k \<times> u32 list) option" where
  "ordered_seek [] sub = (sub, None)"
| "ordered_seek ((k, s) # i) sub =
     (if unat sub \<ge> length s then
        (case i of [] \<Rightarrow> (sub, None) | _ # _ \<Rightarrow> ordered_seek i 0)
      else (sub, Some (k, s)))"

definition ordered_start :: "('k::linorder, u32 list) smap \<Rightarrow> 'k \<Rightarrow> u32 \<Rightarrow> u32 \<times> ('k \<times> u32 list) option" where
  "ordered_start index key sub =
     (let i = smap_lower_bound index key in
      case i of [] \<Rightarrow> (sub, None)
      | (k, s) # _ \<Rightarrow> ordered_seek i (if k \<noteq> key then 0 else sub + 1))"

definition Ordered_MoveNext :: "index_cursor \<Rightarrow> steam \<Rightarrow> index_cursor" where
  "Ordered_MoveNext c db =
     (if m_eof c then c
      else if ic_is_int c then
        (case ordered_start (m_intindexes db ! ic_field c) (ic_intval c) (ic_subrecno c) of
           (sub, None) \<Rightarrow> c\<lparr>ic_subrecno := sub, m_eof := True\<rparr>
         | (sub, Some (k, s)) \<Rightarrow> c\<lparr>ic_subrecno := sub, ic_intval := k, m_record := s ! unat sub\<rparr>)
      else
        (case ordered_start (m_stringindexes db ! ic_field c) (ic_stringval c) (ic_subrecno c) of
           (sub, None) \<Rightarrow> c\<lparr>ic_subrecno := sub, m_eof := True\<rparr>
         | (sub, Some (k, s)) \<Rightarrow> c\<lparr>ic_subrecno := sub, ic_stringval := k, m_record := s ! unat sub\<rparr>))"

section \<open>CollateRecordset\<close>

record collate_cursor =
  cc_field :: nat
  cc_is_int :: bool
  cc_intvalue :: u32
  cc_strvalue :: string
  cc_eof :: bool
  cc_query :: "steam_query option"
  cc_rs :: cursor

fun collate_any ::
  "(string option \<Rightarrow> string \<Rightarrow> bool) \<Rightarrow> steam_query \<Rightarrow> u32 list \<Rightarrow> cursor \<Rightarrow> steam \<Rightarrow> (bool \<times> cursor \<times> steam) option"
where
  "collate_any re q [] rs db = Some (False, rs, db)"
| "collate_any re q (r # s) rs db = do {
     let rs = SetRecordNumber r rs;
     (ok, db) \<leftarrow> Match re q rs db;
     (if ok then Some (True, rs, db) else collate_any re q s rs db) }"

fun MoveUntilValid ::
  "(string option \<Rightarrow> string \<Rightarrow> bool) \<Rightarrow> stringindex \<Rightarrow> collate_cursor \<Rightarrow> steam \<Rightarrow> (collate_cursor \<times> steam) option"
where
  "MoveUntilValid re [] c db = Some (c\<lparr>cc_eof := True\<rparr>, db)"
| "MoveUntilValid re ((k, s) # i) c db =
     (let c = c\<lparr>cc_strvalue := k\<rparr> in
      case cc_query c of None \<Rightarrow> Some (c, db)
      | Some q \<Rightarrow> do {
          (ok, rs, db) \<leftarrow> collate_any re q s (cc_rs c) db;
          let c = c\<lparr>cc_rs := rs\<rparr>;
          (if ok then Some (c, db) else MoveUntilValid re i c db) })"

definition CollateRecordset ::
  "(string option \<Rightarrow> string \<Rightarrow> bool) \<Rightarrow> steam \<Rightarrow> nat \<Rightarrow> steam_query option \<Rightarrow> (collate_cursor \<times> steam) option" where
  "CollateRecordset re db f qo = do {
     (rs, db) \<leftarrow> SimpleRecordset re None db;
     let is_int = is_int_type (m_fields db ! f);
     let c = \<lparr>cc_field = f, cc_is_int = is_int, cc_intvalue = 0, cc_strvalue = [], cc_eof = False,
              cc_query = qo, cc_rs = rs\<rparr>;
     (if is_int then
        (case m_intindexes db ! f of [] \<Rightarrow> Some (c\<lparr>cc_eof := True\<rparr>, db)
         | (k, _) # _ \<Rightarrow> Some (c\<lparr>cc_intvalue := k, cc_eof := False\<rparr>, db))
      else
        (case m_stringindexes db ! f of [] \<Rightarrow> Some (c\<lparr>cc_eof := True\<rparr>, db)
         | _ # _ \<Rightarrow> MoveUntilValid re (m_stringindexes db ! f) c db)) }"

definition Collate_GetInteger :: "collate_cursor \<Rightarrow> nat \<Rightarrow> u32" where
  "Collate_GetInteger c which = cc_intvalue c"

definition Collate_GetString :: "collate_cursor \<Rightarrow> nat \<Rightarrow> string" where
  "Collate_GetString c which = cc_strvalue c"

definition Collate_MoveNext ::
  "(string option \<Rightarrow> string \<Rightarrow> bool) \<Rightarrow> collate_cursor \<Rightarrow> steam \<Rightarrow> (collate_cursor \<times> steam) option" where
  "Collate_MoveNext re c db =
     (if cc_eof c then Some (c, db)
      else if cc_is_int c then
        (case smap_upper_bound (m_intindexes db ! cc_field c) (cc_intvalue c) of
           [] \<Rightarrow> Some (c\<lparr>cc_eof := True\<rparr>, db)
         | (k, _) # _ \<Rightarrow> Some (c\<lparr>cc_intvalue := k\<rparr>, db))
      else
        (case dropWhile (\<lambda>(k, s). k \<noteq> cc_strvalue c) (m_stringindexes db ! cc_field c) of
           [] \<Rightarrow> Some (c\<lparr>cc_eof := True\<rparr>, db)
         | _ # i \<Rightarrow> MoveUntilValid re i c db))"

section \<open>Executing a query\<close>

datatype recordset =
    Simple "steam_query option" cursor
  | Indexed index_cursor
  | Ordered index_cursor
  | Collate collate_cursor

fun compile_regexes :: "(string \<Rightarrow> bool) \<Rightarrow> nat \<Rightarrow> restriction list \<Rightarrow> regexes \<Rightarrow> regexes option" where
  "compile_regexes regex_ok i [] m = Some m"
| "compile_regexes regex_ok i (r # rs) m =
     (if r_rt r = LIKE then
        (if regex_ok (r_sval r) then compile_regexes regex_ok (i + 1) rs (smap_set i (r_sval r) m) else None)
      else compile_regexes regex_ok (i + 1) rs m)"

text \<open>
  \<^verbatim>\<open>Execute\<close> gives the recordset, or none for a null pointer. The recordset holds a pointer
  to the query, here the query with its regular expressions compiled.
\<close>

definition Execute ::
  "(string \<Rightarrow> bool) \<Rightarrow> (string option \<Rightarrow> string \<Rightarrow> bool) \<Rightarrow> steam_query \<Rightarrow> steam \<Rightarrow> (recordset option \<times> steam) option" where
  "Execute regex_ok re sq db =
     (let q = sq_query sq in
      if m_restrictions q \<noteq> [] \<and> m_root q = 0 then None
      else do {
        rx \<leftarrow> compile_regexes regex_ok 0 (m_restrictions q) [];
        let sq = sq\<lparr>m_regexes := rx\<rparr>;
        (case m_collateby q of
           f # fs \<Rightarrow>
             (if \<not> is_indexed (m_fields db ! f) then Some (None, db)
              else if fs \<noteq> [] then Some (None, db)
              else do { (c, db) \<leftarrow> CollateRecordset re db f (Some sq); Some (Some (Collate c), db) })
         | [] \<Rightarrow>
             (case m_orderby q of
                f # _ \<Rightarrow> Some (Some (Ordered (OrderedRecordset db f)), db)
              | [] \<Rightarrow>
                  (let simple = do { (rs, db) \<leftarrow> SimpleRecordset re (Some sq) db;
                                     Some (Some (Simple (Some sq) rs), db) } in
                   case m_restrictions q of
                     [r] \<Rightarrow>
                       (if r_rt r = EQ \<and> is_indexed (m_fields db ! r_which r) then
                          (if r_is_string r
                           then Some (Some (Indexed (IndexedRecordset_string db (r_which r) (r_sval r))), db)
                           else Some (Some (Indexed (IndexedRecordset_int db (r_which r) (r_ival r))), db))
                        else simple)
                   | _ \<Rightarrow> simple))) })"

text \<open>The virtual functions of the recordset that \<^verbatim>\<open>Execute\<close> returned.\<close>

fun rs_IsEOF :: "recordset \<Rightarrow> bool" where
  "rs_IsEOF (Simple qo rs) = m_eof rs"
| "rs_IsEOF (Indexed c) = m_eof c"
| "rs_IsEOF (Ordered c) = m_eof c"
| "rs_IsEOF (Collate c) = cc_eof c"

fun rs_MoveNext ::
  "(string option \<Rightarrow> string \<Rightarrow> bool) \<Rightarrow> recordset \<Rightarrow> steam \<Rightarrow> (recordset \<times> steam) option" where
  "rs_MoveNext re (Simple qo rs) db = do { (rs, db) \<leftarrow> Simple_MoveNext re qo rs db; Some (Simple qo rs, db) }"
| "rs_MoveNext re (Indexed c) db = Some (Indexed (Indexed_MoveNext c db), db)"
| "rs_MoveNext re (Ordered c) db = Some (Ordered (Ordered_MoveNext c db), db)"
| "rs_MoveNext re (Collate c) db = do { (c, db) \<leftarrow> Collate_MoveNext re c db; Some (Collate c, db) }"

text \<open>\<^verbatim>\<open>Delete\<close>: the record goes, then the cursor moves on. A collation is read-only.\<close>

definition rs_cursor :: "recordset \<Rightarrow> cursor" where
  "rs_cursor rs =
     (case rs of Simple _ c \<Rightarrow> c | Indexed c \<Rightarrow> cursor.truncate c | Ordered c \<Rightarrow> cursor.truncate c
      | Collate c \<Rightarrow> cc_rs c)"

definition rs_Delete ::
  "(string option \<Rightarrow> string \<Rightarrow> bool) \<Rightarrow> recordset \<Rightarrow> steam \<Rightarrow> (u32 \<times> recordset \<times> steam) option" where
  "rs_Delete re rs db =
     (case rs of Collate _ \<Rightarrow> Some (EPERM, rs, db)
      | _ \<Rightarrow>
        (let (rc, db) = delete_record db (rs_cursor rs) in
         if rc \<noteq> 0 then Some (rc, rs, db)
         else do { (rs, db) \<leftarrow> rs_MoveNext re rs db; Some (0, rs, db) }))"

end
