(* ===== verification/SteamMatch.thy ===== *)
theory SteamMatch
  imports SteamInv SteamQuery
begin

text \<open>
  What a query means, and that matching a record computes it. A match may store numbers that it
  parsed from strings, so it changes the database; \<^verbatim>\<open>same_reads\<close> says that nobody can
  tell the difference.
\<close>

section \<open>Databases that read the same\<close>

definition same_reads :: "steam \<Rightarrow> steam \<Rightarrow> bool" where
  "same_reads db db' \<longleftrightarrow>
     steam_ok db' \<and> m_nfields db' = m_nfields db \<and> m_next_recno db' = m_next_recno db \<and>
     m_fields db' = m_fields db \<and> m_stringindexes db' = m_stringindexes db \<and>
     m_intindexes db' = m_intindexes db \<and> map fst (m_data db') = map fst (m_data db) \<and>
     (\<forall>r f. map_option str_of (value_at db' r f) = map_option str_of (value_at db r f) \<and>
            map_option int_of (value_at db' r f) = map_option int_of (value_at db r f))"

lemma same_reads_refl: "steam_ok db \<Longrightarrow> same_reads db db"
  by (simp add: same_reads_def)

lemma same_reads_trans: "same_reads db db' \<Longrightarrow> same_reads db' db'' \<Longrightarrow> same_reads db db''"
  by (simp add: same_reads_def)

lemma same_reads_ok: "same_reads db db' \<Longrightarrow> steam_ok db'"
  by (simp add: same_reads_def)

lemma same_reads_frame:
  assumes "same_reads db db'"
  shows "m_nfields db' = m_nfields db" "m_fields db' = m_fields db"
    "m_stringindexes db' = m_stringindexes db" "m_intindexes db' = m_intindexes db"
    "map fst (m_data db') = map fst (m_data db)"
  using assms by (simp_all add: same_reads_def)

lemma same_reads_values:
  assumes "same_reads db db'"
  shows "GetString db' rs f = GetString db rs f" "fst (GetInteger db' rs f) = fst (GetInteger db rs f)"
  by (intro reads_of_values; use assms in \<open>simp add: same_reads_def\<close>)+

lemma smap_set_same_keys:
  "smap_ok m \<Longrightarrow> smap_find m k = Some v0 \<Longrightarrow> map fst (smap_set k v m) = map fst m"
proof (induction k v m rule: smap_set.induct)
  case (2 k v k' v' m)
  then show ?case
    using smap_in_set [of "(k', v') # m" k v0] by (fastforce simp: smap_ok_Cons)
qed simp

lemma GetInteger_same_reads:
  assumes ok: "steam_ok db" and f: "which < m_nfields db"
  shows "same_reads db (snd (GetInteger db rs which))"
proof -
  have sm: "smap_ok (m_data db)"
    using ok by (simp add: steam_ok_def)
  have put: "map fst (m_data (put_value r f v db)) = map fst (m_data db)" for r f v
    using sm by (auto simp: put_value_def smap_set_same_keys split: option.splits)
  have frame: "m_nfields (put_value r f v db) = m_nfields db" "m_fields (put_value r f v db) = m_fields db"
    "m_next_recno (put_value r f v db) = m_next_recno db"
    "m_stringindexes (put_value r f v db) = m_stringindexes db"
    "m_intindexes (put_value r f v db) = m_intindexes db" for r f v
    by (auto simp: put_value_def split: option.splits)
  let ?db = "snd (GetInteger db rs which)"
  have "?db = db \<or> (\<exists>r f v. ?db = put_value r f v db)"
    by (auto simp: GetInteger_def Let_def split: option.splits)
  then have "m_nfields ?db = m_nfields db \<and> m_next_recno ?db = m_next_recno db \<and> m_fields ?db = m_fields db \<and>
      m_stringindexes ?db = m_stringindexes db \<and> m_intindexes ?db = m_intindexes db \<and>
      map fst (m_data ?db) = map fst (m_data db)"
    by (elim disjE exE) (simp_all add: put frame)
  then show ?thesis
    using GetInteger_ok [OF ok f, of rs] GetInteger_values [OF ok f, of rs]
    by (simp add: same_reads_def)
qed

section \<open>The meaning of a query\<close>

text \<open>A condition as a tree, and when it holds for a record with the given readings.\<close>

datatype condition =
    Test restriction
  | Conj condition condition
  | Disj condition condition

definition test_holds ::
  "(string option \<Rightarrow> string \<Rightarrow> bool) \<Rightarrow> (nat \<Rightarrow> string) \<Rightarrow> (nat \<Rightarrow> u32) \<Rightarrow> restriction \<Rightarrow> bool" where
  "test_holds re sv iv r =
     (if r_is_string r then
        (case r_rt r of
           EQ \<Rightarrow> sv (r_which r) = r_sval r
         | NE \<Rightarrow> sv (r_which r) \<noteq> r_sval r
         | _ \<Rightarrow> re (Some (r_sval r)) (sv (r_which r)))
      else
        (let val = unat (iv (r_which r)); n = unat (r_ival r) in
         case r_rt r of EQ \<Rightarrow> val = n | NE \<Rightarrow> val \<noteq> n | GT \<Rightarrow> val > n | LT \<Rightarrow> val < n
         | LE \<Rightarrow> val \<le> n | _ \<Rightarrow> val \<ge> n))"

primrec holds ::
  "(string option \<Rightarrow> string \<Rightarrow> bool) \<Rightarrow> (nat \<Rightarrow> string) \<Rightarrow> (nat \<Rightarrow> u32) \<Rightarrow> condition \<Rightarrow> bool" where
  "holds re sv iv (Test r) = test_holds re sv iv r"
| "holds re sv iv (Conj a b) = (holds re sv iv a \<and> holds re sv iv b)"
| "holds re sv iv (Disj a b) = (holds re sv iv a \<or> holds re sv iv b)"

text \<open>
  A comparison that \<^verbatim>\<open>MatchElement\<close> implements: strings can be equal, different or match
  a pattern; an order on strings fails an assert, and so does a pattern for an integer.
\<close>

definition supported :: "nat \<Rightarrow> restriction \<Rightarrow> bool" where
  "supported n r \<longleftrightarrow> r_which r < n \<and> (if r_is_string r then r_rt r \<in> {EQ, NE, LIKE} else r_rt r \<noteq> LIKE)"

primrec condition_supported :: "nat \<Rightarrow> condition \<Rightarrow> bool" where
  "condition_supported n (Test r) = supported n r"
| "condition_supported n (Conj a b) = (condition_supported n a \<and> condition_supported n b)"
| "condition_supported n (Disj a b) = (condition_supported n a \<and> condition_supported n b)"

inductive denotes :: "query \<Rightarrow> int \<Rightarrow> condition \<Rightarrow> bool" where
  denotes_test: "0 < e \<Longrightarrow> nat (e - 1) < length (m_restrictions q) \<Longrightarrow>
     denotes q e (Test (m_restrictions q ! nat (e - 1)))"
| denotes_rel: "e < 0 \<Longrightarrow> nat (- e - 1) < length (m_relations q) \<Longrightarrow>
     r = m_relations q ! nat (- e - 1) \<Longrightarrow> denotes q (rel_a r) a \<Longrightarrow> denotes q (rel_b r) b \<Longrightarrow>
     denotes q e (if anditive r then Conj a b else Disj a b)"

definition compiled :: "query \<Rightarrow> regexes \<Rightarrow> bool" where
  "compiled q rx \<longleftrightarrow> (\<forall>i<length (m_restrictions q).
     r_rt (m_restrictions q ! i) = LIKE \<longrightarrow> smap_find rx i = Some (r_sval (m_restrictions q ! i)))"

lemma match_restriction_holds:
  assumes ok: "steam_ok db" and sup: "supported (m_nfields db) r"
    and rx: "r_rt r = LIKE \<Longrightarrow> smap_find rx i = Some (r_sval r)"
  shows "\<exists>db'. match_restriction re rx i r rs db =
      Some (test_holds re (GetString db rs) (\<lambda>f. fst (GetInteger db rs f)) r, db') \<and> same_reads db db'"
proof (cases "r_is_string r")
  case True
  then show ?thesis
    using sup rx same_reads_refl [OF ok]
    by (auto simp: match_restriction_def test_holds_def supported_def Let_def)
next
  case False
  then have "same_reads db (snd (GetInteger db rs (r_which r)))"
    using sup by (intro GetInteger_same_reads ok) (simp add: supported_def)
  then show ?thesis
    using False sup
    by (cases "r_rt r")
      (auto simp: match_restriction_def test_holds_def supported_def Let_def case_prod_beta
        word_le_nat_alt word_less_nat_alt unat_arith_simps)
qed

lemma MatchElement_holds:
  assumes "denotes (sq_query q) e c" "steam_ok db" "condition_supported (m_nfields db) c"
    "compiled (sq_query q) (m_regexes q)"
  shows "\<exists>db'. MatchElement re q rs e db =
      Some (holds re (GetString db rs) (\<lambda>f. fst (GetInteger db rs f)) c, db') \<and> same_reads db db'"
  using assms
proof (induction "sq_query q" e c arbitrary: db rule: denotes.induct)
  case (denotes_test e)
  let ?r = "m_restrictions (sq_query q) ! nat (e - 1)"
  have "r_rt ?r = LIKE \<Longrightarrow> smap_find (m_regexes q) (nat (e - 1)) = Some (r_sval ?r)"
    using denotes_test by (simp add: compiled_def)
  then show ?case
    using match_restriction_holds [of db ?r "m_regexes q" "nat (e - 1)" re rs] denotes_test
    by (subst MatchElement.simps) simp
next
  case (denotes_rel e r a b)
  let ?sv = "GetString db rs" and ?iv = "\<lambda>f. fst (GetInteger db rs f)"
  have sup: "condition_supported (m_nfields db) a" "condition_supported (m_nfields db) b"
    using denotes_rel.prems(2) by (auto split: if_splits)
  obtain db1 where a: "MatchElement re q rs (rel_a r) db = Some (holds re ?sv ?iv a, db1)" "same_reads db db1"
    using denotes_rel.hyps(5) [OF denotes_rel.prems(1) sup(1) denotes_rel.prems(3)] by blast
  have "condition_supported (m_nfields db1) b"
    using sup(2) same_reads_frame(1) [OF a(2)] by simp
  then obtain db2 where "MatchElement re q rs (rel_b r) db1 =
      Some (holds re (GetString db1 rs) (\<lambda>f. fst (GetInteger db1 rs f)) b, db2)" "same_reads db1 db2"
    using denotes_rel.hyps(7) [OF same_reads_ok [OF a(2)] _ denotes_rel.prems(3)] by blast
  then have b: "MatchElement re q rs (rel_b r) db1 = Some (holds re ?sv ?iv b, db2)" "same_reads db db2"
    using same_reads_values [OF a(2), abs_def] same_reads_trans [OF a(2)] by simp_all
  show ?case
    using denotes_rel.hyps(1) a b
    by (subst MatchElement.simps) (auto simp: denotes_rel.hyps(3) [symmetric] Let_def)
qed

section \<open>Every well-formed query denotes a condition\<close>

primrec tests :: "condition \<Rightarrow> restriction list" where
  "tests (Test r) = [r]"
| "tests (Conj a b) = tests a @ tests b"
| "tests (Disj a b) = tests a @ tests b"

lemma condition_supported_tests: "condition_supported n c \<longleftrightarrow> (\<forall>r\<in>set (tests c). supported n r)"
  by (induction c) auto

lemma denotes_tests: "denotes q e c \<Longrightarrow> set (tests c) \<subseteq> set (m_restrictions q)"
  by (induction rule: denotes.induct) auto

lemma element_denotes:
  assumes "query_ok q" "elem_ok q (length (m_relations q)) e"
  shows "\<exists>c. denotes q e c"
proof -
  have "elem_ok q (length (m_relations q)) e \<longrightarrow> (\<exists>c. denotes q e c)"
    using assms
  proof (induction rule: query_walk_induct)
    case (node e)
    show ?case
    proof
      assume e: "elem_ok q (length (m_relations q)) e"
      then have r: "- e \<le> int (length (m_relations q))" "nat (- e - 1) < length (m_relations q)"
        using node(1) by (auto simp: elem_ok_def)
      note ops = relation_operands [OF assms(1) node(1) r(1)]
      have "elem_ok q (length (m_relations q)) (rel_a (m_relations q ! nat (- e - 1)))"
        "elem_ok q (length (m_relations q)) (rel_b (m_relations q ! nat (- e - 1)))"
        using r by (auto intro: elem_ok_mono [OF ops(1)] elem_ok_mono [OF ops(2)])
      then show "\<exists>c. denotes q e c"
        using node denotes_rel [OF node(1) r(2) refl] by blast
    qed
  qed (blast intro: denotes_test)
  then show ?thesis
    using assms(2) by blast
qed

lemma compile_regexes_compiled:
  assumes "compile_regexes rok i rs m = Some m'" "smap_ok m"
  shows "smap_ok m' \<and> (\<forall>j<i. smap_find m' j = smap_find m j) \<and>
    (\<forall>j<length rs. r_rt (rs ! j) = LIKE \<longrightarrow> smap_find m' (i + j) = Some (r_sval (rs ! j)))"
  using assms
proof (induction rs arbitrary: i m)
  case (Cons r rs)
  obtain m1 where m1: "compile_regexes rok (i + 1) rs m1 = Some m'" "smap_ok m1"
    and eq: "\<forall>j<i. smap_find m1 j = smap_find m j"
    and here: "r_rt r = LIKE \<longrightarrow> smap_find m1 i = Some (r_sval r)"
    using Cons.prems by (auto split: if_splits)
  note ih = Cons.IH [OF m1]
  have "smap_find m' (i + j) = Some (r_sval ((r # rs) ! j))"
    if "j < length (r # rs)" "r_rt ((r # rs) ! j) = LIKE" for j
    using that ih here by (cases j) auto
  then show ?case
    using ih eq by auto
qed simp

lemma compile_regexes_query:
  "compile_regexes rok 0 (m_restrictions q) [] = Some rx \<Longrightarrow> compiled q rx"
  using compile_regexes_compiled [of rok 0 "m_restrictions q" "[]" rx] by (simp add: compiled_def)

section \<open>Building the query of a condition\<close>

text \<open>A client that wants a condition calls \<^verbatim>\<open>Restrict\<close>, \<^verbatim>\<open>And\<close> and \<^verbatim>\<open>Or\<close> along its tree.\<close>

primrec build :: "condition \<Rightarrow> query \<Rightarrow> (int \<times> query) option" where
  "build (Test r) q = Some
     (if r_is_string r then Restrict_string (r_which r) (r_rt r) (r_sval r) q
      else Restrict_int (r_which r) (r_rt r) (r_ival r) q)"
| "build (Conj a b) q = do { (ea, q) \<leftarrow> build a q; (eb, q) \<leftarrow> build b q; And ea eb q }"
| "build (Disj a b) q = do { (ea, q) \<leftarrow> build a q; (eb, q) \<leftarrow> build b q; Or ea eb q }"

lemma denotes_extend:
  assumes "denotes q e c" "m_restrictions q' = m_restrictions q @ rs" "m_relations q' = m_relations q @ ls"
  shows "denotes q' e c"
  using assms
proof (induction rule: denotes.induct)
  case (denotes_test e q)
  then show ?case
    using denotes.denotes_test [of e q'] by (simp add: nth_append)
next
  case (denotes_rel e q r a b)
  then show ?case
    using denotes.denotes_rel [of e q' r a b] by (simp add: nth_append)
qed

lemma denotes_in_range: "denotes q e c \<Longrightarrow> e \<noteq> 0 \<and> in_range q e"
  by (induction rule: denotes.induct) (auto simp: in_range_def)

lemma push_relation_denotes:
  assumes a: "denotes q ea a" and b: "denotes q eb b"
  shows "\<exists>q'. push_relation c ea eb q = Some (- int (length (m_relations q')), q') \<and>
    m_restrictions q' = m_restrictions q \<and> (\<exists>ls. m_relations q' = m_relations q @ ls) \<and>
    denotes q' (- int (length (m_relations q'))) (if c then Conj a b else Disj a b)"
proof -
  let ?r = "\<lparr>anditive = c, rel_a = ea, rel_b = eb\<rparr>"
  let ?q = "q\<lparr>m_relations := m_relations q @ [?r]\<rparr>"
  let ?e = "- int (length (m_relations ?q))"
  have "denotes ?q ea a" "denotes ?q eb b"
    using a b by (auto intro: denotes_extend [where rs = "[]"])
  then have "denotes ?q ?e (if anditive ?r then Conj a b else Disj a b)"
    by (intro denotes.denotes_rel) auto
  then have d: "denotes ?q ?e (if c then Conj a b else Disj a b)"
    by (simp only: relation.select_convs)
  have p: "push_relation c ea eb q = Some (?e, ?q)"
    using denotes_in_range [OF a] denotes_in_range [OF b] by (simp add: push_relation_def Let_def)
  have r: "m_restrictions ?q = m_restrictions q" "\<exists>ls. m_relations ?q = m_relations q @ ls"
    by simp_all
  show ?thesis
    by (rule exI [of _ ?q]) (intro conjI p d r)
qed

lemma build_denotes:
  assumes "\<forall>r\<in>set (tests c). restriction_ok r"
  shows "\<exists>e q'. build c q = Some (e, q') \<and> denotes q' e c \<and>
    m_restrictions q' = m_restrictions q @ tests c \<and> (\<exists>ls. m_relations q' = m_relations q @ ls)"
  using assms
proof (induction c arbitrary: q)
  case (Test r)
  let ?q = "q\<lparr>m_restrictions := m_restrictions q @ [r]\<rparr>"
  let ?e = "int (length (m_restrictions ?q))"
  have "r = (if r_is_string r then string_restriction (r_which r) (r_rt r) (r_sval r)
      else int_restriction (r_which r) (r_rt r) (r_ival r))"
    using Test by (cases r) (auto simp: string_restriction_def int_restriction_def restriction_ok_def)
  then have "build (Test r) q = Some (?e, ?q)"
    by (auto simp: Restrict_string_def Restrict_int_def push_restriction_def Let_def)
  moreover have "denotes ?q ?e (Test r)"
    using denotes.denotes_test [of ?e ?q] by simp
  ultimately show ?case
    by auto
next
  case (Conj a b)
  obtain ea qa where a: "build a q = Some (ea, qa)" "denotes qa ea a"
    "m_restrictions qa = m_restrictions q @ tests a" "\<exists>ls. m_relations qa = m_relations q @ ls"
    using Conj.IH(1) [of q] Conj.prems by auto
  obtain eb qb where b: "build b qa = Some (eb, qb)" "denotes qb eb b"
    "m_restrictions qb = m_restrictions qa @ tests b" "\<exists>ls. m_relations qb = m_relations qa @ ls"
    using Conj.IH(2) [of qa] Conj.prems by auto
  have "denotes qb ea a"
    using b(3,4) by (auto intro: denotes_extend [OF a(2)])
  from push_relation_denotes [OF this b(2), of True] show ?case
    using a b by (auto simp: And_def)
next
  case (Disj a b)
  obtain ea qa where a: "build a q = Some (ea, qa)" "denotes qa ea a"
    "m_restrictions qa = m_restrictions q @ tests a" "\<exists>ls. m_relations qa = m_relations q @ ls"
    using Disj.IH(1) [of q] Disj.prems by auto
  obtain eb qb where b: "build b qa = Some (eb, qb)" "denotes qb eb b"
    "m_restrictions qb = m_restrictions qa @ tests b" "\<exists>ls. m_relations qb = m_relations qa @ ls"
    using Disj.IH(2) [of qa] Disj.prems by auto
  have "denotes qb ea a"
    using b(3,4) by (auto intro: denotes_extend [OF a(2)])
  from push_relation_denotes [OF this b(2), of False] show ?case
    using a b by (auto simp: Or_def)
qed

text \<open>C5: A query built from a condition by \<^verbatim>\<open>Restrict\<close>, \<^verbatim>\<open>And\<close>,
  \<^verbatim>\<open>Or\<close> and \<^verbatim>\<open>Where\<close> trips no assert, and once its patterns are compiled
  \<^verbatim>\<open>Match\<close> says of every record whether the condition holds of what the record reads,
  without any change that can be read.\<close>

theorem Match_condition:
  assumes ok: "steam_ok db" and c: "\<forall>r\<in>set (tests c). restriction_ok r \<and> supported (m_nfields db) r"
    and rx: "compile_regexes rok 0 (tests c) [] = Some rx"
  shows "\<exists>e q0 q db'. build c new_query = Some (e, q0) \<and> Where e q0 = Some (0, q) \<and>
    Match re \<lparr>sq_query = q, m_regexes = rx\<rparr> rs db =
      Some (holds re (GetString db rs) (\<lambda>f. fst (GetInteger db rs f)) c, db') \<and> same_reads db db'"
proof -
  obtain e q0 where b: "build c new_query = Some (e, q0)" "denotes q0 e c"
    "m_restrictions q0 = tests c"
    using build_denotes [of c new_query] c by (auto simp: new_query_def)
  let ?q = "q0\<lparr>m_root := e\<rparr>"
  have d: "denotes ?q e c"
    by (rule denotes_extend [OF b(2), where rs = "[]" and ls = "[]"]) simp_all
  have "Where e q0 = Some (0, ?q)" and e: "e \<noteq> 0"
    using denotes_in_range [OF b(2)] by (simp_all add: Where_def)
  moreover have "compiled ?q rx"
    using rx by (intro compile_regexes_query) (simp add: b(3))
  then have "\<exists>db'. MatchElement re \<lparr>sq_query = ?q, m_regexes = rx\<rparr> rs e db =
      Some (holds re (GetString db rs) (\<lambda>f. fst (GetInteger db rs f)) c, db') \<and> same_reads db db'"
    using d c by (intro MatchElement_holds ok) (simp_all add: condition_supported_tests)
  ultimately show ?thesis
    using b(1) by (auto simp: Match_def)
qed

lemma Match_condition_witness:
  "\<exists>e q0 q db'. build (Disj (Test (string_restriction 1 LIKE ''a.*'')) (Test (int_restriction 0 LT 5))) new_query = Some (e, q0) \<and>
    Where e q0 = Some (0, q) \<and>
    Match (\<lambda>p s. True) \<lparr>sq_query = q, m_regexes = [(0, ''a.*'')]\<rparr> example_rs example_db =
      Some (holds (\<lambda>p s. True) (GetString example_db example_rs) (\<lambda>f. fst (GetInteger example_db example_rs f))
        (Disj (Test (string_restriction 1 LIKE ''a.*'')) (Test (int_restriction 0 LT 5))), db') \<and>
    same_reads example_db db'"
  by (rule Match_condition [OF example_db_ok, where rok = "\<lambda>p. True"])
    (auto simp: supported_def string_restriction_def int_restriction_def restriction_ok_def)

end
