(* ===== verification/SteamCursors.thy ===== *)
theory SteamCursors
  imports SteamMatch
begin

text \<open>
  The contract of a recordset: a client that reads it to the end gets a list of results that is
  determined when the recordset is made. The four cursors of rs.cpp are shown to meet it, each with
  its own list.
\<close>

section \<open>The contract\<close>

text \<open>The client's loop \<^verbatim>\<open>for (; !rs->IsEOF(); rs->MoveNext())\<close>.\<close>

partial_function (option) drain ::
  "('s \<Rightarrow> bool) \<Rightarrow> ('s \<Rightarrow> 'a) \<Rightarrow> ('s \<Rightarrow> 'd \<Rightarrow> ('s \<times> 'd) option) \<Rightarrow> 's \<Rightarrow> 'd \<Rightarrow> ('a list \<times> 'd) option"
where
  "drain eof cur move s d =
     (if eof s then Some ([], d)
      else do { (s', d') \<leftarrow> move s d; (xs, d') \<leftarrow> drain eof cur move s' d'; Some (cur s # xs, d') })"

locale enumerator =
  fixes eof :: "'s \<Rightarrow> bool" and cur :: "'s \<Rightarrow> 'a" and move :: "'s \<Rightarrow> 'd \<Rightarrow> ('s \<times> 'd) option"
    and pending :: "'s \<Rightarrow> 'd \<Rightarrow> 'a list" and invar :: "'s \<Rightarrow> 'd \<Rightarrow> bool" and same :: "'d \<Rightarrow> 'd \<Rightarrow> bool"
  assumes at_end: "invar s d \<Longrightarrow> eof s \<longleftrightarrow> pending s d = []"
    and current: "invar s d \<Longrightarrow> \<not> eof s \<Longrightarrow> cur s = hd (pending s d)"
    and moved: "invar s d \<Longrightarrow> \<not> eof s \<Longrightarrow>
      \<exists>s' d'. move s d = Some (s', d') \<and> invar s' d' \<and> pending s' d' = tl (pending s d) \<and> same d d'"
    and same_refl: "invar s d \<Longrightarrow> same d d"
    and same_trans: "same d d' \<Longrightarrow> same d' d'' \<Longrightarrow> same d d''"
begin

lemma drain_pending: "invar s d \<Longrightarrow> \<exists>d'. drain eof cur move s d = Some (pending s d, d') \<and> same d d'"
proof (induction "pending s d" arbitrary: s d)
  case Nil
  then show ?case
    using at_end [of s d] same_refl [of s d] by (subst drain.simps) auto
next
  case (Cons x xs)
  then have ne: "\<not> eof s"
    using at_end [of s d] by auto
  obtain s' d' where m: "move s d = Some (s', d')" "invar s' d'" "pending s' d' = xs" "same d d'"
    using moved [OF Cons.prems ne] Cons.hyps(2) [symmetric] by auto
  obtain d'' where "drain eof cur move s' d' = Some (xs, d'')" "same d' d''"
    using Cons.hyps(1) [OF m(3) [symmetric] m(2)] m(3) by auto
  moreover have "cur s = x"
    using current [OF Cons.prems ne] Cons.hyps(2) [symmetric] by simp
  ultimately have "drain eof cur move s d = Some (pending s d, d'')"
    using ne m(1) Cons.hyps(2) by (subst drain.simps) simp
  then show ?case
    using same_trans m(4) \<open>same d' d''\<close> by blast
qed

end

section \<open>Records that match\<close>

definition record_matches ::
  "(string option \<Rightarrow> string \<Rightarrow> bool) \<Rightarrow> steam_query option \<Rightarrow> steam \<Rightarrow> u32 \<Rightarrow> bool" where
  "record_matches re qo db r =
     (case match_opt re qo \<lparr>m_record = r, m_eof = False\<rparr> db of None \<Rightarrow> False | Some (ok, _) \<Rightarrow> ok)"

definition sq_ok :: "nat \<Rightarrow> steam_query option \<Rightarrow> bool" where
  "sq_ok n qo \<longleftrightarrow> (case qo of None \<Rightarrow> True
     | Some q \<Rightarrow> query_ok (sq_query q) \<and> (\<forall>r\<in>set (m_restrictions (sq_query q)). supported n r) \<and>
         compiled (sq_query q) (m_regexes q))"

text \<open>Either a query accepts all records, or it denotes a condition.\<close>

lemma sq_ok_cases:
  assumes "sq_ok n qo"
  obtains "\<And>rs db. match_opt re qo rs db = Some (True, db)"
  | q c where "qo = Some q" "denotes (sq_query q) (m_root (sq_query q)) c" "condition_supported n c"
    "compiled (sq_query q) (m_regexes q)" "m_root (sq_query q) \<noteq> 0"
proof (cases qo)
  case None
  then show ?thesis
    by (intro that(1)) (simp add: match_opt_def)
next
  case (Some q)
  show ?thesis
  proof (cases "m_root (sq_query q) = 0")
    case True
    with Some show ?thesis
      by (intro that(1)) (simp add: match_opt_def Match_def)
  next
    case False
    with assms Some obtain c where c: "denotes (sq_query q) (m_root (sq_query q)) c"
      using element_denotes [of "sq_query q" "m_root (sq_query q)"] by (auto simp: sq_ok_def query_ok_def)
    then have "condition_supported n c"
      using assms Some denotes_tests [OF c] by (auto simp: sq_ok_def condition_supported_tests)
    with c False Some assms show ?thesis
      by (intro that(2)) (auto simp: sq_ok_def)
  qed
qed

lemma match_opt_query:
  assumes "steam_ok db" "denotes (sq_query q) (m_root (sq_query q)) c" "condition_supported (m_nfields db) c"
    "compiled (sq_query q) (m_regexes q)" "m_root (sq_query q) \<noteq> 0"
  shows "\<exists>db'. match_opt re (Some q) rs db =
    Some (holds re (GetString db rs) (\<lambda>f. fst (GetInteger db rs f)) c, db') \<and> same_reads db db'"
  using MatchElement_holds [OF assms(2,1,3,4)] assms(5) by (simp add: match_opt_def Match_def)

lemma match_opt_matches:
  assumes "steam_ok db" "sq_ok (m_nfields db) qo" "\<not> m_eof (rs :: cursor)"
  shows "\<exists>db'. match_opt re qo rs db = Some (record_matches re qo db (m_record rs), db') \<and> same_reads db db'"
  using assms(2)
proof (cases rule: sq_ok_cases [where re = re])
  case 1
  then show ?thesis
    using same_reads_refl [OF assms(1)] by (simp add: record_matches_def)
next
  case (2 q c)
  have "rs = \<lparr>m_record = m_record rs, m_eof = False\<rparr>"
    using assms(3) by (cases rs) simp
  then show ?thesis
    using match_opt_query [OF assms(1) 2(2-5), of re rs] 2(1) by (auto simp: record_matches_def)
qed

lemma record_matches_same:
  assumes s: "same_reads db db'" and ok: "steam_ok db" "sq_ok (m_nfields db) qo"
  shows "record_matches re qo db' r = record_matches re qo db r"
  using ok(2)
proof (cases rule: sq_ok_cases [where re = re])
  case 1
  then show ?thesis
    by (simp add: record_matches_def)
next
  case (2 q c)
  let ?rs = "\<lparr>m_record = r, m_eof = False\<rparr>"
  have n: "condition_supported (m_nfields db') c"
    using 2(3) same_reads_frame(1) [OF s] by simp
  show ?thesis
    using match_opt_query [OF ok(1) 2(2-5), of re ?rs]
      match_opt_query [OF same_reads_ok [OF s] 2(2) n 2(4,5), of re ?rs]
      same_reads_values [OF s, abs_def] 2(1)
    by (auto simp: record_matches_def)
qed

section \<open>SimpleRecordset\<close>

definition simple_pending ::
  "(string option \<Rightarrow> string \<Rightarrow> bool) \<Rightarrow> steam_query option \<Rightarrow> cursor \<Rightarrow> steam \<Rightarrow> u32 list" where
  "simple_pending re qo rs db =
     (if m_eof rs then []
      else m_record rs # filter (record_matches re qo db) (map fst (smap_upper_bound (m_data db) (m_record rs))))"

lemma upper_bound_next_gt:
  "smap_ok m \<Longrightarrow> smap_upper_bound m k = (k', v) # i \<Longrightarrow> k < k' \<and> smap_upper_bound m k' = i"
proof (induction m)
  case (Cons e m)
  obtain j w where e: "e = (j, w)" by (cases e)
  show ?case
  proof (cases "j \<le> k")
    case True
    with Cons e have "k < k' \<and> smap_upper_bound m k' = i"
      by (simp add: smap_upper_bound_def smap_ok_Cons)
    moreover from this True have "j \<le> k'"
      by auto
    ultimately show ?thesis
      using True e by (simp add: smap_upper_bound_def)
  next
    case False
    with Cons.prems e have "j = k'" "i = m" "\<forall>x\<in>fst ` set m. k' < x"
      by (auto simp: smap_upper_bound_def smap_ok_Cons)
    then show ?thesis
      using False e by (cases m) (auto simp: smap_upper_bound_def)
  qed
qed (simp add: smap_upper_bound_def)

lemmas upper_bound_next = upper_bound_next_gt [THEN conjunct2]

lemma upper_bound_keys: "map fst (smap_upper_bound m k) = dropWhile (\<lambda>j. j \<le> k) (map fst m)"
  by (induction m) (auto simp: smap_upper_bound_def)

lemma Simple_MoveNext_pending:
  assumes "steam_ok db" "sq_ok (m_nfields db) qo" "\<not> m_eof rs"
  shows "\<exists>rs' db'. Simple_MoveNext re qo rs db = Some (rs', db') \<and> same_reads db db' \<and>
    simple_pending re qo rs' db' = tl (simple_pending re qo rs db)"
  using assms
proof (induction "length (smap_upper_bound (m_data db) (m_record rs))" arbitrary: rs db rule: less_induct)
  case less
  show ?case
  proof (cases "smap_upper_bound (m_data db) (m_record rs)")
    case Nil
    then show ?thesis
      using less.prems same_reads_refl by (subst Simple_MoveNext.simps) (auto simp: simple_pending_def)
  next
    case (Cons e i)
    let ?rs = "rs\<lparr>m_record := fst e\<rparr>"
    obtain db1 where m: "match_opt re qo ?rs db = Some (record_matches re qo db (fst e), db1)" "same_reads db db1"
      using match_opt_matches [OF less.prems(1,2), of ?rs re] less.prems(3) by auto
    have sm: "smap_ok (m_data db)"
      using less.prems(1) by (simp add: steam_ok_def)
    have i: "smap_upper_bound (m_data db) (fst e) = i"
      using upper_bound_next [OF sm, of "m_record rs" "fst e" "snd e"] Cons by simp
    have i1: "map fst (smap_upper_bound (m_data db1) (fst e)) = map fst i"
      using arg_cong [OF i, of "map fst"] same_reads_frame(5) [OF m(2)] by (simp add: upper_bound_keys)
    have match1: "record_matches re qo db1 = record_matches re qo db"
      by (rule ext) (rule record_matches_same [OF m(2) less.prems(1,2)])
    have tl: "tl (simple_pending re qo rs db) = filter (record_matches re qo db) (fst e # map fst i)"
      using less.prems(3) Cons by (simp add: simple_pending_def)
    show ?thesis
    proof (cases "record_matches re qo db (fst e)")
      case True
      then have "Simple_MoveNext re qo rs db = Some (?rs, db1)"
        using less.prems(3) Cons m by (subst Simple_MoveNext.simps) (simp add: Let_def)
      then show ?thesis
        using m(2) tl True i1 match1 less.prems(3) by (auto simp: simple_pending_def)
    next
      case False
      have "length (smap_upper_bound (m_data db1) (m_record ?rs)) < length (smap_upper_bound (m_data db) (m_record rs))"
        using arg_cong [OF i1, of length] Cons by simp
      moreover have "sq_ok (m_nfields db1) qo"
        using less.prems(2) same_reads_frame(1) [OF m(2)] by simp
      ultimately obtain rs' db' where IH: "Simple_MoveNext re qo ?rs db1 = Some (rs', db')" "same_reads db1 db'"
        "simple_pending re qo rs' db' = tl (simple_pending re qo ?rs db1)"
        using less.hyps [of db1 ?rs] same_reads_ok [OF m(2)] less.prems(3) by auto
      have "Simple_MoveNext re qo rs db = Some (rs', db')"
        using less.prems(3) Cons m False IH(1) by (subst Simple_MoveNext.simps) (simp add: Let_def)
      moreover have "simple_pending re qo rs' db' = tl (simple_pending re qo rs db)"
        using IH(3) tl False i1 match1 less.prems(3) by (simp add: simple_pending_def)
      ultimately show ?thesis
        using same_reads_trans [OF m(2) IH(2)] by blast
    qed
  qed
qed

lemma SimpleRecordset_pending:
  assumes "steam_ok db" "sq_ok (m_nfields db) qo"
  shows "\<exists>rs db'. SimpleRecordset re qo db = Some (rs, db') \<and> same_reads db db' \<and>
    simple_pending re qo rs db' = filter (record_matches re qo db) (map fst (m_data db))"
proof (cases "m_data db")
  case Nil
  then show ?thesis
    using same_reads_refl [OF assms(1)] by (simp add: SimpleRecordset_def Recordset_def simple_pending_def)
next
  case (Cons e i)
  let ?rs = "\<lparr>m_record = fst e, m_eof = False\<rparr>"
  have rs: "Recordset db = ?rs"
    using Cons by (simp add: Recordset_def case_prod_beta)
  obtain db1 where m: "match_opt re qo ?rs db = Some (record_matches re qo db (fst e), db1)" "same_reads db db1"
    using match_opt_matches [OF assms, of ?rs re] by auto
  have sm: "smap_ok (m_data db)"
    using assms(1) by (simp add: steam_ok_def)
  have i: "smap_upper_bound (m_data db) (fst e) = i"
    using sm Cons by (cases e) (auto simp: smap_upper_bound_filter smap_ok_Cons intro!: filter_True)
  have i1: "map fst (smap_upper_bound (m_data db1) (fst e)) = map fst i"
    using arg_cong [OF i, of "map fst"] same_reads_frame(5) [OF m(2)] by (simp add: upper_bound_keys)
  have match1: "record_matches re qo db1 = record_matches re qo db"
    by (rule ext) (rule record_matches_same [OF m(2) assms])
  show ?thesis
  proof (cases "record_matches re qo db (fst e)")
    case True
    then show ?thesis
      using m rs Cons i1 match1 by (simp add: SimpleRecordset_def simple_pending_def)
  next
    case False
    have "sq_ok (m_nfields db1) qo"
      using assms(2) same_reads_frame(1) [OF m(2)] by simp
    then obtain rs' db' where n: "Simple_MoveNext re qo ?rs db1 = Some (rs', db')" "same_reads db1 db'"
      "simple_pending re qo rs' db' = tl (simple_pending re qo ?rs db1)"
      using Simple_MoveNext_pending [OF same_reads_ok [OF m(2)], of qo ?rs re] by auto
    then show ?thesis
      using m rs Cons i1 match1 False same_reads_trans [OF m(2) n(2)]
      by (simp add: SimpleRecordset_def simple_pending_def)
  qed
qed

end
