(* ===== verification/SteamResults.thy ===== *)
theory SteamResults
  imports SteamCursors
begin

text \<open>
  The remaining cursors meet the contract of a recordset, and what the recordset of each kind of
  query delivers.
\<close>

section \<open>Posting lists\<close>

lemma sset_length:
  assumes "sset_ok (s :: u32 list)" "\<forall>r\<in>set s. r < n"
  shows "length s \<le> unat n"
proof -
  have "distinct s"
    using assms(1) strict_sorted_iff unfolding sset_ok_def by blast
  then have "length s = card (unat ` set s)"
    by (subst card_image) (simp_all add: inj_on_def distinct_card word_unat_eq_iff)
  also have "unat ` set s \<subseteq> {..<unat n}"
    using assms(2) by (auto simp: word_less_nat_alt)
  then have "card (unat ` set s) \<le> unat n"
    using card_mono [of "{..<unat n}"] by fastforce
  finally show ?thesis .
qed

definition postings_bound :: "('k::linorder, u32 list) smap \<Rightarrow> bool" where
  "postings_bound i \<longleftrightarrow> index_ok i \<and> (\<forall>k. length (index_get i k) < 2 ^ 32)"

lemma steam_postings_bound:
  assumes "steam_ok db" "f < m_nfields db"
  shows "postings_bound (m_stringindexes db ! f)" "postings_bound (m_intindexes db ! f)"
proof -
  have f: "field_indexes_ok db f"
    and rec: "\<And>r row. smap_find (m_data db) r = Some row \<Longrightarrow> r < m_next_recno db"
    using assms by (auto simp: steam_ok_def)
  have "string_key (m_data db) f r = Some k \<Longrightarrow> r < m_next_recno db" for r k
    using rec by (auto simp: string_key_def split: option.splits)
  then have s: "\<forall>r\<in>set (index_get (m_stringindexes db ! f) k). r < m_next_recno db" for k
    using f by (auto simp: field_indexes_ok_def index_tracks_def index_postings_def Let_def split: if_splits)
  have "int_key (m_data db) f r = Some k \<Longrightarrow> r < m_next_recno db" for r k
    using rec by (auto simp: int_key_def split: option.splits)
  then have i: "\<forall>r\<in>set (index_get (m_intindexes db ! f) k). r < m_next_recno db" for k
    using f by (auto simp: field_indexes_ok_def index_tracks_def index_postings_def Let_def split: if_splits)
  have ok: "index_ok (m_stringindexes db ! f)" "index_ok (m_intindexes db ! f)"
    using f by (simp_all add: field_indexes_ok_def index_tracks_def Let_def)
  have n: "unat (m_next_recno db) < 2 ^ 32"
    using unsigned_less [of "m_next_recno db", where ?'a = nat] by simp
  show "postings_bound (m_stringindexes db ! f)"
    unfolding postings_bound_def
    using ok(1) le_less_trans [OF sset_length [OF index_get_ok [OF ok(1)] s] n] by blast
  show "postings_bound (m_intindexes db ! f)"
    unfolding postings_bound_def
    using ok(2) le_less_trans [OF sset_length [OF index_get_ok [OF ok(2)] i] n] by blast
qed

lemma unat_Suc: "Suc (unat (w :: u32)) < 2 ^ 32 \<Longrightarrow> unat (w + 1) = Suc (unat w)"
  by (simp add: unat_word_ariths(1) del: of_nat_add)

lemma unat_step: "unat (w :: u32) < n \<Longrightarrow> n < 2 ^ 32 \<Longrightarrow> unat (w + 1) = Suc (unat w)"
  by (rule unat_Suc) simp

section \<open>IndexedRecordset\<close>

definition indexed_list :: "index_cursor \<Rightarrow> steam \<Rightarrow> u32 list" where
  "indexed_list c db =
     (if ic_is_int c then index_get (m_intindexes db ! ic_field c) (ic_intval c)
      else index_get (m_stringindexes db ! ic_field c) (ic_stringval c))"

definition indexed_pending :: "index_cursor \<Rightarrow> steam \<Rightarrow> u32 list" where
  "indexed_pending c db =
     (if m_eof c then [] else m_record c # drop (Suc (unat (ic_subrecno c))) (indexed_list c db))"

definition indexed_ok :: "index_cursor \<Rightarrow> steam \<Rightarrow> bool" where
  "indexed_ok c db \<longleftrightarrow> steam_ok db \<and> ic_field c < m_nfields db \<and>
     (\<not> m_eof c \<longrightarrow> unat (ic_subrecno c) < length (indexed_list c db))"

lemma indexed_list_bound: "indexed_ok c db \<Longrightarrow> length (indexed_list c db) < 2 ^ 32"
  using steam_postings_bound [of db "ic_field c"]
  by (auto simp: indexed_ok_def indexed_list_def postings_bound_def)

lemma index_next_list:
  assumes "unat (ic_subrecno c) < length s" "length s < 2 ^ 32" "so = Some s"
  shows "index_next so c =
    (if Suc (unat (ic_subrecno c)) < length s
     then c\<lparr>ic_subrecno := ic_subrecno c + 1, m_record := s ! Suc (unat (ic_subrecno c))\<rparr>
     else c\<lparr>ic_subrecno := ic_subrecno c + 1, m_eof := True\<rparr>)"
  using assms unat_step [OF assms(1,2)] by (simp add: index_next_def Let_def not_less)

lemma index_get_find: "index_get i k \<noteq> [] \<Longrightarrow> smap_find i k = Some (index_get i k)"
  by (auto simp: index_get_def split: option.splits)

lemma Indexed_MoveNext_pending:
  assumes c: "indexed_ok c db" and e: "\<not> m_eof c"
  shows "indexed_ok (Indexed_MoveNext c db) db \<and>
    indexed_pending (Indexed_MoveNext c db) db = tl (indexed_pending c db)"
proof -
  let ?s = "indexed_list c db" and ?n = "unat (ic_subrecno c)"
  have n: "?n < length ?s" "length ?s < 2 ^ 32"
    using c e indexed_list_bound [OF c] by (simp_all add: indexed_ok_def)
  then have ne: "?s \<noteq> []" by auto
  have "Indexed_MoveNext c db = index_next (Some ?s) c"
    using e ne by (auto simp: Indexed_MoveNext_def indexed_list_def index_get_find)
  then have m: "Indexed_MoveNext c db = (if Suc ?n < length ?s
     then c\<lparr>ic_subrecno := ic_subrecno c + 1, m_record := ?s ! Suc ?n\<rparr>
     else c\<lparr>ic_subrecno := ic_subrecno c + 1, m_eof := True\<rparr>)"
    using index_next_list [OF n refl] by simp
  have l: "indexed_list (Indexed_MoveNext c db) db = ?s"
    by (simp add: m indexed_list_def)
  show ?thesis
  proof (cases "Suc ?n < length ?s")
    case True
    then have "?s ! Suc ?n # drop (Suc (Suc ?n)) ?s = drop (Suc ?n) ?s"
      by (rule Cons_nth_drop_Suc)
    with True show ?thesis
      using c e l unat_step [OF n] by (simp add: indexed_ok_def indexed_pending_def m)
  next
    case False
    with c e l show ?thesis
      by (simp add: indexed_ok_def indexed_pending_def m)
  qed
qed

lemma hd_drop_Suc: "s \<noteq> [] \<Longrightarrow> hd s # drop (Suc 0) s = s"
  by (cases s) simp_all

lemma Indexed_start:
  assumes ok: "steam_ok db" and f: "f < m_nfields db"
  shows "indexed_ok (IndexedRecordset_int db f n) db \<and>
      indexed_pending (IndexedRecordset_int db f n) db = index_get (m_intindexes db ! f) n"
    "indexed_ok (IndexedRecordset_string db f s) db \<and>
      indexed_pending (IndexedRecordset_string db f s) db = index_get (m_stringindexes db ! f) s"
proof -
  have nz: "t \<noteq> []" if "postings_bound i" "smap_find i k = Some t" for i :: "('k::linorder, u32 list) smap" and k t
    using that smap_in_set [of i k t] by (auto simp: postings_bound_def index_ok_def)
  note pb = steam_postings_bound [OF ok f]
  show "indexed_ok (IndexedRecordset_int db f n) db \<and>
      indexed_pending (IndexedRecordset_int db f n) db = index_get (m_intindexes db ! f) n"
    using ok f nz [OF pb(2), of n]
    by (auto simp: IndexedRecordset_int_def index_first_def index_cursor_of_def indexed_ok_def
        indexed_pending_def indexed_list_def index_get_def hd_drop_Suc split: option.splits)
  show "indexed_ok (IndexedRecordset_string db f s) db \<and>
      indexed_pending (IndexedRecordset_string db f s) db = index_get (m_stringindexes db ! f) s"
    using ok f nz [OF pb(1), of s]
    by (auto simp: IndexedRecordset_string_def index_first_def index_cursor_of_def indexed_ok_def
        indexed_pending_def indexed_list_def index_get_def hd_drop_Suc split: option.splits)
qed

section \<open>OrderedRecordset\<close>

definition ordered_rest :: "('k::linorder, u32 list) smap \<Rightarrow> 'k \<Rightarrow> u32 \<Rightarrow> u32 list" where
  "ordered_rest i k sub = drop (Suc (unat sub)) (index_get i k) @ concat (map snd (smap_upper_bound i k))"

definition ordered_result :: "('k::linorder, u32 list) smap \<Rightarrow> u32 list \<Rightarrow> u32 \<times> ('k \<times> u32 list) option \<Rightarrow> bool" where
  "ordered_result i rest res \<longleftrightarrow>
     (case res of (_, None) \<Rightarrow> rest = []
      | (sub, Some (k, s)) \<Rightarrow> index_get i k = s \<and> unat sub < length s \<and> rest = s ! unat sub # ordered_rest i k sub)"

lemma ordered_found:
  assumes "index_get i k = s" "unat sub < length s" "smap_upper_bound i k = j"
  shows "ordered_result i (drop (unat sub) s @ concat (map snd j)) (sub, Some (k, s))"
  using assms Cons_nth_drop_Suc [OF assms(2), symmetric]
  by (simp add: ordered_result_def ordered_rest_def)

lemma index_entry:
  assumes "index_ok i" "(k, s) \<in> set i"
  shows "index_get i k = s" "s \<noteq> []"
  using assms smap_in_set [of i k s] by (auto simp: index_ok_def index_get_def)

lemma upper_bound_subset: "set (smap_upper_bound i k) \<subseteq> set i"
  by (auto simp: smap_upper_bound_def dest: set_dropWhileD)

text \<open>No entry of an index is empty, so the loop looks at one entry after the current one at most.\<close>

lemma ordered_start_result:
  assumes i: "postings_bound i" and sub: "unat sub < length (index_get i key)"
  shows "ordered_result i (ordered_rest i key sub) (ordered_start i key sub)"
proof -
  have ok: "index_ok i" and sm: "smap_ok i" and len: "length (index_get i key) < 2 ^ 32"
    using i by (simp_all add: postings_bound_def index_ok_def)
  let ?s = "index_get i key"
  have find: "(key, ?s) \<in> set i"
    using sub index_get_find [of i key] smap_in_set [OF sm] by force
  have lb: "smap_lower_bound i key = (key, ?s) # smap_upper_bound i key"
    using find sm
  proof (induction i)
    case (Cons e m)
    obtain k s where e: "e = (k, s)" by (cases e)
    show ?case
    proof (cases "k < key")
      case True
      then have "key \<noteq> k" "k \<le> key" by auto
      with Cons e True show ?thesis
        by (simp add: smap_lower_bound_def smap_upper_bound_def smap_ok_Cons index_get_def)
    next
      case False
      then have "k = key"
        using Cons.prems e by (auto simp: smap_ok_Cons)
      moreover have "smap_upper_bound m key = m"
        using Cons.prems e \<open>k = key\<close> by (cases m) (auto simp: smap_upper_bound_def smap_ok_Cons)
      ultimately show ?thesis
        using e by (simp add: smap_lower_bound_def smap_upper_bound_def index_get_def)
    qed
  qed simp
  have step: "unat (sub + 1) = Suc (unat sub)"
    using unat_step [OF sub len] .
  show ?thesis
  proof (cases "Suc (unat sub) < length ?s")
    case True
    then have "ordered_start i key sub = (sub + 1, Some (key, ?s))"
      by (simp add: ordered_start_def lb step)
    then show ?thesis
      using ordered_found [OF refl, of "sub + 1" i key] True by (simp add: step ordered_rest_def)
  next
    case False
    then have d: "drop (Suc (unat sub)) ?s = []"
      by simp
    show ?thesis
    proof (cases "smap_upper_bound i key")
      case Nil
      then show ?thesis
        using False d by (simp add: ordered_start_def lb step ordered_result_def ordered_rest_def)
    next
      case (Cons e j)
      obtain k s where e: "e = (k, s)" by (cases e)
      have ks: "index_get i k = s" "s \<noteq> []"
        using index_entry [OF ok, of k s] upper_bound_subset [of i key] Cons e by auto
      have ub: "smap_upper_bound i k = j"
        using upper_bound_next [OF sm] Cons e by blast
      have "ordered_start i key sub = (0, Some (k, s))"
        using False ks(2) by (simp add: ordered_start_def lb step Cons e)
      then show ?thesis
        using ordered_found [OF ks(1) _ ub, of 0] ks(2) by (simp add: ordered_rest_def d Cons e)
    qed
  qed
qed

definition ordered_pending :: "index_cursor \<Rightarrow> steam \<Rightarrow> u32 list" where
  "ordered_pending c db =
     (if m_eof c then []
      else m_record c #
        (if ic_is_int c then ordered_rest (m_intindexes db ! ic_field c) (ic_intval c) (ic_subrecno c)
         else ordered_rest (m_stringindexes db ! ic_field c) (ic_stringval c) (ic_subrecno c)))"

lemma Ordered_MoveNext_pending:
  assumes c: "indexed_ok c db" and e: "\<not> m_eof c"
  shows "indexed_ok (Ordered_MoveNext c db) db \<and>
    ordered_pending (Ordered_MoveNext c db) db = tl (ordered_pending c db)"
proof -
  have ok: "steam_ok db" "ic_field c < m_nfields db" and n: "unat (ic_subrecno c) < length (indexed_list c db)"
    using c e by (simp_all add: indexed_ok_def)
  note pb = steam_postings_bound [OF ok]
  show ?thesis
  proof (cases "ic_is_int c")
    case True
    then have "ordered_result (m_intindexes db ! ic_field c)
        (ordered_rest (m_intindexes db ! ic_field c) (ic_intval c) (ic_subrecno c))
        (ordered_start (m_intindexes db ! ic_field c) (ic_intval c) (ic_subrecno c))"
      using n by (intro ordered_start_result pb) (simp add: indexed_list_def)
    with True e ok show ?thesis
      by (auto simp: Ordered_MoveNext_def ordered_pending_def ordered_result_def indexed_ok_def indexed_list_def
          split: prod.splits option.splits)
  next
    case False
    then have "ordered_result (m_stringindexes db ! ic_field c)
        (ordered_rest (m_stringindexes db ! ic_field c) (ic_stringval c) (ic_subrecno c))
        (ordered_start (m_stringindexes db ! ic_field c) (ic_stringval c) (ic_subrecno c))"
      using n by (intro ordered_start_result pb) (simp add: indexed_list_def)
    with False e ok show ?thesis
      by (auto simp: Ordered_MoveNext_def ordered_pending_def ordered_result_def indexed_ok_def indexed_list_def
          split: prod.splits option.splits)
  qed
qed

lemma ordered_first:
  assumes i: "postings_bound i" and eq: "i = (k, s) # j"
  shows "hd s # ordered_rest i k 0 = concat (map snd i)" "0 < length (index_get i k)"
proof -
  have ok: "index_ok i" and sm: "smap_ok i"
    using i by (simp_all add: postings_bound_def index_ok_def)
  have ks: "index_get i k = s" "s \<noteq> []"
    using index_entry [OF ok, of k s] eq by auto
  have "smap_upper_bound j k = j"
    using sm eq by (cases j) (auto simp: smap_upper_bound_def smap_ok_Cons)
  then have "smap_upper_bound i k = j"
    by (simp add: eq smap_upper_bound_def)
  then show "hd s # ordered_rest i k 0 = concat (map snd i)" "0 < length (index_get i k)"
    using ks by (simp_all add: ordered_rest_def eq hd_drop_Suc flip: append_Cons)
qed

lemma Ordered_start:
  assumes ok: "steam_ok db" and f: "f < m_nfields db"
  shows "indexed_ok (OrderedRecordset db f) db \<and>
    ordered_pending (OrderedRecordset db f) db =
      (if is_int_type (m_fields db ! f) then concat (map snd (m_intindexes db ! f))
       else concat (map snd (m_stringindexes db ! f)))"
proof (cases "is_int_type (m_fields db ! f)")
  case True
  show ?thesis
  proof (cases "m_intindexes db ! f")
    case Nil
    with True ok f show ?thesis
      by (simp add: OrderedRecordset_def Let_def index_cursor_of_def indexed_ok_def ordered_pending_def)
  next
    case (Cons e j)
    obtain k s where e: "e = (k, s)" by (cases e)
    show ?thesis
      using True ok f ordered_first [OF steam_postings_bound(2) [OF ok f] Cons [unfolded e]] Cons e
      by (simp add: OrderedRecordset_def Let_def index_cursor_of_def indexed_ok_def ordered_pending_def
          indexed_list_def)
  qed
next
  case False
  show ?thesis
  proof (cases "m_stringindexes db ! f")
    case Nil
    with False ok f show ?thesis
      by (simp add: OrderedRecordset_def Let_def index_cursor_of_def indexed_ok_def ordered_pending_def)
  next
    case (Cons e j)
    obtain k s where e: "e = (k, s)" by (cases e)
    show ?thesis
      using False ok f ordered_first [OF steam_postings_bound(1) [OF ok f] Cons [unfolded e]] Cons e
      by (simp add: OrderedRecordset_def Let_def index_cursor_of_def indexed_ok_def ordered_pending_def
          indexed_list_def)
  qed
qed

section \<open>CollateRecordset\<close>

definition some_matches ::
  "(string option \<Rightarrow> string \<Rightarrow> bool) \<Rightarrow> steam_query option \<Rightarrow> steam \<Rightarrow> u32 list \<Rightarrow> bool" where
  "some_matches re qo db s \<longleftrightarrow> (qo = None \<or> (\<exists>r\<in>set s. record_matches re qo db r))"

definition collate_pending ::
  "(string option \<Rightarrow> string \<Rightarrow> bool) \<Rightarrow> collate_cursor \<Rightarrow> steam \<Rightarrow> (u32 + string) list" where
  "collate_pending re c db =
     (if cc_eof c then []
      else if cc_is_int c then
        Inl (cc_intvalue c) # map (Inl \<circ> fst) (smap_upper_bound (m_intindexes db ! cc_field c) (cc_intvalue c))
      else
        Inr (cc_strvalue c) #
        map (Inr \<circ> fst) (filter (\<lambda>(k, s). some_matches re (cc_query c) db s)
          (smap_upper_bound (m_stringindexes db ! cc_field c) (cc_strvalue c))))"

definition collate_ok :: "collate_cursor \<Rightarrow> steam \<Rightarrow> bool" where
  "collate_ok c db \<longleftrightarrow> steam_ok db \<and> cc_field c < m_nfields db \<and> sq_ok (m_nfields db) (cc_query c) \<and>
     (\<not> cc_eof c \<and> \<not> cc_is_int c \<longrightarrow> cc_strvalue c \<in> fst ` set (m_stringindexes db ! cc_field c))"

lemma collate_any_matches:
  assumes "steam_ok db" "sq_ok (m_nfields db) (Some q)"
  shows "\<exists>rs' db'. collate_any re q s rs db = Some (some_matches re (Some q) db s, rs', db') \<and> same_reads db db'"
  using assms
proof (induction s arbitrary: rs db)
  case Nil
  then show ?case
    using same_reads_refl by (auto simp: some_matches_def)
next
  case (Cons r s)
  let ?rs = "SetRecordNumber r rs"
  obtain db1 where m: "Match re q ?rs db = Some (record_matches re (Some q) db r, db1)" "same_reads db db1"
    using match_opt_matches [OF Cons.prems, of ?rs re] by (auto simp: SetRecordNumber_def match_opt_def)
  have q1: "sq_ok (m_nfields db1) (Some q)"
    using Cons.prems(2) same_reads_frame(1) [OF m(2)] by simp
  have "some_matches re (Some q) db1 s = some_matches re (Some q) db s"
    using record_matches_same [OF m(2) Cons.prems] by (simp add: some_matches_def)
  then obtain rs' db' where "collate_any re q s ?rs db1 = Some (some_matches re (Some q) db s, rs', db')"
    "same_reads db1 db'"
    using Cons.IH [OF same_reads_ok [OF m(2)] q1, of ?rs] by auto
  with m show ?case
    using same_reads_trans [OF m(2)]
    by (cases "record_matches re (Some q) db r") (auto simp: some_matches_def Let_def)
qed

lemma filter_head: "filter P i = x # xs \<Longrightarrow> x \<in> set i \<and> P x"
  using list.set_intros(1) [of x xs] by (metis filter_is_subset subsetD Cons_eq_filterD)

text \<open>The keys from the first valid one on.\<close>

lemma MoveUntilValid_pending:
  assumes "steam_ok db" "sq_ok (m_nfields db) (cc_query c)" "\<not> cc_eof c"
    "smap_ok i"
  shows "\<exists>c' db'. MoveUntilValid re i c db = Some (c', db') \<and> same_reads db db' \<and>
    cc_field c' = cc_field c \<and> cc_is_int c' = cc_is_int c \<and> cc_query c' = cc_query c \<and>
    (let ks = filter (\<lambda>(k, s). some_matches re (cc_query c) db s) i in
     if cc_eof c' then ks = []
     else \<exists>s. ks = (cc_strvalue c', s) # filter (\<lambda>(k, s). some_matches re (cc_query c) db s)
                (smap_upper_bound i (cc_strvalue c')))"
  using assms
proof (induction i arbitrary: c db)
  case Nil
  then show ?case
    using same_reads_refl by auto
next
  case (Cons e i)
  obtain k s where e: "e = (k, s)" by (cases e)
  have sm: "smap_ok i" and lt: "\<forall>k'\<in>fst ` set i. k < k'"
    using Cons.prems(4) by (auto simp: e smap_ok_Cons)
  have here: "smap_upper_bound (e # i) k = i"
    using sm lt by (cases i) (auto simp: e smap_upper_bound_def)
  let ?c = "c\<lparr>cc_strvalue := k\<rparr>"
  show ?case
  proof (cases "cc_query c")
    case None
    then show ?thesis
      using same_reads_refl [OF Cons.prems(1)] Cons.prems(3) here
      by (simp add: e some_matches_def case_prod_beta)
  next
    case (Some q)
    obtain rs' db1 where a: "collate_any re q s (cc_rs ?c) db = Some (some_matches re (Some q) db s, rs', db1)"
      "same_reads db db1"
      using collate_any_matches [of db q re s "cc_rs ?c"] Cons.prems(1,2) Some by auto
    show ?thesis
    proof (cases "some_matches re (Some q) db s")
      case True
      then have "MoveUntilValid re (e # i) c db = Some (?c\<lparr>cc_rs := rs'\<rparr>, db1)"
        using a(1) Some by (simp add: e)
      then show ?thesis
        using a(2) True Some here Cons.prems(3) by (simp add: e)
    next
      case False
      let ?c1 = "?c\<lparr>cc_rs := rs'\<rparr>"
      have run: "MoveUntilValid re (e # i) c db = MoveUntilValid re i ?c1 db1"
        using a(1) Some False by (simp add: e)
      have same: "some_matches re (cc_query ?c1) db1 = some_matches re (cc_query c) db"
        using record_matches_same [OF a(2) Cons.prems(1,2)] by (simp add: some_matches_def fun_eq_iff)
      have q1: "sq_ok (m_nfields db1) (cc_query ?c1)"
        using Cons.prems(2) same_reads_frame(1) [OF a(2)] by simp
      obtain c' db' where IH: "MoveUntilValid re i ?c1 db1 = Some (c', db')" "same_reads db1 db'"
        "cc_field c' = cc_field c \<and> cc_is_int c' = cc_is_int c \<and> cc_query c' = cc_query c"
        "let ks = filter (\<lambda>(k, s). some_matches re (cc_query c) db s) i in
         if cc_eof c' then ks = []
         else \<exists>s. ks = (cc_strvalue c', s) # filter (\<lambda>(k, s). some_matches re (cc_query c) db s)
                (smap_upper_bound i (cc_strvalue c'))"
        using Cons.IH [OF same_reads_ok [OF a(2)] q1 _ sm] Cons.prems(3) unfolding same by auto
      have ks: "filter (\<lambda>(k, s). some_matches re (cc_query c) db s) (e # i) =
          filter (\<lambda>(k, s). some_matches re (cc_query c) db s) i"
        using False Some by (simp add: e)
      have ub: "smap_upper_bound (e # i) (cc_strvalue c') = smap_upper_bound i (cc_strvalue c')" if ne: "\<not> cc_eof c'"
      proof -
        obtain s' where "(cc_strvalue c', s') \<in> set i"
          using IH(4) ne by (auto simp: Let_def dest!: filter_head)
        then have "k < cc_strvalue c'"
          using lt by force
        then show ?thesis
          by (simp add: e smap_upper_bound_def less_imp_le)
      qed
      show ?thesis
        using IH same_reads_trans [OF a(2) IH(2)] ub unfolding run ks Let_def
        by (cases "cc_eof c'") simp_all
    qed
  qed
qed

lemma find_upper_bound:
  "smap_ok i \<Longrightarrow> k \<in> fst ` set i \<Longrightarrow>
     \<exists>s. dropWhile (\<lambda>(k', s). k' \<noteq> k) i = (k, s) # smap_upper_bound i k"
proof (induction i)
  case (Cons e i)
  obtain j s where e: "e = (j, s)" by (cases e)
  show ?case
  proof (cases "j = k")
    case True
    with Cons.prems e show ?thesis
      by (cases i) (auto simp: smap_upper_bound_def smap_ok_Cons)
  next
    case False
    with Cons.prems e have "k \<in> fst ` set i" "j < k"
      by (auto simp: smap_ok_Cons)
    then show ?thesis
      using Cons False e by (auto simp: smap_upper_bound_def smap_ok_Cons less_imp_le)
  qed
qed simp

lemma smap_ok_upper_bound: "smap_ok i \<Longrightarrow> smap_ok (smap_upper_bound i k)"
  by (simp add: smap_upper_bound_filter smap_ok_filter)

lemma upper_bound_upper_bound:
  "smap_ok i \<Longrightarrow> k \<le> k' \<Longrightarrow> smap_upper_bound (smap_upper_bound i k) k' = smap_upper_bound i k'"
  by (simp add: smap_upper_bound_filter smap_ok_filter)
    (intro filter_cong refl, auto)

lemma steam_index_ok:
  assumes "steam_ok db" "f < m_nfields db"
  shows "smap_ok (m_stringindexes db ! f)" "smap_ok (m_intindexes db ! f)"
  using steam_postings_bound [OF assms] by (simp_all add: postings_bound_def index_ok_def)

lemma collate_settled:
  assumes c: "MoveUntilValid re i c db = Some (c', db')" "same_reads db db'"
    and fr: "cc_field c' = cc_field c" "cc_is_int c' = cc_is_int c" "cc_query c' = cc_query c"
    and ks: "let ks = filter (\<lambda>(k, s). some_matches re (cc_query c) db s) i in
     if cc_eof c' then ks = []
     else \<exists>s. ks = (cc_strvalue c', s) # filter (\<lambda>(k, s). some_matches re (cc_query c) db s)
                (smap_upper_bound i (cc_strvalue c'))"
    and ok: "steam_ok db" "cc_field c < m_nfields db" "sq_ok (m_nfields db) (cc_query c)" "\<not> cc_is_int c"
    and i: "i = m_stringindexes db ! cc_field c \<or> i = smap_upper_bound (m_stringindexes db ! cc_field c) k"
  shows "collate_ok c' db' \<and>
    collate_pending re c' db' = map (Inr \<circ> fst) (filter (\<lambda>(k, s). some_matches re (cc_query c) db s) i)"
proof -
  let ?idx = "m_stringindexes db ! cc_field c"
  note frame = same_reads_frame [OF c(2)]
  have sm: "smap_ok ?idx"
    by (rule steam_index_ok [OF ok(1,2)])
  have same: "some_matches re (cc_query c) db' = some_matches re (cc_query c) db"
    using record_matches_same [OF c(2) ok(1,3)] by (simp add: some_matches_def fun_eq_iff)
  show ?thesis
  proof (cases "cc_eof c'")
    case True
    with ks ok fr frame same_reads_ok [OF c(2)] show ?thesis
      by (simp add: collate_ok_def collate_pending_def)
  next
    case False
    then obtain s where s: "filter (\<lambda>(k, s). some_matches re (cc_query c) db s) i =
        (cc_strvalue c', s) # filter (\<lambda>(k, s). some_matches re (cc_query c) db s) (smap_upper_bound i (cc_strvalue c'))"
      using ks by (auto simp: Let_def)
    then have inn: "(cc_strvalue c', s) \<in> set i"
      using filter_head [OF s] by simp
    have ub: "smap_upper_bound i (cc_strvalue c') = smap_upper_bound ?idx (cc_strvalue c')"
      using i
    proof
      assume "i = smap_upper_bound ?idx k"
      moreover from this inn have "k < cc_strvalue c'"
        by (simp add: smap_upper_bound_filter [OF sm])
      ultimately show ?thesis
        by (simp add: upper_bound_upper_bound [OF sm])
    qed simp
    have "cc_strvalue c' \<in> fst ` set ?idx"
      using i inn upper_bound_subset [of ?idx k] by force
    with False s ub ok fr frame same same_reads_ok [OF c(2)] show ?thesis
      by (simp add: collate_ok_def collate_pending_def)
  qed
qed

lemma Collate_MoveNext_pending:
  assumes c: "collate_ok c db" and e: "\<not> cc_eof c"
  shows "\<exists>c' db'. Collate_MoveNext re c db = Some (c', db') \<and> same_reads db db' \<and> collate_ok c' db' \<and>
    collate_pending re c' db' = tl (collate_pending re c db)"
proof -
  have ok: "steam_ok db" "cc_field c < m_nfields db" "sq_ok (m_nfields db) (cc_query c)"
    using c by (simp_all add: collate_ok_def)
  note sm = steam_index_ok [OF ok(1,2)]
  show ?thesis
  proof (cases "cc_is_int c")
    case True
    show ?thesis
    proof (cases "smap_upper_bound (m_intindexes db ! cc_field c) (cc_intvalue c)")
      case Nil
      then show ?thesis
        using True e ok same_reads_refl [OF ok(1)]
        by (simp add: Collate_MoveNext_def collate_ok_def collate_pending_def)
    next
      case (Cons x i)
      obtain k s where x: "x = (k, s)" by (cases x)
      have "smap_upper_bound (m_intindexes db ! cc_field c) k = i"
        using upper_bound_next [OF sm(2)] Cons x by blast
      then show ?thesis
        using True e ok same_reads_refl [OF ok(1)] Cons x
        by (simp add: Collate_MoveNext_def collate_ok_def collate_pending_def)
    qed
  next
    case False
    let ?i = "smap_upper_bound (m_stringindexes db ! cc_field c) (cc_strvalue c)"
    obtain s where "dropWhile (\<lambda>(k', s). k' \<noteq> cc_strvalue c) (m_stringindexes db ! cc_field c) = (cc_strvalue c, s) # ?i"
      using find_upper_bound [OF sm(1), of "cc_strvalue c"] c e False by (auto simp: collate_ok_def)
    then have run: "Collate_MoveNext re c db = MoveUntilValid re ?i c db"
      using e False by (simp add: Collate_MoveNext_def)
    obtain c' db' where m: "MoveUntilValid re ?i c db = Some (c', db')" "same_reads db db'"
      "cc_field c' = cc_field c" "cc_is_int c' = cc_is_int c" "cc_query c' = cc_query c"
      "let ks = filter (\<lambda>(k, s). some_matches re (cc_query c) db s) ?i in
       if cc_eof c' then ks = []
       else \<exists>s. ks = (cc_strvalue c', s) # filter (\<lambda>(k, s). some_matches re (cc_query c) db s)
              (smap_upper_bound ?i (cc_strvalue c'))"
      using MoveUntilValid_pending [OF ok(1,3) e smap_ok_upper_bound [OF sm(1), of "cc_strvalue c"], of re] by blast
    have "collate_ok c' db' \<and>
        collate_pending re c' db' = map (Inr \<circ> fst) (filter (\<lambda>(k, s). some_matches re (cc_query c) db s) ?i)"
      by (rule collate_settled [OF m ok False]) blast
    moreover have "tl (collate_pending re c db) = map (Inr \<circ> fst) (filter (\<lambda>(k, s). some_matches re (cc_query c) db s) ?i)"
      using e False by (simp add: collate_pending_def)
    ultimately show ?thesis
      using m(1,2) run by auto
  qed
qed

lemma Collate_start:
  assumes ok: "steam_ok db" and f: "f < m_nfields db" and q: "sq_ok (m_nfields db) qo"
  shows "\<exists>c db'. CollateRecordset re db f qo = Some (c, db') \<and> same_reads db db' \<and> collate_ok c db' \<and>
    collate_pending re c db' =
      (if is_int_type (m_fields db ! f) then map (Inl \<circ> fst) (m_intindexes db ! f)
       else map (Inr \<circ> fst) (filter (\<lambda>(k, s). some_matches re qo db s) (m_stringindexes db ! f)))"
proof -
  have "\<exists>rs. SimpleRecordset re None db = Some (rs, db)"
    by (simp add: SimpleRecordset_def match_opt_def Let_def)
  then obtain rs where rs: "SimpleRecordset re None db = Some (rs, db)" ..
  let ?c = "\<lambda>b. \<lparr>cc_field = f, cc_is_int = b, cc_intvalue = 0, cc_strvalue = [], cc_eof = False,
              cc_query = qo, cc_rs = rs\<rparr>"
  note sm = steam_index_ok [OF ok f]
  show ?thesis
  proof (cases "is_int_type (m_fields db ! f)")
    case True
    show ?thesis
    proof (cases "m_intindexes db ! f")
      case Nil
      then show ?thesis
        using True rs same_reads_refl [OF ok] ok f q
        by (simp add: CollateRecordset_def Let_def collate_ok_def collate_pending_def)
    next
      case (Cons x i)
      obtain k s where x: "x = (k, s)" by (cases x)
      have "smap_upper_bound ((k, s) # i) k = i"
        using sm(2) unfolding Cons x by (cases i) (auto simp: smap_upper_bound_def smap_ok_Cons)
      then show ?thesis
        using True rs same_reads_refl [OF ok] ok f q Cons x
        by (simp add: CollateRecordset_def Let_def collate_ok_def collate_pending_def)
    qed
  next
    case False
    let ?i = "m_stringindexes db ! f"
    show ?thesis
    proof (cases ?i)
      case Nil
      then show ?thesis
        using False rs same_reads_refl [OF ok] ok f q
        by (simp add: CollateRecordset_def Let_def collate_ok_def collate_pending_def)
    next
      case (Cons x i)
      have run: "CollateRecordset re db f qo = MoveUntilValid re ?i (?c False) db"
        using False rs Cons by (simp add: CollateRecordset_def Let_def)
      obtain c' db' where m: "MoveUntilValid re ?i (?c False) db = Some (c', db')" "same_reads db db'"
        "cc_field c' = cc_field (?c False)" "cc_is_int c' = cc_is_int (?c False)" "cc_query c' = cc_query (?c False)"
        "let ks = filter (\<lambda>(k, s). some_matches re (cc_query (?c False)) db s) ?i in
         if cc_eof c' then ks = []
         else \<exists>s. ks = (cc_strvalue c', s) # filter (\<lambda>(k, s). some_matches re (cc_query (?c False)) db s)
                (smap_upper_bound ?i (cc_strvalue c'))"
        using MoveUntilValid_pending [OF ok _ _ sm(1), of "?c False" re] q by auto
      have "collate_ok c' db' \<and> collate_pending re c' db' =
          map (Inr \<circ> fst) (filter (\<lambda>(k, s). some_matches re (cc_query (?c False)) db s) ?i)"
        by (rule collate_settled [OF m ok]) (use f q in simp_all)
      then show ?thesis
        using m(1,2) run False by auto
    qed
  qed
qed

end
