(* ===== verification/SteamExecute.thy ===== *)
theory SteamExecute
  imports SteamResults
begin

text \<open>
  The results of \<^verbatim>\<open>Query::Execute\<close>, read to the end by a client: what a query with a
  condition, an order or a collation delivers, whichever cursor executes it.
\<close>

section \<open>Every recordset meets the contract\<close>

text \<open>A result is a record number, or for a collation a key.\<close>

type_synonym result = "u32 + (u32 + string)"

fun rs_current :: "recordset \<Rightarrow> result" where
  "rs_current (Simple qo rs) = Inl (m_record rs)"
| "rs_current (Indexed c) = Inl (m_record c)"
| "rs_current (Ordered c) = Inl (m_record c)"
| "rs_current (Collate c) =
     Inr (if cc_is_int c then Inl (Collate_GetInteger c 0) else Inr (Collate_GetString c 0))"

fun rs_pending :: "(string option \<Rightarrow> string \<Rightarrow> bool) \<Rightarrow> recordset \<Rightarrow> steam \<Rightarrow> result list" where
  "rs_pending re (Simple qo rs) db = map Inl (simple_pending re qo rs db)"
| "rs_pending re (Indexed c) db = map Inl (indexed_pending c db)"
| "rs_pending re (Ordered c) db = map Inl (ordered_pending c db)"
| "rs_pending re (Collate c) db = map Inr (collate_pending re c db)"

fun rs_ok :: "recordset \<Rightarrow> steam \<Rightarrow> bool" where
  "rs_ok (Simple qo rs) db \<longleftrightarrow> steam_ok db \<and> sq_ok (m_nfields db) qo"
| "rs_ok (Indexed c) db \<longleftrightarrow> indexed_ok c db"
| "rs_ok (Ordered c) db \<longleftrightarrow> indexed_ok c db"
| "rs_ok (Collate c) db \<longleftrightarrow> collate_ok c db"

lemma rs_ok_steam: "rs_ok rs db \<Longrightarrow> steam_ok db"
  by (cases rs) (simp_all add: indexed_ok_def collate_ok_def)

lemma rs_MoveNext_pending:
  assumes ok: "rs_ok rs db" and e: "\<not> rs_IsEOF rs"
  shows "\<exists>rs' db'. rs_MoveNext re rs db = Some (rs', db') \<and> rs_ok rs' db' \<and>
    rs_pending re rs' db' = tl (rs_pending re rs db) \<and> same_reads db db'"
proof (cases rs)
  case (Simple qo c)
  then have s: "steam_ok db" "sq_ok (m_nfields db) qo" "\<not> m_eof c"
    using ok e by simp_all
  obtain c' db' where m: "Simple_MoveNext re qo c db = Some (c', db')" "same_reads db db'"
    "simple_pending re qo c' db' = tl (simple_pending re qo c db)"
    using Simple_MoveNext_pending [OF s, of re] by blast
  then show ?thesis
    using s(2) same_reads_ok [OF m(2)] same_reads_frame(1) [OF m(2)] by (simp add: Simple map_tl)
next
  case (Indexed c)
  then show ?thesis
    using ok e Indexed_MoveNext_pending [of c db] same_reads_refl [OF rs_ok_steam [OF ok]] by (simp add: map_tl)
next
  case (Ordered c)
  then show ?thesis
    using ok e Ordered_MoveNext_pending [of c db] same_reads_refl [OF rs_ok_steam [OF ok]] by (simp add: map_tl)
next
  case (Collate c)
  then obtain c' db' where "Collate_MoveNext re c db = Some (c', db')" "same_reads db db'" "collate_ok c' db'"
    "collate_pending re c' db' = tl (collate_pending re c db)"
    using ok e Collate_MoveNext_pending [of c db re] by auto
  then show ?thesis
    by (simp add: Collate map_tl)
qed

interpretation rs: enumerator rs_IsEOF rs_current "rs_MoveNext re" "rs_pending re" rs_ok same_reads for re
proof
  fix rs db
  assume "rs_ok rs db"
  then show "rs_IsEOF rs = (rs_pending re rs db = [])"
    by (cases rs) (simp_all add: simple_pending_def indexed_pending_def ordered_pending_def collate_pending_def)
next
  fix rs db
  assume "rs_ok rs db" "\<not> rs_IsEOF rs"
  then show "rs_current rs = hd (rs_pending re rs db)"
    by (cases rs) (simp_all add: simple_pending_def indexed_pending_def ordered_pending_def collate_pending_def
        Collate_GetInteger_def Collate_GetString_def)
qed (blast intro: rs_MoveNext_pending same_reads_refl rs_ok_steam same_reads_trans)+

text \<open>Executing a query and reading all its results; none if \<^verbatim>\<open>Execute\<close> gives a null pointer.\<close>

definition results ::
  "(string \<Rightarrow> bool) \<Rightarrow> (string option \<Rightarrow> string \<Rightarrow> bool) \<Rightarrow> query \<Rightarrow> steam \<Rightarrow> (result list \<times> steam) option" where
  "results rok re q db = do {
     (ro, db) \<leftarrow> Execute rok re \<lparr>sq_query = q, m_regexes = []\<rparr> db;
     rs \<leftarrow> ro;
     drain rs_IsEOF rs_current (rs_MoveNext re) rs db }"

lemma results_drain:
  assumes x: "Execute rok re \<lparr>sq_query = q, m_regexes = []\<rparr> db = Some (Some rs, db1)"
    and s: "same_reads db db1" and ok: "rs_ok rs db1"
  shows "\<exists>db'. results rok re q db = Some (rs_pending re rs db1, db') \<and> same_reads db db'"
  using rs.drain_pending [OF ok, of re] same_reads_trans [OF s] by (auto simp: results_def x)

section \<open>Conditions\<close>

abbreviation record_at :: "u32 \<Rightarrow> cursor" where
  "record_at r \<equiv> \<lparr>m_record = r, m_eof = False\<rparr>"

definition record_holds :: "(string option \<Rightarrow> string \<Rightarrow> bool) \<Rightarrow> steam \<Rightarrow> condition \<Rightarrow> u32 \<Rightarrow> bool" where
  "record_holds re db c r \<longleftrightarrow>
     holds re (GetString db (record_at r)) (\<lambda>f. fst (GetInteger db (record_at r) f)) c"

text \<open>
  A query that a client may execute on a database: well-formed, with every comparison one that is
  implemented, every pattern one that compiles, and a root.
\<close>

definition executable :: "(string \<Rightarrow> bool) \<Rightarrow> steam \<Rightarrow> query \<Rightarrow> bool" where
  "executable rok db q \<longleftrightarrow> query_ok q \<and> (\<forall>r\<in>set (m_restrictions q). supported (m_nfields db) r) \<and>
     (\<forall>r\<in>set (m_restrictions q). r_rt r = LIKE \<longrightarrow> rok (r_sval r)) \<and>
     (m_restrictions q \<noteq> [] \<longrightarrow> m_root q \<noteq> 0)"

lemma compile_regexes_Some:
  "\<forall>r\<in>set rs. r_rt r = LIKE \<longrightarrow> rok (r_sval r) \<Longrightarrow> \<exists>m'. compile_regexes rok i rs m = Some m'"
  by (induction rok i rs m rule: compile_regexes.induct) auto

lemma executable_compiles:
  assumes "executable rok db q"
  obtains rx where "compile_regexes rok 0 (m_restrictions q) [] = Some rx"
    "sq_ok (m_nfields db) (Some \<lparr>sq_query = q, m_regexes = rx\<rparr>)"
  using compile_regexes_Some [of "m_restrictions q" rok 0 "[]"] assms
  by (auto simp: executable_def sq_ok_def dest: compile_regexes_query)

lemma record_matches_holds:
  assumes "steam_ok db" "sq_ok (m_nfields db) (Some sq)" "denotes (sq_query sq) (m_root (sq_query sq)) c"
  shows "record_matches re (Some sq) db r = record_holds re db c r"
proof -
  have "condition_supported (m_nfields db) c"
    using assms(2) denotes_tests [OF assms(3)] by (auto simp: condition_supported_tests sq_ok_def)
  then have "\<exists>db'. match_opt re (Some sq) (record_at r) db = Some (record_holds re db c r, db') \<and> same_reads db db'"
    unfolding record_holds_def
    using assms denotes_in_range [OF assms(3)] by (intro match_opt_query) (auto simp: sq_ok_def)
  then show ?thesis
    by (auto simp: record_matches_def)
qed

section \<open>What the index finds\<close>

text \<open>
  The one shortcut that \<^verbatim>\<open>Execute\<close> takes looks a value up in an index. The index of the
  other type than the field's is empty, and no index posts a record whose field is unset: such a field
  reads as 0 or as the empty string, but a lookup of that value does not find it.
\<close>

definition looks_up :: "steam \<Rightarrow> query \<Rightarrow> restriction option" where
  "looks_up db q =
     (case m_restrictions q of
        [r] \<Rightarrow> if r_rt r = EQ \<and> is_indexed (m_fields db ! r_which r) then Some r else None
      | _ \<Rightarrow> None)"

definition findable :: "steam \<Rightarrow> query \<Rightarrow> u32 \<Rightarrow> bool" where
  "findable db q x \<longleftrightarrow>
     (case looks_up db q of
        None \<Rightarrow> True
      | Some r \<Rightarrow>
          if r_is_string r then is_string_type (m_fields db ! r_which r) \<and> string_key (m_data db) (r_which r) x \<noteq> None
          else is_int_type (m_fields db ! r_which r) \<and> int_key (m_data db) (r_which r) x \<noteq> None)"

text \<open>No lookup, or one of the type of the field, and not of the value that an unset field reads as.\<close>

definition index_exact :: "steam \<Rightarrow> query \<Rightarrow> bool" where
  "index_exact db q \<longleftrightarrow>
     (case looks_up db q of
        None \<Rightarrow> True
      | Some r \<Rightarrow>
          if r_is_string r then is_string_type (m_fields db ! r_which r) \<and> r_sval r \<noteq> []
          else is_int_type (m_fields db ! r_which r) \<and> r_ival r \<noteq> 0)"

lemma sorted_filter_keys:
  assumes "smap_ok m" "sset_ok s" "\<And>r. r \<in> set s \<longleftrightarrow> r \<in> fst ` set m \<and> P r"
  shows "s = filter P (map fst m)"
proof (rule strict_sorted_equal)
  show "sorted_wrt (<) (filter P (map fst m))"
    using assms(1) by (simp add: smap_ok_def sorted_wrt_filter)
  show "set s = set (filter P (map fst m))"
    using assms(3) by auto
qed (use assms(2) in \<open>simp add: sset_ok_def\<close>)

lemma value_ok_at:
  assumes "steam_ok db" "smap_find (m_data db) r = Some row" "f < m_nfields db"
  shows "value_ok (m_fields db ! f) (row ! f)" "value_at db r f = Some (row ! f)"
  using assms by (auto simp: steam_ok_def row_ok_def value_at_def)

lemma index_get_keys:
  assumes "smap_ok m" "index_tracks i on key" "\<And>x. key x \<noteq> None \<Longrightarrow> x \<in> fst ` set m"
  shows "index_get i k = filter (\<lambda>x. on \<and> key x = Some k) (map fst m)"
proof (rule sorted_filter_keys [OF assms(1)])
  show "sset_ok (index_get i k)"
    using assms(2) by (simp add: index_tracks_def index_get_ok)
  show "x \<in> set (index_get i k) \<longleftrightarrow> x \<in> fst ` set m \<and> on \<and> key x = Some k" for x
    using assms(2) assms(3) [of x] by (auto simp: index_tracks_def index_postings_def)
qed

lemma key_records: "string_key m f x \<noteq> None \<Longrightarrow> x \<in> fst ` set m" "int_key m f x \<noteq> None \<Longrightarrow> x \<in> fst ` set m"
  using smap_find_None [of m x] by (auto simp: string_key_def int_key_def)

lemma key_reads:
  "string_key (m_data db) f x = Some s \<Longrightarrow> GetString db (record_at x) f = s"
  "int_key (m_data db) f x = Some n \<Longrightarrow> fst (GetInteger db (record_at x) f) = n"
  by (auto simp: string_key_def int_key_def GetString_def GetInteger_def Let_def split: option.splits if_splits)

lemma string_index_scan:
  assumes ok: "steam_ok db" and f: "f < m_nfields db" "is_indexed (m_fields db ! f)"
  shows "index_get (m_stringindexes db ! f) s = filter (\<lambda>x. GetString db (record_at x) f = s \<and>
    is_string_type (m_fields db ! f) \<and> string_key (m_data db) f x \<noteq> None) (map fst (m_data db))"
proof -
  have "index_tracks (m_stringindexes db ! f) (is_string_type (m_fields db ! f)) (string_key (m_data db) f)" "smap_ok (m_data db)"
    using ok f by (auto simp: steam_ok_def field_indexes_ok_def Let_def)
  then show ?thesis
    by (subst index_get_keys [OF _ _ key_records(1)]) (auto intro!: filter_cong simp: key_reads)
qed

lemma int_index_scan:
  assumes ok: "steam_ok db" and f: "f < m_nfields db" "is_indexed (m_fields db ! f)"
  shows "index_get (m_intindexes db ! f) n = filter (\<lambda>x. fst (GetInteger db (record_at x) f) = n \<and>
    is_int_type (m_fields db ! f) \<and> int_key (m_data db) f x \<noteq> None) (map fst (m_data db))"
proof -
  have "index_tracks (m_intindexes db ! f) (is_int_type (m_fields db ! f)) (int_key (m_data db) f)" "smap_ok (m_data db)"
    using ok f by (auto simp: steam_ok_def field_indexes_ok_def Let_def)
  then show ?thesis
    by (subst index_get_keys [OF _ _ key_records(2)]) (auto intro!: filter_cong simp: key_reads)
qed

text \<open>A field of a record that reads as something has an entry.\<close>

lemma key_of_reading:
  assumes ok: "steam_ok db" and f: "f < m_nfields db" "is_indexed (m_fields db ! f)"
  shows "is_string_type (m_fields db ! f) \<Longrightarrow> GetString db (record_at x) f \<noteq> [] \<Longrightarrow> string_key (m_data db) f x \<noteq> None"
    "is_int_type (m_fields db ! f) \<Longrightarrow> fst (GetInteger db (record_at x) f) \<noteq> 0 \<Longrightarrow> int_key (m_data db) f x \<noteq> None"
proof -
  have row: "value_ok (m_fields db ! f) (row ! f)" "value_at db x f = Some (row ! f)" if "smap_find (m_data db) x = Some row" for row
    using value_ok_at [OF ok that f(1)] .
  show "string_key (m_data db) f x \<noteq> None" if "is_string_type (m_fields db ! f)" "GetString db (record_at x) f \<noteq> []"
    using row that f(2) string_int_type [OF that(1)]
    by (cases "smap_find (m_data db) x") (auto simp: string_key_def GetString_value str_of_def value_ok_def value_at_def split: if_splits)
  show "int_key (m_data db) f x \<noteq> None" if "is_int_type (m_fields db ! f)" "fst (GetInteger db (record_at x) f) \<noteq> 0"
    using row that f(2)
    by (cases "smap_find (m_data db) x") (auto simp: int_key_def GetInteger_value int_of_def value_ok_def value_at_def split: if_splits)
qed

text \<open>With one restriction, every condition that the query can denote amounts to it.\<close>

lemma denotes_single: "denotes q e c \<Longrightarrow> m_restrictions q = [r] \<Longrightarrow> holds re sv iv c = test_holds re sv iv r"
  by (induction rule: denotes.induct) auto

section \<open>What a query delivers\<close>

lemma Execute_simple:
  assumes ok: "steam_ok db" and ex: "executable rok db q" and cl: "m_collateby q = []" "m_orderby q = []"
    and rx: "compile_regexes rok 0 (m_restrictions q) [] = Some rx"
      "sq_ok (m_nfields db) (Some \<lparr>sq_query = q, m_regexes = rx\<rparr>)"
    and scan: "\<not> (\<exists>r. m_restrictions q = [r] \<and> r_rt r = EQ \<and> is_indexed (m_fields db ! r_which r))"
  shows "\<exists>db'. results rok re q db = Some (map Inl (filter
      (record_matches re (Some \<lparr>sq_query = q, m_regexes = rx\<rparr>) db) (map fst (m_data db))), db') \<and> same_reads db db'"
proof -
  let ?sq = "\<lparr>sq_query = q, m_regexes = rx\<rparr>"
  obtain rs db1 where s: "SimpleRecordset re (Some ?sq) db = Some (rs, db1)" "same_reads db db1"
    "simple_pending re (Some ?sq) rs db1 = filter (record_matches re (Some ?sq) db) (map fst (m_data db))"
    using SimpleRecordset_pending [OF ok rx(2), of re] by blast
  have "Execute rok re \<lparr>sq_query = q, m_regexes = []\<rparr> db = Some (Some (Simple (Some ?sq) rs), db1)"
    using ex scan rx(1) s(1) cl by (auto simp: Execute_def executable_def Let_def split: list.splits)
  moreover have "rs_ok (Simple (Some ?sq) rs) db1"
    using rx(2) same_reads_ok [OF s(2)] same_reads_frame(1) [OF s(2)] by simp
  ultimately show ?thesis
    using results_drain [OF _ s(2), of rok re q "Simple (Some ?sq) rs"] s(3) by simp
qed

lemma Execute_indexed:
  assumes ok: "steam_ok db" and ex: "executable rok db q" and cl: "m_collateby q = []" "m_orderby q = []"
    and r: "m_restrictions q = [r]" "r_rt r = EQ" "is_indexed (m_fields db ! r_which r)"
  shows "\<exists>db'. results rok re q db = Some (map Inl
      (if r_is_string r then index_get (m_stringindexes db ! r_which r) (r_sval r)
       else index_get (m_intindexes db ! r_which r) (r_ival r)), db') \<and> same_reads db db'"
proof -
  have f: "r_which r < m_nfields db"
    using ex r by (simp add: executable_def supported_def)
  obtain rx where rx: "compile_regexes rok 0 (m_restrictions q) [] = Some rx"
    using executable_compiles [OF ex] by blast
  let ?rs = "Indexed (if r_is_string r then IndexedRecordset_string db (r_which r) (r_sval r)
      else IndexedRecordset_int db (r_which r) (r_ival r))"
  have "Execute rok re \<lparr>sq_query = q, m_regexes = []\<rparr> db = Some (Some ?rs, db)"
    using ex r rx cl by (auto simp: Execute_def executable_def Let_def)
  moreover have "rs_ok ?rs db"
    using Indexed_start [OF ok f] by simp
  ultimately show ?thesis
    using results_drain [OF _ same_reads_refl [OF ok], of rok re q ?rs] Indexed_start [OF ok f] by (cases "r_is_string r") simp_all
qed

lemma findable_exact:
  assumes ok: "steam_ok db" and ex: "executable rok db q" and ie: "index_exact db q" and d: "denotes q (m_root q) c"
    and x: "record_holds re db c x"
  shows "findable db q x"
proof (cases "looks_up db q")
  case (Some r)
  then have r: "m_restrictions q = [r]" "r_rt r = EQ" "is_indexed (m_fields db ! r_which r)"
    by (auto simp: looks_up_def split: list.splits if_splits)
  have f: "r_which r < m_nfields db"
    using ex r by (simp add: executable_def supported_def)
  have "test_holds re (GetString db (record_at x)) (\<lambda>f. fst (GetInteger db (record_at x) f)) r"
    using x denotes_single [OF d r(1)] by (simp add: record_holds_def)
  then show ?thesis
    using key_of_reading [OF ok f r(3), of x] ie Some r(2) by (auto simp: findable_def index_exact_def test_holds_def Let_def split: if_splits dest!: word_unat_eq_iff [THEN iffD2])
qed (simp add: findable_def)

text \<open>C1: A query without order or collation delivers the records for which its condition holds, each once,
  in ascending order of record number; and reading the results changes nothing that can be read. A scan
  delivers all of them. A query of a single equality on an indexed field looks the value up, and delivers those that
  have an entry in the index of the value's type. That leaves none out when the value is of the type of the field and
  neither 0 nor the empty string; a lookup of the other type delivers nothing, and a lookup of 0 or of the empty string
  leaves out the records whose field is unset.\<close>

theorem Where_results:
  assumes ok: "steam_ok db" and ex: "executable rok db q"
    and cl: "m_collateby q = []" "m_orderby q = []" and d: "denotes q (m_root q) c"
  shows "(\<exists>db'. results rok re q db =
      Some (map Inl (filter (\<lambda>x. record_holds re db c x \<and> findable db q x) (map fst (m_data db))), db') \<and> same_reads db db') \<and>
    (index_exact db q \<longrightarrow>
      filter (\<lambda>x. record_holds re db c x \<and> findable db q x) (map fst (m_data db)) = filter (record_holds re db c) (map fst (m_data db)))"
proof (intro conjI impI)
  show "filter (\<lambda>x. record_holds re db c x \<and> findable db q x) (map fst (m_data db)) = filter (record_holds re db c) (map fst (m_data db))"
    if "index_exact db q"
    using findable_exact [OF ok ex that d] by (intro filter_cong) blast+
  show "\<exists>db'. results rok re q db =
      Some (map Inl (filter (\<lambda>x. record_holds re db c x \<and> findable db q x) (map fst (m_data db))), db') \<and> same_reads db db'"
  proof (cases "looks_up db q")
    case None
    then have scan: "\<not> (\<exists>r. m_restrictions q = [r] \<and> r_rt r = EQ \<and> is_indexed (m_fields db ! r_which r))"
      by (auto simp: looks_up_def)
    obtain rx where rx: "compile_regexes rok 0 (m_restrictions q) [] = Some rx"
      "sq_ok (m_nfields db) (Some \<lparr>sq_query = q, m_regexes = rx\<rparr>)"
      using executable_compiles [OF ex] by blast
    have "record_matches re (Some \<lparr>sq_query = q, m_regexes = rx\<rparr>) db = record_holds re db c"
      using record_matches_holds [OF ok rx(2)] d by (simp add: fun_eq_iff)
    then show ?thesis
      using Execute_simple [OF ok ex cl rx scan, of re] None by (simp add: findable_def)
  next
    case (Some r)
    then have r: "m_restrictions q = [r]" "r_rt r = EQ" "is_indexed (m_fields db ! r_which r)"
      by (auto simp: looks_up_def split: list.splits if_splits)
    have f: "r_which r < m_nfields db"
      using ex r by (simp add: executable_def supported_def)
    have h: "record_holds re db c x = test_holds re (GetString db (record_at x)) (\<lambda>f. fst (GetInteger db (record_at x) f)) r" for x
      unfolding record_holds_def by (rule denotes_single [OF d r(1)])
    have "(if r_is_string r then index_get (m_stringindexes db ! r_which r) (r_sval r)
        else index_get (m_intindexes db ! r_which r) (r_ival r)) = filter (\<lambda>x. record_holds re db c x \<and> findable db q x) (map fst (m_data db))"
      unfolding string_index_scan [OF ok f r(3)] int_index_scan [OF ok f r(3)]
      by (auto intro!: filter_cong simp: h findable_def Some test_holds_def r(2) Let_def word_unat_eq_iff)
    then show ?thesis
      using Execute_indexed [OF ok ex cl r, of re] by simp
  qed
qed

definition example_condition :: condition where
  "example_condition = Test (int_restriction 0 LT 5)"

definition example_lt :: query where
  "example_lt = \<lparr>m_restrictions = [int_restriction 0 LT 5], m_relations = [], m_root = 1,
     m_orderby = [], m_collateby = []\<rparr>"

lemma example_lt_executable: "executable (\<lambda>_. True) example_db example_lt"
  by (simp add: executable_def example_lt_def query_ok_def elem_ok_def supported_def int_restriction_def)

lemma example_lt_denotes: "denotes example_lt (m_root example_lt) example_condition"
  using denotes_test [of 1 example_lt] by (simp add: example_lt_def example_condition_def)

text \<open>A string restriction on an integer field with an index finds nothing, although the field
  reads as that string in some record: the lookup goes to the index of strings, which is empty there.\<close>

theorem string_lookup_int_field:
  assumes ok: "steam_ok db" and ex: "executable rok db q" and cl: "m_collateby q = []" "m_orderby q = []"
    and r: "m_restrictions q = [r]" "r_rt r = EQ" "r_is_string r"
    and f: "is_indexed (m_fields db ! r_which r)" "is_int_type (m_fields db ! r_which r)"
  shows "\<exists>db'. results rok re q db = Some ([], db') \<and> same_reads db db'"
proof -
  have n: "r_which r < m_nfields db"
    using ex r by (simp add: executable_def supported_def)
  have "\<not> is_string_type (m_fields db ! r_which r)"
    using f(2) string_int_type by blast
  moreover have "field_indexes_ok db (r_which r)"
    using ok n by (simp add: steam_ok_def)
  ultimately have "index_tracks (m_stringindexes db ! r_which r) False (string_key (m_data db) (r_which r))"
    by (simp add: field_indexes_ok_def Let_def)
  then have "index_get (m_stringindexes db ! r_which r) (r_sval r) = []"
    by (simp add: index_tracks_def index_postings_def)
  then show ?thesis
    using Execute_indexed [OF ok ex cl r(1,2) f(1), of re] r(3) by simp
qed

definition example_id_query :: query where
  "example_id_query = \<lparr>m_restrictions = [string_restriction 0 EQ ''7''], m_relations = [], m_root = 1,
     m_orderby = [], m_collateby = []\<rparr>"

definition example_db7 :: steam where
  "example_db7 = snd (SetInteger example_db example_rs 0 7)"

lemma example_db7_ok: "steam_ok example_db7"
  unfolding example_db7_def by (rule SetInteger_ok [OF example_db_ok]) simp

lemma example_flags [simp]: "is_indexed 9" "is_int_type 9" "\<not> is_string_type 9"
  "is_indexed 8" "\<not> is_int_type 8" "is_string_type 8"
  by (simp_all add: is_indexed_def is_int_type_def is_string_type_def FIELD_INDEXED_def FIELD_TYPEMASK_def
      FIELD_INT_def FIELD_STRING_def)

lemma example_db7_fields [simp]: "m_fields example_db7 = [9, 8]" "m_nfields example_db7 = 2"
  by (simp_all add: example_db7_def SetInteger_def Let_def put_value_def int_add_def int_drop_def FieldValue_def)

text \<open>The witness of C1: a scan, a lookup that finds what the scan would, and a lookup of 0, which misses the record
  whose field is unset and reads as 0.\<close>

definition example_eq :: "u32 \<Rightarrow> query" where
  "example_eq n = \<lparr>m_restrictions = [int_restriction 0 EQ n], m_relations = [], m_root = 1, m_orderby = [], m_collateby = []\<rparr>"

lemma example_eq_ok:
  "executable (\<lambda>_. True) example_db (example_eq n)" "executable (\<lambda>_. True) example_db7 (example_eq n)"
  "denotes (example_eq n) (m_root (example_eq n)) (Test (int_restriction 0 EQ n))"
  using denotes_test [of 1 "example_eq n"]
  by (simp_all add: executable_def example_eq_def query_ok_def elem_ok_def supported_def int_restriction_def)

lemmas example_eval = example_db7_def example_db_def example_rs_def AddRecord_def Database_def replicate_2
  SetInteger_def Let_def put_value_def int_add_def int_drop_def FieldValue_def GetInteger_def

theorem Where_results_witness:
  "(\<exists>db'. results (\<lambda>_. True) (\<lambda>_ _. True) example_lt example_db = Some ([Inl 0], db') \<and> same_reads example_db db') \<and>
   (\<exists>db'. results (\<lambda>_. True) (\<lambda>_ _. True) (example_eq 7) example_db7 = Some ([Inl 0], db') \<and> same_reads example_db7 db') \<and>
   index_exact example_db7 (example_eq 7) \<and>
   (\<exists>db'. results (\<lambda>_. True) (\<lambda>_ _. True) (example_eq 0) example_db = Some ([], db') \<and> same_reads example_db db') \<and>
   record_holds (\<lambda>_ _. True) example_db (Test (int_restriction 0 EQ 0)) 0"
proof (intro conjI)
  have lt: "filter (\<lambda>x. record_holds (\<lambda>_ _. True) example_db example_condition x \<and> findable example_db example_lt x) (map fst (m_data example_db)) = [0]"
    by (simp add: record_holds_def findable_def looks_up_def example_lt_def example_condition_def test_holds_def int_restriction_def example_eval)
  show "\<exists>db'. results (\<lambda>_. True) (\<lambda>_ _. True) example_lt example_db = Some ([Inl 0], db') \<and> same_reads example_db db'"
    using Where_results [OF example_db_ok example_lt_executable _ _ example_lt_denotes, where re = "\<lambda>_ _. True"] unfolding lt
    by (simp add: example_lt_def)
  have 7: "filter (\<lambda>x. record_holds (\<lambda>_ _. True) example_db7 (Test (int_restriction 0 EQ 7)) x \<and> findable example_db7 (example_eq 7) x)
      (map fst (m_data example_db7)) = [0]"
    by (simp add: record_holds_def findable_def looks_up_def example_eq_def test_holds_def int_restriction_def int_key_def)
      (simp add: example_eval)
  show "\<exists>db'. results (\<lambda>_. True) (\<lambda>_ _. True) (example_eq 7) example_db7 = Some ([Inl 0], db') \<and> same_reads example_db7 db'"
    using Where_results [OF example_db7_ok example_eq_ok(2) _ _ example_eq_ok(3) [of 7], where re = "\<lambda>_ _. True"] unfolding 7 list.map
    by (auto simp: example_eq_def)
  show "index_exact example_db7 (example_eq 7)"
    by (simp add: index_exact_def looks_up_def example_eq_def int_restriction_def)
  have 0: "filter (\<lambda>x. record_holds (\<lambda>_ _. True) example_db (Test (int_restriction 0 EQ 0)) x \<and> findable example_db (example_eq 0) x)
      (map fst (m_data example_db)) = []"
    by (simp add: findable_def looks_up_def example_eq_def int_restriction_def int_key_def example_eval)
  show "\<exists>db'. results (\<lambda>_. True) (\<lambda>_ _. True) (example_eq 0) example_db = Some ([], db') \<and> same_reads example_db db'"
    using Where_results [OF example_db_ok example_eq_ok(1) _ _ example_eq_ok(3) [of 0], where re = "\<lambda>_ _. True"] unfolding 0 list.map
    by (auto simp: example_eq_def)
  show "record_holds (\<lambda>_ _. True) example_db (Test (int_restriction 0 EQ 0)) 0"
    by (simp add: record_holds_def test_holds_def int_restriction_def example_eval)
qed

lemma digit_char_7: "digit_char 7 = CHR ''7''"
proof -
  have "(of_char (digit_char 7) :: nat) = of_char CHR ''7''"
    by (simp add: of_char_digit_char del: of_char_eq_iff)
  then show ?thesis
    by (rule of_char_eqI)
qed

lemma string_lookup_int_field_witness:
  "GetString example_db7 example_rs 0 = ''7'' \<and>
   (\<exists>db'. results (\<lambda>_. True) (\<lambda>_ _. True) example_id_query example_db7 = Some ([], db') \<and> same_reads example_db7 db')"
proof
  show "GetString example_db7 example_rs 0 = ''7''"
    by (simp add: example_db7_def example_db_def example_rs_def AddRecord_def Database_def replicate_2
        SetInteger_def Let_def put_value_def int_add_def int_drop_def FieldValue_def GetString_def
        dec.simps digit_char_7)
  show "\<exists>db'. results (\<lambda>_. True) (\<lambda>_ _. True) example_id_query example_db7 = Some ([], db') \<and> same_reads example_db7 db'"
    by (rule string_lookup_int_field [OF example_db7_ok, where r = "string_restriction 0 EQ ''7''"])
      (simp_all add: executable_def example_id_query_def query_ok_def elem_ok_def supported_def string_restriction_def)
qed

section \<open>Order\<close>

text \<open>An index, read entry by entry, is the list of the records that have a key, sorted by key.\<close>

lemma index_tracks_entry:
  assumes "index_tracks i True key" "(k, s) \<in> set i" "r \<in> set s"
  shows "key r = Some k"
  using assms index_entry(1) [of i k s] by (auto simp: index_tracks_def index_postings_def)

lemma index_concat:
  assumes tr: "index_tracks i True key"
  shows "set (concat (map snd i)) = {r. key r \<noteq> None}"
    "distinct (concat (map snd i))" "sorted (map (the \<circ> key) (concat (map snd i)))"
proof -
  have ok: "index_ok i" and sm: "smap_ok i"
    using tr by (simp_all add: index_tracks_def index_ok_def)
  have "r \<in> set (concat (map snd i))" if "key r = Some k" for r k
  proof -
    have "r \<in> set (index_get i k)"
      using tr that by (simp add: index_tracks_def index_postings_def)
    moreover from this have "(k, index_get i k) \<in> set i"
      using index_get_find [of i k] smap_in_set [OF sm] by fastforce
    ultimately show ?thesis
      by force
  qed
  then show "set (concat (map snd i)) = {r. key r \<noteq> None}"
    using index_tracks_entry [OF tr] by fastforce
  have "distinct (concat (map snd j)) \<and> sorted (map (the \<circ> key) (concat (map snd j)))"
    if "smap_ok j" "set j \<subseteq> set i" for j
    using that
  proof (induction j)
    case (Cons e j)
    obtain k s where e: "e = (k, s)" by (cases e)
    have "distinct (concat (map snd j)) \<and> sorted (map (the \<circ> key) (concat (map snd j)))"
      by (rule Cons.IH) (use Cons.prems in \<open>simp_all add: e smap_ok_Cons\<close>)
    then have IH: "distinct (concat (map snd j))" "sorted (map (the \<circ> key) (concat (map snd j)))"
      by blast+
    have here: "key r = Some k" if "r \<in> set s" for r
      using index_tracks_entry [OF tr, of k s] that Cons.prems(2) by (simp add: e)
    have later: "\<exists>k'. key r = Some k' \<and> k < k'" if "r \<in> set (concat (map snd j))" for r
    proof -
      obtain k' s' where "(k', s') \<in> set j" "r \<in> set s'"
        using \<open>r \<in> set (concat (map snd j))\<close> by auto
      then show ?thesis
        using index_tracks_entry [OF tr, of k' s'] Cons.prems by (force simp: e smap_ok_Cons)
    qed
    have "sset_ok s"
      using ok Cons.prems(2) by (auto simp: index_ok_def e)
    then have "distinct s"
      using strict_sorted_iff unfolding sset_ok_def by blast
    moreover have "set s \<inter> set (concat (map snd j)) = {}"
      using here later by fastforce
    moreover have "sorted (map (the \<circ> key) s)"
      using here by (auto simp: sorted_iff_nth_mono)
    moreover have "\<forall>x\<in>set s. \<forall>y\<in>set (concat (map snd j)). (the \<circ> key) x \<le> (the \<circ> key) y"
      using here later by fastforce
    ultimately show ?case
      using IH unfolding comp_def by (simp add: e sorted_append)
  qed simp
  from this [OF sm order_refl]
  show "distinct (concat (map snd i))" "sorted (map (the \<circ> key) (concat (map snd i)))"
    by simp_all
qed

lemma Execute_ordered:
  assumes ok: "steam_ok db" and ex: "executable rok db q" and cl: "m_collateby q = []" "m_orderby q = f # fs"
    and f: "f < m_nfields db"
  shows "\<exists>db'. results rok re q db = Some (map Inl
      (if is_int_type (m_fields db ! f) then concat (map snd (m_intindexes db ! f))
       else concat (map snd (m_stringindexes db ! f))), db') \<and> same_reads db db'"
proof -
  obtain rx where rx: "compile_regexes rok 0 (m_restrictions q) [] = Some rx"
    using executable_compiles [OF ex] by blast
  let ?rs = "Ordered (OrderedRecordset db f)"
  have "Execute rok re \<lparr>sq_query = q, m_regexes = []\<rparr> db = Some (Some ?rs, db)"
    using ex rx cl by (auto simp: Execute_def executable_def Let_def)
  moreover have "rs_ok ?rs db"
    using Ordered_start [OF ok f] by simp
  ultimately show ?thesis
    using results_drain [OF _ same_reads_refl [OF ok], of rok re q ?rs] Ordered_start [OF ok f] by simp
qed

lemma field_index_on:
  assumes "steam_ok db" "f < m_nfields db" "is_indexed (m_fields db ! f)"
  shows "is_int_type (m_fields db ! f) \<Longrightarrow> index_tracks (m_intindexes db ! f) True (int_key (m_data db) f)"
    "\<not> is_int_type (m_fields db ! f) \<Longrightarrow> index_tracks (m_stringindexes db ! f) True (string_key (m_data db) f)"
proof -
  have f: "field_indexes_ok db f" and fl: "flags_ok (m_fields db ! f)"
    using assms by (auto simp: steam_ok_def)
  show "is_int_type (m_fields db ! f) \<Longrightarrow> index_tracks (m_intindexes db ! f) True (int_key (m_data db) f)"
    "\<not> is_int_type (m_fields db ! f) \<Longrightarrow> index_tracks (m_stringindexes db ! f) True (string_key (m_data db) f)"
    using f fl assms(3) by (simp_all add: field_indexes_ok_def flags_ok_def Let_def)
qed

text \<open>C6: Ordering by an indexed field delivers the records that have a value in the field, each once,
  in the order of the strings or the numbers they hold there. The condition of the query plays no
  part.\<close>

theorem OrderBy_results:
  assumes ok: "steam_ok db" and ex: "executable rok db q" and cl: "m_collateby q = []" "m_orderby q = f # fs"
    and f: "f < m_nfields db" "is_indexed (m_fields db ! f)"
  shows "\<exists>rs db'. results rok re q db = Some (map Inl rs, db') \<and> same_reads db db' \<and> distinct rs \<and>
    (if is_int_type (m_fields db ! f)
     then set rs = {r. int_key (m_data db) f r \<noteq> None} \<and>
       sorted (map (\<lambda>r. fst (GetInteger db (record_at r) f)) rs)
     else set rs = {r. string_key (m_data db) f r \<noteq> None} \<and>
       sorted (map (\<lambda>r. GetString db (record_at r) f) rs))"
proof (cases "is_int_type (m_fields db ! f)")
  case True
  let ?rs = "concat (map snd (m_intindexes db ! f))"
  note c = index_concat [OF field_index_on(1) [OF ok f True]]
  have "map (\<lambda>r. fst (GetInteger db (record_at r) f)) ?rs = map (the \<circ> int_key (m_data db) f) ?rs"
    using c(1) key_reads(2) [of db f] by (intro map_cong refl) (auto simp del: set_concat)
  then have "sorted (map (\<lambda>r. fst (GetInteger db (record_at r) f)) ?rs)"
    using c(3) by (simp only:)
  moreover obtain db' where "results rok re q db = Some (map Inl ?rs, db')" "same_reads db db'"
    using Execute_ordered [OF ok ex cl f(1), of re] True by auto
  ultimately show ?thesis
    using c(1,2) True by (intro exI [of _ ?rs] exI [of _ db']) (simp del: set_concat)
next
  case False
  let ?rs = "concat (map snd (m_stringindexes db ! f))"
  note c = index_concat [OF field_index_on(2) [OF ok f False]]
  have "map (\<lambda>r. GetString db (record_at r) f) ?rs = map (the \<circ> string_key (m_data db) f) ?rs"
    using c(1) key_reads(1) [of db f] by (intro map_cong refl) (auto simp del: set_concat)
  then have "sorted (map (\<lambda>r. GetString db (record_at r) f) ?rs)"
    using c(3) by (simp only:)
  moreover obtain db' where "results rok re q db = Some (map Inl ?rs, db')" "same_reads db db'"
    using Execute_ordered [OF ok ex cl f(1), of re] False by auto
  ultimately show ?thesis
    using c(1,2) False by (intro exI [of _ ?rs] exI [of _ db']) (simp del: set_concat)
qed

definition example_order :: query where
  "example_order = new_query\<lparr>m_orderby := [0]\<rparr>"

lemma OrderBy_results_witness:
  "\<exists>rs db'. results (\<lambda>_. True) (\<lambda>_ _. True) example_order example_db = Some (map Inl rs, db') \<and>
    same_reads example_db db' \<and> distinct rs \<and>
    (if is_int_type (m_fields example_db ! 0)
     then set rs = {r. int_key (m_data example_db) 0 r \<noteq> None} \<and>
       sorted (map (\<lambda>r. fst (GetInteger example_db (record_at r) 0)) rs)
     else set rs = {r. string_key (m_data example_db) 0 r \<noteq> None} \<and>
       sorted (map (\<lambda>r. GetString example_db (record_at r) 0) rs))"
  by (rule OrderBy_results [OF example_db_ok])
    (simp_all add: example_order_def executable_def new_query_def query_ok_def)

section \<open>Collation\<close>

lemma Execute_collate_cursor:
  assumes ok: "steam_ok db" and ex: "executable rok db q" and cl: "m_collateby q = [f]"
    and f: "f < m_nfields db" "is_indexed (m_fields db ! f)"
    and rx: "compile_regexes rok 0 (m_restrictions q) [] = Some rx"
      "sq_ok (m_nfields db) (Some \<lparr>sq_query = q, m_regexes = rx\<rparr>)"
  shows "\<exists>c db1. Execute rok re \<lparr>sq_query = q, m_regexes = []\<rparr> db = Some (Some (Collate c), db1) \<and> same_reads db db1 \<and>
    rs_ok (Collate c) db1 \<and> rs_pending re (Collate c) db1 = map Inr
      (if is_int_type (m_fields db ! f) then map (Inl \<circ> fst) (m_intindexes db ! f)
       else map (Inr \<circ> fst) (filter (\<lambda>(k, s). some_matches re (Some \<lparr>sq_query = q, m_regexes = rx\<rparr>) db s)
         (m_stringindexes db ! f)))"
proof -
  let ?sq = "\<lparr>sq_query = q, m_regexes = rx\<rparr>"
  obtain c db1 where c: "CollateRecordset re db f (Some ?sq) = Some (c, db1)" "same_reads db db1" "collate_ok c db1"
    "collate_pending re c db1 = (if is_int_type (m_fields db ! f) then map (Inl \<circ> fst) (m_intindexes db ! f)
       else map (Inr \<circ> fst) (filter (\<lambda>(k, s). some_matches re (Some ?sq) db s) (m_stringindexes db ! f)))"
    using Collate_start [OF ok f(1) rx(2), of re] by blast
  have "Execute rok re \<lparr>sq_query = q, m_regexes = []\<rparr> db = Some (Some (Collate c), db1)"
    using ex rx(1) cl f(2) c(1) by (auto simp: Execute_def executable_def Let_def)
  then show ?thesis
    using c by (intro exI [of _ c] exI [of _ db1]) simp
qed

lemma Execute_collate:
  assumes "steam_ok db" "executable rok db q" "m_collateby q = [f]" "f < m_nfields db" "is_indexed (m_fields db ! f)"
    "compile_regexes rok 0 (m_restrictions q) [] = Some rx"
    "sq_ok (m_nfields db) (Some \<lparr>sq_query = q, m_regexes = rx\<rparr>)"
  shows "\<exists>db'. results rok re q db = Some (map Inr
      (if is_int_type (m_fields db ! f) then map (Inl \<circ> fst) (m_intindexes db ! f)
       else map (Inr \<circ> fst) (filter (\<lambda>(k, s). some_matches re (Some \<lparr>sq_query = q, m_regexes = rx\<rparr>) db s)
         (m_stringindexes db ! f))), db') \<and> same_reads db db'"
proof -
  obtain c db1 where "Execute rok re \<lparr>sq_query = q, m_regexes = []\<rparr> db = Some (Some (Collate c), db1)" "same_reads db db1"
    "rs_ok (Collate c) db1" "rs_pending re (Collate c) db1 = map Inr
      (if is_int_type (m_fields db ! f) then map (Inl \<circ> fst) (m_intindexes db ! f)
       else map (Inr \<circ> fst) (filter (\<lambda>(k, s). some_matches re (Some \<lparr>sq_query = q, m_regexes = rx\<rparr>) db s)
         (m_stringindexes db ! f)))"
    using Execute_collate_cursor [OF assms, of re] by blast
  then show ?thesis
    using results_drain [of rok re q db "Collate c" db1] by simp
qed

lemma int_index_keys:
  assumes ok: "steam_ok db" and f: "f < m_nfields db" "is_indexed (m_fields db ! f)" "is_int_type (m_fields db ! f)"
  shows "sorted_wrt (<) (map fst (m_intindexes db ! f)) \<and> set (map fst (m_intindexes db ! f)) = {n. \<exists>r. int_key (m_data db) f r = Some n}"
proof
  let ?i = "m_intindexes db ! f"
  have sm: "smap_ok ?i"
    by (rule steam_index_ok [OF ok f(1)])
  then show "sorted_wrt (<) (map fst ?i)"
    unfolding smap_ok_def .
  have tr: "index_tracks ?i True (int_key (m_data db) f)"
    by (rule field_index_on(1) [OF ok f])
  show "set (map fst ?i) = {n. \<exists>r. int_key (m_data db) f r = Some n}" (is "_ = ?K")
  proof (intro set_eqI iffI)
    fix k assume "k \<in> set (map fst ?i)"
    then obtain s where s: "(k, s) \<in> set ?i" by auto
    then have "s \<noteq> []"
      using tr by (auto simp: index_tracks_def index_ok_def)
    then show "k \<in> ?K"
      using index_tracks_entry [OF tr s] list.set_sel(1) [of s] by blast
  next
    fix k assume "k \<in> ?K"
    then obtain r where "int_key (m_data db) f r = Some k" by blast
    then have "r \<in> set (index_get ?i k)"
      using tr by (simp add: index_tracks_def index_postings_def)
    then have "index_get ?i k \<noteq> []"
      by auto
    then have "(k, index_get ?i k) \<in> set ?i"
      using index_get_find [of ?i k] smap_in_set [OF sm] by simp
    then show "k \<in> set (map fst ?i)"
      by force
  qed
qed

text \<open>C7: Collating by an indexed string field delivers the different strings that the records for
  which the condition holds have in it, in ascending order.\<close>

theorem CollateBy_string_results:
  assumes ok: "steam_ok db" and ex: "executable rok db q" and cl: "m_collateby q = [f]"
    and f: "f < m_nfields db" "is_indexed (m_fields db ! f)" "\<not> is_int_type (m_fields db ! f)"
    and d: "denotes q (m_root q) c"
  shows "\<exists>ks db'. results rok re q db = Some (map (Inr \<circ> Inr) ks, db') \<and> same_reads db db' \<and> sorted_wrt (<) ks \<and>
    set ks = {k. \<exists>r. string_key (m_data db) f r = Some k \<and> record_holds re db c r}"
proof -
  obtain rx where rx: "compile_regexes rok 0 (m_restrictions q) [] = Some rx"
    "sq_ok (m_nfields db) (Some \<lparr>sq_query = q, m_regexes = rx\<rparr>)"
    using executable_compiles [OF ex] by blast
  let ?sq = "\<lparr>sq_query = q, m_regexes = rx\<rparr>" and ?i = "m_stringindexes db ! f"
  let ?ks = "map fst (filter (\<lambda>(k, s). some_matches re (Some ?sq) db s) ?i)"
  have sm: "smap_ok ?i"
    by (rule steam_index_ok [OF ok f(1)])
  have tr: "index_tracks ?i True (string_key (m_data db) f)"
    by (rule field_index_on(2) [OF ok f])
  have m: "some_matches re (Some ?sq) db s \<longleftrightarrow> (\<exists>r\<in>set s. record_holds re db c r)" for s
    using record_matches_holds [OF ok rx(2)] d by (simp add: some_matches_def)
  have "set ?ks = {k. \<exists>r. string_key (m_data db) f r = Some k \<and> record_holds re db c r}" (is "_ = ?K")
  proof (intro set_eqI iffI)
    fix k assume "k \<in> set ?ks"
    then obtain s r where "(k, s) \<in> set ?i" "r \<in> set s" "record_holds re db c r"
      by (auto simp: m)
    then show "k \<in> ?K"
      using index_tracks_entry [OF tr] by blast
  next
    fix k assume "k \<in> ?K"
    then obtain r where r: "string_key (m_data db) f r = Some k" "record_holds re db c r" by blast
    then have "r \<in> set (index_get ?i k)"
      using tr by (simp add: index_tracks_def index_postings_def)
    moreover from this have "(k, index_get ?i k) \<in> set ?i"
      using index_get_find [of ?i k] smap_in_set [OF sm] by fastforce
    ultimately show "k \<in> set ?ks"
      using r(2) by (force simp: m)
  qed
  moreover have "sorted_wrt (<) ?ks"
    using smap_ok_filter [OF sm] unfolding smap_ok_def by blast
  moreover obtain db' where "results rok re q db = Some (map (Inr \<circ> Inr) ?ks, db')" "same_reads db db'"
    using Execute_collate [OF ok ex cl f(1,2) rx, of re] f(3) by (auto simp: comp_assoc)
  ultimately show ?thesis
    by blast
qed

definition example_collate :: query where
  "example_collate = example_lt\<lparr>m_collateby := [1]\<rparr>"

lemma example_collate_facts:
  "executable (\<lambda>_. True) example_db example_collate" "denotes example_collate (m_root example_collate) example_condition"
  using denotes_test [of 1 example_collate]
  by (simp_all add: executable_def example_collate_def example_lt_def query_ok_def elem_ok_def supported_def
      int_restriction_def example_condition_def)

lemma CollateBy_string_results_witness:
  "\<exists>ks db'. results (\<lambda>_. True) (\<lambda>_ _. True) example_collate example_db = Some (map (Inr \<circ> Inr) ks, db') \<and>
    same_reads example_db db' \<and> sorted_wrt (<) ks \<and>
    set ks = {k. \<exists>r. string_key (m_data example_db) 1 r = Some k \<and> record_holds (\<lambda>_ _. True) example_db example_condition r}"
  by (rule CollateBy_string_results [OF example_db_ok example_collate_facts(1) _ _ _ _ example_collate_facts(2)])
    (simp_all add: example_collate_def)

text \<open>Collating by an indexed integer field delivers all numbers that any record has in it, in
  ascending order, whatever the condition of the query.\<close>

theorem CollateBy_int_results:
  assumes ok: "steam_ok db" and ex: "executable rok db q" and cl: "m_collateby q = [f]"
    and f: "f < m_nfields db" "is_indexed (m_fields db ! f)" "is_int_type (m_fields db ! f)"
  shows "\<exists>ks db'. results rok re q db = Some (map (Inr \<circ> Inl) ks, db') \<and> same_reads db db' \<and> sorted_wrt (<) ks \<and>
    set ks = {n. \<exists>r. int_key (m_data db) f r = Some n}"
proof -
  obtain rx where rx: "compile_regexes rok 0 (m_restrictions q) [] = Some rx"
    "sq_ok (m_nfields db) (Some \<lparr>sq_query = q, m_regexes = rx\<rparr>)"
    using executable_compiles [OF ex] by blast
  obtain db' where "results rok re q db = Some (map (Inr \<circ> Inl) (map fst (m_intindexes db ! f)), db')" "same_reads db db'"
    using Execute_collate [OF ok ex cl f(1,2) rx, of re] f(3) by (auto simp: comp_assoc)
  then show ?thesis
    using int_index_keys [OF ok f] by blast
qed

lemma CollateBy_int_results_witness:
  "\<exists>ks db'. results (\<lambda>_. True) (\<lambda>_ _. True) (new_query\<lparr>m_collateby := [0]\<rparr>) example_db = Some (map (Inr \<circ> Inl) ks, db') \<and>
    same_reads example_db db' \<and> sorted_wrt (<) ks \<and> set ks = {n. \<exists>r. int_key (m_data example_db) 0 r = Some n}"
  by (rule CollateBy_int_results [OF example_db_ok])
    (simp_all add: executable_def new_query_def query_ok_def)

end
