(* ===== verification/Diff.thy ===== *)
theory Diff
  imports Prelude "HOL-Library.Sublist"
begin

text \<open>
  libutil/diff.h: the edit script between two sequences, by dynamic programming with two rows. A
  row has a cost and a partial script for each prefix of the second sequence. The positions in a
  script count from 1. Sequences are shorter than \<open>2^32\<close>, as the 32-bit counters need.
\<close>

section \<open>The program\<close>

record diff_partial =
  dp_deletions :: "bool list"
  dp_additions :: "bool list"

type_synonym diff_cell = "u32 \<times> diff_partial"

definition set_addition :: "nat \<Rightarrow> diff_partial \<Rightarrow> diff_partial" where
  "set_addition j d = d\<lparr>dp_additions := (dp_additions d)[j := True]\<rparr>"

definition set_deletion :: "nat \<Rightarrow> diff_partial \<Rightarrow> diff_partial" where
  "set_deletion i d = d\<lparr>dp_deletions := (dp_deletions d)[i := True]\<rparr>"

text \<open>The first row from \<open>p[j-1]\<close> on.\<close>

fun diff_first_row :: "nat \<Rightarrow> nat \<Rightarrow> diff_cell \<Rightarrow> diff_cell list" where
  "diff_first_row j 0 c = []"
| "diff_first_row j (Suc n) c =
     (let c = (fst c + 1, set_addition j (snd c)) in c # diff_first_row (j + 1) n c)"

definition diff_cell :: "'a \<Rightarrow> 'a \<Rightarrow> nat \<Rightarrow> nat \<Rightarrow> diff_cell \<Rightarrow> diff_cell \<Rightarrow> diff_cell \<Rightarrow> diff_cell" where
  "diff_cell x y i j diag up left =
     (let cost = (if x = y then fst diag else - 1);
          cost_add = fst left + 1;
          (cost, edit) = (if cost_add < cost then (cost_add, 1::nat) else (cost, 0));
          cost_del = fst up + 1;
          (cost, edit) = (if cost_del < cost then (cost_del, 2) else (cost, edit))
      in (cost,
          if edit = 1 then set_addition j (snd left)
          else if edit = 2 then set_deletion i (snd up)
          else snd diag))"

fun diff_row :: "'a \<Rightarrow> nat \<Rightarrow> nat \<Rightarrow> 'a list \<Rightarrow> diff_cell list \<Rightarrow> diff_cell \<Rightarrow> diff_cell list" where
  "diff_row x i j (y # ys) (pl # pc # p) ql =
     (let qc = diff_cell x y i j pl pc ql in qc # diff_row x i (j + 1) ys (pc # p) qc)"
| "diff_row x i j _ _ ql = []"

fun diff_rows :: "nat \<Rightarrow> 'a list \<Rightarrow> 'a list \<Rightarrow> diff_cell list \<Rightarrow> diff_cell list" where
  "diff_rows i [] s2 p = p"
| "diff_rows i (x # xs) s2 p =
     (let q0 = (fst (hd p) + 1, set_deletion i (snd (hd p)))
      in diff_rows (i + 1) xs s2 (q0 # diff_row x i 1 s2 p q0))"

definition bit_positions :: "bool list \<Rightarrow> nat list" where
  "bit_positions bs = filter (\<lambda>j. bs ! j) [0..<length bs]"

definition Diff :: "'a list \<Rightarrow> 'a list \<Rightarrow> u32 \<times> nat list \<times> nat list" where
  "Diff s1 s2 =
     (let len1 = length s1; len2 = length s2;
          c0 = (0, \<lparr>dp_deletions = replicate (len1 + 1) False, dp_additions = replicate (len2 + 1) False\<rparr>);
          p = diff_rows 1 s1 s2 (c0 # diff_first_row 1 len2 c0);
          (dist, res) = p ! len2
      in (dist, bit_positions (dp_deletions res), bit_positions (dp_additions res)))"

section \<open>Scripts\<close>

text \<open>What is left of a sequence without the marked positions; a mark is at one more than the
  list index of its element.\<close>

definition unmarked :: "bool list \<Rightarrow> 'a list \<Rightarrow> 'a list" where
  "unmarked bs xs = map fst (filter (\<lambda>(x, b). \<not> b) (zip xs (drop 1 bs)))"

definition marks :: "bool list \<Rightarrow> nat" where
  "marks bs = length (filter id bs)"

definition script_ok :: "'a list \<Rightarrow> 'a list \<Rightarrow> nat \<Rightarrow> nat \<Rightarrow> diff_cell \<Rightarrow> bool" where
  "script_ok s1 s2 i j c \<longleftrightarrow>
     (let del = dp_deletions (snd c); add = dp_additions (snd c) in
      length del = length s1 + 1 \<and> length add = length s2 + 1 \<and>
      (\<forall>k\<le>length s1. k = 0 \<or> i < k \<longrightarrow> \<not> del ! k) \<and>
      (\<forall>k\<le>length s2. k = 0 \<or> j < k \<longrightarrow> \<not> add ! k) \<and>
      unmarked del (take i s1) = unmarked add (take j s2) \<and>
      unat (fst c) = marks del + marks add)"

definition cost_minimal :: "'a list \<Rightarrow> 'a list \<Rightarrow> nat \<Rightarrow> nat \<Rightarrow> diff_cell \<Rightarrow> bool" where
  "cost_minimal s1 s2 i j c \<longleftrightarrow>
     (\<forall>cs. subseq cs (take i s1) \<longrightarrow> subseq cs (take j s2) \<longrightarrow> unat (fst c) + 2 * length cs \<le> i + j)"

definition cell_ok :: "'a list \<Rightarrow> 'a list \<Rightarrow> nat \<Rightarrow> nat \<Rightarrow> diff_cell \<Rightarrow> bool" where
  "cell_ok s1 s2 i j c \<longleftrightarrow> script_ok s1 s2 i j c \<and> cost_minimal s1 s2 i j c"

lemma marks_set: "i < length bs \<Longrightarrow> \<not> bs ! i \<Longrightarrow> marks (bs[i := True]) = Suc (marks bs)"
  unfolding marks_def
  by (subst (2) id_take_nth_drop [of i bs], simp, subst upd_conv_take_nth_drop, simp_all)

lemma unmarked_set:
  "i < length xs \<Longrightarrow> length xs < length bs \<Longrightarrow> unmarked (bs[Suc i := True]) (take (Suc i) xs) = unmarked bs (take i xs)"
proof -
  assume i: "i < length xs" "length xs < length bs"
  have d: "drop 1 (bs[Suc i := True]) = (drop 1 bs)[i := True]"
    by (simp add: drop_update_swap)
  have "zip (take (Suc i) xs) ((drop 1 bs)[i := True]) = zip (take i xs) (drop 1 bs) @ [(xs ! i, True)]"
    using i by (intro nth_equalityI) (auto simp: nth_append nth_list_update less_Suc_eq)
  then show ?thesis
    unfolding unmarked_def d by simp
qed

lemma unmarked_keep:
  "i < length xs \<Longrightarrow> length xs < length bs \<Longrightarrow> \<not> bs ! Suc i \<Longrightarrow>
     unmarked bs (take (Suc i) xs) = unmarked bs (take i xs) @ [xs ! i]"
proof -
  assume i: "i < length xs" "length xs < length bs" "\<not> bs ! Suc i"
  have "zip (take (Suc i) xs) (drop 1 bs) = zip (take i xs) (drop 1 bs) @ [(xs ! i, False)]"
    using i by (intro nth_equalityI) (auto simp: nth_append less_Suc_eq)
  then show ?thesis
    unfolding unmarked_def by simp
qed

lemma subseq_snoc_cases:
  assumes "subseq cs (xs @ [x])"
  obtains "subseq cs xs" | cs' where "cs = cs' @ [x]" "subseq cs' xs"
proof -
  obtain c1 c2 where c: "cs = c1 @ c2" "subseq c1 xs" "subseq c2 [x]"
    using assms by (auto simp: subseq_append_iff)
  then have "c2 = [] \<or> c2 = [x]"
    by (cases c2) (auto split: if_splits)
  then show ?thesis
    using c that by auto
qed

lemma unat_add_1: "unat (w :: u32) < 2 ^ 32 - 1 \<Longrightarrow> unat (w + 1) = unat w + 1"
  by (simp add: unat_word_ariths(1) del: of_nat_add)

lemma cost_bound: "cost_minimal s1 s2 i j c \<Longrightarrow> unat (fst c) \<le> i + j"
  unfolding cost_minimal_def by (drule spec [of _ "[]"]) simp

lemma script_add:
  assumes "script_ok s1 s2 i j c" "j < length s2" "unat (fst c) < 2 ^ 32 - 1"
  shows "script_ok s1 s2 i (Suc j) (fst c + 1, set_addition (Suc j) (snd c))"
  using assms unat_add_1 [OF assms(3)]
  by (simp add: script_ok_def Let_def set_addition_def unmarked_set marks_set nth_list_update)

lemma script_del:
  assumes "script_ok s1 s2 i j c" "i < length s1" "unat (fst c) < 2 ^ 32 - 1"
  shows "script_ok s1 s2 (Suc i) j (fst c + 1, set_deletion (Suc i) (snd c))"
  using assms unat_add_1 [OF assms(3)]
  by (simp add: script_ok_def Let_def set_deletion_def unmarked_set marks_set nth_list_update)

lemma script_keep:
  assumes "script_ok s1 s2 i j c" "i < length s1" "j < length s2" "s1 ! i = s2 ! j"
  shows "script_ok s1 s2 (Suc i) (Suc j) c"
  using assms by (simp add: script_ok_def Let_def unmarked_keep)

section \<open>Cells, rows and the whole table\<close>

lemma diff_cell_ok:
  assumes diag: "cell_ok s1 s2 i j diag" and up: "cell_ok s1 s2 i (Suc j) up" and left: "cell_ok s1 s2 (Suc i) j left"
    and i: "i < length s1" and j: "j < length s2" and n: "length s1 + length s2 < 2 ^ 32 - 1"
  shows "cell_ok s1 s2 (Suc i) (Suc j) (diff_cell (s1 ! i) (s2 ! j) (Suc i) (Suc j) diag up left)"
proof -
  have bd: "unat (fst diag) \<le> i + j" "unat (fst up) \<le> i + Suc j" "unat (fst left) \<le> Suc i + j"
    using diag up left by (auto simp: cell_ok_def dest: cost_bound)
  then have lt: "unat (fst up) < 2 ^ 32 - 1" "unat (fst left) < 2 ^ 32 - 1"
    using i j n by linarith+
  note one = unat_add_1 [OF lt(1)] unat_add_1 [OF lt(2)]
  let ?c = "diff_cell (s1 ! i) (s2 ! j) (Suc i) (Suc j) diag up left"
  have max: "unat (- 1 :: u32) = 2 ^ 32 - 1"
    by (simp add: unsigned_minus_1_eq_mask mask_eq_exp_minus_1)
  have less: "unat (fst up) + 1 < 2 ^ 32 - 1" "unat (fst left) + 1 < 2 ^ 32 - 1"
    using bd i j n by linarith+
  have scripts: "script_ok s1 s2 (Suc i) (Suc j) (fst left + 1, set_addition (Suc j) (snd left))"
    "script_ok s1 s2 (Suc i) (Suc j) (fst up + 1, set_deletion (Suc i) (snd up))"
    "s1 ! i = s2 ! j \<Longrightarrow> script_ok s1 s2 (Suc i) (Suc j) diag"
    using diag up left i j lt by (auto simp: cell_ok_def intro: script_add script_del script_keep)
  have cost: "unat (fst ?c) \<le> unat (fst up) + 1" "unat (fst ?c) \<le> unat (fst left) + 1"
    "s1 ! i = s2 ! j \<Longrightarrow> unat (fst ?c) \<le> unat (fst diag)"
    using less by (auto simp: diff_cell_def Let_def word_less_nat_alt one max)
  have "script_ok s1 s2 (Suc i) (Suc j) ?c"
    using scripts less by (auto simp: diff_cell_def Let_def word_less_nat_alt one max)
  moreover have "cost_minimal s1 s2 (Suc i) (Suc j) ?c"
    unfolding cost_minimal_def
  proof (intro allI impI)
    fix cs
    assume a: "subseq cs (take (Suc i) s1)" and b: "subseq cs (take (Suc j) s2)"
    have ta: "take (Suc i) s1 = take i s1 @ [s1 ! i]" and tb: "take (Suc j) s2 = take j s2 @ [s2 ! j]"
      using i j by (simp_all add: take_Suc_conv_app_nth)
    from a [unfolded ta] show "unat (fst ?c) + 2 * length cs \<le> Suc i + Suc j"
    proof (cases rule: subseq_snoc_cases)
      case 1
      then have "unat (fst up) + 2 * length cs \<le> i + Suc j"
        using up b by (simp add: cell_ok_def cost_minimal_def)
      then show ?thesis
        using cost(1) by linarith
    next
      case (2 c1)
      note c1 = this
      from b [unfolded tb] show ?thesis
      proof (cases rule: subseq_snoc_cases)
        case 1
        then have "unat (fst left) + 2 * length cs \<le> Suc i + j"
          using left a by (simp add: cell_ok_def cost_minimal_def)
        then show ?thesis
          using cost(2) by linarith
      next
        case (2 c2)
        with c1 have "c2 = c1" "s1 ! i = s2 ! j"
          by auto
        moreover have "unat (fst diag) + 2 * length c1 \<le> i + j"
          using diag c1 2 \<open>c2 = c1\<close> by (simp add: cell_ok_def cost_minimal_def)
        ultimately show ?thesis
          using cost(3) c1 by simp
      qed
    qed
  qed
  ultimately show ?thesis
    by (simp add: cell_ok_def)
qed

definition row_cells_ok :: "'a list \<Rightarrow> 'a list \<Rightarrow> nat \<Rightarrow> nat \<Rightarrow> diff_cell list \<Rightarrow> bool" where
  "row_cells_ok s1 s2 i j cs \<longleftrightarrow> j + length cs = length s2 + 1 \<and> (\<forall>k<length cs. cell_ok s1 s2 i (j + k) (cs ! k))"

lemma row_cells_ok_Cons:
  "row_cells_ok s1 s2 i j (c # cs) \<longleftrightarrow> cell_ok s1 s2 i j c \<and> row_cells_ok s1 s2 i (Suc j) cs"
  by (auto simp: row_cells_ok_def nth_Cons split: nat.splits)

lemma drop_Cons_nth:
  assumes "drop i xs = y # ys"
  shows "i < length xs" "y = xs ! i" "drop (Suc i) xs = ys"
proof -
  show i: "i < length xs"
  proof (rule ccontr)
    assume "\<not> i < length xs"
    then show False
      using assms by simp
  qed
  show "y = xs ! i" "drop (Suc i) xs = ys"
    using Cons_nth_drop_Suc [OF i] assms by simp_all
qed

lemma diff_row_ok:
  assumes "row_cells_ok s1 s2 i j p" "cell_ok s1 s2 (Suc i) j ql" "i < length s1" "j \<le> length s2"
    "length s1 + length s2 < 2 ^ 32 - 1"
  shows "row_cells_ok s1 s2 (Suc i) (Suc j) (diff_row (s1 ! i) (Suc i) (Suc j) (drop j s2) p ql)"
  using assms
proof (induction "drop j s2" arbitrary: j p ql)
  case Nil
  then show ?case
    by (simp add: row_cells_ok_def)
next
  case (Cons y ys)
  have j: "j < length s2" "y = s2 ! j" "drop (Suc j) s2 = ys"
    using drop_Cons_nth [OF Cons.hyps(2) [symmetric]] by simp_all
  obtain pl pc p' where p: "p = pl # pc # p'"
    using Cons.prems(1) j(1) by (cases p; cases "tl p") (auto simp: row_cells_ok_def)
  let ?qc = "diff_cell (s1 ! i) (s2 ! j) (Suc i) (Suc j) pl pc ql"
  have cells: "cell_ok s1 s2 i j pl" "cell_ok s1 s2 i (Suc j) pc" and rest: "row_cells_ok s1 s2 i (Suc j) (pc # p')"
    using Cons.prems(1) by (simp_all add: p row_cells_ok_Cons)
  have qc: "cell_ok s1 s2 (Suc i) (Suc j) ?qc"
    by (rule diff_cell_ok [OF cells Cons.prems(2,3) j(1) Cons.prems(5)])
  have "diff_row (s1 ! i) (Suc i) (Suc j) (drop j s2) p ql =
      ?qc # diff_row (s1 ! i) (Suc i) (Suc (Suc j)) (drop (Suc j) s2) (pc # p') ?qc"
    using Cons.hyps(2) [symmetric] j(2,3) by (simp add: p Let_def)
  then show ?case
    using Cons.hyps(1) [OF j(3) [symmetric] rest qc Cons.prems(3) _ Cons.prems(5)] j qc
    by (simp add: row_cells_ok_Cons)
qed

lemma diff_rows_ok:
  assumes "row_cells_ok s1 s2 i 0 p" "i \<le> length s1" "length s1 + length s2 < 2 ^ 32 - 1"
  shows "row_cells_ok s1 s2 (length s1) 0 (diff_rows (Suc i) (drop i s1) s2 p)"
  using assms
proof (induction "drop i s1" arbitrary: i p)
  case Nil
  then show ?case
    by simp
next
  case (Cons x xs)
  have i: "i < length s1" "x = s1 ! i" "drop (Suc i) s1 = xs"
    using drop_Cons_nth [OF Cons.hyps(2) [symmetric]] by simp_all
  obtain c p' where p: "p = c # p'"
    using Cons.prems(1) by (cases p) (auto simp: row_cells_ok_def)
  have c: "cell_ok s1 s2 i 0 c"
    using Cons.prems(1) by (simp add: p row_cells_ok_Cons)
  let ?q0 = "(fst c + 1, set_deletion (Suc i) (snd c))"
  have bd: "unat (fst c) \<le> i"
    using c cost_bound [of s1 s2 i 0 c] by (simp add: cell_ok_def)
  then have lt: "unat (fst c) < 2 ^ 32 - 1"
    using i Cons.prems(3) by linarith
  have "cell_ok s1 s2 (Suc i) 0 ?q0"
    using c script_del [of s1 s2 i 0 c] i(1) lt bd unat_add_1 [OF lt]
    by (auto simp: cell_ok_def cost_minimal_def dest!: list_emb_Nil2)
  then have row: "row_cells_ok s1 s2 (Suc i) 0 (?q0 # diff_row (s1 ! i) (Suc i) 1 s2 p ?q0)"
    using diff_row_ok [OF Cons.prems(1) _ i(1) _ Cons.prems(3), of ?q0] by (simp add: row_cells_ok_Cons)
  have "diff_rows (Suc i) (drop i s1) s2 p =
      diff_rows (Suc (Suc i)) (drop (Suc i) s1) s2 (?q0 # diff_row (s1 ! i) (Suc i) 1 s2 p ?q0)"
    using Cons.hyps(2) [symmetric] i(2,3) by (simp add: p Let_def)
  then show ?case
    using Cons.hyps(1) [OF i(3) [symmetric] row _ Cons.prems(3)] i(1) by simp
qed

lemma marks_replicate [simp]: "marks (replicate n False) = 0"
  by (induction n) (simp_all add: marks_def)

lemma diff_first_row_ok:
  assumes "cell_ok s1 s2 0 j c" "j + n = length s2" "length s2 < 2 ^ 32 - 1"
  shows "row_cells_ok s1 s2 0 j (c # diff_first_row (Suc j) n c)"
  using assms
proof (induction n arbitrary: j c)
  case 0
  then show ?case
    by (simp add: row_cells_ok_def)
next
  case (Suc n)
  let ?c = "(fst c + 1, set_addition (Suc j) (snd c))"
  have bd: "unat (fst c) \<le> j"
    using Suc.prems(1) cost_bound [of s1 s2 0 j c] by (simp add: cell_ok_def)
  then have lt: "unat (fst c) < 2 ^ 32 - 1"
    using Suc.prems by linarith
  have "script_ok s1 s2 0 (Suc j) ?c"
    using Suc.prems lt by (intro script_add) (simp_all add: cell_ok_def)
  moreover have "cost_minimal s1 s2 0 (Suc j) ?c"
    using bd unat_add_1 [OF lt] by (auto simp: cost_minimal_def dest!: list_emb_Nil2)
  ultimately have "row_cells_ok s1 s2 0 (Suc j) (?c # diff_first_row (Suc (Suc j)) n ?c)"
    using Suc.IH [of "Suc j" ?c] Suc.prems by (simp add: cell_ok_def)
  then show ?case
    using Suc.prems(1) by (simp add: row_cells_ok_Cons Let_def)
qed

lemma set_bit_positions: "j \<in> set (bit_positions bs) \<longleftrightarrow> j < length bs \<and> bs ! j"
  by (auto simp: bit_positions_def)

lemma unmarked_nths:
  assumes "length bs = length xs + 1" "\<not> bs ! 0"
  shows "unmarked bs xs = nths xs {k. Suc k \<notin> set (bit_positions bs)}"
proof -
  have 1: "zip xs (drop 1 bs) = map (\<lambda>k. (xs ! k, bs ! Suc k)) [0..<length xs]"
    using assms by (intro nth_equalityI) auto
  have 2: "zip xs [0..<length xs] = map (\<lambda>k. (xs ! k, k)) [0..<length xs]"
    by (intro nth_equalityI) auto
  have "map (\<lambda>k. xs ! k) (filter (\<lambda>k. \<not> bs ! Suc k) [0..<length xs]) =
      map (\<lambda>k. xs ! k) (filter (\<lambda>k. Suc k \<notin> set (bit_positions bs)) [0..<length xs])"
    using assms by (intro arg_cong [where f = "map _"] filter_cong) (simp_all add: set_bit_positions)
  then show ?thesis
    unfolding unmarked_def nths_def 1 2 by (simp add: filter_map comp_def)
qed

lemma bit_positions_length: "length (bit_positions bs) = marks bs"
proof -
  have "length (filter id (map ((!) bs) [0..<length bs])) = length (bit_positions bs)"
    by (simp only: filter_map length_map comp_def id_apply bit_positions_def)
  then show ?thesis
    by (simp only: map_nth marks_def)
qed

lemma Diff_edits:
  assumes "length s1 + length s2 < 2 ^ 32 - 1" "Diff s1 s2 = (dist, dels, adds)"
  shows "nths s1 {k. Suc k \<notin> set dels} = nths s2 {k. Suc k \<notin> set adds} \<and>
    unat dist = length dels + length adds \<and> set dels \<subseteq> {1..length s1} \<and> set adds \<subseteq> {1..length s2} \<and>
    (\<forall>cs. subseq cs s1 \<longrightarrow> subseq cs s2 \<longrightarrow> unat dist + 2 * length cs \<le> length s1 + length s2)"
proof -
  let ?d0 = "\<lparr>dp_deletions = replicate (length s1 + 1) False, dp_additions = replicate (length s2 + 1) False\<rparr>"
  let ?rows = "diff_rows 1 s1 s2 ((0, ?d0) # diff_first_row 1 (length s2) (0, ?d0))"
  have "cell_ok s1 s2 0 0 (0, ?d0)"
    by (auto simp: cell_ok_def script_ok_def cost_minimal_def unmarked_def nth_Cons dest!: list_emb_Nil2
        simp del: replicate.simps)
  then have "row_cells_ok s1 s2 0 0 ((0, ?d0) # diff_first_row 1 (length s2) (0, ?d0))"
    using diff_first_row_ok [of s1 s2 0 "(0, ?d0)" "length s2"] assms(1) by simp
  then have "row_cells_ok s1 s2 (length s1) 0 ?rows"
    using diff_rows_ok [of s1 s2 0] assms(1) by simp
  then have "cell_ok s1 s2 (length s1) (length s2) (?rows ! length s2)"
    by (simp add: row_cells_ok_def)
  moreover obtain c res where c: "?rows ! length s2 = (c, res)"
    by fastforce
  ultimately have ok: "cell_ok s1 s2 (length s1) (length s2) (c, res)"
    by simp
  have eq: "dist = c" "dels = bit_positions (dp_deletions res)" "adds = bit_positions (dp_additions res)"
    using assms(2) c by (simp_all add: Diff_def Let_def)
  have lens: "length (dp_deletions res) = length s1 + 1" "length (dp_additions res) = length s2 + 1"
    and zero: "\<not> dp_deletions res ! 0" "\<not> dp_additions res ! 0"
    using ok by (auto simp: cell_ok_def script_ok_def Let_def)
  have sub: "set (bit_positions bs) \<subseteq> {1..n}" if "length bs = n + 1" "\<not> bs ! 0" for bs n
  proof
    fix j assume "j \<in> set (bit_positions bs)"
    then have "j < n + 1" "bs ! j"
      using that(1) by (simp_all add: set_bit_positions)
    moreover from this have "j \<noteq> 0"
      using that(2) by (metis)
    ultimately show "j \<in> {1..n}"
      by simp
  qed
  have "nths s1 {k. Suc k \<notin> set dels} = nths s2 {k. Suc k \<notin> set adds}" "unat dist = length dels + length adds"
    using ok by (simp_all add: cell_ok_def script_ok_def Let_def eq unmarked_nths lens zero bit_positions_length)
  moreover have "\<forall>cs. subseq cs s1 \<longrightarrow> subseq cs s2 \<longrightarrow> unat dist + 2 * length cs \<le> length s1 + length s2"
    using ok by (simp add: cell_ok_def cost_minimal_def eq)
  ultimately show ?thesis
    using sub [OF lens(1) zero(1)] sub [OF lens(2) zero(2)] eq(2,3) by blast
qed

text \<open>C13: \<^verbatim>\<open>Diff\<close> finds a shortest edit script: without the positions to delete, the first
  sequence is the second one without the positions to add; the distance it returns is the number of
  edits; and no common subsequence leaves fewer edits.\<close>

theorem Diff_shortest:
  assumes "length s1 + length s2 < 2 ^ 32 - 1" "Diff s1 s2 = (dist, dels, adds)"
  shows "nths s1 {k. Suc k \<notin> set dels} = nths s2 {k. Suc k \<notin> set adds} \<and>
    unat dist = length dels + length adds \<and> set dels \<subseteq> {1..length s1} \<and> set adds \<subseteq> {1..length s2} \<and>
    (\<forall>cs. subseq cs s1 \<longrightarrow> subseq cs s2 \<longrightarrow> unat dist + 2 * length cs \<le> length s1 + length s2)"
  using assms by (rule Diff_edits)

lemma Diff_shortest_witness:
  "\<exists>dist dels adds. Diff ''abc'' ''acd'' = (dist, dels, adds) \<and>
    nths ''abc'' {k. Suc k \<notin> set dels} = nths ''acd'' {k. Suc k \<notin> set adds} \<and>
    unat dist = length dels + length adds"
  using Diff_shortest [of "''abc''" "''acd''" "fst (Diff ''abc'' ''acd'')" "fst (snd (Diff ''abc'' ''acd''))"
      "snd (snd (Diff ''abc'' ''acd''))"]
  by (intro exI [of _ "fst (Diff ''abc'' ''acd'')"] exI [of _ "fst (snd (Diff ''abc'' ''acd''))"]
      exI [of _ "snd (snd (Diff ''abc'' ''acd''))"]) simp

end
