(* ===== verification/Merge.thy ===== *)
theory Merge
  imports Query Schema
begin

text \<open>
  libdbmerge/db.cpp: several media databases presented as one. An identifier carries the number of
  its database in its top eight bits. The databases underneath are values of any type; what the
  merger asks of them (executing a query, the URL of an item, ...) is an argument of the definitions.
  A recordset is seen through its end flag and its two readings.
\<close>

section \<open>The set of databases\<close>

fun fill_slot :: "'d \<Rightarrow> 'd option list \<Rightarrow> 'd option list option" where
  "fill_slot d [] = None"
| "fill_slot d (None # ds) = Some (Some d # ds)"
| "fill_slot d (Some e # ds) = map_option (Cons (Some e)) (fill_slot d ds)"

definition AddDatabase :: "'d \<Rightarrow> 'd option list \<Rightarrow> u32 \<times> 'd option list" where
  "AddDatabase d ds =
     (case fill_slot d ds of Some ds' \<Rightarrow> (0, ds')
      | None \<Rightarrow> if length ds \<ge> 256 then (ENOSPC, ds) else (0, ds @ [Some d]))"

fun clear_slot :: "'d \<Rightarrow> 'd option list \<Rightarrow> 'd option list" where
  "clear_slot d [] = []"
| "clear_slot d (e # ds) = (if e = Some d then None # ds else e # clear_slot d ds)"

definition RemoveDatabase :: "'d \<Rightarrow> 'd option list \<Rightarrow> u32 \<times> 'd option list" where
  "RemoveDatabase d ds = (0, clear_slot d ds)"

definition Merge_AllocateID :: "('d \<Rightarrow> u32 \<times> 'd) \<Rightarrow> 'd option list \<Rightarrow> u32 \<times> 'd option list" where
  "Merge_AllocateID alloc ds =
     (case ds of Some d # ds' \<Rightarrow> (let (n, d) = alloc d in (n, Some d # ds')) | _ \<Rightarrow> (0, ds))"

definition route :: "'d option list \<Rightarrow> u32 \<Rightarrow> ('d \<times> u32) option" where
  "route ds fid =
     (let db = unat (drop_bit 24 fid) in
      if db \<ge> length ds then None
      else case ds ! db of None \<Rightarrow> None | Some d \<Rightarrow> Some (d, fid AND 0xFFFFFF))"

definition Merge_GetURL :: "('d \<Rightarrow> u32 \<Rightarrow> string) \<Rightarrow> 'd option list \<Rightarrow> u32 \<Rightarrow> string" where
  "Merge_GetURL geturl ds fid = (case route ds fid of None \<Rightarrow> [] | Some (d, i) \<Rightarrow> geturl d i)"

definition Merge_OpenRead :: "('d \<Rightarrow> u32 \<Rightarrow> 's option) \<Rightarrow> 'd option list \<Rightarrow> u32 \<Rightarrow> 's option" where
  "Merge_OpenRead openread ds fid = (case route ds fid of None \<Rightarrow> None | Some (d, i) \<Rightarrow> openread d i)"

definition Merge_OpenWrite :: "('d \<Rightarrow> u32 \<Rightarrow> 's option) \<Rightarrow> 'd option list \<Rightarrow> u32 \<Rightarrow> 's option" where
  "Merge_OpenWrite openwrite ds fid = (case route ds fid of None \<Rightarrow> None | Some (d, i) \<Rightarrow> openwrite d i)"

definition Merge_CreateRecordset :: "('d \<Rightarrow> 'r) \<Rightarrow> 'd option list \<Rightarrow> 'r option" where
  "Merge_CreateRecordset create ds = (case ds of Some d # _ \<Rightarrow> Some (create d) | _ \<Rightarrow> None)"

section \<open>Recordsets with identifiers rewritten\<close>

record rs_view =
  v_eof :: bool
  v_int :: "nat \<Rightarrow> u32"
  v_str :: "nat \<Rightarrow> string"

definition tag_id :: "u32 \<Rightarrow> u32 \<Rightarrow> u32" where
  "tag_id i v = v OR push_bit 24 i"

definition is_id_field :: "nat \<Rightarrow> bool" where
  "is_id_field which \<longleftrightarrow> which = field_ID \<or> which = field_IDPARENT \<or> which = field_IDHIGH"

definition Wrap_GetInteger :: "u32 \<Rightarrow> rs_view \<Rightarrow> nat \<Rightarrow> u32" where
  "Wrap_GetInteger m_id rs which =
     (let result = v_int rs which in
      if is_id_field which \<and> result \<noteq> BROWSE_ROOT \<and> result \<noteq> 0 then tag_id m_id result else result)"

definition Wrap_GetString :: "u32 \<Rightarrow> rs_view \<Rightarrow> nat \<Rightarrow> string option" where
  "Wrap_GetString m_id rs which =
     (let result = v_str rs which in
      if which = field_CHILDREN \<and> result \<noteq> [] then do {
        children \<leftarrow> ChildrenToVector result;
        Some (VectorToChildren (map (tag_id m_id) children)) }
      else Some result)"

text \<open>The setters call the setter of the recordset underneath, on a changed value.\<close>

definition Wrap_SetInteger :: "(nat \<Rightarrow> u32 \<Rightarrow> 'r) \<Rightarrow> nat \<Rightarrow> u32 \<Rightarrow> 'r" where
  "Wrap_SetInteger set_integer which val =
     set_integer which (if is_id_field which then val AND 0xFFFFFF else val)"

definition Wrap_SetString :: "(nat \<Rightarrow> string \<Rightarrow> 'r) \<Rightarrow> nat \<Rightarrow> string \<Rightarrow> 'r option" where
  "Wrap_SetString set_string which val =
     (if which \<noteq> field_CHILDREN \<or> val = [] then Some (set_string which val)
      else do {
        children \<leftarrow> ChildrenToVector val;
        Some (set_string which (VectorToChildren (map (\<lambda>c. c AND 0xFFFFFF) children))) })"

text \<open>The query \<^verbatim>\<open>ID == n\<close>.\<close>

definition id_query :: "u32 \<Rightarrow> query option" where
  "id_query n =
     (let (e, q) = Restrict_int field_ID EQ n new_query in do { (_, q) \<leftarrow> Where e q; Some q })"

text \<open>The children of the roots of all databases, each with its tag; \<^verbatim>\<open>exec\<close> executes a
  query on a database and gives the recordset, or none for a null pointer.\<close>

fun root_children :: "('d \<Rightarrow> query \<Rightarrow> rs_view option) \<Rightarrow> u32 \<Rightarrow> 'd option list \<Rightarrow> u32 list option" where
  "root_children exec i [] = Some []"
| "root_children exec i (None # ds) = root_children exec (i + 1) ds"
| "root_children exec i (Some d # ds) = do {
     q \<leftarrow> id_query BROWSE_ROOT;
     these \<leftarrow> (case exec d q of None \<Rightarrow> Some []
       | Some rs \<Rightarrow> if v_eof rs then Some [] else ChildrenToVector (v_str rs field_CHILDREN));
     rest \<leftarrow> root_children exec (i + 1) ds;
     Some (map (tag_id i) these @ rest) }"

text \<open>The result, and the value of \<^verbatim>\<open>m_children\<close> afterwards.\<close>

definition Root_GetString ::
  "('d \<Rightarrow> query \<Rightarrow> rs_view option) \<Rightarrow> 'd option list \<Rightarrow> rs_view \<Rightarrow> string \<Rightarrow> nat \<Rightarrow> (string \<times> string) option" where
  "Root_GetString exec ds rs m_children which =
     (if which \<noteq> field_CHILDREN \<or> v_eof rs then Some (v_str rs which, m_children)
      else if m_children \<noteq> [] then Some (m_children, m_children)
      else do {
        children \<leftarrow> root_children exec 0 ds;
        Some (VectorToChildren children, VectorToChildren children) })"

definition Root_SetString :: "(nat \<Rightarrow> string \<Rightarrow> 'r) \<Rightarrow> nat \<Rightarrow> string \<Rightarrow> 'r option" where
  "Root_SetString set_string which val =
     (if which \<noteq> field_CHILDREN then Some (set_string which val)
      else do {
        children \<leftarrow> ChildrenToVector val;
        Some (set_string which (VectorToChildren (filter (\<lambda>c. \<not> c > 0xFFFFFF) children))) })"

section \<open>Queries\<close>

datatype merged_rs =
    EmptyRecordset
  | NullRecordset
  | Plain rs_view
  | Wrapped u32 rs_view
  | Root rs_view

text \<open>Databases are asked through their own queries; \<^verbatim>\<open>exec\<close> as above.\<close>

definition Merge_Execute :: "('d \<Rightarrow> query \<Rightarrow> rs_view option) \<Rightarrow> 'd option list \<Rightarrow> query \<Rightarrow> merged_rs option" where
  "Merge_Execute exec ds q =
     (case ds of
        Some d0 # _ \<Rightarrow>
          (let plain = do {
                 (rc, qp) \<leftarrow> Clone q new_query;
                 (if rc \<noteq> 0 then Some NullRecordset
                  else Some (case exec d0 qp of None \<Rightarrow> NullRecordset | Some rs \<Rightarrow> Plain rs)) } in
           case m_restrictions q of
             [r] \<Rightarrow>
               (if r_which r = field_ID \<and> r_rt r = EQ then
                  (let fid = r_ival r; dbno = drop_bit 24 fid in
                   if unat dbno \<ge> length ds then Some NullRecordset
                   else case ds ! unat dbno of
                       None \<Rightarrow> Some NullRecordset
                     | Some d \<Rightarrow>
                         (if dbno \<noteq> 0 \<or> fid = BROWSE_ROOT then do {
                            qp \<leftarrow> id_query (fid AND 0xFFFFFF);
                            Some (case exec d qp of
                                None \<Rightarrow> NullRecordset
                              | Some rs \<Rightarrow> if fid = BROWSE_ROOT then Root rs else Wrapped dbno rs) }
                          else plain))
                else plain)
           | _ \<Rightarrow> plain)
      | _ \<Rightarrow> Some EmptyRecordset)"

section \<open>Tags\<close>

definition plain_id :: "u32 \<Rightarrow> bool" where
  "plain_id v \<longleftrightarrow> v \<noteq> 0 \<and> v \<le> 0xFFFFFF"

lemma plain_id_bit: "plain_id v \<Longrightarrow> bit v n \<Longrightarrow> n < 24"
proof (rule ccontr)
  assume v: "plain_id v" "bit v n" "\<not> n < 24"
  have "unat v < 2 ^ 24"
    using v(1) by (simp add: plain_id_def word_le_nat_alt)
  then have "take_bit 24 (unat v) = unat v"
    by (simp add: take_bit_nat_eq_self)
  then have "take_bit 24 v = v"
    by (metis unsigned_take_bit_eq word_unat_eq_iff)
  then show False
    using v(2,3) by (metis bit_take_bit_iff)
qed

lemma mask_24: "(0xFFFFFF :: u32) = mask 24"
  by (simp add: mask_eq_exp_minus_1)

lemma tag_id_low: "plain_id v \<Longrightarrow> tag_id i v AND 0xFFFFFF = v"
  unfolding mask_24 tag_id_def
  by (rule bit_word_eqI) (auto simp: bit_simps dest: plain_id_bit)

lemma tag_id_high: "plain_id v \<Longrightarrow> i < 256 \<Longrightarrow> drop_bit 24 (tag_id i v) = i"
proof -
  assume v: "plain_id v" and i: "i < 256"
  have "take_bit 8 (unat i) = unat i"
    using i by (simp add: take_bit_nat_eq_self word_less_nat_alt)
  then have "take_bit 8 i = i"
    by (metis unsigned_take_bit_eq word_unat_eq_iff)
  then have i8: "bit i n \<Longrightarrow> n < 8" for n
    by (metis bit_take_bit_iff)
  show ?thesis
    unfolding tag_id_def
    by (rule bit_word_eqI) (auto simp: bit_simps dest: plain_id_bit [OF v] i8)
qed

lemma tag_id_zero: "tag_id 0 v = v"
  by (simp add: tag_id_def)

lemma tag_id_top_bit: "bit (tag_id i v) 31 \<longleftrightarrow> bit v 31 \<or> bit i 7"
  by (simp add: tag_id_def bit_simps)

lemma odd_div_once: "n < 2 * m \<Longrightarrow> 0 < m \<Longrightarrow> odd (n div m) \<longleftrightarrow> m \<le> (n :: nat)"
proof (cases "n < m")
  case False
  moreover assume "n < 2 * m" "0 < m"
  ultimately have "n div m = 1"
    by (intro div_nat_eqI) auto
  with False show ?thesis
    by simp
qed simp

lemma bit_unat: "bit (w :: u32) n \<longleftrightarrow> odd (unat w div 2 ^ n)"
  by (simp add: bit_unsigned_iff flip: bit_iff_odd)

lemma top_bit_32: "0x80000000 \<le> (w :: u32) \<longleftrightarrow> bit w 31"
proof -
  have "unat w < 2 * 2 ^ 31"
    using unsigned_less [of w, where ?'a = nat] by simp
  then show ?thesis
    by (simp add: bit_unat odd_div_once word_le_nat_alt)
qed

lemma top_bit_8: "(i :: u32) < 256 \<Longrightarrow> bit i 7 \<longleftrightarrow> 128 \<le> i"
proof -
  assume "i < 256"
  then have "unat i < 2 * 2 ^ 7"
    by (simp add: word_less_nat_alt)
  then show ?thesis
    by (simp add: bit_unat odd_div_once word_le_nat_alt)
qed

lemma plain_id_child: "plain_id v \<Longrightarrow> child_ok v"
  by (auto simp: plain_id_def child_ok_def word_le_nat_alt word_less_nat_alt word_unat_eq_iff)

lemma tag_id_child:
  assumes "plain_id v" "i < 256"
  shows "if i < 128 then child_ok (tag_id i v) else 0x80000000 \<le> tag_id i v"
proof -
  have v: "\<not> bit v 31"
    using plain_id_bit [OF assms(1), of 31] by auto
  have "tag_id i v \<noteq> 0"
    using tag_id_low [OF assms(1), of i] assms(1) by (auto simp: plain_id_def)
  moreover have "0x80000000 \<le> tag_id i v \<longleftrightarrow> 128 \<le> i"
    using v top_bit_8 [OF assms(2)] by (simp add: top_bit_32 tag_id_top_bit)
  ultimately show ?thesis
    by (simp add: child_ok_def not_le word_greater_zero_iff not_less) (metis not_less)
qed

section \<open>Writing back what was read\<close>


definition example_view :: rs_view where
  "example_view = \<lparr>v_eof = False, v_int = (\<lambda>f. if f = field_IDPARENT then BROWSE_ROOT else 0x120),
     v_str = (\<lambda>f. VectorToChildren [0x200, 0x210])\<rparr>"


text \<open>From the 129th database on, the children of an item read as zeros: the tag sets the top
  bit, which the children field cannot carry.\<close>

theorem Wrap_children_lost:
  assumes i: "128 \<le> i" "i < 256" and rs: "v_str rs field_CHILDREN = VectorToChildren cs"
    and cs: "\<forall>c\<in>set cs. plain_id c" "length cs \<le> 20000"
  shows "\<exists>s. Wrap_GetString i rs field_CHILDREN = Some s \<and> ChildrenToVector s = Some (replicate (length cs) 0)"
proof (cases "cs = []")
  case True
  then show ?thesis
    by (simp add: Wrap_GetString_def rs)
next
  case False
  let ?cs = "map (tag_id i) cs"
  have "\<forall>c\<in>set ?cs. 0x80000000 \<le> c"
    using cs(1) tag_id_child [OF _ i(2)] i(1) by (fastforce simp: not_less [symmetric])
  then have lost: "ChildrenToVector (VectorToChildren ?cs) = Some (replicate (length cs) 0)"
    using children_decode_lost [of "[]" ?cs] False cs(2) by simp
  have dec: "ChildrenToVector (VectorToChildren cs) = Some cs"
    using cs plain_id_child by (auto intro!: children_decode)
  with False have "VectorToChildren cs \<noteq> []"
    by (metis ChildrenToVector_Nil option.inject)
  then show ?thesis
    using lost dec by (simp add: Wrap_GetString_def rs)
qed

lemma Wrap_children_lost_witness:
  "\<exists>s. Wrap_GetString 128 example_view field_CHILDREN = Some s \<and> 
    ChildrenToVector s = Some (replicate (length [0x200 :: u32, 0x210]) 0)"
  by (rule Wrap_children_lost) (simp_all add: example_view_def plain_id_def)

section \<open>The set of databases\<close>

lemma fill_slot_Some:
  "fill_slot d ds = Some ds' \<Longrightarrow> length ds' = length ds \<and>
     (\<exists>k<length ds. ds ! k = None \<and> ds' = ds[k := Some d])"
proof (induction d ds arbitrary: ds' rule: fill_slot.induct)
  case (3 d e ds)
  then obtain ds1 k where "ds' = Some e # ds1" "k < length ds" "ds ! k = None" "ds1 = ds[k := Some d]"
    by auto
  then show ?case
    by (intro conjI exI [of _ "Suc k"]) auto
qed auto

lemma fill_slot_None: "fill_slot d ds = None \<longleftrightarrow> None \<notin> set ds"
  by (induction d ds rule: fill_slot.induct) auto

text \<open>Adding a database keeps every other database at its number, so that identifiers stay valid;
  the new one gets a free number below 256, and adding fails only when all 256 are taken.\<close>

theorem AddDatabase_numbers:
  assumes n: "length ds \<le> 256" and res: "AddDatabase d ds = (rc, ds')"
  shows "length ds' \<le> 256 \<and>
    (if rc = 0
     then \<exists>k<length ds'. ds' ! k = Some d \<and> (k < length ds \<longrightarrow> ds ! k = None) \<and>
       (\<forall>j<length ds. j \<noteq> k \<longrightarrow> ds' ! j = ds ! j)
     else rc = ENOSPC \<and> ds' = ds \<and> length ds = 256 \<and> None \<notin> set ds)"
proof (cases "fill_slot d ds")
  case None
  show ?thesis
  proof (cases "length ds \<ge> 256")
    case True
    then have "rc = ENOSPC \<and> ds' = ds"
      using res None by (simp add: AddDatabase_def)
    then show ?thesis
      using True n None by (auto simp: fill_slot_None)
  next
    case False
    then have rc: "rc = 0" "ds' = ds @ [Some d]"
      using res None by (simp_all add: AddDatabase_def)
    have ex: "\<exists>k<length (ds @ [Some d]). (ds @ [Some d]) ! k = Some d \<and> (k < length ds \<longrightarrow> ds ! k = None) \<and>
        (\<forall>j<length ds. j \<noteq> k \<longrightarrow> (ds @ [Some d]) ! j = ds ! j)"
      by (rule exI [of _ "length ds"]) (simp add: nth_append)
    have len: "length (ds @ [Some d]) \<le> 256"
      using False by simp
    show ?thesis
      unfolding rc by (rule conjI, rule len, subst if_P, rule refl, rule ex)
  qed
next
  case (Some ds1)
  note f = fill_slot_Some [OF Some]
  then obtain k where k: "k < length ds \<and> ds ! k = None \<and> ds1 = ds[k := Some d]"
    by blast
  have rc: "rc = 0" "ds' = ds1"
    using res Some by (simp_all add: AddDatabase_def)
  have ex: "\<exists>k<length ds1. ds1 ! k = Some d \<and> (k < length ds \<longrightarrow> ds ! k = None) \<and> (\<forall>j<length ds. j \<noteq> k \<longrightarrow> ds1 ! j = ds ! j)"
    by (rule exI [of _ k]) (simp add: conjunct1 [OF k] conjunct2 [OF k])
  have len: "length ds1 \<le> 256"
    using n f by simp
  show ?thesis
    unfolding rc by (rule conjI, rule len, subst if_P, rule refl, rule ex)
qed

lemma AddDatabase_numbers_witness: "length (snd (AddDatabase ''db'' [Some ''x'', None])) \<le> 256"
  using AddDatabase_numbers [of "[Some ''x'', None]" "''db''" "fst (AddDatabase ''db'' [Some ''x'', None])"
      "snd (AddDatabase ''db'' [Some ''x'', None])"] by simp

section \<open>Finding the database of an identifier\<close>

lemma id_query_eq:
  "id_query n = Some \<lparr>m_restrictions = [int_restriction field_ID EQ n], m_relations = [], m_root = 1,
     m_orderby = [], m_collateby = []\<rparr>"
  by (simp add: id_query_def Restrict_int_def push_restriction_def Where_def new_query_def in_range_def Let_def)

lemma route_tag:
  assumes "plain_id v" "unat i < length ds" "length ds \<le> 256" "ds ! unat i = Some d"
  shows "route ds (tag_id i v) = Some (d, v)"
proof -
  have "i < 256"
    using assms(2,3) by (simp add: word_less_nat_alt)
  then show ?thesis
    using assms tag_id_high [OF assms(1)] tag_id_low [OF assms(1)] by (simp add: route_def Let_def)
qed

text \<open>An identifier that carries the number of a database other than the first is served by that
  database, under the identifier it has there: its URL, its streams, and the query for it.\<close>

theorem tagged_id_routed:
  assumes v: "plain_id v" and i: "i \<noteq> 0" "unat i < length ds" "length ds \<le> 256" "ds ! unat i = Some d"
    and d0: "hd ds \<noteq> None" and q: "id_query (tag_id i v) = Some q" and q': "id_query v = Some q'"
  shows "Merge_GetURL geturl ds (tag_id i v) = geturl d v \<and> Merge_OpenRead openread ds (tag_id i v) = openread d v \<and>
    Merge_OpenWrite openwrite ds (tag_id i v) = openwrite d v \<and>
    Merge_Execute exec ds q = Some (case exec d q' of None \<Rightarrow> NullRecordset | Some rs \<Rightarrow> Wrapped i rs)"
proof -
  note r = route_tag [OF v i(2-4)]
  have i8: "i < 256"
    using i(2,3) by (simp add: word_less_nat_alt)
  note hi = tag_id_high [OF v i8] and lo = tag_id_low [OF v, of i]
  have "drop_bit 24 BROWSE_ROOT = 0"
    by (simp add: BROWSE_ROOT_def)
  then have nr: "tag_id i v \<noteq> BROWSE_ROOT"
    using hi i(1) by auto
  obtain d0 ds' where ds: "ds = Some d0 # ds'"
    using d0 i(2) by (cases ds; cases "hd ds") auto
  have res: "m_restrictions q = [int_restriction field_ID EQ (tag_id i v)]"
    using q by (auto simp: id_query_eq)
  have "Merge_Execute exec ds q = Some (case exec d q' of None \<Rightarrow> NullRecordset | Some rs \<Rightarrow> Wrapped i rs)"
    using i hi lo nr q' unfolding Merge_Execute_def ds res
    by (simp add: int_restriction_def Let_def split: option.splits)
  then show ?thesis
    by (simp add: r Merge_GetURL_def Merge_OpenRead_def Merge_OpenWrite_def)
qed

lemma tagged_id_routed_witness:
  "Merge_GetURL (\<lambda>d i. d) [Some ''a'', Some ''b''] (tag_id 1 0x120) = ''b''"
  using tagged_id_routed [OF _ _ _ _ _ _ id_query_eq id_query_eq, where v = "0x120" and i = "1" and
      ds = "[Some ''a'', Some ''b'']" and d = "''b''" and geturl = "\<lambda>d i. d" and openread = "\<lambda>d i. Some d" and
      openwrite = "\<lambda>d i. Some d" and exec = "\<lambda>d q. None"]
  by (simp add: plain_id_def)

section \<open>The merged root\<close>

text \<open>\<open>roots\<close> lists for each slot the children of the root of its database.\<close>

fun roots_are :: "('d \<Rightarrow> query \<Rightarrow> rs_view option) \<Rightarrow> 'd option list \<Rightarrow> u32 list list \<Rightarrow> bool" where
  "roots_are exec [] [] \<longleftrightarrow> True"
| "roots_are exec (None # ds) (cs # css) \<longleftrightarrow> cs = [] \<and> roots_are exec ds css"
| "roots_are exec (Some d # ds) (cs # css) \<longleftrightarrow>
     (\<forall>c\<in>set cs. plain_id c) \<and>
     (\<exists>rs. exec d (the (id_query BROWSE_ROOT)) = Some rs \<and> \<not> v_eof rs \<and>
       v_str rs field_CHILDREN = VectorToChildren cs) \<and> roots_are exec ds css"
| "roots_are exec _ _ \<longleftrightarrow> False"

fun tag_all :: "u32 \<Rightarrow> u32 list list \<Rightarrow> u32 list" where
  "tag_all i [] = []"
| "tag_all i (cs # css) = map (tag_id i) cs @ tag_all (i + 1) css"

lemma root_children_tag_all:
  "roots_are exec ds css \<Longrightarrow> length (concat css) \<le> 20000 \<Longrightarrow> root_children exec i ds = Some (tag_all i css)"
proof (induction exec ds css arbitrary: i rule: roots_are.induct)
  case (3 exec d ds cs css)
  then obtain rs where rs: "exec d (the (id_query BROWSE_ROOT)) = Some rs" "\<not> v_eof rs"
    "v_str rs field_CHILDREN = VectorToChildren cs" and cs: "\<forall>c\<in>set cs. plain_id c"
    by auto
  have "ChildrenToVector (VectorToChildren cs) = Some cs"
    using cs 3(3) plain_id_child by (intro children_decode) auto
  moreover have "root_children exec (i + 1) ds = Some (tag_all (i + 1) css)"
    using 3 by simp
  ultimately show ?case
    using rs by (simp add: id_query_eq)
qed auto

lemma tag_all_ok:
  "unat i + length css \<le> 128 \<Longrightarrow> \<forall>c\<in>set (concat css). plain_id c \<Longrightarrow> \<forall>c\<in>set (tag_all i css). child_ok c"
proof (induction css arbitrary: i)
  case (Cons cs css)
  have i: "unat (i + 1) = Suc (unat i)" "i < 128" "i < 256"
    using Cons.prems(1) by (auto simp: word_less_nat_alt unat_word_ariths(1) simp del: of_nat_add)
  have "child_ok (tag_id i c)" if "c \<in> set cs" for c
    using tag_id_child [of c i] i(2,3) Cons.prems(2) that by simp
  moreover have "\<forall>c\<in>set (tag_all (i + 1) css). child_ok c"
    using Cons.prems i(1) by (intro Cons.IH) auto
  ultimately show ?case
    by auto
qed simp

lemma tag_all_later:
  "0 < unat i \<Longrightarrow> unat i + length css \<le> 256 \<Longrightarrow> \<forall>c\<in>set (concat css). plain_id c \<Longrightarrow>
     \<forall>c\<in>set (tag_all i css). 0xFFFFFF < c"
proof (induction css arbitrary: i)
  case (Cons cs css)
  have i: "i < 256" "i \<noteq> 0"
    using Cons.prems(1,2) by (auto simp: word_less_nat_alt)
  have next_i: "css \<noteq> [] \<Longrightarrow> unat (i + 1) = Suc (unat i)"
    using Cons.prems(2) by (cases css) (auto simp: unat_word_ariths(1) simp del: of_nat_add)
  have "0xFFFFFF < tag_id i c" if c: "c \<in> set cs" for c
  proof (rule ccontr)
    assume "\<not> 0xFFFFFF < tag_id i c"
    moreover have "plain_id c"
      using c Cons.prems(3) by simp
    moreover from this have "tag_id i c \<noteq> 0"
      using tag_id_low [of c i] by (auto simp: plain_id_def)
    ultimately have "plain_id (tag_id i c)"
      by (simp add: plain_id_def not_less)
    then have "drop_bit 24 (tag_id i c) = 0"
      by (intro bit_word_eqI) (auto simp: bit_simps dest: plain_id_bit)
    then show False
      using tag_id_high [OF \<open>plain_id c\<close> i(1)] i(2) by simp
  qed
  moreover have "\<forall>c\<in>set (tag_all (i + 1) css). 0xFFFFFF < c"
  proof (cases "css = []")
    case False
    then show ?thesis
      using Cons.prems next_i by (intro Cons.IH) auto
  qed simp
  ultimately show ?case
    by auto
qed simp

lemma tag_all_zero: "tag_all 0 (cs # css) = cs @ tag_all 1 css"
  by (simp add: tag_id_zero [abs_def])

lemma roots_plain: "roots_are exec ds css \<Longrightarrow> length css = length ds \<and> (\<forall>c\<in>set (concat css). plain_id c)"
  by (induction exec ds css rule: roots_are.induct) auto

text \<open>C15: The children of the merged root are those of the roots of all databases in turn, each with
  the tag of its database; and writing the children of the merged root back stores in the first
  database the children that are its own. This holds of up to 128 databases.\<close>

theorem Root_children_merged:
  assumes r: "roots_are exec ds (cs # css)" and n: "length ds \<le> 128" "length (concat (cs # css)) \<le> 20000"
    and e: "\<not> v_eof rs"
  shows "\<exists>s. Root_GetString exec ds rs [] field_CHILDREN = Some (s, s) \<and>
    ChildrenToVector s = Some (cs @ tag_all 1 css) \<and>
    Root_SetString set_string field_CHILDREN s = Some (set_string field_CHILDREN (VectorToChildren cs))"
proof -
  have p: "\<forall>c\<in>set (concat (cs # css)). plain_id c" "length (cs # css) = length ds"
    using roots_plain [OF r] by simp_all
  have len: "length (tag_all i xss) = length (concat xss)" for i xss
    by (induction xss arbitrary: i) auto
  let ?all = "tag_all 0 (cs # css)"
  have "\<forall>c\<in>set ?all. child_ok c"
    by (rule tag_all_ok) (use n(1) p in \<open>simp_all only: unsigned_0 add_0\<close>)
  moreover have "length ?all \<le> 20000"
    using n(2) by (simp only: len)
  ultimately have dec: "ChildrenToVector (VectorToChildren ?all) = Some ?all"
    by (intro children_decode)
  have later: "\<forall>c\<in>set (tag_all 1 css). 0xFFFFFF < c"
    using n(1) p by (intro tag_all_later) auto
  have own: "\<forall>c\<in>set cs. \<not> 0xFFFFFF < c"
    using p(1) by (auto simp: plain_id_def not_less)
  have "filter (\<lambda>c. \<not> c > 0xFFFFFF) (cs @ tag_all 1 css) = cs"
    using later own by (simp add: filter_id_conv filter_empty_conv)
  moreover have "map (tag_id 0) cs = cs"
    by (simp add: tag_id_zero map_idI)
  ultimately show ?thesis
    using dec root_children_tag_all [OF r n(2), of 0] e
    by (simp add: Root_GetString_def Root_SetString_def)
qed

lemma Root_children_merged_witness:
  "\<exists>s. Root_GetString (\<lambda>d q. Some example_view) [Some ''a'', Some ''b''] example_view [] field_CHILDREN = Some (s, s) \<and>
    ChildrenToVector s = Some ([0x200, 0x210] @ tag_all 1 [[0x200, 0x210]]) \<and>
    Root_SetString (\<lambda>f s. s) field_CHILDREN s = Some (VectorToChildren [0x200, 0x210])"
  by (rule Root_children_merged) (simp_all add: example_view_def plain_id_def)

end
