(* ===== verification/Streams.thy ===== *)
theory Streams
  imports Prelude "HOL-Library.Monad_Syntax" "HOL-Library.Sublist"
begin

text \<open>
  libutil/stream.h, stream.cpp, string_stream.cpp, partial_stream.cpp and line_reader.cpp. A stream
  has a state of any type; reading takes the size of the buffer and gives a return code, the bytes
  and the new state; writing gives the number of bytes accepted. \<^verbatim>\<open>None\<close> is undefined
  behaviour or an uncaught exception. Positions are below \<open>2^64\<close> and so are natural numbers, but
  where the code subtracts them.
\<close>

section \<open>Streams\<close>

type_synonym 's reader = "nat \<Rightarrow> 's \<Rightarrow> (u32 \<times> string \<times> 's) option"
type_synonym 's writer = "string \<Rightarrow> 's \<Rightarrow> (u32 \<times> nat \<times> 's) option"
type_synonym 's reader_at = "nat \<Rightarrow> nat \<Rightarrow> 's \<Rightarrow> (u32 \<times> string \<times> 's) option"
type_synonym 's writer_at = "nat \<Rightarrow> string \<Rightarrow> 's \<Rightarrow> (u32 \<times> nat \<times> 's) option"

partial_function (option) WriteAll :: "'s writer \<Rightarrow> string \<Rightarrow> 's \<Rightarrow> (u32 \<times> 's) option" where
  "WriteAll wr buffer s =
     (if buffer = [] then Some (0, s)
      else do {
        (rc, wrote, s) \<leftarrow> wr buffer s;
        (if rc \<noteq> 0 then Some (rc, s)
         else if wrote = 0 then Some (EIO, s)
         else WriteAll wr (drop wrote buffer) s) })"

text \<open>\<^verbatim>\<open>ReadAll\<close>: the bytes that were put into the buffer come with the return code.\<close>

partial_function (option) ReadAll :: "'s reader \<Rightarrow> nat \<Rightarrow> 's \<Rightarrow> (u32 \<times> string \<times> 's) option" where
  "ReadAll rd len s =
     (if len = 0 then Some (0, [], s)
      else do {
        (rc, bytes, s) \<leftarrow> rd len s;
        (if rc \<noteq> 0 then Some (rc, [], s)
         else if bytes = [] then Some (EIO, [], s)
         else do {
           (rc, more, s) \<leftarrow> ReadAll rd (len - length bytes) s;
           Some (rc, bytes @ more, s) }) })"

definition READABLE :: u32 where "READABLE = 1"
definition WRITABLE :: u32 where "WRITABLE = 2"
definition SEEKABLE :: u32 where "SEEKABLE = 8"

partial_function (option) write_all_at :: "'s writer_at \<Rightarrow> nat \<Rightarrow> string \<Rightarrow> 's \<Rightarrow> (u32 \<times> 's) option" where
  "write_all_at wr pos buffer s =
     (if buffer = [] then Some (0, s)
      else do {
        (rc, wrote, s) \<leftarrow> wr pos buffer s;
        (if rc \<noteq> 0 then Some (rc, s)
         else if wrote = 0 then Some (EIO, s)
         else write_all_at wr (pos + wrote) (drop wrote buffer) s) })"

definition WriteAllAt :: "u32 \<Rightarrow> 's writer_at \<Rightarrow> nat \<Rightarrow> string \<Rightarrow> 's \<Rightarrow> (u32 \<times> 's) option" where
  "WriteAllAt flags wr pos buffer s =
     (if flags AND WRITABLE = 0 then Some (EACCES, s)
      else if flags AND SEEKABLE = 0 then Some (ESPIPE, s)
      else write_all_at wr pos buffer s)"

definition WriteString :: "'s writer \<Rightarrow> string \<Rightarrow> 's \<Rightarrow> (u32 \<times> 's) option" where
  "WriteString wr s = WriteAll wr s"

definition is_line_end :: "char \<Rightarrow> bool" where
  "is_line_end c \<longleftrightarrow> c = NUL \<or> c = CHR 0x0A"

text \<open>The loop of \<^verbatim>\<open>ReadLine\<close>, with the string so far; \<^verbatim>\<open>pos\<close> is the position it started at.\<close>

partial_function (option) read_line :: "'s reader \<Rightarrow> (nat \<Rightarrow> 's \<Rightarrow> 's) \<Rightarrow> nat \<Rightarrow> string \<Rightarrow> 's \<Rightarrow> (u32 \<times> string \<times> 's) option"
where
  "read_line rd seek pos str s = do {
     (rc, buffer, s) \<leftarrow> rd 1024 s;
     (if rc \<noteq> 0 then Some (rc, [], s)
      else if buffer = [] then Some (0, str, s)
      else if \<exists>c\<in>set buffer. is_line_end c then
        (let str = str @ takeWhile (\<lambda>c. \<not> is_line_end c) buffer
         in Some (0, str, seek (pos + length str + 1) s))
      else read_line rd seek pos (str @ buffer) s) }"

definition ReadLine :: "u32 \<Rightarrow> 's reader \<Rightarrow> (nat \<Rightarrow> 's \<Rightarrow> 's) \<Rightarrow> ('s \<Rightarrow> nat) \<Rightarrow> 's \<Rightarrow> (u32 \<times> string \<times> 's) option" where
  "ReadLine flags rd seek tell s =
     (if flags AND READABLE = 0 then Some (EACCES, [], s)
      else if flags AND SEEKABLE = 0 then Some (ESPIPE, [], s)
      else read_line rd seek (tell s) [] s)"

partial_function (option) CopyStream :: "'s reader \<Rightarrow> 't writer \<Rightarrow> 's \<Rightarrow> 't \<Rightarrow> (u32 \<times> 's \<times> 't) option" where
  "CopyStream rd wr s t = do {
     (rc, buffer, s) \<leftarrow> rd 8192 s;
     (if rc \<noteq> 0 then Some (rc, s, t)
      else do {
        (rc, t) \<leftarrow> WriteAll wr buffer t;
        (if rc \<noteq> 0 then Some (rc, s, t)
         else if buffer = [] then Some (0, s, t)
         else CopyStream rd wr s t) }) }"

text \<open>The overload for a seekable source reads at a position of its own.\<close>

partial_function (option) copy_stream_at :: "'s reader_at \<Rightarrow> 't writer \<Rightarrow> nat \<Rightarrow> 's \<Rightarrow> 't \<Rightarrow> (u32 \<times> 's \<times> 't) option" where
  "copy_stream_at rd wr pos s t = do {
     (rc, buffer, s) \<leftarrow> rd pos 8192 s;
     (if rc \<noteq> 0 then Some (rc, s, t)
      else do {
        (rc, t) \<leftarrow> WriteAll wr buffer t;
        (if rc \<noteq> 0 then Some (rc, s, t)
         else if buffer = [] then Some (0, s, t)
         else copy_stream_at rd wr (pos + length buffer) s t) }) }"

partial_function (option) DiscardStream :: "'s reader \<Rightarrow> 's \<Rightarrow> (u32 \<times> 's) option" where
  "DiscardStream rd s = do {
     (rc, buffer, s) \<leftarrow> rd 8192 s;
     (if rc \<noteq> 0 then Some (rc, s) else if buffer = [] then Some (0, s) else DiscardStream rd s) }"

section \<open>Seekable streams\<close>

text \<open>\<^verbatim>\<open>SeekableStream\<close> adds a position to a stream that reads and writes at positions.\<close>

definition Seekable_Read :: "'s reader_at \<Rightarrow> ('s \<times> nat) reader" where
  "Seekable_Read rd len = (\<lambda>(s, m_pos). do {
     (rc, bytes, s) \<leftarrow> rd m_pos len s;
     Some (rc, bytes, s, if rc = 0 then m_pos + length bytes else m_pos) })"

definition Seekable_Write :: "'s writer_at \<Rightarrow> ('s \<times> nat) writer" where
  "Seekable_Write wr buffer = (\<lambda>(s, m_pos). do {
     (rc, wrote, s) \<leftarrow> wr m_pos buffer s;
     Some (rc, wrote, s, if rc = 0 then m_pos + wrote else m_pos) })"

definition Seekable_Seek :: "nat \<Rightarrow> 's \<times> nat \<Rightarrow> 's \<times> nat" where
  "Seekable_Seek pos sp = (fst sp, pos)"

definition Tell :: "'s \<times> nat \<Rightarrow> nat" where
  "Tell sp = snd sp"

section \<open>StringStream\<close>

text \<open>
  Past the end of the string, the subtraction in \<^verbatim>\<open>ReadAt\<close> wraps and \<^verbatim>\<open>memcpy\<close>
  reads out of bounds; \<^verbatim>\<open>std::string::replace\<close> throws.
\<close>

definition StringStream_ReadAt :: "string reader_at" where
  "StringStream_ReadAt pos len m_string =
     (if pos > length m_string then None else Some (0, take len (drop pos m_string), m_string))"

definition StringStream_WriteAt :: "string writer_at" where
  "StringStream_WriteAt pos buffer m_string =
     (if pos > length m_string then None
      else Some (0, length buffer, take pos m_string @ buffer @ drop (pos + length buffer) m_string))"

definition StringStream_SetLength :: "nat \<Rightarrow> string \<times> nat \<Rightarrow> u32 \<times> string \<times> nat" where
  "StringStream_SetLength len = (\<lambda>(m_string, pos).
     if len > length m_string then (0, m_string @ replicate (len - length m_string) CHR '' '', pos)
     else (0, take len m_string, if pos > len then len else pos))"

section \<open>PartialStream\<close>

definition PartialStream_Read :: "'s reader \<Rightarrow> ('s \<times> nat) reader" where
  "PartialStream_Read rd len = (\<lambda>(s, m_length).
     (let len = (if len > m_length then m_length else len) in
      if len = 0 then Some (0, [], s, m_length)
      else do {
        (rc, bytes, s) \<leftarrow> rd len s;
        Some (rc, bytes, s, if rc = 0 then m_length - length bytes else m_length) }))"

definition PartialStream_Write :: "'s writer \<Rightarrow> ('s \<times> nat) writer" where
  "PartialStream_Write wr buffer = (\<lambda>(s, m_length). do {
     (rc, wrote, s) \<leftarrow> wr (take m_length buffer) s;
     Some (rc, wrote, s, if rc = 0 then m_length - wrote else m_length) })"

text \<open>The length that \<^verbatim>\<open>PartialSeekableStream\<close> passes on, in 64-bit arithmetic.\<close>

definition partial_len :: "u64 \<Rightarrow> u64 \<Rightarrow> u64 \<Rightarrow> u64 \<Rightarrow> u64" where
  "partial_len m_begin m_end pos len =
     (if pos + len + m_begin > m_end then m_end - pos - m_begin else len)"

definition PartialSeekable_ReadAt :: "'s reader_at \<Rightarrow> u64 \<Rightarrow> u64 \<Rightarrow> 's reader_at" where
  "PartialSeekable_ReadAt rd m_begin m_end pos len s =
     (let len' = unat (partial_len m_begin m_end (of_nat pos) (of_nat len)) in
      if len' > len then None else rd (unat (of_nat pos + m_begin)) len' s)"

definition PartialSeekable_WriteAt :: "'s writer_at \<Rightarrow> u64 \<Rightarrow> u64 \<Rightarrow> 's writer_at" where
  "PartialSeekable_WriteAt wr m_begin m_end pos buffer s =
     (let len' = unat (partial_len m_begin m_end (of_nat pos) (of_nat (length buffer))) in
      if len' > length buffer then None else wr (unat (of_nat pos + m_begin)) (take len' buffer) s)"

definition PartialSeekable_GetLength :: "u64 \<Rightarrow> u64 \<Rightarrow> u64" where
  "PartialSeekable_GetLength m_begin m_end = m_end - m_begin"

section \<open>GreedyLineReader\<close>

definition MAX_LINE :: nat where "MAX_LINE = 1024"

text \<open>\<^verbatim>\<open>memchr\<close> for a carriage return that is not the last byte: the text before it, and from it on.\<close>

definition split_cr :: "string \<Rightarrow> (string \<times> string) option" where
  "split_cr buffer =
     (let line = takeWhile (\<lambda>c. c \<noteq> CHR 0x0D) buffer; r = drop (length line) buffer
      in if length r \<le> 1 then None else Some (line, r))"

partial_function (option) GetLine :: "'s reader \<Rightarrow> string \<times> 's \<Rightarrow> (u32 \<times> string \<times> string \<times> 's) option" where
  "GetLine rd bs =
     (case split_cr (fst bs) of
        None \<Rightarrow>
          (if length (fst bs) = MAX_LINE then Some (0, fst bs, [], snd bs)
           else do {
             (rc, bytes, s) \<leftarrow> rd (MAX_LINE - length (fst bs)) (snd bs);
             (if rc \<noteq> 0 then Some (rc, [], fst bs, s)
              else if bytes = [] then Some (EIO, [], fst bs, s)
              else GetLine rd (fst bs @ bytes, s)) })
      | Some (line, r) \<Rightarrow> Some (0, line, if r ! 1 = CHR 0x0A then drop 2 r else drop 1 r, snd bs))"

definition ReadLeftovers :: "nat \<Rightarrow> string \<times> 's \<Rightarrow> string \<times> string \<times> 's" where
  "ReadLeftovers n bs =
     (let n = (if n > length (fst bs) then length (fst bs) else n)
      in (take n (fst bs), drop n (fst bs), snd bs))"

end
