(* ===== verification/StreamLaws.thy ===== *)
theory StreamLaws
  imports Streams
begin

text \<open>
  The contracts of a source, a sink and a seekable stream, what the helper functions of
  \<^verbatim>\<open>Stream\<close> do on any stream that meets them, and the interpretation for the string stream.
\<close>

section \<open>Sources\<close>

locale byte_source =
  fixes read :: "'s reader" and rest :: "'s \<Rightarrow> string" and invar :: "'s \<Rightarrow> bool"
  assumes read_rest: "invar s \<Longrightarrow> len < 2 ^ 63 \<Longrightarrow> \<exists>bs s'. read len s = Some (0, bs, s') \<and> invar s' \<and> rest s = bs @ rest s' \<and>
    length bs \<le> len \<and> (bs = [] \<longrightarrow> len = 0 \<or> rest s = [])"
begin

lemma read_some:
  "invar s \<Longrightarrow> 0 < len \<Longrightarrow> len < 2 ^ 63 \<Longrightarrow> rest s \<noteq> [] \<Longrightarrow>
     \<exists>bs s'. read len s = Some (0, bs, s') \<and> invar s' \<and> rest s = bs @ rest s' \<and> bs \<noteq> [] \<and> length bs \<le> len"
  using read_rest [of s len] by fastforce

lemma read_end:
  "invar s \<Longrightarrow> len < 2 ^ 63 \<Longrightarrow> rest s = [] \<Longrightarrow> \<exists>s'. read len s = Some (0, [], s') \<and> invar s' \<and> rest s' = []"
  using read_rest [of s len] by fastforce

lemma ReadAll_enough:
  "invar s \<Longrightarrow> len < 2 ^ 63 \<Longrightarrow> len \<le> length (rest s) \<Longrightarrow>
     \<exists>s'. ReadAll read len s = Some (0, take len (rest s), s') \<and> invar s' \<and> rest s' = drop len (rest s)"
proof (induction len arbitrary: s rule: less_induct)
  case (less len)
  show ?case
  proof (cases "len = 0")
    case True
    then show ?thesis
      using less.prems by (subst ReadAll.simps) simp
  next
    case False
    then obtain bs s1 where r: "read len s = Some (0, bs, s1)" "invar s1" "rest s = bs @ rest s1" "bs \<noteq> []" "length bs \<le> len"
      using read_some [OF less.prems(1), of len] less.prems(2,3) False by fastforce
    have "len - length bs < len" "len - length bs < 2 ^ 63" "len - length bs \<le> length (rest s1)"
      using r False less.prems(2,3) by auto
    from less.IH [OF this(1) r(2) this(2,3)] obtain s2 where
      "ReadAll read (len - length bs) s1 = Some (0, take (len - length bs) (rest s1), s2)" "invar s2"
      "rest s2 = drop (len - length bs) (rest s1)" by blast
    then show ?thesis
      using r False by (subst ReadAll.simps) simp
  qed
qed

lemma ReadAll_short:
  "invar s \<Longrightarrow> len < 2 ^ 63 \<Longrightarrow> length (rest s) < len \<Longrightarrow>
     \<exists>s'. ReadAll read len s = Some (EIO, rest s, s') \<and> invar s' \<and> rest s' = []"
proof (induction len arbitrary: s rule: less_induct)
  case (less len)
  then have nz: "len \<noteq> 0" by simp
  show ?case
  proof (cases "rest s = []")
    case True
    obtain s' where "read len s = Some (0, [], s')" "invar s'" "rest s' = []"
      using read_end [OF less.prems(1,2) True] by blast
    with True nz show ?thesis
      by (subst ReadAll.simps) simp
  next
    case False
    then obtain bs s1 where r: "read len s = Some (0, bs, s1)" "invar s1" "rest s = bs @ rest s1" "bs \<noteq> []" "length bs \<le> len"
      using read_some [OF less.prems(1), of len] nz less.prems(2) by fastforce
    have "len - length bs < len" "len - length bs < 2 ^ 63" "length (rest s1) < len - length bs"
      using r nz less.prems(2,3) by auto
    from less.IH [OF this(1) r(2) this(2,3)] obtain s2 where
      "ReadAll read (len - length bs) s1 = Some (EIO, rest s1, s2)" "invar s2" "rest s2 = []" by blast
    then show ?thesis
      using r nz by (subst ReadAll.simps) simp
  qed
qed

lemma DiscardStream_all: "invar s \<Longrightarrow> \<exists>s'. DiscardStream read s = Some (0, s') \<and> invar s' \<and> rest s' = []"
proof (induction "length (rest s)" arbitrary: s rule: less_induct)
  case less
  show ?case
  proof (cases "rest s = []")
    case True
    obtain s' where "read 8192 s = Some (0, [], s')" "invar s'" "rest s' = []"
      using read_end [OF less.prems _ True, of 8192] by auto
    then show ?thesis
      by (subst DiscardStream.simps) simp
  next
    case False
    then obtain bs s1 where r: "read 8192 s = Some (0, bs, s1)" "invar s1" "rest s = bs @ rest s1" "bs \<noteq> []"
      using read_some [OF less.prems, of 8192] by fastforce
    have "length (rest s1) < length (rest s)"
      using r by simp
    then show ?thesis
      using less.hyps [OF _ r(2)] r by (subst DiscardStream.simps) simp
  qed
qed

text \<open>
  A line reader that has buffered \<open>b\<close> still has \<open>b @ rest s\<close> before it. A line ends at a carriage
  return that some byte follows; a line feed there is part of the end.
\<close>

lemma takeWhile_cr: "CHR 0x0D \<notin> set l \<Longrightarrow> takeWhile (\<lambda>c. c \<noteq> CHR 0x0D) (l @ t) = l @ takeWhile (\<lambda>c. c \<noteq> CHR 0x0D) t"
  by (induction l) auto

lemma split_cr_line:
  assumes "CHR 0x0D \<notin> set l" "b = l @ CHR 0x0D # c # m"
  shows "split_cr b = Some (l, CHR 0x0D # c # m)"
proof -
  have "takeWhile (\<lambda>c. c \<noteq> CHR 0x0D) b = l"
    using assms by (simp add: takeWhile_cr)
  then show ?thesis
    by (simp add: split_cr_def assms(2) Let_def)
qed

lemma split_cr_short:
  assumes "CHR 0x0D \<notin> set l" "b @ t = l @ CHR 0x0D # c # m" "length b \<le> length l + 1"
  shows "split_cr b = None"
proof -
  have "length (drop (length (takeWhile (\<lambda>c. c \<noteq> CHR 0x0D) b)) b) \<le> 1"
  proof (cases "length b \<le> length l")
    case True
    then have "b = take (length b) l"
      using arg_cong [OF assms(2), of "take (length b)"] by simp
    then have "CHR 0x0D \<notin> set b"
      using assms(1) by (metis in_set_takeD)
    then have t: "takeWhile (\<lambda>c. c \<noteq> CHR 0x0D) b = b"
      using takeWhile_cr [of b "[]"] by simp
    show ?thesis
      unfolding t by simp
  next
    case False
    then have "b = l @ [CHR 0x0D]"
      using arg_cong [OF assms(2), of "take (length b)"] assms(3) by (simp add: le_Suc_eq)
    then show ?thesis
      using assms(1) by (simp add: takeWhile_cr)
  qed
  then show ?thesis
    by (simp add: split_cr_def Let_def)
qed

lemma GetLine_line:
  assumes "invar s" "CHR 0x0D \<notin> set l" "b @ rest s = l @ CHR 0x0D # c # m" "length l + 2 \<le> MAX_LINE" "length b \<le> MAX_LINE"
  shows "\<exists>b' s'. GetLine read (b, s) = Some (0, l, b', s') \<and> invar s' \<and> length b' \<le> MAX_LINE \<and>
    b' @ rest s' = (if c = CHR 0x0A then m else c # m)"
  using assms
proof (induction "length (rest s)" arbitrary: b s rule: less_induct)
  case less
  show ?case
  proof (cases "length b \<le> length l + 1")
    case True
    have none: "split_cr b = None"
      by (rule split_cr_short [OF less.prems(2,3) True])
    have len: "length b < MAX_LINE"
      using True less.prems(4) by simp
    have "rest s \<noteq> []"
      using True less.prems(3) by (metis append_Nil2 length_append length_Cons add_Suc_right not_less_eq_eq
          le_add1 Suc_eq_plus1)
    then obtain bs s1 where r: "read (MAX_LINE - length b) s = Some (0, bs, s1)" "invar s1" "rest s = bs @ rest s1" "bs \<noteq> []"
      "length bs \<le> MAX_LINE - length b"
      using read_some [OF less.prems(1), of "MAX_LINE - length b"] len by (fastforce simp: MAX_LINE_def)
    have "length (rest s1) < length (rest s)" "(b @ bs) @ rest s1 = l @ CHR 0x0D # c # m" "length (b @ bs) \<le> MAX_LINE"
      using r less.prems(3) len by auto
    from less.hyps [OF this(1) r(2) less.prems(2) this(2) less.prems(4) this(3)]
    show ?thesis
      using r none len by (subst GetLine.simps) simp
  next
    case False
    then obtain b2 where b2: "b = l @ CHR 0x0D # c # b2" "m = b2 @ rest s"
      using less.prems(3) by (auto simp: append_eq_append_conv2 append_eq_Cons_conv Cons_eq_append_conv)
    then show ?thesis
      using split_cr_line [OF less.prems(2) b2(1)] less.prems(1,5) by (subst GetLine.simps) auto
  qed
qed

end

section \<open>Sinks and copying\<close>

locale byte_sink =
  fixes put :: "'t writer" and written :: "'t \<Rightarrow> string" and winvar :: "'t \<Rightarrow> bool"
  assumes write_written: "winvar t \<Longrightarrow> \<exists>n t'. put buf t = Some (0, n, t') \<and> winvar t' \<and> n \<le> length buf \<and>
    (buf \<noteq> [] \<longrightarrow> 0 < n) \<and> written t' = written t @ take n buf"
begin

lemma WriteAll_all: "winvar t \<Longrightarrow> \<exists>t'. WriteAll put buf t = Some (0, t') \<and> winvar t' \<and> written t' = written t @ buf"
proof (induction buf arbitrary: t rule: measure_induct_rule [where f = length])
  case (less buf)
  show ?case
  proof (cases "buf = []")
    case True
    then show ?thesis
      using less.prems by (subst WriteAll.simps) simp
  next
    case False
    obtain n t1 where w: "put buf t = Some (0, n, t1)" "winvar t1" "0 < n" "n \<le> length buf" "written t1 = written t @ take n buf"
      using write_written [OF less.prems, of buf] False by fastforce
    have "length (drop n buf) < length buf"
      using w(3) False by simp
    from less.IH [OF this w(2)] obtain t2 where
      "WriteAll put (drop n buf) t1 = Some (0, t2)" "winvar t2" "written t2 = written t1 @ drop n buf" by blast
    then show ?thesis
      using w False by (subst WriteAll.simps) simp
  qed
qed

end

locale stream_copy = byte_source + byte_sink
begin

lemma CopyStream_all:
  "invar s \<Longrightarrow> winvar t \<Longrightarrow> \<exists>s' t'. CopyStream read put s t = Some (0, s', t') \<and> invar s' \<and> winvar t' \<and>
     rest s' = [] \<and> written t' = written t @ rest s"
proof (induction "length (rest s)" arbitrary: s t rule: less_induct)
  case less
  show ?case
  proof (cases "rest s = []")
    case True
    obtain s1 where r: "read 8192 s = Some (0, [], s1)" "invar s1" "rest s1 = []"
      using read_end [OF less.prems(1) _ True, of 8192] by auto
    moreover have "WriteAll put [] t = Some (0, t)"
      by (subst WriteAll.simps) simp
    ultimately show ?thesis
      using less.prems True by (subst CopyStream.simps) simp
  next
    case False
    then obtain bs s1 where r: "read 8192 s = Some (0, bs, s1)" "invar s1" "rest s = bs @ rest s1" "bs \<noteq> []"
      using read_some [OF less.prems(1), of 8192] by fastforce
    obtain t1 where w: "WriteAll put bs t = Some (0, t1)" "winvar t1" "written t1 = written t @ bs"
      using WriteAll_all [OF less.prems(2), of bs] by blast
    have "length (rest s1) < length (rest s)"
      using r by simp
    from less.hyps [OF this r(2) w(2)] obtain s2 t2 where
      "CopyStream read put s1 t1 = Some (0, s2, t2)" "invar s2" "winvar t2" "rest s2 = []"
      "written t2 = written t1 @ rest s1" by blast
    then show ?thesis
      using r w by (subst CopyStream.simps) simp
  qed
qed

end

section \<open>Seekable streams\<close>

definition overwrite :: "string \<Rightarrow> nat \<Rightarrow> string \<Rightarrow> string" where
  "overwrite c pos bs = take pos c @ bs @ drop (pos + length bs) c"

lemma overwrite_end: "overwrite c (length c) bs = c @ bs"
  by (simp add: overwrite_def)

lemma overwrite_Nil: "pos \<le> length c \<Longrightarrow> overwrite c pos [] = c"
  by (simp add: overwrite_def)

lemma overwrite_append:
  "pos \<le> length c \<Longrightarrow> overwrite (overwrite c pos xs) (pos + length xs) ys = overwrite c pos (xs @ ys)"
  by (simp add: overwrite_def add.commute add.left_commute)

lemma overwrite_length: "pos \<le> length c \<Longrightarrow> length (overwrite c pos bs) = max (length c) (pos + length bs)"
  by (simp add: overwrite_def)

locale seekable_source =
  fixes read_at :: "'s reader_at" and content :: "'s \<Rightarrow> string" and sinvar :: "'s \<Rightarrow> bool"
  assumes read_at: "sinvar s \<Longrightarrow> pos \<le> length (content s) \<Longrightarrow> len < 2 ^ 63 \<Longrightarrow>
      \<exists>n s'. read_at pos len s = Some (0, take n (drop pos (content s)), s') \<and> sinvar s' \<and> content s' = content s \<and>
        n \<le> len \<and> n \<le> length (content s) - pos \<and> (n = 0 \<longrightarrow> len = 0 \<or> pos = length (content s))"

locale seekable_stream = seekable_source read_at content sinvar
  for read_at :: "'s reader_at" and write_at :: "'s writer_at" and content :: "'s \<Rightarrow> string" and sinvar :: "'s \<Rightarrow> bool" +
  assumes write_at: "sinvar s \<Longrightarrow> pos \<le> length (content s) \<Longrightarrow>
      \<exists>n s'. write_at pos buf s = Some (0, n, s') \<and> sinvar s' \<and> n \<le> length buf \<and> (buf \<noteq> [] \<longrightarrow> 0 < n) \<and>
        content s' = overwrite (content s) pos (take n buf)"
begin

lemma write_all_at_overwrites:
  "sinvar s \<Longrightarrow> pos \<le> length (content s) \<Longrightarrow>
     \<exists>s'. write_all_at write_at pos buf s = Some (0, s') \<and> sinvar s' \<and> content s' = overwrite (content s) pos buf"
proof (induction buf arbitrary: pos s rule: measure_induct_rule [where f = length])
  case (less buf)
  show ?case
  proof (cases "buf = []")
    case True
    then show ?thesis
      using less.prems by (subst write_all_at.simps) (simp add: overwrite_Nil)
  next
    case False
    obtain n s1 where w: "write_at pos buf s = Some (0, n, s1)" "sinvar s1" "0 < n" "n \<le> length buf"
      "content s1 = overwrite (content s) pos (take n buf)"
      using write_at [OF less.prems, of buf] False by fastforce
    have "length (drop n buf) < length buf" "pos + n \<le> length (content s1)"
      using w False less.prems(2) by (simp_all add: overwrite_length)
    from less.IH [OF this(1) w(2) this(2)] obtain s2 where
      "write_all_at write_at (pos + n) (drop n buf) s1 = Some (0, s2)" "sinvar s2"
      "content s2 = overwrite (content s1) (pos + n) (drop n buf)" by blast
    then show ?thesis
      using w False overwrite_append [OF less.prems(2), of "take n buf" "drop n buf"]
      by (subst write_all_at.simps) simp
  qed
qed

lemma copy_stream_at_all:
  assumes "byte_sink put written winvar"
  shows "sinvar s \<Longrightarrow> winvar t \<Longrightarrow> pos \<le> length (content s) \<Longrightarrow>
    \<exists>s' t'. copy_stream_at read_at put pos s t = Some (0, s', t') \<and> content s' = content s \<and>
      written t' = written t @ drop pos (content s)"
proof (induction "length (content s) - pos" arbitrary: pos s t rule: less_induct)
  case less
  obtain n s1 where r: "read_at pos 8192 s = Some (0, take n (drop pos (content s)), s1)" "sinvar s1"
    "content s1 = content s" "n \<le> length (content s) - pos" "n = 0 \<longrightarrow> pos = length (content s)"
    using read_at [OF less.prems(1,3), of 8192] by fastforce
  let ?bs = "take n (drop pos (content s))"
  obtain t1 where w: "WriteAll put ?bs t = Some (0, t1)" "winvar t1" "written t1 = written t @ ?bs"
    using byte_sink.WriteAll_all [OF assms less.prems(2), of ?bs] by blast
  show ?case
  proof (cases "n = 0")
    case True
    then show ?thesis
      using r w by (subst copy_stream_at.simps) simp
  next
    case False
    have "length (content s1) - (pos + n) < length (content s) - pos" "pos + n \<le> length (content s1)"
      using r less.prems(3) False by auto
    from less.hyps [OF this(1) r(2) w(2) this(2)] obtain s2 t2 where
      "copy_stream_at read_at put (pos + n) s1 t1 = Some (0, s2, t2)" "content s2 = content s1"
      "written t2 = written t1 @ drop (pos + n) (content s1)" by blast
    moreover have "?bs @ drop (pos + n) (content s) = drop pos (content s)"
      by (metis append_take_drop_id drop_drop add.commute)
    ultimately show ?thesis
      using r w False by (subst copy_stream_at.simps) simp
  qed
qed

end

sublocale seekable_source \<subseteq> source: byte_source "Seekable_Read read_at" "\<lambda>sp. drop (snd sp) (content (fst sp))"
    "\<lambda>sp. sinvar (fst sp) \<and> snd sp \<le> length (content (fst sp))"
proof
  fix sp :: "'s \<times> nat" and len :: nat
  assume sp: "sinvar (fst sp) \<and> snd sp \<le> length (content (fst sp))" and len: "len < 2 ^ 63"
  obtain s pos where eq: "sp = (s, pos)" by (cases sp)
  obtain n s' where r: "read_at pos len s = Some (0, take n (drop pos (content s)), s')" "sinvar s'" "content s' = content s"
    "n \<le> len" "n \<le> length (content s) - pos" "n = 0 \<longrightarrow> len = 0 \<or> pos = length (content s)"
    using read_at [of s pos len] sp len eq by auto
  have "drop pos (content s) = take n (drop pos (content s)) @ drop (pos + n) (content s)"
    by (metis append_take_drop_id drop_drop add.commute)
  then show "\<exists>bs sp'. Seekable_Read read_at len sp = Some (0, bs, sp') \<and>
      (sinvar (fst sp') \<and> snd sp' \<le> length (content (fst sp'))) \<and>
      drop (snd sp) (content (fst sp)) = bs @ drop (snd sp') (content (fst sp')) \<and>
      length bs \<le> len \<and> (bs = [] \<longrightarrow> len = 0 \<or> drop (snd sp) (content (fst sp)) = [])"
    using r sp eq by (auto simp: Seekable_Read_def)
qed

sublocale seekable_stream \<subseteq> sink: byte_sink "Seekable_Write write_at" "\<lambda>sp. content (fst sp)"
    "\<lambda>sp. sinvar (fst sp) \<and> snd sp = length (content (fst sp))"
proof
  fix sp :: "'s \<times> nat" and buf
  assume sp: "sinvar (fst sp) \<and> snd sp = length (content (fst sp))"
  obtain s pos where eq: "sp = (s, pos)" by (cases sp)
  obtain n s' where "write_at pos buf s = Some (0, n, s')" "sinvar s'" "n \<le> length buf" "buf \<noteq> [] \<longrightarrow> 0 < n"
    "content s' = overwrite (content s) pos (take n buf)"
    using write_at [of s pos buf] sp eq by auto
  then show "\<exists>n sp'. Seekable_Write write_at buf sp = Some (0, n, sp') \<and>
      (sinvar (fst sp') \<and> snd sp' = length (content (fst sp'))) \<and>
      n \<le> length buf \<and> (buf \<noteq> [] \<longrightarrow> 0 < n) \<and> content (fst sp') = content (fst sp) @ take n buf"
    using sp eq by (auto simp: Seekable_Write_def overwrite_end)
qed

section \<open>A window of a seekable stream\<close>

lemma partial_len_inside:
  fixes b e :: u64
  assumes "b \<le> e" "unat e \<le> 2 ^ 63" "pos \<le> unat e - unat b" "len < 2 ^ 63"
  shows "unat (partial_len b e (of_nat pos) (of_nat len)) = min len (unat e - unat b - pos)"
    and "unat (of_nat pos + b) = unat b + pos"
proof -
  have be: "unat b \<le> unat e"
    using assms(1) by (simp add: word_le_nat_alt)
  have p: "unat (of_nat pos :: u64) = pos" and l: "unat (of_nat len :: u64) = len"
    using assms(2-4) by (simp_all add: unat_of_nat)
  have s: "unat (of_nat pos + of_nat len + b) = pos + len + unat b"
    using assms(2-4) be p l by (simp add: unat_word_ariths(1) del: of_nat_add)
  have ep: "unat (e - of_nat pos) = unat e - pos"
    using assms(3) p by (subst unat_sub) (simp_all add: word_le_nat_alt)
  have "unat (e - of_nat pos - b) = unat e - pos - unat b"
    using assms(3) be ep by (subst unat_sub) (simp_all add: word_le_nat_alt)
  then show "unat (partial_len b e (of_nat pos) (of_nat len)) = min len (unat e - unat b - pos)"
    using s l assms(3) be by (auto simp: partial_len_def word_less_nat_alt)
  show "unat (of_nat pos + b) = unat b + pos"
    using assms(2,3) be p by (simp add: unat_word_ariths(1) del: of_nat_add)
qed

definition in_window :: "u64 \<Rightarrow> u64 \<Rightarrow> string \<Rightarrow> bool" where
  "in_window b e c \<longleftrightarrow> b \<le> e \<and> unat e \<le> 2 ^ 63 \<and> unat e \<le> length c"

definition window :: "u64 \<Rightarrow> u64 \<Rightarrow> string \<Rightarrow> string" where
  "window b e c = drop (unat b) (take (unat e) c)"

lemma window_length: "in_window b e c \<Longrightarrow> length (window b e c) = unat e - unat b"
  by (simp add: in_window_def window_def)

lemma take_window:
  assumes "in_window b e c" "n \<le> unat e - unat b - pos"
  shows "take n (drop pos (window b e c)) = take n (drop (unat b + pos) c)"
proof -
  have "n + pos + unat b \<le> unat e \<or> n = 0"
    using assms(2) by arith
  then show ?thesis
    by (auto simp: window_def drop_take min_def add.commute add.left_commute)
qed

context seekable_stream
begin

lemma PartialSeekable_reads:
  assumes s: "sinvar s" and w: "in_window b e (content s)" and pos: "pos \<le> length (window b e (content s))" and len: "len < 2 ^ 63"
  shows "\<exists>n s'. PartialSeekable_ReadAt read_at b e pos len s = Some (0, take n (drop pos (window b e (content s))), s') \<and>
    sinvar s' \<and> content s' = content s \<and> n \<le> len \<and> n \<le> length (window b e (content s)) - pos \<and>
    (n = 0 \<longrightarrow> len = 0 \<or> pos = length (window b e (content s)))"
proof -
  let ?len = "min len (unat e - unat b - pos)"
  have be: "b \<le> e" "unat e \<le> 2 ^ 63" "unat e \<le> length (content s)" "unat b \<le> unat e"
    using w by (simp_all add: in_window_def word_le_nat_alt)
  have pe: "pos \<le> unat e - unat b"
    using pos window_length [OF w] by simp
  have "unat b + pos \<le> length (content s)"
    using pe be by simp
  then obtain n s' where r: "read_at (unat b + pos) ?len s = Some (0, take n (drop (unat b + pos) (content s)), s')" "sinvar s'"
    "content s' = content s" "n \<le> ?len" "n = 0 \<longrightarrow> ?len = 0 \<or> unat b + pos = length (content s)"
    using read_at [OF s, of "unat b + pos" ?len] len by fastforce
  have "PartialSeekable_ReadAt read_at b e pos len s = read_at (unat b + pos) ?len s"
    using partial_len_inside [OF be(1,2) pe len] by (simp add: PartialSeekable_ReadAt_def Let_def)
  moreover have "take n (drop (unat b + pos) (content s)) = take n (drop pos (window b e (content s)))"
    using take_window [OF w, of n pos] r(4) by simp
  moreover have "n = 0 \<longrightarrow> len = 0 \<or> pos = length (window b e (content s))"
    using r(5) be pe window_length [OF w] by (auto simp: min_def split: if_splits)
  ultimately show ?thesis
    using r window_length [OF w] by auto
qed

end

sublocale seekable_stream \<subseteq> part: byte_source "Seekable_Read (PartialSeekable_ReadAt read_at b e)"
    "\<lambda>sp. drop (snd sp) (window b e (content (fst sp)))"
    "\<lambda>sp. sinvar (fst sp) \<and> in_window b e (content (fst sp)) \<and> snd sp \<le> length (window b e (content (fst sp)))" for b e
proof
  fix sp :: "'s \<times> nat" and len :: nat
  assume sp: "sinvar (fst sp) \<and> in_window b e (content (fst sp)) \<and> snd sp \<le> length (window b e (content (fst sp)))"
    and len: "len < 2 ^ 63"
  obtain s pos where eq: "sp = (s, pos)" by (cases sp)
  obtain n s' where r: "PartialSeekable_ReadAt read_at b e pos len s = Some (0, take n (drop pos (window b e (content s))), s')"
    "sinvar s'" "content s' = content s" "n \<le> len" "n \<le> length (window b e (content s)) - pos"
    "n = 0 \<longrightarrow> len = 0 \<or> pos = length (window b e (content s))"
    using PartialSeekable_reads [of s b e pos len] sp len eq by auto
  have "drop pos (window b e (content s)) = take n (drop pos (window b e (content s))) @ drop (pos + n) (window b e (content s))"
    by (metis append_take_drop_id drop_drop add.commute)
  then show "\<exists>bs sp'. Seekable_Read (PartialSeekable_ReadAt read_at b e) len sp = Some (0, bs, sp') \<and>
      (sinvar (fst sp') \<and> in_window b e (content (fst sp')) \<and> snd sp' \<le> length (window b e (content (fst sp')))) \<and>
      drop (snd sp) (window b e (content (fst sp))) = bs @ drop (snd sp') (window b e (content (fst sp'))) \<and>
      length bs \<le> len \<and> (bs = [] \<longrightarrow> len = 0 \<or> drop (snd sp) (window b e (content (fst sp))) = [])"
    using r sp eq by (auto simp: Seekable_Read_def)
qed

section \<open>Lines of a seekable stream\<close>

context seekable_stream
begin

lemma read_line_found:
  assumes "sinvar s" "pos + length str \<le> length (content s)" "drop pos (content s) = l @ e # m" "is_line_end e"
    "\<forall>c\<in>set l. \<not> is_line_end c" "\<exists>l2. l = str @ l2"
  shows "\<exists>s'. read_line (Seekable_Read read_at) Seekable_Seek pos str (s, pos + length str) = Some (0, l, s', pos + length l + 1) \<and>
    sinvar s' \<and> content s' = content s"
  using assms
proof (induction "length (content s) - (pos + length str)" arbitrary: str s rule: less_induct)
  case less
  obtain l2 where l2: "l = str @ l2"
    using less.prems(6) by blast
  have here: "drop (pos + length str) (content s) = l2 @ e # m"
    using arg_cong [OF less.prems(3), of "drop (length str)"] by (simp add: l2 add.commute)
  then have "pos + length str \<noteq> length (content s)"
    by auto
  then obtain n s1 where r: "read_at (pos + length str) 1024 s = Some (0, take n (l2 @ e # m), s1)" "sinvar s1"
    "content s1 = content s" "0 < n" "n \<le> length (content s) - (pos + length str)"
    using read_at [OF less.prems(1,2), of 1024] here by fastforce
  show ?case
  proof (cases "n \<le> length l2")
    case True
    have nl: "\<not> (\<exists>c\<in>set (take n l2). is_line_end c)"
      using less.prems(5) l2 by (auto dest: in_set_takeD)
    have ne: "l2 \<noteq> []"
      using True r(4) by auto
    have len: "length (str @ take n l2) = length str + n"
      using True by simp
    have "length (content s1) - (pos + length (str @ take n l2)) < length (content s) - (pos + length str)"
      "pos + length (str @ take n l2) \<le> length (content s1)" "drop pos (content s1) = l @ e # m"
      "\<exists>l3. l = (str @ take n l2) @ l3"
      using r less.prems(2,3) unfolding len by (auto simp: l2 intro: exI [of _ "drop n l2"])
    from less.hyps [OF this(1) r(2) this(2,3) less.prems(4,5) this(4)] show ?thesis
      using r(1,3,4) True nl ne
      by (subst read_line.simps) (simp add: Seekable_Read_def len add.assoc)
  next
    case False
    then have "take n (l2 @ e # m) = l2 @ e # take (n - length l2 - 1) m"
      by (simp add: take_Cons')
    moreover have "takeWhile (\<lambda>c. \<not> is_line_end c) (l2 @ e # t) = l2" for t
      using less.prems(4,5) l2 by (intro takeWhile_tail [THEN trans]) auto
    ultimately show ?thesis
      using r less.prems(4) by (subst read_line.simps) (simp add: Seekable_Read_def Seekable_Seek_def l2 add.assoc)
  qed
qed

lemma read_line_last:
  assumes "sinvar s" "pos + length str \<le> length (content s)" "\<forall>c\<in>set (drop (pos + length str) (content s)). \<not> is_line_end c"
  shows "\<exists>s'. read_line (Seekable_Read read_at) Seekable_Seek pos str (s, pos + length str) =
      Some (0, str @ drop (pos + length str) (content s), s', length (content s)) \<and> sinvar s' \<and> content s' = content s"
  using assms
proof (induction "length (content s) - (pos + length str)" arbitrary: str s rule: less_induct)
  case less
  let ?r = "drop (pos + length str) (content s)"
  obtain n s1 where r: "read_at (pos + length str) 1024 s = Some (0, take n ?r, s1)" "sinvar s1"
    "content s1 = content s" "n = 0 \<longrightarrow> pos + length str = length (content s)" "n \<le> length (content s) - (pos + length str)"
    using read_at [OF less.prems(1,2), of 1024] by fastforce
  show ?case
  proof (cases "n = 0")
    case True
    then show ?thesis
      using r by (subst read_line.simps) (simp add: Seekable_Read_def)
  next
    case False
    have nl: "\<not> (\<exists>c\<in>set (take n ?r). is_line_end c)" and ne: "take n ?r \<noteq> []"
      using less.prems(3) r(4,5) False by (auto dest: in_set_takeD)
    have len: "length (str @ take n ?r) = length str + n"
      using r(5) by simp
    have d: "drop (pos + length (str @ take n ?r)) (content s1) = drop n ?r"
      using r(3) unfolding len by (simp add: add.commute add.left_commute)
    have "length (content s1) - (pos + length (str @ take n ?r)) < length (content s) - (pos + length str)"
      "pos + length (str @ take n ?r) \<le> length (content s1)"
      using r(3,5) less.prems(2) False unfolding len by auto
    moreover have "\<forall>c\<in>set (drop (pos + length (str @ take n ?r)) (content s1)). \<not> is_line_end c"
      using less.prems(3) set_drop_subset [of n ?r] unfolding d by blast
    ultimately have "\<exists>s'. read_line (Seekable_Read read_at) Seekable_Seek pos (str @ take n ?r) (s1, pos + length (str @ take n ?r)) =
      Some (0, (str @ take n ?r) @ drop n ?r, s', length (content s1)) \<and> sinvar s' \<and> content s' = content s1"
      using less.hyps [of s1 "str @ take n ?r"] r(2) unfolding d by blast
    moreover have "(str @ take n ?r) @ drop n ?r = str @ ?r"
      by (simp only: append_assoc append_take_drop_id)
    ultimately have step: "\<exists>s'. read_line (Seekable_Read read_at) Seekable_Seek pos (str @ take n ?r) (s1, pos + length str + n) =
      Some (0, str @ ?r, s', length (content s)) \<and> sinvar s' \<and> content s' = content s"
      using r(3) unfolding len by (simp only: add.assoc)
    have "read_line (Seekable_Read read_at) Seekable_Seek pos str (s, pos + length str) =
      read_line (Seekable_Read read_at) Seekable_Seek pos (str @ take n ?r) (s1, pos + length str + n)"
      using r(1,5) nl ne by (subst read_line.simps) (simp add: Seekable_Read_def)
    then show ?thesis
      using step by simp
  qed
qed

end

section \<open>The string stream meets the contracts\<close>

interpretation str: seekable_stream StringStream_ReadAt StringStream_WriteAt "\<lambda>s. s" "\<lambda>_. True"
proof
  fix s :: string and pos len
  assume "pos \<le> length s"
  then show "\<exists>n s'. StringStream_ReadAt pos len s = Some (0, take n (drop pos s), s') \<and> True \<and> s' = s \<and>
        n \<le> len \<and> n \<le> length s - pos \<and> (n = 0 \<longrightarrow> len = 0 \<or> pos = length s)"
    by (intro exI [of _ "min len (length s - pos)"]) (auto simp: StringStream_ReadAt_def min_def)
next
  fix s buf :: string and pos
  assume "pos \<le> length s"
  then show "\<exists>n s'. StringStream_WriteAt pos buf s = Some (0, n, s') \<and> True \<and> n \<le> length buf \<and>
        (buf \<noteq> [] \<longrightarrow> 0 < n) \<and> s' = overwrite s pos (take n buf)"
    by (intro exI [of _ "length buf"]) (auto simp: StringStream_WriteAt_def overwrite_def)
qed

end
