(* ===== verification/Memory.thy ===== *)
theory Memory
  imports StreamLaws StdMap
begin

text \<open>
  libutil/memory_stream.cpp: a seekable stream over chunks of memory, in a map from their starting
  positions. The refinement is to the byte string it holds.
\<close>

section \<open>State and operations\<close>

type_synonym chunks = "(nat, string) smap"

record memory =
  m_chunks :: chunks
  m_capacity :: nat
  m_size :: nat

definition ROUNDUP :: nat where "ROUNDUP = 1024 * 1024"

definition Ensure :: "nat \<Rightarrow> memory \<Rightarrow> memory" where
  "Ensure sz m =
     (if sz > m_capacity m then
        (let add = ((sz - m_capacity m) + (ROUNDUP - 1)) div ROUNDUP * ROUNDUP
         in m\<lparr>m_chunks := smap_set (m_capacity m) (replicate add NUL) (m_chunks m),
              m_capacity := m_capacity m + add\<rparr>)
      else m)"

definition MemoryStream :: "nat \<Rightarrow> memory" where
  "MemoryStream hint =
     (let m = \<lparr>m_chunks = [], m_capacity = 0, m_size = 0\<rparr> in if hint \<noteq> 0 then Ensure hint m else m)"

text \<open>The entry that \<^verbatim>\<open>lower_bound\<close> and the steps back from it arrive at.\<close>

definition chunk_at :: "chunks \<Rightarrow> nat \<Rightarrow> nat \<times> string" where
  "chunk_at cs pos =
     (case smap_lower_bound cs pos of
        [] \<Rightarrow> last cs
      | (k, d) # _ \<Rightarrow> if k > pos then last (takeWhile (\<lambda>(k, d). k < pos) cs) else (k, d))"

definition Memory_WriteAt :: "memory writer_at" where
  "Memory_WriteAt pos buf m =
     (let m = Ensure (pos + length buf) m in
      if buf = [] then Some (0, 0, m)
      else
        (let (k, d) = chunk_at (m_chunks m) pos;
             chunkpos = pos - k;
             nwrite = min (length buf) (length d - chunkpos)
         in if nwrite = 0 then None
            else Some (0, nwrite,
              m\<lparr>m_size := if pos + nwrite > m_size m then pos + nwrite else m_size m,
                m_chunks := smap_set k (take chunkpos d @ take nwrite buf @ drop (chunkpos + nwrite) d) (m_chunks m)\<rparr>)))"

definition Memory_ReadAt :: "memory reader_at" where
  "Memory_ReadAt pos len m =
     (if len = 0 \<or> pos \<ge> m_size m then Some (0, [], m)
      else
        (let len = min len (m_size m - pos);
             (k, d) = chunk_at (m_chunks m) pos;
             chunkpos = pos - k;
             nread = min len (length d - chunkpos)
         in Some (0, take nread (drop chunkpos d), m)))"

definition Memory_GetLength :: "memory \<Rightarrow> nat" where
  "Memory_GetLength m = m_size m"

definition Memory_SetLength :: "nat \<Rightarrow> memory \<times> nat \<Rightarrow> u32 \<times> memory \<times> nat" where
  "Memory_SetLength len = (\<lambda>(m, pos). (0, (Ensure len m)\<lparr>m_size := len\<rparr>, if pos > len then len else pos))"

section \<open>The bytes it holds\<close>

fun chunks_ok :: "nat \<Rightarrow> chunks \<Rightarrow> bool" where
  "chunks_ok b [] \<longleftrightarrow> True"
| "chunks_ok b ((k, d) # cs) \<longleftrightarrow> k = b \<and> d \<noteq> [] \<and> chunks_ok (b + length d) cs"

definition flat :: "chunks \<Rightarrow> string" where
  "flat cs = concat (map snd cs)"

definition memory_ok :: "memory \<Rightarrow> bool" where
  "memory_ok m \<longleftrightarrow> chunks_ok 0 (m_chunks m) \<and> m_capacity m = length (flat (m_chunks m)) \<and> m_size m \<le> m_capacity m"

definition memory_content :: "memory \<Rightarrow> string" where
  "memory_content m = take (m_size m) (flat (m_chunks m))"

lemma flat_Cons [simp]: "flat ((k, d) # cs) = d @ flat cs" and flat_Nil [simp]: "flat [] = []"
  by (simp_all add: flat_def)

lemma chunks_ok_keys: "chunks_ok b cs \<Longrightarrow> k \<in> fst ` set cs \<Longrightarrow> b \<le> k \<and> k < b + length (flat cs)"
proof (induction b cs rule: chunks_ok.induct)
  case (2 b k' d cs)
  then show ?case by (cases "k = k'") force+
qed simp

lemma set_at_end:
  "chunks_ok b cs \<Longrightarrow> d \<noteq> [] \<Longrightarrow> smap_set (b + length (flat cs)) d cs = cs @ [(b + length (flat cs), d)] \<and>
     chunks_ok b (smap_set (b + length (flat cs)) d cs)"
proof (induction b cs rule: chunks_ok.induct)
  case (2 b k d' cs)
  then show ?case
    by (auto simp: add.assoc [symmetric])
qed simp

lemma ROUNDUP_enough:
  assumes "0 < n"
  shows "n \<le> (n + (ROUNDUP - 1)) div ROUNDUP * ROUNDUP"
proof -
  have "(n + (ROUNDUP - 1)) mod ROUNDUP < ROUNDUP"
    by (simp add: ROUNDUP_def)
  then show ?thesis
    using div_mult_mod_eq [of "n + (ROUNDUP - 1)" ROUNDUP] by linarith
qed

lemma Ensure_ok:
  assumes m: "memory_ok m"
  shows "memory_ok (Ensure sz m) \<and> memory_content (Ensure sz m) = memory_content m \<and>
    sz \<le> m_capacity (Ensure sz m) \<and> m_size (Ensure sz m) = m_size m \<and>
    (\<exists>k. flat (m_chunks (Ensure sz m)) = flat (m_chunks m) @ replicate k NUL)"
proof (cases "sz > m_capacity m")
  case True
  define add where "add = ((sz - m_capacity m) + (ROUNDUP - 1)) div ROUNDUP * ROUNDUP"
  have add: "sz - m_capacity m \<le> add"
    using ROUNDUP_enough [of "sz - m_capacity m"] True by (simp add: add_def)
  then have ne: "replicate add NUL \<noteq> []"
    using True by auto
  have cap: "m_capacity m = 0 + length (flat (m_chunks m))" and ok: "chunks_ok 0 (m_chunks m)"
    using m by (simp_all add: memory_ok_def)
  have s: "smap_set (m_capacity m) (replicate add NUL) (m_chunks m) = m_chunks m @ [(m_capacity m, replicate add NUL)] \<and>
      chunks_ok 0 (smap_set (m_capacity m) (replicate add NUL) (m_chunks m))"
    unfolding cap by (rule set_at_end [OF ok ne])
  have e: "Ensure sz m = m\<lparr>m_chunks := m_chunks m @ [(m_capacity m, replicate add NUL)], m_capacity := m_capacity m + add\<rparr>"
    using True s by (simp add: Ensure_def add_def Let_def)
  have f: "flat (cs @ [(k, d)]) = flat cs @ d" for cs k d
    by (simp add: flat_def)
  have ok': "chunks_ok 0 (m_chunks m @ [(m_capacity m, replicate add NUL)])"
    using conjunct2 [OF s] unfolding conjunct1 [OF s] .
  have "memory_ok (Ensure sz m)"
    using ok' m by (simp add: e memory_ok_def f)
  moreover have "memory_content (Ensure sz m) = memory_content m"
    using m by (simp add: e memory_content_def memory_ok_def f)
  moreover have "sz \<le> m_capacity (Ensure sz m)" "m_size (Ensure sz m) = m_size m"
    using add True by (simp_all add: e)
  moreover have "flat (m_chunks (Ensure sz m)) = flat (m_chunks m) @ replicate add NUL"
    by (simp add: e f)
  ultimately show ?thesis
    by blast
qed (use m in \<open>auto simp: Ensure_def intro: exI [of _ 0]\<close>)

text \<open>The chunk that holds a position below the capacity.\<close>

lemma chunk_at_split:
  assumes "chunks_ok b cs" "b \<le> pos" "pos < b + length (flat cs)"
  shows "\<exists>xs k d ys. chunk_at cs pos = (k, d) \<and> cs = xs @ (k, d) # ys \<and> k = b + length (flat xs) \<and>
    k \<le> pos \<and> pos < k + length d"
  using assms
proof (induction b cs rule: chunks_ok.induct)
  case (2 b k d cs)
  then have k: "k = b" and ok: "chunks_ok (b + length d) cs"
    by simp_all
  show ?case
  proof (cases "pos < b + length d")
    case True
    have later: "\<forall>e\<in>set cs. pos < fst e"
      using chunks_ok_keys [OF ok] True by fastforce
    have "chunk_at ((k, d) # cs) pos = (k, d)"
    proof (cases "pos = b")
      case True
      then show ?thesis
        by (simp add: chunk_at_def smap_lower_bound_def k)
    next
      case False
      then have kp: "k < pos"
        using 2(3) k by simp
      have tw: "takeWhile (\<lambda>(k, d). k < pos) cs = []"
        using later by (cases cs) auto
      show ?thesis
      proof (cases cs)
        case Nil
        then show ?thesis
          using kp by (simp add: chunk_at_def smap_lower_bound_def)
      next
        case (Cons e cs')
        then show ?thesis
          using kp tw later by (cases e) (simp add: chunk_at_def smap_lower_bound_def)
      qed
    qed
    then show ?thesis
      using True 2(3) k by (intro exI [of _ "[]"] exI [of _ k] exI [of _ d] exI [of _ cs]) simp
  next
    case False
    then have "b + length d \<le> pos" "pos < (b + length d) + length (flat cs)"
      using 2(4) by simp_all
    from 2(1) [OF ok this] obtain xs k' d' ys where ih: "chunk_at cs pos = (k', d')" "cs = xs @ (k', d') # ys"
      "k' = (b + length d) + length (flat xs)" "k' \<le> pos" "pos < k' + length d'" by blast
    have kp: "k < pos"
      using False 2(2) k by (cases d) auto
    have "chunk_at ((k, d) # cs) pos = chunk_at cs pos"
    proof -
      have ne: "cs \<noteq> []"
        using ih(2) by simp
      have lb: "smap_lower_bound ((k, d) # cs) pos = smap_lower_bound cs pos"
        using kp by (simp add: smap_lower_bound_def)
      show ?thesis
      proof (cases "smap_lower_bound cs pos")
        case Nil
        then show ?thesis
          using ne by (simp add: chunk_at_def lb)
      next
        case (Cons e r)
        have "takeWhile (\<lambda>(k, d). k < pos) cs \<noteq> [] \<or> \<not> pos < fst e"
        proof (cases xs)
          case Nil
          then show ?thesis
            using ih(2,4) Cons by (cases "k' < pos") (auto simp: smap_lower_bound_def)
        next
          case (Cons x xs')
          have "fst x < pos"
            using ih(2,3,4,5) 2(2) Cons by (cases x; cases "snd x") auto
          then show ?thesis
            using ih(2) Cons by (cases x) auto
        qed
        then show ?thesis
          using kp Cons by (cases e) (auto simp: chunk_at_def lb)
      qed
    qed
    then show ?thesis
      using ih by (intro exI [of _ "(k, d) # xs"] exI [of _ k'] exI [of _ d'] exI [of _ ys]) (simp add: k)
  qed
qed simp

section \<open>It is a seekable stream\<close>

lemma chunks_ok_append:
  "chunks_ok b (xs @ ys) \<longleftrightarrow> chunks_ok b xs \<and> chunks_ok (b + length (flat xs)) ys"
  by (induction b xs rule: chunks_ok.induct) (auto simp: add.assoc)

lemma flat_append [simp]: "flat (xs @ ys) = flat xs @ flat ys"
  by (simp add: flat_def)

lemma replace_chunk:
  "chunks_ok b (xs @ (k, d) # ys) \<Longrightarrow> smap_set k d' (xs @ (k, d) # ys) = xs @ (k, d') # ys"
proof (induction b xs rule: chunks_ok.induct)
  case (2 b k' e xs)
  then have ok: "chunks_ok (b + length e) (xs @ (k, d) # ys)" and e: "e \<noteq> []" "k' = b"
    by simp_all
  have "k \<in> fst ` set (xs @ (k, d) # ys)"
    by simp
  then have "k' < k"
    using chunks_ok_keys [OF ok] e by (cases e) fastforce+
  then show ?case
    using 2(1) [OF ok] by simp
qed simp

lemma Memory_ReadAt_reads:
  assumes m: "memory_ok m"
  shows "\<exists>n. Memory_ReadAt pos len m = Some (0, take n (drop pos (memory_content m)), m) \<and>
    n \<le> len \<and> n \<le> length (memory_content m) - pos \<and> (n = 0 \<longrightarrow> len = 0 \<or> length (memory_content m) \<le> pos)"
proof (cases "len = 0 \<or> m_size m \<le> pos")
  case True
  then show ?thesis
    using m by (intro exI [of _ 0]) (auto simp: Memory_ReadAt_def memory_content_def memory_ok_def)
next
  case False
  have lc: "length (memory_content m) = m_size m"
    using m by (simp add: memory_content_def memory_ok_def)
  obtain xs k d ys where c: "chunk_at (m_chunks m) pos = (k, d)" "m_chunks m = xs @ (k, d) # ys"
    "k = length (flat xs)" "k \<le> pos" "pos < k + length d"
    using chunk_at_split [of 0 "m_chunks m" pos] m False by (auto simp: memory_ok_def)
  define n where "n = min (min len (m_size m - pos)) (length d - (pos - k))"
  have nb: "n \<le> len" "n \<le> m_size m - pos" "n \<le> length d - (pos - k)" "n \<noteq> 0"
    using False c by (simp_all add: n_def)
  have "take n (drop pos (memory_content m)) = take n (drop pos (flat (m_chunks m)))"
    using nb(2) by (simp add: memory_content_def drop_take min_absorb1)
  also have "\<dots> = take n (drop (pos - k) d)"
    using nb(3) c(3,4) by (simp add: c(2))
  finally have "Memory_ReadAt pos len m = Some (0, take n (drop pos (memory_content m)), m)"
    using False c(1) by (simp add: Memory_ReadAt_def Let_def n_def)
  then show ?thesis
    using nb lc by auto
qed

lemma take_overwrite:
  assumes "p \<le> s" "s \<le> length c" "p + n \<le> length c" "n \<le> length buf"
  shows "take (max s (p + n)) (overwrite c p (take n buf)) = overwrite (take s c) p (take n buf)"
  using assms by (cases "s \<le> p + n") (simp_all add: overwrite_def max_def take_drop min_absorb1 min_absorb2)

lemma Memory_WriteAt_flat:
  assumes m: "memory_ok m"
  shows "\<exists>n m'. Memory_WriteAt pos buf m = Some (0, n, m') \<and> memory_ok m' \<and> n \<le> length buf \<and> (buf \<noteq> [] \<longrightarrow> 0 < n) \<and>
    pos + n \<le> length (flat (m_chunks (Ensure (pos + length buf) m))) \<and>
    flat (m_chunks m') = overwrite (flat (m_chunks (Ensure (pos + length buf) m))) pos (take n buf) \<and>
    m_size m' = (if buf = [] then m_size m else max (m_size m) (pos + n))"
proof -
  define m1 where "m1 = Ensure (pos + length buf) m"
  have m1: "memory_ok m1" "pos + length buf \<le> m_capacity m1" "m_size m1 = m_size m"
    using Ensure_ok [OF m, of "pos + length buf"] by (simp_all add: m1_def)
  have lf: "m_capacity m1 = length (flat (m_chunks m1))" and ok: "chunks_ok 0 (m_chunks m1)"
    using m1(1) by (simp_all add: memory_ok_def)
  show ?thesis
  proof (cases "buf = []")
    case True
    have "Memory_WriteAt pos buf m = Some (0, 0, m1)"
      by (simp add: Memory_WriteAt_def True m1_def)
    moreover have "flat (m_chunks m1) = overwrite (flat (m_chunks m1)) pos []" "pos \<le> length (flat (m_chunks m1))"
      using m1(2) lf by (simp_all add: overwrite_Nil)
    ultimately show ?thesis
      using True m1 unfolding m1_def [symmetric] by auto
  next
    case False
    have "pos < 0 + length (flat (m_chunks m1))"
      using m1(2) False unfolding lf by (cases buf) auto
    from chunk_at_split [OF ok _ this] obtain xs k d ys where c: "chunk_at (m_chunks m1) pos = (k, d)"
      "m_chunks m1 = xs @ (k, d) # ys" "k = length (flat xs)" "k \<le> pos" "pos < k + length d"
      by auto
    define n where "n = min (length buf) (length d - (pos - k))"
    define d' where "d' = take (pos - k) d @ take n buf @ drop (pos - k + n) d"
    define m2 where "m2 = m1\<lparr>m_size := if pos + n > m_size m1 then pos + n else m_size m1, m_chunks := smap_set k d' (m_chunks m1)\<rparr>"
    have nb: "n \<le> length buf" "0 < n" "n \<le> length d - (pos - k)"
      using False c by (simp_all add: n_def)
    have w: "Memory_WriteAt pos buf m = Some (0, n, m2)"
      using False c(1) nb by (simp add: Memory_WriteAt_def m1_def [symmetric] Let_def n_def [symmetric] m2_def d'_def)
    have ld: "length d' = length d"
      using nb c by (simp add: d'_def)
    have set: "m_chunks m2 = xs @ (k, d') # ys"
      using replace_chunk [of 0 xs k d ys] ok by (simp add: m2_def c(2))
    have fl: "flat (m_chunks m2) = overwrite (flat (m_chunks m1)) pos (take n buf)"
      using nb c(3-5) unfolding set c(2) overwrite_def d'_def by simp
    have cap: "m_capacity m2 = m_capacity m1"
      by (simp add: m2_def)
    have lfl: "length (flat (m_chunks m2)) = length (flat (m_chunks m1))"
      using ld by (simp add: set c(2))
    have room: "pos + n \<le> m_capacity m1"
      using m1(2) nb by simp
    have "chunks_ok 0 (m_chunks m2)"
      using ok ld by (auto simp: set c(2) chunks_ok_append)
    then have "memory_ok m2"
      using m1(1) room unfolding memory_ok_def cap lfl by (simp add: m2_def)
    moreover have "m_size m2 = max (m_size m) (pos + n)"
      using m1(3) by (simp add: m2_def max_def)
    ultimately show ?thesis
      using w nb fl room False lfl lf unfolding m1_def [symmetric] by auto
  qed
qed

lemma Memory_WriteAt_overwrites:
  assumes m: "memory_ok m" and pos: "pos \<le> m_size m"
  shows "\<exists>n m'. Memory_WriteAt pos buf m = Some (0, n, m') \<and> memory_ok m' \<and> n \<le> length buf \<and> (buf \<noteq> [] \<longrightarrow> 0 < n) \<and>
    memory_content m' = overwrite (memory_content m) pos (take n buf)"
proof -
  define m1 where "m1 = Ensure (pos + length buf) m"
  have m1: "memory_content m1 = memory_content m" "pos + length buf \<le> length (flat (m_chunks m1))" "m_size m1 = m_size m"
    "m_size m1 \<le> length (flat (m_chunks m1))"
    using Ensure_ok [OF m, of "pos + length buf"] by (simp_all add: m1_def memory_ok_def)
  obtain n m' where w: "Memory_WriteAt pos buf m = Some (0, n, m')" "memory_ok m'" "n \<le> length buf" "buf \<noteq> [] \<longrightarrow> 0 < n"
    "flat (m_chunks m') = overwrite (flat (m_chunks m1)) pos (take n buf)"
    "m_size m' = (if buf = [] then m_size m else max (m_size m) (pos + n))"
    using Memory_WriteAt_flat [OF m, of pos buf] unfolding m1_def by blast
  have sz: "m_size m' = max (m_size m) (pos + n)"
    using w(3,6) pos by auto
  have "memory_content m' = take (max (m_size m1) (pos + n)) (overwrite (flat (m_chunks m1)) pos (take n buf))"
    using w(5) sz m1(3) by (simp add: memory_content_def)
  also have "\<dots> = overwrite (take (m_size m1) (flat (m_chunks m1))) pos (take n buf)"
    using m1 pos w(3) by (intro take_overwrite) simp_all
  finally have "memory_content m' = overwrite (memory_content m) pos (take n buf)"
    using m1(1) by (simp add: memory_content_def)
  then show ?thesis
    using w(1-4) by blast
qed

interpretation mem: seekable_stream Memory_ReadAt Memory_WriteAt memory_content memory_ok
proof
  fix m :: memory and pos len
  assume "memory_ok m" "pos \<le> length (memory_content m)"
  then show "\<exists>n s'. Memory_ReadAt pos len m = Some (0, take n (drop pos (memory_content m)), s') \<and> memory_ok s' \<and>
      memory_content s' = memory_content m \<and> n \<le> len \<and> n \<le> length (memory_content m) - pos \<and>
      (n = 0 \<longrightarrow> len = 0 \<or> pos = length (memory_content m))"
    using Memory_ReadAt_reads [of m pos len] by fastforce
next
  fix m :: memory and pos buf
  assume "memory_ok m" "pos \<le> length (memory_content m)"
  then show "\<exists>n s'. Memory_WriteAt pos buf m = Some (0, n, s') \<and> memory_ok s' \<and> n \<le> length buf \<and> (buf \<noteq> [] \<longrightarrow> 0 < n) \<and>
      memory_content s' = overwrite (memory_content m) pos (take n buf)"
    using Memory_WriteAt_overwrites [of m pos buf] by (simp add: memory_content_def memory_ok_def)
qed

end
