(* ===== verification/StreamProps.thy ===== *)
theory StreamProps
  imports Memory
begin

text \<open>
  What the streams do together: a window of a memory stream copied to a string stream, the memory
  stream as a refinement of its byte string, lines of a source, and what happens outside a window.
\<close>

section \<open>Copying a window\<close>

interpretation window_copy: stream_copy "Seekable_Read (PartialSeekable_ReadAt Memory_ReadAt b e)"
    "\<lambda>sp. drop (snd sp) (window b e (memory_content (fst sp)))"
    "\<lambda>sp. memory_ok (fst sp) \<and> in_window b e (memory_content (fst sp)) \<and> snd sp \<le> length (window b e (memory_content (fst sp)))"
    "Seekable_Write StringStream_WriteAt" fst "\<lambda>sp. True \<and> snd sp = length (fst sp)" for b e
  by (intro stream_copy.intro mem.part.byte_source_axioms str.sink.byte_sink_axioms)

text \<open>C16: Copying a window of a memory stream appends exactly the bytes of the window to a string stream and succeeds.\<close>
theorem copy_window:
  assumes "memory_ok m" "in_window b e (memory_content m)"
  shows "\<exists>s'. CopyStream (Seekable_Read (PartialSeekable_ReadAt Memory_ReadAt b e)) (Seekable_Write StringStream_WriteAt)
      (m, 0) (t, length t) =
    Some (0, s', t @ drop (unat b) (take (unat e) (memory_content m)), length t + (unat e - unat b))"
proof -
  obtain s' t' where c: "CopyStream (Seekable_Read (PartialSeekable_ReadAt Memory_ReadAt b e)) (Seekable_Write StringStream_WriteAt)
      (m, 0) (t, length t) = Some (0, s', t')" "snd t' = length (fst t')" "fst t' = t @ window b e (memory_content m)"
    using window_copy.CopyStream_all [of "(m, 0)" b e "(t, length t)"] assms by auto
  then have "t' = (t @ window b e (memory_content m), length t + (unat e - unat b))"
    using window_length [OF assms(2)] by (cases t') simp
  then show ?thesis
    using c(1) by (auto simp: window_def)
qed

definition example_memory :: memory where
  "example_memory = \<lparr>m_chunks = [(0, ''ABCDEF''), (6, ''GHIJ  '')], m_capacity = 12, m_size = 10\<rparr>"

lemma example_memory: "memory_ok example_memory" "memory_content example_memory = ''ABCDEFGHIJ''"
  by (simp_all add: memory_ok_def example_memory_def memory_content_def flat_def)

theorem copy_window_witness:
  "\<exists>s'. CopyStream (Seekable_Read (PartialSeekable_ReadAt Memory_ReadAt 4 8)) (Seekable_Write StringStream_WriteAt)
      (example_memory, 0) (''-'', 1) = Some (0, s', ''-EFGH'', 5)"
proof -
  have "in_window 4 8 (memory_content example_memory)"
    by (simp add: in_window_def example_memory)
  from copy_window [OF example_memory(1) this, of "''-''"] show ?thesis
    by (simp add: example_memory)
qed

section \<open>Memory refines a string\<close>

text \<open>C17: Reading and writing a memory stream is reading and writing the string it stands for: each call
  transfers a prefix of what the same call on the string would, and leaves a stream for the resulting string.\<close>
theorem memory_refines_string:
  assumes "memory_ok m" "pos \<le> length (memory_content m)"
  shows "(\<exists>n m'. Memory_WriteAt pos buf m = Some (0, n, m') \<and> memory_ok m' \<and> n \<le> length buf \<and> (buf = [] \<or> 0 < n) \<and>
      StringStream_WriteAt pos (take n buf) (memory_content m) = Some (0, n, memory_content m')) \<and>
    (\<exists>n bytes. Memory_ReadAt pos len m = Some (0, bytes, m) \<and> n \<le> len \<and>
      (len = 0 \<or> pos = length (memory_content m) \<or> 0 < n) \<and>
      StringStream_ReadAt pos n (memory_content m) = Some (0, bytes, memory_content m))"
proof (rule conjI)
  obtain n m' where "Memory_WriteAt pos buf m = Some (0, n, m')" "memory_ok m'" "n \<le> length buf" "buf \<noteq> [] \<longrightarrow> 0 < n"
    "memory_content m' = overwrite (memory_content m) pos (take n buf)"
    using mem.write_at [OF assms, of buf] by blast
  then show "\<exists>n m'. Memory_WriteAt pos buf m = Some (0, n, m') \<and> memory_ok m' \<and> n \<le> length buf \<and> (buf = [] \<or> 0 < n) \<and>
      StringStream_WriteAt pos (take n buf) (memory_content m) = Some (0, n, memory_content m')"
    using assms(2) by (auto simp: StringStream_WriteAt_def overwrite_def intro!: exI [of _ n])
  obtain n where "Memory_ReadAt pos len m = Some (0, take n (drop pos (memory_content m)), m)" "n \<le> len"
    "n = 0 \<longrightarrow> len = 0 \<or> length (memory_content m) \<le> pos"
    using Memory_ReadAt_reads [OF assms(1), of pos len] by blast
  then show "\<exists>n bytes. Memory_ReadAt pos len m = Some (0, bytes, m) \<and> n \<le> len \<and>
      (len = 0 \<or> pos = length (memory_content m) \<or> 0 < n) \<and>
      StringStream_ReadAt pos n (memory_content m) = Some (0, bytes, memory_content m)"
    using assms(2) by (auto simp: StringStream_ReadAt_def intro!: exI [of _ n])
qed

theorem memory_refines_string_witness:
  "\<exists>n m'. Memory_WriteAt 4 ''xyz'' example_memory = Some (0, n, m') \<and> n \<le> 3 \<and> 0 < n \<and>
     StringStream_WriteAt 4 (take n ''xyz'') ''ABCDEFGHIJ'' = Some (0, n, memory_content m')"
proof -
  have "4 \<le> length (memory_content example_memory)"
    by (simp add: example_memory)
  from memory_refines_string [OF example_memory(1) this, of "''xyz''"] show ?thesis
    unfolding example_memory(2) by fastforce
qed

section \<open>Lines\<close>

text \<open>C18: The line reader delivers the text up to the next carriage return, consumes it with a line feed
  that follows it, and loses nothing of the rest, wherever the buffer ends.\<close>
theorem GetLine_string:
  assumes "CHR 0x0D \<notin> set l" "buf @ drop pos txt = l @ CHR 0x0D # c # m" "length l + 2 \<le> MAX_LINE" "length buf \<le> MAX_LINE"
    "pos \<le> length txt"
  shows "\<exists>buf' pos' txt'. GetLine (Seekable_Read StringStream_ReadAt) (buf, txt, pos) = Some (0, l, buf', txt', pos') \<and>
    length buf' \<le> MAX_LINE \<and> pos' \<le> length txt' \<and> buf' @ drop pos' txt' = (if c = CHR 0x0A then m else c # m)"
  using str.source.GetLine_line [of "(txt, pos)" l buf c m] assms by fastforce

theorem GetLine_string_witness:
  "\<exists>buf' pos' txt'. GetLine (Seekable_Read StringStream_ReadAt) ([], ''GET / HTTP/1.1'' @ [CHR 0x0D, CHR 0x0A] @ ''Host'', 0) =
     Some (0, ''GET / HTTP/1.1'', buf', txt', pos') \<and> buf' @ drop pos' txt' = ''Host''"
  using GetLine_string [of "''GET / HTTP/1.1''" "[]" 0 "''GET / HTTP/1.1'' @ [CHR 0x0D, CHR 0x0A] @ ''Host''" "CHR 0x0A" "''Host''"]
  by (fastforce simp: MAX_LINE_def)

section \<open>Outside the window\<close>

text \<open>A read of a windowed stream at a position beyond the window (but below \<open>2^64\<close> in the
  backing stream) asks the backing stream for almost \<open>2^64\<close> bytes, whatever the size of the buffer.\<close>
theorem PartialSeekable_beyond:
  assumes "b \<le> e" "unat e - unat b < pos" "unat b + pos + len < 2 ^ 64"
  shows "unat (partial_len b e (of_nat pos) (of_nat len)) = 2 ^ 64 + unat e - unat b - pos \<and>
    PartialSeekable_ReadAt rd b e pos len s = None"
proof -
  have be: "unat b \<le> unat e"
    using assms(1) by (simp add: word_le_nat_alt)
  have p: "unat (of_nat pos :: u64) = pos" and l: "unat (of_nat len :: u64) = len"
    using assms(3) by (simp_all add: unat_of_nat)
  have s: "unat (of_nat pos + of_nat len + b) = pos + len + unat b"
    using assms(3) p l by (simp add: unat_word_ariths(1) del: of_nat_add)
  have past: "partial_len b e (of_nat pos) (of_nat len) = e - of_nat pos - b"
    using s assms(2) be by (auto simp: partial_len_def word_less_nat_alt)
  have eb: "e - b = of_nat (unat e - unat b)"
    using be by (simp add: of_nat_diff)
  have "e - of_nat pos - b = - (of_nat (pos - (unat e - unat b)) :: u64)"
    using assms(2) by (simp add: of_nat_diff eb [symmetric])
  moreover have "unat (- (of_nat k :: u64)) = 2 ^ 64 - k" if "0 < k" "k < 2 ^ 64" for k
  proof -
    have "- (of_nat k :: u64) = of_nat (2 ^ 64 - k)"
      using that(2) by (simp add: of_nat_diff)
    then show ?thesis
      using that(1) by (simp add: unat_of_nat)
  qed
  moreover have "0 < pos - (unat e - unat b)" "pos - (unat e - unat b) < 2 ^ 64"
    using assms(2,3) by arith+
  ultimately have u: "unat (e - of_nat pos - b) = 2 ^ 64 - (pos - (unat e - unat b))"
    by metis
  then have eq: "unat (partial_len b e (of_nat pos) (of_nat len)) = 2 ^ 64 + unat e - unat b - pos"
    using past assms(2,3) be by simp
  have "PartialSeekable_ReadAt rd b e pos len s = None"
    unfolding PartialSeekable_ReadAt_def Let_def eq by (rule if_P) (use assms(3) in arith)
  with eq show ?thesis
    by blast
qed

theorem PartialSeekable_beyond_witness: "PartialSeekable_ReadAt Memory_ReadAt 4 8 5 10 example_memory = None"
  using PartialSeekable_beyond [of 4 8 5 10 Memory_ReadAt example_memory] by simp

end
