(* ===== verification/WriteBuffer.thy ===== *)
theory WriteBuffer
  imports StreamProps
begin

text \<open>
  libutil/async\_write\_buffer.cpp: two buffers that tasks on another thread write to the backing
  stream. The waits are guards of the steps; what a thread does between two waits is one step.
\<close>

section \<open>State and operations\<close>

type_synonym 's write_all = "nat \<Rightarrow> string \<Rightarrow> 's \<Rightarrow> (u32 \<times> 's) option"

text \<open>
  \<^verbatim>\<open>aw_queue\<close> holds the tasks given to the task queue and not yet run. A buffer is as long as
  what has been copied into it; the rest of its \<^verbatim>\<open>BUFSIZE\<close> bytes is uninitialised.
\<close>

record 's awb =
  aw_stream :: 's
  aw_queue :: "nat list"
  aw_busy :: "nat \<Rightarrow> bool"
  aw_filling :: nat
  aw_bufpos :: nat
  aw_buf :: "nat \<Rightarrow> string"
  aw_offset :: "nat \<Rightarrow> nat"
  aw_current :: nat
  aw_error :: u32

definition BUFSIZE :: nat where "BUFSIZE = 128 * 1024"

definition AsyncWriteBuffer :: "'s \<Rightarrow> 's awb" where
  "AsyncWriteBuffer s = \<lparr>aw_stream = s, aw_queue = [], aw_busy = (\<lambda>_. False), aw_filling = 0, aw_bufpos = 0,
     aw_buf = (\<lambda>_. []), aw_offset = (\<lambda>_. 0), aw_current = 0, aw_error = 0\<rparr>"

definition Task_Run :: "'s write_all \<Rightarrow> nat \<Rightarrow> 's awb \<Rightarrow> (u32 \<times> 's awb) option" where
  "Task_Run wa w a =
     (if aw_error a \<noteq> 0 then Some (aw_error a, a)
      else do {
        (rc, s) \<leftarrow> wa (aw_offset a w) (take BUFSIZE (aw_buf a w)) (aw_stream a);
        let a = a\<lparr>aw_stream := s\<rparr>;
        let a = (if rc \<noteq> 0 then a\<lparr>aw_error := rc\<rparr> else a);
        Some (0, a\<lparr>aw_busy := (aw_busy a)(w := False)\<rparr>) })"

definition aw_idle :: "'s awb \<Rightarrow> bool" where
  "aw_idle a \<longleftrightarrow> \<not> (aw_busy a 0 \<or> aw_busy a 1)"

text \<open>\<^verbatim>\<open>SynchronousFlush\<close> once it has waited for both tasks.\<close>

definition SynchronousFlush :: "'s write_all \<Rightarrow> 's awb \<Rightarrow> 's awb option" where
  "SynchronousFlush wa a = do {
     s \<leftarrow> (if aw_bufpos a \<noteq> 0
           then do { (rc, s) \<leftarrow> wa (aw_current a) (take (aw_bufpos a) (aw_buf a (aw_filling a))) (aw_stream a); Some s }
           else Some (aw_stream a));
     Some (a\<lparr>aw_stream := s, aw_current := aw_current a + aw_bufpos a, aw_bufpos := 0\<rparr>) }"

definition aw_append :: "string \<Rightarrow> 's awb \<Rightarrow> u32 \<times> nat \<times> 's awb" where
  "aw_append buffer a =
     (let a = (if aw_bufpos a = 0 then a\<lparr>aw_filling := if \<not> aw_busy a 0 then 0 else 1\<rparr> else a);
          f = aw_filling a;
          accept = min (length buffer) (BUFSIZE - aw_bufpos a);
          a = a\<lparr>aw_buf := (aw_buf a)(f := take (aw_bufpos a) (aw_buf a f) @ take accept buffer @
                                       drop (aw_bufpos a + accept) (aw_buf a f)),
                aw_bufpos := aw_bufpos a + accept\<rparr>
      in if aw_bufpos a = BUFSIZE
         then (0, accept, a\<lparr>aw_busy := (aw_busy a)(f := True), aw_offset := (aw_offset a)(f := aw_current a),
                 aw_current := aw_current a + aw_bufpos a, aw_queue := aw_queue a @ [f], aw_bufpos := 0\<rparr>)
         else (0, accept, a))"

definition aw_WriteAt :: "'s write_all \<Rightarrow> nat \<Rightarrow> string \<Rightarrow> 's awb \<Rightarrow> (u32 \<times> nat \<times> 's awb) option" where
  "aw_WriteAt wa pos buffer a =
     (if aw_error a \<noteq> 0 then Some (aw_error a, 0, a)
      else if pos \<noteq> aw_current a + aw_bufpos a
      then do { a \<leftarrow> SynchronousFlush wa a; Some (aw_append buffer (a\<lparr>aw_current := pos\<rparr>)) }
      else Some (aw_append buffer a))"

text \<open>What \<^verbatim>\<open>WriteAt\<close> waits for.\<close>

definition aw_can_write :: "nat \<Rightarrow> 's awb \<Rightarrow> bool" where
  "aw_can_write pos a \<longleftrightarrow> aw_error a \<noteq> 0 \<or>
     (if pos \<noteq> aw_current a + aw_bufpos a then aw_idle a else aw_bufpos a \<noteq> 0 \<or> \<not> (aw_busy a 0 \<and> aw_busy a 1))"

definition aw_ReadAt :: "'s write_all \<Rightarrow> 's reader_at \<Rightarrow> nat \<Rightarrow> nat \<Rightarrow> 's awb \<Rightarrow> (u32 \<times> string \<times> 's awb) option" where
  "aw_ReadAt wa rd pos len a = do {
     a \<leftarrow> SynchronousFlush wa a;
     (rc, bytes, s) \<leftarrow> rd pos len (aw_stream a);
     Some (rc, bytes, a\<lparr>aw_stream := s\<rparr>) }"

definition aw_GetLength :: "'s write_all \<Rightarrow> ('s \<Rightarrow> nat) \<Rightarrow> 's awb \<Rightarrow> (nat \<times> 's awb) option" where
  "aw_GetLength wa len a = do { a \<leftarrow> SynchronousFlush wa a; Some (len (aw_stream a), a) }"

definition aw_SetLength :: "'s write_all \<Rightarrow> (nat \<Rightarrow> 's \<Rightarrow> u32 \<times> 's) \<Rightarrow> nat \<Rightarrow> 's awb \<times> nat \<Rightarrow> (u32 \<times> 's awb \<times> nat) option" where
  "aw_SetLength wa set_len len = (\<lambda>(a, pos). do {
     a \<leftarrow> SynchronousFlush wa a;
     let (rc, s) = set_len len (aw_stream a);
     Some (if rc \<noteq> 0 then (rc, a\<lparr>aw_stream := s\<rparr>, pos)
           else (0, a\<lparr>aw_stream := s\<rparr>, if pos > len then len else pos)) })"

text \<open>A step, with the bytes the client wrote in it and where.\<close>

inductive aw_step :: "'s write_all \<Rightarrow> 's awb \<Rightarrow> (nat \<times> string) list \<Rightarrow> 's awb \<Rightarrow> bool" for wa where
  task: "w \<in> set (aw_queue a) \<Longrightarrow> Task_Run wa w (a\<lparr>aw_queue := remove1 w (aw_queue a)\<rparr>) = Some (rc, a') \<Longrightarrow> aw_step wa a [] a'"
| put: "aw_can_write pos a \<Longrightarrow> aw_WriteAt wa pos buffer a = Some (rc, n, a') \<Longrightarrow> aw_step wa a [(pos, take n buffer)] a'"
| flush: "aw_idle a \<Longrightarrow> SynchronousFlush wa a = Some a' \<Longrightarrow> aw_step wa a [] a'"

inductive aw_run :: "'s write_all \<Rightarrow> 's awb \<Rightarrow> (nat \<times> string) list \<Rightarrow> 's awb \<Rightarrow> bool" for wa where
  start: "aw_run wa a [] a"
| more: "aw_run wa a ws a' \<Longrightarrow> aw_step wa a' us a'' \<Longrightarrow> aw_run wa a (ws @ us) a''"

lemma aw_run_trans:
  assumes "aw_run wa a ws a'" "aw_run wa a' us a''"
  shows "aw_run wa a (ws @ us) a''"
  using assms(2,1)
proof (induction rule: aw_run.induct)
  case (more a' us b vs b')
  then show ?case
    using aw_run.more [of wa a "ws @ us" b vs b'] by simp
qed simp

text \<open>Waiting tasks run one after the other, without the client.\<close>

fun run_tasks :: "'s write_all \<Rightarrow> nat list \<Rightarrow> 's awb \<Rightarrow> 's awb option" where
  "run_tasks wa [] a = Some a"
| "run_tasks wa (w # order) a =
     (if w \<in> set (aw_queue a) then do {
        (rc, a) \<leftarrow> Task_Run wa w (a\<lparr>aw_queue := remove1 w (aw_queue a)\<rparr>);
        run_tasks wa order a }
      else None)"

section \<open>Bytes at positions\<close>

type_synonym bytes = "(nat \<Rightarrow> char) \<times> nat"

definition patch :: "bytes \<Rightarrow> nat \<Rightarrow> string \<Rightarrow> bytes" where
  "patch c pos buf = (\<lambda>i. if pos \<le> i \<and> i < pos + length buf then buf ! (i - pos) else fst c i,
     if buf = [] then snd c else max (snd c) (pos + length buf))"

lemma patch_Nil [simp]: "patch c pos [] = c"
  by (cases c) (auto simp: patch_def fun_eq_iff)

lemma patch_append: "patch (patch c pos xs) (pos + length xs) ys = patch c pos (xs @ ys)"
  by (auto simp: patch_def fun_eq_iff nth_append)

lemma patch_commute:
  "p + length xs \<le> q \<or> q + length ys \<le> p \<Longrightarrow> patch (patch c p xs) q ys = patch (patch c q ys) p xs"
  by (auto simp: patch_def fun_eq_iff)

definition patches :: "bytes \<Rightarrow> (nat \<times> string) list \<Rightarrow> bytes" where
  "patches c ws = foldl (\<lambda>c (pos, buf). patch c pos buf) c ws"

text \<open>
  The bytes a client has written: those of the stream, of the buffers waiting for their task, and of
  the buffer being filled. The invariant keeps these apart, so that the tasks may run in any order.
\<close>

definition pending :: "nat \<Rightarrow> 's awb \<Rightarrow> bytes \<Rightarrow> bytes" where
  "pending w a c = (if aw_busy a w then patch c (aw_offset a w) (aw_buf a w) else c)"

definition aw_content :: "('s \<Rightarrow> bytes) \<Rightarrow> 's awb \<Rightarrow> bytes" where
  "aw_content content a =
     patch (pending 1 a (pending 0 a (content (aw_stream a)))) (aw_current a) (take (aw_bufpos a) (aw_buf a (aw_filling a)))"

definition aw_ok :: "('s \<Rightarrow> bool) \<Rightarrow> 's awb \<Rightarrow> bool" where
  "aw_ok sinvar a \<longleftrightarrow> sinvar (aw_stream a) \<and> aw_error a = 0 \<and> distinct (aw_queue a) \<and> set (aw_queue a) = {w. aw_busy a w} \<and>
     set (aw_queue a) \<subseteq> {0, 1} \<and> aw_bufpos a < BUFSIZE \<and> aw_filling a \<in> {0, 1} \<and>
     (aw_bufpos a > 0 \<longrightarrow> \<not> aw_busy a (aw_filling a) \<and> aw_bufpos a \<le> length (aw_buf a (aw_filling a))) \<and>
     (\<forall>w. length (aw_buf a w) \<le> BUFSIZE) \<and>
     (\<forall>w. aw_busy a w \<longrightarrow> length (aw_buf a w) = BUFSIZE \<and> aw_offset a w + BUFSIZE \<le> aw_current a) \<and>
     (aw_busy a 0 \<and> aw_busy a 1 \<longrightarrow> aw_offset a 0 + BUFSIZE \<le> aw_offset a 1 \<or> aw_offset a 1 + BUFSIZE \<le> aw_offset a 0)"

section \<open>On a stream that takes every write\<close>

locale backing =
  fixes wa :: "'s write_all" and content :: "'s \<Rightarrow> bytes" and sinvar :: "'s \<Rightarrow> bool"
  assumes wa: "sinvar s \<Longrightarrow> \<exists>s'. wa pos buf s = Some (0, s') \<and> sinvar s' \<and> content s' = patch (content s) pos buf"
begin

lemma aw_ok_idle: "aw_ok sinvar a \<Longrightarrow> aw_idle a \<Longrightarrow> aw_queue a = [] \<and> (\<forall>w. \<not> aw_busy a w)"
proof -
  assume a: "aw_ok sinvar a" "aw_idle a"
  have busy: "w \<in> set (aw_queue a) \<longleftrightarrow> aw_busy a w" and two: "w \<in> set (aw_queue a) \<Longrightarrow> w = 0 \<or> w = 1" for w
    using a(1) by (auto simp: aw_ok_def)
  have "\<not> aw_busy a 0" "\<not> aw_busy a 1"
    using a(2) by (simp_all add: aw_idle_def)
  then have "w \<notin> set (aw_queue a)" for w
    using busy two by metis
  then show ?thesis
    using busy by (cases "aw_queue a") auto
qed

lemma aw_content_idle:
  "aw_idle a \<Longrightarrow> aw_content content a = patch (content (aw_stream a)) (aw_current a) (take (aw_bufpos a) (aw_buf a (aw_filling a)))"
  by (simp add: aw_content_def pending_def aw_idle_def)

lemma AsyncWriteBuffer_ok: "sinvar s \<Longrightarrow> aw_ok sinvar (AsyncWriteBuffer s) \<and> aw_content content (AsyncWriteBuffer s) = content s"
  by (simp add: aw_ok_def AsyncWriteBuffer_def BUFSIZE_def aw_content_def pending_def)

lemma SynchronousFlush_ok:
  assumes a: "aw_ok sinvar a" "aw_idle a"
  shows "\<exists>a'. SynchronousFlush wa a = Some a' \<and> aw_ok sinvar a' \<and> aw_idle a' \<and> aw_bufpos a' = 0 \<and>
    aw_content content a' = aw_content content a \<and> content (aw_stream a') = aw_content content a"
proof -
  let ?d = "take (aw_bufpos a) (aw_buf a (aw_filling a))"
  have "\<exists>s. (if aw_bufpos a \<noteq> 0 then do { (rc, s) \<leftarrow> wa (aw_current a) ?d (aw_stream a); Some s } else Some (aw_stream a)) = Some s \<and>
    sinvar s \<and> content s = aw_content content a"
  proof (cases "aw_bufpos a = 0")
    case True
    then show ?thesis
      using a by (simp add: aw_content_idle aw_ok_def)
  next
    case False
    have "sinvar (aw_stream a)"
      using a(1) by (simp add: aw_ok_def)
    from wa [OF this, of "aw_current a" ?d] show ?thesis
      using False a(2) by (auto simp: aw_content_idle)
  qed
  then obtain s where s: "SynchronousFlush wa a = Some (a\<lparr>aw_stream := s, aw_current := aw_current a + aw_bufpos a, aw_bufpos := 0\<rparr>)"
    "sinvar s" "content s = aw_content content a"
    unfolding SynchronousFlush_def by (auto simp del: not_gr_zero)
  let ?a' = "a\<lparr>aw_stream := s, aw_current := aw_current a + aw_bufpos a, aw_bufpos := 0\<rparr>"
  have "aw_idle ?a'"
    using a(2) by (simp add: aw_idle_def)
  moreover have "aw_ok sinvar ?a'"
    using a s(2) aw_ok_idle [OF a] by (simp add: aw_ok_def BUFSIZE_def)
  ultimately show ?thesis
    using s by (simp add: aw_content_idle)
qed

lemma Task_Run_ok:
  assumes a: "aw_ok sinvar a" and w: "w \<in> set (aw_queue a)"
  shows "\<exists>a'. Task_Run wa w (a\<lparr>aw_queue := remove1 w (aw_queue a)\<rparr>) = Some (0, a') \<and> aw_ok sinvar a' \<and> aw_content content a' = aw_content content a \<and>
    aw_queue a' = remove1 w (aw_queue a)"
proof -
  have inv: "sinvar (aw_stream a)" and err: "aw_error a = 0" and busy: "aw_busy a w" and w01: "w = 0 \<or> w = 1"
    and len: "length (aw_buf a w) = BUFSIZE"
    using a w by (auto simp: aw_ok_def)
  obtain s where s: "wa (aw_offset a w) (aw_buf a w) (aw_stream a) = Some (0, s)" "sinvar s"
    "content s = patch (content (aw_stream a)) (aw_offset a w) (aw_buf a w)"
    using wa [OF inv] by blast
  let ?a' = "a\<lparr>aw_queue := remove1 w (aw_queue a), aw_stream := s, aw_busy := (aw_busy a)(w := False)\<rparr>"
  have "Task_Run wa w (a\<lparr>aw_queue := remove1 w (aw_queue a)\<rparr>) = Some (0, ?a')"
    using err s(1) len by (simp add: Task_Run_def)
  moreover have "aw_ok sinvar ?a'"
    using a s(2) by (auto simp: aw_ok_def)
  moreover have "aw_content content ?a' = aw_content content a"
  proof -
    have dis: "aw_busy a 0 \<and> aw_busy a 1 \<longrightarrow> aw_offset a 0 + length (aw_buf a 0) \<le> aw_offset a 1 \<or>
        aw_offset a 1 + length (aw_buf a 1) \<le> aw_offset a 0"
      using a by (auto simp: aw_ok_def)
    show ?thesis
      using w01 busy dis s(3) patch_commute [of "aw_offset a 0" "aw_buf a 0" "aw_offset a 1" "aw_buf a 1"]
      by (auto simp: aw_content_def pending_def)
  qed
  ultimately show ?thesis
    by fastforce
qed

lemma aw_append_ok:
  assumes a: "aw_ok sinvar a" and free: "aw_bufpos a \<noteq> 0 \<or> \<not> (aw_busy a 0 \<and> aw_busy a 1)"
  shows "\<exists>n a'. aw_append buffer a = (0, n, a') \<and> aw_ok sinvar a' \<and> n \<le> length buffer \<and> (buffer \<noteq> [] \<longrightarrow> 0 < n) \<and>
    aw_content content a' = patch (aw_content content a) (aw_current a + aw_bufpos a) (take n buffer)"
proof -
  define a1 where "a1 = (if aw_bufpos a = 0 then a\<lparr>aw_filling := if \<not> aw_busy a 0 then 0 else 1\<rparr> else a)"
  define f where "f = aw_filling a1"
  define n where "n = min (length buffer) (BUFSIZE - aw_bufpos a)"
  define buf where "buf = take (aw_bufpos a) (aw_buf a f) @ take n buffer @ drop (aw_bufpos a + n) (aw_buf a f)"
  define a2 where "a2 = a1\<lparr>aw_buf := (aw_buf a)(f := buf), aw_bufpos := aw_bufpos a + n\<rparr>"
  have a1: "aw_bufpos a1 = aw_bufpos a" "aw_buf a1 = aw_buf a" "aw_busy a1 = aw_busy a" "aw_current a1 = aw_current a"
    "aw_queue a1 = aw_queue a" "aw_error a1 = aw_error a" "aw_stream a1 = aw_stream a" "aw_offset a1 = aw_offset a"
    by (simp_all add: a1_def)
  have f: "f \<in> {0, 1}" "\<not> aw_busy a f" "aw_bufpos a \<le> length (aw_buf a f)"
    using a free by (auto simp: f_def a1_def aw_ok_def)
  have nb: "n \<le> length buffer" "buffer \<noteq> [] \<longrightarrow> 0 < n" "aw_bufpos a + n \<le> BUFSIZE"
    using a by (auto simp: n_def aw_ok_def)
  have lf: "length (aw_buf a f) \<le> BUFSIZE"
    using a by (simp add: aw_ok_def)
  have c1: "aw_content content a1 = aw_content content a"
    by (simp add: aw_content_def pending_def a1_def)
  have bl: "length buf \<le> BUFSIZE" "aw_bufpos a + n \<le> length buf" "take (aw_bufpos a + n) buf = take (aw_bufpos a) (aw_buf a f) @ take n buffer"
    using nb f(3) lf by (simp_all add: buf_def)
  have ff: "aw_filling a2 = f" "aw_bufpos a2 = aw_bufpos a + n" "aw_buf a2 = (aw_buf a)(f := buf)" "aw_busy a2 = aw_busy a"
    "aw_current a2 = aw_current a" "aw_queue a2 = aw_queue a" "aw_error a2 = aw_error a" "aw_stream a2 = aw_stream a" "aw_offset a2 = aw_offset a"
    by (simp_all add: a2_def a1 f_def)
  have ok2: "aw_bufpos a2 < BUFSIZE \<Longrightarrow> aw_ok sinvar a2"
    using a f bl unfolding aw_ok_def ff by auto
  have c2: "aw_content content a2 = patch (aw_content content a) (aw_current a + aw_bufpos a) (take n buffer)"
  proof -
    have p: "pending w a2 c = pending w a1 c" for w c
      using f(2) by (auto simp: pending_def ff a1)
    have l: "length (take (aw_bufpos a) (aw_buf a f)) = aw_bufpos a"
      using f(3) by simp
    have c1': "aw_content content a1 = patch (pending 1 a1 (pending 0 a1 (content (aw_stream a)))) (aw_current a) (take (aw_bufpos a) (aw_buf a f))"
      unfolding aw_content_def f_def a1 ..
    show ?thesis
      using patch_append [of _ "aw_current a" "take (aw_bufpos a) (aw_buf a f)" "take n buffer"] unfolding l
      by (simp add: c1 [symmetric] c1' aw_content_def [of content a2] p ff bl(3))
  qed
  define a3 where "a3 = a2\<lparr>aw_busy := (aw_busy a)(f := True), aw_offset := (aw_offset a)(f := aw_current a),
        aw_current := aw_current a + aw_bufpos a2, aw_queue := aw_queue a @ [f], aw_bufpos := 0\<rparr>"
  have full: "take (aw_bufpos a) (aw_buf a f) @ take n buffer @ drop BUFSIZE (aw_buf a f) = buf" if "aw_bufpos a + n = BUFSIZE"
    using that by (simp add: buf_def)
  have app: "aw_append buffer a = (if aw_bufpos a2 = BUFSIZE then (0, n, a3) else (0, n, a2))"
    by (simp add: aw_append_def Let_def a1_def [symmetric] a1 f_def [symmetric] n_def [symmetric] buf_def [symmetric] full a2_def a3_def)
  show ?thesis
  proof (cases "aw_bufpos a2 = BUFSIZE")
    case False
    then show ?thesis
      using app ok2 nb c2 bl(2) by (simp add: ff(2))
  next
    case True
    then have "aw_append buffer a = (0, n, a3)"
      by (simp add: app)
    moreover have lb: "length buf = BUFSIZE"
      using bl True by (simp add: ff)
    moreover have "aw_ok sinvar a3"
      using a f lb True unfolding aw_ok_def a3_def by (auto simp: ff(1,3-) BUFSIZE_def)
    moreover have "aw_content content a3 = aw_content content a2"
    proof -
      have tb: "take BUFSIZE buf = buf" "take (aw_bufpos a + n) buf = buf"
        using lb bl(2) True ff(2) by simp_all
      have dis: "aw_busy a w \<longrightarrow> aw_offset a w + length (aw_buf a w) \<le> aw_current a" for w
        using a by (simp add: aw_ok_def)
      show ?thesis
        using f(1,2) dis [of 0] dis [of 1] True patch_commute [of "aw_offset a 1" "aw_buf a 1" "aw_current a" buf]
        by (auto simp: aw_content_def pending_def a3_def ff tb)
    qed
    ultimately show ?thesis
      using nb c2 by auto
  qed
qed

lemma aw_WriteAt_ok:
  assumes a: "aw_ok sinvar a" and can: "aw_can_write pos a"
  shows "\<exists>n a'. aw_WriteAt wa pos buffer a = Some (0, n, a') \<and> aw_ok sinvar a' \<and> n \<le> length buffer \<and> (buffer \<noteq> [] \<longrightarrow> 0 < n) \<and>
    aw_content content a' = patch (aw_content content a) pos (take n buffer)"
proof (cases "pos = aw_current a + aw_bufpos a")
  case True
  have "aw_bufpos a \<noteq> 0 \<or> \<not> (aw_busy a 0 \<and> aw_busy a 1)"
    using can a True by (auto simp: aw_can_write_def aw_ok_def)
  then show ?thesis
    using aw_append_ok [OF a, of buffer] a True by (auto simp: aw_WriteAt_def aw_ok_def)
next
  case False
  have idle: "aw_idle a"
    using can a False by (simp add: aw_can_write_def aw_ok_def)
  obtain a1 where a1: "SynchronousFlush wa a = Some a1" "aw_ok sinvar a1" "aw_idle a1" "aw_bufpos a1 = 0" "aw_content content a1 = aw_content content a"
    "content (aw_stream a1) = aw_content content a"
    using SynchronousFlush_ok [OF a idle] by blast
  define a2 where "a2 = a1\<lparr>aw_current := pos\<rparr>"
  have ok2: "aw_ok sinvar a2"
    using a1(2,4) aw_ok_idle [OF a1(2,3)] by (simp add: a2_def aw_ok_def)
  have i2: "aw_idle a2" "aw_bufpos a2 = 0" "aw_current a2 = pos"
    using a1 by (simp_all add: a2_def aw_idle_def)
  have c2: "aw_content content a2 = aw_content content a"
    using a1(6) by (simp add: aw_content_idle [OF i2(1)] i2(2)) (simp add: a2_def)
  have "aw_WriteAt wa pos buffer a = Some (aw_append buffer a2)"
    using False a a1(1) by (simp add: aw_WriteAt_def aw_ok_def a2_def)
  moreover have "aw_bufpos a2 \<noteq> 0 \<or> \<not> (aw_busy a2 0 \<and> aw_busy a2 1)"
    using i2(1) by (simp add: aw_idle_def)
  ultimately show ?thesis
    using aw_append_ok [OF ok2, of buffer] by (auto simp: c2 i2)
qed

text \<open>The pending tasks can all run, in any order, and then nothing keeps the client waiting.\<close>

lemma tasks_finish:
  "aw_ok sinvar a \<Longrightarrow> distinct order \<Longrightarrow> set order = set (aw_queue a) \<Longrightarrow>
     \<exists>a'. run_tasks wa order a = Some a' \<and> aw_run wa a [] a' \<and> aw_ok sinvar a' \<and> aw_idle a'"
proof (induction order arbitrary: a)
  case Nil
  then have "\<not> aw_busy a w" for w
    by (simp add: aw_ok_def)
  then show ?case
    using Nil.prems(1) by (auto simp: aw_idle_def intro: aw_run.start)
next
  case (Cons w order)
  have w: "w \<in> set (aw_queue a)"
    using Cons.prems(3) by auto
  obtain a1 where a1: "Task_Run wa w (a\<lparr>aw_queue := remove1 w (aw_queue a)\<rparr>) = Some (0, a1)" "aw_ok sinvar a1"
    "aw_queue a1 = remove1 w (aw_queue a)"
    using Task_Run_ok [OF Cons.prems(1) w] by blast
  have "set order = set (aw_queue a1)"
    using Cons.prems w unfolding a1(3) by (auto simp: aw_ok_def)
  then obtain a' where a': "run_tasks wa order a1 = Some a'" "aw_run wa a1 [] a'" "aw_ok sinvar a'" "aw_idle a'"
    using Cons.IH [OF a1(2)] Cons.prems(2) by auto
  have "aw_run wa a [] a'"
    using aw_run_trans [OF aw_run.more [OF aw_run.start aw_step.task [OF w a1(1)]] a'(2)] by simp
  then show ?case
    using w a1(1) a' by auto
qed

lemma aw_step_ok:
  assumes "aw_step wa a us a'" "aw_ok sinvar a"
  shows "aw_ok sinvar a' \<and> aw_content content a' = patches (aw_content content a) us"
  using assms
proof (induction rule: aw_step.induct)
  case (task w a rc a')
  then show ?case
    using Task_Run_ok [OF task(3,1)] by (auto simp: patches_def)
next
  case (put pos a buffer rc n a')
  then show ?case
    using aw_WriteAt_ok [OF put(3,1), of buffer] by (auto simp: patches_def)
next
  case (flush a a')
  then show ?case
    using SynchronousFlush_ok [OF flush(3,1)] by (auto simp: patches_def)
qed

lemma aw_run_ok:
  "aw_run wa a ws a' \<Longrightarrow> aw_ok sinvar a \<Longrightarrow> aw_ok sinvar a' \<and> aw_content content a' = patches (aw_content content a) ws"
proof (induction rule: aw_run.induct)
  case (more a ws a' us a'')
  then show ?case
    using aw_step_ok [OF more.hyps(2)] by (simp add: patches_def)
qed (simp add: patches_def)

lemma aw_run_flush:
  assumes "sinvar s" "aw_run wa (AsyncWriteBuffer s) ws a" "aw_idle a"
  shows "\<exists>a'. SynchronousFlush wa a = Some a' \<and> sinvar (aw_stream a') \<and> content (aw_stream a') = patches (content s) ws"
proof -
  have ok: "aw_ok sinvar a" "aw_content content a = patches (content s) ws"
    using aw_run_ok [OF assms(2)] AsyncWriteBuffer_ok [OF assms(1)] by simp_all
  from SynchronousFlush_ok [OF ok(1) assms(3)] show ?thesis
    by (auto simp: ok(2)) (simp add: aw_ok_def)
qed

end

section \<open>On a memory stream\<close>

definition memory_bytes :: "memory \<Rightarrow> bytes" where
  "memory_bytes m = (\<lambda>i. if i < length (flat (m_chunks m)) then flat (m_chunks m) ! i else NUL, m_size m)"

definition memory_write :: "memory write_all" where
  "memory_write = WriteAllAt (READABLE OR WRITABLE OR SEEKABLE) Memory_WriteAt"

lemma Memory_WriteAt_patch:
  assumes m: "memory_ok m"
  shows "\<exists>n m'. Memory_WriteAt pos buf m = Some (0, n, m') \<and> memory_ok m' \<and> n \<le> length buf \<and> (buf \<noteq> [] \<longrightarrow> 0 < n) \<and>
    memory_bytes m' = patch (memory_bytes m) pos (take n buf)"
proof -
  define c where "c = flat (m_chunks (Ensure (pos + length buf) m))"
  obtain k where k: "c = flat (m_chunks m) @ replicate k NUL"
    using Ensure_ok [OF m, of "pos + length buf"] by (auto simp: c_def)
  obtain n m' where w: "Memory_WriteAt pos buf m = Some (0, n, m')" "memory_ok m'" "n \<le> length buf" "buf \<noteq> [] \<longrightarrow> 0 < n"
    "pos + n \<le> length c" "flat (m_chunks m') = overwrite c pos (take n buf)"
    "m_size m' = (if buf = [] then m_size m else max (m_size m) (pos + n))"
    using Memory_WriteAt_flat [OF m, of pos buf] unfolding c_def by blast
  have len: "length (overwrite c pos (take n buf)) = length c"
    using w(3,5) by (simp add: overwrite_def)
  have nth: "overwrite c pos (take n buf) ! i = (if pos \<le> i \<and> i < pos + n then buf ! (i - pos) else c ! i)"
    if "i < length c" for i
    using w(3,5) that by (auto simp: overwrite_def nth_append min_def)
  have "fst (memory_bytes m) i = (if i < length c then c ! i else NUL)"
    "fst (memory_bytes m') i = (if i < length c then overwrite c pos (take n buf) ! i else NUL)" for i
    using len by (auto simp: memory_bytes_def k nth_append w(6))
  then have "fst (memory_bytes m') i = fst (patch (memory_bytes m) pos (take n buf)) i" for i
    using nth w(3,5) by (auto simp: patch_def min_absorb2)
  moreover have "snd (memory_bytes m') = snd (patch (memory_bytes m) pos (take n buf))"
    using w(3,4,7) by (auto simp: memory_bytes_def patch_def)
  ultimately have "memory_bytes m' = patch (memory_bytes m) pos (take n buf)"
    by (simp add: prod_eq_iff fun_eq_iff)
  then show ?thesis
    using w(1-4) by blast
qed

lemma memory_write_patch:
  "memory_ok m \<Longrightarrow> \<exists>m'. memory_write pos buf m = Some (0, m') \<and> memory_ok m' \<and> memory_bytes m' = patch (memory_bytes m) pos buf"
proof -
  have flags: "(READABLE OR WRITABLE OR SEEKABLE) AND WRITABLE \<noteq> 0" "(READABLE OR WRITABLE OR SEEKABLE) AND SEEKABLE \<noteq> 0"
    by (simp_all add: READABLE_def WRITABLE_def SEEKABLE_def)
  have "memory_ok m \<Longrightarrow> \<exists>m'. write_all_at Memory_WriteAt pos buf m = Some (0, m') \<and> memory_ok m' \<and>
      memory_bytes m' = patch (memory_bytes m) pos buf"
  proof (induction buf arbitrary: pos m rule: measure_induct_rule [where f = length])
    case (less buf)
    show ?case
    proof (cases "buf = []")
      case True
      then show ?thesis
        using less.prems by (subst write_all_at.simps) simp
    next
      case False
      obtain n m1 where w: "Memory_WriteAt pos buf m = Some (0, n, m1)" "memory_ok m1" "n \<le> length buf" "0 < n"
        "memory_bytes m1 = patch (memory_bytes m) pos (take n buf)"
        using Memory_WriteAt_patch [OF less.prems, of pos buf] False by blast
      have "length (drop n buf) < length buf"
        using w False by simp
      from less.IH [OF this w(2), of "pos + n"] obtain m2 where
        "write_all_at Memory_WriteAt (pos + n) (drop n buf) m1 = Some (0, m2)" "memory_ok m2"
        "memory_bytes m2 = patch (memory_bytes m1) (pos + n) (drop n buf)" by blast
      moreover have "patch (patch c pos (take n buf)) (pos + n) (drop n buf) = patch c pos buf" for c
        using patch_append [of c pos "take n buf" "drop n buf"] w(3) by simp
      ultimately show ?thesis
        using w False by (subst write_all_at.simps) simp
    qed
  qed
  then show "memory_ok m \<Longrightarrow> ?thesis"
    using flags by (simp add: memory_write_def WriteAllAt_def)
qed

interpretation awm: backing memory_write memory_bytes memory_ok
  by unfold_locales (rule memory_write_patch)

text \<open>C19: However the background tasks are interleaved with the client's writes, once the buffer is flushed the memory
  stream holds what writing the accepted bytes directly, in the client's order, would have made of it.\<close>
theorem async_write_refines:
  assumes "memory_ok m" "aw_run memory_write (AsyncWriteBuffer m) ws a" "aw_idle a"
  shows "\<exists>a'. SynchronousFlush memory_write a = Some a' \<and> memory_ok (aw_stream a') \<and>
    memory_bytes (aw_stream a') = foldl (\<lambda>c (pos, buf). patch c pos buf) (memory_bytes m) ws"
  using awm.aw_run_flush [OF assms] by (simp add: patches_def)

definition one_write :: "memory awb" where
  "one_write = snd (snd (aw_append ''ab'' (AsyncWriteBuffer example_memory)))"

lemma one_write_run: "aw_run memory_write (AsyncWriteBuffer example_memory) [(0, ''ab'')] one_write" "aw_idle one_write"
proof -
  have "aw_append ''ab'' (AsyncWriteBuffer example_memory) = (0, 2, one_write)"
    by (simp add: one_write_def aw_append_def AsyncWriteBuffer_def BUFSIZE_def)
  then have "aw_WriteAt memory_write 0 ''ab'' (AsyncWriteBuffer example_memory) = Some (0, 2, one_write)"
    by (simp add: aw_WriteAt_def) (simp add: AsyncWriteBuffer_def)
  then have "aw_step memory_write (AsyncWriteBuffer example_memory) [(0, take 2 ''ab'')] one_write"
    by (rule aw_step.put [rotated]) (simp add: aw_can_write_def AsyncWriteBuffer_def)
  from aw_run.more [OF aw_run.start this]
  show "aw_run memory_write (AsyncWriteBuffer example_memory) [(0, ''ab'')] one_write"
    by (simp add: numeral_2_eq_2)
  show "aw_idle one_write"
    by (simp add: one_write_def aw_append_def AsyncWriteBuffer_def BUFSIZE_def aw_idle_def)
qed

theorem async_write_refines_witness:
  "\<exists>a'. SynchronousFlush memory_write one_write = Some a' \<and> memory_bytes (aw_stream a') = patch (memory_bytes example_memory) 0 ''ab''"
  using async_write_refines [OF example_memory(1) one_write_run] by auto


text \<open>Two full buffers are waiting for their tasks.\<close>

definition two_buffers :: "'s \<Rightarrow> 's awb" where
  "two_buffers s = snd (snd (aw_append (replicate BUFSIZE CHR ''x'')
     (snd (snd (aw_append (replicate BUFSIZE CHR ''x'') (AsyncWriteBuffer s))))))"

lemma two_buffers:
  "two_buffers s = \<lparr>aw_stream = s, aw_queue = [0, 1], aw_busy = (\<lambda>_. False)(0 := True, 1 := True), aw_filling = 1, aw_bufpos = 0,
     aw_buf = (\<lambda>_. [])(0 := replicate BUFSIZE CHR ''x'', 1 := replicate BUFSIZE CHR ''x''),
     aw_offset = (\<lambda>_. 0)(0 := 0, 1 := BUFSIZE), aw_current = BUFSIZE + BUFSIZE, aw_error = 0\<rparr>"
proof -
  have "BUFSIZE \<noteq> 0"
    by (simp add: BUFSIZE_def)
  then show ?thesis
    by (simp add: two_buffers_def aw_append_def AsyncWriteBuffer_def Let_def)
qed

lemma two_buffers_run: "\<exists>ws. aw_run wa (AsyncWriteBuffer s) ws (two_buffers s)"
proof -
  have size: "0 < BUFSIZE"
    by (simp add: BUFSIZE_def)
  let ?full = "replicate BUFSIZE CHR ''x''"
  obtain n1 a1 where a1: "aw_append ?full (AsyncWriteBuffer s) = (0, n1, a1)" "aw_error a1 = 0" "aw_current a1 = BUFSIZE" "aw_bufpos a1 = 0"
    "\<not> aw_busy a1 1"
    using size by (simp add: aw_append_def AsyncWriteBuffer_def Let_def)
  obtain n2 a2 where a2: "aw_append ?full a1 = (0, n2, a2)"
    using size a1(4) by (simp add: aw_append_def Let_def)
  have "aw_WriteAt wa 0 ?full (AsyncWriteBuffer s) = Some (0, n1, a1)" "aw_WriteAt wa BUFSIZE ?full a1 = Some (0, n2, a2)"
    using a1 a2 by (simp_all add: aw_WriteAt_def) (simp add: AsyncWriteBuffer_def)
  moreover have "aw_can_write 0 (AsyncWriteBuffer s)" "aw_can_write BUFSIZE a1"
    using a1 by (simp_all add: aw_can_write_def AsyncWriteBuffer_def)
  ultimately have "aw_run wa (AsyncWriteBuffer s) ([] @ [(0, take n1 ?full)] @ [(BUFSIZE, take n2 ?full)]) a2"
    using aw_run.more [OF aw_run.more [OF aw_run.start aw_step.put] aw_step.put] by fastforce
  moreover have "a2 = two_buffers s"
    using a1(1) a2 by (simp add: two_buffers_def)
  ultimately show ?thesis by blast
qed


section \<open>When the stream fails\<close>

text \<open>C21: When a task finds that an earlier one failed, it returns without marking its buffer free; no step ever frees
  it again, so that a flush, and with it reading, the length and the destructor, waits forever.\<close>
theorem async_error_stuck:
  assumes "aw_error a \<noteq> 0" "aw_busy a w" "w = 0 \<or> w = 1" "aw_run wa a ws a'"
  shows "aw_busy a' w \<and> \<not> aw_idle a'"
proof -
  have step: "aw_step wa b us b' \<Longrightarrow> aw_error b \<noteq> 0 \<and> aw_busy b w \<Longrightarrow> aw_error b' \<noteq> 0 \<and> aw_busy b' w" for b us b'
    by (induction rule: aw_step.induct) (use assms(3) in \<open>auto simp: Task_Run_def aw_WriteAt_def aw_idle_def\<close>)
  have "aw_run wa b us b' \<Longrightarrow> aw_error b \<noteq> 0 \<and> aw_busy b w \<Longrightarrow> aw_error b' \<noteq> 0 \<and> aw_busy b' w" for b us b'
    by (induction rule: aw_run.induct) (use step in blast)+
  then show ?thesis
    using assms by (auto simp: aw_idle_def)
qed

text \<open>Two full buffers are waiting for their tasks when the disk fills up: the first task reports it, the second one stays.\<close>

definition full_disk :: "unit write_all" where
  "full_disk pos buf s = Some (EIO, s)"

theorem async_error_stuck_witness:
  "\<exists>rc a. Task_Run full_disk 0 (two_buffers ()\<lparr>aw_queue := [1]\<rparr>) = Some (rc, a) \<and>
     (\<forall>ws a'. aw_run full_disk a ws a' \<longrightarrow> \<not> aw_idle a')"
proof -
  obtain a where a: "Task_Run full_disk 0 (two_buffers ()\<lparr>aw_queue := [1]\<rparr>) = Some (0, a)" "aw_error a \<noteq> 0" "aw_busy a 1"
    by (simp add: Task_Run_def full_disk_def two_buffers)
  then show ?thesis
    using async_error_stuck [of a 1 full_disk] by auto
qed

end
