(* ===== verification/MultiStreams.thy ===== *)
theory MultiStreams
  imports StreamProps
begin

text \<open>
  libutil/multi\_stream.cpp: one input and up to four outputs that read it independently from a backing
  stream. A callback is a value; an operation returns the callbacks it calls, which act on other objects.
\<close>

section \<open>State and operations\<close>

definition MAX_OP :: nat where "MAX_OP = 4"

record ('s, 'c) multi =
  ms_stm :: 's
  ms_size :: nat
  ms_inputpos :: nat
  ms_noutputs :: nat
  ms_outputposes :: "nat list"
  ms_callbacks :: "'c option list"

definition MultiStream :: "'s \<Rightarrow> nat \<Rightarrow> ('s, 'c) multi" where
  "MultiStream stm sz = \<lparr>ms_stm = stm, ms_size = sz, ms_inputpos = 0, ms_noutputs = 0,
     ms_outputposes = replicate MAX_OP 0, ms_callbacks = replicate MAX_OP None\<rparr>"

text \<open>An output is its index; nothing bounds the index here.\<close>

definition CreateOutput :: "('s, 'c) multi \<Rightarrow> u32 \<times> nat option \<times> ('s, 'c) multi" where
  "CreateOutput m =
     (if ms_inputpos m \<noteq> 0 then (EINVAL, None, m)
      else (0, Some (ms_noutputs m), m\<lparr>ms_noutputs := ms_noutputs m + 1\<rparr>))"

definition OutputRead :: "'s reader_at \<Rightarrow> nat \<Rightarrow> nat \<Rightarrow> ('s, 'c) multi \<Rightarrow> (u32 \<times> string \<times> ('s, 'c) multi) option" where
  "OutputRead rd ix len m =
     (if ix \<ge> MAX_OP then None
      else if ms_outputposes m ! ix = ms_size m then Some (0, [], m)
      else if ms_outputposes m ! ix = ms_size m \<or> len = 0 then Some (0, [], m)
      else if \<not> ms_inputpos m \<ge> ms_outputposes m ! ix then None
      else
        (let offset = ms_inputpos m - ms_outputposes m ! ix in
         if offset = 0 then Some (EWOULDBLOCK, [], m)
         else do {
           (rc, bytes, stm) \<leftarrow> rd (ms_outputposes m ! ix) (min offset len) (ms_stm m);
           let m = m\<lparr>ms_stm := stm\<rparr>;
           Some (if rc \<noteq> 0 then (rc, [], m)
                 else (0, bytes, m\<lparr>ms_outputposes := (ms_outputposes m)[ix := ms_outputposes m ! ix + length bytes]\<rparr>)) }))"

definition OutputWait :: "nat \<Rightarrow> 'c \<Rightarrow> ('s, 'c) multi \<Rightarrow> (u32 \<times> 'c list \<times> ('s, 'c) multi) option" where
  "OutputWait ix callback m =
     (if ix \<ge> MAX_OP then None
      else if ms_outputposes m ! ix \<noteq> ms_inputpos m then Some (0, [callback], m)
      else Some (0, [], m\<lparr>ms_callbacks := (ms_callbacks m)[ix := Some callback]\<rparr>))"

text \<open>The loop over the outputs: the callbacks it calls, and those it leaves.\<close>

fun take_callbacks :: "nat \<Rightarrow> 'c option list \<Rightarrow> 'c list \<times> 'c option list" where
  "take_callbacks 0 cbs = ([], cbs)"
| "take_callbacks n [] = ([], [])"
| "take_callbacks (Suc n) (cb # cbs) =
     (let (called, left) = take_callbacks n cbs in ((case cb of Some c \<Rightarrow> c # called | None \<Rightarrow> called), None # left))"

definition MultiStream_Write ::
  "'s writer_at \<Rightarrow> string \<Rightarrow> ('s, 'c) multi \<Rightarrow> (u32 \<times> nat \<times> 'c list \<times> ('s, 'c) multi) option" where
  "MultiStream_Write wr buffer m =
     (if buffer = [] then Some (0, 0, [], m)
      else do {
        (rc, wrote, stm) \<leftarrow> wr (ms_inputpos m) buffer (ms_stm m);
        let m = m\<lparr>ms_stm := stm\<rparr>;
        (if rc \<noteq> 0 then Some (rc, 0, [], m)
         else if ms_noutputs m > MAX_OP then None
         else
           (let (called, left) = take_callbacks (ms_noutputs m) (ms_callbacks m)
            in Some (0, wrote, called, m\<lparr>ms_inputpos := ms_inputpos m + wrote, ms_callbacks := left\<rparr>))) })"

section \<open>Runs\<close>

text \<open>What an operation writes, what it reads from which output, and the callbacks it calls.\<close>

datatype 'c ms_event = Wrote string "'c list" | Got nat string | Waited nat 'c "'c list"

inductive ms_step :: "'s reader_at \<Rightarrow> 's writer_at \<Rightarrow> ('s, 'c) multi \<Rightarrow> 'c ms_event \<Rightarrow> ('s, 'c) multi \<Rightarrow> bool" for rd wr where
  write_input: "MultiStream_Write wr buffer m = Some (0, n, called, m') \<Longrightarrow> ms_step rd wr m (Wrote (take n buffer) called) m'"
| read_output: "ix < ms_noutputs m \<Longrightarrow> len < 2 ^ 63 \<Longrightarrow> OutputRead rd ix len m = Some (rc, bytes, m') \<Longrightarrow>
    ms_step rd wr m (Got ix bytes) m'"
| wait_output: "ix < ms_noutputs m \<Longrightarrow> OutputWait ix c m = Some (rc, called, m') \<Longrightarrow> ms_step rd wr m (Waited ix c called) m'"

inductive ms_run :: "'s reader_at \<Rightarrow> 's writer_at \<Rightarrow> ('s, 'c) multi \<Rightarrow> 'c ms_event list \<Rightarrow> ('s, 'c) multi \<Rightarrow> bool" for rd wr where
  start: "ms_run rd wr m [] m"
| more: "ms_run rd wr m es m' \<Longrightarrow> ms_step rd wr m' e m'' \<Longrightarrow> ms_run rd wr m (es @ [e]) m''"

definition input_of :: "'c ms_event list \<Rightarrow> string" where
  "input_of es = concat (map (\<lambda>e. case e of Wrote b _ \<Rightarrow> b | _ \<Rightarrow> []) es)"

definition output_of :: "nat \<Rightarrow> 'c ms_event list \<Rightarrow> string" where
  "output_of ix es = concat (map (\<lambda>e. case e of Got i b \<Rightarrow> if i = ix then b else [] | _ \<Rightarrow> []) es)"

lemma input_of_snoc [simp]: "input_of [] = []"
  "input_of (es @ [e]) = input_of es @ (case e of Wrote b _ \<Rightarrow> b | _ \<Rightarrow> [])"
  by (simp_all add: input_of_def)

lemma output_of_snoc [simp]: "output_of ix [] = []"
  "output_of ix (es @ [e]) = output_of ix es @ (case e of Got i b \<Rightarrow> if i = ix then b else [] | _ \<Rightarrow> [])"
  by (simp_all add: output_of_def)

lemma take_callbacks_left:
  "length (snd (take_callbacks n cbs)) = length cbs \<and>
   (i < length cbs \<longrightarrow> snd (take_callbacks n cbs) ! i = (if i < n then None else cbs ! i)) \<and>
   set (fst (take_callbacks n cbs)) = {c. \<exists>i<n. i < length cbs \<and> cbs ! i = Some c}"
proof (induction n cbs arbitrary: i rule: take_callbacks.induct)
  case (3 n cb cbs)
  have split: "(\<exists>i<Suc n. i < length (cb # cbs) \<and> (cb # cbs) ! i = Some c) \<longleftrightarrow> cb = Some c \<or> (\<exists>i<n. i < length cbs \<and> cbs ! i = Some c)" for c
    by (auto simp: less_Suc_eq_0_disj)
  show ?case
    using 3 [of "i - 1"] unfolding split by (cases i) (auto split: prod.splits option.splits)
qed auto

text \<open>Every output has read a prefix of the input, and no output that could read is asleep.\<close>

definition ms_ok :: "('s \<Rightarrow> string) \<Rightarrow> ('s \<Rightarrow> bool) \<Rightarrow> 'c ms_event list \<Rightarrow> ('s, 'c) multi \<Rightarrow> bool" where
  "ms_ok content sinvar es m \<longleftrightarrow> sinvar (ms_stm m) \<and> length (ms_outputposes m) = MAX_OP \<and> length (ms_callbacks m) = MAX_OP \<and>
     ms_noutputs m \<le> MAX_OP \<and> ms_inputpos m = length (input_of es) \<and> ms_inputpos m \<le> length (content (ms_stm m)) \<and>
     take (ms_inputpos m) (content (ms_stm m)) = input_of es \<and>
     (\<forall>ix<MAX_OP. ms_outputposes m ! ix \<le> ms_inputpos m \<and> output_of ix es = take (ms_outputposes m ! ix) (input_of es) \<and>
        (ms_callbacks m ! ix \<noteq> None \<longrightarrow> ix < ms_noutputs m \<and> ms_outputposes m ! ix = ms_inputpos m))"

lemma take_overwritten:
  "pos \<le> length c \<Longrightarrow> n \<le> length buf \<Longrightarrow> take (pos + n) (overwrite c pos (take n buf)) = take pos c @ take n buf"
  by (simp add: overwrite_def min_absorb1 min_absorb2)

lemma ms_ok_outputs:
  "ms_ok content sinvar es m \<Longrightarrow> ix < MAX_OP \<Longrightarrow> ms_outputposes m ! ix \<le> ms_inputpos m \<and>
     output_of ix es = take (ms_outputposes m ! ix) (input_of es) \<and>
     (ms_callbacks m ! ix \<noteq> None \<longrightarrow> ix < ms_noutputs m \<and> ms_outputposes m ! ix = ms_inputpos m)"
  unfolding ms_ok_def by blast

lemma ms_ok_input:
  "ms_ok content sinvar es m \<Longrightarrow> sinvar (ms_stm m) \<and> length (ms_outputposes m) = MAX_OP \<and> length (ms_callbacks m) = MAX_OP \<and>
     ms_noutputs m \<le> MAX_OP \<and> ms_inputpos m = length (input_of es) \<and> ms_inputpos m \<le> length (content (ms_stm m)) \<and>
     take (ms_inputpos m) (content (ms_stm m)) = input_of es"
  unfolding ms_ok_def by blast

lemma ms_okI:
  assumes "sinvar (ms_stm m)" "length (ms_outputposes m) = MAX_OP" "length (ms_callbacks m) = MAX_OP"
    "ms_noutputs m \<le> MAX_OP" "ms_inputpos m = length (input_of es)" "ms_inputpos m \<le> length (content (ms_stm m))"
    "take (ms_inputpos m) (content (ms_stm m)) = input_of es"
    "\<And>ix. ix < MAX_OP \<Longrightarrow> ms_outputposes m ! ix \<le> ms_inputpos m"
    "\<And>ix. ix < MAX_OP \<Longrightarrow> output_of ix es = take (ms_outputposes m ! ix) (input_of es)"
    "\<And>ix. ix < MAX_OP \<Longrightarrow> ms_callbacks m ! ix \<noteq> None \<Longrightarrow> ix < ms_noutputs m \<and> ms_outputposes m ! ix = ms_inputpos m"
  shows "ms_ok content sinvar es m"
  using assms unfolding ms_ok_def by blast

lemma ms_ok_nothing: "ms_ok content sinvar es m \<Longrightarrow> ms_ok content sinvar (es @ [Got ix []]) m"
  by (auto simp: ms_ok_def)

context seekable_stream
begin

lemma MultiStream_Write_ok:
  assumes ok: "ms_ok content sinvar es m"
  shows "\<exists>n called m'. MultiStream_Write write_at buf m = Some (0, n, called, m') \<and> n \<le> length buf \<and> (buf \<noteq> [] \<longrightarrow> 0 < n) \<and>
    ms_ok content sinvar (es @ [Wrote (take n buf) called]) m' \<and> ms_noutputs m' = ms_noutputs m \<and> ms_size m' = ms_size m \<and>
    (buf \<noteq> [] \<longrightarrow> (\<forall>ix<MAX_OP. ms_callbacks m' ! ix = None) \<and> set called = {c. \<exists>ix<MAX_OP. ms_callbacks m ! ix = Some c})"
proof (cases "buf = []")
  case True
  then show ?thesis
    using ok by (auto simp: MultiStream_Write_def ms_ok_def)
next
  case False
  have s: "sinvar (ms_stm m)" "ms_inputpos m \<le> length (content (ms_stm m))"
    using ok by (simp_all add: ms_ok_def)
  obtain n stm where w: "write_at (ms_inputpos m) buf (ms_stm m) = Some (0, n, stm)" "sinvar stm" "n \<le> length buf" "0 < n"
    "content stm = overwrite (content (ms_stm m)) (ms_inputpos m) (take n buf)"
    using write_at [OF s, of buf] False by blast
  obtain called left where cl: "take_callbacks (ms_noutputs m) (ms_callbacks m) = (called, left)"
    by fastforce
  define m' where "m' = m\<lparr>ms_stm := stm, ms_inputpos := ms_inputpos m + n, ms_callbacks := left\<rparr>"
  have no: "\<not> MAX_OP < ms_noutputs m"
    using ms_ok_input [OF ok] by simp
  have wr: "MultiStream_Write write_at buf m = Some (0, n, called, m')"
    using False no by (simp add: MultiStream_Write_def w(1) cl m'_def)
  have left: "length left = MAX_OP" "\<forall>i<MAX_OP. left ! i = (if i < ms_noutputs m then None else ms_callbacks m ! i)"
    "set called = {c. \<exists>i<ms_noutputs m. i < MAX_OP \<and> ms_callbacks m ! i = Some c}"
    using take_callbacks_left [of "ms_noutputs m" "ms_callbacks m"] ok by (simp_all add: cl ms_ok_def)
  have none: "\<forall>i<MAX_OP. left ! i = None"
    using left(2) ok by (auto simp: ms_ok_def)
  have tk: "take (ms_inputpos m + n) (content stm) = input_of es @ take n buf"
    using take_overwritten [OF s(2) w(3)] ms_ok_input [OF ok] unfolding w(5) by metis
  have len: "ms_inputpos m + n \<le> length (content stm)"
    using s(2) w(3) unfolding w(5) by (simp add: overwrite_length)
  have "ms_ok content sinvar (es @ [Wrote (take n buf) called]) m'"
    using ms_ok_input [OF ok] ms_ok_outputs [OF ok] w(2,3) left(1) none tk len
    by (intro ms_okI) (auto simp: m'_def trans_le_add1)
  moreover have "set called = {c. \<exists>ix<MAX_OP. ms_callbacks m ! ix = Some c}"
    using left(3) ok by (auto simp: ms_ok_def)
  ultimately show ?thesis
    using wr w(3,4) none by (auto simp: m'_def)
qed

lemma OutputRead_ok:
  assumes ok: "ms_ok content sinvar es m" and ix: "ix < ms_noutputs m" and len: "len < 2 ^ 63"
  shows "\<exists>rc bytes m'. OutputRead read_at ix len m = Some (rc, bytes, m') \<and> ms_ok content sinvar (es @ [Got ix bytes]) m' \<and>
    ms_noutputs m' = ms_noutputs m \<and> ms_size m' = ms_size m \<and> ms_callbacks m' = ms_callbacks m \<and>
    (0 < len \<and> ms_outputposes m ! ix \<noteq> ms_size m \<longrightarrow>
      (if ms_outputposes m ! ix = ms_inputpos m then rc = EWOULDBLOCK \<and> m' = m else rc = 0 \<and> bytes \<noteq> []))"
proof -
  have ixm: "ix < MAX_OP"
    using ms_ok_input [OF ok] ix by simp
  have s: "sinvar (ms_stm m)" and l: "length (ms_outputposes m) = MAX_OP"
    and inp: "ms_inputpos m \<le> length (content (ms_stm m))"
    and tk: "take (ms_inputpos m) (content (ms_stm m)) = input_of es"
    using ms_ok_input [OF ok] by blast+
  have pos: "ms_outputposes m ! ix \<le> ms_inputpos m" and out: "output_of ix es = take (ms_outputposes m ! ix) (input_of es)"
    using ms_ok_outputs [OF ok ixm] by simp_all
  let ?p = "ms_outputposes m ! ix"
  show ?thesis
  proof (cases "?p = ms_size m \<or> len = 0 \<or> ?p = ms_inputpos m")
    case True
    show ?thesis
    proof (cases "?p = ms_size m \<or> len = 0")
      case True
      then have "OutputRead read_at ix len m = Some (0, [], m)"
        using ixm by (auto simp: OutputRead_def)
      then show ?thesis
        using True by (intro exI [of _ 0] exI [of _ "[]"] exI [of _ m]) (auto simp: ms_ok_nothing [OF ok])
    next
      case False
      then have level: "?p = ms_inputpos m"
        using \<open>?p = ms_size m \<or> len = 0 \<or> ?p = ms_inputpos m\<close> by blast
      then have "OutputRead read_at ix len m = Some (EWOULDBLOCK, [], m)"
        using False ixm by (simp add: OutputRead_def Let_def)
      then show ?thesis
        using level by (intro exI [of _ EWOULDBLOCK] exI [of _ "[]"] exI [of _ m]) (auto simp: ms_ok_nothing [OF ok])
    qed
  next
    case False
    let ?n = "min (ms_inputpos m - ?p) len"
    have "?p \<le> length (content (ms_stm m))" "?n < 2 ^ 63"
      using pos inp len by auto
    from read_at [OF s this] obtain n stm where r:
      "read_at ?p ?n (ms_stm m) = Some (0, take n (drop ?p (content (ms_stm m))), stm)" "sinvar stm" "content stm = content (ms_stm m)"
      "n \<le> ?n" "n = 0 \<longrightarrow> ?n = 0 \<or> ?p = length (content (ms_stm m))" "n \<le> length (content (ms_stm m)) - ?p"
      by blast
    let ?b = "take n (drop ?p (content (ms_stm m)))"
    define m' where "m' = m\<lparr>ms_stm := stm, ms_outputposes := (ms_outputposes m)[ix := ?p + n]\<rparr>"
    have lb: "length ?b = n"
      using r(6) by simp
    have "OutputRead read_at ix len m = Some (0, ?b, m')"
      using False ixm pos r(1) lb by (simp add: OutputRead_def Let_def m'_def)
    moreover have "ms_ok content sinvar (es @ [Got ix ?b]) m'"
    proof -
      have "?b = take n (drop ?p (take (ms_inputpos m) (content (ms_stm m))))"
        using r(4) by (simp add: drop_take min_absorb1)
      then have b: "?b = take n (drop ?p (input_of es))"
        by (simp only: tk)
      have "output_of ix es @ ?b = take (?p + n) (input_of es)"
        unfolding b out by (simp add: take_add)
      moreover have "\<not> ms_callbacks m ! ix \<noteq> None" "?p + n \<le> ms_inputpos m"
        using ms_ok_outputs [OF ok ixm] False r(4) by auto
      moreover have "(ms_outputposes m)[ix := ?p + n] ! j = (if j = ix then ?p + n else ms_outputposes m ! j)" for j
        using ixm l by (cases "j = ix") auto
      ultimately show ?thesis
        using ms_ok_input [OF ok] ms_ok_outputs [OF ok] r(2,3) by (intro ms_okI) (auto simp: m'_def)
    qed
    moreover have "?b \<noteq> []"
      using r(5) False pos inp lb by fastforce
    ultimately show ?thesis
      using False by (auto simp: m'_def)
  qed
qed

lemma OutputWait_ok:
  assumes ok: "ms_ok content sinvar es m" and ix: "ix < ms_noutputs m"
  shows "\<exists>called m'. OutputWait ix c m = Some (0, called, m') \<and> ms_ok content sinvar (es @ [Waited ix c called]) m' \<and>
    ms_noutputs m' = ms_noutputs m \<and> ms_size m' = ms_size m \<and> (called = [c] \<or> ms_callbacks m' ! ix = Some c)"
proof -
  have ixm: "ix < MAX_OP"
    using ms_ok_input [OF ok] ix by simp
  show ?thesis
  proof (cases "ms_outputposes m ! ix = ms_inputpos m")
    case True
    have "ms_ok content sinvar (es @ [Waited ix c []]) (m\<lparr>ms_callbacks := (ms_callbacks m)[ix := Some c]\<rparr>)"
      using ms_ok_input [OF ok] ms_ok_outputs [OF ok] True ix by (intro ms_okI) (auto simp: nth_list_update split: if_splits)
    then show ?thesis
      using True ixm ms_ok_input [OF ok] by (simp add: OutputWait_def)
  next
    case False
    have "ms_ok content sinvar (es @ [Waited ix c [c]]) m"
      using ms_ok_input [OF ok] ms_ok_outputs [OF ok] by (intro ms_okI) auto
    then show ?thesis
      using False ixm by (simp add: OutputWait_def)
  qed
qed

lemma ms_run_ok:
  "ms_run read_at write_at m es m' \<Longrightarrow> ms_ok content sinvar [] m \<Longrightarrow>
     ms_ok content sinvar es m' \<and> ms_noutputs m' = ms_noutputs m \<and> ms_size m' = ms_size m"
proof (induction rule: ms_run.induct)
  case (more m es m' e m'')
  then have ok: "ms_ok content sinvar es m'" and eq: "ms_noutputs m' = ms_noutputs m" "ms_size m' = ms_size m"
    by simp_all
  from more.hyps(2) show ?case
  proof cases
    case (write_input buffer n called)
    then show ?thesis
      using MultiStream_Write_ok [OF ok, of buffer] eq by auto
  next
    case (read_output ix len rc bytes)
    then show ?thesis
      using OutputRead_ok [OF ok read_output(2,3)] eq by auto
  next
    case (wait_output ix c rc called)
    then show ?thesis
      using OutputWait_ok [OF ok wait_output(2), of c] eq by auto
  qed
qed simp

end

section \<open>Over a memory stream\<close>

definition with_outputs :: "nat \<Rightarrow> 's \<Rightarrow> nat \<Rightarrow> ('s, 'c) multi" where
  "with_outputs k stm sz = ((\<lambda>m. snd (snd (CreateOutput m))) ^^ k) (MultiStream stm sz)"

lemma with_outputs_eq: "with_outputs k stm sz = (MultiStream stm sz)\<lparr>ms_noutputs := k\<rparr>"
proof (induction k)
  case (Suc k)
  have eq: "with_outputs (Suc k) stm sz = snd (snd (CreateOutput (with_outputs k stm sz)))"
    by (simp add: with_outputs_def)
  show ?case
    unfolding eq Suc.IH by (simp add: CreateOutput_def MultiStream_def)
qed (simp add: with_outputs_def MultiStream_def)

lemma with_outputs_ok: "memory_ok s \<Longrightarrow> k \<le> MAX_OP \<Longrightarrow> ms_ok memory_content memory_ok [] (with_outputs k s sz)"
  by (simp add: with_outputs_eq ms_ok_def MultiStream_def)

text \<open>C22: With up to four outputs, every output reads exactly the bytes that have been written, in order and at its own
  pace, and a callback that is still stored belongs to an output that has read everything.\<close>
theorem multi_outputs_read_input:
  assumes "memory_ok s" "k \<le> MAX_OP" "ms_run Memory_ReadAt Memory_WriteAt (with_outputs k s sz) es m" "ix < k"
  shows "output_of ix es = take (ms_outputposes m ! ix) (input_of es) \<and> ms_inputpos m = length (input_of es) \<and>
    (ms_callbacks m ! ix = None \<or> output_of ix es = input_of es)"
proof -
  have ok: "ms_ok memory_content memory_ok es m"
    using mem.ms_run_ok [OF assms(3) with_outputs_ok [OF assms(1,2)]] by blast
  have "ix < MAX_OP"
    using assms(2,4) by simp
  then show ?thesis
    using ms_ok_outputs [OF ok, of ix] ms_ok_input [OF ok] by auto
qed

text \<open>C23: An output that is behind the input gets at least one byte from a read; one that is level is told to wait, and
  the callback it leaves is called by the next write of any data, or at once when data has come in between.\<close>
theorem multi_wait_wakes:
  assumes "memory_ok s" "k \<le> MAX_OP" "ms_run Memory_ReadAt Memory_WriteAt (with_outputs k s sz) es m" "ix < k" "0 < len" "len < 2 ^ 63"
    "ms_outputposes m ! ix \<noteq> sz" "buf \<noteq> []"
  shows "(\<exists>rc bytes m'. OutputRead Memory_ReadAt ix len m = Some (rc, bytes, m') \<and>
      (if ms_outputposes m ! ix = ms_inputpos m then rc = EWOULDBLOCK else rc = 0 \<and> bytes \<noteq> [])) \<and>
    (\<exists>called m'. OutputWait ix c m = Some (0, called, m') \<and>
      (called = [c] \<or> (\<exists>n called' m''. MultiStream_Write Memory_WriteAt buf m' = Some (0, n, called', m'') \<and> c \<in> set called')))"
proof
  have ok: "ms_ok memory_content memory_ok es m" and eq: "ms_noutputs m = k" "ms_size m = sz"
    using mem.ms_run_ok [OF assms(3) with_outputs_ok [OF assms(1,2)]] by (simp_all add: with_outputs_eq MultiStream_def)
  have ix: "ix < ms_noutputs m" "ix < MAX_OP"
    using assms(2,4) eq by simp_all
  show "\<exists>rc bytes m'. OutputRead Memory_ReadAt ix len m = Some (rc, bytes, m') \<and>
      (if ms_outputposes m ! ix = ms_inputpos m then rc = EWOULDBLOCK else rc = 0 \<and> bytes \<noteq> [])"
    using mem.OutputRead_ok [OF ok ix(1) assms(6)] assms(5,7) eq by (metis (no_types, lifting))
  obtain called m' where w: "OutputWait ix c m = Some (0, called, m')" "ms_ok memory_content memory_ok (es @ [Waited ix c called]) m'"
    "called = [c] \<or> ms_callbacks m' ! ix = Some c"
    using mem.OutputWait_ok [OF ok ix(1), of c] by blast
  obtain n called' m'' where "MultiStream_Write Memory_WriteAt buf m' = Some (0, n, called', m'')"
    "set called' = {c. \<exists>ix<MAX_OP. ms_callbacks m' ! ix = Some c}"
    using mem.MultiStream_Write_ok [OF w(2), of buf] assms(8) by blast
  then show "\<exists>called m'. OutputWait ix c m = Some (0, called, m') \<and>
      (called = [c] \<or> (\<exists>n called' m''. MultiStream_Write Memory_WriteAt buf m' = Some (0, n, called', m'') \<and> c \<in> set called'))"
    using w ix(2) by blast
qed

text \<open>Two outputs of a five byte stream, and a first write.\<close>

definition two_outputs :: "(memory, nat) multi" where
  "two_outputs = with_outputs 2 example_memory 5"

lemma two_outputs_ok: "ms_ok memory_content memory_ok [] two_outputs"
  unfolding two_outputs_def by (rule with_outputs_ok [OF example_memory(1)]) (simp add: MAX_OP_def)

lemma two_outputs_run:
  "\<exists>n called m'. ms_run Memory_ReadAt Memory_WriteAt two_outputs [Wrote (take n ''abc'') called] m' \<and>
     0 < n \<and> ms_outputposes m' ! 0 = 0"
proof -
  have ok: "ms_ok memory_content memory_ok [] two_outputs"
    by (rule two_outputs_ok)
  from mem.MultiStream_Write_ok [OF ok, of "''abc''"] obtain n called m' where
    w: "MultiStream_Write Memory_WriteAt ''abc'' two_outputs = Some (0, n, called, m')" "0 < n"
    by auto
  have "ms_outputposes m' ! 0 = 0"
    using w(1) by (auto simp: MultiStream_Write_def two_outputs_def with_outputs_eq MultiStream_def MAX_OP_def Let_def
        split: prod.splits if_splits bind_splits)
  moreover have "ms_run Memory_ReadAt Memory_WriteAt two_outputs [Wrote (take n ''abc'') called] m'"
    using ms_run.more [OF ms_run.start ms_step.write_input [OF w(1)]] by simp
  ultimately show ?thesis
    using w(2) by blast
qed

theorem multi_outputs_read_input_witness:
  "\<exists>es m. ms_run Memory_ReadAt Memory_WriteAt two_outputs es m \<and> input_of es \<noteq> [] \<and>
     output_of 1 es = take (ms_outputposes m ! 1) (input_of es)"
proof -
  obtain n called m where r: "ms_run Memory_ReadAt Memory_WriteAt two_outputs [Wrote (take n ''abc'') called] m"
    "0 < n"
    using two_outputs_run by blast
  have "2 \<le> MAX_OP"
    by (simp add: MAX_OP_def)
  from multi_outputs_read_input [OF example_memory(1) this r(1) [unfolded two_outputs_def], of 1] r show ?thesis
    by (intro exI [of _ "[Wrote (take n ''abc'') called]"] exI [of _ m]) (simp add: input_of_def two_outputs_def)
qed

theorem multi_wait_wakes_witness:
  "\<exists>es m bytes m'. ms_run Memory_ReadAt Memory_WriteAt two_outputs es m \<and>
     OutputRead Memory_ReadAt 0 10 m = Some (0, bytes, m') \<and> bytes \<noteq> []"
proof -
  obtain n called m where r: "ms_run Memory_ReadAt Memory_WriteAt two_outputs [Wrote (take n ''abc'') called] m"
    "0 < n" "ms_outputposes m ! 0 = 0"
    using two_outputs_run by blast
  have two: "2 \<le> MAX_OP"
    by (simp add: MAX_OP_def)
  have "ms_inputpos m = length (take n ''abc'')"
    using ms_ok_input mem.ms_run_ok [OF r(1) two_outputs_ok] by (fastforce simp: input_of_def)
  then have behind: "ms_outputposes m ! 0 \<noteq> ms_inputpos m" "ms_outputposes m ! 0 \<noteq> 5"
    using r(2,3) by auto
  have "\<exists>rc bytes m'. OutputRead Memory_ReadAt 0 10 m = Some (rc, bytes, m') \<and>
      (if ms_outputposes m ! 0 = ms_inputpos m then rc = EWOULDBLOCK else rc = 0 \<and> bytes \<noteq> [])"
    by (rule conjunct1 [OF multi_wait_wakes [OF example_memory(1) two r(1) [unfolded two_outputs_def] _ _ _ behind(2), where buf = "''x''" and c = 7]])
      simp_all
  then obtain bytes m' where "OutputRead Memory_ReadAt 0 10 m = Some (0, bytes, m') \<and> bytes \<noteq> []"
    using behind(1) by auto
  then show ?thesis
    using r(1) by blast
qed

end
