(* ===== verification/Allocate.thy ===== *)
theory Allocate
  imports SteamExecute Schema
begin

text \<open>
  libmediadb/allocate\_id.cpp and libdbempeg/allocate\_id.cpp: identifiers for new records from the
  gaps between those that a database holds, on the database and the queries of libdbsteam.
\<close>

section \<open>The allocators\<close>

record allocator =
  m_gap_begin :: u32
  m_gap_end :: u32

definition AllocateID :: allocator where
  "AllocateID = \<lparr>m_gap_begin = 0x120, m_gap_end = 0x120\<rparr>"

definition UINT_MAX :: u32 where "UINT_MAX = - 1"

definition rs_GetInteger :: "recordset \<Rightarrow> nat \<Rightarrow> steam \<Rightarrow> u32 \<times> steam" where
  "rs_GetInteger rs f db =
     (case rs of Collate c \<Rightarrow> (Collate_GetInteger c f, db) | _ \<Rightarrow> GetInteger db (rs_cursor rs) f)"

text \<open>
  The loop over the recordset: the number it expected last, and the number it stopped at if it did.
  The two allocators differ in what they expect after a number they found.
\<close>

partial_function (option) find_gap ::
  "(string option \<Rightarrow> string \<Rightarrow> bool) \<Rightarrow> (u32 \<Rightarrow> u32 \<Rightarrow> u32) \<Rightarrow> u32 \<Rightarrow> recordset \<Rightarrow> steam \<Rightarrow> (u32 \<times> u32 option \<times> steam) option"
where
  "find_gap re after expected rs db =
     (if rs_IsEOF rs then Some (expected, None, db)
      else
        (let (found, db) = rs_GetInteger rs field_ID db in
         if found > expected then Some (expected, Some found, db)
         else do { (rs, db) \<leftarrow> rs_MoveNext re rs db; find_gap re after (after expected found) rs db }))"

definition gap_query :: "u32 \<Rightarrow> query option" where
  "gap_query n =
     (let (rc, q) = CollateBy field_ID new_query; (e, q) = Restrict_int field_ID GT n q
      in do { (rc, q) \<leftarrow> Where e q; Some q })"

definition next_gap ::
  "(string \<Rightarrow> bool) \<Rightarrow> (string option \<Rightarrow> string \<Rightarrow> bool) \<Rightarrow> (u32 \<Rightarrow> u32 \<Rightarrow> u32) \<Rightarrow> u32 \<Rightarrow> allocator \<Rightarrow> steam \<Rightarrow> (allocator \<times> steam) option"
where
  "next_gap rok re after expected a db = do {
     q \<leftarrow> gap_query (m_gap_end a);
     (ro, db) \<leftarrow> Execute rok re \<lparr>sq_query = q, m_regexes = []\<rparr> db;
     rs \<leftarrow> ro;
     (expected, stop, db) \<leftarrow> find_gap re after expected rs db;
     Some (case stop of
         Some found \<Rightarrow> (a\<lparr>m_gap_begin := expected, m_gap_end := found\<rparr>, db)
       | None \<Rightarrow> (a\<lparr>m_gap_begin := expected, m_gap_end := UINT_MAX\<rparr>, db)) }"

definition Allocate ::
  "(string \<Rightarrow> bool) \<Rightarrow> (string option \<Rightarrow> string \<Rightarrow> bool) \<Rightarrow> allocator \<Rightarrow> steam \<Rightarrow> (u32 \<times> allocator \<times> steam) option"
where
  "Allocate rok re a db = do {
     (a, db) \<leftarrow> (if m_gap_begin a = m_gap_end a
       then next_gap rok re (\<lambda>expected found. found + 1) (m_gap_end a + 1) a db
       else Some (a, db));
     Some (m_gap_begin a, a\<lparr>m_gap_begin := m_gap_begin a + 1\<rparr>, db) }"

definition empeg_Allocate ::
  "(string \<Rightarrow> bool) \<Rightarrow> (string option \<Rightarrow> string \<Rightarrow> bool) \<Rightarrow> allocator \<Rightarrow> steam \<Rightarrow> (u32 \<times> allocator \<times> steam) option"
where
  "empeg_Allocate rok re a db = do {
     (a, db) \<leftarrow> (if m_gap_begin a = m_gap_end a
       then next_gap rok re (\<lambda>expected found. if found > m_gap_end a then found + 16 else expected) (m_gap_end a + 16) a db
       else Some (a, db));
     Some (m_gap_begin a, a\<lparr>m_gap_begin := m_gap_begin a + 16\<rparr>, db) }"

section \<open>The gap the loop finds\<close>

fun gap_from :: "(u32 \<Rightarrow> u32 \<Rightarrow> u32) \<Rightarrow> u32 \<Rightarrow> u32 list \<Rightarrow> u32 \<times> u32 option" where
  "gap_from after e [] = (e, None)"
| "gap_from after e (k # ks) = (if k > e then (e, Some k) else gap_from after (after e k) ks)"

lemma find_gap_spec:
  "rs_ok rs db \<Longrightarrow> rs_pending re rs db = map (Inr \<circ> Inl) ks \<Longrightarrow>
     \<exists>db'. find_gap re after e rs db = Some (fst (gap_from after e ks), snd (gap_from after e ks), db') \<and> same_reads db db'"
proof (induction ks arbitrary: e rs db)
  case Nil
  then show ?case
    using rs.at_end [OF Nil.prems(1), of re] rs.same_refl [OF Nil.prems(1)] by (subst find_gap.simps) simp
next
  case (Cons k ks)
  have ne: "\<not> rs_IsEOF rs"
    using rs.at_end [OF Cons.prems(1), of re] Cons.prems(2) by simp
  have "rs_current rs = Inr (Inl k)"
    using rs.current [OF Cons.prems(1) ne, of re] Cons.prems(2) by simp
  then have g: "rs_GetInteger rs field_ID db = (k, db)"
    by (cases rs) (auto simp: rs_GetInteger_def Collate_GetInteger_def split: if_splits)
  show ?case
  proof (cases "k > e")
    case True
    then show ?thesis
      using ne g rs.same_refl [OF Cons.prems(1)] by (subst find_gap.simps) simp
  next
    case False
    obtain rs' db' where m: "rs_MoveNext re rs db = Some (rs', db')" "rs_ok rs' db'"
      "rs_pending re rs' db' = map (Inr \<circ> Inl) ks" "same_reads db db'"
      using rs.moved [OF Cons.prems(1) ne, of re] Cons.prems(2) by auto
    from Cons.IH [OF m(2,3), of "after e k"] show ?thesis
      using False ne g m(1,4) by (subst find_gap.simps) (auto intro: same_reads_trans)
  qed
qed

definition alloc_db_ok :: "steam \<Rightarrow> bool" where
  "alloc_db_ok db \<longleftrightarrow> steam_ok db \<and> field_ID < m_nfields db \<and> is_indexed (m_fields db ! field_ID) \<and> is_int_type (m_fields db ! field_ID)"

definition ids :: "steam \<Rightarrow> u32 list" where
  "ids db = map fst (m_intindexes db ! field_ID)"

text \<open>The identifiers are the numbers that records have in the field, each once and in ascending order.\<close>

lemma ids_sorted: "alloc_db_ok db \<Longrightarrow> sorted_wrt (<) (ids db) \<and> set (ids db) = {n. \<exists>r. int_key (m_data db) field_ID r = Some n}"
  unfolding ids_def alloc_db_ok_def by (rule int_index_keys) simp_all

lemma same_reads_ids: "same_reads db db' \<Longrightarrow> alloc_db_ok db \<Longrightarrow> alloc_db_ok db' \<and> ids db' = ids db"
  using same_reads_frame [of db db'] same_reads_ok [of db db'] by (simp add: alloc_db_ok_def ids_def)

lemma next_gap_spec:
  assumes db: "alloc_db_ok db"
  shows "\<exists>db'. next_gap rok re after e a db = Some (case gap_from after e (ids db) of
      (e, Some found) \<Rightarrow> a\<lparr>m_gap_begin := e, m_gap_end := found\<rparr>
    | (e, None) \<Rightarrow> a\<lparr>m_gap_begin := e, m_gap_end := UINT_MAX\<rparr>, db') \<and> same_reads db db'"
proof -
  define q where "q = \<lparr>m_restrictions = [int_restriction field_ID GT (m_gap_end a)], m_relations = [], m_root = 1,
     m_orderby = [], m_collateby = [field_ID]\<rparr>"
  have gq: "gap_query (m_gap_end a) = Some q"
    by (simp add: gap_query_def CollateBy_def Restrict_int_def push_restriction_def new_query_def Where_def in_range_def q_def)
  have ex: "executable rok db q"
    using db by (simp add: executable_def q_def query_ok_def supported_def int_restriction_def alloc_db_ok_def elem_ok_def in_range_def)
  obtain rx where rx: "compile_regexes rok 0 (m_restrictions q) [] = Some rx"
    "sq_ok (m_nfields db) (Some \<lparr>sq_query = q, m_regexes = rx\<rparr>)"
    using executable_compiles [OF ex] by blast
  have cl: "m_collateby q = [field_ID]"
    by (simp add: q_def)
  have facts: "steam_ok db" "field_ID < m_nfields db" "is_indexed (m_fields db ! field_ID)" "is_int_type (m_fields db ! field_ID)"
    using db by (simp_all add: alloc_db_ok_def)
  obtain c db1 where x: "Execute rok re \<lparr>sq_query = q, m_regexes = []\<rparr> db = Some (Some (Collate c), db1)" "same_reads db db1"
    "rs_ok (Collate c) db1" "rs_pending re (Collate c) db1 = map (Inr \<circ> Inl) (ids db)"
    using Execute_collate_cursor [OF facts(1) ex cl facts(2,3) rx, of re] facts(4) unfolding ids_def by (auto simp: comp_assoc)
  obtain db' where "find_gap re after e (Collate c) db1 = Some (fst (gap_from after e (ids db)), snd (gap_from after e (ids db)), db')"
    "same_reads db1 db'"
    using find_gap_spec [OF x(3,4)] by blast
  then show ?thesis
    using x(2) by (intro exI [of _ db'])
      (auto simp: next_gap_def gq x(1) split: prod.splits option.splits intro: same_reads_trans)
qed

section \<open>Identifiers are new\<close>

lemma unat_succ: "(k::u32) < UINT_MAX \<Longrightarrow> unat (k + 1) = unat k + 1"
proof -
  assume "k < UINT_MAX"
  then have "k \<noteq> - 1"
    by (auto simp: UINT_MAX_def)
  then have "1 + k \<noteq> 0"
    by (metis add.commute add_eq_0_iff)
  then show ?thesis
    using unatSuc [of k] by (simp add: add.commute)
qed

lemma gap_from_succ:
  "sorted_wrt (<) ks \<Longrightarrow> \<forall>k\<in>set ks. k < UINT_MAX \<Longrightarrow> gap_from (\<lambda>e k. k + 1) e ks = (b, s) \<Longrightarrow>
     (\<forall>k\<in>set ks. k < b \<or> (\<exists>f. s = Some f \<and> f \<le> k)) \<and> (\<forall>f. s = Some f \<longrightarrow> b < f \<and> f \<in> set ks) \<and>
     (b = e \<or> (\<exists>k\<in>set ks. b = k + 1))"
proof (induction ks arbitrary: e)
  case (Cons k ks)
  show ?case
  proof (cases "k > e")
    case True
    then show ?thesis
      using Cons.prems by (auto intro: less_imp_le)
  next
    case False
    have gap: "gap_from (\<lambda>e k. k + 1) (k + 1) ks = (b, s)"
      using Cons.prems(3) False by simp
    have ih: "(\<forall>k\<in>set ks. k < b \<or> (\<exists>f. s = Some f \<and> f \<le> k))" "(\<forall>f. s = Some f \<longrightarrow> b < f \<and> f \<in> set ks)"
      "b = k + 1 \<or> (\<exists>k\<in>set ks. b = k + 1)"
      using Cons.IH [OF _ _ gap] Cons.prems(1,2) by simp_all
    have "k < b"
      using ih(3) Cons.prems(1,2) unat_succ by (fastforce simp: word_less_nat_alt)
    then show ?thesis
      using ih by auto
  qed
qed auto

text \<open>C24: An allocated identifier is one that no record has, and so is every identifier the allocator keeps in reserve;
  neither the query nor the loop changes what the database reads as.\<close>
theorem Allocate_fresh:
  assumes db: "alloc_db_ok db" and a: "m_gap_begin a = m_gap_end a" and "m_gap_end a < UINT_MAX - 1"
    and below: "\<forall>n r. int_key (m_data db) field_ID r = Some n \<longrightarrow> n < UINT_MAX - 1"
  shows "\<exists>new a' db'. Allocate rok re a db = Some (new, a', db') \<and> same_reads db db' \<and>
    (\<forall>r. int_key (m_data db) field_ID r \<noteq> Some new) \<and> m_gap_begin a' = new + 1 \<and>
    (\<forall>n r. m_gap_begin a' \<le> n \<and> n < m_gap_end a' \<longrightarrow> int_key (m_data db) field_ID r \<noteq> Some n)"
proof -
  obtain b s where g: "gap_from (\<lambda>e k. k + 1) (m_gap_end a + 1) (ids db) = (b, s)"
    by fastforce
  have sorted: "sorted_wrt (<) (ids db)" and set: "set (ids db) = {n. \<exists>r. int_key (m_data db) field_ID r = Some n}"
    using ids_sorted [OF db] by simp_all
  have k1: "k + 1 < UINT_MAX \<and> k < UINT_MAX" if "k < UINT_MAX - 1" for k :: u32
  proof -
    have "unat UINT_MAX = 4294967295" "unat (UINT_MAX - 1) = 4294967294"
      by (simp_all add: UINT_MAX_def unsigned_minus_1_eq_mask mask_eq_exp_minus_1)
    then show ?thesis
      using that unat_succ [of k] by (simp add: word_less_nat_alt)
  qed
  have "\<forall>k\<in>set (ids db). k < UINT_MAX"
    using below k1 by (auto simp: set)
  note gs = gap_from_succ [OF sorted this g]
  obtain db' where n: "next_gap rok re (\<lambda>e k. k + 1) (m_gap_end a + 1) a db = Some (case s of
      Some found \<Rightarrow> a\<lparr>m_gap_begin := b, m_gap_end := found\<rparr> | None \<Rightarrow> a\<lparr>m_gap_begin := b, m_gap_end := UINT_MAX\<rparr>, db')"
    "same_reads db db'"
    using next_gap_spec [OF db, of rok re "\<lambda>e k. k + 1" "m_gap_end a + 1" a] unfolding g by auto
  have free: "n \<notin> set (ids db)" if "b \<le> n" "\<forall>f. s = Some f \<longrightarrow> n < f" for n
    using that gs by fastforce
  have "b < UINT_MAX"
    using gs k1 below assms(3) by (auto simp: set)
  then have succ: "b + 1 \<le> n \<Longrightarrow> b \<le> n" for n
    using unat_succ [of b] by (simp add: word_le_nat_alt)
  define a' where "a' = (case s of Some found \<Rightarrow> a\<lparr>m_gap_begin := b + 1, m_gap_end := found\<rparr>
      | None \<Rightarrow> a\<lparr>m_gap_begin := b + 1, m_gap_end := UINT_MAX\<rparr>)"
  have "Allocate rok re a db = Some (b, a', db')"
    using a n(1) by (cases s) (simp_all add: Allocate_def a'_def)
  moreover have "b \<notin> set (ids db)"
    using free [of b] gs by auto
  moreover have "m_gap_begin a' = b + 1"
    by (cases s) (simp_all add: a'_def)
  moreover have "n \<notin> set (ids db)" if "m_gap_begin a' \<le> n" "n < m_gap_end a'" for n
    using that succ [of n] free [of n] by (cases s) (auto simp: a'_def)
  ultimately show ?thesis
    using n(2) by (auto simp: set)
qed

section \<open>Identifiers that were handed out but not yet used\<close>

lemma gap_from_second: "k \<le> e \<Longrightarrow> k \<le> e' \<Longrightarrow> gap_from (\<lambda>e k. k + 1) e (k # ks) = gap_from (\<lambda>e k. k + 1) e' (k # ks)"
  by (simp add: leD)

text \<open>When an allocation has used up a gap before the end and no record has been added under the new identifier, the
  next one starts again from the lowest number, below the gap it has just used, and hands out the same identifier.\<close>
theorem Allocate_reissues:
  assumes db: "alloc_db_ok db" and a: "m_gap_begin a = m_gap_end a"
    and low: "int_key (m_data db) field_ID r = Some k" "k \<le> m_gap_end a + 1" "k \<le> m_gap_end a' + 1"
    and first: "Allocate rok re a db = Some (new, a', db')" and used: "m_gap_begin a' = m_gap_end a'"
  shows "\<exists>a'' db''. Allocate rok re a' db' = Some (new, a'', db'')"
proof -
  have sorted: "sorted_wrt (<) (ids db)" and "k \<in> set (ids db)"
    using ids_sorted [OF db] low(1) by auto
  then obtain k0 ks where ks: "ids db = k0 # ks" "k0 \<le> k"
    by (cases "ids db") auto
  obtain b s where g: "gap_from (\<lambda>e k. k + 1) (m_gap_end a + 1) (ids db) = (b, s)"
    by fastforce
  have g': "gap_from (\<lambda>e k. k + 1) (m_gap_end a' + 1) (ids db) = (b, s)"
    using gap_from_second [of k0 "m_gap_end a' + 1" "m_gap_end a + 1" ks] low(2,3) ks(2) g unfolding ks(1) by force
  obtain db1 where n: "next_gap rok re (\<lambda>e k. k + 1) (m_gap_end a + 1) a db = Some (case s of
      Some found \<Rightarrow> a\<lparr>m_gap_begin := b, m_gap_end := found\<rparr> | None \<Rightarrow> a\<lparr>m_gap_begin := b, m_gap_end := UINT_MAX\<rparr>, db1)"
    "same_reads db db1"
    using next_gap_spec [OF db, of rok re "\<lambda>e k. k + 1" "m_gap_end a + 1" a] unfolding g by auto
  have eq: "new = b" "db' = db1"
    using first a n(1) by (auto simp: Allocate_def split: option.splits)
  have db': "alloc_db_ok db'" "ids db' = ids db"
    using same_reads_ids [OF n(2) db] by (simp_all add: eq)
  obtain db2 where "next_gap rok re (\<lambda>e k. k + 1) (m_gap_end a' + 1) a' db' = Some (case s of
      Some found \<Rightarrow> a'\<lparr>m_gap_begin := b, m_gap_end := found\<rparr> | None \<Rightarrow> a'\<lparr>m_gap_begin := b, m_gap_end := UINT_MAX\<rparr>, db2)"
    using next_gap_spec [OF db'(1), of rok re "\<lambda>e k. k + 1" "m_gap_end a' + 1" a'] unfolding db'(2) g' by auto
  then show ?thesis
    using used by (cases s) (simp_all add: Allocate_def eq)
qed

section \<open>On an example\<close>

text \<open>Records with the identifiers 0x100 and 0x102.\<close>

definition one_id :: steam where
  "one_id = snd (SetInteger example_db example_rs 0 0x100)"

definition ids_db :: steam where
  "ids_db = (let (rc, rs, db) = AddRecord one_id example_rs in snd (SetInteger db rs 0 0x102))"

lemma ids_db: "alloc_db_ok ids_db" "ids ids_db = [0x100, 0x102]"
proof -
  have one: "steam_ok one_id"
    unfolding one_id_def by (rule SetInteger_ok [OF example_db_ok]) simp
  have one': "m_nfields one_id = 2" "m_next_recno one_id = 1"
    by code_simp+
  have "steam_ok (snd (snd (AddRecord one_id example_rs)))"
    by (rule AddRecord_ok [OF one]) (simp add: one')
  from SetInteger_ok [OF this, of 0]
  have ok: "steam_ok ids_db"
    by (simp add: ids_db_def AddRecord_def one')
  have frame: "m_nfields ids_db = 2" "m_fields ids_db = [9, 8]" "m_intindexes ids_db ! 0 = [(0x100, [0]), (0x102, [1])]"
    by code_simp+
  show "alloc_db_ok ids_db" "ids ids_db = [0x100, 0x102]"
    using ok by (simp_all add: alloc_db_ok_def ids_def field_ID_def frame is_indexed_def is_int_type_def FIELD_TYPEMASK_def
        FIELD_INT_def FIELD_INDEXED_def)
qed

lemma ids_db_bounds: "int_key (m_data ids_db) field_ID r = Some n \<Longrightarrow> n = 0x100 \<or> n = 0x102"
  and ids_db_low: "\<exists>r. int_key (m_data ids_db) field_ID r = Some 0x100"
  using ids_sorted [OF ids_db(1)] unfolding ids_db(2) by auto

theorem Allocate_fresh_witness:
  "\<exists>new a' db'. Allocate (\<lambda>_. True) (\<lambda>_ _. True) AllocateID ids_db = Some (new, a', db') \<and>
     (\<forall>r. int_key (m_data ids_db) field_ID r \<noteq> Some new)"
proof -
  have "m_gap_begin AllocateID = m_gap_end AllocateID" "m_gap_end AllocateID < UINT_MAX - 1"
    "\<forall>n r. int_key (m_data ids_db) field_ID r = Some n \<longrightarrow> n < UINT_MAX - 1"
    by (auto simp: AllocateID_def UINT_MAX_def dest: ids_db_bounds)
  from Allocate_fresh [OF ids_db(1) this] show ?thesis
    by blast
qed

lemma first_id:
  "\<exists>db'. Allocate (\<lambda>_. True) (\<lambda>_ _. True) AllocateID ids_db =
     Some (0x101, AllocateID\<lparr>m_gap_begin := 0x102, m_gap_end := 0x102\<rparr>, db')"
proof -
  have "gap_from (\<lambda>e k. k + 1) (m_gap_end AllocateID + 1) (ids ids_db) = (0x101, Some 0x102)"
    by (simp add: ids_db(2) AllocateID_def)
  then show ?thesis
    using next_gap_spec [OF ids_db(1), of "\<lambda>_. True" "\<lambda>_ _. True" "\<lambda>e k. k + 1" "m_gap_end AllocateID + 1" AllocateID]
    by (auto simp: Allocate_def AllocateID_def)
qed

theorem Allocate_reissues_witness:
  "\<exists>a' db' a'' db''. Allocate (\<lambda>_. True) (\<lambda>_ _. True) AllocateID ids_db = Some (0x101, a', db') \<and>
     Allocate (\<lambda>_. True) (\<lambda>_ _. True) a' db' = Some (0x101, a'', db'')"
proof -
  obtain db' where f: "Allocate (\<lambda>_. True) (\<lambda>_ _. True) AllocateID ids_db =
      Some (0x101, AllocateID\<lparr>m_gap_begin := 0x102, m_gap_end := 0x102\<rparr>, db')"
    using first_id by blast
  obtain r where r: "int_key (m_data ids_db) field_ID r = Some 0x100"
    using ids_db_low by blast
  have "m_gap_begin AllocateID = m_gap_end AllocateID"
    by (simp add: AllocateID_def)
  from Allocate_reissues [OF ids_db(1) this r _ _ f] show ?thesis
    using f by (fastforce simp: AllocateID_def)
qed

end
