(* ===== verification/Utf8.thy ===== *)
theory Utf8
  imports Schema "HOL-Library.Monad_Syntax"
begin

text \<open>
  libutil/utf8.cpp: conversion between UTF-8, UTF-16 and UTF-32. A pointer into a NUL-terminated
  string is the list of the units before the terminator; what is read there is the terminator. The
  conversions through the C library's multibyte functions are not modelled.
\<close>

section \<open>Characters\<close>

type_synonym u16 = "16 word"

definition ERROR :: u32 where "ERROR = 0xFFFD"
definition BOM :: u32 where "BOM = 0xFEFF"

definition Cont :: "char \<Rightarrow> bool" where
  "Cont c \<longleftrightarrow> byte c AND 0xC0 = 0x80"

definition unit_at :: "nat \<Rightarrow> 'a list \<Rightarrow> 'a \<Rightarrow> 'a" where
  "unit_at k s nul = (if k < length s then s ! k else nul)"

definition GetChar32 :: "u32 list \<Rightarrow> u32 \<times> u32 list" where
  "GetChar32 s = (unit_at 0 s 0, drop 1 s)"

definition GetChar16 :: "u16 list \<Rightarrow> u32 \<times> u16 list" where
  "GetChar16 s =
     (let ch = ucast (unit_at 0 s 0); s = drop 1 s in
      if ch \<ge> 0xD800 \<and> ch < 0xDC00 then
        (let ch2 = ucast (unit_at 0 s 0) in
         if ch2 \<ge> 0xDC00 \<and> ch2 < 0xE000 then
           (0x10000 + push_bit 10 (ch AND 0x3FF) + (ch2 AND 0x3FF), drop 1 s)
         else (ERROR, s))
      else (ch, s))"

definition GetChar8 :: "string \<Rightarrow> u32 \<times> string" where
  "GetChar8 s =
     (let c = byte (unit_at 0 s NUL); s = drop 1 s; c1 = unit_at 0 s NUL; c2 = unit_at 1 s NUL; c3 = unit_at 2 s NUL in
      if c < 0x80 then (c, s)
      else if c AND 0xC0 = 0x80 then (ERROR, s)
      else if c AND 0xE0 = 0xC0 then
        (if Cont c1 then
           (let wc = push_bit 6 (c AND 0x1F) + (byte c1 AND 0x3F)
            in (if wc < 0x80 then ERROR else wc, drop 1 s))
         else (ERROR, s))
      else if c AND 0xF0 = 0xE0 then
        (if Cont c1 \<and> Cont c2 then
           (let wc = push_bit 12 (c AND 0xF) + push_bit 6 (byte c1 AND 0x3F) + (byte c2 AND 0x3F)
            in (if wc < 0x800 then ERROR else wc, drop 2 s))
         else (ERROR, s))
      else if c AND 0xF8 = 0xF0 \<and> Cont c1 \<and> Cont c2 \<and> Cont c3 then
        (let wc = push_bit 18 (c AND 0xF) + push_bit 12 (byte c1 AND 0x3F) + push_bit 6 (byte c2 AND 0x3F) + (byte c3 AND 0x3F)
         in (if wc < 0x10000 then ERROR else wc, drop 3 s))
      else (ERROR, s))"

definition PutChar32 :: "u32 \<Rightarrow> u32 list" where
  "PutChar32 ch = [ch]"

definition PutChar16 :: "u32 \<Rightarrow> u16 list" where
  "PutChar16 ch =
     (if ch \<ge> 0x10000 then
        [ucast (0xD800 + drop_bit 10 (ch - 0x10000)), ucast (0xDC00 + ((ch - 0x10000) AND 0x3FF))]
      else [ucast ch])"

definition PutChar8 :: "u32 \<Rightarrow> string" where
  "PutChar8 ch =
     (if ch < 0x80 then [chr8 ch]
      else if ch < 0x800 then [chr8 (0xC0 + drop_bit 6 ch), chr8 (0x80 + (ch AND 0x3F))]
      else if ch < 0x10000 then
        [chr8 (0xE0 + drop_bit 12 ch), chr8 (0x80 + (drop_bit 6 ch AND 0x3F)), chr8 (0x80 + (ch AND 0x3F))]
      else
        [chr8 (0xF0 + drop_bit 18 ch), chr8 (0x80 + (drop_bit 12 ch AND 0x3F)),
         chr8 (0x80 + (drop_bit 6 ch AND 0x3F)), chr8 (0x80 + (ch AND 0x3F))])"

section \<open>Conversions\<close>

partial_function (option) convert_loop ::
  "('y list \<Rightarrow> u32 \<times> 'y list) \<Rightarrow> (u32 \<Rightarrow> 'x list) \<Rightarrow> bool \<Rightarrow> 'y list \<Rightarrow> 'x list option" where
  "convert_loop get put last_error s =
     (let (ch, s) = get s in
      if ch = 0 then Some []
      else if ch = BOM then convert_loop get put last_error s
      else do {
        rest \<leftarrow> convert_loop get put (ch = ERROR) s;
        Some ((if ch \<noteq> ERROR \<or> \<not> last_error then put ch else []) @ rest) })"

definition Convert :: "('y list \<Rightarrow> u32 \<times> 'y list) \<Rightarrow> (u32 \<Rightarrow> 'x list) \<Rightarrow> 'y list \<Rightarrow> 'x list option" where
  "Convert get put s = convert_loop get put False s"

definition UTF32ToUTF8 :: "u32 list \<Rightarrow> string option" where "UTF32ToUTF8 = Convert GetChar32 PutChar8"
definition UTF16ToUTF8 :: "u16 list \<Rightarrow> string option" where "UTF16ToUTF8 = Convert GetChar16 PutChar8"
definition UTF8ToUTF16 :: "string \<Rightarrow> u16 list option" where "UTF8ToUTF16 = Convert GetChar8 PutChar16"
definition UTF8ToUTF32 :: "string \<Rightarrow> u32 list option" where "UTF8ToUTF32 = Convert GetChar8 PutChar32"

section \<open>Codecs\<close>

text \<open>Reading a character takes a unit off the string, or finds its end; reading what was written gives it back.\<close>

locale codec =
  fixes get :: "'y list \<Rightarrow> u32 \<times> 'y list" and put :: "u32 \<Rightarrow> 'y list" and valid :: "u32 \<Rightarrow> bool"
  assumes get_end: "get [] = (0, [])"
    and get_shorter: "s \<noteq> [] \<Longrightarrow> length (snd (get s)) < length s"
    and get_put: "valid c \<Longrightarrow> get (put c @ s) = (c, s)"
begin

lemma convert_returns: "\<exists>r. convert_loop get out last_error s = Some r"
proof (induction "length s" arbitrary: s last_error rule: less_induct)
  case less
  show ?case
  proof (cases "s = []")
    case True
    then show ?thesis
      using get_end by (subst convert_loop.simps) simp
  next
    case False
    then have "length (snd (get s)) < length s"
      by (rule get_shorter)
    then obtain r1 r2 where "convert_loop get out last_error (snd (get s)) = Some r1"
      "convert_loop get out (fst (get s) = ERROR) (snd (get s)) = Some r2"
      using less by blast
    then show ?thesis
      by (subst convert_loop.simps) (auto split: prod.splits)
  qed
qed

lemma convert_valid:
  "\<forall>c\<in>set cs. valid c \<and> c \<noteq> 0 \<and> c \<noteq> BOM \<and> c \<noteq> ERROR \<Longrightarrow>
     convert_loop get out last_error (concat (map put cs)) = Some (concat (map out cs))"
proof (induction cs arbitrary: last_error)
  case Nil
  then show ?case
    using get_end by (subst convert_loop.simps) simp
next
  case (Cons c cs)
  then have "get (put c @ concat (map put cs)) = (c, concat (map put cs))"
    using get_put by simp
  then show ?case
    using Cons by (subst convert_loop.simps) simp
qed

end

interpretation utf32: codec GetChar32 PutChar32 "\<lambda>_. True"
  by unfold_locales (auto simp: GetChar32_def PutChar32_def unit_at_def)

section \<open>UTF-8\<close>

lemma high_mask:
  assumes "k < 256" "j \<le> 8"
  shows "(of_nat k :: u32) AND (mask 8 AND NOT (mask j)) = of_nat (k div 2 ^ j * 2 ^ j)"
proof -
  have "(of_nat k :: u32) AND (mask 8 AND NOT (mask j)) = push_bit j (take_bit (8 - j) (drop_bit j (of_nat k)))"
    using slice_eq_mask [of j "8 - j" "of_nat k :: u32"] assms(2) by (simp add: and.assoc)
  also have "drop_bit j (of_nat k :: u32) = of_nat (k div 2 ^ j)"
    using drop_bit_of_nat_unat [of j "of_nat k"] assms(1) by (simp add: unat_of_nat_u32)
  also have "take_bit (8 - j) (of_nat (k div 2 ^ j) :: u32) = of_nat (k div 2 ^ j mod 2 ^ (8 - j))"
    by (simp add: take_bit_of_nat flip: take_bit_eq_mod)
  also have "k div 2 ^ j mod 2 ^ (8 - j) = k div 2 ^ j"
    using assms by (intro mod_less) (simp add: less_mult_imp_div_less flip: power_add)
  finally show ?thesis
    by (simp add: push_bit_eq_mult)
qed

lemma cont_masks:
  assumes k: "k < 256"
  shows "(of_nat k :: u32) AND 0xC0 = 0x80 \<longleftrightarrow> 128 \<le> k \<and> k < 192"
    "(of_nat k :: u32) AND 0xE0 = 0xC0 \<longleftrightarrow> 192 \<le> k \<and> k < 224"
    "(of_nat k :: u32) AND 0xF0 = 0xE0 \<longleftrightarrow> 224 \<le> k \<and> k < 240"
    "(of_nat k :: u32) AND 0xF8 = 0xF0 \<longleftrightarrow> 240 \<le> k \<and> k < 248"
proof -
  have eq: "(of_nat (k div m * m) :: u32) = of_nat b \<longleftrightarrow> k div m * m = b" if "b < 256" for m b
  proof -
    have "k div m * m \<le> k"
      by (rule div_times_less_eq_dividend)
    moreover have "k < 2 ^ 32" "b < 2 ^ 32"
      using that k by simp_all
    ultimately have "k div m * m < 2 ^ 32" "b < 2 ^ 32"
      by linarith+
    then show ?thesis
      by (simp add: word_unat_eq_iff unat_of_nat_u32 del: of_nat_mult)
  qed
  have m: "0xC0 = (mask 8 AND NOT (mask 6) :: u32)" "0xE0 = (mask 8 AND NOT (mask 5) :: u32)"
    "0xF0 = (mask 8 AND NOT (mask 4) :: u32)" "0xF8 = (mask 8 AND NOT (mask 3) :: u32)"
    by (simp_all add: mask_eq_exp_minus_1)
  have e: "(of_nat k AND 0xC0 :: u32) = of_nat (k div 2 ^ 6 * 2 ^ 6)" "(of_nat k AND 0xE0 :: u32) = of_nat (k div 2 ^ 5 * 2 ^ 5)"
    "(of_nat k AND 0xF0 :: u32) = of_nat (k div 2 ^ 4 * 2 ^ 4)" "(of_nat k AND 0xF8 :: u32) = of_nat (k div 2 ^ 3 * 2 ^ 3)"
    unfolding m by (simp_all add: high_mask [OF k])
  show "(of_nat k :: u32) AND 0xC0 = 0x80 \<longleftrightarrow> 128 \<le> k \<and> k < 192"
    "(of_nat k :: u32) AND 0xE0 = 0xC0 \<longleftrightarrow> 192 \<le> k \<and> k < 224"
    "(of_nat k :: u32) AND 0xF0 = 0xE0 \<longleftrightarrow> 224 \<le> k \<and> k < 240"
    "(of_nat k :: u32) AND 0xF8 = 0xF0 \<longleftrightarrow> 240 \<le> k \<and> k < 248"
    using eq [of 128 "2 ^ 6"] eq [of 192 "2 ^ 5"] eq [of 224 "2 ^ 4"] eq [of 240 "2 ^ 3"]
    unfolding e by (auto; arith)+
qed

text \<open>The decoder on the bytes of one character, and the encoder, with the character as a natural number.\<close>

lemma wc_of_nat: "n < 2 ^ 32 \<Longrightarrow> (of_nat n :: u32) < w \<longleftrightarrow> n < unat w"
  by (simp add: word_less_nat_alt unat_of_nat_u32)

text \<open>The lead byte and the continuation bytes.\<close>

lemma lead_byte:
  assumes "byte c = of_nat k" "k < 256"
  shows "byte c < 0x80 \<longleftrightarrow> k < 128" "byte c AND 0xC0 = 0x80 \<longleftrightarrow> 128 \<le> k \<and> k < 192"
    "byte c AND 0xE0 = 0xC0 \<longleftrightarrow> 192 \<le> k \<and> k < 224" "byte c AND 0xF0 = 0xE0 \<longleftrightarrow> 224 \<le> k \<and> k < 240"
    "byte c AND 0xF8 = 0xF0 \<longleftrightarrow> 240 \<le> k \<and> k < 248"
  unfolding assms(1) using cont_masks [OF assms(2)] wc_of_nat [of k] assms(2) by simp_all

lemma cont_byte:
  assumes "byte c = of_nat (128 + b)" "b < 64"
  shows "Cont c \<and> byte c AND 0x3F = of_nat b"
proof -
  have "unat (of_nat (128 + b) :: u32) = 128 + b"
    using assms(2) by (intro unat_of_nat_u32) simp
  then have "(of_nat (128 + b) :: u32) AND 63 = of_nat b"
    using and_numerals_nat(1) [of "of_nat (128 + b)"] mod_offsets(1) [OF assms(2)] by simp
  then show ?thesis
    using cont_masks(1) [of "128 + b"] assms unfolding Cont_def by simp
qed

lemma lead_bits:
  assumes "byte c = of_nat k" "k < 256"
  shows "byte c AND 0x1F = of_nat (k mod 32)" "byte c AND 0xF = of_nat (k mod 16)"
  unfolding assms(1) using assms(2) unat_of_nat_u32 [of k] by (simp_all add: and_numerals_nat)

lemma GetChar8_1: "byte c0 = of_nat n \<Longrightarrow> n < 0x80 \<Longrightarrow> GetChar8 (c0 # r) = (of_nat n, r)"
  using wc_of_nat [of n] by (simp add: GetChar8_def unit_at_def)

lemma GetChar8_2:
  assumes "byte c0 = of_nat (192 + a)" "byte c1 = of_nat (128 + b)" "a < 32" "b < 64" "0x80 \<le> b + 2^6 * a"
  shows "GetChar8 (c0 # c1 # r) = (of_nat (b + 2^6 * a), r)"
proof -
  have low: "\<not> (of_nat (b + 2^6 * a) :: u32) < 0x80"
    using wc_of_nat [of "b + 2^6 * a"] assms(3-5) by simp
  have k: "192 + a < 256" "(192 + a) mod 32 = a"
    using assms(3) mod_offsets(2) by simp_all
  have lead: "\<not> byte c0 < 0x80" "byte c0 AND 0xC0 \<noteq> 0x80" "byte c0 AND 0xE0 = 0xC0" "byte c0 AND 0x1F = of_nat a"
    using lead_byte [OF assms(1) k(1)] lead_bits [OF assms(1) k(1)] assms(3) unfolding k(2) by simp_all
  show ?thesis
    unfolding GetChar8_def Let_def using lead low cont_byte [OF assms(2,4)] by (auto simp: unit_at_def push_bit_eq_mult algebra_simps)
qed

lemma GetChar8_3:
  assumes "byte c0 = of_nat (224 + a)" "byte c1 = of_nat (128 + b)" "byte c2 = of_nat (128 + c)" "a < 16" "b < 64" "c < 64"
    "0x800 \<le> c + 2^6 * b + 2^12 * a"
  shows "GetChar8 (c0 # c1 # c2 # r) = (of_nat (c + 2^6 * b + 2^12 * a), r)"
proof -
  have low: "\<not> (of_nat (c + 2^6 * b + 2^12 * a) :: u32) < 0x800"
    using wc_of_nat [of "c + 2^6 * b + 2^12 * a"] assms(4-7) by simp
  have k: "224 + a < 256" "(224 + a) mod 16 = a"
    using assms(4) mod_offsets(3) by simp_all
  have lead: "\<not> byte c0 < 0x80" "byte c0 AND 0xC0 \<noteq> 0x80" "byte c0 AND 0xE0 \<noteq> 0xC0" "byte c0 AND 0xF0 = 0xE0"
    "byte c0 AND 0xF = of_nat a"
    using lead_byte [OF assms(1) k(1)] lead_bits [OF assms(1) k(1)] assms(4) unfolding k(2) by simp_all
  show ?thesis
    unfolding GetChar8_def Let_def using lead low cont_byte [OF assms(2,5)] cont_byte [OF assms(3,6)]
    by (auto simp: unit_at_def push_bit_eq_mult algebra_simps)
qed

lemma GetChar8_4:
  assumes "byte c0 = of_nat (240 + a)" "byte c1 = of_nat (128 + b)" "byte c2 = of_nat (128 + c)" "byte c3 = of_nat (128 + d)"
    "a < 8" "b < 64" "c < 64" "d < 64" "0x10000 \<le> d + 2^6 * c + 2^12 * b + 2^18 * a"
  shows "GetChar8 (c0 # c1 # c2 # c3 # r) = (of_nat (d + 2^6 * c + 2^12 * b + 2^18 * a), r)"
proof -
  have low: "\<not> (of_nat (d + 2^6 * c + 2^12 * b + 2^18 * a) :: u32) < 0x10000"
    using wc_of_nat [of "d + 2^6 * c + 2^12 * b + 2^18 * a"] assms(5-9) by simp
  have k: "240 + a < 256" "(240 + a) mod 16 = a"
    using assms(5) mod_mult_self3 [of 15 16 a] by simp_all
  have lead: "\<not> byte c0 < 0x80" "byte c0 AND 0xC0 \<noteq> 0x80" "byte c0 AND 0xE0 \<noteq> 0xC0" "byte c0 AND 0xF0 \<noteq> 0xE0"
    "byte c0 AND 0xF8 = 0xF0" "byte c0 AND 0xF = of_nat a"
    using lead_byte [OF assms(1) k(1)] lead_bits [OF assms(1) k(1)] assms(5) unfolding k(2) by simp_all
  show ?thesis
    unfolding GetChar8_def Let_def using lead low cont_byte [OF assms(2,6)] cont_byte [OF assms(3,7)] cont_byte [OF assms(4,8)]
    by (auto simp: unit_at_def push_bit_eq_mult algebra_simps)
qed

lemma PutChar8_bytes: "ch < 0x200000 \<Longrightarrow> PutChar8 ch = map (\<lambda>b. chr8 (of_nat b)) (utf8_bytes (unat ch))"
  by (auto simp add: PutChar8_def utf8_bytes_def word_less_nat_alt drop_bit_of_nat_unat and_numerals_nat unat_of_nat_u32)

lemma GetChar8_PutChar8:
  assumes "ch < 0x200000"
  shows "GetChar8 (PutChar8 ch @ r) = (ch, r)"
proof -
  define n where "n = unat ch"
  have n: "n < 0x200000"
    using assms by (simp add: n_def word_less_nat_alt)
  have top: "n mod 2 ^ k + 2 ^ k * (n div 2 ^ k) = n" for k by simp
  have bounds: "n < 0x800 \<Longrightarrow> n div 2^6 < 32" "n < 0x10000 \<Longrightarrow> n div 2^12 < 16" "n div 2^18 < 8"
    using n by (simp_all add: less_mult_imp_div_less)
  note e = sextets_sum [of n] top
  have m: "x mod 64 < 64" for x :: nat by simp
  consider "n < 0x80" | "\<not> n < 0x80" "n < 0x800" | "\<not> n < 0x800" "n < 0x10000" | "\<not> n < 0x10000"
    by fastforce
  then have "GetChar8 (map (\<lambda>b. chr8 (of_nat b)) (utf8_bytes n) @ r) = (of_nat n, r)"
  proof cases
    case 1
    then show ?thesis
      by (simp add: utf8_bytes_def GetChar8_1 byte_chr8_of_nat)
  next
    case 2
    have "GetChar8 (chr8 (of_nat (192 + n div 2^6)) # chr8 (of_nat (128 + n mod 64)) # r) = (of_nat (n mod 64 + 2^6 * (n div 2^6)), r)"
      using 2 bounds(1) by (intro GetChar8_2 byte_chr8_of_nat) simp_all
    then show ?thesis
      using 2 unfolding utf8_bytes_def by simp
  next
    case 3
    have "GetChar8 (chr8 (of_nat (224 + n div 2^12)) # chr8 (of_nat (128 + n div 2^6 mod 64)) # chr8 (of_nat (128 + n mod 64)) # r) =
        (of_nat (n mod 64 + 2^6 * (n div 2^6 mod 64) + 2^12 * (n div 2^12)), r)"
    proof (intro GetChar8_3 byte_chr8_of_nat)
      show "0x800 \<le> n mod 64 + 2^6 * (n div 2^6 mod 64) + 2^12 * (n div 2^12)"
        using 3 unfolding e by simp
    qed (use 3 bounds(2) m in \<open>simp_all add: trans_less_add1 add_strict_mono\<close>)
    then show ?thesis
      using 3 unfolding utf8_bytes_def e by simp
  next
    case 4
    have "GetChar8 (chr8 (of_nat (240 + n div 2^18)) # chr8 (of_nat (128 + n div 2^12 mod 64)) # chr8 (of_nat (128 + n div 2^6 mod 64)) #
          chr8 (of_nat (128 + n mod 64)) # r) =
        (of_nat (n mod 64 + 2^6 * (n div 2^6 mod 64) + 2^12 * (n div 2^12 mod 64) + 2^18 * (n div 2^18)), r)"
    proof (intro GetChar8_4 byte_chr8_of_nat)
      show "0x10000 \<le> n mod 64 + 2^6 * (n div 2^6 mod 64) + 2^12 * (n div 2^12 mod 64) + 2^18 * (n div 2^18)"
        using 4 unfolding e by simp
    qed (use bounds(3) m in \<open>simp_all add: trans_less_add1 add_strict_mono\<close>)
    then show ?thesis
      using 4 n unfolding utf8_bytes_def e by simp
  qed
  then show ?thesis
    by (simp add: PutChar8_bytes [OF assms] n_def)
qed

interpretation utf8: codec GetChar8 PutChar8 "\<lambda>ch. ch < 0x200000"
proof
  show "GetChar8 [] = (0, [])"
    by (simp add: GetChar8_def unit_at_def byte_def)
  show "length (snd (GetChar8 s)) < length s" if "s \<noteq> []" for s
    using that by (cases s) (simp_all add: GetChar8_def Let_def less_Suc_eq_le)
qed (rule GetChar8_PutChar8)

section \<open>UTF-16\<close>

text \<open>A number that UTF-16 can encode: not a surrogate, and not beyond the last plane.\<close>

definition scalar :: "u32 \<Rightarrow> bool" where
  "scalar ch \<longleftrightarrow> (ch < 0xD800 \<or> 0xE000 \<le> ch) \<and> ch < 0x110000"

lemma u16_round: "k < 65536 \<Longrightarrow> ucast (ucast (of_nat k :: u32) :: u16) = (of_nat k :: u32)"
  by (simp add: word_unat_eq_iff unsigned_ucast_eq unat_of_nat_u32 take_bit_nat_eq_self unsigned_take_bit_eq)

lemma and_1023: "k < 2 ^ 32 \<Longrightarrow> (of_nat k :: u32) AND 0x3FF = of_nat (k mod 1024)"
  using and_mask_of_nat [of "of_nat k" 10] by (simp add: mask_eq_exp_minus_1 unat_of_nat_u32)

lemma GetChar16_plain:
  "k < 65536 \<Longrightarrow> k < 0xD800 \<or> 0xDC00 \<le> k \<Longrightarrow> GetChar16 (ucast (of_nat k :: u32) # r) = (of_nat k, r)"
  by (auto simp: GetChar16_def unit_at_def u16_round wc_of_nat not_less [symmetric] not_le)

lemma GetChar16_pair:
  assumes "a < 1024" "b < 1024"
  shows "GetChar16 (ucast (of_nat (0xD800 + a) :: u32) # ucast (of_nat (0xDC00 + b) :: u32) # r) = (of_nat (0x10000 + 2^10 * a + b), r)"
proof -
  have u: "ucast (ucast (of_nat (0xD800 + a) :: u32) :: u16) = (of_nat (0xD800 + a) :: u32)"
    "ucast (ucast (of_nat (0xDC00 + b) :: u32) :: u16) = (of_nat (0xDC00 + b) :: u32)"
    using assms by (intro u16_round; simp)+
  have c: "\<not> (of_nat (0xD800 + a) :: u32) < 0xD800" "(of_nat (0xD800 + a) :: u32) < 0xDC00"
    "\<not> (of_nat (0xDC00 + b) :: u32) < 0xDC00" "(of_nat (0xDC00 + b) :: u32) < 0xE000"
    using assms by (simp_all add: wc_of_nat del: of_nat_add)
  have m: "(of_nat (0xD800 + a) :: u32) AND 0x3FF = of_nat a" "(of_nat (0xDC00 + b) :: u32) AND 0x3FF = of_nat b"
    using assms mod_mult_self3 [of 54 1024 a] mod_mult_self3 [of 55 1024 b] by (simp_all add: and_1023 del: of_nat_add)
  show ?thesis
    using c unfolding GetChar16_def unit_at_def by (simp add: u m push_bit_eq_mult not_less [symmetric] del: of_nat_add) simp
qed

lemma GetChar16_PutChar16:
  assumes "scalar ch"
  shows "GetChar16 (PutChar16 ch @ r) = (ch, r)"
proof (cases "ch < 0x10000")
  case True
  have "unat ch < 65536" "unat ch < 0xD800 \<or> 0xDC00 \<le> unat ch"
    using True assms by (auto simp: scalar_def word_less_nat_alt word_le_nat_alt)
  moreover have "\<not> 0x10000 \<le> ch"
    using True by (simp only: not_le)
  ultimately show ?thesis
    using GetChar16_plain [of "unat ch" r] by (simp add: PutChar16_def)
next
  case False
  define n where "n = unat ch - 0x10000"
  have n: "unat ch = 0x10000 + n" "n < 0x100000"
    using False assms by (auto simp: n_def scalar_def word_less_nat_alt)
  have d: "ch - 0x10000 = of_nat n"
    using False by (simp add: n_def word_less_nat_alt of_nat_diff)
  have s: "0xD800 + drop_bit 10 (of_nat n :: u32) = of_nat (0xD800 + n div 2^10)" "0xDC00 + (of_nat n AND 0x3FF) = (of_nat (0xDC00 + n mod 1024) :: u32)"
    using n(2) drop_bit_of_nat_unat [of 10 "of_nat n"] by (simp_all add: and_1023 unat_of_nat_u32)
  have "GetChar16 (ucast (of_nat (0xD800 + n div 2^10) :: u32) # ucast (of_nat (0xDC00 + n mod 1024) :: u32) # r) =
      (of_nat (0x10000 + 2^10 * (n div 2^10) + n mod 1024), r)"
    using n(2) by (intro GetChar16_pair) simp_all
  also have "0x10000 + 2^10 * (n div 2^10) + n mod 1024 = unat ch"
    using n(1) by simp
  finally have "GetChar16 (ucast (of_nat (0xD800 + n div 2^10) :: u32) # ucast (of_nat (0xDC00 + n mod 1024) :: u32) # r) = (ch, r)"
    by simp
  moreover have "0x10000 \<le> ch"
    using False by (simp only: not_less)
  ultimately show ?thesis
    unfolding PutChar16_def d s by (simp del: of_nat_add)
qed

interpretation utf16: codec GetChar16 PutChar16 scalar
proof
  show "GetChar16 [] = (0, [])"
    by (simp add: GetChar16_def unit_at_def)
  show "length (snd (GetChar16 s)) < length s" if "s \<noteq> []" for s
    using that by (cases s) (auto simp: GetChar16_def Let_def)
qed (rule GetChar16_PutChar16)

section \<open>The conversions\<close>

text \<open>C25: the four conversions map the encodings of a text to each other, for every text of characters that are
  neither zero, the byte order mark, the replacement character, a surrogate nor beyond the last plane.\<close>
theorem conversions_agree:
  assumes "\<forall>c\<in>set cs. scalar c \<and> c \<noteq> 0 \<and> c \<noteq> BOM \<and> c \<noteq> ERROR"
  shows "UTF32ToUTF8 cs = Some (concat (map PutChar8 cs)) \<and>
    UTF16ToUTF8 (concat (map PutChar16 cs)) = Some (concat (map PutChar8 cs)) \<and>
    UTF8ToUTF16 (concat (map PutChar8 cs)) = Some (concat (map PutChar16 cs)) \<and>
    UTF8ToUTF32 (concat (map PutChar8 cs)) = Some cs"
proof -
  have c8: "\<forall>c\<in>set cs. c < 0x200000 \<and> c \<noteq> 0 \<and> c \<noteq> BOM \<and> c \<noteq> ERROR"
    using assms by (auto simp: scalar_def word_less_nat_alt)
  have c32: "\<forall>c\<in>set cs. True \<and> c \<noteq> 0 \<and> c \<noteq> BOM \<and> c \<noteq> ERROR"
    using assms by blast
  have "concat (map PutChar32 cs) = cs"
    by (induction cs) (simp_all add: PutChar32_def)
  then show ?thesis
    using utf32.convert_valid [OF c32, of PutChar8 False] utf16.convert_valid [OF assms, of PutChar8 False]
      utf8.convert_valid [OF c8, of PutChar16 False] utf8.convert_valid [OF c8, of PutChar32 False]
    by (simp add: UTF32ToUTF8_def UTF16ToUTF8_def UTF8ToUTF16_def UTF8ToUTF32_def Convert_def)
qed

theorem conversions_agree_witness:
  "UTF8ToUTF16 (concat (map PutChar8 [0x6CB3, 0x8C5A, 0x1F600])) = Some (concat (map PutChar16 [0x6CB3, 0x8C5A, 0x1F600]))"
  using conversions_agree [of "[0x6CB3, 0x8C5A, 0x1F600]"] by (simp add: scalar_def BOM_def ERROR_def)

text \<open>C26: every conversion returns, whatever units its argument holds.\<close>
theorem conversions_return:
  "UTF32ToUTF8 w \<noteq> None \<and> UTF16ToUTF8 u \<noteq> None \<and> UTF8ToUTF16 s \<noteq> None \<and> UTF8ToUTF32 s \<noteq> None"
  using utf32.convert_returns [of PutChar8 False w] utf16.convert_returns [of PutChar8 False u]
    utf8.convert_returns [of PutChar16 False s] utf8.convert_returns [of PutChar32 False s]
  by (auto simp: UTF32ToUTF8_def UTF16ToUTF8_def UTF8ToUTF16_def UTF8ToUTF32_def Convert_def)

section \<open>The local encoding\<close>

text \<open>
  \<^verbatim>\<open>mbstowcs\<close> and \<^verbatim>\<open>wcstombs\<close>, which follow the locale and fail on what it cannot express,
  are parameters; \<^verbatim>\<open>wchar_t\<close> has 32 bits. The text comes back as it is where they fail.
\<close>

definition LocalEncodingToUTF8 :: "(string \<Rightarrow> u32 list option) \<Rightarrow> string \<Rightarrow> string option" where
  "LocalEncodingToUTF8 mbstowcs local_string =
     (case mbstowcs (c_str local_string) of None \<Rightarrow> Some (c_str local_string) | Some ws \<Rightarrow> UTF32ToUTF8 ws)"

definition UTF8ToLocalEncoding :: "(u32 list \<Rightarrow> string option) \<Rightarrow> string \<Rightarrow> string option" where
  "UTF8ToLocalEncoding wcstombs utf8_string = do {
     ws \<leftarrow> UTF8ToUTF32 (c_str utf8_string);
     Some (case wcstombs ws of None \<Rightarrow> c_str utf8_string | Some s \<Rightarrow> s) }"

lemma local_encoding_returns:
  "LocalEncodingToUTF8 mbstowcs s \<noteq> None" "UTF8ToLocalEncoding wcstombs s \<noteq> None"
  using utf32.convert_returns [of PutChar8 False] utf8.convert_returns [of PutChar32 False "c_str s"]
  by (auto simp: LocalEncodingToUTF8_def UTF8ToLocalEncoding_def UTF32ToUTF8_def UTF8ToUTF32_def Convert_def split: option.splits)

end
