(* ===== verification/Sax.thy ===== *)
theory Sax
  imports Escape Streams
begin

text \<open>
  libutil/xml.h, xml.cpp: \<^verbatim>\<open>SaxParser\<close>. The parser keeps at most 1024 unread bytes, which are
  followed by a NUL, and a state; the calls on its observer, whose results it ignores, are the list
  of events. One step is one round of the loop of \<^verbatim>\<open>Parse()\<close>: it goes round again, or waits for
  more input, or takes more bytes from the buffer than there are, which wraps its length.
\<close>

section \<open>The parser\<close>

datatype sax_state =
  CONTENT | TAG | IN_TAG | IN_ATTR | SEEK_GT | ATTR_SEEKEQ | ATTR_SEEKVALUE | IN_QUOTEDVALUE | IN_VALUE | CDATA

datatype event = OnBegin string | OnEnd string | OnAttribute string string | OnContent string

record sax =
  m_buffer :: string
  m_eof :: bool
  m_state :: sax_state
  m_tagname :: string
  m_attrname :: string

definition SAX_BUFSIZE :: nat where "SAX_BUFSIZE = 1024"

definition SaxParser :: sax where
  "SaxParser = \<lparr>m_buffer = [], m_eof = False, m_state = CONTENT, m_tagname = [], m_attrname = []\<rparr>"

datatype sax_step = Again sax "event list" | Wait sax "event list" | Overrun "event list"

definition WS :: string where "WS = [CHR '' '', CHR 0x09, CHR 0x0A, CHR 0x0D]"
definition TAG_END :: string where "TAG_END = WS @ ''/>''"
definition ATTR_END :: string where "ATTR_END = WS @ ''=/>''"
definition CDATASTART :: string where "CDATASTART = ''![CDATA[''"

text \<open>The \<^verbatim>\<open>memmove\<close> that drops the first bytes of the buffer.\<close>

definition used_up :: "nat \<Rightarrow> sax \<Rightarrow> sax" where
  "used_up n p = p\<lparr>m_buffer := drop n (m_buffer p)\<rparr>"

definition sax_content :: "sax \<Rightarrow> sax_step" where
  "sax_content p =
     (let buf = m_buffer p in
      case strchr CHR ''<'' buf of
        None \<Rightarrow>
          (case strrchr CHR ''&'' buf of
             None \<Rightarrow> Again (p\<lparr>m_buffer := []\<rparr>) [OnContent (XmlUnEscape buf)]
           | Some amp \<Rightarrow>
               if (case strrchr CHR '';'' buf of None \<Rightarrow> True | Some semi \<Rightarrow> semi < amp) then
                 (let p' = used_up amp p; ev = [OnContent (XmlUnEscape (take amp buf))]
                  in if m_eof p then Again p' ev else Wait p' ev)
               else Again (p\<lparr>m_buffer := []\<rparr>) [OnContent (XmlUnEscape buf)])
      | Some lt \<Rightarrow>
          Again (used_up (lt + 1) (p\<lparr>m_state := TAG\<rparr>)) (if 0 < lt then [OnContent (XmlUnEscape (take lt buf))] else []))"

definition sax_cdata :: "sax \<Rightarrow> sax_step" where
  "sax_cdata p =
     (let buf = m_buffer p in
      case strchr CHR '']'' buf of
        None \<Rightarrow> Again (p\<lparr>m_buffer := []\<rparr>) [OnContent (c_str buf)]
      | Some ket \<Rightarrow>
          if 0 < ket then Again (used_up ket p) [OnContent (take ket buf)]
          else if length buf < 3 then Wait p []
          else if char_at 1 buf = CHR '']'' \<and> char_at 2 buf = CHR ''>'' then Again (used_up 3 (p\<lparr>m_state := CONTENT\<rparr>)) []
          else Again (used_up 1 p) [OnContent '']''])"

definition sax_tag :: "sax \<Rightarrow> sax_step" where
  "sax_tag p =
     (let buf = m_buffer p; tocompare = min (length buf) (length CDATASTART) in
      if take tocompare buf = take tocompare CDATASTART then
        (if length buf < length CDATASTART then Wait p []
         else Again (used_up (length CDATASTART) (p\<lparr>m_state := CDATA\<rparr>)) [])
      else
        (let end_tag = (char_at 0 buf = CHR ''/''); skip = (if end_tag then 1 else 0);
             taglen = strcspn (drop skip buf) TAG_END + skip; c = char_at taglen buf; name = take taglen buf
         in if taglen = length buf \<and> \<not> m_eof p \<and> length buf < SAX_BUFSIZE then Wait p []
         else
           (let (p, ev) =
              (if end_tag then (p\<lparr>m_state := (if c = CHR ''>'' then CONTENT else SEEK_GT)\<rparr>, [OnEnd (drop 1 name)])
               else
                 (let p = p\<lparr>m_tagname := name\<rparr> in
                  if c = CHR ''/'' then (p\<lparr>m_state := SEEK_GT\<rparr>, [OnBegin name, OnEnd name])
                  else if c = CHR ''>'' then (p\<lparr>m_state := CONTENT\<rparr>, [OnBegin name])
                  else (p\<lparr>m_state := IN_TAG\<rparr>, [OnBegin name])))
            in if taglen = length buf then Overrun ev else Again (used_up (taglen + 1) p) ev)))"

definition sax_seek_gt :: "sax \<Rightarrow> sax_step" where
  "sax_seek_gt p =
     (case strchr CHR ''>'' (m_buffer p) of
        None \<Rightarrow> if \<not> m_eof p \<and> length (m_buffer p) < SAX_BUFSIZE then Wait p [] else Again (p\<lparr>m_buffer := []\<rparr>) []
      | Some gt \<Rightarrow> Again (used_up (gt + 1) (p\<lparr>m_state := CONTENT\<rparr>)) [])"

definition sax_in_tag :: "sax \<Rightarrow> sax_step" where
  "sax_in_tag p =
     (let buf = m_buffer p; skip = strspn buf WS; c = char_at skip buf in
      if skip = length buf then Again (p\<lparr>m_buffer := []\<rparr>) []
      else if c = CHR ''>'' then Again (used_up skip (p\<lparr>m_state := SEEK_GT\<rparr>)) []
      else if c = CHR ''/'' then Again (used_up (skip + 1) p) [OnEnd (m_tagname p)]
      else Again (used_up skip (p\<lparr>m_state := IN_ATTR\<rparr>)) [])"

definition sax_in_attr :: "sax \<Rightarrow> sax_step" where
  "sax_in_attr p =
     (let buf = m_buffer p; attrlen = strcspn buf ATTR_END; c = char_at attrlen buf; name = take attrlen buf in
      if attrlen = length buf \<and> \<not> m_eof p \<and> length buf < SAX_BUFSIZE then Wait p []
      else
        (let p = p\<lparr>m_attrname := name\<rparr>;
             (p, ev) =
               (if c = CHR ''='' then (p\<lparr>m_state := ATTR_SEEKVALUE\<rparr>, [])
                else if c = CHR ''>'' then (p\<lparr>m_state := CONTENT\<rparr>, [OnAttribute name []])
                else if c = CHR ''/'' then (p\<lparr>m_state := SEEK_GT\<rparr>, [OnAttribute name [], OnEnd (m_tagname p)])
                else (p\<lparr>m_state := ATTR_SEEKEQ\<rparr>, []))
         in if attrlen = length buf then Overrun ev else Again (used_up (attrlen + 1) p) ev))"

definition sax_seekeq :: "sax \<Rightarrow> sax_step" where
  "sax_seekeq p =
     (let buf = m_buffer p; skip = strspn buf WS; c = char_at skip buf in
      if skip = length buf then Again (p\<lparr>m_buffer := []\<rparr>) []
      else if c = CHR ''='' then Again (used_up (skip + 1) (p\<lparr>m_state := ATTR_SEEKVALUE\<rparr>)) []
      else Again (used_up skip (p\<lparr>m_state := IN_TAG\<rparr>)) [OnAttribute (m_attrname p) []])"

definition sax_seekvalue :: "sax \<Rightarrow> sax_step" where
  "sax_seekvalue p =
     (let buf = m_buffer p; skip = strspn buf WS; c = char_at skip buf in
      if skip = length buf then Again (p\<lparr>m_buffer := []\<rparr>) []
      else if c = CHR 0x22 then Again (used_up (skip + 1) (p\<lparr>m_state := IN_QUOTEDVALUE\<rparr>)) []
      else Again (used_up skip (p\<lparr>m_state := IN_VALUE\<rparr>)) [])"

definition sax_quotedvalue :: "sax \<Rightarrow> sax_step" where
  "sax_quotedvalue p =
     (case strchr CHR 0x22 (m_buffer p) of
        None \<Rightarrow> if \<not> m_eof p \<and> length (m_buffer p) < SAX_BUFSIZE then Wait p [] else Again (p\<lparr>m_buffer := []\<rparr>) []
      | Some quote \<Rightarrow>
          Again (used_up (quote + 1) (p\<lparr>m_state := IN_TAG\<rparr>))
            [OnAttribute (m_attrname p) (XmlUnEscape (take quote (m_buffer p)))])"

definition sax_value :: "sax \<Rightarrow> sax_step" where
  "sax_value p =
     (let buf = m_buffer p; valuelen = strcspn buf TAG_END in
      if valuelen = length buf \<and> \<not> m_eof p \<and> length buf < SAX_BUFSIZE then Wait p []
      else Again (used_up valuelen (p\<lparr>m_state := IN_TAG\<rparr>)) [OnAttribute (m_attrname p) (XmlUnEscape (take valuelen buf))])"

definition sax_round :: "sax \<Rightarrow> sax_step" where
  "sax_round p =
     (case m_state p of
        CONTENT \<Rightarrow> sax_content p
      | CDATA \<Rightarrow> sax_cdata p
      | TAG \<Rightarrow> sax_tag p
      | SEEK_GT \<Rightarrow> sax_seek_gt p
      | IN_TAG \<Rightarrow> sax_in_tag p
      | IN_ATTR \<Rightarrow> sax_in_attr p
      | ATTR_SEEKEQ \<Rightarrow> sax_seekeq p
      | ATTR_SEEKVALUE \<Rightarrow> sax_seekvalue p
      | IN_QUOTEDVALUE \<Rightarrow> sax_quotedvalue p
      | IN_VALUE \<Rightarrow> sax_value p)"

text \<open>
  \<^verbatim>\<open>Parse()\<close>: the parser it leaves, or none if the length of the buffer wrapped, and the events.
  The loop may run for ever.
\<close>

partial_function (option) sax_loop :: "sax \<Rightarrow> (sax option \<times> event list) option" where
  "sax_loop p =
     (if m_buffer p = [] then Some (Some p, [])
      else
        case sax_round p of
          Again p' ev \<Rightarrow> do { (q, evs) \<leftarrow> sax_loop p'; Some (q, ev @ evs) }
        | Wait p' ev \<Rightarrow> Some (Some p', ev)
        | Overrun ev \<Rightarrow> Some (None, ev))"

text \<open>\<^verbatim>\<open>Parse(Stream*)\<close> fills the buffer and parses, until the stream ends; and \<^verbatim>\<open>WriteAll\<close>.\<close>

definition sax_fill :: "'s reader \<Rightarrow> sax \<Rightarrow> 's \<Rightarrow> (u32 \<times> sax \<times> 's) option" where
  "sax_fill rd p s =
     (if length (m_buffer p) < SAX_BUFSIZE \<and> \<not> m_eof p then do {
        (rc, bytes, s) \<leftarrow> rd (SAX_BUFSIZE - length (m_buffer p)) s;
        Some (rc, if rc \<noteq> 0 then p else p\<lparr>m_buffer := m_buffer p @ bytes, m_eof := (bytes = [])\<rparr>, s) }
      else Some (0, p, s))"

partial_function (option) sax_Parse :: "'s reader \<Rightarrow> sax \<Rightarrow> 's \<Rightarrow> (u32 option \<times> event list \<times> 's) option" where
  "sax_Parse rd p s = do {
     (rc, p, s) \<leftarrow> sax_fill rd p s;
     (if rc \<noteq> 0 then Some (Some rc, [], s)
      else if m_buffer p = [] \<and> m_eof p then Some (Some 0, [], s)
      else do {
        (q, ev) \<leftarrow> sax_loop p;
        (case q of
           None \<Rightarrow> Some (None, ev, s)
         | Some p \<Rightarrow> do { (rc, evs, s) \<leftarrow> sax_Parse rd p s; Some (rc, ev @ evs, s) }) }) }"

partial_function (option) sax_WriteAll :: "sax \<Rightarrow> string \<Rightarrow> (sax option \<times> event list) option" where
  "sax_WriteAll p buffer =
     (if buffer = [] then Some (Some p, [])
      else do {
        let lump = min (length buffer) (SAX_BUFSIZE - length (m_buffer p));
        (q, ev) \<leftarrow> sax_loop (p\<lparr>m_buffer := m_buffer p @ take lump buffer\<rparr>);
        (case q of
           None \<Rightarrow> Some (None, ev)
         | Some p \<Rightarrow> do { (q, evs) \<leftarrow> sax_WriteAll p (drop lump buffer); Some (q, ev @ evs) }) })"

declare sax_loop.simps [code] sax_Parse.simps [code] sax_WriteAll.simps [code]

end
