(* ===== verification/SaxRuns.thy ===== *)
theory SaxRuns
  imports Sax StreamLaws
begin

text \<open>
  The documents that \<^verbatim>\<open>SaxParser\<close> reads as their author means them, as a grammar: one relation for
  all states of the parser, between the rest of the document and the events still to come. Content is
  compared character by character, since the parser may deliver it in pieces. Every round of the
  parser keeps to the grammar, whatever part of the document is in its buffer.
\<close>

section \<open>The grammar\<close>

fun atoms :: "event list \<Rightarrow> event list" where
  "atoms [] = []"
| "atoms (OnContent s # es) = map (\<lambda>c. OnContent [c]) s @ atoms es"
| "atoms (e # es) = e # atoms es"

lemma atoms_append [simp]: "atoms (xs @ ys) = atoms xs @ atoms ys"
  by (induction xs rule: atoms.induct) auto

inductive says :: "sax_state \<Rightarrow> string \<Rightarrow> string \<Rightarrow> string \<Rightarrow> event list \<Rightarrow> bool" where
  finished: "says CONTENT t a [] []"
| char: "c \<noteq> CHR ''<'' \<Longrightarrow> c \<noteq> CHR ''&'' \<Longrightarrow> says CONTENT t a s evs \<Longrightarrow> says CONTENT t a (c # s) (OnContent [c] # evs)"
| entity: "\<forall>c\<in>set n. c \<notin> {CHR ''<'', CHR ''&'', CHR '';''} \<Longrightarrow> length n + 1 < SAX_BUFSIZE \<Longrightarrow> says CONTENT t a s evs \<Longrightarrow>
    says CONTENT t a (CHR ''&'' # n @ CHR '';'' # s) (OnContent (xml_entity n) # evs)"
| markup: "says TAG t a s evs \<Longrightarrow> says CONTENT t a (CHR ''<'' # s) evs"
| cdata: "says CDATA t a s evs \<Longrightarrow> says TAG t a (CDATASTART @ s) evs"
| cdata_char: "c \<noteq> CHR '']'' \<Longrightarrow> says CDATA t a s evs \<Longrightarrow> says CDATA t a (c # s) (OnContent [c] # evs)"
| cdata_bracket: "take 2 s \<noteq> '']>'' \<Longrightarrow> says CDATA t a s evs \<Longrightarrow> says CDATA t a (CHR '']'' # s) (OnContent '']'' # evs)"
| cdata_end: "says CONTENT t a s evs \<Longrightarrow> says CDATA t a ('']]>'' @ s) evs"
| end_tag: "\<forall>x\<in>set n. x \<notin> set TAG_END \<Longrightarrow> length n + 1 < SAX_BUFSIZE \<Longrightarrow> c \<in> set TAG_END \<Longrightarrow>
    says (if c = CHR ''>'' then CONTENT else SEEK_GT) t a s evs \<Longrightarrow> says TAG t a (CHR ''/'' # n @ c # s) (OnEnd n # evs)"
| begin_tag: "\<forall>x\<in>set n. x \<notin> set TAG_END \<Longrightarrow> length n < SAX_BUFSIZE \<Longrightarrow> c \<in> set TAG_END \<Longrightarrow> c \<noteq> CHR ''/'' \<Longrightarrow>
    hd (n @ [c]) \<noteq> CHR ''!'' \<Longrightarrow> says (if c = CHR ''>'' then CONTENT else IN_TAG) n a s evs \<Longrightarrow>
    says TAG t a (n @ c # s) (OnBegin n # evs)"
| empty_tag: "\<forall>x\<in>set n. x \<notin> set TAG_END \<Longrightarrow> length n < SAX_BUFSIZE \<Longrightarrow> n \<noteq> [] \<Longrightarrow> hd n \<noteq> CHR ''!'' \<Longrightarrow>
    says SEEK_GT n a s evs \<Longrightarrow> says TAG t a (n @ CHR ''/'' # s) (OnBegin n # OnEnd n # evs)"
| seek_gt_skip: "c \<noteq> CHR ''>'' \<Longrightarrow> says SEEK_GT t a s evs \<Longrightarrow> says SEEK_GT t a (c # s) evs"
| seek_gt: "says CONTENT t a s evs \<Longrightarrow> says SEEK_GT t a (CHR ''>'' # s) evs"
| in_tag_space: "c \<in> set WS \<Longrightarrow> says IN_TAG t a s evs \<Longrightarrow> says IN_TAG t a (c # s) evs"
| in_tag_gt: "says CONTENT t a s evs \<Longrightarrow> says IN_TAG t a (CHR ''>'' # s) evs"
| in_tag_slash: "says IN_TAG t a s evs \<Longrightarrow> says IN_TAG t a (CHR ''/'' # s) (OnEnd t # evs)"
| in_tag_attr: "c \<notin> set WS \<Longrightarrow> c \<noteq> CHR ''>'' \<Longrightarrow> c \<noteq> CHR ''/'' \<Longrightarrow> says IN_ATTR t a (c # s) evs \<Longrightarrow> says IN_TAG t a (c # s) evs"
| attr_eq: "\<forall>x\<in>set n. x \<notin> set ATTR_END \<Longrightarrow> length n < SAX_BUFSIZE \<Longrightarrow> says ATTR_SEEKVALUE t n s evs \<Longrightarrow>
    says IN_ATTR t a (n @ CHR ''='' # s) evs"
| attr_gt: "\<forall>x\<in>set n. x \<notin> set ATTR_END \<Longrightarrow> length n < SAX_BUFSIZE \<Longrightarrow> says CONTENT t n s evs \<Longrightarrow>
    says IN_ATTR t a (n @ CHR ''>'' # s) (OnAttribute n [] # evs)"
| attr_slash: "\<forall>x\<in>set n. x \<notin> set ATTR_END \<Longrightarrow> length n < SAX_BUFSIZE \<Longrightarrow> says SEEK_GT t n s evs \<Longrightarrow>
    says IN_ATTR t a (n @ CHR ''/'' # s) (OnAttribute n [] # OnEnd t # evs)"
| attr_space: "\<forall>x\<in>set n. x \<notin> set ATTR_END \<Longrightarrow> length n < SAX_BUFSIZE \<Longrightarrow> c \<in> set WS \<Longrightarrow> says ATTR_SEEKEQ t n s evs \<Longrightarrow>
    says IN_ATTR t a (n @ c # s) evs"
| seekeq_space: "c \<in> set WS \<Longrightarrow> says ATTR_SEEKEQ t a s evs \<Longrightarrow> says ATTR_SEEKEQ t a (c # s) evs"
| seekeq: "says ATTR_SEEKVALUE t a s evs \<Longrightarrow> says ATTR_SEEKEQ t a (CHR ''='' # s) evs"
| seekeq_none: "c \<notin> set WS \<Longrightarrow> c \<noteq> CHR ''='' \<Longrightarrow> says IN_TAG t a (c # s) evs \<Longrightarrow>
    says ATTR_SEEKEQ t a (c # s) (OnAttribute a [] # evs)"
| seekvalue_space: "c \<in> set WS \<Longrightarrow> says ATTR_SEEKVALUE t a s evs \<Longrightarrow> says ATTR_SEEKVALUE t a (c # s) evs"
| seekvalue_quote: "says IN_QUOTEDVALUE t a s evs \<Longrightarrow> says ATTR_SEEKVALUE t a (CHR 0x22 # s) evs"
| seekvalue: "c \<notin> set WS \<Longrightarrow> c \<noteq> CHR 0x22 \<Longrightarrow> says IN_VALUE t a (c # s) evs \<Longrightarrow> says ATTR_SEEKVALUE t a (c # s) evs"
| quoted: "CHR 0x22 \<notin> set v \<Longrightarrow> length v < SAX_BUFSIZE \<Longrightarrow> says IN_TAG t a s evs \<Longrightarrow>
    says IN_QUOTEDVALUE t a (v @ CHR 0x22 # s) (OnAttribute a (XmlUnEscape v) # evs)"
| plain_value: "\<forall>x\<in>set v. x \<notin> set TAG_END \<Longrightarrow> length v < SAX_BUFSIZE \<Longrightarrow> c \<in> set TAG_END \<Longrightarrow> says IN_TAG t a (c # s) evs \<Longrightarrow>
    says IN_VALUE t a (v @ c # s) (OnAttribute a (XmlUnEscape v) # evs)"

inductive_cases says_content: "says CONTENT t a s evs"
inductive_cases says_tag: "says TAG t a s evs"
inductive_cases says_cdata: "says CDATA t a s evs"
inductive_cases says_seek_gt: "says SEEK_GT t a s evs"
inductive_cases says_in_tag: "says IN_TAG t a s evs"
inductive_cases says_in_attr: "says IN_ATTR t a s evs"
inductive_cases says_seekeq: "says ATTR_SEEKEQ t a s evs"
inductive_cases says_seekvalue: "says ATTR_SEEKVALUE t a s evs"
inductive_cases says_quoted: "says IN_QUOTEDVALUE t a s evs"
inductive_cases says_value: "says IN_VALUE t a s evs"

lemma says_end: "says st t a [] evs \<Longrightarrow> st = CONTENT \<and> evs = []"
  by (cases st) (auto elim: says_content says_tag says_cdata says_seek_gt says_in_tag says_in_attr says_seekeq says_seekvalue
      says_quoted says_value simp: CDATASTART_def)

section \<open>Tokens in the buffer\<close>

lemma takeWhile_split: "\<forall>x\<in>set u. P x \<Longrightarrow> \<not> P c \<Longrightarrow> takeWhile P (u @ c # v) = u"
  by (induction u) auto

text \<open>A token that ends in the buffer, and one that may go on beyond it.\<close>

lemma token_inside: "b @ r = n @ c # s \<Longrightarrow> length n < length b \<Longrightarrow> \<exists>w. b = n @ c # w \<and> s = w @ r"
  by (auto simp: append_eq_append_conv2 append_eq_Cons_conv)

lemma token_beyond: "b @ r = n @ c # s \<Longrightarrow> length b \<le> length n \<Longrightarrow> \<exists>w. n = b @ w"
  by (auto simp: append_eq_append_conv2)

lemma strcspn_token:
  assumes "NUL \<notin> set b" "b @ r = n @ c # s" "\<forall>x\<in>set n. x \<notin> set e" "c \<in> set e"
  shows "strcspn b e = min (length n) (length b)" "length n < length b \<Longrightarrow> char_at (length n) b = c \<and> take (length n) b = n \<and>
      drop (length n) b @ r = c # s \<and> drop (length n + 1) b @ r = s"
proof -
  show 2: "char_at (length n) b = c \<and> take (length n) b = n \<and> drop (length n) b @ r = c # s \<and> drop (length n + 1) b @ r = s"
    if "length n < length b"
  proof -
    have "\<exists>w. b = n @ c # w \<and> s = w @ r"
      using assms(2) that by (rule token_inside)
    then show ?thesis
      by (auto simp: char_at_def)
  qed
  show "strcspn b e = min (length n) (length b)"
  proof (cases "length n < length b")
    case True
    have "\<exists>w. b = n @ c # w \<and> s = w @ r"
      using assms(2) True by (rule token_inside)
    then show ?thesis
      using assms(1,3,4) by (auto simp: strcspn_def c_str_id takeWhile_split)
  next
    case False
    then have "\<exists>w. n = b @ w"
      using token_beyond [OF assms(2)] by simp
    then have "takeWhile (\<lambda>c. c \<notin> set e) b = b"
      using assms(3) by (auto simp: takeWhile_eq_all_conv)
    then have "strcspn b e = length b"
      unfolding strcspn_def c_str_id [OF assms(1)] by (rule arg_cong)
    then show ?thesis
      using False by simp
  qed
qed


lemma strspn_run:
  assumes "NUL \<notin> set b"
  obtains u v where "b = u @ v" "strspn b e = length u" "\<forall>c\<in>set u. c \<in> set e" "v \<noteq> [] \<Longrightarrow> hd v \<notin> set e"
    "v \<noteq> [] \<Longrightarrow> char_at (strspn b e) b = hd v"
proof
  show "b = takeWhile (\<lambda>c. c \<in> set e) b @ dropWhile (\<lambda>c. c \<in> set e) b"
    by simp
  show "strspn b e = length (takeWhile (\<lambda>c. c \<in> set e) b)"
    by (simp add: strspn_def c_str_id [OF assms])
  then show "char_at (strspn b e) b = hd (dropWhile (\<lambda>c. c \<in> set e) b)" if "dropWhile (\<lambda>c. c \<in> set e) b \<noteq> []"
    using that unfolding char_at_def by (metis append_Nil2 hd_drop_conv_nth length_takeWhile_le linorder_not_less takeWhile_dropWhile_id dropWhile_eq_drop
        append_eq_conv_conj drop_eq_Nil)
  show "\<forall>c\<in>set (takeWhile (\<lambda>c. c \<in> set e) b). c \<in> set e"
    by (auto dest: set_takeWhileD)
  show "hd (dropWhile (\<lambda>c. c \<in> set e) b) \<notin> set e" if "dropWhile (\<lambda>c. c \<in> set e) b \<noteq> []"
    using hd_dropWhile [OF that] .
qed

section \<open>Every round keeps to the grammar\<close>

definition good :: "sax \<Rightarrow> string \<Rightarrow> event list \<Rightarrow> bool" where
  "good p r evs \<longleftrightarrow> says (m_state p) (m_tagname p) (m_attrname p) (m_buffer p @ r) evs \<and> NUL \<notin> set (m_buffer p @ r) \<and>
     length (m_buffer p) \<le> SAX_BUFSIZE \<and> (m_eof p \<longrightarrow> r = [])"

definition goes :: "sax \<Rightarrow> string \<Rightarrow> event list \<Rightarrow> sax \<Rightarrow> event list \<Rightarrow> bool" where
  "goes p r evs p' ev \<longleftrightarrow> m_eof p' = m_eof p \<and> (\<exists>evs'. good p' r evs' \<and> atoms evs = atoms ev @ atoms evs')"

fun keeps :: "sax \<Rightarrow> string \<Rightarrow> event list \<Rightarrow> sax_step \<Rightarrow> bool" where
  "keeps p r evs (Again p' ev) \<longleftrightarrow> goes p r evs p' ev \<and> p' \<noteq> p"
| "keeps p r evs (Wait p' ev) \<longleftrightarrow> goes p r evs p' ev \<and> r \<noteq> [] \<and> length (m_buffer p') < SAX_BUFSIZE"
| "keeps p r evs (Overrun ev) \<longleftrightarrow> False"

text \<open>A step that drops the first part of the buffer.\<close>

lemma goes_used:
  assumes "good p r evs" "m_eof p' = m_eof p" "m_buffer p' = drop k (m_buffer p)"
    "says (m_state p') (m_tagname p') (m_attrname p') (m_buffer p' @ r) evs'" "atoms evs = atoms ev @ atoms evs'"
  shows "goes p r evs p' ev"
  using assms unfolding goes_def good_def by (auto intro!: exI [of _ evs'] dest: in_set_dropD)


lemma keeps_used:
  assumes "good p r evs" "m_eof p' = m_eof p" "m_buffer p' = drop k (m_buffer p)" "m_state p' \<noteq> m_state p \<or> 0 < k \<and> m_buffer p \<noteq> []"
    "says (m_state p') (m_tagname p') (m_attrname p') (m_buffer p' @ r) evs'" "atoms evs = atoms ev @ atoms evs'"
  shows "keeps p r evs (Again p' ev)"
proof -
  have "p' \<noteq> p"
    using assms(3,4) by (cases k; cases "m_buffer p") (auto dest: arg_cong [of _ _ length])
  then show ?thesis
    using goes_used [OF assms(1-3,5,6)] by simp
qed

subsection \<open>Content\<close>

text \<open>Every ampersand has its semicolon: text that can be unescaped on its own.\<close>

definition closed :: "string \<Rightarrow> bool" where
  "closed u \<longleftrightarrow> (\<forall>x y. u = x @ CHR ''&'' # y \<longrightarrow> CHR '';'' \<in> set y)"

lemma closed_no_amp: "CHR ''&'' \<notin> set u \<Longrightarrow> closed u"
  by (auto simp: closed_def)

lemma closed_last: "CHR '';'' \<in> set v \<Longrightarrow> CHR ''&'' \<notin> set v \<Longrightarrow> closed (u @ CHR ''&'' # v)"
  by (auto simp: closed_def append_eq_append_conv2 append_eq_Cons_conv Cons_eq_append_conv)

lemma closed_tail: "closed (x @ y) \<Longrightarrow> closed y"
  unfolding closed_def by (metis append_assoc)

lemma split_later: "n @ c # s = y @ d # w \<Longrightarrow> d \<notin> set n \<Longrightarrow> d \<noteq> c \<Longrightarrow> \<exists>z. y = n @ c # z \<and> s = z @ d # w"
proof (induction n arbitrary: y)
  case Nil
  then show ?case by (cases y) auto
next
  case (Cons x n)
  then show ?case by (cases y) auto
qed

lemma split_first: "n @ c # s = y @ v \<Longrightarrow> c \<in> set y \<Longrightarrow> c \<notin> set n \<Longrightarrow> \<exists>z. y = n @ c # z \<and> s = z @ v"
proof (induction n arbitrary: y)
  case Nil
  then show ?case by (cases y) auto
next
  case (Cons x n)
  then show ?case by (cases y) auto
qed

lemma closed_entity: "closed z \<Longrightarrow> CHR ''&'' \<notin> set n \<Longrightarrow> closed (CHR ''&'' # n @ CHR '';'' # z)"
proof -
  assume z: "closed z" and n: "CHR ''&'' \<notin> set n"
  have "CHR '';'' \<in> set y" if e: "CHR ''&'' # n @ CHR '';'' # z = x @ CHR ''&'' # y" for x y
  proof (cases x)
    case Nil
    then show ?thesis using e by auto
  next
    case (Cons c x')
    then have "n @ CHR '';'' # z = x' @ CHR ''&'' # y"
      using e by simp
    then have "\<exists>w. x' = n @ CHR '';'' # w \<and> z = w @ CHR ''&'' # y"
      using n by (intro split_later) simp_all
    then show ?thesis
      using z by (auto simp: closed_def)
  qed
  then show ?thesis
    by (auto simp: closed_def)
qed

lemma closed_Cons: "c \<noteq> CHR ''&'' \<Longrightarrow> closed (c # u) \<longleftrightarrow> closed u"
  unfolding closed_def by (auto simp: Cons_eq_append_conv)

lemma closed_cut:
  "says st t a s evs \<Longrightarrow> s = u @ d # w \<Longrightarrow> st = CONTENT \<Longrightarrow> CHR ''<'' \<notin> set u \<Longrightarrow> d = CHR ''<'' \<or> d = CHR ''&'' \<Longrightarrow> closed u"
proof (induction arbitrary: u rule: says.induct)
  case (char c t a s evs)
  then show ?case
    by (cases u) (auto simp: closed_Cons closed_no_amp)
next
  case (entity n t a s evs)
  show ?case
  proof (cases u)
    case (Cons x y)
    then have y: "x = CHR ''&''" "n @ CHR '';'' # s = y @ d # w"
      using entity.prems(1) by auto
    then obtain z where z: "y = n @ CHR '';'' # z" "s = z @ d # w"
      using split_later [of n "CHR '';''" s y d w] entity.hyps(1) entity.prems(4) by auto
    then have "closed z"
      using entity.IH entity.prems Cons by auto
    then show ?thesis
      using entity.hyps(1) unfolding Cons y(1) z(1) by (intro closed_entity) auto
  qed (simp add: closed_no_amp)
next
  case (markup t a s evs)
  then show ?case
    by (cases u) (auto simp: closed_no_amp)
qed simp_all

lemma content_split:
  "says st t a s evs \<Longrightarrow> s = u @ v \<Longrightarrow> st = CONTENT \<Longrightarrow> CHR ''<'' \<notin> set u \<Longrightarrow> closed u \<Longrightarrow>
     \<exists>evs'. says CONTENT t a v evs' \<and> atoms evs = atoms [OnContent (xml_unescape_loop u)] @ atoms evs'"
proof (induction arbitrary: u rule: says.induct)
  case (finished t a)
  then show ?case
    by (auto intro!: exI [of _ "[]"] says.finished)
next
  case (char c t a s evs)
  show ?case
  proof (cases u)
    case Nil
    then show ?thesis
      using says.char [OF char.hyps(1-3)] char.prems(1) by (intro exI [of _ "OnContent [c] # evs"]) simp
  next
    case (Cons x y)
    then have "x = c" "s = y @ v" "closed y"
      using char.prems(1,4) char.hyps(2) Cons by (auto simp: closed_Cons)
    then show ?thesis
      using char.IH [of y] char.hyps(1,2) char.prems(2,3) Cons by auto
  qed
next
  case (entity n t a s evs)
  show ?case
  proof (cases u)
    case Nil
    then show ?thesis
      using says.entity [OF entity.hyps(1-3)] entity.prems(1) by (intro exI [of _ "OnContent (xml_entity n) # evs"]) auto
  next
    case (Cons x y)
    then have y: "x = CHR ''&''" "n @ CHR '';'' # s = y @ v"
      using entity.prems(1) by auto
    moreover have "CHR '';'' \<in> set y"
      using entity.prems(4) Cons y(1) by (auto simp: closed_def)
    ultimately obtain z where z: "y = n @ CHR '';'' # z" "s = z @ v"
      using split_first [of n "CHR '';''" s y v] entity.hyps(1) by auto
    have "closed z"
      using closed_tail [of "CHR ''&'' # n @ [CHR '';'']" z] entity.prems(4) Cons y(1) z(1) by simp
    then obtain evs' where e: "says CONTENT t a v evs'" "atoms evs = atoms [OnContent (xml_unescape_loop z)] @ atoms evs'"
      using entity.IH [of z] z entity.prems(2,3) Cons by auto
    have "CHR '';'' \<notin> set n"
      using entity.hyps(1) by auto
    then have "xml_unescape_loop u = xml_entity n @ xml_unescape_loop z"
      unfolding Cons y(1) z(1) by (simp add: takeWhile_neq dropWhile_neq)
    then show ?thesis
      using e by (intro exI [of _ evs']) simp
  qed
next
  case (markup t a s evs)
  then show ?case
    by (cases u) (auto intro!: says.markup exI [of _ evs])
qed simp_all


lemma XmlUnEscape_no_NUL: "NUL \<notin> set u \<Longrightarrow> XmlUnEscape u = xml_unescape_loop u"
  by (simp add: XmlUnEscape_def c_str_id)

text \<open>A round in \<^verbatim>\<open>CONTENT\<close> that delivers the first part of the buffer.\<close>

lemma content_goes:
  assumes "good p r evs" "m_state p = CONTENT" "m_buffer p = u @ v" "CHR ''<'' \<notin> set u" "closed u"
  shows "\<exists>evs'. says CONTENT (m_tagname p) (m_attrname p) (v @ r) evs' \<and>
    atoms evs = atoms [OnContent (XmlUnEscape u)] @ atoms evs'"
proof -
  have "says CONTENT (m_tagname p) (m_attrname p) (u @ v @ r) evs" "NUL \<notin> set u"
    using assms(1-3) by (auto simp: good_def)
  then show ?thesis
    using content_split [OF _ refl refl assms(4,5)] by (auto simp: XmlUnEscape_no_NUL)
qed

lemma round_content_markup:
  assumes g: "good p r evs" and st: "m_state p = CONTENT" and lt: "strchr CHR ''<'' (m_buffer p) = Some lt"
  shows "keeps p r evs (sax_content p)"
proof -
  obtain u v where uv: "m_buffer p = u @ CHR ''<'' # v" "CHR ''<'' \<notin> set u" "lt = length u"
    using strchr_split [OF _ lt] g by (auto simp: good_def)
  have says: "says CONTENT (m_tagname p) (m_attrname p) (u @ CHR ''<'' # v @ r) evs"
    using g st uv(1) by (simp add: good_def)
  obtain evs' where e: "says CONTENT (m_tagname p) (m_attrname p) (CHR ''<'' # v @ r) evs'"
    "atoms evs = atoms [OnContent (XmlUnEscape u)] @ atoms evs'"
    using content_goes [OF g st uv(1,2) closed_cut [OF says refl refl uv(2)]] by auto
  have t: "says TAG (m_tagname p) (m_attrname p) (v @ r) evs'"
    using e(1) by (rule says_content) auto
  have "keeps p r evs (Again (used_up (lt + 1) (p\<lparr>m_state := TAG\<rparr>)) (if 0 < lt then [OnContent (XmlUnEscape (take lt (m_buffer p)))] else []))"
    by (rule keeps_used [OF g, where k = "lt + 1" and evs' = evs']) (use uv t e st in \<open>auto simp: used_up_def XmlUnEscape_def c_str_def\<close>)
  then show ?thesis
    using lt by (simp add: sax_content_def Let_def)
qed

lemma content_all_goes:
  assumes g: "good p r evs" and st: "m_state p = CONTENT" and ne: "m_buffer p \<noteq> []"
    and lt: "CHR ''<'' \<notin> set (m_buffer p)" and c: "closed (m_buffer p)"
  shows "keeps p r evs (Again (p\<lparr>m_buffer := []\<rparr>) [OnContent (XmlUnEscape (m_buffer p))])"
proof -
  obtain evs' where "says CONTENT (m_tagname p) (m_attrname p) r evs'"
    "atoms evs = atoms [OnContent (XmlUnEscape (m_buffer p))] @ atoms evs'"
    using content_goes [OF g st, of "m_buffer p" "[]"] lt c by auto
  then show ?thesis
    by (intro keeps_used [OF g, where k = "length (m_buffer p)" and evs' = evs']) (use ne in \<open>simp_all add: st\<close>)
qed

text \<open>The last ampersand of the buffer, and whether its semicolon is there.\<close>

lemma semicolon_after:
  assumes "NUL \<notin> set (u @ CHR ''&'' # v)"
  shows "(case strrchr CHR '';'' (u @ CHR ''&'' # v) of None \<Rightarrow> True | Some semi \<Rightarrow> semi < length u) \<longleftrightarrow> CHR '';'' \<notin> set v"
proof (cases "strrchr CHR '';'' (u @ CHR ''&'' # v)")
  case None
  then show ?thesis
    using strrchr_none [OF assms, of "CHR '';''"] by auto
next
  case (Some semi)
  then obtain x y where xy: "u @ CHR ''&'' # v = x @ CHR '';'' # y" "CHR '';'' \<notin> set y" "semi = length x"
    using strrchr_split [OF assms] by blast
  have "length x < length u \<longleftrightarrow> CHR '';'' \<notin> set v"
    using xy(1,2) by (auto simp: append_eq_append_conv2 append_eq_Cons_conv Cons_eq_append_conv)
  then show ?thesis
    using Some xy(3) by simp
qed

lemma entity_waits:
  assumes g: "good p r evs" and st: "m_state p = CONTENT" and lt: "CHR ''<'' \<notin> set (m_buffer p)"
    and uv: "m_buffer p = u @ CHR ''&'' # v" "CHR '';'' \<notin> set v"
  shows "keeps p r evs (Wait (used_up (length u) p) [OnContent (XmlUnEscape (take (length u) (m_buffer p)))])"
proof -
  have says: "says CONTENT (m_tagname p) (m_attrname p) (u @ CHR ''&'' # v @ r) evs"
    using g st uv(1) by (simp add: good_def)
  have "closed u" "CHR ''<'' \<notin> set u"
    using closed_cut [OF says refl] uv(1) lt by auto
  then obtain evs' where e: "says CONTENT (m_tagname p) (m_attrname p) (CHR ''&'' # v @ r) evs'"
    "atoms evs = atoms [OnContent (XmlUnEscape u)] @ atoms evs'"
    using content_goes [OF g st, of u] uv by auto
  have go: "goes p r evs (used_up (length u) p) [OnContent (XmlUnEscape (take (length u) (m_buffer p)))]"
    by (rule goes_used [OF g, where k = "length u" and evs' = evs']) (use uv e st in \<open>auto simp: used_up_def\<close>)
  obtain n s where n: "v @ r = n @ CHR '';'' # s" "length n + 1 < SAX_BUFSIZE"
    using e(1) by (rule says_content) auto
  have "length v \<le> length n"
    using n(1) uv(2) by (auto simp: append_eq_append_conv2 append_eq_Cons_conv)
  moreover have "r \<noteq> []"
    using n(1) uv(2) by auto
  ultimately show ?thesis
    using n(2) uv(1) go by (simp add: used_up_def)
qed

lemma round_content:
  assumes g: "good p r evs" and st: "m_state p = CONTENT" and ne: "m_buffer p \<noteq> []"
  shows "keeps p r evs (sax_content p)"
proof (cases "strchr CHR ''<'' (m_buffer p)")
  case (Some lt)
  then show ?thesis
    using round_content_markup [OF g st] by blast
next
  case None
  have nul: "NUL \<notin> set (m_buffer p)"
    using g by (auto simp: good_def)
  then have lt: "CHR ''<'' \<notin> set (m_buffer p)"
    using None strchr_none by blast
  show ?thesis
  proof (cases "strrchr CHR ''&'' (m_buffer p)")
    case None': None
    then have "closed (m_buffer p)"
      using strrchr_none [OF nul] closed_no_amp by blast
    then have "keeps p r evs (Again (p\<lparr>m_buffer := []\<rparr>) [OnContent (XmlUnEscape (m_buffer p))])"
      by (rule content_all_goes [OF g st ne lt])
    then show ?thesis
      using None None' by (simp add: sax_content_def Let_def)
  next
    case (Some amp)
    then obtain u v where uv: "m_buffer p = u @ CHR ''&'' # v" "CHR ''&'' \<notin> set v" "amp = length u"
      using strrchr_split [OF nul] by blast
    note semi = semicolon_after [of u v, folded uv(1), OF nul]
    show ?thesis
    proof (cases "CHR '';'' \<in> set v")
      case True
      then have "closed (m_buffer p)"
        using closed_last uv(1,2) by simp
      then show ?thesis
        using True None Some semi content_all_goes [OF g st ne lt] uv(3) by (simp add: sax_content_def Let_def)
    next
      case False
      moreover have "m_eof p \<longrightarrow> r = []"
        using g by (simp add: good_def)
      ultimately show ?thesis
        using None Some semi entity_waits [OF g st lt uv(1) False] uv(3) by (auto simp: sax_content_def Let_def)
    qed
  qed
qed


subsection \<open>Sections that are not unescaped\<close>

lemma cdata_split: "says CDATA t a (u @ v) evs \<Longrightarrow> CHR '']'' \<notin> set u \<Longrightarrow>
   \<exists>evs'. says CDATA t a v evs' \<and> atoms evs = atoms [OnContent u] @ atoms evs'"
proof (induction u arbitrary: evs)
  case (Cons c u)
  then obtain evs1 where "says CDATA t a (u @ v) evs1" "evs = OnContent [c] # evs1"
    by (auto elim: says_cdata)
  then show ?case
    using Cons.IH [of evs1] Cons.prems(2) by auto
qed auto

lemma cdata_length: "says st t a s evs \<Longrightarrow> st = CDATA \<Longrightarrow> 3 \<le> length s"
  by (induction rule: says.induct) auto

lemma cdata_goes:
  assumes g: "good p r evs" and st: "m_state p = CDATA" and u: "m_buffer p = u @ v" "CHR '']'' \<notin> set u" "u \<noteq> []"
  shows "keeps p r evs (Again (used_up (length u) p) [OnContent u])"
proof -
  have "says CDATA (m_tagname p) (m_attrname p) (u @ v @ r) evs"
    using g st u(1) by (auto simp: good_def)
  then obtain evs' where "says CDATA (m_tagname p) (m_attrname p) (v @ r) evs'" "atoms evs = atoms [OnContent u] @ atoms evs'"
    using cdata_split u(2) by blast
  then show ?thesis
    by (intro keeps_used [OF g, where k = "length u" and evs' = evs']) (use u in \<open>simp_all add: used_up_def st\<close>)
qed

lemma round_cdata_bracket:
  assumes g: "good p r evs" and st: "m_state p = CDATA" and b: "m_buffer p = CHR '']'' # v" "3 \<le> length (m_buffer p)"
  shows "keeps p r evs (sax_cdata p)"
proof -
  have says: "says CDATA (m_tagname p) (m_attrname p) (m_buffer p @ r) evs"
    using g st by (auto simp: good_def)
  have lt: "strchr CHR '']'' (m_buffer p) = Some 0"
    using b by (simp add: strchr_def Let_def c_str_def)
  obtain x y w where b': "m_buffer p = CHR '']'' # x # y # w"
    using b by (cases v; cases "tl v") auto
  show ?thesis
  proof (rule says_cdata [OF says [unfolded b' append_Cons]], goal_cases)
    case (2 s evs')
    then have "keeps p r evs (Again (used_up 1 p) [OnContent '']''])"
      by (intro keeps_used [OF g, where k = 1 and evs' = evs']) (simp_all add: used_up_def st b')
    then show ?thesis
      using lt 2 b b' by (auto simp: sax_cdata_def char_at_def)
  next
    case (3 s)
    then have "keeps p r evs (Again (used_up 3 (p\<lparr>m_state := CONTENT\<rparr>)) [])"
      by (intro keeps_used [OF g, where k = 3 and evs' = evs]) (simp_all add: used_up_def st b')
    then show ?thesis
      using lt 3 b b' by (auto simp: sax_cdata_def char_at_def)
  qed auto
qed

lemma round_cdata:
  assumes g: "good p r evs" and st: "m_state p = CDATA" and ne: "m_buffer p \<noteq> []"
  shows "keeps p r evs (sax_cdata p)"
proof -
  have nul: "NUL \<notin> set (m_buffer p)" and says: "says CDATA (m_tagname p) (m_attrname p) (m_buffer p @ r) evs"
    using g st by (auto simp: good_def)
  show ?thesis
  proof (cases "strchr CHR '']'' (m_buffer p)")
    case None
    then have "CHR '']'' \<notin> set (m_buffer p)"
      using strchr_none [OF nul] by blast
    then show ?thesis
      using None cdata_goes [OF g st, of "m_buffer p" "[]"] ne by (simp add: sax_cdata_def used_up_def c_str_id [OF nul])
  next
    case (Some ket)
    then obtain u v where uv: "m_buffer p = u @ CHR '']'' # v" "CHR '']'' \<notin> set u" "ket = length u"
      using strchr_split [OF nul] by blast
    consider "u \<noteq> []" | "u = []" "length (m_buffer p) < 3" | "u = []" "3 \<le> length (m_buffer p)"
      by fastforce
    then show ?thesis
    proof cases
      case 1
      then show ?thesis
        using Some uv cdata_goes [OF g st uv(1,2)] by (simp add: sax_cdata_def Let_def)
    next
      case 2
      moreover have "r \<noteq> []" "goes p r evs p []"
        using cdata_length [OF says refl] 2(2) g by (auto simp: good_def goes_def)
      ultimately show ?thesis
        using Some uv(3) by (simp add: sax_cdata_def Let_def SAX_BUFSIZE_def)
    next
      case 3
      then show ?thesis
        using round_cdata_bracket [OF g st _ 3(2)] uv(1) by simp
    qed
  qed
qed


subsection \<open>Tags\<close>

text \<open>A token that does not end in the buffer: the parser waits for the rest.\<close>

lemma token_waits:
  assumes g: "good p r evs" and b: "m_buffer p @ r = n @ c # s" and n: "length (m_buffer p) \<le> length n" "length n < SAX_BUFSIZE"
  shows "\<not> m_eof p \<and> length (m_buffer p) < SAX_BUFSIZE \<and> keeps p r evs (Wait p [])"
proof -
  have "r \<noteq> []"
    using b n(1) by (auto dest: arg_cong [of _ _ length])
  then show ?thesis
    using g n by (auto simp: good_def goes_def)
qed

lemma TAG_END_iff: "c \<in> set TAG_END \<longleftrightarrow> c \<in> set WS \<or> c = CHR ''/'' \<or> c = CHR ''>''"
  by (auto simp: TAG_END_def)

lemma ATTR_END_iff: "c \<in> set ATTR_END \<longleftrightarrow> c \<in> set WS \<or> c = CHR ''='' \<or> c = CHR ''/'' \<or> c = CHR ''>''"
  by (auto simp: ATTR_END_def)

lemma not_WS [simp]: "CHR ''>'' \<notin> set WS" "CHR ''/'' \<notin> set WS" "CHR ''='' \<notin> set WS" "CHR 0x22 \<notin> set WS" "CHR ''!'' \<notin> set WS"
  by (simp_all add: WS_def)

lemma round_tag_cdata:
  assumes g: "good p r evs" and st: "m_state p = TAG" and ne: "m_buffer p \<noteq> []"
    and s: "m_buffer p @ r = CDATASTART @ s" "says CDATA (m_tagname p) (m_attrname p) s evs"
  shows "keeps p r evs (sax_tag p)"
proof -
  define k where "k = min (length (m_buffer p)) (length CDATASTART)"
  have k: "take k (m_buffer p) = take k CDATASTART"
    using arg_cong [OF s(1), of "take k"] by (simp add: k_def min_def split: if_splits)
  show ?thesis
  proof (cases "length (m_buffer p) < length CDATASTART")
    case True
    then have "r \<noteq> []"
      using s(1) by (auto dest: arg_cong [of _ _ length])
    then have "\<not> m_eof p" "r \<noteq> []" "goes p r evs p []" "length (m_buffer p) < SAX_BUFSIZE"
      using g True by (auto simp: good_def goes_def CDATASTART_def SAX_BUFSIZE_def)
    then show ?thesis
      using k True by (simp add: sax_tag_def Let_def k_def)
  next
    case False
    then have "drop (length CDATASTART) (m_buffer p) @ r = s"
      using arg_cong [OF s(1), of "drop (length CDATASTART)"] by simp
    then have "keeps p r evs (Again (used_up (length CDATASTART) (p\<lparr>m_state := CDATA\<rparr>)) [])"
      using s(2) st by (intro keeps_used [OF g, where k = "length CDATASTART" and evs' = evs]) (simp_all add: used_up_def)
    then show ?thesis
      using k False by (simp add: sax_tag_def Let_def k_def)
  qed
qed

lemma not_cdata: "b \<noteq> [] \<Longrightarrow> hd b \<noteq> CHR ''!'' \<Longrightarrow> take (min (length b) (length CDATASTART)) b \<noteq> take (min (length b) (length CDATASTART)) CDATASTART"
  by (cases b) (auto simp: CDATASTART_def)

lemma round_tag_end:
  assumes g: "good p r evs" and st: "m_state p = TAG" and ne: "m_buffer p \<noteq> []"
    and s: "m_buffer p @ r = CHR ''/'' # n @ c # s" "\<forall>x\<in>set n. x \<notin> set TAG_END" "length n + 1 < SAX_BUFSIZE" "c \<in> set TAG_END"
    and says: "says (if c = CHR ''>'' then CONTENT else SEEK_GT) (m_tagname p) (m_attrname p) s evs'" "evs = OnEnd n # evs'"
  shows "keeps p r evs (sax_tag p)"
proof -
  obtain b where b: "m_buffer p = CHR ''/'' # b" "b @ r = n @ c # s"
    using ne s(1) by (cases "m_buffer p") auto
  have nul: "NUL \<notin> set b"
    using g b(1) by (auto simp: good_def)
  note tok = strcspn_token [OF nul b(2) s(2,4)] and nc = not_cdata [OF ne]
  show ?thesis
  proof (cases "length n < length b")
    case False
    then show ?thesis
      using token_waits [OF g, of "CHR ''/'' # n" c s] tok(1) nc b(1) s(1,3) by (simp add: sax_tag_def Let_def char_at_def)
  next
    case True
    let ?st = "if c = CHR ''>'' then CONTENT else SEEK_GT"
    have c: "char_at (length n + 1) (m_buffer p) = c" "take (length n + 1) (m_buffer p) = CHR ''/'' # n"
      "drop (length n + 2) (m_buffer p) @ r = s"
      using tok(2) [OF True] b(1) by (auto simp: char_at_def)
    then have "keeps p r evs (Again (used_up (length n + 2) (p\<lparr>m_state := ?st\<rparr>)) [OnEnd n])"
      using says st by (intro keeps_used [OF g, where k = "length n + 2" and evs' = evs']) (simp_all add: used_up_def ne)
    then show ?thesis
      using tok(1) True nc b(1) c by (simp add: sax_tag_def Let_def char_at_def)
  qed
qed

lemma round_tag_begin:
  assumes g: "good p r evs" and st: "m_state p = TAG" and ne: "m_buffer p \<noteq> []"
    and s: "m_buffer p @ r = n @ c # s" "\<forall>x\<in>set n. x \<notin> set TAG_END" "length n < SAX_BUFSIZE" "c \<in> set TAG_END"
    and n: "hd (n @ [c]) \<noteq> CHR ''!''" "n = [] \<Longrightarrow> c \<noteq> CHR ''/''"
    and says: "says (if c = CHR ''/'' then SEEK_GT else if c = CHR ''>'' then CONTENT else IN_TAG) n (m_attrname p) s evs'"
      "evs = (if c = CHR ''/'' then [OnBegin n, OnEnd n] else [OnBegin n]) @ evs'"
  shows "keeps p r evs (sax_tag p)"
proof -
  have nul: "NUL \<notin> set (m_buffer p)"
    using g by (auto simp: good_def)
  have h: "hd (m_buffer p) = hd (n @ [c])"
    using ne s(1) by (cases "m_buffer p"; cases n) auto
  have "hd (m_buffer p) \<noteq> CHR ''/''"
    using h n(2) s(2) by (cases n) (auto simp: TAG_END_def)
  then have slash: "char_at 0 (m_buffer p) \<noteq> CHR ''/''"
    using ne by (simp add: char_at_def hd_conv_nth)
  note tok = strcspn_token [OF nul s(1,2,4)] and nc = not_cdata [OF ne]
  show ?thesis
  proof (cases "length n < length (m_buffer p)")
    case False
    then show ?thesis
      using token_waits [OF g s(1) _ s(3)] tok(1) nc h n(1) slash by (simp add: sax_tag_def Let_def)
  next
    case True
    let ?st = "if c = CHR ''/'' then SEEK_GT else if c = CHR ''>'' then CONTENT else IN_TAG"
    have "keeps p r evs (Again (used_up (length n + 1) (p\<lparr>m_tagname := n, m_state := ?st\<rparr>))
        (if c = CHR ''/'' then [OnBegin n, OnEnd n] else [OnBegin n]))"
      by (rule keeps_used [OF g, where k = "length n + 1" and evs' = evs'])
        (use says st tok(2) [OF True] in \<open>simp_all add: used_up_def ne\<close>)
    then show ?thesis
      using tok True nc h n(1) slash by (simp add: sax_tag_def Let_def split: if_splits)
  qed
qed

lemma round_tag:
  assumes g: "good p r evs" and st: "m_state p = TAG" and ne: "m_buffer p \<noteq> []"
  shows "keeps p r evs (sax_tag p)"
proof -
  have "says TAG (m_tagname p) (m_attrname p) (m_buffer p @ r) evs"
    using g st by (simp add: good_def)
  then show ?thesis
  proof (rule says_tag, goal_cases)
    case (1 s)
    then show ?case
      using round_tag_cdata [OF assms] by blast
  next
    case (2 n c s evs')
    then show ?case
      by (intro round_tag_end [OF assms, of n c s evs']) simp_all
  next
    case (3 n c s evs')
    then show ?case
      by (intro round_tag_begin [OF assms, of n c s evs']) auto
  next
    case (4 n s evs')
    then show ?case
      by (intro round_tag_begin [OF assms, of n "CHR ''/''" s evs']) (auto simp: TAG_END_iff)
  qed
qed


lemma seek_gt_skips: "says SEEK_GT t a (u @ v) evs \<Longrightarrow> CHR ''>'' \<notin> set u \<Longrightarrow> says SEEK_GT t a v evs"
  by (induction u) (auto elim: says_seek_gt)

lemma round_seek_gt:
  assumes g: "good p r evs" and st: "m_state p = SEEK_GT" and ne: "m_buffer p \<noteq> []"
  shows "keeps p r evs (sax_seek_gt p)"
proof -
  have nul: "NUL \<notin> set (m_buffer p)" and says: "says SEEK_GT (m_tagname p) (m_attrname p) (m_buffer p @ r) evs"
    using g st by (auto simp: good_def)
  show ?thesis
  proof (cases "strchr CHR ''>'' (m_buffer p)")
    case None
    then have r: "says SEEK_GT (m_tagname p) (m_attrname p) r evs"
      using seek_gt_skips [OF says] strchr_none [OF nul] by blast
    then have "r \<noteq> []"
      using says_end by blast
    moreover have "keeps p r evs (Again (p\<lparr>m_buffer := []\<rparr>) [])"
      by (intro keeps_used [OF g, where k = "length (m_buffer p)" and evs' = evs]) (use ne r in \<open>simp_all add: st\<close>)
    moreover have "goes p r evs p []"
      using g by (auto simp: goes_def)
    ultimately show ?thesis
      using None by (simp add: sax_seek_gt_def)
  next
    case (Some gt)
    then obtain u v where uv: "m_buffer p = u @ CHR ''>'' # v" "CHR ''>'' \<notin> set u" "gt = length u"
      using strchr_split [OF nul] by blast
    then have "says SEEK_GT (m_tagname p) (m_attrname p) (CHR ''>'' # v @ r) evs"
      using seek_gt_skips [of _ _ u "CHR ''>'' # v @ r"] says by simp
    then have "says CONTENT (m_tagname p) (m_attrname p) (v @ r) evs"
      by (rule says_seek_gt) auto
    then have "keeps p r evs (Again (used_up (gt + 1) (p\<lparr>m_state := CONTENT\<rparr>)) [])"
      by (intro keeps_used [OF g, where k = "gt + 1" and evs' = evs]) (simp_all add: used_up_def st uv)
    then show ?thesis
      using Some by (simp add: sax_seek_gt_def)
  qed
qed

subsection \<open>White space\<close>

lemma space_skips:
  "says st t a (u @ v) evs \<Longrightarrow> st \<in> {IN_TAG, ATTR_SEEKEQ, ATTR_SEEKVALUE} \<Longrightarrow> \<forall>c\<in>set u. c \<in> set WS \<Longrightarrow> says st t a v evs"
proof (induction u)
  case (Cons c u)
  then have "says st t a (u @ v) evs"
    by (auto elim: says_in_tag says_seekeq says_seekvalue)
  then show ?case
    using Cons by simp
qed simp

text \<open>
  The three states that skip white space: all of the buffer, or up to a character that decides.
\<close>

lemma round_space:
  assumes g: "good p r evs" and st: "m_state p \<in> {IN_TAG, ATTR_SEEKEQ, ATTR_SEEKVALUE}" and ne: "m_buffer p \<noteq> []"
    and all: "strspn (m_buffer p) WS = length (m_buffer p) \<Longrightarrow> keeps p r evs (Again (p\<lparr>m_buffer := []\<rparr>) []) \<Longrightarrow> P"
    and some: "\<And>c v. strspn (m_buffer p) WS < length (m_buffer p) \<Longrightarrow> char_at (strspn (m_buffer p) WS) (m_buffer p) = c \<Longrightarrow>
      drop (strspn (m_buffer p) WS) (m_buffer p) = c # v \<Longrightarrow> drop (Suc (strspn (m_buffer p) WS)) (m_buffer p) = v \<Longrightarrow> c \<notin> set WS \<Longrightarrow>
      says (m_state p) (m_tagname p) (m_attrname p) (c # v @ r) evs \<Longrightarrow> P"
  shows P
proof -
  have nul: "NUL \<notin> set (m_buffer p)" and says: "says (m_state p) (m_tagname p) (m_attrname p) (m_buffer p @ r) evs"
    using g by (auto simp: good_def)
  obtain u v where uv: "m_buffer p = u @ v" "strspn (m_buffer p) WS = length u" "\<forall>c\<in>set u. c \<in> set WS" "v \<noteq> [] \<Longrightarrow> hd v \<notin> set WS"
    "v \<noteq> [] \<Longrightarrow> char_at (strspn (m_buffer p) WS) (m_buffer p) = hd v"
    using strspn_run [OF nul, of WS] by metis
  have rest: "says (m_state p) (m_tagname p) (m_attrname p) (v @ r) evs"
    using says uv(1) space_skips [OF _ st uv(3)] by simp
  show P
  proof (cases v)
    case Nil
    have "keeps p r evs (Again (p\<lparr>m_buffer := []\<rparr>) [])"
      by (rule keeps_used [OF g, where k = "length (m_buffer p)" and evs' = evs]) (use rest ne Nil in simp_all)
    then show P
      using all Nil uv(1,2) by simp
  next
    case (Cons c w)
    then show P
      using some [of c w] uv rest by simp
  qed
qed

lemma round_in_tag:
  assumes g: "good p r evs" and st: "m_state p = IN_TAG" and ne: "m_buffer p \<noteq> []"
  shows "keeps p r evs (sax_in_tag p)"
proof (rule round_space [OF g _ ne])
  let ?k = "strspn (m_buffer p) WS"
  fix c v
  assume k: "?k < length (m_buffer p)" "char_at ?k (m_buffer p) = c" "drop ?k (m_buffer p) = c # v" "drop (Suc ?k) (m_buffer p) = v"
    and says: "says (m_state p) (m_tagname p) (m_attrname p) (c # v @ r) evs" and ws: "c \<notin> set WS"
  show "keeps p r evs (sax_in_tag p)"
  proof (rule says_in_tag [OF says [unfolded st]], goal_cases)
    case (2 s)
    then have "keeps p r evs (Again (used_up ?k (p\<lparr>m_state := SEEK_GT\<rparr>)) [])"
      by (intro keeps_used [OF g, where k = ?k and evs' = evs]) (auto simp: used_up_def st k intro: says.seek_gt)
    then show ?case
      using 2 k by (simp add: sax_in_tag_def Let_def)
  next
    case (3 s evs')
    then have "keeps p r evs (Again (used_up (?k + 1) p) [OnEnd (m_tagname p)])"
      by (intro keeps_used [OF g, where k = "?k + 1" and evs' = evs']) (auto simp: used_up_def st k ne)
    then show ?case
      using 3 k by (simp add: sax_in_tag_def Let_def)
  next
    case (4 c' s)
    then have "keeps p r evs (Again (used_up ?k (p\<lparr>m_state := IN_ATTR\<rparr>)) [])"
      by (intro keeps_used [OF g, where k = ?k and evs' = evs]) (auto simp: used_up_def st k)
    then show ?case
      using 4 k by (simp add: sax_in_tag_def Let_def)
  qed (use ws in auto)
qed (simp_all add: st sax_in_tag_def)


lemma round_seekeq:
  assumes g: "good p r evs" and st: "m_state p = ATTR_SEEKEQ" and ne: "m_buffer p \<noteq> []"
  shows "keeps p r evs (sax_seekeq p)"
proof (rule round_space [OF g _ ne])
  let ?k = "strspn (m_buffer p) WS"
  fix c v
  assume k: "?k < length (m_buffer p)" "char_at ?k (m_buffer p) = c" "drop ?k (m_buffer p) = c # v" "drop (Suc ?k) (m_buffer p) = v"
    and says: "says (m_state p) (m_tagname p) (m_attrname p) (c # v @ r) evs" and ws: "c \<notin> set WS"
  show "keeps p r evs (sax_seekeq p)"
  proof (rule says_seekeq [OF says [unfolded st]], goal_cases)
    case (2 s)
    then have "keeps p r evs (Again (used_up (?k + 1) (p\<lparr>m_state := ATTR_SEEKVALUE\<rparr>)) [])"
      by (intro keeps_used [OF g, where k = "?k + 1" and evs' = evs]) (auto simp: used_up_def st k ne)
    then show ?case
      using 2 k by (simp add: sax_seekeq_def Let_def)
  next
    case (3 c' s evs')
    then have "keeps p r evs (Again (used_up ?k (p\<lparr>m_state := IN_TAG\<rparr>)) [OnAttribute (m_attrname p) []])"
      by (intro keeps_used [OF g, where k = ?k and evs' = evs']) (auto simp: used_up_def st k)
    then show ?case
      using 3 k by (simp add: sax_seekeq_def Let_def)
  qed (use ws in auto)
qed (simp_all add: st sax_seekeq_def)

lemma round_seekvalue:
  assumes g: "good p r evs" and st: "m_state p = ATTR_SEEKVALUE" and ne: "m_buffer p \<noteq> []"
  shows "keeps p r evs (sax_seekvalue p)"
proof (rule round_space [OF g _ ne])
  let ?k = "strspn (m_buffer p) WS"
  fix c v
  assume k: "?k < length (m_buffer p)" "char_at ?k (m_buffer p) = c" "drop ?k (m_buffer p) = c # v" "drop (Suc ?k) (m_buffer p) = v"
    and says: "says (m_state p) (m_tagname p) (m_attrname p) (c # v @ r) evs" and ws: "c \<notin> set WS"
  show "keeps p r evs (sax_seekvalue p)"
  proof (rule says_seekvalue [OF says [unfolded st]], goal_cases)
    case (2 s)
    then have "keeps p r evs (Again (used_up (?k + 1) (p\<lparr>m_state := IN_QUOTEDVALUE\<rparr>)) [])"
      by (intro keeps_used [OF g, where k = "?k + 1" and evs' = evs]) (auto simp: used_up_def st k ne)
    then show ?case
      using 2 k by (simp add: sax_seekvalue_def Let_def)
  next
    case (3 c' s)
    then have "keeps p r evs (Again (used_up ?k (p\<lparr>m_state := IN_VALUE\<rparr>)) [])"
      by (intro keeps_used [OF g, where k = ?k and evs' = evs]) (auto simp: used_up_def st k)
    then show ?case
      using 3 k by (simp add: sax_seekvalue_def Let_def)
  qed (use ws in auto)
qed (simp_all add: st sax_seekvalue_def)

subsection \<open>Attributes\<close>

lemma round_attr_token:
  assumes g: "good p r evs" and st: "m_state p = IN_ATTR"
    and s: "m_buffer p @ r = n @ c # s" "\<forall>x\<in>set n. x \<notin> set ATTR_END" "length n < SAX_BUFSIZE" "c \<in> set ATTR_END"
    and next_st: "st' = (if c = CHR ''='' then ATTR_SEEKVALUE else if c = CHR ''>'' then CONTENT else if c = CHR ''/'' then SEEK_GT else ATTR_SEEKEQ)"
    and says: "says st' (m_tagname p) n s evs'"
    and ev: "ev = (if c = CHR ''='' then [] else if c = CHR ''>'' then [OnAttribute n []]
      else if c = CHR ''/'' then [OnAttribute n [], OnEnd (m_tagname p)] else [])" "evs = ev @ evs'"
  shows "keeps p r evs (sax_in_attr p)"
proof -
  have nul: "NUL \<notin> set (m_buffer p)"
    using g by (auto simp: good_def)
  note tok = strcspn_token [OF nul s(1,2,4)]
  show ?thesis
  proof (cases "length n < length (m_buffer p)")
    case False
    then show ?thesis
      using token_waits [OF g s(1) _ s(3)] tok(1) by (simp add: sax_in_attr_def Let_def)
  next
    case True
    have "keeps p r evs (Again (used_up (length n + 1) (p\<lparr>m_attrname := n, m_state := st'\<rparr>)) ev)"
      by (rule keeps_used [OF g, where k = "length n + 1" and evs' = evs'])
        (use says st tok(2) [OF True] True in \<open>auto simp: used_up_def next_st ev(2)\<close>)
    then show ?thesis
      using tok True by (simp add: sax_in_attr_def Let_def next_st ev(1) split: if_splits)
  qed
qed

lemma round_in_attr:
  assumes g: "good p r evs" and st: "m_state p = IN_ATTR"
  shows "keeps p r evs (sax_in_attr p)"
proof -
  have "says IN_ATTR (m_tagname p) (m_attrname p) (m_buffer p @ r) evs"
    using g st by (simp add: good_def)
  then show ?thesis
  proof (rule says_in_attr, goal_cases)
    case (1 n s)
    then show ?case
      by (intro round_attr_token [OF assms, of n "CHR ''=''" s _ evs]) (simp_all add: ATTR_END_iff)
  next
    case (2 n s evs')
    then show ?case
      by (intro round_attr_token [OF assms, of n "CHR ''>''" s _ evs']) (simp_all add: ATTR_END_iff)
  next
    case (3 n s evs')
    then show ?case
      by (intro round_attr_token [OF assms, of n "CHR ''/''" s _ evs']) (simp_all add: ATTR_END_iff)
  next
    case (4 n c s)
    have "c \<noteq> CHR ''=''" "c \<noteq> CHR ''>''" "c \<noteq> CHR ''/''"
      using 4(4) not_WS by metis+
    then show ?case
      using 4 by (intro round_attr_token [OF assms, of n c s _ evs]) (simp_all add: ATTR_END_iff)
  qed
qed

lemma round_quotedvalue:
  assumes g: "good p r evs" and st: "m_state p = IN_QUOTEDVALUE"
  shows "keeps p r evs (sax_quotedvalue p)"
proof -
  have nul: "NUL \<notin> set (m_buffer p)" and says: "says IN_QUOTEDVALUE (m_tagname p) (m_attrname p) (m_buffer p @ r) evs"
    using g st by (auto simp: good_def)
  from says obtain v s evs' where v: "m_buffer p @ r = v @ CHR 0x22 # s" "CHR 0x22 \<notin> set v" "length v < SAX_BUFSIZE"
    "says IN_TAG (m_tagname p) (m_attrname p) s evs'" "evs = OnAttribute (m_attrname p) (XmlUnEscape v) # evs'"
    by (rule says_quoted) auto
  show ?thesis
  proof (cases "length v < length (m_buffer p)")
    case False
    then have "CHR 0x22 \<notin> set (m_buffer p)"
      using token_beyond [OF v(1)] v(2) by auto
    then show ?thesis
      using token_waits [OF g v(1) _ v(3)] False by (simp add: sax_quotedvalue_def strchr_char [OF nul])
  next
    case True
    then obtain w where w: "m_buffer p = v @ CHR 0x22 # w" "s = w @ r"
      using token_inside [OF v(1)] by blast
    have "strchr CHR 0x22 (m_buffer p) = Some (length v)"
      using v(2) unfolding strchr_char [OF nul] by (simp add: w(1) takeWhile_neq)
    moreover have "keeps p r evs (Again (used_up (length v + 1) (p\<lparr>m_state := IN_TAG\<rparr>)) [OnAttribute (m_attrname p) (XmlUnEscape v)])"
      by (rule keeps_used [OF g, where k = "length v + 1" and evs' = evs']) (use v w in \<open>simp_all add: used_up_def st\<close>)
    ultimately show ?thesis
      using w(1) by (simp add: sax_quotedvalue_def)
  qed
qed

lemma round_value:
  assumes g: "good p r evs" and st: "m_state p = IN_VALUE"
  shows "keeps p r evs (sax_value p)"
proof -
  have nul: "NUL \<notin> set (m_buffer p)" and says: "says IN_VALUE (m_tagname p) (m_attrname p) (m_buffer p @ r) evs"
    using g st by (auto simp: good_def)
  from says obtain v c s evs' where v: "m_buffer p @ r = v @ c # s" "\<forall>x\<in>set v. x \<notin> set TAG_END" "length v < SAX_BUFSIZE" "c \<in> set TAG_END"
    "says IN_TAG (m_tagname p) (m_attrname p) (c # s) evs'" "evs = OnAttribute (m_attrname p) (XmlUnEscape v) # evs'"
    by (rule says_value) auto
  note tok = strcspn_token [OF nul v(1,2,4)]
  show ?thesis
  proof (cases "length v < length (m_buffer p)")
    case False
    then show ?thesis
      using token_waits [OF g v(1) _ v(3)] tok(1) by (simp add: sax_value_def Let_def)
  next
    case True
    have "keeps p r evs (Again (used_up (length v) (p\<lparr>m_state := IN_TAG\<rparr>)) [OnAttribute (m_attrname p) (XmlUnEscape v)])"
      by (rule keeps_used [OF g, where k = "length v" and evs' = evs']) (use v tok(2) [OF True] in \<open>simp_all add: used_up_def st\<close>)
    then show ?thesis
      using tok True by (simp add: sax_value_def Let_def)
  qed
qed

lemma round_keeps: "good p r evs \<Longrightarrow> m_buffer p \<noteq> [] \<Longrightarrow> keeps p r evs (sax_round p)"
  by (cases "m_state p")
    (auto simp: sax_round_def round_content round_cdata round_tag round_seek_gt round_in_tag round_in_attr round_seekeq
      round_seekvalue round_quotedvalue round_value)


section \<open>Every round but one makes progress\<close>

text \<open>The buffer gets shorter, or the state nearer to one that shortens it.\<close>

definition sax_rank :: "sax_state \<Rightarrow> nat" where
  "sax_rank st = (case st of ATTR_SEEKVALUE \<Rightarrow> 4 | ATTR_SEEKEQ \<Rightarrow> 3 | IN_VALUE \<Rightarrow> 3 | IN_TAG \<Rightarrow> 2 | _ \<Rightarrow> 1)"

definition sax_size :: "sax \<Rightarrow> nat" where
  "sax_size p = 5 * length (m_buffer p) + sax_rank (m_state p)"

lemma strcspn_le: "strcspn b e \<le> length b"
  unfolding strcspn_def c_str_def by (meson length_takeWhile_le order_trans)

lemma strspn_le: "strspn b e \<le> length b"
  unfolding strspn_def c_str_def by (meson length_takeWhile_le order_trans)

lemma strchr_less: "strchr c b = Some k \<Longrightarrow> k < length b"
proof -
  assume k: "strchr c b = Some k"
  then have "c \<in> set (c_str b)" "k = length (takeWhile (\<lambda>x. x \<noteq> c) (c_str b))"
    by (auto simp: strchr_def Let_def split: if_splits)
  moreover from this(1) obtain u v where "c_str b = u @ c # v" "c \<notin> set u"
    using split_list_first by metis
  ultimately have "k < length (c_str b)"
    by (simp add: takeWhile_neq)
  then show ?thesis
    unfolding c_str_def by (meson length_takeWhile_le order_less_le_trans)
qed

lemma shorter:
  assumes "0 < k" "k \<le> length (m_buffer p)"
  shows "sax_size (used_up k (p\<lparr>m_state := st\<rparr>)) < sax_size p" "sax_size (used_up k (p\<lparr>m_tagname := n, m_state := st\<rparr>)) < sax_size p"
    "sax_size (used_up k (p\<lparr>m_attrname := n, m_state := st\<rparr>)) < sax_size p" "sax_size (used_up k p) < sax_size p"
proof -
  have "5 * (length (m_buffer p) - k) + sax_rank st < 5 * length (m_buffer p) + sax_rank (m_state p)" for st
    using assms by (cases st; cases "m_state p") (simp_all add: sax_rank_def)
  from this [of st] this [of "m_state p"]
  show "sax_size (used_up k (p\<lparr>m_state := st\<rparr>)) < sax_size p" "sax_size (used_up k (p\<lparr>m_tagname := n, m_state := st\<rparr>)) < sax_size p"
    "sax_size (used_up k (p\<lparr>m_attrname := n, m_state := st\<rparr>)) < sax_size p" "sax_size (used_up k p) < sax_size p"
    by (simp_all add: sax_size_def used_up_def)
qed

lemma emptied: "m_buffer p \<noteq> [] \<Longrightarrow> sax_size (p\<lparr>m_buffer := []\<rparr>) < sax_size p"
  by (cases "m_buffer p") (simp_all add: sax_size_def)

lemma later_state: "sax_rank st < sax_rank (m_state p) \<Longrightarrow> sax_size (used_up k (p\<lparr>m_state := st\<rparr>)) < sax_size p"
  by (simp add: sax_size_def used_up_def add_le_less_mono)

lemma later_ranks:
  "sax_rank SEEK_GT < sax_rank IN_TAG" "sax_rank IN_ATTR < sax_rank IN_TAG" "sax_rank IN_TAG < sax_rank ATTR_SEEKEQ"
  "sax_rank IN_VALUE < sax_rank ATTR_SEEKVALUE" "sax_rank IN_TAG < sax_rank IN_VALUE"
  by (simp_all add: sax_rank_def)

lemma used_up_0 [simp]: "used_up 0 p = p"
  by (simp add: used_up_def)

lemma content_progress: "sax_content p = Again p' ev \<Longrightarrow> m_buffer p \<noteq> [] \<Longrightarrow> p' \<noteq> p \<Longrightarrow> sax_size p' < sax_size p"
proof -
  assume c: "sax_content p = Again p' ev" "m_buffer p \<noteq> []" "p' \<noteq> p"
  have amp: "sax_size (used_up k p) < sax_size p" if "p' = used_up k p" for k
    using c(2,3) that shorter(4) [of k p] shorter(4) [of "length (m_buffer p)" p]
    by (cases "k \<le> length (m_buffer p)"; cases k) (auto simp: used_up_def)
  show ?thesis
  proof (cases "strchr CHR ''<'' (m_buffer p)")
    case None
    then show ?thesis
      using c(1) amp emptied [OF c(2)] by (auto simp: sax_content_def Let_def split: option.splits if_splits)
  next
    case (Some lt)
    then show ?thesis
      using c(1) strchr_less [OF Some] by (auto simp: sax_content_def Let_def intro: shorter(1))
  qed
qed

lemma cdata_progress: "sax_cdata p = Again p' ev \<Longrightarrow> m_buffer p \<noteq> [] \<Longrightarrow> sax_size p' < sax_size p"
  using strchr_less [of "CHR '']''" "m_buffer p"]
  by (auto simp: sax_cdata_def Let_def emptied Suc_le_eq split: option.splits if_splits intro!: shorter)

lemma tag_progress: "sax_tag p = Again p' ev \<Longrightarrow> m_buffer p \<noteq> [] \<Longrightarrow> sax_size p' < sax_size p"
proof -
  assume t: "sax_tag p = Again p' ev" and ne: "m_buffer p \<noteq> []"
  let ?skip = "if char_at 0 (m_buffer p) = CHR ''/'' then 1 else 0"
  let ?k = "strcspn (drop ?skip (m_buffer p)) TAG_END + ?skip"
  have "?k \<le> length (m_buffer p)"
    using strcspn_le [of "drop ?skip (m_buffer p)" TAG_END] ne by (cases "m_buffer p") auto
  then show ?thesis
    using t by (auto simp: sax_tag_def Let_def CDATASTART_def split: if_splits intro!: shorter)
qed

lemma seek_gt_progress: "sax_seek_gt p = Again p' ev \<Longrightarrow> m_buffer p \<noteq> [] \<Longrightarrow> sax_size p' < sax_size p"
  using strchr_less [of "CHR ''>''" "m_buffer p"]
  by (auto simp: sax_seek_gt_def emptied Suc_le_eq split: option.splits if_splits intro!: shorter)

lemma in_tag_progress: "sax_in_tag p = Again p' ev \<Longrightarrow> m_buffer p \<noteq> [] \<Longrightarrow> m_state p = IN_TAG \<Longrightarrow> sax_size p' < sax_size p"
  using strspn_le [of "m_buffer p" WS]
  by (auto simp: sax_in_tag_def Let_def emptied later_ranks split: if_splits intro!: shorter later_state)

lemma in_attr_progress: "sax_in_attr p = Again p' ev \<Longrightarrow> sax_size p' < sax_size p"
  using strcspn_le [of "m_buffer p" ATTR_END]
  by (auto simp: sax_in_attr_def Let_def split: if_splits intro!: shorter)

lemma seekeq_progress: "sax_seekeq p = Again p' ev \<Longrightarrow> m_buffer p \<noteq> [] \<Longrightarrow> m_state p = ATTR_SEEKEQ \<Longrightarrow> sax_size p' < sax_size p"
  using strspn_le [of "m_buffer p" WS]
  by (auto simp: sax_seekeq_def Let_def emptied later_ranks split: if_splits intro: shorter later_state)

lemma seekvalue_progress: "sax_seekvalue p = Again p' ev \<Longrightarrow> m_buffer p \<noteq> [] \<Longrightarrow> m_state p = ATTR_SEEKVALUE \<Longrightarrow> sax_size p' < sax_size p"
  using strspn_le [of "m_buffer p" WS]
  by (auto simp: sax_seekvalue_def Let_def emptied later_ranks split: if_splits intro: shorter later_state)

lemma quotedvalue_progress: "sax_quotedvalue p = Again p' ev \<Longrightarrow> m_buffer p \<noteq> [] \<Longrightarrow> sax_size p' < sax_size p"
  using strchr_less [of "CHR 0x22" "m_buffer p"]
  by (auto simp: sax_quotedvalue_def emptied Suc_le_eq split: option.splits if_splits intro!: shorter)

lemma value_progress: "sax_value p = Again p' ev \<Longrightarrow> m_state p = IN_VALUE \<Longrightarrow> sax_size p' < sax_size p"
  by (auto simp: sax_value_def Let_def later_ranks split: if_splits intro!: later_state)

lemma round_progress: "sax_round p = Again p' ev \<Longrightarrow> m_buffer p \<noteq> [] \<Longrightarrow> p' \<noteq> p \<Longrightarrow> sax_size p' < sax_size p"
  by (cases "m_state p")
    (auto simp: sax_round_def content_progress cdata_progress tag_progress seek_gt_progress in_tag_progress in_attr_progress
      seekeq_progress seekvalue_progress quotedvalue_progress value_progress)

lemma round_moves: "sax_round p = Again p' ev \<Longrightarrow> m_buffer p \<noteq> [] \<Longrightarrow> \<not> m_eof p \<Longrightarrow> sax_size p' < sax_size p"
proof (cases "m_state p = CONTENT")
  case True
  assume r: "sax_round p = Again p' ev" "m_buffer p \<noteq> []" "\<not> m_eof p"
  then have "length (m_buffer p') < length (m_buffer p)"
    using True by (auto simp: sax_round_def sax_content_def Let_def used_up_def split: option.splits if_splits)
  then show ?thesis
    using r round_progress by blast
qed (auto simp: sax_round_def cdata_progress tag_progress seek_gt_progress in_tag_progress in_attr_progress
      seekeq_progress seekvalue_progress quotedvalue_progress value_progress split: sax_state.splits)

lemma round_eof: "sax_round p = Again p' ev \<or> sax_round p = Wait p' ev \<Longrightarrow> m_eof p' = m_eof p"
  by (cases "m_state p")
    (auto simp: sax_round_def sax_content_def sax_cdata_def sax_tag_def sax_seek_gt_def sax_in_tag_def sax_in_attr_def sax_seekeq_def
      sax_seekvalue_def sax_quotedvalue_def sax_value_def Let_def used_up_def split: option.splits if_splits)


section \<open>Parsing\<close>

text \<open>Without the end of the input, \<^verbatim>\<open>Parse()\<close> always returns.\<close>

lemma sax_loop_returns: "\<not> m_eof p \<Longrightarrow> sax_loop p \<noteq> None"
proof (induction "sax_size p" arbitrary: p rule: less_induct)
  case less
  show ?case
  proof (cases "m_buffer p \<noteq> [] \<and> (\<exists>p' ev. sax_round p = Again p' ev)")
    case True
    then obtain p' ev where r: "m_buffer p \<noteq> []" "sax_round p = Again p' ev"
      by blast
    then have "sax_loop p' \<noteq> None"
      using less round_moves round_eof by metis
    then show ?thesis
      using r by (subst sax_loop.simps) auto
  next
    case False
    then show ?thesis
      by (subst sax_loop.simps) (auto split: sax_step.splits)
  qed
qed

text \<open>On a document of the grammar it consumes what it can and delivers what the grammar says.\<close>

definition rested :: "sax \<Rightarrow> string \<Rightarrow> bool" where
  "rested p r \<longleftrightarrow> m_buffer p = [] \<or> r \<noteq> [] \<and> \<not> m_eof p \<and> length (m_buffer p) < SAX_BUFSIZE"

lemma goes_trans: "goes p r evs p' ev \<Longrightarrow> (\<And>evs'. good p' r evs' \<Longrightarrow> goes p' r evs' p'' ev') \<Longrightarrow> goes p r evs p'' (ev @ ev')"
  unfolding goes_def by (metis atoms_append append_assoc)

lemma sax_loop_keeps: "good p r evs \<Longrightarrow> \<exists>p' ev. sax_loop p = Some (Some p', ev) \<and> goes p r evs p' ev \<and> rested p' r"
proof (induction "sax_size p" arbitrary: p evs rule: less_induct)
  case less
  show ?case
  proof (cases "m_buffer p = []")
    case True
    then show ?thesis
      using less.prems by (subst sax_loop.simps) (auto simp: goes_def rested_def)
  next
    case False
    then have k: "keeps p r evs (sax_round p)"
      using less.prems round_keeps by blast
    show ?thesis
    proof (cases "sax_round p")
      case (Again p1 ev1)
      then have g: "goes p r evs p1 ev1" and l: "sax_size p1 < sax_size p"
        using k round_progress [OF Again False] by auto
      then obtain evs1 where "good p1 r evs1"
        by (auto simp: goes_def)
      then obtain p2 ev2 where p2: "sax_loop p1 = Some (Some p2, ev2)" "rested p2 r"
        using less.hyps [OF l] by blast
      have "goes p1 r evs' p2 ev2" if "good p1 r evs'" for evs'
        using less.hyps [OF l that] p2(1) by simp
      then have "goes p r evs p2 (ev1 @ ev2)"
        using goes_trans [OF g] by blast
      then show ?thesis
        using False Again p2 by (subst sax_loop.simps) simp
    next
      case (Wait p1 ev1)
      then show ?thesis
        using k False by (subst sax_loop.simps) (auto simp: rested_def goes_def good_def)
    next
      case (Overrun ev1)
      then show ?thesis
        using k by simp
    qed
  qed
qed

context byte_source
begin

text \<open>Whatever pieces the stream hands out: the parser delivers what the document says.\<close>

lemma sax_Parse_says:
  "invar s \<Longrightarrow> good p (rest s) evs \<Longrightarrow> rested p (rest s) \<Longrightarrow>
     \<exists>ev s'. sax_Parse read p s = Some (Some 0, ev, s') \<and> atoms ev = atoms evs"
proof (induction "2 * length (rest s) + (if m_eof p then 0 else 1)" arbitrary: p s evs rule: less_induct)
  case less
  note says = less.prems(2) [unfolded good_def]
  show ?case
  proof (cases "m_eof p")
    case True
    then have "m_buffer p = []" "rest s = []"
      using less.prems(3) says by (auto simp: rested_def)
    then have "evs = []"
      using says says_end by fastforce
    then show ?thesis
      using True \<open>m_buffer p = []\<close> by (subst sax_Parse.simps) (simp add: sax_fill_def)
  next
    case False
    then have len: "length (m_buffer p) < SAX_BUFSIZE" "SAX_BUFSIZE - length (m_buffer p) < 2 ^ 63"
      using less.prems(3) by (auto simp: rested_def SAX_BUFSIZE_def)
    obtain bs s1 where r: "read (SAX_BUFSIZE - length (m_buffer p)) s = Some (0, bs, s1)" "invar s1" "rest s = bs @ rest s1"
      "length bs \<le> SAX_BUFSIZE - length (m_buffer p)" "bs = [] \<longrightarrow> rest s = []"
      using read_rest [OF less.prems(1) len(2)] len(1) by auto
    define p1 where "p1 = p\<lparr>m_buffer := m_buffer p @ bs, m_eof := (bs = [])\<rparr>"
    have fill: "sax_fill read p s = Some (0, p1, s1)"
      using False len(1) r(1) by (simp add: sax_fill_def p1_def)
    have g: "good p1 (rest s1) evs"
      using says r(3-5) len(1) by (auto simp: good_def p1_def)
    obtain p2 ev where p2: "sax_loop p1 = Some (Some p2, ev)" "goes p1 (rest s1) evs p2 ev" "rested p2 (rest s1)"
      using sax_loop_keeps [OF g] by blast
    then obtain evs' where e: "good p2 (rest s1) evs'" "atoms evs = atoms ev @ atoms evs'" "m_eof p2 = (bs = [])"
      by (auto simp: goes_def p1_def)
    have "2 * length (rest s1) + (if m_eof p2 then 0 else 1) < 2 * length (rest s) + (if m_eof p then 0 else 1)"
      using False r(3) e(3) by (cases bs) auto
    then obtain ev' s2 where n: "sax_Parse read p2 s1 = Some (Some 0, ev', s2)" "atoms ev' = atoms evs'"
      using less.hyps [OF _ r(2) e(1) p2(3)] by blast
    show ?thesis
    proof (cases "m_buffer p1 = [] \<and> m_eof p1")
      case True
      then have "evs = []"
        using g says_end by (fastforce simp: good_def)
      then show ?thesis
        using fill True by (subst sax_Parse.simps) simp
    next
      case False
      then show ?thesis
        using fill p2(1) n e(2) by (subst sax_Parse.simps) auto
    qed
  qed
qed

end

text \<open>The same through \<^verbatim>\<open>WriteAll\<close>.\<close>

lemma sax_WriteAll_says:
  "good p (buffer @ r) evs \<Longrightarrow> \<not> m_eof p \<Longrightarrow> rested p (buffer @ r) \<Longrightarrow>
     \<exists>p' ev evs'. sax_WriteAll p buffer = Some (Some p', ev) \<and> good p' r evs' \<and> atoms evs = atoms ev @ atoms evs' \<and>
       \<not> m_eof p' \<and> rested p' r"
proof (induction "length buffer" arbitrary: p buffer evs rule: less_induct)
  case less
  show ?case
  proof (cases "buffer = []")
    case True
    then show ?thesis
      using less.prems by (subst sax_WriteAll.simps) auto
  next
    case False
    have room: "length (m_buffer p) < SAX_BUFSIZE"
      using less.prems(3) by (auto simp: rested_def SAX_BUFSIZE_def)
    define lump where "lump = min (length buffer) (SAX_BUFSIZE - length (m_buffer p))"
    define p1 where "p1 = p\<lparr>m_buffer := m_buffer p @ take lump buffer\<rparr>"
    have b: "m_buffer p1 @ drop lump buffer @ r = m_buffer p @ buffer @ r" "length (m_buffer p1) \<le> SAX_BUFSIZE"
      using room by (simp_all add: p1_def lump_def)
    have g: "good p1 (drop lump buffer @ r) evs"
      using less.prems(1,2) b(2) unfolding good_def b(1) by (simp add: p1_def)
    obtain p2 ev where p2: "sax_loop p1 = Some (Some p2, ev)" "goes p1 (drop lump buffer @ r) evs p2 ev" "rested p2 (drop lump buffer @ r)"
      using sax_loop_keeps [OF g] by blast
    then obtain evs1 where e: "good p2 (drop lump buffer @ r) evs1" "atoms evs = atoms ev @ atoms evs1" "\<not> m_eof p2"
      using less.prems(2) by (auto simp: goes_def p1_def)
    have "length (drop lump buffer) < length buffer"
      using False room by (simp add: lump_def)
    then obtain p3 ev1 evs' where n: "sax_WriteAll p2 (drop lump buffer) = Some (Some p3, ev1)" "good p3 r evs'"
      "atoms evs1 = atoms ev1 @ atoms evs'" "\<not> m_eof p3" "rested p3 r"
      using less.hyps e(1,3) p2(3) by meson
    have "sax_WriteAll p buffer = Some (Some p3, ev @ ev1)"
      using False p2(1) n(1) by (subst sax_WriteAll.simps) (simp add: Let_def flip: lump_def p1_def)
    then show ?thesis
      using n e(2) by auto
  qed
qed

end
