(* ===== verification/SaxDocs.thy ===== *)
theory SaxDocs
  imports SaxRuns Memory
begin

text \<open>
  What \<^verbatim>\<open>SaxParser\<close> delivers for a document that is written out, however the stream cuts it into
  pieces (as \<^verbatim>\<open>DribbleStream\<close> of stream_test.h does, which limits each read and write), and what it
  does on documents that stop in the middle.
\<close>

section \<open>Streams that dribble\<close>

definition Dribble_ReadAt :: "'s reader_at \<Rightarrow> nat \<Rightarrow> 's reader_at" where
  "Dribble_ReadAt rd drip pos len = rd pos (min len drip)"

definition Dribble_WriteAt :: "'s writer_at \<Rightarrow> nat \<Rightarrow> 's writer_at" where
  "Dribble_WriteAt wr drip pos buf = wr pos (take drip buf)"

locale dribbling = seekable_stream +
  fixes drip :: nat
  assumes drips: "0 < drip"

sublocale dribbling \<subseteq> dribble: seekable_stream "Dribble_ReadAt read_at drip" "Dribble_WriteAt write_at drip"
proof
  fix s pos and len :: nat
  assume "sinvar s" "pos \<le> length (content s)" "len < 2 ^ 63"
  then show "\<exists>n s'. Dribble_ReadAt read_at drip pos len s = Some (0, take n (drop pos (content s)), s') \<and> sinvar s' \<and>
      content s' = content s \<and> n \<le> len \<and> n \<le> length (content s) - pos \<and> (n = 0 \<longrightarrow> len = 0 \<or> pos = length (content s))"
    using read_at [of s pos "min len drip"] drips by (fastforce simp: Dribble_ReadAt_def)
next
  fix s pos and buf :: string
  assume "sinvar s" "pos \<le> length (content s)"
  then obtain n s' where w: "write_at pos (take drip buf) s = Some (0, n, s')" "sinvar s'" "n \<le> length (take drip buf)"
    "take drip buf \<noteq> [] \<longrightarrow> 0 < n" "content s' = overwrite (content s) pos (take n (take drip buf))"
    using write_at by blast
  then show "\<exists>n s'. Dribble_WriteAt write_at drip pos buf s = Some (0, n, s') \<and> sinvar s' \<and> n \<le> length buf \<and>
      (buf \<noteq> [] \<longrightarrow> 0 < n) \<and> content s' = overwrite (content s) pos (take n buf)"
    using drips by (intro exI [of _ n] exI [of _ s']) (auto simp: Dribble_WriteAt_def min_def split: if_splits)
qed

interpretation drip_mem: dribbling Memory_ReadAt Memory_WriteAt memory_content memory_ok "Suc drip" for drip
  by unfold_locales simp

section \<open>Documents\<close>

datatype xml = Text string | Section string | Element string "(string \<times> string) list" "xml list"

fun render_attr :: "string \<times> string \<Rightarrow> string" where
  "render_attr (k, v) = '' '' @ k @ ''='' @ [CHR 0x22] @ XmlEscape v @ [CHR 0x22]"

fun render :: "xml \<Rightarrow> string" where
  "render (Text s) = XmlEscape s"
| "render (Section s) = ''<![CDATA['' @ s @ '']]>''"
| "render (Element n as cs) = ''<'' @ n @ concat (map render_attr as) @
     (if cs = [] then ''/>'' else ''>'' @ concat (map render cs) @ ''</'' @ n @ ''>'')"

fun xml_events :: "xml \<Rightarrow> event list" where
  "xml_events (Text s) = [OnContent (filter xml_keeps s)]"
| "xml_events (Section s) = [OnContent s]"
| "xml_events (Element n as cs) =
     OnBegin n # map (\<lambda>(k, v). OnAttribute k (filter xml_keeps v)) as @ concat (map xml_events cs) @ [OnEnd n]"

definition tag_ok :: "string \<Rightarrow> bool" where
  "tag_ok n \<longleftrightarrow> n \<noteq> [] \<and> hd n \<noteq> CHR ''!'' \<and> NUL \<notin> set n \<and> (\<forall>c\<in>set n. c \<notin> set TAG_END) \<and> length n + 1 < SAX_BUFSIZE"

fun attr_ok :: "string \<times> string \<Rightarrow> bool" where
  "attr_ok (k, v) \<longleftrightarrow> k \<noteq> [] \<and> NUL \<notin> set k \<and> (\<forall>c\<in>set k. c \<notin> set ATTR_END) \<and> length k < SAX_BUFSIZE \<and>
     length (XmlEscape v) < SAX_BUFSIZE"

fun xml_ok :: "xml \<Rightarrow> bool" where
  "xml_ok (Text s) \<longleftrightarrow> True"
| "xml_ok (Section s) \<longleftrightarrow> NUL \<notin> set s \<and> \<not> sublist '']]>'' s"
| "xml_ok (Element n as cs) \<longleftrightarrow> tag_ok n \<and> (\<forall>a\<in>set as. attr_ok a) \<and> (\<forall>c\<in>set cs. xml_ok c)"

subsection \<open>They are in the grammar\<close>

lemma xml_escape_cases:
  assumes "xml_keeps c"
  obtains "xml_escape_char c = [c]" "c \<noteq> CHR ''<''" "c \<noteq> CHR ''&''"
  | n where "xml_escape_char c = CHR ''&'' # n @ [CHR '';'']" "xml_entity n = [c]"
    "\<forall>c\<in>set n. c \<notin> {CHR ''<'', CHR ''&'', CHR '';''}" "length n + 1 < SAX_BUFSIZE"
proof -
  consider "c = CHR ''&''" | "c = CHR 0x22" | "c = CHR ''<''" | "c = CHR ''>''" | "c \<notin> {CHR ''&'', CHR 0x22, CHR ''<'', CHR ''>''}"
    by blast
  then show thesis
  proof cases
    case 1
    then show thesis by (intro that(2) [of "''amp''"]) (simp_all add: xml_escape_char_def xml_entity_def SAX_BUFSIZE_def)
  next
    case 2
    then show thesis by (intro that(2) [of "''quot''"]) (simp_all add: xml_escape_char_def xml_entity_def SAX_BUFSIZE_def)
  next
    case 3
    then show thesis by (intro that(2) [of "''lt''"]) (simp_all add: xml_escape_char_def xml_entity_def SAX_BUFSIZE_def)
  next
    case 4
    then show thesis by (intro that(2) [of "''gt''"]) (simp_all add: xml_escape_char_def xml_entity_def SAX_BUFSIZE_def)
  next
    case 5
    then show thesis
      using assms by (intro that(1)) (simp_all add: xml_escape_char_def xml_keeps_def)
  qed
qed

lemma text_says:
  "says CONTENT t a s evs \<Longrightarrow> says CONTENT t a (XmlEscape u @ s) (map (\<lambda>c. OnContent [c]) (filter xml_keeps u) @ evs)"
proof (induction u)
  case (Cons c u)
  then have IH: "says CONTENT t a (concat (map xml_escape_char u) @ s) (map (\<lambda>c. OnContent [c]) (filter xml_keeps u) @ evs)"
    by (simp add: XmlEscape_def)
  show ?case
  proof (cases "xml_keeps c")
    case True
    then show ?thesis
    proof (cases rule: xml_escape_cases)
      case 1
      then show ?thesis
        using True says.char [OF 1(2,3) IH] by (simp add: XmlEscape_def)
    next
      case (2 n)
      then show ?thesis
        using True says.entity [OF 2(3,4) IH] by (simp add: XmlEscape_def)
    qed
  next
    case False
    then show ?thesis
      using IH by (simp add: XmlEscape_def xml_escape_char_dropped)
  qed
qed (simp add: XmlEscape_def)

lemma section_says:
  "says CONTENT t a s evs \<Longrightarrow> \<not> sublist '']]>'' u \<Longrightarrow> says CDATA t a (u @ '']]>'' @ s) (map (\<lambda>c. OnContent [c]) u @ evs)"
proof (induction u)
  case Nil
  then show ?case
    using says.cdata_end by simp
next
  case (Cons c u)
  then have IH: "says CDATA t a (u @ '']]>'' @ s) (map (\<lambda>c. OnContent [c]) u @ evs)"
    by (auto simp: sublist_Cons_right)
  show ?case
  proof (cases "c = CHR '']''")
    case True
    have "\<not> prefix '']>'' u"
      using Cons.prems(2) True by (auto simp: sublist_Cons_right)
    then have "take 2 (u @ '']]>'' @ s) \<noteq> '']>''"
      by (cases u; cases "tl u") auto
    then show ?thesis
      using IH True by (simp add: says.cdata_bracket)
  next
    case False
    then show ?thesis
      using IH by (simp add: says.cdata_char)
  qed
qed

lemma quote_notin_XmlEscape: "CHR 0x22 \<notin> set (XmlEscape v)"
  by (auto simp: XmlEscape_def xml_escape_char_def split: if_splits)

lemma attrs_say:
  "\<forall>x\<in>set as. attr_ok x \<Longrightarrow> \<forall>a. says IN_TAG t a s evs \<Longrightarrow>
     says IN_TAG t a (concat (map render_attr as) @ s) (map (\<lambda>(k, v). OnAttribute k (filter xml_keeps v)) as @ evs)"
proof (induction as arbitrary: a)
  case (Cons x as)
  obtain k v where x: "x = (k, v)" by (cases x)
  then obtain k0 k1 where k: "k = k0 # k1" "k0 \<notin> set WS" "k0 \<noteq> CHR ''>''" "k0 \<noteq> CHR ''/''"
    using Cons.prems(1) by (cases k) (auto simp: ATTR_END_iff)
  let ?s = "concat (map render_attr as) @ s" and ?e = "map (\<lambda>(k, v). OnAttribute k (filter xml_keeps v)) as @ evs"
  have "says IN_QUOTEDVALUE t k (XmlEscape v @ CHR 0x22 # ?s) (OnAttribute k (XmlUnEscape (XmlEscape v)) # ?e)"
    using Cons x by (intro says.quoted) (auto simp: quote_notin_XmlEscape)
  then have "says ATTR_SEEKVALUE t k (CHR 0x22 # XmlEscape v @ CHR 0x22 # ?s) (OnAttribute k (filter xml_keeps v) # ?e)"
    by (intro says.seekvalue_quote) (simp add: Xml_round_trip)
  then have "says IN_ATTR t a (k @ CHR ''='' # CHR 0x22 # XmlEscape v @ CHR 0x22 # ?s) (OnAttribute k (filter xml_keeps v) # ?e)"
    using Cons.prems(1) x by (intro says.attr_eq) auto
  then have "says IN_TAG t a (k @ CHR ''='' # CHR 0x22 # XmlEscape v @ CHR 0x22 # ?s) (OnAttribute k (filter xml_keeps v) # ?e)"
    unfolding k(1) append_Cons by (intro says.in_tag_attr k(2-4))
  then have "says IN_TAG t a (CHR '' '' # k @ CHR ''='' # CHR 0x22 # XmlEscape v @ CHR 0x22 # ?s) (OnAttribute k (filter xml_keeps v) # ?e)"
    by (intro says.in_tag_space) (simp add: WS_def)
  then show ?case
    by (simp add: x)
qed simp

text \<open>The opening tag with its attributes, up to the last character.\<close>

lemma open_tag_says:
  assumes n: "tag_ok n" "\<forall>x\<in>set as. attr_ok x" and s: "s = CHR ''>'' # s' \<and> (\<forall>a. says CONTENT n a s' evs) \<or>
      s = CHR ''/'' # CHR ''>'' # s' \<and> evs = OnEnd n # evs' \<and> (\<forall>a. says CONTENT n a s' evs')"
  shows "says TAG t a (n @ concat (map render_attr as) @ s) (OnBegin n # map (\<lambda>(k, v). OnAttribute k (filter xml_keeps v)) as @ evs)"
proof (cases as)
  case Nil
  have "says TAG t a (n @ CHR ''>'' # s') (OnBegin n # evs)" if "\<forall>a. says CONTENT n a s' evs"
    using n(1) that by (intro says.begin_tag) (auto simp: tag_ok_def TAG_END_iff)
  moreover have "says TAG t a (n @ CHR ''/'' # CHR ''>'' # s') (OnBegin n # OnEnd n # evs')" if "\<forall>a. says CONTENT n a s' evs'"
    using n(1) that by (intro says.empty_tag says.seek_gt) (auto simp: tag_ok_def)
  ultimately show ?thesis
    using s Nil by auto
next
  case (Cons x as')
  have "\<forall>a. says IN_TAG n a s evs"
    using s by (auto intro: says.in_tag_gt says.in_tag_slash)
  then have tail: "says IN_TAG n a (concat (map render_attr as) @ s) (map (\<lambda>(k, v). OnAttribute k (filter xml_keeps v)) as @ evs)"
    by (rule attrs_say [OF n(2)])
  obtain w where w: "concat (map render_attr as) @ s = CHR '' '' # w"
    using Cons by (cases x) auto
  have "says IN_TAG n a w (map (\<lambda>(k, v). OnAttribute k (filter xml_keeps v)) as @ evs)"
    using tail unfolding w by (rule says_in_tag) (auto simp: WS_def)
  then show ?thesis
    using n(1) unfolding w by (intro says.begin_tag) (auto simp: tag_ok_def TAG_END_iff WS_def)
qed

lemma atoms_attrs [simp]: "atoms (map (\<lambda>(k, v). OnAttribute k (f v)) as) = map (\<lambda>(k, v). OnAttribute k (f v)) as"
  by (induction as) auto

lemma atoms_chars [simp]: "atoms (map (\<lambda>c. OnContent [c]) s) = map (\<lambda>c. OnContent [c]) s"
  by (induction s) auto

lemma atoms_idem [simp]: "atoms (atoms es) = atoms es"
  by (induction es rule: atoms.induct) auto

lemma renders_say:
  assumes "\<And>x s evs. x \<in> set xs \<Longrightarrow> \<forall>t a. says CONTENT t a s evs \<Longrightarrow> \<forall>t a. says CONTENT t a (render x @ s) (atoms (xml_events x) @ evs)"
    "\<forall>t a. says CONTENT t a s evs"
  shows "\<forall>t a. says CONTENT t a (concat (map render xs) @ s) (atoms (concat (map xml_events xs)) @ evs)"
  using assms(1)
proof (induction xs)
  case (Cons x xs)
  then show ?case
    using Cons.prems [of x "concat (map render xs) @ s" "atoms (concat (map xml_events xs)) @ evs"] by simp
qed (simp add: assms(2))

lemma render_says:
  "xml_ok x \<Longrightarrow> \<forall>t a. says CONTENT t a s evs \<Longrightarrow> \<forall>t a. says CONTENT t a (render x @ s) (atoms (xml_events x) @ evs)"
proof (induction x arbitrary: s evs)
  case (Text u)
  then show ?case
    using text_says by simp
next
  case (Section u)
  then have "says CDATA t a (u @ '']]>'' @ s) (map (\<lambda>c. OnContent [c]) u @ evs)" for t a
    using section_says by simp
  from says.markup [OF says.cdata [OF this]] show ?case
    by (simp add: CDATASTART_def)
next
  case (Element n as cs)
  have n: "tag_ok n" "\<forall>x\<in>set as. attr_ok x" "n \<noteq> []"
    using Element.prems(1) by (auto simp: tag_ok_def)
  show ?case
  proof (cases "cs = []")
    case True
    then show ?thesis
      using Element.prems(2) open_tag_says [OF n(1,2), of "''/>'' @ s" s "OnEnd n # evs" evs]
      by (auto intro!: says.markup)
  next
    case False
    have "says TAG t a (CHR ''/'' # n @ CHR ''>'' # s) (OnEnd n # evs)" for t a
      using n(1) Element.prems(2) by (intro says.end_tag) (auto simp: tag_ok_def TAG_END_iff)
    then have "\<forall>t a. says CONTENT t a (concat (map render cs) @ ''</'' @ n @ ''>'' @ s) (atoms (concat (map xml_events cs)) @ OnEnd n # evs)"
      using Element by (intro renders_say) (auto intro!: says.markup)
    then have "says TAG t a (n @ concat (map render_attr as) @ CHR ''>'' # concat (map render cs) @ ''</'' @ n @ ''>'' @ s)
        (OnBegin n # map (\<lambda>(k, v). OnAttribute k (filter xml_keeps v)) as @ atoms (concat (map xml_events cs)) @ OnEnd n # evs)" for t a
      by (intro open_tag_says [OF n(1,2)]) auto
    then show ?thesis
      using False by (auto intro!: says.markup)
  qed
qed

lemma document_says: "\<forall>x\<in>set xs. xml_ok x \<Longrightarrow> says CONTENT t a (concat (map render xs)) (atoms (concat (map xml_events xs)))"
  using renders_say [of xs "[]" "[]"] render_says says.finished by simp

text \<open>A declaration before a document is a tag to the parser, whose last attribute is a question mark.\<close>

definition declaration_text :: "string \<Rightarrow> (string \<times> string) list \<Rightarrow> string" where
  "declaration_text n as = ''<?'' @ n @ concat (map render_attr as) @ ''?>''"

definition declaration_events :: "string \<Rightarrow> (string \<times> string) list \<Rightarrow> event list" where
  "declaration_events n as =
     OnBegin (CHR ''?'' # n) # map (\<lambda>(k, v). OnAttribute k (filter xml_keeps v)) as @ [OnAttribute ''?'' []]"

lemma declaration_says:
  assumes n: "tag_ok (CHR ''?'' # n)" and as: "as \<noteq> []" "\<forall>x\<in>set as. attr_ok x" and s: "\<forall>t a. says CONTENT t a s evs"
  shows "says CONTENT t a (declaration_text n as @ s) (declaration_events n as @ evs)"
proof -
  let ?t = "CHR ''?'' # n" and ?av = "map (\<lambda>(k, v). OnAttribute k (filter xml_keeps v)) as"
  have "says IN_ATTR ?t a (''?'' @ CHR ''>'' # s) (OnAttribute ''?'' [] # evs)" for a
    using s by (intro says.attr_gt) (auto simp: ATTR_END_iff WS_def SAX_BUFSIZE_def)
  then have "\<forall>a. says IN_TAG ?t a (CHR ''?'' # CHR ''>'' # s) (OnAttribute ''?'' [] # evs)"
    by (auto intro!: says.in_tag_attr simp: WS_def)
  from attrs_say [OF as(2) this]
  have in_tag: "says IN_TAG ?t a (concat (map render_attr as) @ ''?>'' @ s) (?av @ OnAttribute ''?'' [] # evs)" for a
    by simp
  obtain w where w: "concat (map render_attr as) @ ''?>'' @ s = CHR '' '' # w"
    using as(1) by (cases as) (auto simp: split: prod.splits elim: render_attr.elims)
  have "says IN_TAG ?t a w (?av @ OnAttribute ''?'' [] # evs)"
    using in_tag [of a] unfolding w by (rule says_in_tag) (auto simp: WS_def)
  then have "says (if CHR '' '' = CHR ''>'' then CONTENT else IN_TAG) ?t a w (?av @ OnAttribute ''?'' [] # evs)"
    by simp
  then have "says TAG t a (?t @ CHR '' '' # w) (OnBegin ?t # ?av @ OnAttribute ''?'' [] # evs)"
    using n by (intro says.begin_tag) (auto simp: tag_ok_def TAG_END_iff WS_def)
  from says.markup [OF this] show ?thesis
    by (simp add: declaration_text_def declaration_events_def flip: w)
qed

lemma NUL_notin_render: "xml_ok x \<Longrightarrow> NUL \<notin> set (render x)"
proof (induction x)
  case (Element n as cs)
  then have "NUL \<notin> set n" "\<forall>x\<in>set as. NUL \<notin> set (render_attr x)"
    by (auto simp: tag_ok_def NUL_notin_XmlEscape)
  then show ?case
    using Element by auto
qed (auto simp: NUL_notin_XmlEscape)

section \<open>What is read\<close>

lemma good_start: "says CONTENT [] [] doc evs \<Longrightarrow> NUL \<notin> set doc \<Longrightarrow> good SaxParser doc evs"
  by (simp add: good_def SaxParser_def)

lemma rested_start: "rested SaxParser r"
  by (simp add: rested_def SaxParser_def)

lemma sax_reads_dribbled:
  assumes "\<forall>x\<in>set xs. xml_ok x" "memory_ok m" "memory_content m = concat (map render xs)" "0 < drip"
  shows "\<exists>ev s. sax_Parse (Seekable_Read (Dribble_ReadAt Memory_ReadAt drip)) SaxParser (m, 0) = Some (Some 0, ev, s) \<and>
    atoms ev = atoms (concat (map xml_events xs))"
proof -
  obtain d where d: "drip = Suc d"
    using assms(4) by (cases drip) auto
  have "NUL \<notin> set (memory_content m)"
    using assms(1,3) NUL_notin_render by auto
  then have "good SaxParser (memory_content m) (atoms (concat (map xml_events xs)))"
    using document_says [OF assms(1)] assms(3) by (intro good_start) simp_all
  then show ?thesis
    using drip_mem.dribble.source.sax_Parse_says [of "(m, 0)" SaxParser "atoms (concat (map xml_events xs))" d] assms(2) rested_start unfolding d by simp
qed


text \<open>C27: the parser reads every document that is written out as markup, escaped text and CDATA
  sections, with names and attribute values that fit its buffer, exactly as it was meant, however
  the stream cuts it into pieces: it returns 0 and delivers the tags, attributes and, taken
  together, the content.\<close>
theorem sax_reads_documents:
  assumes "\<forall>x\<in>set xs. xml_ok x" "memory_ok m" "memory_content m = concat (map render xs)" "0 < drip"
  shows "\<exists>ev s. sax_Parse (Seekable_Read (Dribble_ReadAt Memory_ReadAt drip)) SaxParser (m, 0) = Some (Some 0, ev, s) \<and>
    atoms ev = atoms (concat (map xml_events xs))"
  using assms by (rule sax_reads_dribbled)

definition example_document :: xml where
  "example_document = Element ''wpl'' [(''v'', ''1 & 2'')] [Text ''a<b'', Element ''media'' [] [], Section ''X&Y'']"

definition stored :: "string \<Rightarrow> memory" where
  "stored s = \<lparr>m_chunks = [(0, s)], m_capacity = length s, m_size = length s\<rparr>"

lemma stored: "s \<noteq> [] \<Longrightarrow> memory_ok (stored s)" "memory_content (stored s) = s"
  by (simp_all add: memory_ok_def stored_def memory_content_def flat_def)

theorem sax_reads_documents_witness:
  "\<exists>ev s. sax_Parse (Seekable_Read (Dribble_ReadAt Memory_ReadAt 3)) SaxParser (stored (render example_document), 0) = Some (Some 0, ev, s) \<and>
    atoms ev = atoms (xml_events example_document)"
proof -
  have "xml_ok example_document"
    by code_simp
  moreover have "render example_document \<noteq> []"
    by (simp add: example_document_def)
  ultimately show ?thesis
    using sax_reads_documents [of "[example_document]" "stored (render example_document)" 3] stored by simp
qed

text \<open>The same with \<^verbatim>\<open>WriteAll\<close>, the document written in any pieces.\<close>

fun sax_write_pieces :: "sax \<Rightarrow> string list \<Rightarrow> (sax option \<times> event list) option" where
  "sax_write_pieces p [] = Some (Some p, [])"
| "sax_write_pieces p (b # bs) = do {
     (q, ev) \<leftarrow> sax_WriteAll p b;
     (case q of
        None \<Rightarrow> Some (None, ev)
      | Some p \<Rightarrow> do { (q, evs) \<leftarrow> sax_write_pieces p bs; Some (q, ev @ evs) }) }"

lemma sax_write_pieces_says:
  "good p (concat bs) evs \<Longrightarrow> \<not> m_eof p \<Longrightarrow> rested p (concat bs) \<Longrightarrow>
     \<exists>p' ev. sax_write_pieces p bs = Some (Some p', ev) \<and> m_buffer p' = [] \<and> m_state p' = CONTENT \<and> atoms ev = atoms evs"
proof (induction bs arbitrary: p evs)
  case Nil
  then show ?case
    using says_end by (fastforce simp: rested_def good_def)
next
  case (Cons b bs)
  then obtain p1 ev1 evs1 where p1: "sax_WriteAll p b = Some (Some p1, ev1)" "good p1 (concat bs) evs1" "atoms evs = atoms ev1 @ atoms evs1"
    "\<not> m_eof p1" "rested p1 (concat bs)"
    using sax_WriteAll_says [of p b "concat bs" evs] by auto
  then show ?case
    using Cons.IH [OF p1(2,4,5)] by auto
qed

text \<open>A document written into the parser in pieces of any lengths is read in the same way, and nothing
  is left in the parser.\<close>
theorem sax_reads_pieces:
  assumes "\<forall>x\<in>set xs. xml_ok x" "concat bs = concat (map render xs)"
  shows "\<exists>p ev. sax_write_pieces SaxParser bs = Some (Some p, ev) \<and> m_buffer p = [] \<and> m_state p = CONTENT \<and>
    atoms ev = atoms (concat (map xml_events xs))"
proof -
  have "NUL \<notin> set (concat bs)"
    using assms NUL_notin_render by auto
  then have "good SaxParser (concat bs) (atoms (concat (map xml_events xs)))"
    using document_says [OF assms(1)] assms(2) by (intro good_start) simp_all
  then show ?thesis
    using sax_write_pieces_says [OF _ _ rested_start] by (fastforce simp: SaxParser_def)
qed

theorem sax_reads_pieces_witness:
  "\<exists>p ev. sax_write_pieces SaxParser [''<wp'', ''l v=\"1'', ''\"/'', ''>''] = Some (Some p, ev) \<and> m_buffer p = [] \<and> m_state p = CONTENT \<and>
    atoms ev = [OnBegin ''wpl'', OnAttribute ''v'' ''1'', OnEnd ''wpl'']"
proof -
  have "xml_ok (Element ''wpl'' [(''v'', ''1'')] [])" "render (Element ''wpl'' [(''v'', ''1'')] []) = ''<wpl v=\"1\"/>''"
    "atoms (xml_events (Element ''wpl'' [(''v'', ''1'')] [])) = [OnBegin ''wpl'', OnAttribute ''v'' ''1'', OnEnd ''wpl'']"
    by code_simp+
  then show ?thesis
    using sax_reads_pieces [of "[Element ''wpl'' [(''v'', ''1'')] []]" "[''<wp'', ''l v=\"1'', ''\"/'', ''>'']"] by simp
qed

section \<open>Documents that stop in the middle\<close>


lemma sax_fill_string:
  "m_eof p = False \<Longrightarrow> length (m_buffer p) < SAX_BUFSIZE \<Longrightarrow> pos \<le> length doc \<Longrightarrow> length doc - pos \<le> SAX_BUFSIZE - length (m_buffer p) \<Longrightarrow>
     sax_fill (Seekable_Read StringStream_ReadAt) p (doc, pos) =
       Some (0, p\<lparr>m_buffer := m_buffer p @ drop pos doc, m_eof := (length doc = pos)\<rparr>, doc, length doc)"
  by (simp add: sax_fill_def Seekable_Read_def StringStream_ReadAt_def min_absorb2)

text \<open>A tag name that the input ends in: after the end the parser takes one byte more than there is.\<close>

lemma sax_tag_name:
  assumes "tag_ok n" "m_buffer p = n" "m_state p = TAG"
  shows "sax_loop p = (if m_eof p then Some (None, [OnBegin n]) else Some (Some p, []))"
proof -
  have n: "n \<noteq> []" "hd n \<noteq> CHR ''!''" "NUL \<notin> set n" "\<forall>c\<in>set n. c \<notin> set TAG_END" "length n < SAX_BUFSIZE"
    using assms(1) by (auto simp: tag_ok_def)
  have "char_at 0 n \<noteq> CHR ''/''"
    using n(1,4) by (cases n) (auto simp: char_at_def TAG_END_iff)
  moreover have "strcspn n TAG_END = length n"
    using n(4) unfolding strcspn_def c_str_id [OF n(3)] by (metis takeWhile_eq_all_conv)
  ultimately have "sax_tag p = (if m_eof p then Overrun [OnBegin n] else Wait p [])"
    using not_cdata [OF n(1,2)] assms(2) n(5) by (simp add: sax_tag_def Let_def char_at_def)
  then show ?thesis
    using assms(2,3) n(1) by (subst sax_loop.simps) (simp add: sax_round_def)
qed

text \<open>C28: a document that ends within the name of a tag makes the parser take more bytes from its buffer
  than there are, which wraps their number around.\<close>
theorem sax_truncated_tag_overruns:
  assumes "tag_ok n"
  shows "\<exists>s. sax_Parse (Seekable_Read StringStream_ReadAt) SaxParser (CHR ''<'' # n, 0) = Some (None, [OnBegin n], s)"
proof -
  let ?rd = "Seekable_Read StringStream_ReadAt" and ?d = "CHR ''<'' # n"
  have n: "n \<noteq> []" "NUL \<notin> set n" "length ?d < SAX_BUFSIZE"
    using assms by (auto simp: tag_ok_def)
  define p1 where "p1 = SaxParser\<lparr>m_buffer := ?d\<rparr>"
  define p2 where "p2 = SaxParser\<lparr>m_buffer := n, m_state := TAG\<rparr>"
  have fill1: "sax_fill ?rd SaxParser (?d, 0) = Some (0, p1, ?d, length ?d)"
    using sax_fill_string [of SaxParser 0 ?d] n(3) by (simp add: SaxParser_def p1_def)
  have "sax_round p1 = Again p2 []"
    by (simp add: sax_round_def p1_def p2_def SaxParser_def sax_content_def strchr_def c_str_def used_up_def)
  then have loop1: "sax_loop p1 = Some (Some p2, [])"
    using sax_tag_name [OF assms, of p2] by (subst sax_loop.simps) (simp add: p1_def p2_def SaxParser_def)
  have fill2: "sax_fill ?rd p2 (?d, length ?d) = Some (0, p2\<lparr>m_eof := True\<rparr>, ?d, length ?d)"
    using sax_fill_string [of p2 "length ?d" ?d] n(3) by (simp add: p2_def SaxParser_def)
  have "sax_Parse ?rd p2 (?d, length ?d) = Some (None, [OnBegin n], ?d, length ?d)"
    using fill2 sax_tag_name [OF assms, of "p2\<lparr>m_eof := True\<rparr>"] n(1) by (subst sax_Parse.simps) (simp add: p2_def)
  then have "sax_Parse ?rd SaxParser (?d, 0) = Some (None, [OnBegin n], ?d, length ?d)"
    using fill1 loop1 by (subst sax_Parse.simps) (simp add: p1_def)
  then show ?thesis
    by blast
qed

theorem sax_truncated_tag_overruns_witness:
  "\<exists>s. sax_Parse (Seekable_Read StringStream_ReadAt) SaxParser (''<foo'', 0) = Some (None, [OnBegin ''foo''], s)"
  by (rule sax_truncated_tag_overruns) code_simp

text \<open>An ampersand without its semicolon at the end of the input: the round delivers nothing and repeats.\<close>

lemma sax_loop_stuck:
  assumes "sax_round p = Again p ev" "m_buffer p \<noteq> []" "ev \<noteq> []"
  shows "sax_loop p = None"
proof (cases "sax_loop p")
  case (Some r)
  have "sax_loop p = do { (q, evs) \<leftarrow> sax_loop p; Some (q, ev @ evs) }"
    using assms(1,2) by (subst sax_loop.simps) simp
  then show ?thesis
    using Some assms(3) by (cases r) simp
qed simp

lemma sax_content_entity:
  assumes "NUL \<notin> set (u @ v)" "CHR ''<'' \<notin> set (u @ v)" "CHR ''&'' \<notin> set v" "CHR '';'' \<notin> set v"
    "m_buffer p = u @ CHR ''&'' # v" "m_state p = CONTENT"
  shows "sax_round p = (if m_eof p then Again else Wait) (used_up (length u) p) [OnContent (XmlUnEscape u)]"
proof -
  have nul: "NUL \<notin> set (u @ CHR ''&'' # v)"
    using assms(1) by auto
  have "strchr CHR ''<'' (u @ CHR ''&'' # v) = None"
    using assms(2) strchr_none [OF nul] by auto
  moreover have "strrchr CHR ''&'' (u @ CHR ''&'' # v) = Some (length u)"
    using assms(3) unfolding strrchr_def c_str_id [OF nul] by (simp add: Let_def takeWhile_neq)
  moreover note semicolon_after [OF nul]
  ultimately show ?thesis
    using assms(4-6) by (simp add: sax_round_def sax_content_def Let_def)
qed

text \<open>C29: a document that ends in text with an ampersand after which there is no semicolon is never
  finished: the parser goes round for ever.\<close>
theorem sax_open_entity_hangs:
  assumes "NUL \<notin> set (u @ v)" "CHR ''<'' \<notin> set (u @ v)" "CHR ''&'' \<notin> set v" "CHR '';'' \<notin> set v" "length (u @ v) + 1 < SAX_BUFSIZE"
  shows "sax_Parse (Seekable_Read StringStream_ReadAt) SaxParser (u @ CHR ''&'' # v, 0) = None"
proof -
  let ?rd = "Seekable_Read StringStream_ReadAt" and ?d = "u @ CHR ''&'' # v"
  define p1 where "p1 = SaxParser\<lparr>m_buffer := ?d\<rparr>"
  define p2 where "p2 = SaxParser\<lparr>m_buffer := CHR ''&'' # v\<rparr>"
  have fill1: "sax_fill ?rd SaxParser (?d, 0) = Some (0, p1, ?d, length ?d)"
    using sax_fill_string [of SaxParser 0 ?d] assms(5) by (simp add: SaxParser_def p1_def)
  have "sax_round p1 = Wait p2 [OnContent (XmlUnEscape u)]"
    using sax_content_entity [OF assms(1-4), of p1] by (simp add: p1_def p2_def SaxParser_def used_up_def)
  then have loop1: "sax_loop p1 = Some (Some p2, [OnContent (XmlUnEscape u)])"
    by (subst sax_loop.simps) (simp add: p1_def)
  have fill2: "sax_fill ?rd p2 (?d, length ?d) = Some (0, p2\<lparr>m_eof := True\<rparr>, ?d, length ?d)"
    using sax_fill_string [of p2 "length ?d" ?d] assms(5) by (simp add: p2_def SaxParser_def)
  have "sax_round (p2\<lparr>m_eof := True\<rparr>) = Again (p2\<lparr>m_eof := True\<rparr>) [OnContent (XmlUnEscape [])]"
    using sax_content_entity [of "[]" v "p2\<lparr>m_eof := True\<rparr>"] assms(1-4) by (simp add: p2_def SaxParser_def)
  then have "sax_loop (p2\<lparr>m_eof := True\<rparr>) = None"
    by (rule sax_loop_stuck) (simp_all add: p2_def)
  then have "sax_Parse ?rd p2 (?d, length ?d) = None"
    using fill2 by (subst sax_Parse.simps) (simp add: p2_def)
  then show ?thesis
    using fill1 loop1 by (subst sax_Parse.simps) (simp add: p1_def)
qed

theorem sax_open_entity_hangs_witness: "sax_Parse (Seekable_Read StringStream_ReadAt) SaxParser (''AT&T'', 0) = None"
  using sax_open_entity_hangs [of "''AT''" "''T''"] by (simp add: SAX_BUFSIZE_def)

end
