(* ===== verification/XmlTable.thy ===== *)
theory XmlTable
  imports SaxDocs
begin

text \<open>
  libutil/xml.h, xml.cpp: the table-driven parsers. A table is a tree of entries, which the templates
  of xml.h make; the functions of an entry act on a target, a pointer of any type, and on the state
  that the targets live in. The observer that follows the table keeps the current entry and target,
  stacks of the outer ones (the back of a list is the head here) and the depth of what it ignores.
\<close>

section \<open>Tables\<close>

type_synonym ('p, 's) text_fn = "'p \<Rightarrow> string \<Rightarrow> 's \<Rightarrow> u32 \<times> 's"

text \<open>The children are \<^verbatim>\<open>None\<close> where the pointer is \<^verbatim>\<open>NULL\<close>, which makes an attribute.\<close>

datatype ('p, 's) Data =
  Data (d_name: string) (d_text: "('p, 's) text_fn option") (d_sbegin: "('p \<Rightarrow> 's \<Rightarrow> 'p \<times> 's) option") (d_children: "('p, 's) Data list option")

definition IsAttribute :: "('p, 's) Data \<Rightarrow> bool" where
  "IsAttribute d \<longleftrightarrow> d_children d = None"

definition children_of :: "('p, 's) Data \<Rightarrow> ('p, 's) Data list" where
  "children_of d = (case d_children d of None \<Rightarrow> [] | Some cs \<Rightarrow> cs)"

definition Parser :: "('p, 's) Data list \<Rightarrow> ('p, 's) Data" where
  "Parser cs = Data [] None None (Some cs)"

definition Tag :: "string \<Rightarrow> ('p, 's) Data list \<Rightarrow> ('p, 's) Data" where
  "Tag n cs = Data n None None (Some cs)"

definition TagCallback :: "string \<Rightarrow> ('p, 's) text_fn \<Rightarrow> ('p, 's) Data list \<Rightarrow> ('p, 's) Data" where
  "TagCallback n fn cs = Data n (Some fn) None (Some cs)"

definition TagMember :: "string \<Rightarrow> ('p \<Rightarrow> string \<Rightarrow> 's \<Rightarrow> 's) \<Rightarrow> ('p, 's) Data list \<Rightarrow> ('p, 's) Data" where
  "TagMember n store cs = Data n (Some (\<lambda>p t s. (0, store p t s))) None (Some cs)"

definition TagMemberInt :: "string \<Rightarrow> ('p \<Rightarrow> u32 \<Rightarrow> 's \<Rightarrow> 's) \<Rightarrow> ('p, 's) Data list \<Rightarrow> ('p, 's) Data" where
  "TagMemberInt n store cs = Data n (Some (\<lambda>p t s. (0, store p (parse_u32 t) s))) None (Some cs)"

definition Attribute :: "string \<Rightarrow> ('p, 's) text_fn \<Rightarrow> ('p, 's) Data" where
  "Attribute n fn = Data n (Some fn) None None"

definition Structure :: "string \<Rightarrow> ('p \<Rightarrow> 'p) \<Rightarrow> ('p, 's) Data list \<Rightarrow> ('p, 's) Data" where
  "Structure n member cs = Data n None (Some (\<lambda>p s. (member p, s))) (Some cs)"

definition ListOf :: "string \<Rightarrow> ('p \<Rightarrow> 's \<Rightarrow> 'p \<times> 's) \<Rightarrow> ('p, 's) Data list \<Rightarrow> ('p, 's) Data" where
  "ListOf n push cs = Data n None (Some push) (Some cs)"

section \<open>The observer\<close>

record ('p, 's) tdp =
  m_target :: 'p
  m_current :: "('p, 's) Data"
  m_table_stack :: "('p, 's) Data list"
  m_target_stack :: "'p list"
  m_ignore :: nat
  m_content :: string

definition TableDrivenParser :: "'p \<Rightarrow> ('p, 's) Data \<Rightarrow> ('p, 's) tdp" where
  "TableDrivenParser target table =
     \<lparr>m_target = target, m_current = table, m_table_stack = [], m_target_stack = [], m_ignore = 0, m_content = []\<rparr>"

text \<open>\<^verbatim>\<open>strcasecmp\<close> in the C locale.\<close>

definition tolower :: "char \<Rightarrow> char" where
  "tolower c = (let n = of_char c in if (65 :: nat) \<le> n \<and> n \<le> 90 then char_of (n + 32) else c)"

definition same_name :: "string \<Rightarrow> string \<Rightarrow> bool" where
  "same_name s t \<longleftrightarrow> map tolower (c_str s) = map tolower (c_str t)"

definition find_child :: "bool \<Rightarrow> string \<Rightarrow> ('p, 's) Data \<Rightarrow> ('p, 's) Data option" where
  "find_child attr n d = find (\<lambda>c. same_name n (d_name c) \<and> IsAttribute c = attr) (children_of d)"

definition tdp_OnBegin :: "string \<Rightarrow> ('p, 's) tdp \<times> 's \<Rightarrow> u32 \<times> ('p, 's) tdp \<times> 's" where
  "tdp_OnBegin tag = (\<lambda>(q, s).
     let q = q\<lparr>m_content := []\<rparr> in
     if char_at 0 tag = CHR ''?'' then (0, q, s)
     else
       case (if m_ignore q = 0 then find_child False tag (m_current q) else None) of
         Some d \<Rightarrow>
           (let (p, s) = (case d_sbegin d of None \<Rightarrow> (m_target q, s) | Some f \<Rightarrow> f (m_target q) s) in
            (0, q\<lparr>m_table_stack := m_current q # m_table_stack q, m_target_stack := m_target q # m_target_stack q,
                  m_current := d, m_target := p\<rparr>, s))
       | None \<Rightarrow> (0, q\<lparr>m_ignore := m_ignore q + 1\<rparr>, s))"

definition tdp_OnAttribute :: "string \<Rightarrow> string \<Rightarrow> ('p, 's) tdp \<times> 's \<Rightarrow> u32 \<times> ('p, 's) tdp \<times> 's" where
  "tdp_OnAttribute n v = (\<lambda>(q, s).
     case (if m_ignore q = 0 then find_child True n (m_current q) else None) of
       Some d \<Rightarrow> (let (rc, s) = the (d_text d) (m_target q) v s in (rc, q, s))
     | None \<Rightarrow> (0, q, s))"

definition tdp_OnContent :: "string \<Rightarrow> ('p, 's) tdp \<times> 's \<Rightarrow> u32 \<times> ('p, 's) tdp \<times> 's" where
  "tdp_OnContent c = (\<lambda>(q, s). (0, q\<lparr>m_content := m_content q @ c\<rparr>, s))"

definition tdp_OnEnd :: "string \<Rightarrow> ('p, 's) tdp \<times> 's \<Rightarrow> u32 \<times> ('p, 's) tdp \<times> 's" where
  "tdp_OnEnd tag = (\<lambda>(q, s).
     if m_ignore q \<noteq> 0 then (0, q\<lparr>m_ignore := m_ignore q - 1\<rparr>, s)
     else if m_table_stack q = [] then (EINVAL, q, s)
     else
       (let s = (case d_text (m_current q) of None \<Rightarrow> s | Some f \<Rightarrow> snd (f (m_target q) (m_content q) s)) in
        (0, q\<lparr>m_target := hd (m_target_stack q), m_target_stack := tl (m_target_stack q),
              m_current := hd (m_table_stack q), m_table_stack := tl (m_table_stack q)\<rparr>, s)))"

definition tdp_event :: "event \<Rightarrow> ('p, 's) tdp \<times> 's \<Rightarrow> u32 \<times> ('p, 's) tdp \<times> 's" where
  "tdp_event e =
     (case e of
        OnBegin tag \<Rightarrow> tdp_OnBegin tag
      | OnEnd tag \<Rightarrow> tdp_OnEnd tag
      | OnAttribute n v \<Rightarrow> tdp_OnAttribute n v
      | OnContent c \<Rightarrow> tdp_OnContent c)"

text \<open>The parser makes the calls as it reads and drops what they return; \<^verbatim>\<open>details::Parse\<close>.\<close>

definition tdp_run :: "event list \<Rightarrow> ('p, 's) tdp \<times> 's \<Rightarrow> ('p, 's) tdp \<times> 's" where
  "tdp_run evs qs = fold (\<lambda>e qs. snd (tdp_event e qs)) evs qs"

definition xml_Parse :: "'t reader \<Rightarrow> 't \<Rightarrow> 'p \<Rightarrow> ('p, 's) Data \<Rightarrow> 's \<Rightarrow> (u32 option \<times> 's \<times> 't) option" where
  "xml_Parse rd sp target table s = do {
     (rc, evs, sp) \<leftarrow> sax_Parse rd SaxParser sp;
     Some (rc, snd (tdp_run evs (TableDrivenParser target table, s)), sp) }"

section \<open>Walking a document\<close>

text \<open>
  What a table does to a document, by recursion over it: the content that has come in since a tag was
  last opened, and the state.
\<close>

fun ignored :: "xml \<Rightarrow> string \<Rightarrow> string" where
  "ignored (Text u) c = c @ filter xml_keeps u"
| "ignored (Section u) c = c @ u"
| "ignored (Element n as cs) c = fold ignored cs []"

definition visit_attr :: "('p, 's) Data \<Rightarrow> 'p \<Rightarrow> string \<times> string \<Rightarrow> 's \<Rightarrow> 's" where
  "visit_attr d p = (\<lambda>(n, v) s.
     case find_child True n d of None \<Rightarrow> s | Some a \<Rightarrow> snd (the (d_text a) p (filter xml_keeps v) s))"

fun visit :: "xml \<Rightarrow> ('p, 's) Data \<Rightarrow> 'p \<Rightarrow> string \<times> 's \<Rightarrow> string \<times> 's" where
  "visit (Text u) d p (c, s) = (c @ filter xml_keeps u, s)"
| "visit (Section u) d p (c, s) = (c @ u, s)"
| "visit (Element n as cs) d p (c, s) =
     (case find_child False n d of
        None \<Rightarrow> (fold ignored cs [], s)
      | Some d' \<Rightarrow>
          (let (p', s) = (case d_sbegin d' of None \<Rightarrow> (p, s) | Some f \<Rightarrow> f p s);
               (c, s) = fold (\<lambda>x. visit x d' p') cs ([], fold (visit_attr d' p') as s)
           in (c, case d_text d' of None \<Rightarrow> s | Some f \<Rightarrow> snd (f p' c s))))"

fun no_pi :: "xml \<Rightarrow> bool" where
  "no_pi (Element n as cs) \<longleftrightarrow> char_at 0 n \<noteq> CHR ''?'' \<and> (\<forall>c\<in>set cs. no_pi c)"
| "no_pi _ \<longleftrightarrow> True"

lemma tdp_run_Nil [simp]: "tdp_run [] qs = qs"
  by (simp add: tdp_run_def)

lemma tdp_run_append: "tdp_run (xs @ ys) qs = tdp_run ys (tdp_run xs qs)"
  by (simp add: tdp_run_def)

lemma tdp_run_Cons: "tdp_run (e # es) qs = tdp_run es (snd (tdp_event e qs))"
  by (simp add: tdp_run_def)

text \<open>Content in pieces or at once is the same.\<close>

lemma tdp_run_chars: "tdp_run (map (\<lambda>c. OnContent [c]) u) (q, s) = (q\<lparr>m_content := m_content q @ u\<rparr>, s)"
  by (induction u arbitrary: q) (auto simp: tdp_run_Cons tdp_event_def tdp_OnContent_def)

lemma tdp_run_atoms: "tdp_run (atoms evs) qs = tdp_run evs qs"
proof (induction evs arbitrary: qs rule: atoms.induct)
  case (2 u es)
  then show ?case
    by (cases qs) (auto simp: tdp_run_append tdp_run_chars tdp_run_Cons tdp_event_def tdp_OnContent_def)
qed (auto simp: tdp_run_Cons)

text \<open>Inside what is ignored only the content changes.\<close>

lemma attrs_ignored:
  "m_ignore q \<noteq> 0 \<Longrightarrow> tdp_run (map (\<lambda>(k, v). OnAttribute k (filter xml_keeps v)) as) (q, s) = (q, s)"
  by (induction as) (auto simp: tdp_run_Cons tdp_event_def tdp_OnAttribute_def)

lemma list_ignored:
  fixes q :: "('p, 's) tdp"
  assumes "\<And>x (q :: ('p, 's) tdp). x \<in> set xs \<Longrightarrow> m_ignore q \<noteq> 0 \<Longrightarrow> tdp_run (xml_events x) (q, s) = (q\<lparr>m_content := ignored x (m_content q)\<rparr>, s)"
    "m_ignore q \<noteq> 0"
  shows "tdp_run (concat (map xml_events xs)) (q, s) = (q\<lparr>m_content := fold ignored xs (m_content q)\<rparr>, s)"
  using assms
proof (induction xs arbitrary: q)
  case (Cons x xs)
  have "tdp_run (xml_events x) (q, s) = (q\<lparr>m_content := ignored x (m_content q)\<rparr>, s)"
    using Cons.prems by simp
  then show ?case
    using Cons.IH [of "q\<lparr>m_content := ignored x (m_content q)\<rparr>"] Cons.prems by (simp add: tdp_run_append)
qed simp

lemma tdp_ignores:
  fixes q :: "('p, 's) tdp"
  shows "no_pi x \<Longrightarrow> m_ignore q \<noteq> 0 \<Longrightarrow> tdp_run (xml_events x) (q, s) = (q\<lparr>m_content := ignored x (m_content q)\<rparr>, s)"
proof (induction x arbitrary: q)
  case (Element n as cs)
  have "tdp_run (concat (map xml_events cs)) (q', s) = (q'\<lparr>m_content := fold ignored cs (m_content q')\<rparr>, s)" if "m_ignore q' \<noteq> 0" for q' :: "('p, 's) tdp"
    using Element.IH Element.prems(1) that by (intro list_ignored) simp_all
  from this [of "q\<lparr>m_content := [], m_ignore := m_ignore q + 1\<rparr>"] show ?case
    using Element.prems
    by (simp add: tdp_run_Cons tdp_run_append attrs_ignored tdp_event_def tdp_OnBegin_def tdp_OnEnd_def Let_def)
qed (auto simp: tdp_run_Cons tdp_event_def tdp_OnContent_def)

lemma attrs_visited:
  "m_ignore q = 0 \<Longrightarrow> tdp_run (map (\<lambda>(k, v). OnAttribute k (filter xml_keeps v)) as) (q, s) =
     (q, fold (visit_attr (m_current q) (m_target q)) as s)"
  by (induction as arbitrary: s)
    (auto simp: tdp_run_Cons tdp_event_def tdp_OnAttribute_def visit_attr_def split: option.splits prod.splits)

text \<open>The observer does what the walk does, and is back at the entry where it was.\<close>

lemma list_visited:
  fixes q :: "('p, 's) tdp"
  assumes "\<And>x (q :: ('p, 's) tdp) s. x \<in> set xs \<Longrightarrow> m_ignore q = 0 \<Longrightarrow> tdp_run (xml_events x) (q, s) =
      (case visit x (m_current q) (m_target q) (m_content q, s) of (c, s') \<Rightarrow> (q\<lparr>m_content := c\<rparr>, s'))"
    "m_ignore q = 0"
  shows "tdp_run (concat (map xml_events xs)) (q, s) =
    (case fold (\<lambda>x. visit x (m_current q) (m_target q)) xs (m_content q, s) of (c, s') \<Rightarrow> (q\<lparr>m_content := c\<rparr>, s'))"
  using assms
proof (induction xs arbitrary: q s)
  case (Cons x xs)
  obtain c s' where v: "visit x (m_current q) (m_target q) (m_content q, s) = (c, s')"
    by (meson surj_pair)
  then have "tdp_run (xml_events x) (q, s) = (q\<lparr>m_content := c\<rparr>, s')"
    using Cons.prems by simp
  then show ?case
    using Cons.IH [of "q\<lparr>m_content := c\<rparr>" s'] Cons.prems v by (simp add: tdp_run_append)
qed simp

lemma tdp_visits:
  fixes q :: "('p, 's) tdp"
  shows "no_pi x \<Longrightarrow> m_ignore q = 0 \<Longrightarrow>
     tdp_run (xml_events x) (q, s) =
       (case visit x (m_current q) (m_target q) (m_content q, s) of (c, s') \<Rightarrow> (q\<lparr>m_content := c\<rparr>, s'))"
proof (induction x arbitrary: q s)
  case (Element n as cs)
  have pi: "char_at 0 n \<noteq> CHR ''?''"
    using Element.prems(1) by simp
  show ?case
  proof (cases "find_child False n (m_current q)")
    case None
    have "tdp_run (concat (map xml_events cs)) (q', s) = (q'\<lparr>m_content := fold ignored cs (m_content q')\<rparr>, s)" if "m_ignore q' \<noteq> 0" for q' :: "('p, 's) tdp"
      using Element.prems(1) that by (intro list_ignored tdp_ignores) simp_all
    from this [of "q\<lparr>m_content := [], m_ignore := 1\<rparr>"] show ?thesis
      using None pi Element.prems(2)
      by (simp add: tdp_run_Cons tdp_run_append attrs_ignored tdp_event_def tdp_OnBegin_def tdp_OnEnd_def Let_def)
  next
    case (Some d)
    obtain p' s1 where b: "(case d_sbegin d of None \<Rightarrow> (m_target q, s) | Some f \<Rightarrow> f (m_target q) s) = (p', s1)"
      by (meson surj_pair)
    define q1 where "q1 = q\<lparr>m_content := [], m_table_stack := m_current q # m_table_stack q,
      m_target_stack := m_target q # m_target_stack q, m_current := d, m_target := p'\<rparr>"
    have list: "tdp_run (concat (map xml_events cs)) (q', s) =
        (case fold (\<lambda>x. visit x (m_current q') (m_target q')) cs (m_content q', s) of (c, s') \<Rightarrow> (q'\<lparr>m_content := c\<rparr>, s'))"
      if "m_ignore q' = 0" for q' :: "('p, 's) tdp" and s
      using Element.IH Element.prems(1) that by (intro list_visited) simp_all
    have "m_ignore q1 = 0" "m_current q1 = d" "m_target q1 = p'" "m_content q1 = []"
      using Element.prems(2) by (simp_all add: q1_def)
    moreover have "snd (tdp_event (OnBegin n) (q, s)) = (q1, s1)"
      using Some pi b Element.prems(2) by (cases "d_sbegin d") (simp_all add: tdp_event_def tdp_OnBegin_def Let_def q1_def)
    ultimately have "tdp_run (xml_events (Element n as cs)) (q, s) =
        (case fold (\<lambda>x. visit x d p') cs ([], fold (visit_attr d p') as s1) of
           (c, s') \<Rightarrow> snd (tdp_event (OnEnd n) (q1\<lparr>m_content := c\<rparr>, s')))"
      using list [of q1] by (simp add: tdp_run_Cons tdp_run_append attrs_visited split: prod.splits)
    then show ?thesis
      using Some b Element.prems(2)
      by (auto simp: tdp_event_def tdp_OnEnd_def Let_def q1_def split: prod.splits option.splits)
  qed
qed (auto simp: tdp_run_Cons tdp_event_def tdp_OnContent_def)


lemma tdp_walks:
  fixes table :: "('p, 's) Data"
  assumes "\<forall>x\<in>set xs. no_pi x"
  shows "snd (tdp_run (concat (map xml_events xs)) (TableDrivenParser target table, s)) =
    snd (fold (\<lambda>x. visit x table target) xs ([], s))"
proof -
  have "tdp_run (xml_events x) (q, s) = (case visit x (m_current q) (m_target q) (m_content q, s) of (c, s') \<Rightarrow> (q\<lparr>m_content := c\<rparr>, s'))"
    if "x \<in> set xs" "m_ignore q = 0" for x and q :: "('p, 's) tdp" and s
    using tdp_visits [of x q s] that assms by simp
  from list_visited [OF this, of xs "TableDrivenParser target table" s] show ?thesis
    by (simp add: TableDrivenParser_def split: prod.splits)
qed

text \<open>C30: a table-driven parser does to a document what the walk over the document does: text and attribute
  functions are called for the entries that match the nesting of the tags, on the targets their
  entries choose, whatever else the document holds and however its stream is cut.\<close>
theorem xml_Parse_walks:
  fixes table :: "('p, 's) Data"
  assumes "\<forall>x\<in>set xs. xml_ok x \<and> no_pi x" "memory_ok m" "memory_content m = concat (map render xs)" "0 < drip"
  shows "\<exists>st. xml_Parse (Seekable_Read (Dribble_ReadAt Memory_ReadAt drip)) (m, 0) target table s =
    Some (Some 0, snd (fold (\<lambda>x. visit x table target) xs ([], s)), st)"
proof -
  obtain ev st where e: "sax_Parse (Seekable_Read (Dribble_ReadAt Memory_ReadAt drip)) SaxParser (m, 0) = Some (Some 0, ev, st)"
    "atoms ev = atoms (concat (map xml_events xs))"
    using sax_reads_dribbled [of xs m drip] assms by auto
  have "tdp_run ev qs = tdp_run (concat (map xml_events xs)) qs" for qs :: "('p, 's) tdp \<times> 's"
    using e(2) tdp_run_atoms by metis
  then show ?thesis
    using e(1) tdp_walks [of xs target table s] assms(1) by (simp add: xml_Parse_def)
qed

text \<open>The parser of the example in xml.cpp, with an observer that collects what it is called with.\<close>

definition WPLParser :: "(unit, string list) Data" where
  "WPLParser = Parser [Tag ''wpl'' [Tag ''media'' [Attribute ''src'' (\<lambda>_ t s. (0, s @ [t]))]]]"

theorem xml_Parse_walks_witness:
  "\<exists>st. xml_Parse (Seekable_Read (Dribble_ReadAt Memory_ReadAt 5)) (stored ''<WPL><x src=\"1\"/><media src=\"a&amp;b\"/></WPL>'', 0) () WPLParser [] =
    Some (Some 0, [''a&b''], st)"
proof -
  let ?x = "Element ''WPL'' [] [Element ''x'' [(''src'', ''1'')] [], Element ''media'' [(''src'', ''a&b'')] []]"
  have x: "render ?x = ''<WPL><x src=\"1\"/><media src=\"a&amp;b\"/></WPL>''" "xml_ok ?x \<and> no_pi ?x"
    "snd (fold (\<lambda>x. visit x WPLParser ()) [?x] ([], [])) = [''a&b'']"
    by code_simp+
  have "render ?x \<noteq> []"
    unfolding x(1) by simp
  then show ?thesis
    using xml_Parse_walks [of "[?x]" "stored (render ?x)" 5 "()" WPLParser "[]"] x(2,3) stored [of "render ?x"]
    unfolding x(1) [symmetric] by (simp del: render.simps)
qed

text \<open>Content that comes before an inner tag is lost to the outer one.\<close>

lemma content_before_inner_tag:
  assumes "find_child False n d = Some d'" "d_sbegin d' = None" "d_text d' = Some f" "find_child False k d' = None"
  shows "visit (Element n [] [Text u, Element k [] [Text v]]) d p (c, s) = (filter xml_keeps v, snd (f p (filter xml_keeps v) s))"
  using assms by simp

text \<open>An end tag that nothing opened is an error that the observer reports and the parser drops.\<close>

lemma unmatched_end_dropped:
  "fst (tdp_OnEnd ''a'' (TableDrivenParser () WPLParser, [])) = EINVAL \<and>
   xml_Parse (Seekable_Read StringStream_ReadAt) (''</a>'', 0) () WPLParser [] = Some (Some 0, [], ''</a>'', 4)"
  by code_simp

end
