(* ===== verification/MediaXml.thy ===== *)
theory MediaXml
  imports SteamExecute Schema SaxDocs
begin

text \<open>
  libmediadb/xml.cpp: a media database written as XML and read back. \<^verbatim>\<open>WriteXML\<close> gives the text it
  prints; the \<^verbatim>\<open>FILE\<close> it prints to does not fail. Both work on the in-memory database. \<^verbatim>\<open>None\<close> is
  what the cursor and \<^verbatim>\<open>ChildrenToVector\<close> make of it, or a number outside the name tables.
\<close>

section \<open>Names\<close>

definition tagmap :: "string list" where
  "tagmap =
     [''id'', ''title'', ''artist'', ''album'', ''tracknumber'', ''genre'', ''comment'', ''year'', ''durationms'', ''codec'',
      ''sizebytes'', ''bitspersec'', ''samplerate'', ''channels'', ''path'', ''mtime'', ''ctime'', ''type'', ''mood'', ''originalartist'',
      ''remixed'', ''conductor'', ''composer'', ''ensemble'', ''lyricist'', ''children'', ''idhigh'', ''idparent'', ''videocodec'', ''container'']"

definition typemap :: "string list" where
  "typemap = ['''', ''tune'', ''tunehigh'', ''spoken'', ''playlist'', ''dir'', ''image'', ''video'', ''radio'', ''tv'', ''query'', ''pending'']"

definition codecmap :: "string list" where
  "codecmap = ['''', ''mp2'', ''mp3'', ''flac'', ''vorbis'', ''wav'', ''pcm'', ''aac'', ''wma'']"

definition videocodecmap :: "string list" where
  "videocodecmap = ['''', ''mpeg2'', ''mpeg4'', ''h264'', ''flv'', ''wmv'', ''theora'']"

definition containermap :: "string list" where
  "containermap = ['''', ''ogg'', ''matroska'', ''avi'', ''mpegps'', ''mp4'', ''mov'', ''jpeg'', ''vob'']"

definition field_AUDIOCODEC :: nat where "field_AUDIOCODEC = 9"
definition field_TYPE :: nat where "field_TYPE = 17"
definition field_VIDEOCODEC :: nat where "field_VIDEOCODEC = 28"
definition field_CONTAINER :: nat where "field_CONTAINER = 29"
definition RADIO :: u32 where "RADIO = 8"

text \<open>The table of an enumerated field.\<close>

definition name_table :: "nat \<Rightarrow> string list option" where
  "name_table i =
     (if i = field_TYPE then Some typemap
      else if i = field_AUDIOCODEC then Some codecmap
      else if i = field_VIDEOCODEC then Some videocodecmap
      else if i = field_CONTAINER then Some containermap
      else None)"

section \<open>Writing\<close>

definition write_child :: "u32 \<Rightarrow> string" where
  "write_child k = (if k \<ge> 0x100 then ''  <child>'' @ dec (unat k) @ ''</child>'' @ [CHR 0x0A] else [])"

definition write_value :: "nat \<Rightarrow> string \<Rightarrow> string" where
  "write_value i value =
     (if value = [] then []
      else ''<'' @ tagmap ! i @ ''>'' @ XmlEscape value @ ''</'' @ tagmap ! i @ ''>'' @ [CHR 0x0A])"

definition write_field :: "cursor \<Rightarrow> nat \<Rightarrow> steam \<Rightarrow> (string \<times> steam) option" where
  "write_field rs i db =
     (case name_table i of
        Some names \<Rightarrow>
          (let (n, db) = GetInteger db rs i in
           if unat n < length names then Some (write_value i (names ! unat n), db) else None)
      | None \<Rightarrow>
          if i = field_CHILDREN then
            (let value = GetString db rs i in
             if value = [] then Some ([], db)
             else do {
               vec \<leftarrow> ChildrenToVector value;
               Some (''<children>'' @ [CHR 0x0A] @ concat (map write_child vec) @ ''</children>'' @ [CHR 0x0A], db) })
          else Some (write_value i (GetString db rs i), db))"

fun write_fields :: "cursor \<Rightarrow> nat list \<Rightarrow> steam \<Rightarrow> (string \<times> steam) option" where
  "write_fields rs [] db = Some ([], db)"
| "write_fields rs (i # is) db = do {
     (s, db) \<leftarrow> write_field rs i db;
     (t, db) \<leftarrow> write_fields rs is db;
     Some (s @ t, db) }"

definition write_record :: "cursor \<Rightarrow> steam \<Rightarrow> (string \<times> steam) option" where
  "write_record rs db =
     (let (n, db) = GetInteger db rs field_ID in
      if n < 0x100 then Some ([], db)
      else
        (let (t, db) = GetInteger db rs field_TYPE in
         if t = RADIO then Some ([], db)
         else do {
           (s, db) \<leftarrow> write_fields rs [0..<FIELD_COUNT] db;
           Some (''<record>'' @ [CHR 0x0A] @ s @ ''</record>'' @ [CHR 0x0A, CHR 0x0A], db) }))"

definition any :: "string option \<Rightarrow> string \<Rightarrow> bool" where
  "any _ _ = False"

partial_function (option) write_records :: "cursor \<Rightarrow> steam \<Rightarrow> (string \<times> steam) option" where
  "write_records rs db =
     (if IsEOF rs then Some ([], db)
      else do {
        (s, db) \<leftarrow> write_record rs db;
        (rs, db) \<leftarrow> Simple_MoveNext any None rs db;
        (t, db) \<leftarrow> write_records rs db;
        Some (s @ t, db) })"

definition xml_header :: "u32 \<Rightarrow> string" where
  "xml_header schema =
     ''<?xml version=\"1.0\" encoding=\"UTF-8\"?>'' @ [CHR 0x0A] @ ''<db schema=\"'' @ dec (unat schema) @ ''\">'' @ [CHR 0x0A]"

definition WriteXML :: "u32 \<Rightarrow> steam \<Rightarrow> (string \<times> steam) option" where
  "WriteXML schema db = do {
     (rs, db) \<leftarrow> SimpleRecordset any None db;
     (s, db) \<leftarrow> write_records rs db;
     Some (xml_header schema @ s @ ''</db>'' @ [CHR 0x0A], db) }"

section \<open>Reading\<close>

record media_parser =
  mp_db :: steam
  mp_field :: nat
  mp_children :: "u32 list"
  mp_in_child :: bool
  mp_value :: string
  mp_ids :: "u32 list"
  mp_fields :: "string list"

definition MediaDBParser :: "steam \<Rightarrow> media_parser" where
  "MediaDBParser db =
     \<lparr>mp_db = db, mp_field = FIELD_COUNT, mp_children = [], mp_in_child = False, mp_value = [], mp_ids = [],
      mp_fields = replicate FIELD_COUNT []\<rparr>"

text \<open>A reverse map, \<^verbatim>\<open>std::map::operator[]\<close>, which makes a 0 for what is not there.\<close>

definition rev_map :: "string list \<Rightarrow> string \<Rightarrow> u32" where
  "rev_map names value = (if value \<in> set names then of_nat (length (takeWhile (\<lambda>n. n \<noteq> value) names)) else 0)"

text \<open>The first index of a tag.\<close>

definition tag_field :: "string \<Rightarrow> nat" where
  "tag_field n = length (takeWhile (\<lambda>t. t \<noteq> n) tagmap)"

definition mp_OnBegin :: "string \<Rightarrow> media_parser \<Rightarrow> media_parser" where
  "mp_OnBegin name p =
     (let p = p\<lparr>mp_field := FIELD_COUNT, mp_in_child := False, mp_value := []\<rparr> in
      if name = ''record'' then p\<lparr>mp_fields := replicate FIELD_COUNT [], mp_children := []\<rparr>
      else if name = ''child'' then p\<lparr>mp_in_child := True\<rparr>
      else p\<lparr>mp_field := tag_field name\<rparr>)"

definition store_field :: "string list \<Rightarrow> u32 list \<Rightarrow> cursor \<Rightarrow> steam \<Rightarrow> nat \<Rightarrow> steam" where
  "store_field fs kids rs db i =
     (case name_table i of
        Some names \<Rightarrow> snd (SetInteger db rs i (rev_map names (fs ! i)))
      | None \<Rightarrow>
          if i = field_CHILDREN then snd (SetString db rs i (VectorToChildren kids))
          else snd (SetString db rs i (fs ! i)))"

definition store_record :: "string list \<Rightarrow> u32 list \<Rightarrow> steam \<Rightarrow> steam option" where
  "store_record fs kids db = do {
     (rs, db) \<leftarrow> SimpleRecordset any None db;
     let (rc, rs, db) = AddRecord db rs;
     let db = foldl (store_field fs kids rs) db [0..<FIELD_COUNT];
     Some (snd (Commit db)) }"

definition mp_OnEnd :: "string \<Rightarrow> media_parser \<Rightarrow> media_parser option" where
  "mp_OnEnd name p =
     (let p =
        (if mp_field p < FIELD_COUNT then p\<lparr>mp_fields := (mp_fields p)[mp_field p := mp_value p]\<rparr>
         else if mp_in_child p then p\<lparr>mp_children := mp_children p @ [parse_u32 (mp_value p)]\<rparr>
         else p);
        p = p\<lparr>mp_field := FIELD_COUNT, mp_in_child := False\<rparr>
      in
      if name = ''record'' then
        (let id = parse_u32 (mp_fields p ! field_ID) in
         if id \<notin> set (mp_ids p) then do {
           db \<leftarrow> store_record (mp_fields p) (mp_children p) (mp_db p);
           Some (p\<lparr>mp_ids := id # mp_ids p, mp_db := db\<rparr>) }
         else Some p)
      else Some p)"

definition mp_OnContent :: "string \<Rightarrow> media_parser \<Rightarrow> media_parser" where
  "mp_OnContent content p =
     (if mp_field p \<noteq> FIELD_COUNT \<or> mp_in_child p then p\<lparr>mp_value := mp_value p @ content\<rparr> else p)"

definition mp_event :: "event \<Rightarrow> media_parser \<Rightarrow> media_parser option" where
  "mp_event e p =
     (case e of
        OnBegin tag \<Rightarrow> Some (mp_OnBegin tag p)
      | OnEnd tag \<Rightarrow> mp_OnEnd tag p
      | OnAttribute n v \<Rightarrow> Some p
      | OnContent c \<Rightarrow> Some (mp_OnContent c p))"

fun mp_run :: "event list \<Rightarrow> media_parser \<Rightarrow> media_parser option" where
  "mp_run [] p = Some p"
| "mp_run (e # es) p = do { p \<leftarrow> mp_event e p; mp_run es p }"

definition ReadXML :: "'t reader \<Rightarrow> 't \<Rightarrow> steam \<Rightarrow> (u32 option \<times> steam \<times> 't) option" where
  "ReadXML rd sp db = do {
     (rc, evs, sp) \<leftarrow> sax_Parse rd SaxParser sp;
     p \<leftarrow> mp_run evs (MediaDBParser db);
     Some (rc, mp_db p, sp) }"

end
