(* ===== verification/SteamStore.thy ===== *)
theory SteamStore
  imports SteamMatch
begin

text \<open>
  A client of the in-memory database that fills records: what the writes leave alone, and that the two
  readings of a field agree.
\<close>

section \<open>Writes keep the records\<close>

text \<open>The parts of a database that no write of a field changes.\<close>

definition same_shape :: "steam \<Rightarrow> steam \<Rightarrow> bool" where
  "same_shape db db' \<longleftrightarrow> m_nfields db' = m_nfields db \<and> m_fields db' = m_fields db \<and>
     m_next_recno db' = m_next_recno db \<and> map fst (m_data db') = map fst (m_data db)"

lemma same_shape_refl [simp]: "same_shape db db"
  by (simp add: same_shape_def)

lemma same_shape_trans: "same_shape db db' \<Longrightarrow> same_shape db' db'' \<Longrightarrow> same_shape db db''"
  by (simp add: same_shape_def)

lemma same_shape_put: "smap_ok (m_data db) \<Longrightarrow> same_shape db (put_value r f v db)"
  by (auto simp: same_shape_def put_value_def smap_set_same_keys split: option.splits)

lemma same_shape_index [simp]:
  "same_shape db (string_add f k r db)" "same_shape db (string_drop f k r db)"
  "same_shape db (int_add f n r db)" "same_shape db (int_drop f n r db)"
  by (simp_all add: same_shape_def string_add_def string_drop_def int_add_def int_drop_def)

lemma same_shape_put_index:
  assumes "smap_ok (m_data db)" "same_shape db db'" "m_data db' = m_data db"
  shows "same_shape db (put_value r f v db')"
  using assms same_shape_put [of db' r f v] same_shape_trans [of db db'] by simp

lemma index_next_shape:
  "same_shape db (string_add f k r (if b then string_drop g j q db else db))"
  "same_shape db (int_add f n r (if b then int_drop g m q db else db))"
  by (auto intro: same_shape_trans [OF same_shape_index(2) same_shape_index(1)] same_shape_trans [OF same_shape_index(4) same_shape_index(3)])

lemma SetString_shape: "steam_ok db \<Longrightarrow> same_shape db (snd (SetString db rs which s))"
proof -
  assume "steam_ok db"
  then have sm: "smap_ok (m_data db)"
    by (simp add: steam_ok_def)
  show ?thesis
    unfolding SetString_def
    by (auto simp: Let_def sm split: option.splits intro!: same_shape_put same_shape_put_index [OF sm] index_next_shape [where b = True, simplified]
        same_shape_trans [OF same_shape_index(2) same_shape_index(1)] same_shape_trans [OF same_shape_index(4) same_shape_index(3)])
qed

lemma SetInteger_shape: "steam_ok db \<Longrightarrow> same_shape db (snd (SetInteger db rs which n))"
proof -
  assume "steam_ok db"
  then have sm: "smap_ok (m_data db)"
    by (simp add: steam_ok_def)
  show ?thesis
    unfolding SetInteger_def
    by (auto simp: Let_def sm split: option.splits intro!: same_shape_put same_shape_put_index [OF sm]
        same_shape_trans [OF same_shape_index(2) same_shape_index(1)] same_shape_trans [OF same_shape_index(4) same_shape_index(3)])
qed

text \<open>A new record comes after all others.\<close>

lemma smap_set_last: "smap_ok m \<Longrightarrow> \<forall>j\<in>fst ` set m. j < k \<Longrightarrow> map fst (smap_set k v m) = map fst m @ [k]"
proof (induction k v m rule: smap_set.induct)
  case (2 k v k' v' m)
  then show ?case
    by (auto simp: smap_ok_Cons)
qed simp

lemma AddRecord_keys:
  assumes "steam_ok db" "AddRecord db rs = (rc, rs', db')"
  shows "map fst (m_data db') = map fst (m_data db) @ [m_next_recno db]" "m_record rs' = m_next_recno db"
    "m_next_recno db' = m_next_recno db + 1" "m_nfields db' = m_nfields db" "m_fields db' = m_fields db"
    "smap_find (m_data db') (m_next_recno db) \<noteq> None"
proof -
  have sm: "smap_ok (m_data db)"
    using assms(1) by (simp add: steam_ok_def)
  moreover have "\<forall>j\<in>fst ` set (m_data db). j < m_next_recno db"
    using assms(1) sm smap_in_set [OF sm] by (fastforce simp: steam_ok_def)
  ultimately show "map fst (m_data db') = map fst (m_data db) @ [m_next_recno db]" "m_record rs' = m_next_recno db"
    "m_next_recno db' = m_next_recno db + 1" "m_nfields db' = m_nfields db" "m_fields db' = m_fields db"
    "smap_find (m_data db') (m_next_recno db) \<noteq> None"
    using assms(2) by (auto simp: AddRecord_def smap_set_last)
qed

section \<open>The two readings\<close>

lemma int_of_str:
  assumes "value_ok flags v"
  shows "int_of v = parse_u32 (str_of v)"
  using assms by (auto simp: int_of_def str_of_def value_ok_def)

lemma GetInteger_GetString:
  assumes "steam_ok db" "which < m_nfields db"
  shows "fst (GetInteger db rs which) = parse_u32 (GetString db rs which)"
proof (cases "m_eof rs \<or> smap_find (m_data db) (m_record rs) = None")
  case True
  then show ?thesis
    by (auto simp: GetInteger_value GetString_value value_at_def)
next
  case False
  then obtain row where row: "smap_find (m_data db) (m_record rs) = Some row" "\<not> m_eof rs" by auto
  then have "value_ok (m_fields db ! which) (row ! which)"
    using assms by (auto simp: steam_ok_def row_ok_def)
  then show ?thesis
    using row int_of_str by (auto simp: GetInteger_value GetString_value value_at_def)
qed

end
