(* ===== verification/MediaXmlWrite.thy ===== *)
theory MediaXmlWrite
  imports MediaXml SteamStore
begin

text \<open>
  What \<^verbatim>\<open>WriteXML\<close> prints: the document whose records are the records of the database, each with the
  text of its fields.
\<close>

section \<open>Records as documents\<close>

abbreviation newline :: xml where "newline \<equiv> Text [CHR 0x0A]"

definition field_xml :: "(nat \<Rightarrow> string) \<Rightarrow> u32 list option \<Rightarrow> nat \<Rightarrow> xml list" where
  "field_xml v kids i =
     (if i = field_CHILDREN then
        (case kids of None \<Rightarrow> []
         | Some ks \<Rightarrow>
            [Element ''children'' [] (newline # concat (map (\<lambda>k. [Text ''  '', Element ''child'' [] [Text (dec (unat k))], newline]) ks)), newline])
      else if v i = [] then [] else [Element (tagmap ! i) [] [Text (v i)], newline])"

definition record_xml :: "(nat \<Rightarrow> string) \<Rightarrow> u32 list option \<Rightarrow> xml" where
  "record_xml v kids = Element ''record'' [] (newline # concat (map (field_xml v kids) [0..<FIELD_COUNT]))"

definition db_xml :: "u32 \<Rightarrow> ((nat \<Rightarrow> string) \<times> u32 list option) list \<Rightarrow> xml list" where
  "db_xml schema rs =
     [Element ''db'' [(''schema'', dec (unat schema))] (newline # concat (map (\<lambda>(v, ks). [record_xml v ks, newline, newline]) rs)), newline]"

text \<open>The text of the fields of a record, and its children.\<close>

definition int_at :: "steam \<Rightarrow> u32 \<Rightarrow> nat \<Rightarrow> u32" where
  "int_at db r i = fst (GetInteger db \<lparr>m_record = r, m_eof = False\<rparr> i)"

definition string_at :: "steam \<Rightarrow> u32 \<Rightarrow> nat \<Rightarrow> string" where
  "string_at db r i = GetString db \<lparr>m_record = r, m_eof = False\<rparr> i"

definition text_at :: "steam \<Rightarrow> u32 \<Rightarrow> nat \<Rightarrow> string" where
  "text_at db r i = (case name_table i of Some names \<Rightarrow> names ! unat (int_at db r i) | None \<Rightarrow> string_at db r i)"

definition kids_at :: "steam \<Rightarrow> u32 \<Rightarrow> u32 list option" where
  "kids_at db r =
     (if string_at db r field_CHILDREN = [] then None
      else map_option (filter (\<lambda>k. k \<ge> 0x100)) (ChildrenToVector (string_at db r field_CHILDREN)))"

definition writable :: "steam \<Rightarrow> u32 \<Rightarrow> bool" where
  "writable db r \<longleftrightarrow> (\<forall>i<FIELD_COUNT. case name_table i of None \<Rightarrow> True | Some names \<Rightarrow> unat (int_at db r i) < length names) \<and>
     ChildrenToVector (string_at db r field_CHILDREN) \<noteq> None"

definition written :: "steam \<Rightarrow> u32 \<Rightarrow> bool" where
  "written db r \<longleftrightarrow> int_at db r field_ID \<ge> 0x100 \<and> int_at db r field_TYPE \<noteq> RADIO"

lemma at_same_reads:
  assumes "same_reads db db'"
  shows "int_at db' = int_at db" "string_at db' = string_at db" "text_at db' = text_at db" "kids_at db' = kids_at db"
    "writable db' = writable db" "written db' = written db"
proof -
  show i: "int_at db' = int_at db" and s: "string_at db' = string_at db"
    using same_reads_values [OF assms] by (auto simp: int_at_def string_at_def fun_eq_iff)
  then show "text_at db' = text_at db" "kids_at db' = kids_at db" "writable db' = writable db" "written db' = written db"
    unfolding fun_eq_iff text_at_def kids_at_def writable_def written_def i s by simp_all
qed

section \<open>The printed text\<close>

lemma dec_digit: "c \<in> set (dec n) \<Longrightarrow> of_char c \<in> {48..57 :: nat}"
  using dec_digits [of c n] by (auto simp: of_char_digit_char)

lemma xml_keeps_digit: "of_char c \<in> {48..57 :: nat} \<Longrightarrow> xml_keeps c \<and> xml_escape_char c = [c]"
proof -
  assume c: "of_char c \<in> {48..57 :: nat}"
  then have "32 \<le> byte c"
    by (simp add: word_le_nat_alt)
  moreover have "c \<noteq> CHR ''&''" "c \<noteq> CHR 0x22" "c \<noteq> CHR ''<''" "c \<noteq> CHR ''>''"
    using c by auto
  ultimately show ?thesis
    by (simp add: xml_keeps_def xml_escape_char_def)
qed

lemma XmlEscape_dec [simp]: "XmlEscape (dec n) = dec n"
proof -
  have "map xml_escape_char (dec n) = map (\<lambda>c. [c]) (dec n)"
    using dec_digit xml_keeps_digit by (intro map_cong) auto
  then have "XmlEscape (dec n) = concat (map (\<lambda>c. [c]) (dec n))"
    unfolding XmlEscape_def by (rule arg_cong)
  then show ?thesis
    by simp
qed

lemma filter_dec [simp]: "filter xml_keeps (dec n) = dec n"
  using dec_digit xml_keeps_digit by (intro filter_True) blast

lemma newline_keeps [simp]: "xml_keeps (CHR 0x0A)" "xml_escape_char (CHR 0x0A) = [CHR 0x0A]"
  "xml_keeps (CHR '' '')" "xml_escape_char (CHR '' '') = '' ''"
  by (simp_all add: xml_keeps_def xml_escape_char_def byte_def word_le_nat_alt)

lemma XmlEscape_newline [simp]: "XmlEscape [CHR 0x0A] = [CHR 0x0A]" "XmlEscape ''  '' = ''  ''"
  by (simp_all add: XmlEscape_def)

lemma write_children:
  "concat (map write_child ks) =
   concat (map render (concat (map (\<lambda>k. [Text ''  '', Element ''child'' [] [Text (dec (unat k))], newline]) (filter (\<lambda>k. k \<ge> 0x100) ks))))"
  by (induction ks) (auto simp: write_child_def)

lemma name_table_children [simp]: "name_table field_CHILDREN = None"
  by (simp add: name_table_def field_defs field_TYPE_def field_AUDIOCODEC_def field_VIDEOCODEC_def field_CONTAINER_def)

lemma write_field_renders:
  assumes "steam_ok db" "m_nfields db = FIELD_COUNT" "writable db r" "i < FIELD_COUNT"
  shows "\<exists>db'. write_field \<lparr>m_record = r, m_eof = False\<rparr> i db =
    Some (concat (map render (field_xml (text_at db r) (kids_at db r) i)), db') \<and> same_reads db db'"
proof (cases "name_table i")
  case (Some names)
  then have "i \<noteq> field_CHILDREN"
    by auto
  moreover have "unat (int_at db r i) < length names"
    using assms(3,4) Some by (auto simp: writable_def)
  moreover have "same_reads db (snd (GetInteger db \<lparr>m_record = r, m_eof = False\<rparr> i))"
    using assms(1,2,4) by (intro GetInteger_same_reads) simp_all
  ultimately show ?thesis
    using Some
    by (auto simp: write_field_def field_xml_def text_at_def int_at_def write_value_def Let_def split: prod.splits)
next
  case None
  have refl: "same_reads db db"
    by (rule same_reads_refl [OF assms(1)])
  show ?thesis
  proof (cases "i = field_CHILDREN")
    case True
    obtain vec where "ChildrenToVector (string_at db r field_CHILDREN) = Some vec"
      using assms(3) by (auto simp: writable_def)
    then show ?thesis
      using True refl write_children [of vec]
      by (auto simp: write_field_def field_xml_def kids_at_def string_at_def Let_def)
  next
    case False
    then show ?thesis
      using None refl by (auto simp: write_field_def field_xml_def text_at_def string_at_def write_value_def)
  qed
qed

lemma write_fields_renders:
  assumes "steam_ok db" "m_nfields db = FIELD_COUNT" "writable db r" "\<forall>i\<in>set is. i < FIELD_COUNT"
  shows "\<exists>db'. write_fields \<lparr>m_record = r, m_eof = False\<rparr> is db =
    Some (concat (map render (concat (map (field_xml (text_at db r) (kids_at db r)) is))), db') \<and> same_reads db db'"
  using assms
proof (induction "is" arbitrary: db)
  case Nil
  then show ?case
    using same_reads_refl by simp
next
  case (Cons i "is")
  obtain db1 where w: "write_field \<lparr>m_record = r, m_eof = False\<rparr> i db =
      Some (concat (map render (field_xml (text_at db r) (kids_at db r) i)), db1)" "same_reads db db1"
    using write_field_renders [of db r i] Cons.prems by auto
  note at = at_same_reads [OF w(2)]
  obtain db2 where "write_fields \<lparr>m_record = r, m_eof = False\<rparr> is db1 =
      Some (concat (map render (concat (map (field_xml (text_at db r) (kids_at db r)) is))), db2)" "same_reads db1 db2"
    using Cons.IH [of db1] Cons.prems same_reads_ok [OF w(2)] same_reads_frame(1) [OF w(2)] at by auto
  then show ?case
    using w same_reads_trans by auto
qed

definition record_text :: "steam \<Rightarrow> u32 \<Rightarrow> string" where
  "record_text db r =
     (if written db r then concat (map render [record_xml (text_at db r) (kids_at db r), newline, newline]) else [])"

lemma write_record_renders:
  assumes "steam_ok db" "m_nfields db = FIELD_COUNT" "written db r \<Longrightarrow> writable db r"
  shows "\<exists>db'. write_record \<lparr>m_record = r, m_eof = False\<rparr> db = Some (record_text db r, db') \<and> same_reads db db'"
proof -
  let ?rs = "\<lparr>m_record = r, m_eof = False\<rparr>"
  define db1 where "db1 = snd (GetInteger db ?rs field_ID)"
  define db2 where "db2 = snd (GetInteger db1 ?rs field_TYPE)"
  have s1: "same_reads db db1"
    unfolding db1_def using assms(1,2) by (intro GetInteger_same_reads) (simp_all add: field_defs)
  have s2: "same_reads db db2"
    unfolding db2_def using same_reads_ok [OF s1] same_reads_frame(1) [OF s1] assms(2)
    by (intro same_reads_trans [OF s1] GetInteger_same_reads) (simp_all add: field_defs field_TYPE_def)
  have g: "GetInteger db ?rs field_ID = (int_at db r field_ID, db1)" "GetInteger db1 ?rs field_TYPE = (int_at db r field_TYPE, db2)"
    using same_reads_values(2) [OF s1] by (auto simp: db1_def db2_def int_at_def intro: prod_eqI)
  have ok: "steam_ok db2" "m_nfields db2 = FIELD_COUNT"
    using same_reads_ok [OF s2] same_reads_frame(1) [OF s2] assms(2) by auto
  show ?thesis
  proof (cases "written db r")
    case True
    then obtain db3 where w: "write_fields ?rs [0..<FIELD_COUNT] db2 =
        Some (concat (map render (concat (map (field_xml (text_at db r) (kids_at db r)) [0..<FIELD_COUNT]))), db3)" "same_reads db2 db3"
      using write_fields_renders [OF ok, of r "[0..<FIELD_COUNT]"] assms(3) at_same_reads [OF s2] by auto
    have "\<not> int_at db r field_ID < 0x100"
      using True by (auto simp: written_def)
    then have "write_record ?rs db = Some (record_text db r, db3)"
      using True g w(1) by (simp add: write_record_def record_text_def record_xml_def written_def)
    then show ?thesis
      using same_reads_trans [OF s2 w(2)] by blast
  next
    case False
    then show ?thesis
      using g s1 s2 by (auto simp: write_record_def record_text_def written_def Let_def not_le)
  qed
qed

section \<open>The whole document\<close>

text \<open>The records that are printed, in order.\<close>

definition written_records :: "steam \<Rightarrow> u32 list" where
  "written_records db = filter (written db) (map fst (m_data db))"

lemma any_query [simp]: "sq_ok n None" "record_matches re None db = (\<lambda>r. True)"
  by (simp_all add: record_matches_def match_opt_def fun_eq_iff sq_ok_def)

lemma written_records_same: "same_reads db db' \<Longrightarrow> written_records db' = written_records db"
  using at_same_reads(6) same_reads_frame(5) by (simp add: written_records_def)

lemma write_records_renders:
  assumes "steam_ok db" "m_nfields db = FIELD_COUNT"
    "\<forall>r\<in>set (simple_pending any None rs db). written db r \<longrightarrow> writable db r"
  shows "\<exists>db'. write_records rs db = Some (concat (map (record_text db) (simple_pending any None rs db)), db') \<and> same_reads db db'"
  using assms
proof (induction "simple_pending any None rs db" arbitrary: rs db)
  case Nil
  then have "cursor.m_eof rs"
    by (auto simp: simple_pending_def split: if_splits)
  then show ?case
    using Nil same_reads_refl by (subst write_records.simps) (simp add: IsEOF_def simple_pending_def)
next
  case (Cons r rest)
  then have e: "\<not> cursor.m_eof rs" and r: "m_record rs = r"
    by (auto simp: simple_pending_def split: if_splits)
  then have rs: "rs = \<lparr>m_record = r, m_eof = False\<rparr>"
    by simp
  have p: "simple_pending any None rs db = r # rest"
    using Cons.hyps(2) by simp
  obtain db1 where w: "write_record rs db = Some (record_text db r, db1)" "same_reads db db1"
    using write_record_renders [of db r] Cons.prems p unfolding rs by auto
  note ok1 = same_reads_ok [OF w(2)] and at1 = at_same_reads [OF w(2)]
  have p1: "simple_pending any None rs db1 = r # rest"
    using p same_reads_frame(5) [OF w(2)] e by (auto simp: simple_pending_def upper_bound_keys)
  obtain rs' db2 where m: "Simple_MoveNext any None rs db1 = Some (rs', db2)" "same_reads db1 db2"
    "simple_pending any None rs' db2 = rest"
    using Simple_MoveNext_pending [OF ok1, of None rs any] e p1 by auto
  note s2 = same_reads_trans [OF w(2) m(2)]
  note at2 = at_same_reads [OF s2]
  have "record_text db2 = record_text db"
    by (simp add: fun_eq_iff record_text_def at2)
  then obtain db3 where t: "write_records rs' db2 = Some (concat (map (record_text db) rest), db3)" "same_reads db2 db3"
    using Cons.hyps(1) [of rs' db2] m(3) same_reads_ok [OF s2] same_reads_frame(1) [OF s2] Cons.prems p at2 by auto
  then show ?case
    using w m(1) e p same_reads_trans [OF s2 t(2)] by (subst write_records.simps) (simp add: IsEOF_def)
qed

definition media_at :: "steam \<Rightarrow> u32 \<Rightarrow> (nat \<Rightarrow> string) \<times> u32 list option" where
  "media_at db r = (text_at db r, kids_at db r)"

lemma concat_records:
  "concat (map (record_text db) rs) =
   concat (map render (concat (map (\<lambda>(v, ks). [record_xml v ks, newline, newline]) (map (media_at db) (filter (written db) rs)))))"
  by (induction rs) (auto simp: record_text_def media_at_def)

lemma WriteXML_renders:
  assumes "steam_ok db" "m_nfields db = FIELD_COUNT" "\<forall>r\<in>set (written_records db). writable db r"
  shows "\<exists>db'. WriteXML schema db =
    Some (''<?xml version=\"1.0\" encoding=\"UTF-8\"?>'' @ [CHR 0x0A] @
      concat (map render (db_xml schema (map (media_at db) (written_records db)))), db') \<and> same_reads db db'"
proof -
  obtain rs db1 where s: "SimpleRecordset any None db = Some (rs, db1)" "same_reads db db1"
    "simple_pending any None rs db1 = map fst (m_data db)"
    using SimpleRecordset_pending [OF assms(1), of None any] by auto
  note at = at_same_reads [OF s(2)]
  have "record_text db1 = record_text db"
    by (simp add: fun_eq_iff record_text_def at)
  then obtain db2 where w: "write_records rs db1 = Some (concat (map (record_text db) (map fst (m_data db))), db2)" "same_reads db1 db2"
    using write_records_renders [of db1 rs] same_reads_ok [OF s(2)] same_reads_frame(1) [OF s(2)] assms(2,3) s(3) at
    by (auto simp: written_records_def)
  then have "WriteXML schema db = Some (xml_header schema @ concat (map (record_text db) (map fst (m_data db))) @ ''</db>'' @ [CHR 0x0A], db2)"
    using s by (simp add: WriteXML_def)
  moreover note concat_records [of db "map fst (m_data db)", folded written_records_def]
  ultimately show ?thesis
    using same_reads_trans [OF s(2) w(2)] by (simp add: xml_header_def db_xml_def del: map_map)
qed

end
