(* ===== verification/MediaXmlRead.thy ===== *)
theory MediaXmlRead
  imports MediaXmlWrite
begin

text \<open>
  What \<^verbatim>\<open>ReadXML\<close> makes of what \<^verbatim>\<open>WriteXML\<close> prints: the observer is run on the events of the
  document, first on one field, then on a record, then on all of them.
\<close>

section \<open>Runs of the observer\<close>

lemma mp_run_append [simp]: "mp_run (xs @ ys) p = do { p \<leftarrow> mp_run xs p; mp_run ys p }"
  by (induction xs p rule: mp_run.induct) (auto split: bind_splits)

lemma mp_OnContent_append: "mp_OnContent t (mp_OnContent s p) = mp_OnContent (s @ t) p"
  by (auto simp: mp_OnContent_def)

lemma mp_run_chars: "mp_run (map (\<lambda>c. OnContent [c]) s) p = Some (mp_OnContent s p)"
proof (induction s arbitrary: p)
  case Nil
  then show ?case by (simp add: mp_OnContent_def)
next
  case (Cons c s)
  then show ?case
    using mp_OnContent_append [of s "[c]" p] by (simp add: mp_event_def)
qed

text \<open>How the parser cuts the content makes no difference.\<close>

lemma mp_run_atoms: "mp_run (atoms es) p = mp_run es p"
proof (induction es arbitrary: p rule: atoms.induct)
  case (2 s es)
  then show ?case by (simp add: mp_run_chars mp_event_def)
qed (simp_all split: bind_splits)

definition resting :: "media_parser \<Rightarrow> bool" where
  "resting p \<longleftrightarrow> mp_field p = FIELD_COUNT \<and> \<not> mp_in_child p \<and> length (mp_fields p) = FIELD_COUNT"

lemma resting_content [simp]: "resting p \<Longrightarrow> mp_OnContent s p = p"
  by (simp add: resting_def mp_OnContent_def)

lemma tag_fields: "\<forall>i\<in>set [0..<30]. tag_field (tagmap ! i) = i \<and> tagmap ! i \<noteq> ''record'' \<and> tagmap ! i \<noteq> ''child''"
  by code_simp

lemma other_tags [simp]: "tag_field ''?xml'' = FIELD_COUNT" "tag_field ''db'' = FIELD_COUNT"
  "tagmap ! field_CHILDREN = ''children''"
  by code_simp+

lemma tag_field_tagmap:
  assumes "i < FIELD_COUNT"
  shows "tag_field (tagmap ! i) = i" "tagmap ! i \<noteq> ''record''" "tagmap ! i \<noteq> ''child''"
  using tag_fields assms by (simp_all add: FIELD_COUNT_def)

section \<open>One field\<close>

definition kid_list :: "u32 list option \<Rightarrow> u32 list" where
  "kid_list kids = (case kids of None \<Rightarrow> [] | Some ks \<Rightarrow> ks)"

text \<open>The observer has collected some more, of the fields in a set.\<close>

definition collected :: "media_parser \<Rightarrow> media_parser \<Rightarrow> (nat \<Rightarrow> string) \<Rightarrow> u32 list \<Rightarrow> nat set \<Rightarrow> bool" where
  "collected p p' v ks A \<longleftrightarrow> resting p' \<and> mp_db p' = mp_db p \<and> mp_ids p' = mp_ids p \<and> mp_children p' = mp_children p @ ks \<and>
     (\<forall>j<FIELD_COUNT. j \<noteq> field_CHILDREN \<longrightarrow> mp_fields p' ! j = (if j \<in> A \<and> v j \<noteq> [] then v j else mp_fields p ! j))"

lemma collected_trans:
  "collected p p' v ks A \<Longrightarrow> collected p' p'' v ks' B \<Longrightarrow> collected p p'' v (ks @ ks') (A \<union> B)"
  by (auto simp: collected_def)

lemma value_runs:
  assumes "resting p" "i < FIELD_COUNT" "i \<noteq> field_CHILDREN" "filter xml_keeps (v i) = v i" "v i \<noteq> []"
  shows "\<exists>p'. mp_run (xml_events (Element (tagmap ! i) [] [Text (v i)])) p = Some p' \<and> collected p p' v [] {i}"
  using assms
  by (auto simp: mp_event_def mp_OnBegin_def mp_OnContent_def mp_OnEnd_def tag_field_tagmap resting_def collected_def Let_def)

lemma child_runs:
  "\<exists>p'. mp_run (concat (map xml_events (concat (map (\<lambda>k. [Text ''  '', Element ''child'' [] [Text (dec (unat k))], newline]) ks)))) p = Some p' \<and>
     (if ks = [] then p' = p else mp_field p' = FIELD_COUNT \<and> \<not> mp_in_child p') \<and> mp_db p' = mp_db p \<and> mp_ids p' = mp_ids p \<and>
     mp_children p' = mp_children p @ ks \<and> mp_fields p' = mp_fields p"
proof (induction ks arbitrary: p)
  case (Cons k ks)
  define q where "q = (mp_OnContent ''  '' p)\<lparr>mp_field := FIELD_COUNT, mp_in_child := False, mp_value := dec (unat k), mp_children := mp_children p @ [k]\<rparr>"
  let ?f = "\<lambda>k. [Text ''  '', Element ''child'' [] [Text (dec (unat k))], newline]"
  have "mp_run (concat (map xml_events (?f k)) @ concat (map xml_events (concat (map ?f ks)))) p =
      mp_run (concat (map xml_events (concat (map ?f ks)))) q"
    unfolding mp_run_append by (cases p) (simp add: q_def mp_event_def mp_OnBegin_def mp_OnContent_def mp_OnEnd_def)
  then have "mp_run (concat (map xml_events (concat (map ?f (k # ks))))) p = mp_run (concat (map xml_events (concat (map ?f ks)))) q"
    by (simp only: list.map concat.simps map_append concat_append append_assoc)
  moreover have "mp_field q = FIELD_COUNT" "\<not> mp_in_child q" "mp_db q = mp_db p" "mp_ids q = mp_ids p" "mp_children q = mp_children p @ [k]"
    "mp_fields q = mp_fields p"
    by (simp_all add: q_def mp_OnContent_def)
  ultimately show ?case
    using Cons.IH [of q] by (simp only:) (auto split: if_splits)
qed simp

lemma children_run:
  assumes "resting p"
  shows "\<exists>p'. mp_run (concat (map xml_events (field_xml v kids field_CHILDREN))) p = Some p' \<and> collected p p' v (kid_list kids) {field_CHILDREN}"
proof (cases kids)
  case None
  then show ?thesis
    using assms by (simp add: field_xml_def kid_list_def collected_def)
next
  case (Some ks)
  let ?es = "concat (map xml_events (concat (map (\<lambda>k. [Text ''  '', Element ''child'' [] [Text (dec (unat k))], newline]) ks)))"
  define q where "q = mp_OnContent [CHR 0x0A] (mp_OnBegin ''children'' p)"
  obtain p1 where p1: "mp_run ?es q = Some p1" "if ks = [] then p1 = q else mp_field p1 = FIELD_COUNT \<and> \<not> mp_in_child p1"
    "mp_db p1 = mp_db q" "mp_ids p1 = mp_ids q" "mp_children p1 = mp_children q @ ks" "mp_fields p1 = mp_fields q"
    using child_runs [of ks q] by blast
  have t: "tag_field ''children'' = field_CHILDREN"
    using tag_field_tagmap(1) [of field_CHILDREN] by (simp add: field_defs tagmap_def)
  have q: "mp_field q = field_CHILDREN" "\<not> mp_in_child q" "mp_db q = mp_db p" "mp_ids q = mp_ids p" "mp_children q = mp_children p"
    "mp_fields q = mp_fields p" "length (mp_fields q) = FIELD_COUNT"
    using assms t by (simp_all add: q_def mp_OnBegin_def mp_OnContent_def resting_def Let_def)
  obtain p2 where p2: "mp_OnEnd ''children'' p1 = Some p2" "collected p p2 v ks {field_CHILDREN}"
    using p1(2-6) q by (cases "ks = []") (auto simp: mp_OnEnd_def collected_def resting_def Let_def field_defs)
  moreover have "resting p2"
    using p2(2) by (simp add: collected_def)
  moreover have "mp_run (concat (map xml_events (field_xml v kids field_CHILDREN))) p =
      do { p1 \<leftarrow> mp_run ?es q; p2 \<leftarrow> mp_OnEnd ''children'' p1; Some (mp_OnContent [CHR 0x0A] p2) }"
    by (simp add: Some field_xml_def mp_event_def q_def split: bind_splits)
  ultimately show ?thesis
    using p1(1) Some by (simp add: kid_list_def)
qed

lemma field_runs:
  assumes "resting p" "i < FIELD_COUNT" "i \<noteq> field_CHILDREN \<Longrightarrow> filter xml_keeps (v i) = v i"
  shows "\<exists>p'. mp_run (concat (map xml_events (field_xml v kids i))) p = Some p' \<and>
    collected p p' v (if i = field_CHILDREN then kid_list kids else []) {i}"
proof (cases "i = field_CHILDREN")
  case True
  then show ?thesis
    using children_run [OF assms(1)] by simp
next
  case False
  show ?thesis
  proof (cases "v i = []")
    case True
    then show ?thesis
      using False assms(1) by (simp add: field_xml_def collected_def)
  next
    case nonempty: False
    obtain p' where p': "mp_run (xml_events (Element (tagmap ! i) [] [Text (v i)])) p = Some p'" "collected p p' v [] {i}"
      using value_runs [of p i v] assms False nonempty by auto
    moreover have "mp_run (xml_events newline) p' = Some p'"
      using p'(2) by (simp add: collected_def mp_event_def)
    moreover have "field_xml v kids i = [Element (tagmap ! i) [] [Text (v i)], newline]"
      using False nonempty by (simp add: field_xml_def)
    ultimately have "mp_run (concat (map xml_events (field_xml v kids i))) p = Some p'"
      by (simp only: list.map concat.simps mp_run_append append_Nil2 Option.bind.bind_lunit)
    then show ?thesis
      using p'(2) False by auto
  qed
qed

lemma fields_run:
  assumes "resting p" "\<forall>i\<in>set is. i < FIELD_COUNT \<and> (i \<noteq> field_CHILDREN \<longrightarrow> filter xml_keeps (v i) = v i)" "distinct is"
  shows "\<exists>p'. mp_run (concat (map xml_events (concat (map (field_xml v kids) is)))) p = Some p' \<and>
    collected p p' v (if field_CHILDREN \<in> set is then kid_list kids else []) (set is)"
  using assms
proof (induction "is" arbitrary: p)
  case Nil
  then show ?case
    by (simp add: collected_def)
next
  case (Cons i "is")
  obtain p1 where p1: "mp_run (concat (map xml_events (field_xml v kids i))) p = Some p1"
    "collected p p1 v (if i = field_CHILDREN then kid_list kids else []) {i}"
    using field_runs [of p i v kids] Cons.prems by auto
  then obtain p2 where p2: "mp_run (concat (map xml_events (concat (map (field_xml v kids) is)))) p1 = Some p2"
    "collected p1 p2 v (if field_CHILDREN \<in> set is then kid_list kids else []) (set is)"
    using Cons.IH [of p1] Cons.prems by (auto simp: collected_def)
  show ?case
    using collected_trans [OF p1(2) p2(2)] p1(1) p2(1) Cons.prems(3) by (cases "i = field_CHILDREN") auto
qed

section \<open>Storing a record\<close>

text \<open>What the fields of a stored record read as.\<close>

definition field_stored :: "steam \<Rightarrow> u32 \<Rightarrow> (nat \<Rightarrow> string) \<Rightarrow> u32 list \<Rightarrow> nat \<Rightarrow> bool" where
  "field_stored db r v ks i \<longleftrightarrow>
     (case name_table i of
        Some names \<Rightarrow> int_at db r i = rev_map names (v i)
      | None \<Rightarrow>
          (let s = (if i = field_CHILDREN then VectorToChildren ks else v i) in
           int_at db r i = parse_u32 s \<and> (\<not> is_int_type (m_fields db ! i) \<longrightarrow> string_at db r i = s)))"

definition reads_but :: "steam \<Rightarrow> steam \<Rightarrow> (u32 \<Rightarrow> nat \<Rightarrow> bool) \<Rightarrow> bool" where
  "reads_but db db' P \<longleftrightarrow> (\<forall>r f. \<not> P r f \<longrightarrow> string_at db' r f = string_at db r f \<and> int_at db' r f = int_at db r f)"

lemma reads_but_trans: "reads_but db db' P \<Longrightarrow> reads_but db' db'' Q \<Longrightarrow> reads_but db db'' (\<lambda>r f. P r f \<or> Q r f)"
  by (simp add: reads_but_def)

lemma field_stored_cong:
  "string_at db' r i = string_at db r i \<Longrightarrow> int_at db' r i = int_at db r i \<Longrightarrow> m_fields db' = m_fields db \<Longrightarrow>
     field_stored db' r v ks i \<longleftrightarrow> field_stored db r v ks i"
  by (auto simp: field_stored_def Let_def split: option.splits)

lemma reads_after_at:
  assumes "reads_after db (rc, db') \<lparr>m_record = r, m_eof = False\<rparr> i s n"
  shows "string_at db' r i = s" "int_at db' r i = n" "reads_but db db' (\<lambda>r' f. r' = r \<and> f = i)"
  using assms by (auto simp: reads_after_def string_at_def int_at_def reads_but_def)

lemma store_field_stored:
  assumes "steam_ok db" "m_nfields db = FIELD_COUNT" "smap_find (m_data db) r \<noteq> None" "i < FIELD_COUNT" "i \<noteq> field_CHILDREN \<Longrightarrow> fs ! i = v i"
    and db': "db' = store_field fs ks \<lparr>m_record = r, m_eof = False\<rparr> db i"
  shows "steam_ok db' \<and> same_shape db db' \<and> field_stored db' r v ks i \<and> reads_but db db' (\<lambda>r' f. r' = r \<and> f = i)"
proof -
  let ?rs = "\<lparr>m_record = r, m_eof = False\<rparr>"
  show ?thesis
  proof (cases "name_table i")
    case (Some names)
    then have "i \<noteq> field_CHILDREN"
      by auto
    then have d: "db' = snd (SetInteger db ?rs i (rev_map names (v i)))"
      using Some db' assms(5) by (simp add: store_field_def)
    note a = SetInteger_reads [OF assms(1), of i ?rs "rev_map names (v i)"]
    have ok: "steam_ok db'" "same_shape db db'"
      using SetInteger_ok [OF assms(1)] SetInteger_shape [OF assms(1)] assms(2,4) unfolding d by simp_all
    obtain s where "reads_after db (fst (SetInteger db ?rs i (rev_map names (v i))), db') ?rs i s (rev_map names (v i))"
      using a assms(2-4) by (simp add: d)
    from reads_after_at [OF this] show ?thesis
      using ok Some by (simp add: field_stored_def)
  next
    case None
    define s where "s = (if i = field_CHILDREN then VectorToChildren ks else v i)"
    have d: "db' = snd (SetString db ?rs i s)"
      using None db' assms(5) by (simp add: store_field_def s_def)
    note a = SetString_reads_after [OF assms(1), of i ?rs s]
    have ok: "steam_ok db'" "same_shape db db'"
      using SetString_ok [OF assms(1)] SetString_shape [OF assms(1)] assms(2,4) unfolding d by simp_all
    have "reads_after db (fst (SetString db ?rs i s), db') ?rs i (if is_int_type (m_fields db ! i) then dec (unat (parse_u32 s)) else s) (parse_u32 s)"
      using a assms(2-4) by (simp add: d)
    from reads_after_at [OF this] show ?thesis
      using ok None by (simp add: field_stored_def same_shape_def flip: s_def)
  qed
qed

lemma same_shape_find: "same_shape db db' \<Longrightarrow> steam_ok db \<Longrightarrow> steam_ok db' \<Longrightarrow> smap_find (m_data db') r = None \<longleftrightarrow> smap_find (m_data db) r = None"
  unfolding same_shape_def smap_find_None by (metis list.set_map)

lemma store_fields_stored:
  assumes "steam_ok db" "m_nfields db = FIELD_COUNT" "smap_find (m_data db) r \<noteq> None" "\<forall>i\<in>set is. i < FIELD_COUNT \<and> (i \<noteq> field_CHILDREN \<longrightarrow> fs ! i = v i)"
    "distinct is" and db': "db' = foldl (store_field fs ks \<lparr>m_record = r, m_eof = False\<rparr>) db is"
  shows "steam_ok db' \<and> same_shape db db' \<and> (\<forall>i\<in>set is. field_stored db' r v ks i) \<and> reads_but db db' (\<lambda>r' f. r' = r \<and> f \<in> set is)"
  using assms
proof (induction "is" arbitrary: db)
  case Nil
  then show ?case
    by (simp add: reads_but_def)
next
  case (Cons i "is")
  define db1 where "db1 = store_field fs ks \<lparr>m_record = r, m_eof = False\<rparr> db i"
  have 1: "steam_ok db1" "same_shape db db1" "field_stored db1 r v ks i" "reads_but db db1 (\<lambda>r' f. r' = r \<and> f = i)"
    using store_field_stored [OF Cons.prems(1-3), of i fs v db1 ks] Cons.prems(4) db1_def by auto
  have ex: "smap_find (m_data db1) r \<noteq> None" and n: "m_nfields db1 = FIELD_COUNT"
    using same_shape_find [OF 1(2) Cons.prems(1) 1(1)] 1(2) Cons.prems(2,3) by (auto simp: same_shape_def)
  have "\<forall>i\<in>set is. i < FIELD_COUNT \<and> (i \<noteq> field_CHILDREN \<longrightarrow> fs ! i = v i)" "distinct is" "i \<notin> set is"
    "db' = foldl (store_field fs ks \<lparr>m_record = r, m_eof = False\<rparr>) db1 is"
    using Cons.prems(4-6) by (simp_all add: db1_def)
  from this(3) Cons.IH [OF 1(1) n ex this(1,2,4)]
  have 2: "steam_ok db'" "same_shape db1 db'" "\<forall>i\<in>set is. field_stored db' r v ks i" "reads_but db1 db' (\<lambda>r' f. r' = r \<and> f \<in> set is)"
    "i \<notin> set is"
    by blast+
  have "string_at db' r i = string_at db1 r i" "int_at db' r i = int_at db1 r i" "m_fields db' = m_fields db1"
    using 2(2,4,5) by (auto simp: reads_but_def same_shape_def)
  from field_stored_cong [OF this] have "field_stored db' r v ks i"
    using 1(3) by simp
  moreover have "reads_but db db' (\<lambda>r' f. r' = r \<and> f \<in> set (i # is))"
    using reads_but_trans [OF 1(4) 2(4)] by (auto simp: reads_but_def)
  ultimately show ?case
    using 2(1,3) same_shape_trans [OF 1(2) 2(2)] by simp
qed

definition record_added :: "steam \<Rightarrow> steam \<Rightarrow> (nat \<Rightarrow> string) \<Rightarrow> u32 list \<Rightarrow> bool" where
  "record_added db db' v ks \<longleftrightarrow> steam_ok db' \<and> m_nfields db' = m_nfields db \<and> m_fields db' = m_fields db \<and>
     m_next_recno db' = m_next_recno db + 1 \<and> map fst (m_data db') = map fst (m_data db) @ [m_next_recno db] \<and>
     (\<forall>i<FIELD_COUNT. field_stored db' (m_next_recno db) v ks i) \<and> reads_but db db' (\<lambda>r f. r = m_next_recno db)"

lemma store_record_added:
  assumes "steam_ok db" "m_nfields db = FIELD_COUNT" "m_next_recno db \<noteq> - 1" "\<forall>i<FIELD_COUNT. i \<noteq> field_CHILDREN \<longrightarrow> fs ! i = v i"
  shows "\<exists>db'. store_record fs ks db = Some db' \<and> record_added db db' v ks"
proof -
  obtain rs db1 where s: "SimpleRecordset any None db = Some (rs, db1)" "same_reads db db1"
    using SimpleRecordset_pending [OF assms(1), of None any] any_query(1) by blast
  obtain rc rs' db2 where add: "AddRecord db1 rs = (rc, rs', db2)"
    by (cases "AddRecord db1 rs") auto
  define db3 where "db3 = foldl (store_field fs ks rs') db2 [0..<FIELD_COUNT]"
  let ?r = "m_next_recno db"
  have nxt: "m_next_recno db1 = ?r"
    using s(2) by (simp add: same_reads_def)
  note ok1 = same_reads_ok [OF s(2)] and f1 = same_reads_frame [OF s(2)]
  note keys = AddRecord_keys [OF ok1 add, unfolded nxt f1]
  have new: "\<not> cursor.m_eof rs'" "\<forall>r f. r \<noteq> ?r \<longrightarrow> value_at db2 r f = value_at db1 r f"
    using AddRecord_new [OF ok1 _ add] assms(3) nxt keys(2) by auto
  then have rs': "rs' = record_at ?r"
    using keys(2) by simp
  have ok2: "steam_ok db2"
    using AddRecord_ok [OF ok1, of rs] add nxt assms(3) by simp
  have "m_nfields db2 = FIELD_COUNT" "smap_find (m_data db2) ?r \<noteq> None"
    "\<forall>i\<in>set [0..<FIELD_COUNT]. i < FIELD_COUNT \<and> (i \<noteq> field_CHILDREN \<longrightarrow> fs ! i = v i)" "distinct [0..<FIELD_COUNT]"
    using keys assms(2,4) by auto
  from store_fields_stored [OF ok2 this, of db3 ks]
  have 3: "steam_ok db3" "same_shape db2 db3" "\<forall>i\<in>set [0..<FIELD_COUNT]. field_stored db3 ?r v ks i"
    "reads_but db2 db3 (\<lambda>r' f. r' = ?r \<and> f \<in> set [0..<FIELD_COUNT])"
    unfolding db3_def rs' by blast+
  have "reads_but db db2 (\<lambda>r f. r = ?r)"
    unfolding reads_but_def at_same_reads(1,2) [OF s(2), symmetric]
    using new(2) by (auto simp: string_at_def int_at_def GetString_value GetInteger_value)
  from reads_but_trans [OF this 3(4)] have "reads_but db db3 (\<lambda>r f. r = ?r)"
    by (auto simp: reads_but_def)
  moreover have "store_record fs ks db = Some db3"
    using s(1) add by (simp add: store_record_def Commit_def db3_def)
  ultimately show ?thesis
    using 3 keys by (auto simp: record_added_def same_shape_def)
qed

section \<open>Records\<close>

lemma record_run:
  assumes "resting p" "\<forall>i<FIELD_COUNT. i \<noteq> field_CHILDREN \<longrightarrow> filter xml_keeps (v i) = v i"
    "parse_u32 (v field_ID) \<notin> set (mp_ids p)"
    "steam_ok (mp_db p)" "m_nfields (mp_db p) = FIELD_COUNT" "m_next_recno (mp_db p) \<noteq> - 1"
  shows "\<exists>p'. mp_run (xml_events (record_xml v kids)) p = Some p' \<and> resting p' \<and> mp_ids p' = parse_u32 (v field_ID) # mp_ids p \<and>
    record_added (mp_db p) (mp_db p') v (kid_list kids)"
proof -
  define q where "q = mp_OnBegin ''record'' p"
  have q: "resting q" "mp_db q = mp_db p" "mp_ids q = mp_ids p" "mp_children q = []" "\<forall>j<FIELD_COUNT. mp_fields q ! j = []"
    by (simp_all add: q_def mp_OnBegin_def resting_def Let_def)
  obtain p1 where p1: "mp_run (concat (map xml_events (concat (map (field_xml v kids) [0..<FIELD_COUNT])))) q = Some p1"
    "collected q p1 v (kid_list kids) (set [0..<FIELD_COUNT])"
    using fields_run [OF q(1), of "[0..<FIELD_COUNT]" v kids] assms(2) by (auto simp: field_defs)
  have fs: "\<forall>i<FIELD_COUNT. i \<noteq> field_CHILDREN \<longrightarrow> mp_fields p1 ! i = v i"
    using p1(2) q(5) by (auto simp: collected_def)
  then have id: "mp_fields p1 ! field_ID = v field_ID"
    by (simp add: field_defs)
  have p1': "resting p1" "mp_db p1 = mp_db p" "mp_ids p1 = mp_ids p" "mp_children p1 = kid_list kids"
    using p1(2) q by (simp_all add: collected_def)
  obtain db' where db': "store_record (mp_fields p1) (kid_list kids) (mp_db p) = Some db'" "record_added (mp_db p) db' v (kid_list kids)"
    using store_record_added [OF assms(4-6) fs] by blast
  have "mp_OnEnd ''record'' p1 = Some (p1\<lparr>mp_field := FIELD_COUNT, mp_in_child := False, mp_ids := parse_u32 (v field_ID) # mp_ids p, mp_db := db'\<rparr>)"
    using p1' db'(1) id assms(3) by (simp add: mp_OnEnd_def resting_def Let_def)
  moreover have "mp_run (xml_events (record_xml v kids)) p = do { p1 \<leftarrow> mp_run (concat (map xml_events (concat (map (field_xml v kids) [0..<FIELD_COUNT])))) q; mp_OnEnd ''record'' p1 }"
    using q(1) by (simp add: record_xml_def mp_event_def split: bind_splits flip: q_def)
  ultimately show ?thesis
    using p1(1) p1'(1) db'(2) by (simp add: resting_def)
qed

text \<open>The records of a database that are new in another, in order, hold what was read.\<close>

definition records_added :: "steam \<Rightarrow> steam \<Rightarrow> ((nat \<Rightarrow> string) \<times> u32 list option) list \<Rightarrow> bool" where
  "records_added db db' recs \<longleftrightarrow> steam_ok db' \<and> m_nfields db' = m_nfields db \<and> m_fields db' = m_fields db \<and>
     (\<exists>new. map fst (m_data db') = map fst (m_data db) @ new \<and>
        list_all2 (\<lambda>(v, ks) r. \<forall>i<FIELD_COUNT. field_stored db' r v (kid_list ks) i) recs new) \<and>
     reads_but db db' (\<lambda>r f. r \<notin> set (map fst (m_data db)))"

lemma records_added_Cons:
  assumes "steam_ok db" "record_added db db1 v (kid_list ks)" "records_added db1 db2 recs"
  shows "records_added db db2 ((v, ks) # recs)"
proof -
  let ?r = "m_next_recno db"
  have 1: "map fst (m_data db1) = map fst (m_data db) @ [?r]" "\<forall>i<FIELD_COUNT. field_stored db1 ?r v (kid_list ks) i"
    "reads_but db db1 (\<lambda>r f. r = ?r)" "m_nfields db1 = m_nfields db" "m_fields db1 = m_fields db"
    using assms(2) by (auto simp: record_added_def)
  obtain new where new: "map fst (m_data db2) = map fst (m_data db1) @ new"
    "list_all2 (\<lambda>(v, ks) r. \<forall>i<FIELD_COUNT. field_stored db2 r v (kid_list ks) i) recs new"
    and 2: "reads_but db1 db2 (\<lambda>r f. r \<notin> set (map fst (m_data db1)))" "steam_ok db2" "m_nfields db2 = m_nfields db1" "m_fields db2 = m_fields db1"
    using assms(3) by (auto simp: records_added_def)
  have "\<forall>i. string_at db2 ?r i = string_at db1 ?r i \<and> int_at db2 ?r i = int_at db1 ?r i"
    using 2(1) unfolding 1(1) reads_but_def by simp
  then have "\<forall>i<FIELD_COUNT. field_stored db2 ?r v (kid_list ks) i"
    using 1(2) field_stored_cong [of db2 ?r _ db1] 2(4) by blast
  moreover have "?r \<notin> set (map fst (m_data db))"
    using assms(1) smap_find_None [of "m_data db" ?r] by (cases "smap_find (m_data db) ?r") (auto simp: steam_ok_def)
  then have "reads_but db db2 (\<lambda>r f. r \<notin> set (map fst (m_data db)))"
    using reads_but_trans [OF 1(3) 2(1)] unfolding 1(1) reads_but_def set_append by (metis UnI1)
  ultimately show ?thesis
    using new 1(1,4,5) 2(2-4) unfolding records_added_def by (intro conjI exI [of _ "?r # new"]) simp_all
qed

lemma records_run:
  assumes "resting p" "\<forall>(v, ks)\<in>set recs. \<forall>i<FIELD_COUNT. i \<noteq> field_CHILDREN \<longrightarrow> filter xml_keeps (v i) = v i"
    "distinct (map (\<lambda>(v, ks). parse_u32 (v field_ID)) recs)" "set (map (\<lambda>(v, ks). parse_u32 (v field_ID)) recs) \<inter> set (mp_ids p) = {}"
    "steam_ok (mp_db p)" "m_nfields (mp_db p) = FIELD_COUNT" "unat (m_next_recno (mp_db p)) + length recs < 2 ^ 32"
  shows "\<exists>p'. mp_run (concat (map xml_events (concat (map (\<lambda>(v, ks). [record_xml v ks, newline, newline]) recs)))) p = Some p' \<and>
    resting p' \<and> records_added (mp_db p) (mp_db p') recs"
  using assms
proof (induction recs arbitrary: p)
  case Nil
  then show ?case
    by (simp add: records_added_def reads_but_def)
next
  case (Cons rec recs)
  obtain v ks where rec: "rec = (v, ks)"
    by (cases rec)
  have n: "unat (m_next_recno (mp_db p) + 1) = Suc (unat (m_next_recno (mp_db p)))"
    using Cons.prems(7) by (intro unat_Suc) simp
  then have "m_next_recno (mp_db p) \<noteq> - 1"
    by auto
  then obtain p1 where p1: "mp_run (xml_events (record_xml v ks)) p = Some p1" "resting p1" "mp_ids p1 = parse_u32 (v field_ID) # mp_ids p"
    "record_added (mp_db p) (mp_db p1) v (kid_list ks)"
    using record_run [OF Cons.prems(1), of v ks] Cons.prems(2-6) rec by auto
  then have next_ok: "steam_ok (mp_db p1)" "m_nfields (mp_db p1) = FIELD_COUNT" "unat (m_next_recno (mp_db p1)) + length recs < 2 ^ 32"
    using Cons.prems(6,7) n by (simp_all add: record_added_def)
  obtain p2 where p2: "mp_run (concat (map xml_events (concat (map (\<lambda>(v, ks). [record_xml v ks, newline, newline]) recs)))) p1 = Some p2"
    "resting p2" "records_added (mp_db p1) (mp_db p2) recs"
    using Cons.IH [OF p1(2) _ _ _ next_ok] Cons.prems(2-4) rec p1(3) by auto
  have "mp_run (xml_events newline) p1 = Some p1"
    using p1(2) by (simp add: mp_event_def)
  then have "mp_run (concat (map xml_events (concat (map (\<lambda>(v, ks). [record_xml v ks, newline, newline]) (rec # recs))))) p = Some p2"
    unfolding rec list.map concat.simps map_append concat_append mp_run_append prod.case p1(1) Option.bind.bind_lunit p2(1)
    by (simp only: p2(1) mp_run.simps(1) Option.bind.bind_lunit)
  then show ?case
    using p2(2) records_added_Cons [OF Cons.prems(5) p1(4) p2(3)] rec by blast
qed

section \<open>The whole document\<close>

text \<open>The line before the document.\<close>

definition xml_version :: "(string \<times> string) list" where
  "xml_version = [(''version'', ''1.0''), (''encoding'', ''UTF-8'')]"

lemma xml_declaration:
  "declaration_text ''xml'' xml_version = ''<?xml version=\"1.0\" encoding=\"UTF-8\"?>''"
  "declaration_events ''xml'' xml_version =
     [OnBegin ''?xml'', OnAttribute ''version'' ''1.0'', OnAttribute ''encoding'' ''UTF-8'', OnAttribute ''?'' []]"
  "tag_ok ''?xml''" "xml_version \<noteq> []" "\<forall>x\<in>set xml_version. attr_ok x"
  by code_simp+

lemma tags_ok: "\<forall>i<30. tag_ok (tagmap ! i)"
proof -
  have "\<forall>i\<in>set [0..<30]. tag_ok (tagmap ! i)"
    by code_simp
  then show ?thesis
    by simp
qed

lemma field_xml_ok: "i < FIELD_COUNT \<Longrightarrow> \<forall>x\<in>set (field_xml v ks i). xml_ok x"
proof -
  assume i: "i < FIELD_COUNT"
  have "tag_ok ''children''" "tag_ok ''child''"
    by code_simp+
  then show ?thesis
    using tags_ok i by (auto simp: field_xml_def FIELD_COUNT_def split: option.splits)
qed

lemma record_xml_ok: "xml_ok (record_xml v ks)"
proof -
  have "tag_ok ''record''"
    by code_simp
  then show ?thesis
    using field_xml_ok by (auto simp: record_xml_def)
qed

lemma db_xml_ok:
  assumes "length (dec (unat schema)) < SAX_BUFSIZE"
  shows "\<forall>x\<in>set (db_xml schema recs). xml_ok x"
proof -
  have "tag_ok ''db''" "\<forall>c\<in>set ''schema''. c \<notin> set ATTR_END" "NUL \<notin> set ''schema''" "length ''schema'' < SAX_BUFSIZE"
    by code_simp+
  then show ?thesis
    using record_xml_ok assms by (auto simp: db_xml_def)
qed

lemma length_dec: "0 < k \<Longrightarrow> n < 10 ^ k \<Longrightarrow> length (dec n) \<le> k"
proof (induction k arbitrary: n)
  case (Suc k)
  show ?case
  proof (cases "n < 10")
    case True
    then show ?thesis
      by (subst dec.simps) simp
  next
    case False
    then have "0 < k"
      using Suc.prems(2) by (cases k) auto
    moreover have "n div 10 < 10 ^ k"
      using Suc.prems(2) by (intro less_mult_imp_div_less) (simp add: mult.commute)
    ultimately have "0 < k" "n div 10 < 10 ^ k" .
    then show ?thesis
      using Suc.IH [of "n div 10"] False by (subst dec.simps) simp
  qed
qed simp

lemma length_dec_u32: "length (dec (unat (w :: u32))) \<le> 10"
  using unsigned_less [of w, where 'a = nat] by (intro length_dec) simp_all

lemma NUL_notin_docs: "\<forall>x\<in>set xs. xml_ok x \<Longrightarrow> NUL \<notin> set (concat (map render xs))"
  using NUL_notin_render by auto

lemma ReadXML_document:
  assumes doc: "memory_content m = ''<?xml version=\"1.0\" encoding=\"UTF-8\"?>'' @ [CHR 0x0A] @ concat (map render (db_xml schema recs))"
    and "memory_ok m" "0 < drip"
    and recs: "\<forall>(v, ks)\<in>set recs. \<forall>i<FIELD_COUNT. i \<noteq> field_CHILDREN \<longrightarrow> filter xml_keeps (v i) = v i"
    "distinct (map (\<lambda>(v, ks). parse_u32 (v field_ID)) recs)"
    and db: "steam_ok db" "m_nfields db = FIELD_COUNT" "unat (m_next_recno db) + length recs < 2 ^ 32"
  shows "\<exists>db' sp. ReadXML (Seekable_Read (Dribble_ReadAt Memory_ReadAt drip)) (m, 0) db = Some (Some 0, db', sp) \<and> records_added db db' recs"
proof -
  let ?rd = "Seekable_Read (Dribble_ReadAt Memory_ReadAt drip)" and ?xs = "newline # db_xml schema recs"
  obtain d where d: "drip = Suc d"
    using assms(3) by (cases drip) auto
  have xs: "\<forall>x\<in>set ?xs. xml_ok x"
    using db_xml_ok [of schema recs] length_dec_u32 [of schema] by (auto simp: SAX_BUFSIZE_def)
  let ?evs = "declaration_events ''xml'' xml_version @ atoms (concat (map xml_events ?xs))"
  have "says CONTENT [] [] (memory_content m) ?evs"
    using declaration_says [OF xml_declaration(3-5), of "concat (map render ?xs)"] document_says [OF xs]
    by (simp add: doc xml_declaration(1))
  moreover have "NUL \<notin> set (memory_content m)"
    using NUL_notin_docs [OF xs] by (simp add: doc)
  ultimately have "good SaxParser (memory_content m) ?evs"
    by (rule good_start)
  then obtain ev s where ev: "sax_Parse ?rd SaxParser (m, 0) = Some (Some 0, ev, s)" "atoms ev = atoms ?evs"
    using drip_mem.dribble.source.sax_Parse_says [of "(m, 0)" SaxParser ?evs d] assms(2) rested_start unfolding d by auto
  define p where "p = MediaDBParser db"
  have p: "resting p" "mp_ids p = []" "mp_db p = db"
    by (simp_all add: p_def MediaDBParser_def resting_def)
  define q where "q = mp_OnBegin ''db'' (mp_OnBegin ''?xml'' p)"
  have q: "resting q" "mp_ids q = []" "mp_db q = db"
    using p by (simp_all add: q_def mp_OnBegin_def resting_def Let_def)
  let ?recs = "concat (map xml_events (concat (map (\<lambda>(v, ks). [record_xml v ks, newline, newline]) recs)))"
  obtain q' where q': "mp_run ?recs q = Some q'" "resting q'" "records_added db (mp_db q') recs"
    using records_run [OF q(1), of recs] recs db q by auto
  have start: "resting (mp_OnBegin ''?xml'' p)"
    using p by (simp add: mp_OnBegin_def resting_def Let_def)
  obtain r where r: "mp_OnEnd ''db'' q' = Some r" "resting r" "mp_db r = mp_db q'"
    using q'(2) by (simp add: mp_OnEnd_def resting_def Let_def)
  have "mp_run ev p = mp_run ?evs p"
    by (metis ev(2) mp_run_atoms)
  also have "\<dots> = Some r"
    using start q(1) q'(1) r(1,2) by (simp add: mp_run_atoms xml_declaration(2) db_xml_def mp_event_def flip: q_def)
  finally show ?thesis
    using ev(1) q'(3) r(3) by (auto simp: ReadXML_def p_def)
qed

section \<open>The round trip\<close>

lemma name_tables_distinct: "name_table i = Some names \<Longrightarrow> distinct names \<and> length names < 100"
proof -
  assume "name_table i = Some names"
  then have "names \<in> {typemap, codecmap, videocodecmap, containermap}"
    by (auto simp: name_table_def split: if_splits)
  moreover have "\<forall>names\<in>{typemap, codecmap, videocodecmap, containermap}. distinct names \<and> length names < 100"
    by code_simp
  ultimately show ?thesis
    by blast
qed

lemma takeWhile_nth: "distinct xs \<Longrightarrow> k < length xs \<Longrightarrow> length (takeWhile (\<lambda>x. x \<noteq> xs ! k) xs) = k"
proof (induction xs arbitrary: k)
  case (Cons x xs)
  then show ?case
    by (cases k) auto
qed simp

lemma rev_map_nth: "name_table i = Some names \<Longrightarrow> unat n < length names \<Longrightarrow> rev_map names (names ! unat n) = n"
  using name_tables_distinct [of i names] takeWhile_nth [of names "unat n"] by (simp add: rev_map_def)

lemma length_read_children: "read_children n s = Some v \<Longrightarrow> length v = n"
  by (induction n s arbitrary: v rule: read_children.induct) (auto split: bind_splits)

lemma length_ChildrenToVector: "ChildrenToVector s = Some v \<Longrightarrow> length v \<le> 20000"
  using length_read_children
  by (auto simp: ChildrenToVector_def Let_def word_less_nat_alt not_less split: if_splits bind_splits)

text \<open>A record of the new database is the copy of one of the old.\<close>

definition same_media :: "steam \<Rightarrow> steam \<Rightarrow> u32 \<Rightarrow> u32 \<Rightarrow> bool" where
  "same_media db db' r r' \<longleftrightarrow>
     (\<forall>i<FIELD_COUNT. i \<noteq> field_CHILDREN \<longrightarrow> int_at db' r' i = int_at db r i \<and>
        (name_table i = None \<and> \<not> is_int_type (m_fields db' ! i) \<longrightarrow> string_at db' r' i = string_at db r i)) \<and>
     (\<not> is_int_type (m_fields db' ! field_CHILDREN) \<longrightarrow>
        map_option (filter (\<lambda>k. k \<ge> 0x100)) (ChildrenToVector (string_at db' r' field_CHILDREN)) =
        map_option (filter (\<lambda>k. k \<ge> 0x100)) (ChildrenToVector (string_at db r field_CHILDREN)))"

definition xml_safe :: "steam \<Rightarrow> u32 \<Rightarrow> bool" where
  "xml_safe db r \<longleftrightarrow> writable db r \<and>
     (\<forall>i<FIELD_COUNT. name_table i = None \<and> i \<noteq> field_CHILDREN \<longrightarrow> filter xml_keeps (string_at db r i) = string_at db r i) \<and>
     (\<forall>k\<in>set (kid_list (kids_at db r)). k < 0x80000000)"

lemma xml_safe_code [code]:
  "xml_safe db r \<longleftrightarrow>
     list_all (\<lambda>i. case name_table i of None \<Rightarrow> i = field_CHILDREN \<or> filter xml_keeps (string_at db r i) = string_at db r i
        | Some names \<Rightarrow> unat (int_at db r i) < length names) [0..<FIELD_COUNT] \<and>
     ChildrenToVector (string_at db r field_CHILDREN) \<noteq> None \<and> (\<forall>k\<in>set (kid_list (kids_at db r)). k < 0x80000000)"
  by (auto simp: xml_safe_def writable_def list_all_iff Ball_def split: option.splits)

lemma kid_list_kids: "kid_list (kids_at db r) = kid_list (map_option (filter (\<lambda>k. k \<ge> 0x100)) (ChildrenToVector (string_at db r field_CHILDREN)))"
  by (auto simp: kid_list_def kids_at_def)

lemma int_at_parse: "steam_ok db \<Longrightarrow> i < m_nfields db \<Longrightarrow> int_at db r i = parse_u32 (string_at db r i)"
  by (simp add: int_at_def string_at_def GetInteger_GetString)

lemma children_field [simp]: "field_CHILDREN < FIELD_COUNT"
  by (simp add: field_defs)

lemma stored_same:
  assumes "steam_ok db" "m_nfields db = FIELD_COUNT" "xml_safe db r"
    "\<forall>i<FIELD_COUNT. field_stored db' r' (text_at db r) (kid_list (kids_at db r)) i"
  shows "same_media db db' r r'"
proof -
  have plain: "int_at db' r' i = int_at db r i \<and> (name_table i = None \<and> \<not> is_int_type (m_fields db' ! i) \<longrightarrow> string_at db' r' i = string_at db r i)"
    if i: "i < FIELD_COUNT" "i \<noteq> field_CHILDREN" for i
  proof (cases "name_table i")
    case None
    then show ?thesis
      using assms(4) i int_at_parse [OF assms(1), of i r] assms(2) by (auto simp: field_stored_def text_at_def Let_def)
  next
    case (Some names)
    then have "unat (int_at db r i) < length names"
      using assms(3) i by (auto simp: xml_safe_def writable_def)
    then show ?thesis
      using assms(4) i Some rev_map_nth by (auto simp: field_stored_def text_at_def)
  qed
  obtain vec where vec: "ChildrenToVector (string_at db r field_CHILDREN) = Some vec"
    using assms(3) by (auto simp: xml_safe_def writable_def)
  then have kids: "kid_list (kids_at db r) = filter (\<lambda>k. k \<ge> 0x100) vec"
    unfolding kid_list_kids vec by (simp add: kid_list_def)
  then have "\<forall>k\<in>set (kid_list (kids_at db r)). child_ok k"
    using assms(3) by (auto simp: xml_safe_def child_ok_def word_le_nat_alt word_less_nat_alt)
  moreover have "length (kid_list (kids_at db r)) \<le> 20000"
    unfolding kids using length_filter_le length_ChildrenToVector [OF vec] by (rule le_trans)
  ultimately have "ChildrenToVector (VectorToChildren (kid_list (kids_at db r))) = Some (kid_list (kids_at db r))"
    using children_decode by blast
  moreover have "string_at db' r' field_CHILDREN = VectorToChildren (kid_list (kids_at db r))" if "\<not> is_int_type (m_fields db' ! field_CHILDREN)"
    using that spec [OF assms(4), of field_CHILDREN] by (simp add: field_stored_def Let_def children_field)
  ultimately have "\<not> is_int_type (m_fields db' ! field_CHILDREN) \<longrightarrow>
      map_option (filter (\<lambda>k. k \<ge> 0x100)) (ChildrenToVector (string_at db' r' field_CHILDREN)) =
      map_option (filter (\<lambda>k. k \<ge> 0x100)) (ChildrenToVector (string_at db r field_CHILDREN))"
    unfolding kids vec by simp
  then show ?thesis
    unfolding same_media_def using plain by blast
qed

lemma written_records_few:
  assumes "steam_ok db"
  shows "length (written_records db) < 2 ^ 32"
proof -
  let ?ks = "map fst (m_data db)"
  have sm: "smap_ok (m_data db)"
    using assms by (simp add: steam_ok_def)
  have "inj_on unat (set ?ks)"
    by (intro inj_onI) (simp add: word_unat_eq_iff)
  then have "distinct (map unat ?ks)"
    using smap_ok_distinct [OF sm] distinct_map [of unat ?ks] by blast
  moreover have "set (map unat ?ks) \<subseteq> {..<unat (m_next_recno db)}"
    using assms sm smap_in_set [OF sm] by (fastforce simp: steam_ok_def word_less_nat_alt)
  ultimately have "length (map unat ?ks) \<le> unat (m_next_recno db)"
    by (metis card_lessThan card_mono distinct_card finite_lessThan)
  then have "length ?ks < 2 ^ 32"
    using unsigned_less [of "m_next_recno db", where 'a = nat] by simp
  then show ?thesis
    using length_filter_le [of "written db" ?ks] unfolding written_records_def by linarith
qed

text \<open>C2: A media library that is written out as XML and read into an empty database, from any stream
  that holds the text, is the same library: one record for each that is written, in order, with the
  same numbers, the same text in the fields that hold text, and the same children; records of special
  identifiers and radio stations are left out. The records that are written have different
  identifiers, and each is \<^const>\<open>xml_safe\<close>: its numbers have a name where the format writes names, its text holds only
  characters that the writer keeps, and its children can be read and are below \<^verbatim>\<open>0x80000000\<close>.\<close>
theorem media_round_trip:
  assumes "steam_ok db" "m_nfields db = FIELD_COUNT" "\<forall>r\<in>set (written_records db). xml_safe db r"
    "distinct (map (\<lambda>r. int_at db r field_ID) (written_records db))" "\<forall>(which, flags)\<in>set ifi. flags_ok flags" "0 < drip"
  shows "\<exists>s db1 db2 sp. WriteXML schema db = Some (s, db1) \<and> same_reads db db1 \<and>
    ReadXML (Seekable_Read (Dribble_ReadAt Memory_ReadAt drip)) (stored s, 0) (Database FIELD_COUNT ifi) = Some (Some 0, db2, sp) \<and>
    steam_ok db2 \<and> list_all2 (same_media db db2) (written_records db) (map fst (m_data db2))"
proof -
  let ?rs = "written_records db" and ?db = "Database FIELD_COUNT ifi"
  let ?recs = "map (media_at db) ?rs"
  define s where "s = ''<?xml version=\"1.0\" encoding=\"UTF-8\"?>'' @ [CHR 0x0A] @ concat (map render (db_xml schema ?recs))"
  have "\<forall>r\<in>set ?rs. writable db r"
    using assms(3) by (simp add: xml_safe_def)
  from WriteXML_renders [OF assms(1,2) this, of schema, folded s_def]
  obtain db1 where s: "WriteXML schema db = Some (s, db1)" "same_reads db db1"
    by blast
  have m: "memory_ok (stored s)" "memory_content (stored s) = ''<?xml version=\"1.0\" encoding=\"UTF-8\"?>'' @ [CHR 0x0A] @ concat (map render (db_xml schema ?recs))"
    using stored [of s] by (simp_all add: s_def)
  have names: "set names \<subseteq> set typemap \<union> set codecmap \<union> set videocodecmap \<union> set containermap" if "name_table i = Some names" for i names
    using that by (auto simp: name_table_def split: if_splits)
  have plain: "\<forall>n\<in>set typemap \<union> set codecmap \<union> set videocodecmap \<union> set containermap. filter xml_keeps n = n"
    by code_simp
  have "filter xml_keeps (text_at db r i) = text_at db r i" if "r \<in> set ?rs" "i < FIELD_COUNT" "i \<noteq> field_CHILDREN" for r i
  proof (cases "name_table i")
    case None
    then show ?thesis
      using assms(3) that by (auto simp: xml_safe_def text_at_def)
  next
    case (Some ns)
    have "writable db r"
      using assms(3) that(1) by (simp add: xml_safe_def)
    then have "unat (int_at db r i) < length ns"
      using Some that(2) by (auto simp: writable_def)
    then show ?thesis
      using Some names [OF Some] plain nth_mem by (fastforce simp: text_at_def)
  qed
  then have 1: "\<forall>(v, ks)\<in>set ?recs. \<forall>i<FIELD_COUNT. i \<noteq> field_CHILDREN \<longrightarrow> filter xml_keeps (v i) = v i"
    by (auto simp: media_at_def)
  have "parse_u32 (text_at db r field_ID) = int_at db r field_ID" for r
    using int_at_parse [OF assms(1), of field_ID r] assms(2)
    by (simp add: text_at_def name_table_def field_defs field_TYPE_def field_AUDIOCODEC_def field_VIDEOCODEC_def field_CONTAINER_def)
  then have 2: "distinct (map (\<lambda>(v, ks). parse_u32 (v field_ID)) ?recs)"
    using assms(4) by (simp add: media_at_def comp_def)
  have 3: "steam_ok ?db" "m_nfields ?db = FIELD_COUNT" "unat (m_next_recno ?db) + length ?recs < 2 ^ 32" "m_data ?db = []"
    using Database_ok [OF assms(5)] written_records_few [OF assms(1)] by (simp_all add: Database_def)
  obtain db2 sp where db2: "ReadXML (Seekable_Read (Dribble_ReadAt Memory_ReadAt drip)) (stored s, 0) ?db = Some (Some 0, db2, sp)"
    "records_added ?db db2 ?recs"
    using ReadXML_document [OF m(2,1) assms(6) 1 2 3(1-3)] by blast
  then have "list_all2 (\<lambda>r r'. \<forall>i<FIELD_COUNT. field_stored db2 r' (text_at db r) (kid_list (kids_at db r)) i) ?rs (map fst (m_data db2))"
    using 3(4) by (simp add: records_added_def list_all2_map1 media_at_def)
  then have "list_all2 (same_media db db2) ?rs (map fst (m_data db2))"
    by (rule list.rel_mono_strong) (use stored_same [OF assms(1,2)] assms(3) in blast)
  then show ?thesis
    using s(1,2) db2 by (auto simp: records_added_def)
qed

definition media_infos :: "(nat \<times> u32) list" where
  "media_infos = [(field_ID, 9), (field_TITLE, 8), (field_TYPE, 1)]"

definition example_media :: steam where
  "example_media =
     (let (rc, rs, db) = AddRecord (Database FIELD_COUNT media_infos) \<lparr>m_record = 0, m_eof = True\<rparr>;
          db = snd (SetInteger db rs field_ID 256);
          db = snd (SetString db rs field_TITLE ''X&Y'');
          db = snd (SetString db rs field_CHILDREN (VectorToChildren [257, 258]))
      in snd (SetInteger db rs field_TYPE 1))"

lemma media_infos_ok: "\<forall>(which, flags)\<in>set media_infos. flags_ok flags"
  by (simp add: media_infos_def flags_ok_def is_string_type_def is_int_type_def FIELD_TYPEMASK_def FIELD_STRING_def FIELD_INT_def)

lemma Set_keeps:
  assumes "steam_ok db \<and> m_nfields db = n" "which < n"
  shows "steam_ok (snd (SetInteger db rs which k)) \<and> m_nfields (snd (SetInteger db rs which k)) = n"
    "steam_ok (snd (SetString db rs which s)) \<and> m_nfields (snd (SetString db rs which s)) = n"
  using assms SetInteger_ok [of db which rs k] SetInteger_shape [of db rs which k] SetString_ok [of db which rs s] SetString_shape [of db rs which s]
  by (simp_all add: same_shape_def)

lemma example_media_ok: "steam_ok example_media" "m_nfields example_media = FIELD_COUNT"
proof -
  have "steam_ok example_media \<and> m_nfields example_media = FIELD_COUNT"
    using AddRecord_ok [OF Database_ok [OF media_infos_ok], of FIELD_COUNT "\<lparr>m_record = 0, m_eof = True\<rparr>"]
    unfolding example_media_def Let_def case_prod_beta
    by (intro Set_keeps) (simp_all add: Database_def field_defs field_TYPE_def AddRecord_def)
  then show "steam_ok example_media" "m_nfields example_media = FIELD_COUNT"
    by simp_all
qed

theorem media_round_trip_witness:
  "\<exists>s db1 db2 sp. WriteXML 3 example_media = Some (s, db1) \<and> same_reads example_media db1 \<and>
    ReadXML (Seekable_Read (Dribble_ReadAt Memory_ReadAt 7)) (stored s, 0) (Database FIELD_COUNT media_infos) = Some (Some 0, db2, sp) \<and>
    steam_ok db2 \<and> list_all2 (same_media example_media db2) [0] (map fst (m_data db2))"
proof -
  have rs: "written_records example_media = [0]"
    by code_simp
  have "xml_safe example_media 0"
    by code_simp
  then show ?thesis
    using media_round_trip [OF example_media_ok _ _ media_infos_ok, of 7 3] rs by simp
qed

end
