(* ===== verification/PlayQueue.thy ===== *)
theory PlayQueue
  imports Prelude "HOL-Library.Monad_Syntax" "HOL-Library.Multiset"
begin

text \<open>
  liboutput: the queue of a player (queue.h, queue.cpp) and the player of its tests
  (test_url_player.h). A queue is told by the user what to play and by the player what is playing.
  What an operation asks of the player and what it tells the observers of the queue is returned, in
  order; what the player says in return is an operation of its own, \<^verbatim>\<open>OnURL\<close>, \<^verbatim>\<open>OnPlayState\<close> or
  \<^verbatim>\<open>OnTimeCode\<close>, which comes afterwards. An operation is atomic. \<^verbatim>\<open>None\<close> is an index or an
  iterator out of range, a null database or a division by zero.
\<close>

section \<open>State\<close>

datatype play_state = STOP | PAUSE | PLAY

definition PLAYED :: u32 where "PLAYED = 1"

record 'd entry =
  e_db :: "'d option"
  e_id :: u32
  e_flags :: u32

record 'd queue =
  q_current :: nat
  q_queue :: "nat list"
  q_entries :: "'d entry list"
  q_name :: string
  q_shuffled :: bool
  q_expected_url :: string
  q_expected_next_url :: string
  q_state :: play_state

datatype effect =
    Player_SetURL string string
  | Player_SetNextURL string string
  | Player_SetPlayState play_state
  | Fire_OnPlayState play_state
  | Fire_OnTimeCode nat u32

text \<open>What the queue uses of a media database: the URL of an item and its metadata.\<close>

record 'd media =
  GetURL :: "'d \<Rightarrow> u32 \<Rightarrow> string"
  metadata :: "'d \<Rightarrow> u32 \<Rightarrow> string"

definition Queue :: "'d queue" where
  "Queue =
     \<lparr>q_current = 0, q_queue = [], q_entries = [], q_name = [], q_shuffled = False,
      q_expected_url = [], q_expected_next_url = [], q_state = STOP\<rparr>"

definition nth_opt :: "'a list \<Rightarrow> nat \<Rightarrow> 'a option" where
  "nth_opt xs i = (if i < length xs then Some (xs ! i) else None)"

definition insert_at :: "nat \<Rightarrow> 'a \<Rightarrow> 'a list \<Rightarrow> 'a list option" where
  "insert_at i x xs = (if i \<le> length xs then Some (take i xs @ x # drop i xs) else None)"

definition erase_range :: "nat \<Rightarrow> nat \<Rightarrow> 'a list \<Rightarrow> 'a list option" where
  "erase_range from to xs = (if from \<le> to \<and> to \<le> length xs then Some (take from xs @ drop to xs) else None)"

definition Entry :: "'d \<Rightarrow> u32 \<Rightarrow> 'd entry" where
  "Entry db n = \<lparr>e_db = Some db, e_id = n, e_flags = 0\<rparr>"

definition Count :: "'d queue \<Rightarrow> nat" where
  "Count q = length (q_entries q)"

definition SetName :: "string \<Rightarrow> 'd queue \<Rightarrow> 'd queue" where
  "SetName n q = q\<lparr>q_name := n\<rparr>"

section \<open>Telling the player\<close>

definition entry_at :: "nat \<Rightarrow> 'd queue \<Rightarrow> 'd entry option" where
  "entry_at i q = do { e \<leftarrow> nth_opt (q_queue q) i; nth_opt (q_entries q) e }"

definition SetURL :: "'d media \<Rightarrow> 'd queue \<Rightarrow> ('d queue \<times> effect list) option" where
  "SetURL md q =
     (if q_current q \<ge> length (q_entries q) then Some (q, [])
      else do {
        e \<leftarrow> entry_at (q_current q) q;
        db \<leftarrow> e_db e;
        let url = GetURL md db (e_id e);
        Some (q\<lparr>q_expected_url := c_str url\<rparr>, [Player_SetURL url (metadata md db (e_id e))]) })"

definition SetNextURL :: "'d media \<Rightarrow> 'd queue \<Rightarrow> ('d queue \<times> effect list) option" where
  "SetNextURL md q =
     (if q_current q + 1 \<ge> length (q_entries q) then Some (q, [])
      else do {
        e \<leftarrow> entry_at (q_current q + 1) q;
        db \<leftarrow> e_db e;
        let url = GetURL md db (e_id e);
        Some (q\<lparr>q_expected_next_url := c_str url\<rparr>, [Player_SetNextURL url (metadata md db (e_id e))]) })"

text \<open>The calls at the end of an operation.\<close>

definition set_urls :: "'d media \<Rightarrow> bool \<Rightarrow> bool \<Rightarrow> 'd queue \<Rightarrow> ('d queue \<times> effect list) option" where
  "set_urls md set_now set_next q = do {
     (q, es) \<leftarrow> (if set_now then SetURL md q else Some (q, []));
     (q, fs) \<leftarrow> (if set_next then SetNextURL md q else Some (q, []));
     Some (q, es @ fs) }"

section \<open>Adding\<close>

definition Add :: "'d media \<Rightarrow> 'd \<Rightarrow> u32 \<Rightarrow> 'd queue \<Rightarrow> ('d queue \<times> effect list) option" where
  "Add md db n q =
     (let q = q\<lparr>q_entries := q_entries q @ [Entry db n]\<rparr>;
          q = q\<lparr>q_queue := q_queue q @ [length (q_entries q) - 1]\<rparr>
      in set_urls md False (q_current q + 2 = length (q_entries q)) q)"

definition QueueInsert :: "'d media \<Rightarrow> 'd \<Rightarrow> u32 \<Rightarrow> nat \<Rightarrow> 'd queue \<Rightarrow> ('d queue \<times> effect list) option" where
  "QueueInsert md db n pos q = do {
     let q = q\<lparr>q_entries := q_entries q @ [Entry db n]\<rparr>;
     queue \<leftarrow> insert_at pos (length (q_entries q) - 1) (q_queue q);
     let q = q\<lparr>q_queue := queue\<rparr>;
     let set_next = (pos > 0 \<and> q_current q = pos - 1);
     let q = (if \<not> set_next \<and> q_current q \<ge> pos then q\<lparr>q_current := q_current q + 1\<rparr> else q);
     set_urls md (length (q_entries q) = 1) set_next q }"

text \<open>The place of an entry in the queue; \<^verbatim>\<open>rnd\<close> is the number that \<^verbatim>\<open>rand\<close> gives.\<close>

definition insert_pos :: "nat \<Rightarrow> nat \<Rightarrow> 'd queue \<Rightarrow> nat option" where
  "insert_pos rnd whr q =
     (if q_shuffled q then
        (let first_available = q_current q + (if q_state q = PLAY then 1 else 0); size = length (q_queue q) in
         if first_available = size then Some size
         else
           (let n = (size + 1 + (2 ^ 64 - first_available)) mod 2 ^ 64 in
            if n = 0 then None else Some ((first_available + rnd mod n) mod 2 ^ 64)))
      else Some whr)"

text \<open>The other entries move up.\<close>

definition shift_up :: "nat \<Rightarrow> nat \<Rightarrow> nat" where
  "shift_up w e = (if e \<ge> w then e + 1 else e)"

definition EntryInsert :: "'d media \<Rightarrow> nat \<Rightarrow> 'd \<Rightarrow> u32 \<Rightarrow> nat \<Rightarrow> 'd queue \<Rightarrow> ('d queue \<times> effect list) option" where
  "EntryInsert md rnd db n whr q = do {
     entries \<leftarrow> insert_at whr (Entry db n) (q_entries q);
     let q = q\<lparr>q_entries := entries, q_queue := map (shift_up whr) (q_queue q)\<rparr>;
     pos \<leftarrow> insert_pos rnd whr q;
     queue \<leftarrow> insert_at pos whr (q_queue q);
     let q = q\<lparr>q_queue := queue\<rparr>;
     if pos > 0 \<and> q_current q = pos - 1 then set_urls md False True q
     else if pos = q_current q then set_urls md True False q
     else if q_current q > pos then set_urls md False False (q\<lparr>q_current := q_current q + 1\<rparr>)
     else set_urls md False False q }"

section \<open>Removing\<close>

text \<open>The entries at some places of the queue lose their database.\<close>

fun mark_removed :: "nat list \<Rightarrow> 'd queue \<Rightarrow> 'd queue option" where
  "mark_removed [] q = Some q"
| "mark_removed (i # is) q = do {
     e \<leftarrow> nth_opt (q_queue q) i;
     x \<leftarrow> nth_opt (q_entries q) e;
     mark_removed is (q\<lparr>q_entries := (q_entries q)[e := x\<lparr>e_db := None\<rparr>]\<rparr>) }"

text \<open>The map from old to new indexes, \<^verbatim>\<open>themap\<close>, and \<^verbatim>\<open>themap[i]\<close>.\<close>

fun number_entries :: "nat \<Rightarrow> nat \<Rightarrow> 'd entry list \<Rightarrow> (nat \<times> nat) list" where
  "number_entries i j [] = []"
| "number_entries i j (e # es) =
     (if e_db e \<noteq> None then (i, j) # number_entries (i + 1) (j + 1) es else number_entries (i + 1) j es)"

definition new_index :: "(nat \<times> nat) list \<Rightarrow> nat \<Rightarrow> nat" where
  "new_index themap i = (case map_of themap i of None \<Rightarrow> 0 | Some j \<Rightarrow> j)"

definition QueueRemove :: "'d media \<Rightarrow> nat \<Rightarrow> nat \<Rightarrow> 'd queue \<Rightarrow> ('d queue \<times> effect list) option" where
  "QueueRemove md from to q = do {
     q \<leftarrow> mark_removed [from..<to] q;
     let themap = number_entries 0 0 (q_entries q);
     let q = q\<lparr>q_entries := filter (\<lambda>e. e_db e \<noteq> None) (q_entries q)\<rparr>;
     queue \<leftarrow> erase_range from to (q_queue q);
     let q = q\<lparr>q_queue := map (new_index themap) queue\<rparr>;
     if q_current q \<ge> to then set_urls md False False (q\<lparr>q_current := q_current q - (to - from)\<rparr>)
     else if q_current q \<ge> from then
       set_urls md True True (q\<lparr>q_current := (if from = length (q_entries q) then 0 else from)\<rparr>)
     else set_urls md False (from > 0 \<and> q_current q = from - 1) q }"

text \<open>The loop of \<^verbatim>\<open>EntryRemove\<close>, which writes the indexes that stay back into the same vector.\<close>

function (sequential) entry_remove_loop ::
  "nat \<Rightarrow> nat \<Rightarrow> nat \<Rightarrow> nat \<Rightarrow> nat \<Rightarrow> nat \<Rightarrow> bool \<Rightarrow> nat list \<Rightarrow> nat \<times> bool \<times> nat list" where
  "entry_remove_loop from to current i j new_current set_now queue =
     (if i < length queue then
        (let new_current = (if current = i then j else new_current); e = queue ! i in
         if e \<ge> to then entry_remove_loop from to current (i + 1) (j + 1) new_current set_now (queue[j := from + (e - to)])
         else if e < from then entry_remove_loop from to current (i + 1) (j + 1) new_current set_now (queue[j := e])
         else entry_remove_loop from to current (i + 1) j new_current (set_now \<or> current = i) queue)
      else (new_current, set_now, queue))"
  by pat_completeness auto
termination
  by (relation "measure (\<lambda>(_, _, _, i, _, _, _, queue). length queue - i)") auto

declare entry_remove_loop.simps [simp del]

definition EntryRemove :: "'d media \<Rightarrow> nat \<Rightarrow> nat \<Rightarrow> 'd queue \<Rightarrow> ('d queue \<times> effect list) option" where
  "EntryRemove md from to q = do {
     let next_entry = (if q_current q + 1 < length (q_queue q) then q_queue q ! (q_current q + 1) else 0);
     let set_next = (next_entry \<ge> from \<and> next_entry < to);
     entries \<leftarrow> erase_range from to (q_entries q);
     let (new_current, set_now, queue) = entry_remove_loop from to (q_current q) 0 0 0 False (q_queue q);
     let n = length entries;
     let q = q\<lparr>q_entries := entries, q_queue := take n queue @ replicate (n - length queue) 0,
               q_current := (if new_current = n then 0 else new_current)\<rparr>;
     set_urls md set_now set_next q }"

section \<open>Transport controls\<close>

definition SetPlayState :: "'d media \<Rightarrow> play_state \<Rightarrow> 'd queue \<Rightarrow> ('d queue \<times> effect list) option" where
  "SetPlayState md s q =
     (if s = PLAY then
        if q_entries q = [] then Some (q, [])
        else do { (q, es) \<leftarrow> set_urls md True True q; Some (q, es @ [Player_SetPlayState PLAY]) }
      else Some (q, [Player_SetPlayState s]))"

text \<open>\<^verbatim>\<open>shuffle\<close> and \<^verbatim>\<open>shuffle'\<close> are what the random engine does to the two parts.\<close>

definition SetShuffle ::
  "'d media \<Rightarrow> (nat list \<Rightarrow> nat list) \<Rightarrow> (nat list \<Rightarrow> nat list) \<Rightarrow> bool \<Rightarrow> 'd queue \<Rightarrow> ('d queue \<times> effect list) option" where
  "SetShuffle md shuffle shuffle' whether q =
     (if whether = q_shuffled q then Some (q, [])
      else
        (let q = q\<lparr>q_shuffled := whether\<rparr>; n = length (q_entries q) in
         if n \<le> 1 then Some (q, [])
         else do {
           current_entry \<leftarrow> nth_opt (q_queue q) (q_current q);
           let played = (\<lambda>i. e_flags (q_entries q ! i) AND PLAYED \<noteq> 0);
           let q =
             (if whether then
                (let before = shuffle (filter (\<lambda>i. i \<noteq> current_entry \<and> played i) [0..<n]);
                     behind = shuffle' (filter (\<lambda>i. i \<noteq> current_entry \<and> \<not> played i) [0..<n])
                 in q\<lparr>q_queue := before @ current_entry # behind, q_current := length before\<rparr>)
              else q\<lparr>q_queue := [0..<n], q_current := current_entry\<rparr>);
           SetNextURL md q }))"

definition Seek :: "'d media \<Rightarrow> nat \<Rightarrow> 'd queue \<Rightarrow> ('d queue \<times> effect list) option" where
  "Seek md index q = do {
     let q = (if index < length (q_queue q) then q\<lparr>q_current := index\<rparr> else q);
     (q, es) \<leftarrow> set_urls md True True q;
     (q, fs) \<leftarrow> SetPlayState md (q_state q) q;
     Some (q, es @ fs) }"

section \<open>What the player says\<close>

definition OnPlayState :: "play_state \<Rightarrow> 'd queue \<Rightarrow> 'd queue \<times> effect list" where
  "OnPlayState s q = (q\<lparr>q_state := s\<rparr>, [Fire_OnPlayState s])"

text \<open>The entry at a place of the queue has been played.\<close>

definition set_played :: "nat \<Rightarrow> 'd queue \<Rightarrow> 'd queue option" where
  "set_played i q = do {
     e \<leftarrow> nth_opt (q_queue q) i;
     x \<leftarrow> nth_opt (q_entries q) e;
     Some (q\<lparr>q_entries := (q_entries q)[e := x\<lparr>e_flags := e_flags x OR PLAYED\<rparr>]\<rparr>) }"

definition OnURL :: "'d media \<Rightarrow> string \<Rightarrow> 'd queue \<Rightarrow> ('d queue \<times> effect list) option" where
  "OnURL md url q =
     (if url = q_expected_url q \<and> url \<noteq> [] then do {
        q \<leftarrow> set_played (q_current q) q;
        Some (q, [Fire_OnTimeCode (q_current q) 0]) }
      else if url = q_expected_next_url q \<and> url \<noteq> [] then do {
        let q = q\<lparr>q_current := q_current q + 1, q_expected_url := q_expected_next_url q, q_expected_next_url := []\<rparr>;
        q \<leftarrow> set_played (q_current q) q;
        (q', es) \<leftarrow> SetNextURL md q;
        Some (q', Fire_OnTimeCode (q_current q) 0 # es) }
      else Some (OnPlayState STOP q))"

definition OnTimeCode :: "u32 \<Rightarrow> 'd queue \<Rightarrow> 'd queue \<times> effect list" where
  "OnTimeCode s q = (q, if q_current q < Count q then [Fire_OnTimeCode (q_current q) s] else [])"

end
