(* ===== verification/PlayQueueInv.thy ===== *)
theory PlayQueueInv
  imports PlayQueue
begin

text \<open>
  The queue of a player stays an order of its entries: every operation keeps each entry in the queue
  exactly once. The operations are the steps of a relation, and the invariant holds in every state
  they lead to.
\<close>

section \<open>The invariant\<close>

definition queue_ok :: "'d queue \<Rightarrow> bool" where
  "queue_ok q \<longleftrightarrow> distinct (q_queue q) \<and> set (q_queue q) = {..<length (q_entries q)} \<and> (\<forall>e\<in>set (q_entries q). e_db e \<noteq> None)"

lemma queue_okI:
  assumes "distinct (q_queue q)" "set (q_queue q) = {..<length (q_entries q)}" "\<And>e. e \<in> set (q_entries q) \<Longrightarrow> e_db e \<noteq> None"
  shows "queue_ok q"
  using assms by (simp add: queue_ok_def)

lemma queue_okD:
  assumes "queue_ok q"
  shows "distinct (q_queue q)" "set (q_queue q) = {..<length (q_entries q)}" "\<And>e. e \<in> set (q_entries q) \<Longrightarrow> e_db e \<noteq> None"
    "length (q_queue q) = length (q_entries q)"
proof -
  show "distinct (q_queue q)" "set (q_queue q) = {..<length (q_entries q)}" "\<And>e. e \<in> set (q_entries q) \<Longrightarrow> e_db e \<noteq> None"
    using assms by (simp_all add: queue_ok_def)
  then show "length (q_queue q) = length (q_entries q)"
    by (metis card_lessThan distinct_card)
qed

lemma queue_ok_nth:
  assumes "queue_ok q" "i < length (q_entries q)"
  shows "i < length (q_queue q)" "q_queue q ! i < length (q_entries q)"
    "entry_at i q = Some (q_entries q ! (q_queue q ! i))" "\<exists>db. e_db (q_entries q ! (q_queue q ! i)) = Some db"
proof -
  note ok = queue_okD [OF assms(1)]
  show i: "i < length (q_queue q)"
    using assms(2) ok(4) by simp
  then show j: "q_queue q ! i < length (q_entries q)"
    using ok(2) nth_mem [OF i] by simp
  then show "entry_at i q = Some (q_entries q ! (q_queue q ! i))"
    using i by (simp add: entry_at_def nth_opt_def)
  show "\<exists>db. e_db (q_entries q ! (q_queue q ! i)) = Some db"
    using ok(3) [OF nth_mem [OF j]] by simp
qed

section \<open>Telling the player changes nothing else\<close>

definition same_order :: "'d queue \<Rightarrow> 'd queue \<Rightarrow> bool" where
  "same_order q q' \<longleftrightarrow> q_queue q' = q_queue q \<and> q_entries q' = q_entries q \<and> q_current q' = q_current q \<and>
     q_shuffled q' = q_shuffled q \<and> q_state q' = q_state q \<and> q_name q' = q_name q"

lemma same_order_ok: "same_order q q' \<Longrightarrow> queue_ok q' = queue_ok q"
  by (simp add: same_order_def queue_ok_def)

lemma SetURL_same: "SetURL md q = Some (q', es) \<Longrightarrow> same_order q q'"
  by (auto simp: SetURL_def same_order_def Let_def split: if_splits bind_splits)

lemma SetNextURL_same: "SetNextURL md q = Some (q', es) \<Longrightarrow> same_order q q'"
  by (auto simp: SetNextURL_def same_order_def Let_def split: if_splits bind_splits)

lemma same_order_trans: "same_order q q1 \<Longrightarrow> same_order q1 q' \<Longrightarrow> same_order q q'"
  by (simp add: same_order_def)

lemma set_urls_same:
  assumes "set_urls md a b q = Some (q', es)"
  shows "same_order q q'"
proof -
  obtain q1 es1 es2 where q1: "(if a then SetURL md q else Some (q, [])) = Some (q1, es1)"
    "(if b then SetNextURL md q1 else Some (q1, [])) = Some (q', es2)"
    using assms by (auto simp: set_urls_def Option.bind_eq_Some_conv)
  have "same_order q q1"
    using q1(1) SetURL_same by (cases a) (auto simp: same_order_def)
  moreover have "same_order q1 q'"
    using q1(2) SetNextURL_same by (cases b) (auto simp: same_order_def)
  ultimately show ?thesis
    by (rule same_order_trans)
qed

lemma set_urls_order:
  assumes "set_urls md a b q = Some (q', es)"
  shows "q_queue q' = q_queue q" "q_entries q' = q_entries q" "q_current q' = q_current q"
  using set_urls_same [OF assms] by (simp_all add: same_order_def)

lemma set_urls_ok: "set_urls md a b q = Some (q', es) \<Longrightarrow> queue_ok q' = queue_ok q"
  using same_order_ok [OF set_urls_same] .

lemma set_urls_elim:
  assumes "set_urls md a b q = Some (q', es)"
    "q_queue q' = q_queue q \<Longrightarrow> q_entries q' = q_entries q \<Longrightarrow> q_current q' = q_current q \<Longrightarrow> R"
  shows R
  using assms(2) set_urls_order [OF assms(1)] .

text \<open>On a queue in order these calls always return.\<close>

lemma SetURL_returns: "queue_ok q \<Longrightarrow> \<exists>q' es. SetURL md q = Some (q', es)"
  using queue_ok_nth [of q "q_current q"] by (force simp: SetURL_def Let_def)

lemma SetNextURL_returns: "queue_ok q \<Longrightarrow> \<exists>q' es. SetNextURL md q = Some (q', es)"
  using queue_ok_nth [of q "q_current q + 1"] by (force simp: SetNextURL_def Let_def)

lemma set_urls_returns:
  assumes "queue_ok q"
  shows "\<exists>q' es. set_urls md a b q = Some (q', es)"
proof -
  obtain q1 es where q1: "(if a then SetURL md q else Some (q, [])) = Some (q1, es)"
    using SetURL_returns [OF assms, of md] by (cases a) auto
  then have "queue_ok q1"
    using assms same_order_ok [OF SetURL_same [of md q q1 es]] by (auto split: if_splits)
  then show ?thesis
    using q1 SetNextURL_returns [of q1 md] by (auto simp: set_urls_def)
qed

section \<open>Adding\<close>

lemma lessThan_Suc_insert: "{..<Suc n} = insert n {..<n}"
  by auto

lemma Add_order:
  assumes "Add md db n q = Some (q', es)"
  shows "q_queue q' = q_queue q @ [length (q_entries q)]" "q_entries q' = q_entries q @ [Entry db n]" "q_current q' = q_current q"
  using assms by (auto simp: Add_def Let_def elim!: set_urls_elim)

lemma Add_ok:
  assumes "queue_ok q" "Add md db n q = Some (q', es)"
  shows "queue_ok q'"
  using queue_okD [OF assms(1)] by (intro queue_okI) (auto simp: Add_order [OF assms(2)] Entry_def)

lemma insert_at_split: "insert_at i x xs = Some ys \<Longrightarrow> \<exists>u v. xs = u @ v \<and> ys = u @ x # v \<and> length u = i"
  unfolding insert_at_def by (intro exI [of _ "take i xs"] exI [of _ "drop i xs"]) (auto split: if_splits)

lemma insert_at_set:
  assumes "insert_at i x xs = Some ys"
  shows "set ys = insert x (set xs)" "distinct ys = (x \<notin> set xs \<and> distinct xs)" "length ys = Suc (length xs)" "i \<le> length xs"
  using insert_at_split [OF assms] by auto

lemma QueueInsert_order:
  assumes "QueueInsert md db n pos q = Some (q', es)"
  shows "insert_at pos (length (q_entries q)) (q_queue q) = Some (q_queue q')" "q_entries q' = q_entries q @ [Entry db n]"
    "q_current q' = (if q_current q \<ge> pos then q_current q + 1 else q_current q)"
  using assms by (auto simp: QueueInsert_def Let_def Option.bind_eq_Some_conv elim!: set_urls_elim split: if_splits)

lemma QueueInsert_ok:
  assumes "queue_ok q" "QueueInsert md db n pos q = Some (q', es)"
  shows "queue_ok q'"
  using queue_okD [OF assms(1)] insert_at_set [OF QueueInsert_order(1) [OF assms(2)]]
  by (intro queue_okI) (auto simp: QueueInsert_order(2) [OF assms(2)] Entry_def)

text \<open>The other entries move up, and the new one takes the free place.\<close>

lemma shift_up_image: "w \<le> n \<Longrightarrow> insert w (shift_up w ` {..<n}) = {..<Suc n}"
proof
  assume w: "w \<le> n"
  show "insert w (shift_up w ` {..<n}) \<subseteq> {..<Suc n}"
    using w by (auto simp: shift_up_def)
  have "k = w \<or> (\<exists>e<n. k = shift_up w e)" if "k < Suc n" for k
  proof (cases "k > w")
    case True
    then show ?thesis
      using that by (intro disjI2 exI [of _ "k - 1"]) (auto simp: shift_up_def)
  next
    case False
    then show ?thesis
      using that w by (auto simp: shift_up_def intro: exI [of _ k])
  qed
  then show "{..<Suc n} \<subseteq> insert w (shift_up w ` {..<n})"
    by blast
qed

lemma inj_shift_up: "inj_on (shift_up w) A"
  by (auto simp: inj_on_def shift_up_def split: if_splits)

lemma shift_up_free: "w \<notin> shift_up w ` A"
  by (auto simp: shift_up_def)

lemma EntryInsert_order:
  assumes "EntryInsert md rnd db n w q = Some (q', es)"
  shows "\<exists>pos. insert_at pos w (map (shift_up w) (q_queue q)) = Some (q_queue q')"
    "insert_at w (Entry db n) (q_entries q) = Some (q_entries q')"
  using assms by (auto simp: EntryInsert_def Let_def Option.bind_eq_Some_conv elim!: set_urls_elim split: if_splits)

lemma EntryInsert_ok:
  assumes "queue_ok q" "EntryInsert md rnd db n w q = Some (q', es)"
  shows "queue_ok q'"
proof -
  obtain pos where p: "insert_at pos w (map (shift_up w) (q_queue q)) = Some (q_queue q')"
    using EntryInsert_order(1) [OF assms(2)] by blast
  note e = insert_at_set [OF EntryInsert_order(2) [OF assms(2)]] and i = insert_at_set [OF p] and ok = queue_okD [OF assms(1)]
  show ?thesis
  proof (rule queue_okI)
    show "distinct (q_queue q')"
      unfolding i(2) distinct_map set_map using shift_up_free inj_shift_up ok(1) by blast
    show "set (q_queue q') = {..<length (q_entries q')}"
      unfolding i(1) set_map ok(2) e(3) using shift_up_image [OF e(4)] .
  next
    fix x assume "x \<in> set (q_entries q')"
    then show "e_db x \<noteq> None"
      unfolding e(1) using ok(3) by (auto simp: Entry_def)
  qed
qed

section \<open>Removing entries\<close>

text \<open>What becomes of an index when a range of entries goes.\<close>

definition shift_down :: "nat \<Rightarrow> nat \<Rightarrow> nat \<Rightarrow> nat option" where
  "shift_down from to e = (if e \<ge> to then Some (from + (e - to)) else if e < from then Some e else None)"

lemma entry_remove_loop_result:
  assumes "j \<le> i" "i \<le> length queue" "entry_remove_loop from to current i j new_current set_now queue = (c, s, queue')"
  shows "length queue' = length queue \<and>
    take (j + length (List.map_filter (shift_down from to) (drop i queue))) queue' = take j queue @ List.map_filter (shift_down from to) (drop i queue) \<and>
    c = (if i \<le> current \<and> current < length queue then j + length (List.map_filter (shift_down from to) (take (current - i) (drop i queue))) else new_current) \<and>
    s = (set_now \<or> i \<le> current \<and> current < length queue \<and> shift_down from to (queue ! current) = None)"
  using assms
proof (induction "from" "to" current i j new_current set_now queue rule: entry_remove_loop.induct)
  case (1 "from" "to" current i j new_current set_now queue)
  let ?F = "List.map_filter (shift_down from to)"
  show ?case
  proof (cases "i < length queue")
    case False
    then have "c = new_current" "s = set_now" "queue' = queue"
      using 1(6) by (subst (asm) entry_remove_loop.simps, simp)+
    then show ?thesis
      using 1(5) False by (auto simp: map_filter_simps)
  next
    case True
    define e where "e = queue ! i"
    define nc where "nc = (if current = i then j else new_current)"
    have d: "drop i queue = e # drop (Suc i) queue"
      using True by (simp add: e_def Cons_nth_drop_Suc)
    have cur: "take (current - i) (drop i queue) = (if current \<le> i then [] else e # take (current - Suc i) (drop (Suc i) queue))"
      unfolding d by (auto simp: take_Cons')
    show ?thesis
    proof (cases "shift_down from to e")
      case None
      then have "\<not> e \<ge> to" "\<not> e < from"
        by (auto simp: shift_down_def split: if_splits)
      then have step: "entry_remove_loop from to current (i + 1) j nc (set_now \<or> current = i) queue = (c, s, queue')"
        using 1(6) True by (simp add: entry_remove_loop.simps [of "from" "to" current i] Let_def nc_def e_def)
      show ?thesis
        using 1(3) [OF True nc_def e_def \<open>\<not> e \<ge> to\<close> \<open>\<not> e < from\<close> _ _ step] 1(4,5) True None d cur
        by (auto simp: map_filter_simps nc_def e_def)
    next
      case (Some e')
      let ?q = "queue[j := e']"
      have step: "entry_remove_loop from to current (i + 1) (j + 1) nc set_now ?q = (c, s, queue')"
        using 1(6) True Some by (auto simp: entry_remove_loop.simps [of "from" "to" current i] Let_def nc_def e_def shift_down_def split: if_splits)
      have q: "drop (Suc i) ?q = drop (Suc i) queue" "take (Suc j) ?q = take j queue @ [e']" "current > i \<Longrightarrow> ?q ! current = queue ! current"
        using 1(4) True by (auto simp: take_Suc_conv_app_nth)
      have IH: "length queue' = length ?q \<and>
          take (j + 1 + length (?F (drop (i + 1) ?q))) queue' = take (j + 1) ?q @ ?F (drop (i + 1) ?q) \<and>
          c = (if i + 1 \<le> current \<and> current < length ?q then j + 1 + length (?F (take (current - (i + 1)) (drop (i + 1) ?q))) else nc) \<and>
          s = (set_now \<or> i + 1 \<le> current \<and> current < length ?q \<and> shift_down from to (?q ! current) = None)"
      proof (cases "e \<ge> to")
        case True
        then have "e' = from + (e - to)"
          using Some by (simp add: shift_down_def)
        then show ?thesis
          using 1(1) [OF \<open>i < length queue\<close> nc_def e_def True] step 1(4,5) \<open>i < length queue\<close> by auto
      next
        case False
        then have "e < from" "e' = e"
          using Some by (auto simp: shift_down_def split: if_splits)
        then show ?thesis
          using 1(2) [OF \<open>i < length queue\<close> nc_def e_def False \<open>e < from\<close>] step 1(4,5) \<open>i < length queue\<close> by auto
      qed
      show ?thesis
        using IH 1(4) True Some d cur q by (auto simp: map_filter_simps nc_def e_def)
    qed
  qed
qed

text \<open>The indexes that stay are those of the entries that stay.\<close>

lemma shift_down_range:
  assumes "distinct xs" "set xs = {..<n}" "from \<le> to" "to \<le> n"
  shows "distinct (List.map_filter (shift_down from to) xs)" "set (List.map_filter (shift_down from to) xs) = {..<n - (to - from)}"
proof -
  have "inj_on (the \<circ> shift_down from to) {x. shift_down from to x \<noteq> None}"
    by (auto simp: inj_on_def shift_down_def split: if_splits)
  then show "distinct (List.map_filter (shift_down from to) xs)"
    using assms(1) by (auto simp: List.map_filter_def distinct_map intro: inj_on_subset)
  have "k < n - (to - from) \<longleftrightarrow> (\<exists>x<n. shift_down from to x = Some k)" for k
  proof
    assume k: "k < n - (to - from)"
    show "\<exists>x<n. shift_down from to x = Some k"
    proof (cases "k < from")
      case True
      then show ?thesis
        using assms(3,4) by (intro exI [of _ k]) (auto simp: shift_down_def)
    next
      case False
      then show ?thesis
        using assms(3,4) k by (intro exI [of _ "k + (to - from)"]) (auto simp: shift_down_def)
    qed
  qed (use assms(3,4) in \<open>auto simp: shift_down_def split: if_splits\<close>)
  then show "set (List.map_filter (shift_down from to) xs) = {..<n - (to - from)}"
    using assms(2) by (force simp: List.map_filter_def)
qed

lemma erase_range_split:
  "erase_range from to xs = Some ys \<Longrightarrow> ys = take from xs @ drop to xs \<and> from \<le> to \<and> to \<le> length xs \<and> length ys = length xs - (to - from)"
  by (auto simp: erase_range_def split: if_splits)

text \<open>The queue without some entries, before the player is told.\<close>

definition next_current :: "nat \<Rightarrow> nat \<Rightarrow> 'd queue \<Rightarrow> nat" where
  "next_current from to q =
     (if q_current q < length (q_queue q) then length (List.map_filter (shift_down from to) (take (q_current q) (q_queue q))) else 0)"

definition without_entries :: "nat \<Rightarrow> nat \<Rightarrow> 'd queue \<Rightarrow> 'd queue" where
  "without_entries from to q =
     (let n = length (q_entries q) - (to - from); k = next_current from to q in
      q\<lparr>q_entries := take from (q_entries q) @ drop to (q_entries q), q_queue := List.map_filter (shift_down from to) (q_queue q),
        q_current := (if k = n then 0 else k)\<rparr>)"

lemma without_entries_ok:
  assumes "queue_ok q" "from \<le> to" "to \<le> length (q_entries q)"
  shows "queue_ok (without_entries from to q)"
proof -
  note ok = queue_okD [OF assms(1)]
  note d = shift_down_range [OF ok(1,2) assms(2,3)]
  have w: "q_entries (without_entries from to q) = take from (q_entries q) @ drop to (q_entries q)"
    "q_queue (without_entries from to q) = List.map_filter (shift_down from to) (q_queue q)"
    by (simp_all add: without_entries_def Let_def)
  show ?thesis
  proof (rule queue_okI)
    fix x assume "x \<in> set (q_entries (without_entries from to q))"
    then have "x \<in> set (q_entries q)"
      unfolding w by (auto dest: in_set_takeD in_set_dropD)
    then show "e_db x \<noteq> None"
      by (rule ok(3))
  next
    show "set (q_queue (without_entries from to q)) = {..<length (q_entries (without_entries from to q))}"
      unfolding w d(2) using assms(2,3) by auto
  qed (unfold w, rule d(1))
qed

lemma EntryRemove_conv:
  assumes "queue_ok q" "from \<le> to" "to \<le> length (q_entries q)"
  shows "EntryRemove md from to q =
    (let next_entry = (if q_current q + 1 < length (q_queue q) then q_queue q ! (q_current q + 1) else 0) in
     set_urls md (q_current q < length (q_queue q) \<and> shift_down from to (q_queue q ! q_current q) = None)
       (next_entry \<ge> from \<and> next_entry < to) (without_entries from to q))"
proof -
  obtain c s queue where l: "entry_remove_loop from to (q_current q) 0 0 0 False (q_queue q) = (c, s, queue)"
    by (cases "entry_remove_loop from to (q_current q) 0 0 0 False (q_queue q)") auto
  note r = entry_remove_loop_result [OF le_refl le0 l]
  note ok = queue_okD [OF assms(1)]
  note d = shift_down_range [OF ok(1,2) assms(2,3)]
  let ?n = "length (q_entries q) - (to - from)" and ?F = "List.map_filter (shift_down from to) (q_queue q)"
  have n: "length ?F = ?n"
    using d by (metis card_lessThan distinct_card)
  have c: "c = next_current from to q" and s: "s = (q_current q < length (q_queue q) \<and> shift_down from to (q_queue q ! q_current q) = None)"
    and q: "take ?n queue = ?F" and len: "length queue = length (q_entries q)"
    using r n ok(4) by (auto simp: next_current_def)
  have e: "erase_range from to (q_entries q) = Some (take from (q_entries q) @ drop to (q_entries q))"
    using assms(2,3) by (simp add: erase_range_def)
  have n': "length (take from (q_entries q) @ drop to (q_entries q)) = ?n"
    using assms(2,3) by simp
  have "?n - length queue = 0"
    using len by simp
  then have "take ?n queue @ replicate (?n - length queue) 0 = ?F"
    using q by simp
  then show ?thesis
    unfolding EntryRemove_def Let_def e Option.bind.bind_lunit l prod.case n' without_entries_def c s by simp
qed

lemma EntryRemove_range: "EntryRemove md from to q = Some (q', es) \<Longrightarrow> from \<le> to \<and> to \<le> length (q_entries q)"
  by (auto simp: EntryRemove_def Let_def Option.bind_eq_Some_conv dest: erase_range_split)

lemma EntryRemove_ok:
  assumes "queue_ok q" "EntryRemove md from to q = Some (q', es)"
  shows "queue_ok q'"
proof -
  have r: "from \<le> to" "to \<le> length (q_entries q)"
    using EntryRemove_range [OF assms(2)] by auto
  show ?thesis
    using assms(2) without_entries_ok [OF assms(1) r] unfolding EntryRemove_conv [OF assms(1) r] Let_def
    by (simp add: set_urls_ok)
qed

section \<open>Removing from the queue\<close>

abbreviation kept :: "'d entry \<Rightarrow> bool" where
  "kept e \<equiv> e_db e \<noteq> None"

text \<open>The number of an entry among those that are kept.\<close>

definition rank_of :: "('a \<Rightarrow> bool) \<Rightarrow> 'a list \<Rightarrow> nat \<Rightarrow> nat" where
  "rank_of P xs k = length (filter P (take k xs))"

lemma number_entries_map:
  "map_of (number_entries i j es) k =
     (if i \<le> k \<and> k < i + length es \<and> kept (es ! (k - i)) then Some (j + rank_of kept es (k - i)) else None)"
proof (induction i j es rule: number_entries.induct)
  case (2 i j e es)
  show ?case
  proof (cases "k \<le> i")
    case True
    then show ?thesis
      using 2 by (auto simp: rank_of_def)
  next
    case False
    then have "k - i = Suc (k - Suc i)"
      by simp
    then show ?thesis
      using 2 False by (auto simp: rank_of_def)
  qed
qed simp

lemma new_index_rank: "k < length es \<Longrightarrow> kept (es ! k) \<Longrightarrow> new_index (number_entries 0 0 es) k = rank_of kept es k"
  by (simp add: new_index_def number_entries_map)

lemma rank_of_Suc: "k < length xs \<Longrightarrow> rank_of P xs (Suc k) = (if P (xs ! k) then Suc (rank_of P xs k) else rank_of P xs k)"
  by (simp add: rank_of_def take_Suc_conv_app_nth)

lemma rank_of_mono: "k \<le> l \<Longrightarrow> rank_of P xs k \<le> rank_of P xs l"
  unfolding rank_of_def by (metis filter_append length_append le_add1 min.absorb1 take_add take_take le_add_diff_inverse)

lemma rank_of_less:
  assumes "k < l" "k < length xs" "P (xs ! k)"
  shows "rank_of P xs k < rank_of P xs l"
  using rank_of_Suc [OF assms(2), of P] rank_of_mono [of "Suc k" l P xs] assms(1,3) by simp

lemma rank_of_nth: "k < length xs \<Longrightarrow> P (xs ! k) \<Longrightarrow> rank_of P xs k < length (filter P xs) \<and> filter P xs ! rank_of P xs k = xs ! k"
proof -
  assume k: "k < length xs" "P (xs ! k)"
  then have "filter P xs = filter P (take k xs) @ xs ! k # filter P (drop (Suc k) xs)"
    by (metis append_take_drop_id Cons_nth_drop_Suc filter.simps(2) filter_append)
  then show ?thesis
    by (simp add: rank_of_def nth_append)
qed

lemma rank_of_inj: "inj_on (rank_of P xs) {k. k < length xs \<and> P (xs ! k)}"
proof (rule inj_onI)
  fix k l assume "k \<in> {k. k < length xs \<and> P (xs ! k)}" "l \<in> {k. k < length xs \<and> P (xs ! k)}" "rank_of P xs k = rank_of P xs l"
  then show "k = l"
    using rank_of_less [of k l xs P] rank_of_less [of l k xs P] by (cases k l rule: linorder_cases) auto
qed

lemma rank_of_image: "rank_of P xs ` {k. k < length xs \<and> P (xs ! k)} = {..<length (filter P xs)}"
proof (rule card_subset_eq)
  show "rank_of P xs ` {k. k < length xs \<and> P (xs ! k)} \<subseteq> {..<length (filter P xs)}"
    using rank_of_nth by blast
  show "card (rank_of P xs ` {k. k < length xs \<and> P (xs ! k)}) = card {..<length (filter P xs)}"
    by (simp add: card_image [OF rank_of_inj] length_filter_conv_card)
qed simp

text \<open>Marking takes the database of the entries at those places, and changes nothing else.\<close>

lemma mark_removed_result:
  assumes "mark_removed is q = Some q'"
  shows "q_queue q' = q_queue q \<and> q_current q' = q_current q \<and> length (q_entries q') = length (q_entries q) \<and> (\<forall>i\<in>set is. i < length (q_queue q)) \<and>
    (\<forall>k<length (q_entries q). if k \<in> (!) (q_queue q) ` set is then \<not> kept (q_entries q' ! k) else q_entries q' ! k = q_entries q ! k)"
  using assms
proof (induction "is" arbitrary: q)
  case (Cons i "is")
  obtain e x where i: "nth_opt (q_queue q) i = Some e" "nth_opt (q_entries q) e = Some x"
    "mark_removed is (q\<lparr>q_entries := (q_entries q)[e := x\<lparr>e_db := None\<rparr>]\<rparr>) = Some q'"
    using Cons.prems by (auto simp: Option.bind_eq_Some_conv)
  then have "i < length (q_queue q)" "e = q_queue q ! i" "e < length (q_entries q)"
    by (auto simp: nth_opt_def split: if_splits)
  then show ?case
    using Cons.IH [OF i(3)] by (cases "q_queue q ! i \<in> (!) (q_queue q) ` set is") (auto simp: nth_list_update split: if_splits)
qed simp

lemma in_take_drop: "k \<in> set (take m xs @ drop n xs) \<longleftrightarrow> (\<exists>j<length xs. k = xs ! j \<and> (j < m \<or> n \<le> j))"
proof -
  have "k \<in> set (take m xs) \<longleftrightarrow> (\<exists>j<length xs. k = xs ! j \<and> j < m)"
    by (auto simp: in_set_conv_nth)
  moreover have "(\<exists>j<length xs. k = xs ! j \<and> n \<le> j) \<longleftrightarrow> (\<exists>i<length xs - n. k = xs ! (n + i))"
  proof
    assume "\<exists>j<length xs. k = xs ! j \<and> n \<le> j"
    then obtain j where "j < length xs" "k = xs ! j" "n \<le> j"
      by blast
    then show "\<exists>i<length xs - n. k = xs ! (n + i)"
      by (intro exI [of _ "j - n"]) auto
  next
    assume "\<exists>i<length xs - n. k = xs ! (n + i)"
    then obtain i where "i < length xs - n" "k = xs ! (n + i)"
      by blast
    then show "\<exists>j<length xs. k = xs ! j \<and> n \<le> j"
      by (intro exI [of _ "n + i"]) auto
  qed
  then have "k \<in> set (drop n xs) \<longleftrightarrow> (\<exists>j<length xs. k = xs ! j \<and> n \<le> j)"
    by (auto simp: in_set_conv_nth)
  ultimately show ?thesis
    by auto
qed

lemma mark_removed_returns:
  assumes "\<forall>i\<in>set is. i < length (q_queue q) \<and> q_queue q ! i < length (q_entries q)"
  shows "\<exists>q'. mark_removed is q = Some q'"
  using assms by (induction "is" arbitrary: q) (simp_all add: nth_opt_def)

text \<open>The queue without the places from one to another, before the player is told.\<close>

definition without_places :: "nat \<Rightarrow> nat \<Rightarrow> 'd queue \<Rightarrow> 'd queue" where
  "without_places from to q =
     (let marked = q_entries (the (mark_removed [from..<to] q)) in
      q\<lparr>q_entries := filter kept marked, q_queue := map (rank_of kept marked) (take from (q_queue q) @ drop to (q_queue q))\<rparr>)"

lemma mark_removed_frame: "mark_removed is q = Some q' \<Longrightarrow> q' = q\<lparr>q_entries := q_entries q'\<rparr>"
proof (induction "is" arbitrary: q)
  case (Cons i "is")
  then show ?case
    by (fastforce simp: Option.bind_eq_Some_conv)
qed simp

lemma without_places_order:
  assumes "queue_ok q" "from \<le> to" "to \<le> length (q_entries q)"
  defines "marked \<equiv> q_entries (the (mark_removed [from..<to] q))"
  shows "mark_removed [from..<to] q = Some (q\<lparr>q_entries := marked\<rparr>)" "length marked = length (q_entries q)"
    "\<And>k. k < length (q_entries q) \<Longrightarrow> if k \<in> (!) (q_queue q) ` {from..<to} then \<not> kept (marked ! k) else marked ! k = q_entries q ! k"
    "set (take from (q_queue q) @ drop to (q_queue q)) = {k. k < length marked \<and> kept (marked ! k)}"
proof -
  note ok = queue_okD [OF assms(1)]
  let ?left = "take from (q_queue q) @ drop to (q_queue q)"
  obtain q1 where q1: "mark_removed [from..<to] q = Some q1"
    using mark_removed_returns [of "[from..<to]" q] queue_ok_nth(2) [OF assms(1)] ok(4) assms(3) by auto
  then have m: "q_entries q1 = marked"
    by (simp add: marked_def)
  show "mark_removed [from..<to] q = Some (q\<lparr>q_entries := marked\<rparr>)"
    using q1 mark_removed_frame [OF q1] by (simp add: m)
  note r = mark_removed_result [OF q1, unfolded set_upt m]
  show l: "length marked = length (q_entries q)"
    using r by (elim conjE)
  have "\<forall>k<length (q_entries q). if k \<in> (!) (q_queue q) ` {from..<to} then \<not> kept (marked ! k) else marked ! k = q_entries q ! k"
    using r by (elim conjE)
  then show f: "if k \<in> (!) (q_queue q) ` {from..<to} then \<not> kept (marked ! k) else marked ! k = q_entries q ! k" if "k < length (q_entries q)" for k
    using that by blast
  show "set ?left = {k. k < length marked \<and> kept (marked ! k)}"
  proof (intro equalityI subsetI)
    fix k assume k: "k \<in> set ?left"
    then obtain j where j: "k = q_queue q ! j" "j < length (q_queue q)" "j < from \<or> to \<le> j"
      unfolding in_take_drop by blast
    then have "k \<notin> (!) (q_queue q) ` {from..<to}"
      using assms(2,3) ok(1,4) by (auto simp: nth_eq_iff_index_eq)
    moreover have "k < length (q_entries q)"
      using ok(2) j by (metis lessThan_iff nth_mem)
    ultimately show "k \<in> {k. k < length marked \<and> kept (marked ! k)}"
      using l f [of k] ok(3) by auto
  next
    fix k assume k: "k \<in> {k. k < length marked \<and> kept (marked ! k)}"
    then have "k \<in> set (q_queue q)"
      using ok(2) l by simp
    then obtain j where j: "k = q_queue q ! j" "j < length (q_queue q)"
      by (auto simp: in_set_conv_nth)
    then have "j < from \<or> to \<le> j"
      using k l f [of k] by (auto split: if_splits)
    then show "k \<in> set ?left"
      unfolding in_take_drop using j by blast
  qed
qed

lemma without_places_ok:
  assumes "queue_ok q" "from \<le> to" "to \<le> length (q_entries q)"
  shows "queue_ok (without_places from to q)" "length (q_entries (without_places from to q)) = length (q_entries q) - (to - from)"
proof -
  note ok = queue_okD [OF assms(1)]
  define marked where "marked = q_entries (the (mark_removed [from..<to] q))"
  let ?left = "take from (q_queue q) @ drop to (q_queue q)"
  note left = without_places_order(4) [OF assms, folded marked_def]
  have "distinct ?left"
    using ok(1) assms(2) by (auto simp: set_take_disj_set_drop_if_distinct)
  have w: "q_entries (without_places from to q) = filter kept marked" "q_queue (without_places from to q) = map (rank_of kept marked) ?left"
    by (simp_all add: without_places_def Let_def marked_def)
  show okw: "queue_ok (without_places from to q)"
    using \<open>distinct ?left\<close> rank_of_inj [of kept marked] rank_of_image [of kept marked] left
    by (intro queue_okI) (auto simp only: w distinct_map set_map set_filter)
  show "length (q_entries (without_places from to q)) = length (q_entries q) - (to - from)"
    using queue_okD(4) [OF okw] ok(4) assms(2,3) by (simp add: without_places_def Let_def)
qed

lemma QueueRemove_conv:
  assumes "queue_ok q" "from \<le> to" "to \<le> length (q_entries q)"
  shows "QueueRemove md from to q =
    (let q2 = without_places from to q in
     if q_current q \<ge> to then set_urls md False False (q2\<lparr>q_current := q_current q - (to - from)\<rparr>)
     else if q_current q \<ge> from then set_urls md True True (q2\<lparr>q_current := (if from = length (q_entries q2) then 0 else from)\<rparr>)
     else set_urls md False (from > 0 \<and> q_current q = from - 1) q2)"
proof -
  define marked where "marked = q_entries (the (mark_removed [from..<to] q))"
  let ?left = "take from (q_queue q) @ drop to (q_queue q)"
  note o = without_places_order [OF assms, folded marked_def]
  have "map (new_index (number_entries 0 0 marked)) ?left = map (rank_of kept marked) ?left"
    using o(4) new_index_rank by (intro map_cong refl) blast
  then have m: "q\<lparr>q_entries := filter kept marked, q_queue := map (new_index (number_entries 0 0 marked)) ?left\<rparr> = without_places from to q"
    by (simp only: without_places_def marked_def Let_def)
  have "erase_range from to (q_queue q) = Some ?left"
    using assms(2,3) queue_okD(4) [OF assms(1)] by (simp add: erase_range_def)
  then have "QueueRemove md from to q =
    (let q2 = q\<lparr>q_entries := filter kept marked, q_queue := map (new_index (number_entries 0 0 marked)) ?left\<rparr> in
     if q_current q \<ge> to then set_urls md False False (q2\<lparr>q_current := q_current q - (to - from)\<rparr>)
     else if q_current q \<ge> from then set_urls md True True (q2\<lparr>q_current := (if from = length (q_entries q2) then 0 else from)\<rparr>)
     else set_urls md False (from > 0 \<and> q_current q = from - 1) q2)"
    unfolding QueueRemove_def o(1) Option.bind.bind_lunit by (simp add: Let_def cong: if_cong)
  then show ?thesis
    unfolding m .
qed

lemma QueueRemove_range:
  assumes "queue_ok q" "QueueRemove md from to q = Some (q', es)"
  shows "from \<le> to" "to \<le> length (q_entries q)"
proof -
  obtain q1 queue where q1: "mark_removed [from..<to] q = Some q1" "erase_range from to (q_queue q1) = Some queue"
    using assms(2) by (auto simp: QueueRemove_def Option.bind_eq_Some_conv Let_def)
  have "q_queue q1 = q_queue q"
    using arg_cong [OF mark_removed_frame [OF q1(1)], of q_queue] by simp
  then show "from \<le> to" "to \<le> length (q_entries q)"
    using erase_range_split [OF q1(2)] queue_okD(4) [OF assms(1)] by auto
qed

lemma queue_ok_current [simp]: "queue_ok (q\<lparr>q_current := c\<rparr>) = queue_ok q"
  by (simp add: queue_ok_def)

lemma QueueRemove_ok:
  assumes "queue_ok q" "QueueRemove md from to q = Some (q', es)"
  shows "queue_ok q'"
  using assms(2) without_places_ok(1) [OF assms(1) QueueRemove_range [OF assms]]
  unfolding QueueRemove_conv [OF assms(1) QueueRemove_range [OF assms]] Let_def
  by (auto simp: set_urls_ok split: if_splits)

section \<open>The other operations\<close>

lemma SetPlayState_same:
  assumes "SetPlayState md s q = Some (q', es)"
  shows "same_order q q'"
  using assms by (auto simp: SetPlayState_def same_order_def Option.bind_eq_Some_conv split: if_splits dest!: set_urls_same)

lemma Seek_order:
  assumes "Seek md index q = Some (q', es)"
  shows "q_queue q' = q_queue q" "q_entries q' = q_entries q" "q_current q' = (if index < length (q_queue q) then index else q_current q)"
proof -
  obtain q1 es1 es2 where q1: "set_urls md True True (if index < length (q_queue q) then q\<lparr>q_current := index\<rparr> else q) = Some (q1, es1)"
    "SetPlayState md (q_state (if index < length (q_queue q) then q\<lparr>q_current := index\<rparr> else q)) q1 = Some (q', es2)"
    using assms set_urls_same by (fastforce simp: Seek_def Let_def Option.bind_eq_Some_conv same_order_def)
  show "q_queue q' = q_queue q" "q_entries q' = q_entries q" "q_current q' = (if index < length (q_queue q) then index else q_current q)"
    using set_urls_same [OF q1(1)] SetPlayState_same [OF q1(2)] by (auto simp: same_order_def split: if_splits)
qed

text \<open>The two parts of the shuffled queue.\<close>

definition played :: "'d queue \<Rightarrow> nat \<Rightarrow> bool" where
  "played q i \<longleftrightarrow> e_flags (q_entries q ! i) AND PLAYED \<noteq> 0"

definition reordered :: "(nat list \<Rightarrow> nat list) \<Rightarrow> (nat list \<Rightarrow> nat list) \<Rightarrow> bool \<Rightarrow> 'd queue \<Rightarrow> 'd queue" where
  "reordered shuffle shuffle' whether q =
     (let c = q_queue q ! q_current q; n = length (q_entries q);
          before = shuffle (filter (\<lambda>i. i \<noteq> c \<and> played q i) [0..<n]);
          behind = shuffle' (filter (\<lambda>i. i \<noteq> c \<and> \<not> played q i) [0..<n])
      in if whether then q\<lparr>q_shuffled := True, q_queue := before @ c # behind, q_current := length before\<rparr>
         else q\<lparr>q_shuffled := False, q_queue := [0..<n], q_current := c\<rparr>)"

lemma SetShuffle_reordered:
  assumes "whether \<noteq> q_shuffled q" "1 < length (q_entries q)"
  shows "SetShuffle md shuffle shuffle' whether q =
    (if q_current q < length (q_queue q) then SetNextURL md (reordered shuffle shuffle' whether q) else None)"
  using assms by (cases whether) (simp_all add: SetShuffle_def reordered_def Let_def nth_opt_def played_def)

lemma reordered_order:
  assumes "queue_ok q" "q_current q < length (q_queue q)" "\<And>xs. mset (shuffle xs) = mset xs" "\<And>xs. mset (shuffle' xs) = mset xs"
    and q': "q' = reordered shuffle shuffle' whether q"
  shows "q_entries q' = q_entries q" "q_current q' < length (q_queue q')" "q_queue q' ! q_current q' = q_queue q ! q_current q"
    "queue_ok q'" "q_shuffled q' = whether"
    "whether \<Longrightarrow> set (take (q_current q') (q_queue q')) = {i. i < length (q_entries q) \<and> i \<noteq> q_queue q ! q_current q \<and> played q i}"
    "whether \<Longrightarrow> set (drop (q_current q' + 1) (q_queue q')) = {i. i < length (q_entries q) \<and> i \<noteq> q_queue q ! q_current q \<and> \<not> played q i}"
    "\<not> whether \<Longrightarrow> q_queue q' = [0..<length (q_entries q)]"
proof -
  let ?n = "length (q_entries q)"
  define c where "c = q_queue q ! q_current q"
  define before where "before = shuffle (filter (\<lambda>i. i \<noteq> c \<and> played q i) [0..<?n])"
  define behind where "behind = shuffle' (filter (\<lambda>i. i \<noteq> c \<and> \<not> played q i) [0..<?n])"
  note ok = queue_okD [OF assms(1)]
  have c: "c < ?n"
    using ok(2) nth_mem [OF assms(2)] by (simp add: c_def)
  have sets: "set before = {i. i < ?n \<and> i \<noteq> c \<and> played q i}" "set behind = {i. i < ?n \<and> i \<noteq> c \<and> \<not> played q i}"
    using mset_eq_setD [OF assms(3)] mset_eq_setD [OF assms(4)] by (auto simp: before_def behind_def)
  have dist: "distinct before" "distinct behind"
    unfolding before_def behind_def mset_eq_imp_distinct_iff [OF assms(3)] mset_eq_imp_distinct_iff [OF assms(4)] by simp_all
  have r: "q_entries q' = q_entries q \<and> q_queue q' = (if whether then before @ c # behind else [0..<?n]) \<and> q_current q' = (if whether then length before else c) \<and>
      q_shuffled q' = whether"
    by (simp add: q' reordered_def Let_def before_def behind_def c_def)
  then show "q_entries q' = q_entries q" "q_current q' < length (q_queue q')" "q_queue q' ! q_current q' = q_queue q ! q_current q" "q_shuffled q' = whether"
    "whether \<Longrightarrow> set (take (q_current q') (q_queue q')) = {i. i < ?n \<and> i \<noteq> q_queue q ! q_current q \<and> played q i}"
    "whether \<Longrightarrow> set (drop (q_current q' + 1) (q_queue q')) = {i. i < ?n \<and> i \<noteq> q_queue q ! q_current q \<and> \<not> played q i}"
    "\<not> whether \<Longrightarrow> q_queue q' = [0..<?n]"
    using c sets by (auto simp: c_def nth_append)
  show "queue_ok q'"
  proof (rule queue_okI)
    show "distinct (q_queue q')"
      using r dist sets by auto
    have "insert c (set before \<union> set behind) = {..<?n}"
      unfolding sets using c by blast
    moreover have "set (q_queue q') = (if whether then insert c (set before \<union> set behind) else {..<?n})"
      using r by (simp add: lessThan_atLeast0)
    ultimately show "set (q_queue q') = {..<length (q_entries q')}"
      using r by (simp only: if_cancel)
    show "e_db e \<noteq> None" if "e \<in> set (q_entries q')" for e
      using r that ok(3) by simp
  qed
qed

lemma SetShuffle_ok:
  assumes "queue_ok q" "SetShuffle md shuffle shuffle' whether q = Some (q', es)"
    "\<And>xs. mset (shuffle xs) = mset xs" "\<And>xs. mset (shuffle' xs) = mset xs"
  shows "queue_ok q'"
proof (cases "whether = q_shuffled q \<or> length (q_entries q) \<le> 1")
  case True
  then show ?thesis
    using assms(1,2) by (auto simp: SetShuffle_def queue_ok_def Let_def split: if_splits)
next
  case False
  then have "q_current q < length (q_queue q)" "SetNextURL md (reordered shuffle shuffle' whether q) = Some (q', es)"
    using assms(2) SetShuffle_reordered [of whether q md shuffle shuffle'] by (auto split: if_splits)
  then show ?thesis
    using same_order_ok [OF SetNextURL_same] reordered_order(4) [OF assms(1) _ assms(3,4) refl] by blast
qed

lemma set_played_ok:
  assumes "queue_ok q" "set_played i q = Some q'"
  shows "queue_ok q' \<and> q_queue q' = q_queue q \<and> q_current q' = q_current q \<and> length (q_entries q') = length (q_entries q)"
  using assms by (auto simp: set_played_def queue_ok_def nth_opt_def Option.bind_eq_Some_conv split: if_splits dest!: subsetD [OF set_update_subset_insert])

lemma OnURL_ok:
  assumes "queue_ok q" "OnURL md url q = Some (q', es)"
  shows "queue_ok q'"
proof -
  have u: "queue_ok (q\<lparr>q_current := c, q_expected_url := u, q_expected_next_url := v\<rparr>)" "queue_ok (q\<lparr>q_state := s\<rparr>)" for c u v s
    using assms(1) by (simp_all add: queue_ok_def)
  show ?thesis
    using assms u set_played_ok [OF assms(1)]
    by (auto simp: OnURL_def OnPlayState_def Let_def Option.bind_eq_Some_conv split: if_splits
        dest!: set_played_ok [OF u(1)] same_order_ok [OF SetNextURL_same])
qed

section \<open>Steps\<close>

text \<open>The steps of a queue: what the user does, and what the player says, in any order.\<close>

inductive queue_step :: "'d media \<Rightarrow> 'd queue \<Rightarrow> 'd queue \<Rightarrow> bool" for md where
  step_Add: "Add md db n q = Some (q', es) \<Longrightarrow> queue_step md q q'"
| step_QueueInsert: "QueueInsert md db n w q = Some (q', es) \<Longrightarrow> queue_step md q q'"
| step_EntryInsert: "EntryInsert md rnd db n w q = Some (q', es) \<Longrightarrow> queue_step md q q'"
| step_QueueRemove: "QueueRemove md from to q = Some (q', es) \<Longrightarrow> queue_step md q q'"
| step_EntryRemove: "EntryRemove md from to q = Some (q', es) \<Longrightarrow> queue_step md q q'"
| step_SetPlayState: "SetPlayState md s q = Some (q', es) \<Longrightarrow> queue_step md q q'"
| step_SetShuffle: "SetShuffle md shuffle shuffle' whether q = Some (q', es) \<Longrightarrow> (\<And>xs. mset (shuffle xs) = mset xs) \<Longrightarrow>
    (\<And>xs. mset (shuffle' xs) = mset xs) \<Longrightarrow> queue_step md q q'"
| step_Seek: "Seek md index q = Some (q', es) \<Longrightarrow> queue_step md q q'"
| step_SetName: "queue_step md q (SetName n q)"
| step_OnPlayState: "OnPlayState s q = (q', es) \<Longrightarrow> queue_step md q q'"
| step_OnURL: "OnURL md url q = Some (q', es) \<Longrightarrow> queue_step md q q'"
| step_OnTimeCode: "OnTimeCode t q = (q', es) \<Longrightarrow> queue_step md q q'"

inductive queue_reachable :: "'d media \<Rightarrow> 'd queue \<Rightarrow> bool" for md where
  start: "queue_reachable md Queue"
| step: "queue_reachable md q \<Longrightarrow> queue_step md q q' \<Longrightarrow> queue_reachable md q'"

lemma queue_step_ok: "queue_step md q q' \<Longrightarrow> queue_ok q \<Longrightarrow> queue_ok q'"
proof (induction rule: queue_step.induct)
  case (step_Seek index q q' es)
  then show ?case
    using Seek_order [OF step_Seek(1)] by (simp add: queue_ok_def)
next
  case (step_SetPlayState s q q' es)
  then show ?case
    using same_order_ok [OF SetPlayState_same] by blast
next
  case (step_SetShuffle shuffle shuffle' whether q q' es)
  then show ?case
    using SetShuffle_ok by blast
next
  case (step_SetName q n)
  then show ?case
    by (simp add: queue_ok_def SetName_def)
next
  case (step_OnPlayState s q q' es)
  then show ?case
    by (auto simp: queue_ok_def OnPlayState_def)
next
  case (step_OnTimeCode t q q' es)
  then show ?case
    by (auto simp: OnTimeCode_def)
qed (blast intro: Add_ok QueueInsert_ok EntryInsert_ok QueueRemove_ok EntryRemove_ok OnURL_ok)+

lemma queue_reachable_ok: "queue_reachable md q \<Longrightarrow> queue_ok q"
proof (induction rule: queue_reachable.induct)
  case start
  show ?case
    by (simp add: Queue_def queue_ok_def)
qed (rule queue_step_ok)

end
