(* ===== verification/PlayQueueProps.thy ===== *)
theory PlayQueueProps
  imports PlayQueueInv
begin

text \<open>
  What the queue of a player does: it plays its entries in order, shuffling keeps what has been played
  behind, removing what is not playing does not interrupt; and the states in which it loses its place.
\<close>

section \<open>Order\<close>

text \<open>C31: Whatever the user and the player do, and whatever the random numbers are, the queue holds each
  entry exactly once.\<close>
theorem queue_is_order:
  assumes "queue_reachable md q"
  shows "distinct (q_queue q) \<and> set (q_queue q) = {..<Count q}"
  using queue_okD [OF queue_reachable_ok [OF assms]] by (simp add: Count_def)

definition example_player :: "unit media" where
  "example_player = \<lparr>GetURL = (\<lambda>_ n. ''test:'' @ dec (unat n)), metadata = (\<lambda>_ _. [])\<rparr>"

definition queue_of :: "nat \<Rightarrow> unit queue" where
  "queue_of n = \<lparr>q_current = 0, q_queue = [0..<n], q_entries = map (Entry ()) (map of_nat [1..<Suc n]), q_name = [], q_shuffled = False,
     q_expected_url = [], q_expected_next_url = (if n \<ge> 2 then ''test:2'' else []), q_state = STOP\<rparr>"

lemma queue_of_Add: "queue_of 0 = Queue" "map_option fst (Add example_player () 1 (queue_of 0)) = Some (queue_of 1)"
  "map_option fst (Add example_player () 2 (queue_of 1)) = Some (queue_of 2)" "map_option fst (Add example_player () 3 (queue_of 2)) = Some (queue_of 3)"
  by (simp add: queue_of_def Queue_def) code_simp+

lemma queue_of_reachable: "queue_reachable example_player (queue_of 3)"
proof -
  have "queue_reachable example_player (queue_of 0)"
    unfolding queue_of_Add(1) by (rule start)
  moreover have "queue_step example_player (queue_of 0) (queue_of 1)" "queue_step example_player (queue_of 1) (queue_of 2)"
    "queue_step example_player (queue_of 2) (queue_of 3)"
    using queue_of_Add(2-4) by (auto simp del: One_nat_def dest!: step_Add)
  ultimately show ?thesis
    using step by blast
qed

theorem queue_is_order_witness: "distinct (q_queue (queue_of 3)) \<and> set (q_queue (queue_of 3)) = {..<Count (queue_of 3)}"
  using queue_is_order [OF queue_of_reachable] .

section \<open>Shuffling\<close>

text \<open>C32: Shuffling keeps the current entry the current one, puts the others that have been played before
  it and those that have not after it; unshuffling brings back the original order, at the same entry.\<close>
theorem shuffle_bipartite:
  assumes "queue_reachable md q" "q_current q < Count q" "1 < Count q" "\<not> q_shuffled q"
    "\<And>xs. mset (shuffle xs) = mset xs" "\<And>xs. mset (shuffle' xs) = mset xs"
  shows "\<exists>q1 es1 q2 es2. SetShuffle md shuffle shuffle' True q = Some (q1, es1) \<and>
    q_queue q1 ! q_current q1 = q_queue q ! q_current q \<and>
    set (take (q_current q1) (q_queue q1)) = {i. i < Count q \<and> i \<noteq> q_queue q ! q_current q \<and> played q i} \<and>
    set (drop (q_current q1 + 1) (q_queue q1)) = {i. i < Count q \<and> i \<noteq> q_queue q ! q_current q \<and> \<not> played q i} \<and>
    SetShuffle md shuffle shuffle' False q1 = Some (q2, es2) \<and> q_queue q2 = [0..<Count q] \<and>
    q_current q2 = q_queue q ! q_current q \<and> q_entries q2 = q_entries q"
proof -
  have ok: "queue_ok q"
    using queue_reachable_ok [OF assms(1)] .
  let ?r1 = "reordered shuffle shuffle' True q"
  have c: "q_current q < length (q_queue q)"
    using assms(2) queue_okD(4) [OF ok] by (simp add: Count_def)
  note r1 = reordered_order [OF ok c assms(5,6) refl, of True]
  obtain q1 es1 where q1: "SetNextURL md ?r1 = Some (q1, es1)"
    using SetNextURL_returns [OF r1(4)] by blast
  note s1 = SetNextURL_same [OF q1, unfolded same_order_def]
  have ok1: "queue_ok q1" and c1: "q_current q1 < length (q_queue q1)"
    using same_order_ok [OF SetNextURL_same [OF q1]] r1(2,4) s1 by simp_all
  note r2 = reordered_order [OF ok1 c1 assms(5,6) refl, of False]
  obtain q2 es2 where q2: "SetNextURL md (reordered shuffle shuffle' False q1) = Some (q2, es2)"
    using SetNextURL_returns [OF r2(4)] by blast
  note s2 = SetNextURL_same [OF q2, unfolded same_order_def]
  have "q_current (reordered shuffle shuffle' False q1) = q_queue q1 ! q_current q1"
    by (simp add: reordered_def Let_def)
  moreover have "SetShuffle md shuffle shuffle' True q = Some (q1, es1)"
    using SetShuffle_reordered [of True q md shuffle shuffle'] assms(3,4) c q1 by (simp add: Count_def)
  moreover have "SetShuffle md shuffle shuffle' False q1 = Some (q2, es2)"
    using SetShuffle_reordered [of False q1 md shuffle shuffle'] assms(3) c1 q2 s1 r1(1,5) by (simp add: Count_def)
  ultimately show ?thesis
    using r1 r2 s1 s2 by (simp add: Count_def)
qed

theorem shuffle_bipartite_witness:
  "\<exists>q1 es1 q2 es2. SetShuffle example_player rev rev True (queue_of 3) = Some (q1, es1) \<and>
    q_queue q1 ! q_current q1 = q_queue (queue_of 3) ! 0 \<and>
    SetShuffle example_player rev rev False q1 = Some (q2, es2) \<and> q_queue q2 = [0..<3]"
proof -
  have "q_current (queue_of 3) = 0" "Count (queue_of 3) = 3" "\<not> q_shuffled (queue_of 3)"
    by (simp_all add: queue_of_def Count_def)
  then show ?thesis
    using shuffle_bipartite [OF queue_of_reachable, of rev rev] by auto
qed

section \<open>Removing what is not playing\<close>

text \<open>The item that is playing.\<close>

definition current_item :: "'d queue \<Rightarrow> 'd option \<times> u32" where
  "current_item q = (let e = q_entries q ! (q_queue q ! q_current q) in (e_db e, e_id e))"

definition sets_url :: "effect \<Rightarrow> bool" where
  "sets_url e = (case e of Player_SetURL u m \<Rightarrow> True | _ \<Rightarrow> False)"

lemma set_urls_quiet: "set_urls md False b q = Some (q', es) \<Longrightarrow> \<not> list_ex sets_url es"
  by (auto simp: set_urls_def SetNextURL_def Let_def sets_url_def Option.bind_eq_Some_conv split: if_splits)

lemma map_filter_nth:
  assumes "k < length xs" "f (xs ! k) = Some y"
  shows "length (List.map_filter f (take k xs)) < length (List.map_filter f xs)" "List.map_filter f xs ! length (List.map_filter f (take k xs)) = y"
proof -
  have "List.map_filter f xs = List.map_filter f (take k xs) @ List.map_filter f (xs ! k # drop (Suc k) xs)"
    using assms(1) by (metis Cons_nth_drop_Suc append_take_drop_id List.map_filter_def filter_append map_append)
  then show "length (List.map_filter f (take k xs)) < length (List.map_filter f xs)" "List.map_filter f xs ! length (List.map_filter f (take k xs)) = y"
    using assms(2) by (simp_all add: map_filter_simps)
qed

lemma without_entries_current:
  assumes "queue_ok q" "from \<le> to" "to \<le> length (q_entries q)" "q_current q < length (q_queue q)" "shift_down from to (q_queue q ! q_current q) = Some e"
  shows "q_current (without_entries from to q) < length (q_entries (without_entries from to q))"
    "current_item (without_entries from to q) = current_item q"
proof -
  let ?w = "without_entries from to q" and ?e = "q_queue q ! q_current q"
  note m = map_filter_nth [of _ _ "shift_down from to", OF assms(4,5)]
  have n: "length (List.map_filter (shift_down from to) (q_queue q)) = length (q_entries q) - (to - from)"
    using queue_okD(4) [OF without_entries_ok [OF assms(1-3)]] assms(2,3) by (simp add: without_entries_def Let_def)
  have w: "q_current ?w = length (List.map_filter (shift_down from to) (take (q_current q) (q_queue q)))"
    "q_queue ?w ! q_current ?w = e" "q_entries ?w = take from (q_entries q) @ drop to (q_entries q)"
    using assms(4) m n by (simp_all add: without_entries_def next_current_def Let_def)
  show "q_current ?w < length (q_entries ?w)"
    using m(1) n w(1,3) assms(2,3) by simp
  have "?e < length (q_entries q)"
    using queue_okD(2) [OF assms(1)] nth_mem [OF assms(4)] by simp
  then have "q_entries ?w ! e = q_entries q ! ?e"
    using assms(2,3,5) by (auto simp: w(3) shift_down_def nth_append split: if_splits)
  then show "current_item ?w = current_item q"
    by (simp add: current_item_def w(2))
qed

lemma without_places_current:
  assumes "queue_ok q" "from \<le> to" "to \<le> length (q_entries q)" "q_current q < length (q_queue q)" "q_current q < from \<or> to \<le> q_current q"
    and c: "c = (if q_current q \<ge> to then q_current q - (to - from) else q_current q)"
  shows "c < length (q_entries (without_places from to q))" "current_item (without_places from to q\<lparr>q_current := c\<rparr>) = current_item q"
proof -
  let ?w = "without_places from to q"
  define marked where "marked = q_entries (the (mark_removed [from..<to] q))"
  let ?left = "take from (q_queue q) @ drop to (q_queue q)"
  note o = without_places_order [OF assms(1-3), folded marked_def] and ok = queue_okD [OF assms(1)]
  note l = without_places_ok(2) [OF assms(1-3)]
  show cl: "c < length (q_entries ?w)"
    using l assms(2-5) ok(4) c by auto
  have left: "?left ! c = q_queue q ! q_current q" "c < length ?left"
    using assms(2-5) ok(4) c by (auto simp: nth_append)
  let ?e = "q_queue q ! q_current q"
  have "?e \<in> set ?left"
    using nth_mem [OF left(2)] left(1) by simp
  then have e: "?e < length marked" "kept (marked ! ?e)"
    unfolding o(4) by auto
  have "?e \<notin> (!) (q_queue q) ` {from..<to}"
    using assms(3-5) ok(1,4) by (auto simp: nth_eq_iff_index_eq)
  then have "marked ! ?e = q_entries q ! ?e"
    using o(2) o(3) [of ?e] e(1) by simp
  moreover have "filter kept marked ! rank_of kept marked ?e = marked ! ?e"
    using rank_of_nth [of _ _ kept, OF e] by simp
  moreover have w: "q_queue ?w = map (rank_of kept marked) ?left" "q_entries ?w = filter kept marked"
    by (simp_all add: without_places_def marked_def Let_def)
  then have "q_queue ?w ! c = rank_of kept marked ?e"
    using left nth_map [OF left(2), of "rank_of kept marked"] by simp
  ultimately show "current_item (?w\<lparr>q_current := c\<rparr>) = current_item q"
    using w(2) by (simp add: current_item_def)
qed

text \<open>C33: Removing items that are not playing, by their places in the queue or in the original order, always
  returns; the item that was playing stays the current one, and the player is not told to play another.\<close>
theorem removal_keeps_playing:
  assumes "queue_reachable md q" "q_current q < Count q" "from \<le> to" "to \<le> Count q"
  shows "(q_current q < from \<or> to \<le> q_current q \<longrightarrow>
      (\<exists>q' es. QueueRemove md from to q = Some (q', es) \<and> q_current q' < Count q' \<and> current_item q' = current_item q \<and> \<not> list_ex sets_url es)) \<and>
    (q_queue q ! q_current q < from \<or> to \<le> q_queue q ! q_current q \<longrightarrow>
      (\<exists>q' es. EntryRemove md from to q = Some (q', es) \<and> q_current q' < Count q' \<and> current_item q' = current_item q \<and> \<not> list_ex sets_url es))"
proof -
  have ok: "queue_ok q"
    using queue_reachable_ok [OF assms(1)] .
  have to: "to \<le> length (q_entries q)" and c: "q_current q < length (q_queue q)"
    using assms(2,4) queue_okD(4) [OF ok] by (simp_all add: Count_def)
  have item: "current_item q' = current_item q2 \<and> q_current q' = q_current q2 \<and> Count q' = Count q2" if "set_urls md a b q2 = Some (q', es)" for a b q2 q' es
    using set_urls_order [OF that] by (simp add: current_item_def Count_def)
  have "\<exists>q' es. QueueRemove md from to q = Some (q', es) \<and> q_current q' < Count q' \<and> current_item q' = current_item q \<and> \<not> list_ex sets_url es"
    if p: "q_current q < from \<or> to \<le> q_current q"
  proof -
    define k where "k = (if q_current q \<ge> to then q_current q - (to - from) else q_current q)"
    let ?w = "without_places from to q\<lparr>q_current := k\<rparr>"
    note w = without_places_current [OF ok assms(3) to c p k_def]
    have "queue_ok ?w"
      using without_places_ok(1) [OF ok assms(3) to] by simp
    then obtain q' es where q': "set_urls md False (\<not> q_current q \<ge> to \<and> from > 0 \<and> q_current q = from - 1) ?w = Some (q', es)"
      using set_urls_returns by blast
    have "?w = without_places from to q" if "\<not> q_current q \<ge> to"
      using that by (simp add: k_def without_places_def Let_def)
    then have "QueueRemove md from to q = Some (q', es)"
      using q' p by (auto simp: QueueRemove_conv [OF ok assms(3) to] Let_def k_def split: if_splits)
    then show ?thesis
      using item [OF q'] set_urls_quiet [OF q'] w by (simp add: Count_def)
  qed
  moreover have "\<exists>q' es. EntryRemove md from to q = Some (q', es) \<and> q_current q' < Count q' \<and> current_item q' = current_item q \<and> \<not> list_ex sets_url es"
    if p: "q_queue q ! q_current q < from \<or> to \<le> q_queue q ! q_current q"
  proof -
    obtain e where e: "shift_down from to (q_queue q ! q_current q) = Some e"
      using p by (cases "to \<le> q_queue q ! q_current q") (auto simp: shift_down_def)
    note w = without_entries_current [OF ok assms(3) to c e]
    obtain q' es where q': "EntryRemove md from to q = Some (q', es)"
      "\<exists>b. set_urls md False b (without_entries from to q) = Some (q', es)"
      using set_urls_returns [OF without_entries_ok [OF ok assms(3) to]] e
      by (fastforce simp: EntryRemove_conv [OF ok assms(3) to] Let_def)
    then show ?thesis
      using item set_urls_quiet w by (force simp: Count_def)
  qed
  ultimately show ?thesis
    by blast
qed

theorem removal_keeps_playing_witness:
  "(\<exists>q' es. QueueRemove example_player 1 3 (queue_of 3) = Some (q', es) \<and> q_current q' < Count q' \<and>
     current_item q' = current_item (queue_of 3) \<and> \<not> list_ex sets_url es) \<and>
   (\<exists>q' es. EntryRemove example_player 1 3 (queue_of 3) = Some (q', es) \<and> q_current q' < Count q' \<and>
     current_item q' = current_item (queue_of 3) \<and> \<not> list_ex sets_url es)"
proof -
  have "q_current (queue_of 3) < Count (queue_of 3)" "q_current (queue_of 3) < 1" "q_queue (queue_of 3) ! q_current (queue_of 3) < 1" "3 \<le> Count (queue_of 3)"
    by (simp_all add: queue_of_def Count_def)
  then show ?thesis
    using removal_keeps_playing [OF queue_of_reachable, of 1 3] by simp
qed

section \<open>Playing\<close>

text \<open>The player of the tests, \<^verbatim>\<open>TestURLPlayer\<close>: what it does when it is told something, and what it says.\<close>

datatype callback = On_URL string | On_PlayState play_state

record test_player =
  tp_url :: string
  tp_next_url :: string
  tp_state :: play_state

definition TestURLPlayer :: test_player where
  "TestURLPlayer = \<lparr>tp_url = [], tp_next_url = [], tp_state = STOP\<rparr>"

fun tp_command :: "effect \<Rightarrow> test_player \<Rightarrow> test_player \<times> callback list" where
  "tp_command (Player_SetURL url m) p = (p\<lparr>tp_url := url\<rparr>, [On_URL url])"
| "tp_command (Player_SetNextURL url m) p = (p\<lparr>tp_next_url := url\<rparr>, [])"
| "tp_command (Player_SetPlayState s) p = (p\<lparr>tp_state := s\<rparr>, [On_PlayState s])"
| "tp_command (Fire_OnPlayState s) p = (p, [])"
| "tp_command (Fire_OnTimeCode i t) p = (p, [])"

fun tp_commands :: "effect list \<Rightarrow> test_player \<Rightarrow> test_player \<times> callback list" where
  "tp_commands [] p = (p, [])"
| "tp_commands (e # es) p = (let (p, cs) = tp_command e p; (p, ds) = tp_commands es p in (p, cs @ ds))"

definition FinishTrack :: "test_player \<Rightarrow> test_player \<times> callback list" where
  "FinishTrack p =
     (let p = p\<lparr>tp_url := tp_next_url p, tp_next_url := []\<rparr> in
      if tp_url p = [] then (p\<lparr>tp_state := STOP\<rparr>, [On_PlayState STOP]) else (p, [On_URL (tp_url p)]))"

text \<open>The queue and its player: what the player says reaches the queue, whose effects reach the player.\<close>

partial_function (option) deliver :: "'d media \<Rightarrow> callback list \<Rightarrow> 'd queue \<Rightarrow> test_player \<Rightarrow> ('d queue \<times> test_player) option" where
  "deliver md cs q p =
     (case cs of [] \<Rightarrow> Some (q, p)
      | On_URL u # cs \<Rightarrow> do {
          (q, es) \<leftarrow> OnURL md u q;
          let (p, ds) = tp_commands es p;
          deliver md (ds @ cs) q p }
      | On_PlayState s # cs \<Rightarrow>
          (let (q, es) = OnPlayState s q; (p, ds) = tp_commands es p in deliver md (ds @ cs) q p))"

declare deliver.simps [code]

definition perform :: "'d media \<Rightarrow> ('d queue \<Rightarrow> ('d queue \<times> effect list) option) \<Rightarrow> 'd queue \<times> test_player \<Rightarrow> ('d queue \<times> test_player) option" where
  "perform md f = (\<lambda>(q, p). do { (q, es) \<leftarrow> f q; let (p, cs) = tp_commands es p; deliver md cs q p })"

definition finish_track :: "'d media \<Rightarrow> 'd queue \<times> test_player \<Rightarrow> ('d queue \<times> test_player) option" where
  "finish_track md = (\<lambda>(q, p). let (p, cs) = FinishTrack p in deliver md cs q p)"

fun finish_tracks :: "'d media \<Rightarrow> nat \<Rightarrow> 'd queue \<times> test_player \<Rightarrow> ('d queue \<times> test_player) option" where
  "finish_tracks md 0 s = Some s"
| "finish_tracks md (Suc k) s = do { s \<leftarrow> finish_tracks md k s; finish_track md s }"

fun add_all :: "'d media \<Rightarrow> ('d \<times> u32) list \<Rightarrow> 'd queue \<times> test_player \<Rightarrow> ('d queue \<times> test_player) option" where
  "add_all md [] s = Some s"
| "add_all md ((db, n) # xs) s = do { s \<leftarrow> perform md (Add md db n) s; add_all md xs s }"

text \<open>The items of a queue in the order they are played.\<close>

definition item_url :: "'d media \<Rightarrow> 'd \<times> u32 \<Rightarrow> string" where
  "item_url md = (\<lambda>(db, n). GetURL md db n)"

definition plays_at :: "'d media \<Rightarrow> ('d \<times> u32) list \<Rightarrow> nat \<Rightarrow> 'd queue \<times> test_player \<Rightarrow> bool" where
  "plays_at md xs k = (\<lambda>(q, p).
     q_current q = k \<and> tp_url p = item_url md (xs ! k) \<and> tp_next_url p = (if k + 1 < length xs then item_url md (xs ! (k + 1)) else []) \<and>
     tp_state p = PLAY \<and> q_state q = PLAY \<and> (\<forall>i\<le>k. played q i))"

definition play_through :: "'d media \<Rightarrow> ('d \<times> u32) list \<Rightarrow> nat \<Rightarrow> ('d queue \<times> test_player) option" where
  "play_through md xs k = do {
     s \<leftarrow> add_all md xs (Queue, TestURLPlayer);
     s \<leftarrow> perform md (SetPlayState md PLAY) s;
     finish_tracks md k s }"

definition lined_up :: "('d \<times> u32) list \<Rightarrow> 'd queue \<Rightarrow> bool" where
  "lined_up xs q \<longleftrightarrow> q_queue q = [0..<length xs] \<and> length (q_entries q) = length xs \<and>
     (\<forall>i<length xs. e_db (q_entries q ! i) = Some (fst (xs ! i)) \<and> e_id (q_entries q ! i) = snd (xs ! i))"

definition url_ok :: "string \<Rightarrow> bool" where
  "url_ok u \<longleftrightarrow> u \<noteq> [] \<and> NUL \<notin> set u"

definition next_url :: "'d media \<Rightarrow> ('d \<times> u32) list \<Rightarrow> nat \<Rightarrow> string" where
  "next_url md xs k = (if k + 1 < length xs then item_url md (xs ! (k + 1)) else [])"

lemma lined_up_url:
  assumes "lined_up xs q" "\<forall>x\<in>set xs. url_ok (item_url md x)"
  shows "q_current q < length xs \<Longrightarrow> \<exists>m. SetURL md q =
      Some (q\<lparr>q_expected_url := item_url md (xs ! q_current q)\<rparr>, [Player_SetURL (item_url md (xs ! q_current q)) m])"
    "q_current q + 1 < length xs \<Longrightarrow> \<exists>m. SetNextURL md q =
      Some (q\<lparr>q_expected_next_url := item_url md (xs ! (q_current q + 1))\<rparr>, [Player_SetNextURL (item_url md (xs ! (q_current q + 1))) m])"
    "\<not> q_current q + 1 < length xs \<Longrightarrow> SetNextURL md q = Some (q, [])"
proof -
  have u: "c_str (item_url md (xs ! i)) = item_url md (xs ! i)" if "i < length xs" for i
    using assms(2) that by (intro c_str_id) (simp add: url_ok_def)
  show "q_current q < length xs \<Longrightarrow> \<exists>m. SetURL md q =
      Some (q\<lparr>q_expected_url := item_url md (xs ! q_current q)\<rparr>, [Player_SetURL (item_url md (xs ! q_current q)) m])"
    "q_current q + 1 < length xs \<Longrightarrow> \<exists>m. SetNextURL md q =
      Some (q\<lparr>q_expected_next_url := item_url md (xs ! (q_current q + 1))\<rparr>, [Player_SetNextURL (item_url md (xs ! (q_current q + 1))) m])"
    "\<not> q_current q + 1 < length xs \<Longrightarrow> SetNextURL md q = Some (q, [])"
    using assms(1) u [of "q_current q"] u [of "q_current q + 1"]
    by (auto simp: lined_up_def SetURL_def SetNextURL_def entry_at_def nth_opt_def Let_def item_url_def case_prod_beta)
qed

definition ready :: "'d media \<Rightarrow> ('d \<times> u32) list \<Rightarrow> 'd queue \<times> test_player \<Rightarrow> bool" where
  "ready md xs = (\<lambda>(q, p). lined_up xs q \<and> q_current q = 0 \<and> q_expected_next_url q = next_url md xs 0 \<and>
     tp_next_url p = next_url md xs 0)"

lemma lined_up_Add:
  "lined_up xs q \<Longrightarrow> lined_up (xs @ [(db, n)]) (q\<lparr>q_entries := q_entries q @ [Entry db n], q_queue := q_queue q @ [length (q_entries q)]\<rparr>)"
  by (auto simp: lined_up_def nth_append Entry_def less_Suc_eq)

lemma Add_ready:
  assumes "ready md xs s" "\<forall>x\<in>set (xs @ [(db, n)]). url_ok (item_url md x)"
  shows "\<exists>s'. perform md (Add md db n) s = Some s' \<and> ready md (xs @ [(db, n)]) s'"
proof -
  obtain q p where s: "s = (q, p)" "lined_up xs q" "q_current q = 0" "q_expected_next_url q = next_url md xs 0" "tp_next_url p = next_url md xs 0"
    using assms(1) by (cases s) (auto simp: ready_def)
  let ?xs = "xs @ [(db, n)]"
  define q1 where "q1 = q\<lparr>q_entries := q_entries q @ [Entry db n], q_queue := q_queue q @ [length (q_entries q)]\<rparr>"
  have q1: "lined_up ?xs q1" "q_current q1 = 0" "length (q_entries q) = length xs"
    using lined_up_Add [OF s(2)] s(2,3) by (simp_all add: q1_def lined_up_def)
  show ?thesis
  proof (cases "length xs = 1")
    case True
    then obtain m where m: "SetNextURL md q1 = Some (q1\<lparr>q_expected_next_url := item_url md (?xs ! 1)\<rparr>, [Player_SetNextURL (item_url md (?xs ! 1)) m])"
      using lined_up_url(2) [OF q1(1) assms(2)] q1(2) by auto
    then have "perform md (Add md db n) s = Some (q1\<lparr>q_expected_next_url := item_url md (?xs ! 1)\<rparr>, p\<lparr>tp_next_url := item_url md (?xs ! 1)\<rparr>)"
      using s True q1(3) by (simp add: perform_def Add_def Let_def set_urls_def deliver.simps q1_def)
    then show ?thesis
      using q1 True by (auto simp: ready_def next_url_def lined_up_def)
  next
    case False
    then have "perform md (Add md db n) s = Some (q1, p)"
      using s q1(3) by (simp add: perform_def Add_def Let_def set_urls_def deliver.simps q1_def)
    moreover have "xs = [] \<or> 1 < length xs"
      using False by (cases xs) auto
    then have "next_url md ?xs 0 = next_url md xs 0"
      by (auto simp: next_url_def nth_append)
    ultimately show ?thesis
      using q1 s(4,5) by (auto simp: ready_def q1_def)
  qed
qed

lemma add_all_ready:
  "ready md xs s \<Longrightarrow> \<forall>x\<in>set (xs @ ys). url_ok (item_url md x) \<Longrightarrow> \<exists>s'. add_all md ys s = Some s' \<and> ready md (xs @ ys) s'"
proof (induction ys arbitrary: xs s)
  case (Cons y ys)
  obtain db n where y: "y = (db, n)"
    by (cases y)
  obtain s1 where s1: "perform md (Add md db n) s = Some s1" "ready md (xs @ [y]) s1"
    using Add_ready [OF Cons.prems(1), of db n] Cons.prems(2) y by auto
  then show ?case
    using Cons.IH [OF s1(2)] Cons.prems(2) y by auto
qed simp

text \<open>The state while an item is playing.\<close>

definition playing :: "'d media \<Rightarrow> ('d \<times> u32) list \<Rightarrow> nat \<Rightarrow> 'd queue \<times> test_player \<Rightarrow> bool" where
  "playing md xs k = (\<lambda>(q, p). lined_up xs q \<and> plays_at md xs k (q, p) \<and> q_expected_url q = item_url md (xs ! k) \<and>
     q_expected_next_url q = next_url md xs k)"

lemma set_played_lined:
  assumes "lined_up xs q" "i < length xs"
  shows "\<exists>q'. set_played i q = Some q' \<and> lined_up xs q' \<and> q' = q\<lparr>q_entries := q_entries q'\<rparr> \<and> (\<forall>j. j < length xs \<longrightarrow> played q' j = (played q j \<or> j = i))"
proof -
  have "(e_flags x OR PLAYED) AND PLAYED = PLAYED" for x :: "'a entry"
    by (rule bit_eqI) (auto simp: bit_simps)
  then have "(e_flags x OR PLAYED) AND PLAYED \<noteq> 0" for x :: "'a entry"
    unfolding PLAYED_def by simp
  then show ?thesis
    using assms by (auto simp: set_played_def nth_opt_def lined_up_def played_def nth_list_update)
qed

lemma OnURL_current:
  assumes "lined_up xs q" "q_current q < length xs" "q_expected_url q = u" "u \<noteq> []"
  shows "\<exists>q'. OnURL md u q = Some (q', [Fire_OnTimeCode (q_current q) 0]) \<and> lined_up xs q' \<and> q' = q\<lparr>q_entries := q_entries q'\<rparr> \<and>
    (\<forall>j<length xs. played q' j = (played q j \<or> j = q_current q))"
proof -
  obtain q' where q': "set_played (q_current q) q = Some q'" "lined_up xs q'" "q' = q\<lparr>q_entries := q_entries q'\<rparr>"
    "\<forall>j<length xs. played q' j = (played q j \<or> j = q_current q)"
    using set_played_lined [OF assms(1,2)] by blast
  have "q_current q' = q_current q"
    using arg_cong [OF q'(3), of q_current] by simp
  then show ?thesis
    using q' assms(3,4) by (auto simp: OnURL_def)
qed

lemma start_playing:
  assumes "ready md xs s" "xs \<noteq> []" "\<forall>x\<in>set xs. url_ok (item_url md x)"
  shows "\<exists>s'. perform md (SetPlayState md PLAY) s = Some s' \<and> playing md xs 0 s'"
proof -
  obtain q p where s: "s = (q, p)" "lined_up xs q" "q_current q = 0" "q_expected_next_url q = next_url md xs 0" "tp_next_url p = next_url md xs 0"
    using assms(1) by (cases s) (auto simp: ready_def)
  let ?u = "item_url md (xs ! 0)"
  define q1 where "q1 = q\<lparr>q_expected_url := ?u\<rparr>"
  define q2 where "q2 = q1\<lparr>q_expected_next_url := next_url md xs 0\<rparr>"
  define p2 where "p2 = p\<lparr>tp_url := ?u, tp_next_url := next_url md xs 0, tp_state := PLAY\<rparr>"
  have u: "?u \<noteq> []"
    using assms(2,3) by (auto simp: url_ok_def)
  obtain m where m: "SetURL md q = Some (q1, [Player_SetURL ?u m])"
    using lined_up_url(1) [OF s(2) assms(3)] s(3) assms(2) by (auto simp: q1_def)
  have l1: "lined_up xs q1" "q_current q1 = 0"
    using s(2,3) by (simp_all add: q1_def lined_up_def)
  have "\<exists>es. SetNextURL md q1 = Some (q2, es) \<and> tp_commands es (p\<lparr>tp_url := ?u\<rparr>) = (p\<lparr>tp_url := ?u, tp_next_url := next_url md xs 0\<rparr>, [])"
  proof (cases "1 < length xs")
    case True
    then show ?thesis
      using lined_up_url(2) [OF l1(1) assms(3)] l1(2) by (auto simp: q2_def next_url_def)
  next
    case False
    then show ?thesis
      using lined_up_url(3) [OF l1(1) assms(3)] l1(2) s(4,5) by (simp add: q2_def q1_def next_url_def)
  qed
  then obtain es where es: "SetNextURL md q1 = Some (q2, es)" "tp_commands es (p\<lparr>tp_url := ?u\<rparr>) = (p\<lparr>tp_url := ?u, tp_next_url := next_url md xs 0\<rparr>, [])"
    by blast
  have ne: "q_entries q \<noteq> []"
    using s(2) assms(2) by (auto simp: lined_up_def)
  have op: "SetPlayState md PLAY q = Some (q2, Player_SetURL ?u m # es @ [Player_SetPlayState PLAY])"
    using m es(1) ne by (simp add: SetPlayState_def set_urls_def)
  have tp: "tp_commands (es @ fs) p = (let (p, cs) = tp_commands es p; (p, ds) = tp_commands fs p in (p, cs @ ds))" for es fs p
    by (induction es arbitrary: p) (auto simp: Let_def case_prod_beta)
  have l2: "lined_up xs q2" "q_current q2 = 0" "q_expected_url q2 = ?u"
    using l1 by (simp_all add: q2_def q1_def lined_up_def)
  obtain q3 where q3: "OnURL md ?u q2 = Some (q3, [Fire_OnTimeCode 0 0])" "lined_up xs q3" "q3 = q2\<lparr>q_entries := q_entries q3\<rparr>"
    "\<forall>j<length xs. played q3 j = (played q2 j \<or> j = 0)"
    using OnURL_current [OF l2(1) _ l2(3) u, of md] l2(2) assms(2) by auto
  have "perform md (SetPlayState md PLAY) s = deliver md [On_URL ?u, On_PlayState PLAY] q2 p2"
    using s(1) op es(2) by (simp add: perform_def tp Let_def p2_def)
  also have "\<dots> = Some (q3\<lparr>q_state := PLAY\<rparr>, p2)"
    using q3(1) by (simp add: deliver.simps [of md "_ # _"] deliver.simps [of md "[]"] OnPlayState_def)
  finally have "perform md (SetPlayState md PLAY) s = Some (q3\<lparr>q_state := PLAY\<rparr>, p2)" .
  moreover have "q_current q3 = 0" "q_expected_url q3 = ?u" "q_expected_next_url q3 = next_url md xs 0"
    using arg_cong [OF q3(3), of q_current] arg_cong [OF q3(3), of q_expected_url] arg_cong [OF q3(3), of q_expected_next_url] l1(2)
    by (simp_all add: q2_def q1_def)
  moreover have "lined_up xs (q3\<lparr>q_state := PLAY\<rparr>)" "played (q3\<lparr>q_state := PLAY\<rparr>) 0"
    using q3(2,4) assms(2) by (auto simp: lined_up_def played_def)
  ultimately show ?thesis
    by (auto simp: playing_def plays_at_def p2_def next_url_def)
qed

lemma next_track:
  assumes "playing md xs k s" "k + 1 < length xs" "\<forall>x\<in>set xs. url_ok (item_url md x)" "item_url md (xs ! k) \<noteq> item_url md (xs ! (k + 1))"
  shows "\<exists>s'. finish_track md s = Some s' \<and> playing md xs (k + 1) s'"
proof -
  obtain q p where s: "s = (q, p)" "lined_up xs q" "q_current q = k" "q_expected_url q = item_url md (xs ! k)"
    "q_expected_next_url q = item_url md (xs ! (k + 1))" "tp_next_url p = item_url md (xs ! (k + 1))" "tp_state p = PLAY" "q_state q = PLAY"
    "\<forall>i\<le>k. played q i"
    using assms(1,2) by (cases s) (auto simp: playing_def plays_at_def next_url_def)
  let ?u = "item_url md (xs ! (k + 1))"
  have u: "?u \<noteq> []"
    using assms(2,3) by (auto simp: url_ok_def)
  define q1 where "q1 = q\<lparr>q_current := k + 1, q_expected_url := ?u, q_expected_next_url := []\<rparr>"
  have l1: "lined_up xs q1" "q_current q1 = k + 1"
    using s(2) by (simp_all add: q1_def lined_up_def)
  obtain q2 where q2: "set_played (k + 1) q1 = Some q2" "lined_up xs q2" "q2 = q1\<lparr>q_entries := q_entries q2\<rparr>"
    "\<forall>j<length xs. played q2 j = (played q1 j \<or> j = k + 1)"
    using set_played_lined [OF l1(1) assms(2)] by blast
  have c2: "q_current q2 = k + 1" "q_expected_url q2 = ?u" "q_expected_next_url q2 = []" "q_state q2 = PLAY"
    using arg_cong [OF q2(3), of q_current] arg_cong [OF q2(3), of q_expected_url] arg_cong [OF q2(3), of q_expected_next_url]
      arg_cong [OF q2(3), of q_state] s(8) by (simp_all add: q1_def)
  define p1 where "p1 = p\<lparr>tp_url := ?u, tp_next_url := []\<rparr>"
  define q3 where "q3 = q2\<lparr>q_expected_next_url := next_url md xs (k + 1)\<rparr>"
  have "\<exists>es. SetNextURL md q2 = Some (q3, es) \<and> tp_commands es p1 = (p1\<lparr>tp_next_url := next_url md xs (k + 1)\<rparr>, [])"
  proof (cases "k + 2 < length xs")
    case True
    then show ?thesis
      using lined_up_url(2) [OF q2(2) assms(3)] c2(1) by (auto simp: q3_def next_url_def p1_def)
  next
    case False
    then show ?thesis
      using lined_up_url(3) [OF q2(2) assms(3)] c2 by (simp add: q3_def next_url_def p1_def)
  qed
  then obtain es where es: "SetNextURL md q2 = Some (q3, es)" "tp_commands es p1 = (p1\<lparr>tp_next_url := next_url md xs (k + 1)\<rparr>, [])"
    by blast
  have "OnURL md ?u q = Some (q3, Fire_OnTimeCode (k + 1) 0 # es)"
  proof -
    have "q\<lparr>q_current := q_current q + 1, q_expected_url := q_expected_next_url q, q_expected_next_url := []\<rparr> = q1" "q_current q1 = k + 1"
      using s(3,5) by (simp_all add: q1_def)
    then show ?thesis
      using s(4,5) u assms(4) q2(1) c2(1) es(1) unfolding OnURL_def Let_def by simp
  qed
  moreover have "FinishTrack p = (p1, [On_URL ?u])"
    using s(6) u by (simp add: FinishTrack_def p1_def)
  ultimately have "finish_track md s = Some (q3, p1\<lparr>tp_next_url := next_url md xs (k + 1)\<rparr>)"
    using s(1) es(2) by (simp add: finish_track_def deliver.simps [of md "_ # _"] deliver.simps [of md "[]"])
  moreover have "\<forall>i\<le>k + 1. played q3 i"
  proof -
    have "played q3 i = played q2 i" "played q1 i = played q i" for i
      by (simp_all add: q3_def q1_def played_def)
    then show ?thesis
      using q2(4) s(9) assms(2) by (auto simp: le_Suc_eq)
  qed
  ultimately show ?thesis
    using q2(2) c2 s(7) by (auto simp: playing_def plays_at_def q3_def p1_def next_url_def lined_up_def)
qed

lemma last_track:
  assumes "playing md xs k s" "k + 1 = length xs"
  shows "\<exists>s'. finish_track md s = Some s' \<and> tp_state (snd s') = STOP \<and> q_state (fst s') = STOP"
proof -
  obtain q p where s: "s = (q, p)" "tp_next_url p = []"
    using assms by (cases s) (auto simp: playing_def plays_at_def)
  then show ?thesis
    by (simp add: finish_track_def FinishTrack_def deliver.simps [of md "_ # _"] deliver.simps [of md "[]"] OnPlayState_def)
qed

text \<open>C34: Items that are added to a new queue are played in order: after play is pressed, each time a track
  ends the next is current, marked as played and sounding, with the one behind it announced to the
  player, and after the last the player and the queue stop. The items have URLs, and no item has the
  URL of the one before it.\<close>
theorem plays_in_order:
  assumes "\<forall>x\<in>set xs. url_ok (item_url md x)" "\<forall>i. i + 1 < length xs \<longrightarrow> item_url md (xs ! i) \<noteq> item_url md (xs ! (i + 1))" "k < length xs"
  shows "\<exists>s. play_through md xs k = Some s \<and> plays_at md xs k s \<and>
    (k + 1 = length xs \<longrightarrow> (\<exists>s'. finish_track md s = Some s' \<and> tp_state (snd s') = STOP \<and> q_state (fst s') = STOP))"
proof -
  have "ready md [] (Queue, TestURLPlayer)"
    by (simp add: ready_def lined_up_def Queue_def TestURLPlayer_def next_url_def)
  then obtain s0 where s0: "add_all md xs (Queue, TestURLPlayer) = Some s0" "ready md xs s0"
    using add_all_ready [of md "[]" "(Queue, TestURLPlayer)" xs] assms(1) by auto
  have "xs \<noteq> []"
    using assms(3) by auto
  then obtain s1 where s1: "perform md (SetPlayState md PLAY) s0 = Some s1" "playing md xs 0 s1"
    using start_playing [OF s0(2) _ assms(1)] by blast
  have "\<exists>s. finish_tracks md k s1 = Some s \<and> playing md xs k s"
    using assms(3)
  proof (induction k)
    case (Suc k)
    then obtain s where "finish_tracks md k s1 = Some s" "playing md xs k s"
      by auto
    then show ?case
      using next_track [of md xs k s] Suc.prems assms(1,2) by auto
  qed (use s1(2) in simp)
  then obtain s where s: "finish_tracks md k s1 = Some s" "playing md xs k s"
    by blast
  then have "play_through md xs k = Some s" "plays_at md xs k s"
    using s0(1) s1(1) by (auto simp: play_through_def playing_def)
  then show ?thesis
    using last_track [OF s(2)] by blast
qed

theorem plays_in_order_witness:
  "\<exists>s. play_through example_player [((), 1), ((), 2), ((), 3)] 2 = Some s \<and> tp_url (snd s) = ''test:3'' \<and>
    (\<exists>s'. finish_track example_player s = Some s' \<and> tp_state (snd s') = STOP)"
proof -
  have "\<forall>x\<in>set [((), 1 :: u32), ((), 2), ((), 3)]. url_ok (item_url example_player x)"
    "item_url example_player ((), 3) = ''test:3''"
    by code_simp+
  moreover have "\<forall>i\<in>set [0..<2]. item_url example_player ([((), 1 :: u32), ((), 2), ((), 3)] ! i) \<noteq> item_url example_player ([((), 1), ((), 2), ((), 3)] ! (i + 1))"
    by code_simp
  then have "\<forall>i. i + 1 < length [((), 1 :: u32), ((), 2), ((), 3)] \<longrightarrow>
      item_url example_player ([((), 1), ((), 2), ((), 3)] ! i) \<noteq> item_url example_player ([((), 1), ((), 2), ((), 3)] ! (i + 1))"
    by simp
  ultimately show ?thesis
    using plays_in_order [of "[((), 1), ((), 2), ((), 3)]" example_player 2] by (auto simp: plays_at_def)
qed

section \<open>Losing the place\<close>

text \<open>C35: When the items behind the current one are removed, the player is not told, and still goes on to the
  item that was next: when it says so, the queue writes past its end.\<close>
theorem removed_next_overruns:
  assumes "queue_reachable md q" "q_current q + 1 < Count q" "u \<noteq> []" "q_expected_next_url q = u" "q_expected_url q \<noteq> u"
  shows "\<exists>q'. QueueRemove md (q_current q + 1) (Count q) q = Some (q', []) \<and> OnURL md u q' = None"
proof -
  have ok: "queue_ok q"
    using queue_reachable_ok [OF assms(1)] .
  have r: "q_current q + 1 \<le> Count q" "Count q \<le> length (q_entries q)"
    using assms(2) by (simp_all add: Count_def)
  let ?w = "without_places (q_current q + 1) (Count q) q"
  have l: "length (q_entries ?w) = q_current q + 1" "length (q_queue ?w) = q_current q + 1"
    using without_places_ok(2) [OF ok r] queue_okD(4) [OF without_places_ok(1) [OF ok r]] assms(2) by (simp_all add: Count_def)
  have w: "q_current ?w = q_current q" "q_expected_url ?w = q_expected_url q" "q_expected_next_url ?w = u"
    using assms(4) by (simp_all add: without_places_def Let_def)
  have "set_urls md False True ?w = Some (?w, [])"
    using l w by (simp add: set_urls_def SetNextURL_def)
  then have "QueueRemove md (q_current q + 1) (Count q) q = Some (?w, [])"
    unfolding QueueRemove_conv [OF ok r] Let_def using assms(2) by simp
  moreover have "OnURL md u ?w = None"
    using l w assms(3,5) by (simp add: OnURL_def set_played_def nth_opt_def Let_def)
  ultimately show ?thesis
    by blast
qed

theorem removed_next_overruns_witness:
  "\<exists>q'. QueueRemove example_player 1 3 (queue_of 3) = Some (q', []) \<and> OnURL example_player ''test:2'' q' = None"
proof -
  have "q_current (queue_of 3) = 0" "Count (queue_of 3) = 3" "q_expected_next_url (queue_of 3) = ''test:2''" "q_expected_url (queue_of 3) = []"
    by (simp_all add: queue_of_def Count_def)
  then show ?thesis
    using removed_next_overruns [OF queue_of_reachable, of "''test:2''"] by simp
qed

text \<open>The first item of a queue, put in front, is never current, and play sends no URL to the player.\<close>

theorem first_insert_lost:
  "\<exists>q'. QueueInsert md db n 0 Queue = Some (q', []) \<and> Count q' = 1 \<and> q_current q' = 1 \<and>
    SetPlayState md PLAY q' = Some (q', [Player_SetPlayState PLAY])"
  by (simp add: QueueInsert_def Queue_def insert_at_def Let_def set_urls_def SetURL_def SetNextURL_def SetPlayState_def Count_def)

text \<open>While the player plays on, adding to a shuffled queue that has been emptied divides by zero.\<close>

theorem shuffled_insert_divides_by_zero:
  assumes "queue_reachable md q" "Count q = 0" "q_current q = 0" "q_shuffled q" "q_state q = PLAY"
  shows "EntryInsert md rnd db n 0 q = None"
proof -
  have "q_queue q = []" "q_entries q = []"
    using queue_okD(2) [OF queue_reachable_ok [OF assms(1)]] assms(2) by (simp_all add: Count_def)
  then show ?thesis
    using assms(3-5) by (simp add: EntryInsert_def insert_at_def insert_pos_def Let_def)
qed

definition emptied_queue :: "unit queue" where
  "emptied_queue = Queue\<lparr>q_shuffled := True, q_state := PLAY\<rparr>"

theorem shuffled_insert_divides_by_zero_witness: "EntryInsert example_player 7 () 1 0 emptied_queue = None"
proof -
  have "SetShuffle example_player id id True Queue = Some (Queue\<lparr>q_shuffled := True\<rparr>, [])"
    by (simp add: SetShuffle_def Queue_def)
  then have "queue_reachable example_player (Queue\<lparr>q_shuffled := True\<rparr>)"
    by (rule step [OF start step_SetShuffle]) simp_all
  moreover have "OnPlayState PLAY (Queue\<lparr>q_shuffled := True\<rparr>) = (emptied_queue, [Fire_OnPlayState PLAY])"
    by (simp add: OnPlayState_def emptied_queue_def)
  ultimately have "queue_reachable example_player emptied_queue"
    using step step_OnPlayState by blast
  then show ?thesis
    by (rule shuffled_insert_divides_by_zero) (simp_all add: emptied_queue_def Queue_def Count_def)
qed

text \<open>An item that follows itself is taken for the first again: the queue stays where it is, and nothing
  is announced to the player, so that what comes behind is never played.\<close>

theorem repeated_item_sticks:
  assumes "url_ok (item_url md x)"
  shows "\<exists>s. play_through md [x, x, y] 1 = Some s \<and> q_current (fst s) = 0 \<and> tp_next_url (snd s) = []"
proof -
  obtain db n where x: "x = (db, n)"
    by (cases x)
  obtain db' n' where y: "y = (db', n')"
    by (cases y)
  have "c_str (GetURL md db n) = GetURL md db n" "GetURL md db n \<noteq> []"
    using assms x by (auto simp: url_ok_def item_url_def intro!: c_str_id)
  then show ?thesis
    unfolding play_through_def x y
    by (simp add: Queue_def TestURLPlayer_def perform_def Add_def SetPlayState_def set_urls_def SetURL_def SetNextURL_def entry_at_def nth_opt_def
        Entry_def finish_track_def FinishTrack_def OnURL_def OnPlayState_def set_played_def Let_def deliver.simps [of md "_ # _"] deliver.simps [of md "[]"])
qed

theorem repeated_item_sticks_witness:
  "\<exists>s. play_through example_player [((), 1), ((), 1), ((), 2)] 1 = Some s \<and> q_current (fst s) = 0 \<and> tp_next_url (snd s) = []"
proof -
  have "url_ok (item_url example_player ((), 1))"
    by code_simp
  then show ?thesis
    by (rule repeated_item_sticks)
qed

end
