(* ===== verification/Paths.thy ===== *)
theory Paths
  imports Prelude "HOL-Library.Sublist"
begin

text \<open>
  libutil/file.cpp and file\_posix.cpp: file names as text. The parts of a name, names that a FAT file
  system accepts, relative and absolute names, and the directories above a name, with the calls on the
  file system as parameters.
\<close>

section \<open>The program\<close>

subsection \<open>The parts of a name\<close>

definition GetLeafName :: "string \<Rightarrow> string" where
  "GetLeafName filename =
     (case strrchr CHR ''/'' filename of Some rslash \<Rightarrow> c_str (drop (rslash + 1) filename) | None \<Rightarrow> c_str filename)"

definition GetDirName :: "string \<Rightarrow> string" where
  "GetDirName filename = (case strrchr CHR ''/'' filename of Some rslash \<Rightarrow> take rslash filename | None \<Rightarrow> [])"

definition slash_after :: "string \<Rightarrow> nat \<Rightarrow> bool" where
  "slash_after filename dot = (case strrchr CHR ''/'' filename of None \<Rightarrow> False | Some slash \<Rightarrow> slash > dot)"

definition GetExtension :: "string \<Rightarrow> string" where
  "GetExtension filename =
     (case strrchr CHR ''.'' filename of None \<Rightarrow> []
      | Some dot \<Rightarrow> if slash_after filename dot then [] else c_str (drop (dot + 1) filename))"

definition StripExtension :: "string \<Rightarrow> string" where
  "StripExtension filename =
     (case strrchr CHR ''.'' filename of None \<Rightarrow> c_str filename
      | Some dot \<Rightarrow> if slash_after filename dot then c_str filename else take dot filename)"

subsection \<open>Names for FAT\<close>

definition fat_awkward :: "char \<Rightarrow> bool" where
  "fat_awkward c \<longleftrightarrow> c \<in> set ''/:?|<>*'' \<or> c = CHR 0x5C \<or> c = CHR 0x22"

definition protect_char :: "char \<Rightarrow> string" where
  "protect_char c =
     (if fat_awkward c then
        (let ucs4 = 0xFF00 + (byte c - 0x20) in
         [chr8 (0xE0 + drop_bit 12 ucs4), chr8 (0x80 + (drop_bit 6 ucs4 AND 0x3F)), chr8 (0x80 + (ucs4 AND 0x3F))])
      else if c \<noteq> NUL then [c] else [])"

definition ProtectLeafname :: "string \<Rightarrow> string" where
  "ProtectLeafname s = concat (map protect_char s)"

subsection \<open>Relative and absolute names\<close>

definition Split :: "string \<Rightarrow> string \<times> string" where
  "Split s =
     (if CHR ''/'' \<notin> set s then (s, [])
      else (let slash = length (takeWhile (\<lambda>c. c \<noteq> CHR ''/'') s) in (take slash s, drop (slash + 1) s)))"

lemma Split_shorter: "Split s = (h, t) \<Longrightarrow> t \<noteq> [] \<Longrightarrow> length t < length s"
  by (auto simp: Split_def Let_def split: if_splits)

lemma Split_shorter_head: "Split s = (h, t) \<Longrightarrow> h \<noteq> [] \<Longrightarrow> length t < length s"
  by (cases s) (auto simp: Split_def Let_def split: if_splits)

text \<open>The two loops of \<^verbatim>\<open>MakeRelativePath\<close>.\<close>

function common_root :: "string \<Rightarrow> string \<Rightarrow> string \<times> string" where
  "common_root remain1 remain2 =
     (let (head1, tail1) = Split remain1; (head2, tail2) = Split remain2 in
      if head1 \<noteq> head2 \<or> tail1 = [] \<or> tail2 = [] then (remain1, remain2)
      else common_root tail1 tail2)"
  by pat_completeness auto
termination
  by (relation "measure (\<lambda>(r, _). length r)") (auto dest: Split_shorter [OF sym])

function add_parents :: "string \<Rightarrow> string \<Rightarrow> string" where
  "add_parents remain1 thelink =
     (let (head, tail) = Split remain1 in if tail = [] then thelink else add_parents tail (''../'' @ thelink))"
  by pat_completeness auto
termination
  by (relation "measure (\<lambda>(r, _). length r)") (auto dest: Split_shorter [OF sym])

definition MakeRelativePath :: "string \<Rightarrow> string \<Rightarrow> string" where
  "MakeRelativePath start dest =
     (let (remain1, remain2) = common_root start dest in add_parents remain1 remain2)"

text \<open>The loop of \<^verbatim>\<open>MakeAbsolutePath\<close>.\<close>

function climb :: "string \<Rightarrow> string \<Rightarrow> string \<times> string" where
  "climb remainfrom remainrel =
     (let (head, tail) = Split remainrel in
      if head \<noteq> ''..'' then (remainfrom, remainrel) else climb (GetDirName remainfrom) tail)"
  by pat_completeness auto
termination
  by (relation "measure (\<lambda>(_, r). length r)") (auto dest: Split_shorter_head [OF sym])

definition MakeAbsolutePath :: "string \<Rightarrow> string \<Rightarrow> string" where
  "MakeAbsolutePath start rel =
     (if rel = [] \<or> hd rel = CHR ''/'' then rel
      else (let (remainfrom, remainrel) = climb (GetDirName start) rel in remainfrom @ ''/'' @ remainrel))"

definition IsInRoot :: "string option \<Rightarrow> string option \<Rightarrow> bool" where
  "IsInRoot root path =
     (case (root, path) of
        (Some root, Some path) \<Rightarrow>
          (let root = c_str root; path = c_str path in
           if char_at 0 root \<noteq> CHR ''/'' \<or> char_at 0 path \<noteq> CHR ''/'' then False
           else
             (let rootlen = length root;
                  rootlen = (if root ! (rootlen - 1) = CHR ''/'' then rootlen - 1 else rootlen)
              in if take rootlen root \<noteq> take rootlen path then False
                 else if char_at rootlen path \<noteq> NUL \<and> char_at rootlen path \<noteq> CHR ''/'' then False
                 else True))
      | _ \<Rightarrow> False)"

subsection \<open>Directories above a name\<close>

text \<open>The file system \<^verbatim>\<open>'f\<close> and its \<^verbatim>\<open>mkdir\<close>, \<^verbatim>\<open>stat\<close> and \<^verbatim>\<open>rename\<close> are parameters.\<close>

abbreviation (input) EEXIST :: u32 where "EEXIST \<equiv> 17"
abbreviation (input) ENOTDIR :: u32 where "ENOTDIR \<equiv> 20"

function MkdirParents :: "('f \<Rightarrow> string \<Rightarrow> bool) \<Rightarrow> (string \<Rightarrow> 'f \<Rightarrow> u32 \<times> 'f) \<Rightarrow> string \<Rightarrow> 'f \<Rightarrow> u32 \<times> 'f" where
  "MkdirParents dir_exists mkdir leafname fs =
     (case strrchr CHR ''/'' leafname of
        None \<Rightarrow> (ENOTDIR, fs)
      | Some rslash \<Rightarrow>
          (let parent = take rslash leafname in
           if dir_exists fs parent then (0, fs)
           else
             (let (rc, fs) = MkdirParents dir_exists mkdir parent fs in
              if rc \<noteq> 0 then (rc, fs)
              else
                (let (rc, fs) = mkdir parent fs;
                     rc = (if rc = EEXIST then 0 else rc)
                 in (rc, fs)))))"
  by pat_completeness auto

lemma strrchr_less: "strrchr c s = Some k \<Longrightarrow> k < length s"
proof -
  assume "strrchr c s = Some k"
  then have "c \<in> set (c_str s)" "k = length (c_str s) - 1 - length (takeWhile (\<lambda>x. x \<noteq> c) (rev (c_str s)))"
    by (auto simp: strrchr_def Let_def split: if_splits)
  moreover have "length (c_str s) \<le> length s"
    by (simp add: c_str_def length_takeWhile_le)
  ultimately show ?thesis
    by (cases "c_str s") auto
qed

termination MkdirParents
  by (relation "measure (\<lambda>(_, _, l, _). length l)") (auto dest: strrchr_less)

definition RenameWithMkdir ::
  "('f \<Rightarrow> string \<Rightarrow> bool) \<Rightarrow> (string \<Rightarrow> 'f \<Rightarrow> u32 \<times> 'f) \<Rightarrow> (string \<Rightarrow> string \<Rightarrow> 'f \<Rightarrow> u32 \<times> 'f) \<Rightarrow> string \<Rightarrow> string \<Rightarrow> 'f \<Rightarrow> u32 \<times> 'f"
where
  "RenameWithMkdir dir_exists mkdir rename oldname newname fs =
     (let (rc, fs) = MkdirParents dir_exists mkdir newname fs in
      if rc \<noteq> 0 then (rc, fs) else rename oldname newname fs)"

declare common_root.simps [simp del] add_parents.simps [simp del] climb.simps [simp del] MkdirParents.simps [simp del]


section \<open>Names without NUL\<close>

lemma strrchr_last: "NUL \<notin> set (a @ c # b) \<Longrightarrow> c \<notin> set b \<Longrightarrow> strrchr c (a @ c # b) = Some (length a)"
proof -
  assume nul: "NUL \<notin> set (a @ c # b)" and c: "c \<notin> set b"
  have "takeWhile (\<lambda>x. x \<noteq> c) (rev (a @ c # b)) = rev b"
    using c by (simp add: takeWhile_neq)
  then show ?thesis
    unfolding strrchr_def c_str_id [OF nul] by simp
qed

lemma GetDirName_last: "NUL \<notin> set (a @ CHR ''/'' # b) \<Longrightarrow> CHR ''/'' \<notin> set b \<Longrightarrow> GetDirName (a @ CHR ''/'' # b) = a"
  by (simp add: GetDirName_def strrchr_last)

lemma GetLeafName_last: "NUL \<notin> set (a @ CHR ''/'' # b) \<Longrightarrow> CHR ''/'' \<notin> set b \<Longrightarrow> GetLeafName (a @ CHR ''/'' # b) = b"
  by (simp add: GetLeafName_def strrchr_last c_str_id)

lemma Split_first: "CHR ''/'' \<notin> set h \<Longrightarrow> Split (h @ CHR ''/'' # t) = (h, t)"
  by (simp add: Split_def takeWhile_neq)

lemma Split_none: "CHR ''/'' \<notin> set h \<Longrightarrow> Split h = (h, [])"
  by (simp add: Split_def)

lemma Split_cases:
  obtains "CHR ''/'' \<notin> set s" "Split s = (s, [])" | h t where "s = h @ CHR ''/'' # t" "CHR ''/'' \<notin> set h" "Split s = (h, t)"
proof (cases "CHR ''/'' \<in> set s")
  case True
  then obtain h t where "s = h @ CHR ''/'' # t" "CHR ''/'' \<notin> set h"
    using split_list_first by fastforce
  with that(2) show ?thesis
    by (simp add: Split_first)
qed (simp add: that(1) Split_none)

section \<open>Relative names\<close>

abbreviation ends_in_slash :: "string \<Rightarrow> bool" where
  "ends_in_slash s \<equiv> s \<noteq> [] \<and> last s = CHR ''/''"

lemma add_parents_count:
  "\<not> ends_in_slash r \<Longrightarrow> add_parents r link = concat (replicate (count_list r CHR ''/'') ''../'') @ link"
proof (induction r link rule: add_parents.induct)
  case (1 r link)
  show ?case
  proof (cases r rule: Split_cases)
    case 1
    then show ?thesis
      by (simp add: add_parents.simps count_list_0_iff)
  next
    case (2 h t)
    then have t: "t \<noteq> []" "\<not> ends_in_slash t"
      using "1.prems" by auto
    then show ?thesis
      using "1.IH" [of "(h, t)" h t] 2 by (subst add_parents.simps) (simp add: count_list_0_iff replicate_append_same [symmetric])
  qed
qed

lemma common_root_prefix:
  "common_root r1 r2 = (s1, s2) \<Longrightarrow> \<exists>P. r1 = P @ s1 \<and> r2 = P @ s2 \<and> (P = [] \<or> last P = CHR ''/'')"
proof (induction r1 r2 rule: common_root.induct)
  case (1 r1 r2)
  obtain h1 t1 h2 t2 where sp: "Split r1 = (h1, t1)" "Split r2 = (h2, t2)"
    by fastforce
  show ?case
  proof (cases "h1 \<noteq> h2 \<or> t1 = [] \<or> t2 = []")
    case True
    then show ?thesis
      using "1.prems" sp by (simp add: common_root.simps [of r1])
  next
    case False
    then have "common_root t1 t2 = (s1, s2)"
      using "1.prems" sp by (simp add: common_root.simps [of r1])
    then obtain P where P: "t1 = P @ s1" "t2 = P @ s2" "P = [] \<or> last P = CHR ''/''"
      using "1.IH" [OF sp(1) [symmetric] refl sp(2) [symmetric] refl] False by auto
    have "r1 = h1 @ CHR ''/'' # t1" "r2 = h2 @ CHR ''/'' # t2"
      using sp False by (cases r1 rule: Split_cases; cases r2 rule: Split_cases; simp)+
    then show ?thesis
      using P False by (intro exI [of _ "h1 @ CHR ''/'' # P"]) auto
  qed
qed

lemma common_root_absolute:
  "x \<noteq> [] \<Longrightarrow> y \<noteq> [] \<Longrightarrow> common_root (CHR ''/'' # x) (CHR ''/'' # y) = common_root x y"
  using Split_first [of "[]"] by (simp add: common_root.simps [of "CHR ''/'' # x"])

lemma climb_parents:
  "fst (Split s) \<noteq> ''..'' \<Longrightarrow> climb d (concat (replicate k ''../'') @ s) = ((GetDirName ^^ k) d, s)"
proof (induction k arbitrary: d)
  case 0
  then show ?case
    by (simp add: climb.simps case_prod_beta)
next
  case (Suc k)
  have "Split (''..'' @ CHR ''/'' # concat (replicate k ''../'') @ s) = (''..'', concat (replicate k ''../'') @ s)"
    by (rule Split_first) simp
  then show ?case
    using Suc.IH [OF Suc.prems, of "GetDirName d"] by (subst climb.simps) (simp add: funpow_swap1)
qed

lemma GetDirName_iterate:
  "NUL \<notin> set (P @ CHR ''/'' # r) \<Longrightarrow> (GetDirName ^^ (count_list r CHR ''/'' + 1)) (P @ CHR ''/'' # r) = P"
proof (induction "length r" arbitrary: r rule: less_induct)
  case less
  show ?case
  proof (cases "CHR ''/'' \<in> set r")
    case True
    then obtain a b where r: "r = a @ CHR ''/'' # b" "CHR ''/'' \<notin> set b"
      using split_list_last by fastforce
    have "GetDirName (P @ CHR ''/'' # r) = P @ CHR ''/'' # a"
      using GetDirName_last [of "P @ CHR ''/'' # a" b] less.prems r by simp
    then show ?thesis
      using less.hyps [of a] less.prems r by (simp add: funpow_swap1 count_list_0_iff)
  next
    case False
    then show ?thesis
      using GetDirName_last [of P r] less.prems by (simp add: count_list_0_iff)
  qed
qed

text \<open>An absolute name without empty components, and without components that lead up again.\<close>

definition plain_path :: "string \<Rightarrow> bool" where
  "plain_path p \<longleftrightarrow> p \<noteq> [] \<and> hd p = CHR ''/'' \<and> last p \<noteq> CHR ''/'' \<and> NUL \<notin> set p \<and>
     \<not> sublist ''//'' p \<and> \<not> sublist ''/../'' (p @ ''/'')"

lemma relative_round_trip:
  assumes f: "start \<noteq> []" "hd start = CHR ''/''" "last start \<noteq> CHR ''/''" "NUL \<notin> set start" and p: "plain_path p"
  shows "MakeAbsolutePath start (MakeRelativePath start p) = p" "MakeRelativePath start p \<noteq> []"
    "hd (MakeRelativePath start p) \<noteq> CHR ''/''" "set (MakeRelativePath start p) \<subseteq> insert CHR ''.'' (set p)"
    "take 7 (MakeRelativePath start p) \<noteq> ''http://''"
proof -
  obtain x where x: "start = CHR ''/'' # x" "x \<noteq> []"
    using f by (cases start) (auto split: if_splits)
  obtain y where y: "p = CHR ''/'' # y" "y \<noteq> []"
    using p by (cases p) (auto simp: plain_path_def split: if_splits)
  obtain s1 s2 where cr: "common_root x y = (s1, s2)"
    by fastforce
  obtain Q where Q: "x = Q @ s1" "y = Q @ s2" "Q = [] \<or> last Q = CHR ''/''"
    using common_root_prefix [OF cr] by blast
  obtain P where P: "CHR ''/'' # Q = P @ ''/''"
    using Q(3) by (cases Q rule: rev_cases) (force, metis append_Cons last_snoc snoc_eq_iff_butlast)
  have eqs: "start = P @ CHR ''/'' # s1" "p = P @ CHR ''/'' # s2"
    using x(1) y(1) Q(1,2) P by (metis append.assoc append_Cons append_Nil)+
  have s2: "s2 \<noteq> []" "hd s2 \<noteq> CHR ''/''" "fst (Split s2) \<noteq> ''..''"
  proof -
    show "s2 \<noteq> []"
      using p eqs(2) by (auto simp: plain_path_def)
    show "hd s2 \<noteq> CHR ''/''"
    proof
      assume "hd s2 = CHR ''/''"
      then obtain s3 where "s2 = CHR ''/'' # s3"
        using \<open>s2 \<noteq> []\<close> by (cases s2) auto
      then have "p = P @ ''//'' @ s3"
        using eqs(2) by simp
      then show False
        using p by (auto simp: plain_path_def sublist_def)
    qed
    show "fst (Split s2) \<noteq> ''..''"
    proof
      assume "fst (Split s2) = ''..''"
      then have "\<exists>s3. s2 @ ''/'' = ''../'' @ s3"
        by (cases s2 rule: Split_cases) auto
      then obtain s3 where s3: "s2 @ ''/'' = ''../'' @ s3" ..
      have "p @ ''/'' = P @ CHR ''/'' # s2 @ ''/''"
        using eqs(2) by simp
      also have "\<dots> = P @ ''/../'' @ s3"
        unfolding s3 by simp
      finally show False
        using p by (auto simp: plain_path_def sublist_def)
    qed
  qed
  have s1: "\<not> ends_in_slash s1"
    using f(3) eqs(1) by auto
  let ?k = "count_list s1 CHR ''/''"
  have rel: "MakeRelativePath start p = concat (replicate ?k ''../'') @ s2"
    using common_root_absolute [OF x(2) y(2)] cr add_parents_count [OF s1] by (simp add: MakeRelativePath_def x(1) y(1))
  have plain: "MakeRelativePath start p \<noteq> []" "hd (MakeRelativePath start p) \<noteq> CHR ''/''"
    using s2 by (cases ?k; simp add: rel)+
  have dir: "(GetDirName ^^ ?k) (GetDirName start) = P"
    using GetDirName_iterate [of P s1] f(4) eqs(1) by (simp add: funpow_swap1)
  have "climb (GetDirName start) (concat (replicate ?k ''../'') @ s2) = (P, s2)"
    using climb_parents [OF s2(3), of "GetDirName start" ?k] dir by simp
  then show "MakeAbsolutePath start (MakeRelativePath start p) = p"
    using plain eqs(2) unfolding MakeAbsolutePath_def rel by simp
  show "MakeRelativePath start p \<noteq> []" "hd (MakeRelativePath start p) \<noteq> CHR ''/''"
    by (fact plain)+
  show "set (MakeRelativePath start p) \<subseteq> insert CHR ''.'' (set p)"
    using eqs(2) unfolding rel by auto
  show "take 7 (MakeRelativePath start p) \<noteq> ''http://''"
  proof
    assume h: "take 7 (MakeRelativePath start p) = ''http://''"
    then have "?k = 0"
      unfolding rel by (cases ?k) auto
    then have "MakeRelativePath start p = s2"
      by (simp add: rel)
    then have "take 7 s2 = ''http://''"
      using h by simp
    then have "p = P @ ''/http:'' @ ''//'' @ drop 7 s2"
      using append_take_drop_id [of 7 s2] eqs(2) by simp
    then have "sublist ''//'' p"
      unfolding sublist_def by (intro exI [of _ "P @ ''/http:''"] exI [of _ "drop 7 s2"]) simp
    then show False
      using p by (simp add: plain_path_def)
  qed
qed


section \<open>Names in a directory, names for FAT, and making directories\<close>

lemma path_in_root_text:
  assumes "NUL \<notin> set root" "NUL \<notin> set path"
  shows "IsInRoot (Some root) (Some path) \<longleftrightarrow>
    root \<noteq> [] \<and> hd root = CHR ''/'' \<and> path \<noteq> [] \<and> hd path = CHR ''/'' \<and>
    (let dir = (if last root = CHR ''/'' then butlast root else root) in path = dir \<or> prefix (dir @ ''/'') path)"
proof (cases "root \<noteq> [] \<and> hd root = CHR ''/'' \<and> path \<noteq> [] \<and> hd path = CHR ''/''")
  case True
  define dir where "dir = (if last root = CHR ''/'' then butlast root else root)"
  define n where "n = (if root ! (length root - 1) = CHR ''/'' then length root - 1 else length root)"
  have dir: "dir = take n root" "n = length dir"
    using True by (auto simp: dir_def n_def last_conv_nth butlast_conv_take)
  have "(take n root = take n path \<and> (char_at n path = NUL \<or> char_at n path = CHR ''/'')) \<longleftrightarrow> path = dir \<or> prefix (dir @ ''/'') path"
  proof (cases "prefix dir path")
    case True
    then obtain r where r: "path = dir @ r"
      by (auto simp: prefix_def)
    then have "take n path = dir"
      by (simp add: dir(2))
    moreover have "char_at n path = (if r = [] then NUL else hd r)"
      using r by (cases r) (simp_all add: dir(2) char_at_def nth_append)
    ultimately show ?thesis
      using r assms(2) dir(1) by (cases r) auto
  next
    case False
    then have "take n path \<noteq> dir"
      using take_is_prefix by metis
    then show ?thesis
      using False dir(1) by (auto dest: append_prefixD)
  qed
  moreover have "char_at 0 root = CHR ''/''" "char_at 0 path = CHR ''/''"
    using True by (auto simp: char_at_def simp flip: hd_conv_nth)
  then have "IsInRoot (Some root) (Some path) \<longleftrightarrow>
      take n root = take n path \<and> (char_at n path = NUL \<or> char_at n path = CHR ''/'')"
    unfolding IsInRoot_def n_def Let_def by (auto simp: c_str_id assms)
  ultimately have "IsInRoot (Some root) (Some path) \<longleftrightarrow> path = dir \<or> prefix (dir @ ''/'') path"
    by blast
  moreover have "root \<noteq> []" "hd root = CHR ''/''" "path \<noteq> []" "hd path = CHR ''/''"
    using True by simp_all
  ultimately show ?thesis
    unfolding Let_def dir_def [symmetric] by (simp only: simp_thms if_True not_False_eq_True)
next
  case False
  then have "char_at 0 root \<noteq> CHR ''/'' \<or> char_at 0 path \<noteq> CHR ''/''"
    by (cases root; cases path) (simp_all add: char_at_def)
  then have "\<not> IsInRoot (Some root) (Some path)"
    unfolding IsInRoot_def by (simp add: c_str_id assms)
  then show ?thesis
    using False by satx
qed

lemma protect_char_safe: "c' \<in> set (protect_char c) \<Longrightarrow> \<not> fat_awkward c' \<and> c' \<noteq> NUL"
proof (cases "fat_awkward c")
  case True
  assume c': "c' \<in> set (protect_char c)"
  have "c \<in> set [CHR ''/'', CHR '':'', CHR ''?'', CHR ''|'', CHR ''<'', CHR ''>'', CHR ''*'', CHR 0x5C, CHR 0x22]"
    using True by (auto simp: fat_awkward_def)
  moreover have "\<forall>c\<in>set [CHR ''/'', CHR '':'', CHR ''?'', CHR ''|'', CHR ''<'', CHR ''>'', CHR ''*'', CHR 0x5C, CHR 0x22].
      \<forall>c'\<in>set (protect_char c). \<not> fat_awkward c' \<and> c' \<noteq> NUL"
    by code_simp
  ultimately show ?thesis
    using c' by blast
qed (auto simp: protect_char_def split: if_splits)


lemma ProtectLeafname_safe: "c \<in> set (ProtectLeafname s) \<Longrightarrow> \<not> fat_awkward c \<and> c \<noteq> NUL"
  using protect_char_safe by (auto simp: ProtectLeafname_def)

lemma ProtectLeafname_keeps: "\<forall>c\<in>set s. \<not> fat_awkward c \<and> c \<noteq> NUL \<Longrightarrow> ProtectLeafname s = s"
  by (induction s) (auto simp: ProtectLeafname_def protect_char_def)

text \<open>The parts of a name make up the name.\<close>

lemma name_parts:
  assumes "NUL \<notin> set n" "CHR ''.'' \<in> set (GetLeafName n)"
  shows "n = StripExtension n @ ''.'' @ GetExtension n" "CHR ''.'' \<notin> set (GetExtension n)" "CHR ''/'' \<notin> set (GetExtension n)"
proof -
  have leaf: "\<exists>d. n = d @ GetLeafName n \<and> CHR ''/'' \<notin> set (GetLeafName n)"
  proof (cases "CHR ''/'' \<in> set n")
    case True
    then obtain a b where "n = a @ CHR ''/'' # b" "CHR ''/'' \<notin> set b"
      using split_list_last by fastforce
    then show ?thesis
      using GetLeafName_last [of a b] assms(1) by (intro exI [of _ "a @ ''/''"]) simp
  next
    case False
    then show ?thesis
      using assms(1) by (auto simp: GetLeafName_def strrchr_def c_str_id)
  qed
  then obtain d where d: "n = d @ GetLeafName n" "CHR ''/'' \<notin> set (GetLeafName n)"
    by blast
  obtain a b where ab: "GetLeafName n = a @ CHR ''.'' # b" "CHR ''.'' \<notin> set b"
    using assms(2) split_list_last by fastforce
  have n: "n = (d @ a) @ CHR ''.'' # b"
    using d(1) unfolding ab(1) by simp
  have dot: "strrchr CHR ''.'' n = Some (length (d @ a))"
    using strrchr_last [of "d @ a" "CHR ''.''" b] assms(1) ab(2) n by simp
  have no: "\<not> slash_after n (length (d @ a))"
  proof (cases "CHR ''/'' \<in> set d")
    case True
    then obtain u v where uv: "d = u @ CHR ''/'' # v" "CHR ''/'' \<notin> set v"
      using split_list_last by fastforce
    then have "strrchr CHR ''/'' n = Some (length u)"
      using strrchr_last [of u "CHR ''/''" "v @ a @ CHR ''.'' # b"] assms(1) n d(2) ab(1) by simp
    then show ?thesis
      using uv(1) by (simp add: slash_after_def)
  next
    case False
    then have "CHR ''/'' \<notin> set n"
      using n d(2) ab(1) by auto
    then show ?thesis
      using assms(1) by (simp add: slash_after_def strrchr_def c_str_id)
  qed
  have "StripExtension n = take (length (d @ a)) n" "GetExtension n = c_str (drop (length (d @ a) + 1) n)"
    using no unfolding StripExtension_def GetExtension_def dot by simp_all
  then have s: "StripExtension n = d @ a" "GetExtension n = b"
    using assms(1) n by (simp_all add: c_str_id)
  then show "n = StripExtension n @ ''.'' @ GetExtension n" "CHR ''.'' \<notin> set (GetExtension n)" "CHR ''/'' \<notin> set (GetExtension n)"
    using n ab d(2) by auto
qed

text \<open>A file cannot be given a name in the root directory: the directory above \<^verbatim>\<open>/x\<close> is the
  empty name, which is no directory, and nothing is above that.\<close>

lemma no_parent_of_root:
  assumes "NUL \<notin> set b" "CHR ''/'' \<notin> set b" "\<not> dir_exists fs []"
  shows "RenameWithMkdir dir_exists mkdir rename old (CHR ''/'' # b) fs = (ENOTDIR, fs)"
  using strrchr_last [of "[]" "CHR ''/''" b] assms
  by (simp add: RenameWithMkdir_def MkdirParents.simps [of _ _ "CHR ''/'' # b"] MkdirParents.simps [of _ _ "[]"] strrchr_def [of _ "[]"] c_str_def)

text \<open>When the call succeeds the directory is there, if a directory that \<^verbatim>\<open>mkdir\<close> has made or found exists.\<close>

lemma MkdirParents_exists:
  assumes "\<And>p fs rc fs'. mkdir p fs = (rc, fs') \<Longrightarrow> rc = 0 \<or> rc = EEXIST \<Longrightarrow> dir_exists fs' p"
    and "MkdirParents dir_exists mkdir leaf fs = (0, fs')"
  shows "dir_exists fs' (GetDirName leaf)"
  using assms(2)
  by (auto simp: MkdirParents.simps [of _ _ leaf] GetDirName_def Let_def split: option.splits if_splits prod.splits
      intro: assms(1))

end
