(* ===== verification/Url.thy ===== *)
theory Url
  imports Paths
begin

text \<open>
  libutil/http.cpp: taking a URL apart into the part that names the host and the path, taking the host
  part apart, and resolving a link against the URL of the page it is on.
\<close>

section \<open>The program\<close>

definition ParseURL :: "string \<Rightarrow> string \<times> string" where
  "ParseURL url =
     (let ptr = c_str url in
      case (strchr CHR '':'' ptr, strchr CHR ''/'' ptr) of
        (Some colon, Some slash) \<Rightarrow>
          if slash > colon \<and> char_at (slash + 1) ptr = CHR ''/'' then
            (case strchr CHR ''/'' (drop (slash + 2) ptr) of
               Some k \<Rightarrow> (take (slash + 2 + k) ptr, drop (slash + 2 + k) ptr)
             | None \<Rightarrow> (url, ''/''))
          else ([], url)
      | _ \<Rightarrow> ([], url))"

definition atoi_short :: "string \<Rightarrow> 16 word" where
  "atoi_short s = ucast (strtoul 10 s)"

definition ParseHost :: "string \<Rightarrow> 16 word \<Rightarrow> string \<times> 16 word" where
  "ParseHost hostpart default_port =
     (let ptr = c_str hostpart in
      case (strchr CHR '':'' ptr, strchr CHR ''/'' ptr) of
        (Some colon, Some slash) \<Rightarrow>
          if slash > colon \<and> char_at (slash + 1) ptr = CHR ''/'' then
            (let ptr = drop (slash + 2) ptr in
             case strchr CHR '':'' ptr of
               Some colon \<Rightarrow> (take colon ptr, atoi_short (drop (colon + 1) ptr))
             | None \<Rightarrow> (ptr, default_port))
          else (ptr, default_port)
      | _ \<Rightarrow> (ptr, default_port))"

definition ResolveURL :: "string \<Rightarrow> string \<Rightarrow> string" where
  "ResolveURL base link =
     (let (linkhost, linkpath) = ParseURL link in
      if linkhost \<noteq> [] then link
      else (let (basehost, basepath) = ParseURL base in basehost @ MakeAbsolutePath basepath linkpath))"

definition IsHttpURL :: "string \<Rightarrow> bool" where
  "IsHttpURL url \<longleftrightarrow> take 7 (c_str url) = ''http://''"

section \<open>Properties\<close>

lemma strchr_first: "NUL \<notin> set (u @ c # v) \<Longrightarrow> c \<notin> set u \<Longrightarrow> strchr c (u @ c # v) = Some (length u)"
  by (simp add: strchr_char takeWhile_neq)

text \<open>A URL with a scheme and a host.\<close>

lemma ParseURL_host:
  assumes "NUL \<notin> set (scheme @ host @ path)" "CHR '':'' \<notin> set scheme" "CHR ''/'' \<notin> set scheme" "CHR ''/'' \<notin> set host"
    and "path \<noteq> [] \<Longrightarrow> hd path = CHR ''/''"
  shows "ParseURL (scheme @ ''://'' @ host @ path) = (scheme @ ''://'' @ host, if path = [] then ''/'' else path)"
proof -
  let ?url = "scheme @ ''://'' @ host @ path"
  have c: "c_str ?url = ?url"
    using assms(1) by (intro c_str_id) simp
  have colon: "strchr CHR '':'' ?url = Some (length scheme)"
    using strchr_first [of scheme "CHR '':''" "''//'' @ host @ path"] assms(1,2) by simp
  have slash: "strchr CHR ''/'' ?url = Some (length scheme + 1)"
    using strchr_first [of "scheme @ '':''" "CHR ''/''" "''/'' @ host @ path"] assms(1,3) by simp
  have at: "char_at (length scheme + 1 + 1) ?url = CHR ''/''" "drop (length scheme + 1 + 2) ?url = host @ path"
    by (simp_all add: char_at_def nth_append)
  have parse: "ParseURL ?url = (case strchr CHR ''/'' (host @ path) of
      Some k \<Rightarrow> (take (length scheme + 1 + 2 + k) ?url, drop (length scheme + 1 + 2 + k) ?url) | None \<Rightarrow> (?url, ''/''))"
    unfolding ParseURL_def Let_def c colon slash option.case prod.case at by simp
  show ?thesis
  proof (cases path)
    case Nil
    then have "strchr CHR ''/'' (host @ path) = None"
      using assms(1,4) by (simp add: strchr_none)
    then show ?thesis
      using parse Nil by simp
  next
    case (Cons c p)
    then have "c = CHR ''/''"
      using assms(5) by simp
    then have "strchr CHR ''/'' (host @ path) = Some (length host)"
      using strchr_first [of host c p] assms(1,4) Cons by simp
    then show ?thesis
      unfolding parse using Cons by (simp add: numeral_3_eq_3)
  qed
qed

lemma ParseURL_path: "NUL \<notin> set p \<Longrightarrow> CHR '':'' \<notin> set p \<Longrightarrow> ParseURL p = ([], p)"
  using strchr_none [of p "CHR '':''"] by (simp add: ParseURL_def c_str_id)

lemma resolve_relative:
  assumes "CHR '':'' \<notin> set scheme" "CHR ''/'' \<notin> set scheme" "CHR ''/'' \<notin> set host" "NUL \<notin> set (scheme @ host)"
    and start: "start \<noteq> []" "hd start = CHR ''/''" "last start \<noteq> CHR ''/''" "NUL \<notin> set start"
    and p: "plain_path p" "CHR '':'' \<notin> set p"
  shows "ResolveURL (scheme @ ''://'' @ host @ start) (MakeRelativePath start p) = scheme @ ''://'' @ host @ p"
proof -
  note rel = relative_round_trip [OF start p(1)]
  have "NUL \<notin> set (MakeRelativePath start p)" "CHR '':'' \<notin> set (MakeRelativePath start p)"
    using rel(4) p by (auto simp: plain_path_def)
  then have "ParseURL (MakeRelativePath start p) = ([], MakeRelativePath start p)"
    by (rule ParseURL_path)
  moreover have "ParseURL (scheme @ ''://'' @ host @ start) = (scheme @ ''://'' @ host, start)"
    using ParseURL_host [of scheme host start] assms by simp
  ultimately show ?thesis
    by (simp add: ResolveURL_def rel(1))
qed

text \<open>A port number comes back as it is printed.\<close>

lemma ParseHost_port:
  assumes "NUL \<notin> set (scheme @ host)" "CHR '':'' \<notin> set scheme" "CHR ''/'' \<notin> set scheme" "CHR '':'' \<notin> set host"
  shows "ParseHost (scheme @ ''://'' @ host @ '':'' @ dec (unat (port :: 16 word))) default_port = (host, port)"
    "ParseHost (scheme @ ''://'' @ host) default_port = (host, default_port)"
proof -
  have p: "NUL \<notin> set (dec n)" for n
  proof
    assume "NUL \<in> set (dec n)"
    then obtain k where "k < 10" "NUL = digit_char k"
      using dec_digits by blast
    then show False
      using digit_char_neq(6) [of k] by simp
  qed
  have host: "ParseHost (scheme @ ''://'' @ r) default_port = (case strchr CHR '':'' r of
      Some colon \<Rightarrow> (take colon r, atoi_short (drop (colon + 1) r)) | None \<Rightarrow> (r, default_port))" if "NUL \<notin> set r" for r
  proof -
    let ?url = "scheme @ ''://'' @ r"
    have c: "c_str ?url = ?url"
      using assms(1) that by (intro c_str_id) simp
    have colon: "strchr CHR '':'' ?url = Some (length scheme)"
      using strchr_first [of scheme "CHR '':''" "''//'' @ r"] assms(1,2) that by simp
    have slash: "strchr CHR ''/'' ?url = Some (length scheme + 1)"
      using strchr_first [of "scheme @ '':''" "CHR ''/''" "''/'' @ r"] assms(1,3) that by simp
    have at: "char_at (length scheme + 1 + 1) ?url = CHR ''/''" "drop (length scheme + 1 + 2) ?url = r"
      by (simp_all add: char_at_def nth_append)
    show ?thesis
      unfolding ParseHost_def Let_def c colon slash option.case prod.case at by simp
  qed
  have "unat port < 2 ^ 64"
    using unsigned_less [of port, where 'a = nat] by simp
  then have "atoi_short (dec (unat port)) = port"
    unfolding atoi_short_def by (subst strtoul_digits) (auto dest: dec_digits simp: is_up ucast_up_ucast_id)
  moreover have "strchr CHR '':'' (host @ CHR '':'' # dec (unat port)) = Some (length host)"
    using assms(1,4) p by (intro strchr_first) simp_all
  ultimately show "ParseHost (scheme @ ''://'' @ host @ '':'' @ dec (unat port)) default_port = (host, port)"
    using host [of "host @ CHR '':'' # dec (unat port)"] assms(1) p by simp
  have "strchr CHR '':'' host = None"
    using assms(1,4) by (simp add: strchr_none)
  then show "ParseHost (scheme @ ''://'' @ host) default_port = (host, default_port)"
    using host [of host] assms(1) by simp
qed

end
