(* ===== verification/Files.thy ===== *)
theory Files
  imports Paths StreamLaws
begin

text \<open>
  libutil/file\_stream.h, file\_stream.cpp and file\_stream\_posix.cpp: streams on files. The operating
  system and the C library's \<^verbatim>\<open>FILE\<close> functions are parameters, a record of functions on the state
  \<^verbatim>\<open>'f\<close> of the file system; the result of a call is an error number or a value.
  \<^verbatim>\<open>os_ferror\<close> is the value of \<^verbatim>\<open>ferror(f) ? (unsigned)errno : 0u\<close>, the one use of the indicator in the source: the error
  number when the stream's error indicator is set (no library function sets \<^verbatim>\<open>errno\<close> to zero), 0 when it is clear.
\<close>

section \<open>The operating system\<close>

datatype open_flag = O_RDONLY | O_RDWR | O_CREAT | O_TRUNC

record 'f os =
  os_open :: "string \<Rightarrow> open_flag list \<Rightarrow> 'f \<Rightarrow> (u32 + int) \<times> 'f"
  os_close :: "int \<Rightarrow> 'f \<Rightarrow> 'f"
  os_unlink :: "string \<Rightarrow> 'f \<Rightarrow> 'f"
  os_pread :: "int \<Rightarrow> nat \<Rightarrow> nat \<Rightarrow> 'f \<Rightarrow> (u32 + string) \<times> 'f"
  os_pwrite :: "int \<Rightarrow> string \<Rightarrow> nat \<Rightarrow> 'f \<Rightarrow> (u32 + nat) \<times> 'f"
  os_fstat :: "int \<Rightarrow> 'f \<Rightarrow> nat option"
  os_ftruncate :: "int \<Rightarrow> nat \<Rightarrow> 'f \<Rightarrow> u32 \<times> 'f"
  os_fopen :: "string \<Rightarrow> 'f \<Rightarrow> (u32 + int) \<times> 'f"
  os_fprintf :: "int \<Rightarrow> string \<Rightarrow> 'f \<Rightarrow> 'f"
  os_ferror :: "int \<Rightarrow> 'f \<Rightarrow> u32"
  os_fclose :: "int \<Rightarrow> 'f \<Rightarrow> 'f"

section \<open>File streams\<close>

definition READ :: u32 where "READ = 0"
definition WRITE :: u32 where "WRITE = 1"
definition UPDATE :: u32 where "UPDATE = 2"
definition TEMP :: u32 where "TEMP = 3"
definition TYPE_MASK :: u32 where "TYPE_MASK = 3"

record file_stream =
  m_fd :: int
  m_mode :: u32

definition FileStream :: file_stream where
  "FileStream = \<lparr>m_fd = -1, m_mode = 0\<rparr>"

definition open_flags :: "u32 \<Rightarrow> open_flag list" where
  "open_flags mode =
     (let t = mode AND TYPE_MASK in
      if t = READ then [O_RDONLY]
      else if t = WRITE then [O_RDWR, O_CREAT, O_TRUNC]
      else if t = UPDATE then [O_RDWR]
      else [O_RDWR, O_CREAT, O_TRUNC])"

text \<open>The advice to the kernel that \<^verbatim>\<open>SEQUENTIAL\<close> asks for changes nothing here.\<close>

definition FileStream_Open :: "'f os \<Rightarrow> string \<Rightarrow> u32 \<Rightarrow> file_stream \<Rightarrow> 'f \<Rightarrow> u32 \<times> file_stream \<times> 'f" where
  "FileStream_Open os filename mode fs f =
     (let f = (if m_fd fs \<ge> 0 then os_close os (m_fd fs) f else f) in
      case os_open os filename (open_flags mode) f of
        (Inl e, f) \<Rightarrow> (e, fs\<lparr>m_fd := -1\<rparr>, f)
      | (Inr fd, f) \<Rightarrow>
          (0, \<lparr>m_fd = fd, m_mode = mode\<rparr>, if mode AND TYPE_MASK = TEMP then os_unlink os filename f else f))"

definition FileStream_close :: "'f os \<Rightarrow> file_stream \<Rightarrow> 'f \<Rightarrow> 'f" where
  "FileStream_close os fs f = (if m_fd fs \<ge> 0 then os_close os (m_fd fs) f else f)"

definition FileStream_ReadAt :: "'f os \<Rightarrow> file_stream \<Rightarrow> 'f reader_at" where
  "FileStream_ReadAt os fs pos len f =
     (case os_pread os (m_fd fs) len pos f of
        (Inl e, f) \<Rightarrow> Some (e, [], f)
      | (Inr bs, f) \<Rightarrow> Some (0, bs, f))"

definition FileStream_WriteAt :: "'f os \<Rightarrow> file_stream \<Rightarrow> 'f writer_at" where
  "FileStream_WriteAt os fs pos buffer f =
     (case os_pwrite os (m_fd fs) buffer pos f of
        (Inl e, f) \<Rightarrow> Some (e, 0, f)
      | (Inr n, f) \<Rightarrow> Some (0, n, f))"

definition FileStream_GetLength :: "'f os \<Rightarrow> file_stream \<Rightarrow> 'f \<Rightarrow> nat" where
  "FileStream_GetLength os fs f = (case os_fstat os (m_fd fs) f of None \<Rightarrow> 0 | Some n \<Rightarrow> n)"

definition FileStream_SetLength :: "'f os \<Rightarrow> file_stream \<Rightarrow> nat \<Rightarrow> 'f \<times> nat \<Rightarrow> u32 \<times> 'f \<times> nat" where
  "FileStream_SetLength os fs len = (\<lambda>(f, pos).
     let (e, f) = os_ftruncate os (m_fd fs) len f in
     if e \<noteq> 0 then (e, f, pos) else (0, f, if pos > len then len else pos))"

definition OpenFileStream :: "'f os \<Rightarrow> string \<Rightarrow> u32 \<Rightarrow> 'f \<Rightarrow> u32 \<times> file_stream option \<times> 'f" where
  "OpenFileStream os filename mode f =
     (let (rc, fs, f) = FileStream_Open os filename mode FileStream f in
      if rc \<noteq> 0 then (rc, None, f) else (0, Some fs, f))"

section \<open>What the system is relied on for\<close>

text \<open>
  A view of the file system, for the names \<^verbatim>\<open>v_regular\<close> of regular files, there or not: the content
  of each file; the file that a descriptor is open on, and whether for writing, too; the file that a
  \<^verbatim>\<open>FILE\<close> is open on, and the text printed to it so far, which the C library may still hold; and of
  the \<^verbatim>\<open>FILE\<close> last closed on a file, whether its error indicator was set (\<^verbatim>\<open>v_unprinted\<close>) and
  whether \<^verbatim>\<open>fclose\<close> could not write what was held (\<^verbatim>\<open>v_unflushed\<close>).

  The laws are what POSIX and C say of each call, which may fail at any time. Reading gives some of the bytes that are there
  and none only at the end, or an error. Writing is for descriptors that were opened for it; it replaces what is there
  by some of the bytes, or gives an error. Opening with truncation leaves an empty file. What was printed to a
  \<^verbatim>\<open>FILE\<close> is the content of the file when it has been closed, unless the error indicator was set or closing failed.
\<close>

record 'f file_view =
  v_regular :: "string \<Rightarrow> bool"
  v_content :: "'f \<Rightarrow> string \<Rightarrow> string option"
  v_open :: "'f \<Rightarrow> int \<Rightarrow> (string \<times> bool) option"
  v_printed :: "'f \<Rightarrow> int \<Rightarrow> (string \<times> string) option"
  v_unprinted :: "'f \<Rightarrow> string \<Rightarrow> bool"
  v_unflushed :: "'f \<Rightarrow> string \<Rightarrow> bool"

definition open_on :: "'f file_view \<Rightarrow> int \<Rightarrow> string \<Rightarrow> 'f \<Rightarrow> bool" where
  "open_on v fd name f \<longleftrightarrow> v_regular v name \<and> (\<exists>w. v_open v f fd = Some (name, w)) \<and> v_content v f name \<noteq> None"

definition writable_on :: "'f file_view \<Rightarrow> int \<Rightarrow> string \<Rightarrow> 'f \<Rightarrow> bool" where
  "writable_on v fd name f \<longleftrightarrow> v_regular v name \<and> v_open v f fd = Some (name, True) \<and> v_content v f name \<noteq> None"

definition file_content :: "'f file_view \<Rightarrow> string \<Rightarrow> 'f \<Rightarrow> string" where
  "file_content v name f = (case v_content v f name of None \<Rightarrow> [] | Some c \<Rightarrow> c)"

definition os_reads :: "'f os \<Rightarrow> 'f file_view \<Rightarrow> bool" where
  "os_reads os v \<longleftrightarrow>
     (\<forall>fd name f pos len r f'. open_on v fd name f \<longrightarrow> pos \<le> length (file_content v name f) \<longrightarrow> len < 2 ^ 63 \<longrightarrow>
        os_pread os fd len pos f = (r, f') \<longrightarrow>
          open_on v fd name f' \<and> file_content v name f' = file_content v name f \<and>
          (case r of
             Inl e \<Rightarrow> e \<noteq> 0
           | Inr bytes \<Rightarrow> \<exists>n. bytes = take n (drop pos (file_content v name f)) \<and> n \<le> len \<and>
               n \<le> length (file_content v name f) - pos \<and> (n = 0 \<longrightarrow> len = 0 \<or> pos = length (file_content v name f))))"

definition os_writes :: "'f os \<Rightarrow> 'f file_view \<Rightarrow> bool" where
  "os_writes os v \<longleftrightarrow>
     (\<forall>fd name f pos buf r f'. writable_on v fd name f \<longrightarrow> pos \<le> length (file_content v name f) \<longrightarrow>
        os_pwrite os fd buf pos f = (r, f') \<longrightarrow>
          (case r of
             Inl e \<Rightarrow> e \<noteq> 0
           | Inr n \<Rightarrow> writable_on v fd name f' \<and> n \<le> length buf \<and>
               file_content v name f' = overwrite (file_content v name f) pos (take n buf)))"

definition os_opens :: "'f os \<Rightarrow> 'f file_view \<Rightarrow> bool" where
  "os_opens os v \<longleftrightarrow>
     (\<forall>name flags f fd f'. v_regular v name \<longrightarrow> os_open os name flags f = (Inr fd, f') \<longrightarrow>
        fd \<ge> 0 \<and> v_open v f' fd = Some (name, O_RDWR \<in> set flags) \<and> v_content v f' name \<noteq> None \<and>
        file_content v name f' = (if O_TRUNC \<in> set flags then [] else file_content v name f)) \<and>
     (\<forall>name flags f e f'. os_open os name flags f = (Inl e, f') \<longrightarrow> e \<noteq> 0) \<and>
     (\<forall>fd f. v_content v (os_close os fd f) = v_content v f)"

definition os_stdio :: "'f os \<Rightarrow> 'f file_view \<Rightarrow> bool" where
  "os_stdio os v \<longleftrightarrow>
     (\<forall>name f h f'. v_regular v name \<longrightarrow> os_fopen os name f = (Inr h, f') \<longrightarrow> v_printed v f' h = Some (name, [])) \<and>
     (\<forall>name f e f'. os_fopen os name f = (Inl e, f') \<longrightarrow> e \<noteq> 0) \<and>
     (\<forall>h name text f s. v_printed v f h = Some (name, text) \<longrightarrow> v_printed v (os_fprintf os h s f) h = Some (name, text @ s)) \<and>
     (\<forall>h name text f. v_printed v f h = Some (name, text) \<longrightarrow>
        (if os_ferror os h f \<noteq> 0 then v_unprinted v (os_fclose os h f) name
         else \<not> v_unflushed v (os_fclose os h f) name \<longrightarrow> v_content v (os_fclose os h f) name = Some text))"

text \<open>Opening a stream.\<close>

lemma OpenFileStream_cases:
  assumes "os_opens os v" "v_regular v name" "OpenFileStream os name mode f = (rc, ss, f')"
  shows "(rc \<noteq> 0 \<and> ss = None \<and> os_open os name (open_flags mode) f = (Inl rc, f')) \<or>
    (rc = 0 \<and> (\<exists>fs f1. ss = Some fs \<and> m_fd fs \<ge> 0 \<and> m_mode fs = mode \<and>
       open_on v (m_fd fs) name f1 \<and> (O_RDWR \<in> set (open_flags mode) \<longrightarrow> writable_on v (m_fd fs) name f1) \<and>
       file_content v name f1 = (if O_TRUNC \<in> set (open_flags mode) then [] else file_content v name f) \<and>
       f' = (if mode AND TYPE_MASK = TEMP then os_unlink os name f1 else f1)))"
proof -
  obtain r f1 where o: "os_open os name (open_flags mode) f = (r, f1)"
    by fastforce
  show ?thesis
  proof (cases r)
    case (Inl e)
    then have "e \<noteq> 0"
      using assms(1) o Inl unfolding os_opens_def by blast
    then show ?thesis
      using assms(3) o Inl by (auto simp: OpenFileStream_def FileStream_Open_def FileStream_def)
  next
    case (Inr fd)
    have "fd \<ge> 0 \<and> v_open v f1 fd = Some (name, O_RDWR \<in> set (open_flags mode)) \<and> v_content v f1 name \<noteq> None \<and>
        file_content v name f1 = (if O_TRUNC \<in> set (open_flags mode) then [] else file_content v name f)"
      using assms(1,2) o Inr unfolding os_opens_def by blast
    moreover from this have "open_on v fd name f1" "O_RDWR \<in> set (open_flags mode) \<longrightarrow> writable_on v fd name f1"
      using assms(2) by (simp_all add: open_on_def writable_on_def)
    ultimately show ?thesis
      using assms(3) o Inr by (auto simp: OpenFileStream_def FileStream_Open_def FileStream_def)
  qed
qed

section \<open>Reading and writing while nothing fails\<close>

text \<open>
  Of a stream whose reads may fail, the stream that reads on from where it failed: it is a source of
  the content of the file, and up to the first failure both are the same.
\<close>

definition Mended_ReadAt :: "'f os \<Rightarrow> 'f file_view \<Rightarrow> string \<Rightarrow> file_stream \<Rightarrow> 'f reader_at" where
  "Mended_ReadAt os v name fs pos len f = do {
     (rc, bytes, f) \<leftarrow> FileStream_ReadAt os fs pos len f;
     Some (0, if rc = 0 then bytes else take len (drop pos (file_content v name f)), f) }"

lemma mended_source:
  assumes "os_reads os v"
  shows "seekable_source (Mended_ReadAt os v name fs) (file_content v name) (open_on v (m_fd fs) name)"
proof
  fix f pos and len :: nat
  assume at: "open_on v (m_fd fs) name f" "pos \<le> length (file_content v name f)" "len < 2 ^ 63"
  let ?c = "file_content v name f"
  obtain r f' where r: "os_pread os (m_fd fs) len pos f = (r, f')"
    by fastforce
  have f': "open_on v (m_fd fs) name f'" "file_content v name f' = ?c"
    and n: "case r of Inl e \<Rightarrow> e \<noteq> 0 | Inr bytes \<Rightarrow> \<exists>n. bytes = take n (drop pos ?c) \<and> n \<le> len \<and> n \<le> length ?c - pos \<and>
      (n = 0 \<longrightarrow> len = 0 \<or> pos = length ?c)"
    using assms at r unfolding os_reads_def by blast+
  show "\<exists>n f'. Mended_ReadAt os v name fs pos len f = Some (0, take n (drop pos ?c), f') \<and>
      open_on v (m_fd fs) name f' \<and> file_content v name f' = ?c \<and> n \<le> len \<and> n \<le> length ?c - pos \<and> (n = 0 \<longrightarrow> len = 0 \<or> pos = length ?c)"
  proof (cases r)
    case (Inl e)
    have "take (min len (length ?c - pos)) (drop pos ?c) = take len (drop pos ?c)"
      by (simp add: min_def)
    then show ?thesis
      using r f' n Inl at(2) by (intro exI [of _ "min len (length ?c - pos)"] exI [of _ f'])
        (auto simp: Mended_ReadAt_def FileStream_ReadAt_def)
  next
    case (Inr bytes)
    then show ?thesis
      using r f' n by (auto simp: Mended_ReadAt_def FileStream_ReadAt_def)
  qed
qed

text \<open>A string that was written without an error is at the end of the file.\<close>

lemma WriteAll_appends:
  assumes laws: "os_writes os v"
  shows "writable_on v (m_fd fs) name (fst sp) \<Longrightarrow> snd sp = length (file_content v name (fst sp)) \<Longrightarrow>
    WriteAll (Seekable_Write (FileStream_WriteAt os fs)) buf sp = Some (0, sp') \<Longrightarrow>
    writable_on v (m_fd fs) name (fst sp') \<and> snd sp' = length (file_content v name (fst sp')) \<and>
    file_content v name (fst sp') = file_content v name (fst sp) @ buf"
proof (induction buf arbitrary: sp rule: measure_induct_rule [where f = length])
  case (less buf)
  show ?case
  proof (cases "buf = []")
    case True
    then show ?thesis
      using less.prems by (subst (asm) WriteAll.simps) simp
  next
    case False
    let ?c = "file_content v name (fst sp)"
    obtain r f1 where r: "os_pwrite os (m_fd fs) buf (length ?c) (fst sp) = (r, f1)"
      by fastforce
    have law: "case r of Inl e \<Rightarrow> e \<noteq> 0 | Inr n \<Rightarrow> writable_on v (m_fd fs) name f1 \<and> n \<le> length buf \<and>
        file_content v name f1 = overwrite ?c (length ?c) (take n buf)"
      using laws less.prems(1) r unfolding os_writes_def by blast
    have w: "Seekable_Write (FileStream_WriteAt os fs) buf sp =
        (case r of Inl e \<Rightarrow> Some (e, 0, f1, length ?c) | Inr n \<Rightarrow> Some (0, n, f1, length ?c + n))"
      using less.prems(2) r by (cases sp) (auto simp: Seekable_Write_def FileStream_WriteAt_def split: sum.split)
    obtain n where n: "r = Inr n" "n \<noteq> 0"
      using less.prems(3) False law w by (subst (asm) WriteAll.simps) (auto split: sum.splits if_splits)
    have 1: "WriteAll (Seekable_Write (FileStream_WriteAt os fs)) (drop n buf) (f1, length ?c + n) = Some (0, sp')"
      using less.prems(3) False w n by (subst (asm) WriteAll.simps) simp
    have c1: "file_content v name f1 = ?c @ take n buf" "writable_on v (m_fd fs) name f1" "n \<le> length buf"
      using law n(1) by (simp_all add: overwrite_end)
    show ?thesis
      using less.IH [OF _ _ _ 1] n(2) False c1 by simp
  qed
qed

lemma WriteString_appends:
  assumes "os_writes os v" "WriteString (Seekable_Write (FileStream_WriteAt os fs)) str sp = Some (0, sp')"
    and "writable_on v (m_fd fs) name (fst sp)" "snd sp = length (file_content v name (fst sp))"
  shows "writable_on v (m_fd fs) name (fst sp') \<and> snd sp' = length (file_content v name (fst sp')) \<and>
    file_content v name (fst sp') = file_content v name (fst sp) @ str"
  using WriteAll_appends [OF assms(1,3,4)] assms(2) by (simp add: WriteString_def)

lemma close_content: "os_opens os v \<Longrightarrow> file_content v name (FileStream_close os fs f) = file_content v name f"
  by (simp add: os_opens_def file_content_def FileStream_close_def)

section \<open>A small system\<close>

text \<open>
  Files in a map; a descriptor is the number of an opening; at most \<^verbatim>\<open>drip\<close> bytes go at a time; a
  descriptor that was not opened for writing is refused; no file can be longer than \<^verbatim>\<open>limit\<close>. What is printed to a
  \<^verbatim>\<open>FILE\<close> goes to the file when it is closed; that it is too long is noticed by the next call.
\<close>

record small_fs =
  sf_files :: "string \<Rightarrow> string option"
  sf_opened :: "int \<Rightarrow> (string \<times> bool) option"
  sf_stdio :: "int \<Rightarrow> (string \<times> string \<times> bool) option"
  sf_unprinted :: "string \<Rightarrow> bool"
  sf_unflushed :: "string \<Rightarrow> bool"
  sf_next :: int

definition no_files :: small_fs where
  "no_files = \<lparr>sf_files = (\<lambda>_. None), sf_opened = (\<lambda>_. None), sf_stdio = (\<lambda>_. None), sf_unprinted = (\<lambda>_. False),
     sf_unflushed = (\<lambda>_. False), sf_next = 3\<rparr>"

definition small_view :: "small_fs file_view" where
  "small_view = \<lparr>v_regular = (\<lambda>_. True), v_content = sf_files, v_open = sf_opened,
     v_printed = (\<lambda>f h. map_option (\<lambda>(name, text, err). (name, text)) (sf_stdio f h)),
     v_unprinted = sf_unprinted, v_unflushed = sf_unflushed\<rparr>"

definition EBADF :: u32 where "EBADF = 9"
definition EFBIG :: u32 where "EFBIG = 27"

definition small_open :: "string \<Rightarrow> open_flag list \<Rightarrow> small_fs \<Rightarrow> (u32 + int) \<times> small_fs" where
  "small_open name flags f =
     (if sf_files f name = None \<and> O_CREAT \<notin> set flags then (Inl ENOENT, f)
      else (Inr \<bar>sf_next f\<bar>,
        f\<lparr>sf_files := (sf_files f)(name := Some (if O_TRUNC \<in> set flags \<or> sf_files f name = None then [] else the (sf_files f name))),
          sf_opened := (sf_opened f)(\<bar>sf_next f\<bar> := Some (name, O_RDWR \<in> set flags)), sf_next := \<bar>sf_next f\<bar> + 1\<rparr>))"

definition small_content :: "int \<Rightarrow> small_fs \<Rightarrow> string option" where
  "small_content fd f = (case sf_opened f fd of None \<Rightarrow> None | Some (name, w) \<Rightarrow> sf_files f name)"

definition small_pread :: "nat \<Rightarrow> int \<Rightarrow> nat \<Rightarrow> nat \<Rightarrow> small_fs \<Rightarrow> (u32 + string) \<times> small_fs" where
  "small_pread drip fd len pos f =
     (case small_content fd f of None \<Rightarrow> (Inl EBADF, f) | Some c \<Rightarrow> (Inr (take (min len drip) (drop pos c)), f))"

definition small_pwrite :: "nat \<Rightarrow> nat \<Rightarrow> int \<Rightarrow> string \<Rightarrow> nat \<Rightarrow> small_fs \<Rightarrow> (u32 + nat) \<times> small_fs" where
  "small_pwrite drip limit fd buf pos f =
     (case sf_opened f fd of
        Some (name, True) \<Rightarrow>
          (let c = (case sf_files f name of None \<Rightarrow> [] | Some c \<Rightarrow> c); n = min drip (min (length buf) (limit - pos)) in
           if n = 0 \<and> buf \<noteq> [] then (Inl EFBIG, f)
           else (Inr n, f\<lparr>sf_files := (sf_files f)(name := Some (overwrite c pos (take n buf)))\<rparr>))
      | _ \<Rightarrow> (Inl EBADF, f))"

definition small_ftruncate :: "nat \<Rightarrow> int \<Rightarrow> nat \<Rightarrow> small_fs \<Rightarrow> u32 \<times> small_fs" where
  "small_ftruncate limit fd len f =
     (case sf_opened f fd of
        Some (name, True) \<Rightarrow>
          (let c = (case sf_files f name of None \<Rightarrow> [] | Some c \<Rightarrow> c) in
           if limit < len then (EFBIG, f)
           else (0, f\<lparr>sf_files := (sf_files f)(name := Some (take len c @ replicate (len - length c) NUL))\<rparr>))
      | _ \<Rightarrow> (EBADF, f))"

definition small_fopen :: "string \<Rightarrow> small_fs \<Rightarrow> (u32 + int) \<times> small_fs" where
  "small_fopen name f =
     (Inr \<bar>sf_next f\<bar>,
      f\<lparr>sf_files := (sf_files f)(name := Some []), sf_stdio := (sf_stdio f)(\<bar>sf_next f\<bar> := Some (name, [], False)),
        sf_next := \<bar>sf_next f\<bar> + 1\<rparr>)"

definition small_fprintf :: "nat \<Rightarrow> int \<Rightarrow> string \<Rightarrow> small_fs \<Rightarrow> small_fs" where
  "small_fprintf limit h s f =
     (case sf_stdio f h of
        None \<Rightarrow> f
      | Some (name, text, err) \<Rightarrow> f\<lparr>sf_stdio := (sf_stdio f)(h := Some (name, text @ s, err \<or> limit < length text))\<rparr>)"

definition small_fclose :: "nat \<Rightarrow> int \<Rightarrow> small_fs \<Rightarrow> small_fs" where
  "small_fclose limit h f =
     (case sf_stdio f h of
        None \<Rightarrow> f
      | Some (name, text, err) \<Rightarrow>
          f\<lparr>sf_files := (sf_files f)(name := Some (take limit text)), sf_stdio := (sf_stdio f)(h := None),
            sf_unprinted := (sf_unprinted f)(name := err), sf_unflushed := (sf_unflushed f)(name := limit < length text)\<rparr>)"

definition small_os :: "nat \<Rightarrow> nat \<Rightarrow> small_fs os" where
  "small_os drip limit = \<lparr>os_open = small_open, os_close = (\<lambda>fd f. f\<lparr>sf_opened := (sf_opened f)(fd := None)\<rparr>),
     os_unlink = (\<lambda>n f. f\<lparr>sf_files := (sf_files f)(n := None)\<rparr>),
     os_pread = small_pread drip, os_pwrite = small_pwrite drip limit,
     os_fstat = (\<lambda>fd f. map_option length (small_content fd f)),
     os_ftruncate = small_ftruncate limit,
     os_fopen = small_fopen, os_fprintf = small_fprintf limit,
     os_ferror = (\<lambda>h f. case sf_stdio f h of Some (name, text, True) \<Rightarrow> EFBIG | _ \<Rightarrow> 0), os_fclose = small_fclose limit\<rparr>"

lemma small_os_ok:
  assumes "0 < drip"
  shows "os_reads (small_os drip limit) small_view" "os_writes (small_os drip limit) small_view"
    "os_opens (small_os drip limit) small_view" "os_stdio (small_os drip limit) small_view"
proof -
  show "os_reads (small_os drip limit) small_view"
    unfolding os_reads_def
  proof (intro allI impI)
    fix fd name f pos r f' and len :: nat
    let ?c = "file_content small_view name f"
    assume at: "open_on small_view fd name f" "pos \<le> length ?c" "os_pread (small_os drip limit) fd len pos f = (r, f')"
    have "small_content fd f = Some ?c"
      using at(1) by (auto simp: open_on_def small_view_def small_content_def file_content_def)
    then have r: "r = Inr (take (min len drip) (drop pos ?c))" "f' = f"
      using at(3) by (auto simp: small_os_def small_pread_def)
    have "take (min (min len drip) (length ?c - pos)) (drop pos ?c) = take (min len drip) (drop pos ?c)"
      by (metis length_drop min.commute take_all_iff take_take linorder_le_cases min.absorb1 min.absorb2)
    then have "\<exists>n. take (min len drip) (drop pos ?c) = take n (drop pos ?c) \<and> n \<le> len \<and> n \<le> length ?c - pos \<and> (n = 0 \<longrightarrow> len = 0 \<or> pos = length ?c)"
      using at(2) assms by (intro exI [of _ "min (min len drip) (length ?c - pos)"]) (auto simp: min_def split: if_splits)
    then show "open_on small_view fd name f' \<and> file_content small_view name f' = ?c \<and>
        (case r of Inl e \<Rightarrow> e \<noteq> 0 | Inr bytes \<Rightarrow> \<exists>n. bytes = take n (drop pos ?c) \<and> n \<le> len \<and> n \<le> length ?c - pos \<and> (n = 0 \<longrightarrow> len = 0 \<or> pos = length ?c))"
      using at(1) r by simp
  qed
  show "os_writes (small_os drip limit) small_view"
    unfolding os_writes_def
    by (auto simp: writable_on_def small_view_def small_os_def small_pwrite_def file_content_def Let_def EFBIG_def split: if_splits sum.split)
  show "os_opens (small_os drip limit) small_view"
    by (auto simp: os_opens_def small_os_def small_open_def small_view_def file_content_def split: if_splits option.splits)
  show "os_stdio (small_os drip limit) small_view"
    by (auto simp: os_stdio_def small_os_def small_fopen_def small_fprintf_def small_fclose_def small_view_def split: option.splits if_splits bool.splits)
qed

end
