(* ===== verification/Playlists.thy ===== *)
theory Playlists
  imports XmlTable Url Files Utf8
begin

text \<open>
  libimport: playlist files. playlist.cpp chooses a format by the extension of the file
  (choose\_by\_extension.h), playlist\_asx.cpp and playlist\_wpl.cpp write XML and read it with
  table-driven parsers whose observer is in playlist\_io.cpp, playlist\_pls.cpp writes and reads lines.
  Every format stores file names relative to the playlist.
\<close>

section \<open>The program\<close>

subsection \<open>XML formats\<close>

definition OnHref :: "string \<Rightarrow> (unit, string list) text_fn" where
  "OnHref m_filename = (\<lambda>_ value m_entries. (0, m_entries @ [MakeAbsolutePath m_filename value]))"

definition ASXParser :: "string \<Rightarrow> (unit, string list) Data" where
  "ASXParser filename = Parser [Tag ''asx'' [Tag ''entry'' [Tag ''ref'' [Attribute ''href'' (OnHref filename)]]]]"

definition PlaylistWPLParser :: "string \<Rightarrow> (unit, string list) Data" where
  "PlaylistWPLParser filename = Parser [Tag ''smil'' [Tag ''body'' [Tag ''seq'' [Tag ''media'' [Attribute ''src'' (OnHref filename)]]]]]"

text \<open>What the two \<^verbatim>\<open>Load\<close> functions share; an abnormal end of the parser is \<^verbatim>\<open>None\<close>.\<close>

definition load_xml ::
  "'f os \<Rightarrow> (unit, string list) Data \<Rightarrow> string \<Rightarrow> string list \<Rightarrow> 'f \<Rightarrow> (u32 \<times> string list \<times> 'f) option" where
  "load_xml os table filename entries f =
     (case OpenFileStream os (c_str filename) READ f of
        (rc, None, f) \<Rightarrow> Some (rc, entries, f)
      | (_, Some ss, f) \<Rightarrow> do {
          (rc, entries, (f, _)) \<leftarrow> xml_Parse (Seekable_Read (FileStream_ReadAt os ss)) (f, 0) () table entries;
          rc \<leftarrow> rc;
          Some (rc, entries, FileStream_close os ss f) })"

definition PlaylistASX_Load :: "'f os \<Rightarrow> string \<Rightarrow> string list \<Rightarrow> 'f \<Rightarrow> (u32 \<times> string list \<times> 'f) option" where
  "PlaylistASX_Load os filename = load_xml os (ASXParser filename) filename"

definition PlaylistWPL_Load :: "'f os \<Rightarrow> string \<Rightarrow> string list \<Rightarrow> 'f \<Rightarrow> (u32 \<times> string list \<times> 'f) option" where
  "PlaylistWPL_Load os filename = load_xml os (PlaylistWPLParser filename) filename"

abbreviation (input) LF :: char where "LF \<equiv> CHR 0x0A"

definition asx_line :: "string \<Rightarrow> string \<Rightarrow> string" where
  "asx_line filename i = ''<entry><ref href=\"'' @ c_str (XmlEscape (MakeRelativePath filename i)) @ ''\"/></entry>'' @ [LF]"

definition PlaylistASX_Save :: "'f os \<Rightarrow> string \<Rightarrow> string list \<Rightarrow> 'f \<Rightarrow> u32 \<times> 'f" where
  "PlaylistASX_Save os filename entries f =
     (case os_fopen os (c_str filename) f of
        (Inl errno, f) \<Rightarrow> (errno, f)
      | (Inr h, f) \<Rightarrow>
          (let f = os_fprintf os h (''<asx version=\"3.0\">'' @ [LF]) f;
               f = fold (\<lambda>i. os_fprintf os h (asx_line filename i)) entries f;
               f = os_fprintf os h (''</asx>'' @ [LF]) f
           in (0, os_fclose os h f)))"

definition wpl_line :: "string \<Rightarrow> string \<Rightarrow> string" where
  "wpl_line filename i = ''<media src=\"'' @ c_str (XmlEscape (MakeRelativePath filename i)) @ ''\"/>'' @ [LF]"

definition PlaylistWPL_Save :: "'f os \<Rightarrow> string \<Rightarrow> string list \<Rightarrow> 'f \<Rightarrow> u32 \<times> 'f" where
  "PlaylistWPL_Save os filename entries f =
     (case os_fopen os (c_str filename) f of
        (Inl errno, f) \<Rightarrow> (errno, f)
      | (Inr h, f) \<Rightarrow>
          (let f = os_fprintf os h (''<?wpl version=\"1.0\"?>'' @ [LF] @ ''<smil>'' @ [LF] @ ''<body>'' @ [LF] @ ''<seq>'' @ [LF]) f;
               f = fold (\<lambda>i. os_fprintf os h (wpl_line filename i)) entries f;
               f = os_fprintf os h (''</seq>'' @ [LF] @ ''</body>'' @ [LF] @ ''</smil>'' @ [LF]) f;
               rc = os_ferror os h f
           in (rc, os_fclose os h f)))"

subsection \<open>PLS\<close>

definition pls_entry :: "string \<Rightarrow> string \<Rightarrow> string list \<Rightarrow> string list" where
  "pls_entry filename s entries =
     (let ptr = c_str s in
      if take 4 ptr \<noteq> ''File'' then entries
      else case strchr CHR ''='' ptr of
          None \<Rightarrow> entries
        | Some k \<Rightarrow>
            (let value = drop (k + 1) ptr in
             if value = [] then entries
             else if IsHttpURL value then entries @ [value]
             else entries @ [MakeAbsolutePath filename value]))"

definition FILE_FLAGS :: u32 where "FILE_FLAGS = READABLE OR WRITABLE OR SEEKABLE OR 16"

partial_function (option) pls_lines ::
  "(string \<Rightarrow> u32 list option) \<Rightarrow> ('f \<times> nat) reader \<Rightarrow> string \<Rightarrow> string list \<Rightarrow> 'f \<times> nat \<Rightarrow> (u32 \<times> string list \<times> 'f \<times> nat) option"
where
  "pls_lines mbstowcs rd filename entries ss = do {
     (rc, s, ss) \<leftarrow> ReadLine FILE_FLAGS rd Seekable_Seek Tell ss;
     (if rc \<noteq> 0 then Some (rc, entries, ss)
      else do {
        s \<leftarrow> LocalEncodingToUTF8 mbstowcs (c_str s);
        let entries = pls_entry filename s entries;
        (if s \<noteq> [] then pls_lines mbstowcs rd filename entries ss else Some (0, entries, ss)) }) }"

definition PlaylistPLS_Load ::
  "(string \<Rightarrow> u32 list option) \<Rightarrow> 'f os \<Rightarrow> string \<Rightarrow> string list \<Rightarrow> 'f \<Rightarrow> (u32 \<times> string list \<times> 'f) option"
where
  "PlaylistPLS_Load mbstowcs os filename entries f =
     (case OpenFileStream os (c_str filename) READ f of
        (rc, None, f) \<Rightarrow> Some (rc, entries, f)
      | (_, Some ss, f) \<Rightarrow> do {
          (rc, entries, (f, _)) \<leftarrow> pls_lines mbstowcs (Seekable_Read (FileStream_ReadAt os ss)) filename entries (f, 0);
          Some (rc, entries, FileStream_close os ss f) })"

fun pls_write :: "(u32 list \<Rightarrow> string option) \<Rightarrow> 's writer \<Rightarrow> string \<Rightarrow> nat \<Rightarrow> string list \<Rightarrow> 's \<Rightarrow> (u32 \<times> 's) option" where
  "pls_write wcstombs wr filename n [] ss = Some (0, ss)"
| "pls_write wcstombs wr filename n (i # entries) ss = do {
     s \<leftarrow> UTF8ToLocalEncoding wcstombs (c_str i);
     let s = (if \<not> IsHttpURL s then MakeRelativePath filename s else s);
     (rc, ss) \<leftarrow> WriteString wr (''File'' @ dec (n + 1) @ ''='' @ s @ [LF]) ss;
     (if rc \<noteq> 0 then Some (rc, ss) else pls_write wcstombs wr filename (n + 1) entries ss) }"

definition PlaylistPLS_Save ::
  "(u32 list \<Rightarrow> string option) \<Rightarrow> 'f os \<Rightarrow> string \<Rightarrow> string list \<Rightarrow> 'f \<Rightarrow> (u32 \<times> 'f) option"
where
  "PlaylistPLS_Save wcstombs os filename entries f =
     (case OpenFileStream os (c_str filename) WRITE f of
        (rc, None, f) \<Rightarrow> Some (rc, f)
      | (_, Some ss, f) \<Rightarrow> do {
          let wr = Seekable_Write (FileStream_WriteAt os ss);
          (rc, sp) \<leftarrow> WriteString wr (''[playlist]'' @ [LF]) (f, 0);
          (rc, sp) \<leftarrow> (if rc = 0 then WriteString wr (''numberofentries='' @ dec (length entries) @ [LF]) sp else Some (rc, sp));
          (rc, sp) \<leftarrow> (if rc = 0 then pls_write wcstombs wr filename 0 entries sp else Some (rc, sp));
          Some (rc, FileStream_close os ss (fst sp)) })"

subsection \<open>Choosing a format\<close>

datatype playlist_io = PlaylistWPL | PlaylistASX | PlaylistPLS

definition sm_map :: "(string \<times> playlist_io) list" where
  "sm_map = [(''wpl'', PlaylistWPL), (''asx'', PlaylistASX), (''pls'', PlaylistPLS)]"

record playlist =
  m_filename :: string
  m_impl :: "playlist_io option"

definition Playlist :: playlist where "Playlist = \<lparr>m_filename = [], m_impl = None\<rparr>"

definition Playlist_Init :: "string \<Rightarrow> playlist \<Rightarrow> u32 \<times> playlist" where
  "Playlist_Init filename p =
     (let p = p\<lparr>m_filename := filename\<rparr> in
      case map_of sm_map (GetExtension (c_str filename)) of
        Some io \<Rightarrow> (0, p\<lparr>m_impl := Some io\<rparr>)
      | None \<Rightarrow> (EINVAL, p))"

definition Playlist_Load ::
  "(string \<Rightarrow> u32 list option) \<Rightarrow> 'f os \<Rightarrow> playlist \<Rightarrow> 'f \<Rightarrow> (u32 \<times> string list \<times> 'f) option"
where
  "Playlist_Load mbstowcs os p f =
     (case m_impl p of
        None \<Rightarrow> Some (EINVAL, [], f)
      | Some PlaylistWPL \<Rightarrow> PlaylistWPL_Load os (m_filename p) [] f
      | Some PlaylistASX \<Rightarrow> PlaylistASX_Load os (m_filename p) [] f
      | Some PlaylistPLS \<Rightarrow> PlaylistPLS_Load mbstowcs os (m_filename p) [] f)"

definition Playlist_Save ::
  "(u32 list \<Rightarrow> string option) \<Rightarrow> 'f os \<Rightarrow> playlist \<Rightarrow> string list \<Rightarrow> 'f \<Rightarrow> (u32 \<times> 'f) option"
where
  "Playlist_Save wcstombs os p entries f =
     (case m_impl p of
        None \<Rightarrow> Some (EINVAL, f)
      | Some PlaylistWPL \<Rightarrow> Some (PlaylistWPL_Save os (m_filename p) entries f)
      | Some PlaylistASX \<Rightarrow> Some (PlaylistASX_Save os (m_filename p) entries f)
      | Some PlaylistPLS \<Rightarrow> PlaylistPLS_Save wcstombs os (m_filename p) entries f)"

end
