(* ===== verification/Faults.thy ===== *)
theory Faults
  imports Playlists
begin

text \<open>
  Reading from a stream that may fail. A reader is compared with one that does not fail and is the
  same up to the first failure; the parsers of libutil/xml.cpp, libutil/stream.cpp and
  libimport/playlist\_pls.cpp either do with both the same, or end with the error that the reader gave.
\<close>

section \<open>Readers that are the same until one fails\<close>

definition fails_or_agrees :: "(u32 \<Rightarrow> bool) \<Rightarrow> 's reader \<Rightarrow> 's reader \<Rightarrow> bool" where
  "fails_or_agrees bad rd rd0 \<longleftrightarrow>
     (\<forall>len s. rd len s = rd0 len s \<or> (\<exists>e bytes s'. e \<noteq> 0 \<and> bad e \<and> rd len s = Some (e, bytes, s')))"

lemma fails_or_agrees_cases:
  assumes "fails_or_agrees bad rd rd0"
  obtains "rd len s = rd0 len s" | e bytes s' where "e \<noteq> 0" "bad e" "rd len s = Some (e, bytes, s')"
  using assms unfolding fails_or_agrees_def by blast

definition read_error :: "'f os \<Rightarrow> u32 \<Rightarrow> bool" where
  "read_error os e \<longleftrightarrow> (\<exists>fd len pos f f'. os_pread os fd len pos f = (Inl e, f'))"

lemma mended_agrees:
  "fails_or_agrees (read_error os) (Seekable_Read (FileStream_ReadAt os fs)) (Seekable_Read (Mended_ReadAt os v name fs))"
  unfolding fails_or_agrees_def
proof (intro allI)
  fix len and s :: "'a \<times> nat"
  obtain f pos where s: "s = (f, pos)"
    by fastforce
  obtain r f' where r: "os_pread os (m_fd fs) len pos f = (r, f')"
    by fastforce
  show "Seekable_Read (FileStream_ReadAt os fs) len s = Seekable_Read (Mended_ReadAt os v name fs) len s \<or>
    (\<exists>e bytes s'. e \<noteq> 0 \<and> read_error os e \<and> Seekable_Read (FileStream_ReadAt os fs) len s = Some (e, bytes, s'))"
  proof (cases "\<exists>e. r = Inl e \<and> e \<noteq> 0")
    case True
    then show ?thesis
      using r s unfolding read_error_def by (auto simp: Seekable_Read_def FileStream_ReadAt_def)
  next
    case False
    then show ?thesis
      using r s by (auto simp: Seekable_Read_def Mended_ReadAt_def FileStream_ReadAt_def split: sum.split)
  qed
qed

section \<open>The parsers\<close>

lemma sax_fill_fails_or_agrees:
  assumes "fails_or_agrees bad rd rd0"
  shows "sax_fill rd p s = sax_fill rd0 p s \<or> (\<exists>e p' s'. e \<noteq> 0 \<and> bad e \<and> sax_fill rd p s = Some (e, p', s'))"
  using fails_or_agrees_cases [OF assms, of "SAX_BUFSIZE - length (m_buffer p)" s]
  by cases (auto simp: sax_fill_def)

lemma sax_Parse_fails_or_agrees:
  assumes agree: "fails_or_agrees bad rd rd0"
  shows "sax_Parse rd0 p s = Some r \<Longrightarrow>
    sax_Parse rd p s = Some r \<or> (\<exists>e evs s'. e \<noteq> 0 \<and> bad e \<and> sax_Parse rd p s = Some (Some e, evs, s'))"
proof -
  have "rd1 = rd0 \<longrightarrow> sax_Parse rd p s = Some r \<or> (\<exists>e evs s'. e \<noteq> 0 \<and> bad e \<and> sax_Parse rd p s = Some (Some e, evs, s'))"
    if "sax_Parse rd1 p s = Some r" for rd1
    using that
  proof (induction rd1 p s r rule: sax_Parse.raw_induct [rotated, consumes 1, case_names step])
    case (step rec rd1 p s r)
    show ?case
    proof
      assume [simp]: "rd1 = rd0"
      consider "sax_fill rd p s = sax_fill rd0 p s" | e p' s' where "e \<noteq> 0" "bad e" "sax_fill rd p s = Some (e, p', s')"
        using sax_fill_fails_or_agrees [OF agree, of p s] by blast
      then show "sax_Parse rd p s = Some r \<or> (\<exists>e evs s'. e \<noteq> 0 \<and> bad e \<and> sax_Parse rd p s = Some (Some e, evs, s'))"
      proof cases
        case 2
        then show ?thesis
          by (subst sax_Parse.simps, subst (2) sax_Parse.simps) simp
      next
        case fill: 1
        obtain rc p1 s1 where f: "sax_fill rd0 p s = Some (rc, p1, s1)"
          using step.hyps by (cases "sax_fill rd0 p s") auto
        show ?thesis
        proof (cases "rc \<noteq> 0 \<or> m_buffer p1 = [] \<and> m_eof p1")
          case True
          then show ?thesis
            using step.hyps f fill by (subst sax_Parse.simps) auto
        next
          case False
          obtain q ev where l: "sax_loop p1 = Some (q, ev)"
            using step.hyps f False by (cases "sax_loop p1") auto
          show ?thesis
          proof (cases q)
            case None
            then show ?thesis
              using step.hyps f fill l False by (subst sax_Parse.simps) auto
          next
            case (Some p2)
            obtain rc2 evs2 s2 where r: "rec rd0 p2 s1 = Some (rc2, evs2, s2)" "r = (rc2, ev @ evs2, s2)"
              using step.hyps f l False Some by (cases "rec rd0 p2 s1") auto
            have step: "sax_Parse rd p s = do { (rc, evs, s) \<leftarrow> sax_Parse rd p2 s1; Some (rc, ev @ evs, s) }"
              using f fill l False Some by (subst sax_Parse.simps) auto
            from step.IH [OF r(1)] show ?thesis
              using r(2) unfolding step by auto
          qed
        qed
      qed
    qed
  qed
  then show "sax_Parse rd0 p s = Some r \<Longrightarrow> ?thesis"
    by blast
qed

lemma xml_Parse_fails_or_agrees:
  assumes "fails_or_agrees bad rd rd0" "xml_Parse rd0 sp target table st = Some (rc, st', sp')"
  shows "xml_Parse rd sp target table st = Some (rc, st', sp') \<or>
    (\<exists>e st' sp'. e \<noteq> 0 \<and> bad e \<and> xml_Parse rd sp target table st = Some (Some e, st', sp'))"
proof -
  obtain evs where "sax_Parse rd0 SaxParser sp = Some (rc, evs, sp')" "st' = snd (tdp_run evs (TableDrivenParser target table, st))"
    using assms(2) by (auto simp: xml_Parse_def split: Option.bind_split_asm)
  then show ?thesis
    using sax_Parse_fails_or_agrees [OF assms(1), of SaxParser sp "(rc, evs, sp')"] by (auto simp: xml_Parse_def)
qed

lemma read_line_fails_or_agrees:
  assumes agree: "fails_or_agrees bad rd rd0"
  shows "read_line rd0 seek pos str s = Some r \<Longrightarrow>
    read_line rd seek pos str s = Some r \<or> (\<exists>e s'. e \<noteq> 0 \<and> bad e \<and> read_line rd seek pos str s = Some (e, [], s'))"
proof -
  have "rd1 = rd0 \<longrightarrow> read_line rd seek pos str s = Some r \<or> (\<exists>e s'. e \<noteq> 0 \<and> bad e \<and> read_line rd seek pos str s = Some (e, [], s'))"
    if "read_line rd1 seek pos str s = Some r" for rd1
    using that
  proof (induction rd1 seek pos str s r rule: read_line.raw_induct [rotated, consumes 1, case_names step])
    case (step rec rd1 seek pos str s r)
    show ?case
    proof
      assume [simp]: "rd1 = rd0"
      show "read_line rd seek pos str s = Some r \<or> (\<exists>e s'. e \<noteq> 0 \<and> bad e \<and> read_line rd seek pos str s = Some (e, [], s'))"
      proof (cases rule: fails_or_agrees_cases [OF agree, of 1024 s])
        case 1
        then show ?thesis
          using step.hyps by (subst read_line.simps, subst (2) read_line.simps)
            (auto simp: Let_def split: Option.bind_split_asm if_splits dest!: step.IH, blast)
      next
        case (2 e bytes s')
        then show ?thesis
          by (subst read_line.simps, subst (2) read_line.simps) simp
      qed
    qed
  qed
  then show "read_line rd0 seek pos str s = Some r \<Longrightarrow> ?thesis"
    by blast
qed

lemma pls_lines_fails_or_agrees:
  assumes agree: "fails_or_agrees bad rd rd0"
  shows "pls_lines mbs rd0 name es sp = Some r \<Longrightarrow>
    pls_lines mbs rd name es sp = Some r \<or> (\<exists>e es' sp'. e \<noteq> 0 \<and> bad e \<and> pls_lines mbs rd name es sp = Some (e, es', sp'))"
proof -
  have "rd1 = rd0 \<longrightarrow> pls_lines mbs rd name es sp = Some r \<or>
      (\<exists>e es' sp'. e \<noteq> 0 \<and> bad e \<and> pls_lines mbs rd name es sp = Some (e, es', sp'))"
    if "pls_lines mbs rd1 name es sp = Some r" for rd1
    using that
  proof (induction mbs rd1 name es sp r rule: pls_lines.raw_induct [rotated, consumes 1, case_names step])
    case (step rec mbs rd1 name es sp r)
    show ?case
    proof
      assume [simp]: "rd1 = rd0"
      obtain rc l sp1 where l0: "ReadLine FILE_FLAGS rd0 Seekable_Seek Tell sp = Some (rc, l, sp1)"
        using step.hyps by (cases "ReadLine FILE_FLAGS rd0 Seekable_Seek Tell sp") auto
      then have "ReadLine FILE_FLAGS rd Seekable_Seek Tell sp = Some (rc, l, sp1) \<or>
          (\<exists>e s'. e \<noteq> 0 \<and> bad e \<and> ReadLine FILE_FLAGS rd Seekable_Seek Tell sp = Some (e, [], s'))"
        using read_line_fails_or_agrees [OF agree, of Seekable_Seek "Tell sp" "[]" sp "(rc, l, sp1)"] by (auto simp: ReadLine_def)
      then consider "ReadLine FILE_FLAGS rd Seekable_Seek Tell sp = Some (rc, l, sp1)"
        | e s' where "e \<noteq> 0" "bad e" "ReadLine FILE_FLAGS rd Seekable_Seek Tell sp = Some (e, [], s')"
        by blast
      then show "pls_lines mbs rd name es sp = Some r \<or> (\<exists>e es' sp'. e \<noteq> 0 \<and> bad e \<and> pls_lines mbs rd name es sp = Some (e, es', sp'))"
      proof cases
        case 1
        then show ?thesis
          using step.hyps l0 by (subst pls_lines.simps, subst (2) pls_lines.simps)
            (auto simp: Let_def split: Option.bind_split_asm if_splits dest!: step.IH)
      next
        case 2
        then show ?thesis
          by (subst pls_lines.simps, subst (2) pls_lines.simps) simp
      qed
    qed
  qed
  then show "pls_lines mbs rd0 name es sp = Some r \<Longrightarrow> ?thesis"
    by blast
qed

end
