(* ===== verification/LocalText.thy ===== *)
theory LocalText
  imports Playlists
begin

text \<open>
  Text in an encoding of characters by bytes, of which ASCII is a part, as UTF-8 and the usual local encodings are: what
  libutil/file.cpp does to file names byte by byte, it does to the characters.
\<close>

section \<open>Encodings with ASCII in them\<close>

abbreviation ascii :: "char \<Rightarrow> bool" where
  "ascii b \<equiv> byte b < 0x80"

abbreviation text_in :: "(u32 \<Rightarrow> string) \<Rightarrow> u32 list \<Rightarrow> string" where
  "text_in K cs \<equiv> concat (map K cs)"

definition transparent :: "(u32 \<Rightarrow> string) \<Rightarrow> u32 set \<Rightarrow> bool" where
  "transparent K A \<longleftrightarrow> {c. 0 < c \<and> c < 0x80} \<subseteq> A \<and>
     (\<forall>c\<in>A. if c < 0x80 then K c = [chr8 c] else K c \<noteq> [] \<and> (\<forall>b\<in>set (K c). \<not> ascii b))"

lemma ascii_byte: "c < 0x80 \<Longrightarrow> byte (chr8 c) = c"
  by (rule byte_chr8) (simp add: word_less_nat_alt)

lemma transparent_char:
  assumes "transparent K A" "c \<in> A"
  shows "c < 0x80 \<Longrightarrow> K c = [chr8 c]" "\<not> c < 0x80 \<Longrightarrow> K c \<noteq> [] \<and> (\<forall>b\<in>set (K c). \<not> ascii b)"
  using assms unfolding transparent_def by metis+

lemma text_ascii: "transparent K A \<Longrightarrow> \<forall>b\<in>set a. ascii b \<Longrightarrow> byte ` set a \<subseteq> A \<Longrightarrow> text_in K (map byte a) = a"
  by (induction a) (simp_all add: transparent_char(1))

lemma ascii_in:
  assumes "transparent K A" "ascii b" "b \<noteq> NUL"
  shows "byte b \<in> A"
proof -
  have "byte b \<noteq> 0"
    using assms(3) byte_inject [of b NUL] by (auto simp: byte_def [of NUL])
  then show ?thesis
    using assms(1,2) unfolding transparent_def by (force simp: word_neq_0_conv)
qed

text \<open>An ASCII byte of a text is a character of its own.\<close>

lemma text_at_ascii:
  assumes K: "transparent K A" and b: "ascii b"
  shows "set cs \<subseteq> A \<Longrightarrow> text_in K cs = u @ b # v \<Longrightarrow> \<exists>cu cv. cs = cu @ byte b # cv \<and> text_in K cu = u \<and> text_in K cv = v"
proof (induction cs arbitrary: u)
  case (Cons c cs)
  have c: "if c < 0x80 then K c = [chr8 c] else K c \<noteq> [] \<and> (\<forall>b\<in>set (K c). \<not> ascii b)"
    using transparent_char [OF K, of c] Cons.prems(1) by simp
  from Cons.prems(2) consider (inside) w where "K c = u @ b # w" | (after) u' where "u = K c @ u'" "text_in K cs = u' @ b # v"
    by (auto simp: append_eq_append_conv2 Cons_eq_append_conv append_eq_Cons_conv)
  then show ?case
  proof cases
    case inside
    then have "c < 0x80"
      using c b by (auto split: if_splits)
    moreover from this have "u @ b # w = [chr8 c]"
      using c inside by simp
    ultimately have "u = []" "w = []" "byte b = c"
      using ascii_byte by (cases u; simp)+
    then show ?thesis
      using Cons.prems(2) inside by (intro exI [of _ "[]"] exI [of _ cs]) auto
  next
    case after
    then obtain cu cv where "cs = cu @ byte b # cv" "text_in K cu = u'" "text_in K cv = v"
      using Cons.IH [of u'] Cons.prems(1) by auto
    then show ?thesis
      using after(1) by (intro exI [of _ "c # cu"] exI [of _ cv]) simp
  qed
qed simp

lemma text_has_ascii:
  assumes "transparent K A" "set cs \<subseteq> A" "ascii b"
  shows "b \<in> set (text_in K cs) \<longleftrightarrow> byte b \<in> set cs"
proof
  assume "b \<in> set (text_in K cs)"
  then obtain u v where "text_in K cs = u @ b # v"
    by (meson split_list)
  then show "byte b \<in> set cs"
    using text_at_ascii [OF assms(1,3,2)] by fastforce
next
  assume "byte b \<in> set cs"
  moreover from this have "K (byte b) = [b]"
    using transparent_char(1) [OF assms(1), of "byte b"] assms(2,3) by auto
  ultimately show "b \<in> set (text_in K cs)"
    by force
qed

lemma text_empty:
  assumes "transparent K A" "set cs \<subseteq> A"
  shows "text_in K cs = [] \<longleftrightarrow> cs = []"
  using assms by (cases cs) (auto simp: transparent_def split: if_splits)

lemma text_is_ascii:
  assumes K: "transparent K A" and a: "\<forall>b\<in>set a. ascii b"
  shows "set cs \<subseteq> A \<Longrightarrow> text_in K cs = a @ v \<Longrightarrow> \<exists>cv. cs = map byte a @ cv \<and> text_in K cv = v"
  using a
proof (induction a arbitrary: cs)
  case (Cons b a)
  obtain cu cv where 1: "cs = cu @ byte b # cv" "text_in K cu = []" "text_in K cv = a @ v"
    using text_at_ascii [OF K _ Cons.prems(1), of b "[]" "a @ v"] Cons.prems(2,3) by auto
  then have "cu = []"
    using text_empty [OF K, of cu] Cons.prems(1) by auto
  then show ?case
    using 1 Cons.IH [of cv] Cons.prems(1,3) by auto
qed simp

section \<open>File names\<close>

lemma Split_text:
  assumes K: "transparent K A" "set cs \<subseteq> A"
  obtains h t where "set h \<subseteq> set cs" "set t \<subseteq> set cs" "Split (text_in K cs) = (text_in K h, text_in K t)"
    "\<And>K'. transparent K' A \<Longrightarrow> Split (text_in K' cs) = (text_in K' h, text_in K' t)"
proof (cases "0x2F \<in> set cs")
  have slash: "byte CHR ''/'' = 0x2F" "ascii CHR ''/''"
    by (simp_all add: byte_def)
  {
    case False
    have "Split (text_in K' cs) = (text_in K' cs, text_in K' [])" if "transparent K' A" for K'
      using text_has_ascii [OF that K(2) slash(2)] False slash(1) Split_none by simp
    then show ?thesis
      using that [of cs "[]"] K(1) by simp
  next
    case True
    then obtain h t where cs: "cs = h @ 0x2F # t" "0x2F \<notin> set h"
      by (meson split_list_first)
    have "Split (text_in K' cs) = (text_in K' h, text_in K' t)" if "transparent K' A" for K'
    proof -
      have "byte CHR ''/'' \<in> A"
        using K(2) cs(1) slash(1) by simp
      from transparent_char(1) [OF that this slash(2)] have "K' (byte CHR ''/'') = ''/''"
        unfolding chr8_byte .
      then have "K' 0x2F = ''/''"
        unfolding slash(1) .
      moreover have "CHR ''/'' \<notin> set (text_in K' h)"
        using text_has_ascii [OF that _ slash(2), of h] K(2) cs slash(1) by auto
      ultimately show ?thesis
        using Split_first [of "text_in K' h" "text_in K' t"] cs(1) by simp
    qed
    then show ?thesis
      using that [of h t] K(1) cs(1) by auto
  }
qed

text \<open>
  The part of a name that differs from another is at a boundary of characters; and if the other name is ASCII, it is the
  same characters in every encoding.
\<close>

lemma same_ascii:
  assumes K: "transparent K A" and a: "\<forall>b\<in>set a. ascii b" and h: "set h \<subseteq> A"
  shows "a = text_in K h \<longleftrightarrow> h = map byte a"
proof
  assume "a = text_in K h"
  then obtain cv where cv: "h = map byte a @ cv" "text_in K cv = []"
    using text_is_ascii [OF K a h, of "[]"] by auto
  then have "cv = []"
    using text_empty [OF K, of cv] h by auto
  then show "h = map byte a"
    using cv(1) by simp
next
  assume "h = map byte a"
  then show "a = text_in K h"
    using text_ascii [OF K a] h by simp
qed

lemma common_root_text:
  assumes K: "transparent K A"
  shows "set cs \<subseteq> A \<Longrightarrow> common_root x (text_in K cs) = (s1, s2) \<Longrightarrow>
    \<exists>cs2. s2 = text_in K cs2 \<and> set cs2 \<subseteq> set cs \<and>
      ((\<forall>b\<in>set x. ascii b) \<longrightarrow> (\<forall>K'. transparent K' A \<longrightarrow> common_root x (text_in K' cs) = (s1, text_in K' cs2)))"
proof (induction "length x" arbitrary: x cs rule: less_induct)
  case less
  obtain h1 t1 where x: "Split x = (h1, t1)"
    by fastforce
  obtain h t where sp: "set h \<subseteq> set cs" "set t \<subseteq> set cs" "Split (text_in K cs) = (text_in K h, text_in K t)"
    "\<And>K'. transparent K' A \<Longrightarrow> Split (text_in K' cs) = (text_in K' h, text_in K' t)"
    using Split_text [OF K less.prems(1)] by blast
  have parts: "set h1 \<subseteq> set x" "set t1 \<subseteq> set x"
    using x by (cases x rule: Split_cases; auto)+
  have A: "set h \<subseteq> A" "set t \<subseteq> A"
    using sp(1,2) less.prems(1) by auto
  have stop: "(h1 \<noteq> text_in K' h \<or> t1 = [] \<or> text_in K' t = []) \<longleftrightarrow> (h1 \<noteq> text_in K h \<or> t1 = [] \<or> text_in K t = [])"
    if "\<forall>b\<in>set x. ascii b" "transparent K' A" for K'
  proof -
    have "\<forall>b\<in>set h1. ascii b"
      using that(1) parts(1) by blast
    then show ?thesis
      using same_ascii [OF that(2) _ A(1)] same_ascii [OF K _ A(1)] text_empty [OF that(2) A(2)] text_empty [OF K A(2)] by metis
  qed
  show ?case
  proof (cases "h1 \<noteq> text_in K h \<or> t1 = [] \<or> text_in K t = []")
    case True
    have e: "s1 = x" "s2 = text_in K cs"
      using less.prems(2) x sp(3) True by (subst (asm) common_root.simps; simp split: if_splits)+
    have "common_root x (text_in K' cs) = (s1, text_in K' cs)" if "\<forall>b\<in>set x. ascii b" "transparent K' A" for K'
      using stop [OF that] True x sp(4) [OF that(2)] e(1) by (subst common_root.simps) simp
    then show ?thesis
      using e(2) by blast
  next
    case False
    have "length t1 < length x"
      using Split_shorter [OF x] False by simp
    moreover have "common_root t1 (text_in K t) = (s1, s2)"
      using less.prems(2) x sp(3) False by (subst (asm) common_root.simps) (simp del: concat_eq_Nil_conv)
    ultimately obtain cs2 where cs2: "s2 = text_in K cs2" "set cs2 \<subseteq> set t"
      "(\<forall>b\<in>set t1. ascii b) \<longrightarrow> (\<forall>K'. transparent K' A \<longrightarrow> common_root t1 (text_in K' t) = (s1, text_in K' cs2))"
      using less.hyps [OF _ A(2)] by blast
    have "common_root x (text_in K' cs) = (s1, text_in K' cs2)" if "\<forall>b\<in>set x. ascii b" "transparent K' A" for K'
    proof -
      have "common_root t1 (text_in K' t) = (s1, text_in K' cs2)"
        using cs2(3) that parts(2) by blast
      then show ?thesis
        using stop [OF that] False x sp(4) [OF that(2)] by (subst common_root.simps) (simp del: concat_eq_Nil_conv)
    qed
    then show ?thesis
      using cs2(1,2) sp(2) by blast
  qed
qed

lemma add_parents_dots: "\<exists>k. \<forall>l. add_parents r l = concat (replicate k ''../'') @ l"
proof (induction "length r" arbitrary: r rule: less_induct)
  case less
  obtain h t where sp: "Split r = (h, t)"
    by fastforce
  show ?case
  proof (cases "t = []")
    case True
    then have "add_parents r l = l" for l
      using sp by (subst add_parents.simps) simp
    then show ?thesis
      by (intro exI [of _ 0]) simp
  next
    case False
    then obtain k where k: "\<forall>l. add_parents t l = concat (replicate k ''../'') @ l"
      using less [OF Split_shorter [OF sp]] by blast
    have "add_parents r l = add_parents t (''../'' @ l)" for l
      using sp False by (subst add_parents.simps) simp
    then show ?thesis
      using k by (intro exI [of _ "Suc k"]) (simp add: replicate_append_same [symmetric])
  qed
qed

text \<open>The characters of a relative name.\<close>

lemma relative_text:
  assumes K: "transparent K A" "set cs \<subseteq> A"
  shows "\<exists>rs. set rs \<subseteq> A \<and> MakeRelativePath name (text_in K cs) = text_in K rs \<and>
    ((\<forall>b\<in>set name. ascii b) \<longrightarrow> (\<forall>K'. transparent K' A \<longrightarrow> MakeRelativePath name (text_in K' cs) = text_in K' rs))"
proof -
  obtain s1 s2 where cr: "common_root name (text_in K cs) = (s1, s2)"
    by fastforce
  obtain cs2 where cs2: "s2 = text_in K cs2" "set cs2 \<subseteq> set cs"
    "(\<forall>b\<in>set name. ascii b) \<longrightarrow> (\<forall>K'. transparent K' A \<longrightarrow> common_root name (text_in K' cs) = (s1, text_in K' cs2))"
    using common_root_text [OF K cr] by blast
  obtain k where k: "\<forall>l. add_parents s1 l = concat (replicate k ''../'') @ l"
    using add_parents_dots by blast
  let ?ups = "concat (replicate k ''../'')" 
  have ups: "\<forall>b\<in>set ?ups. ascii b" "byte ` set ?ups \<subseteq> A"
  proof -
    have "set ?ups \<subseteq> set ''../''"
      by auto
    moreover have "\<forall>b\<in>set ''../''. ascii b \<and> b \<noteq> NUL"
      by (simp add: byte_def)
    ultimately show "\<forall>b\<in>set ?ups. ascii b" "byte ` set ?ups \<subseteq> A"
      using ascii_in [OF K(1)] by blast+
  qed
  have rel: "?ups @ text_in K' cs2 = text_in K' (map byte ?ups @ cs2)" if "transparent K' A" for K'
    using text_ascii [OF that ups] by simp
  show ?thesis
  proof (intro exI [of _ "map byte ?ups @ cs2"] conjI impI allI)
    show "set (map byte ?ups @ cs2) \<subseteq> A"
      using ups(2) cs2(2) K(2) by auto
    show "MakeRelativePath name (text_in K cs) = text_in K (map byte ?ups @ cs2)"
      unfolding MakeRelativePath_def Let_def cr prod.case k [rule_format] cs2(1) by (rule rel [OF K(1)])
    show "MakeRelativePath name (text_in K' cs) = text_in K' (map byte ?ups @ cs2)" if "\<forall>b\<in>set name. ascii b" "transparent K' A" for K'
    proof -
      have "common_root name (text_in K' cs) = (s1, text_in K' cs2)"
        using cs2(3) that by blast
      then show ?thesis
        unfolding MakeRelativePath_def Let_def k [rule_format] using rel [OF that(2)] k by simp
    qed
  qed
qed

lemma text_starts_ascii:
  assumes "transparent K A" "set cs \<subseteq> A" "\<forall>b\<in>set a. ascii b"
  shows "prefix a (text_in K cs) \<longleftrightarrow> prefix (map byte a) cs"
proof
  assume "prefix a (text_in K cs)"
  then show "prefix (map byte a) cs"
    using text_is_ascii [OF assms(1,3,2)] by (auto simp: prefix_def)
next
  assume "prefix (map byte a) cs"
  then obtain cv where cv: "cs = map byte a @ cv"
    by (auto simp: prefix_def)
  then have "text_in K (map byte a) = a"
    using text_ascii [OF assms(1,3)] assms(2) by auto
  then show "prefix a (text_in K cs)"
    by (simp add: cv)
qed

section \<open>The local encoding\<close>

text \<open>
  The code of each character in the local encoding, if it has one. The C library's conversions, where they
  succeed, are by character. A file name can be expressed if it is UTF-8 of characters that have a code.
\<close>

definition ascii_based :: "(u32 \<Rightarrow> string option) \<Rightarrow> bool" where
  "ascii_based code \<longleftrightarrow>
     (\<forall>c. 0 < c \<longrightarrow> c < 0x80 \<longrightarrow> code c = Some [chr8 c]) \<and>
     (\<forall>c bytes. 0x80 \<le> c \<longrightarrow> code c = Some bytes \<longrightarrow> bytes \<noteq> [] \<and> (\<forall>b\<in>set bytes. \<not> ascii b))"

definition converts :: "(u32 \<Rightarrow> string option) \<Rightarrow> (u32 list \<Rightarrow> string option) \<Rightarrow> (string \<Rightarrow> u32 list option) \<Rightarrow> bool" where
  "converts code wcstombs mbstowcs \<longleftrightarrow>
     (\<forall>cs. (\<forall>c\<in>set cs. c \<noteq> 0 \<and> code c \<noteq> None) \<longrightarrow>
        wcstombs cs = Some (text_in (the \<circ> code) cs) \<and> mbstowcs (text_in (the \<circ> code) cs) = Some cs)"

definition text_char :: "u32 \<Rightarrow> bool" where
  "text_char c \<longleftrightarrow> scalar c \<and> c \<noteq> 0 \<and> c \<noteq> BOM \<and> c \<noteq> ERROR"

definition expressible :: "(u32 \<Rightarrow> string option) \<Rightarrow> string \<Rightarrow> bool" where
  "expressible code s \<longleftrightarrow>
     (case UTF8ToUTF32 s of None \<Rightarrow> False
      | Some cs \<Rightarrow> text_in PutChar8 cs = s \<and> list_all (\<lambda>c. text_char c \<and> code c \<noteq> None) cs)"

abbreviation (input) expressed :: "(u32 \<Rightarrow> string option) \<Rightarrow> u32 set" where
  "expressed code \<equiv> {c. text_char c \<and> code c \<noteq> None}"

lemma expressible_text:
  assumes "expressible code s"
  obtains cs where "s = text_in PutChar8 cs" "set cs \<subseteq> expressed code"
  using assms that by (auto simp: expressible_def list_all_iff split: option.splits)

lemma concat_PutChar32: "concat (map PutChar32 cs) = cs"
  by (induction cs) (simp_all add: PutChar32_def)

lemma expressible_text_in:
  assumes "set cs \<subseteq> expressed code"
  shows "expressible code (text_in PutChar8 cs)"
proof -
  have "\<forall>c\<in>set cs. c < 0x200000 \<and> c \<noteq> 0 \<and> c \<noteq> BOM \<and> c \<noteq> ERROR"
    using assms by (force simp: text_char_def scalar_def word_less_nat_alt)
  from utf8.convert_valid [OF this, of PutChar32 False] have "UTF8ToUTF32 (text_in PutChar8 cs) = Some cs"
    by (simp add: UTF8ToUTF32_def Convert_def concat_PutChar32)
  then show ?thesis
    using assms by (auto simp: expressible_def list_all_iff)
qed

lemma ascii_text_char: "0 < c \<Longrightarrow> c < 0x80 \<Longrightarrow> text_char c"
  by (auto simp: text_char_def scalar_def BOM_def ERROR_def word_less_nat_alt)

lemma utf8_transparent:
  assumes "ascii_based code"
  shows "transparent PutChar8 (expressed code)"
proof -
  have "PutChar8 c \<noteq> [] \<and> (\<forall>b\<in>set (PutChar8 c). \<not> ascii b)" if "text_char c" "\<not> c < 0x80" for c
  proof -
    have n: "unat c < 0x110000" "128 \<le> unat c"
      using that by (auto simp: text_char_def scalar_def word_less_nat_alt)
    then have "PutChar8 c = map (\<lambda>b. chr8 (of_nat b)) (utf8_bytes (unat c))"
      by (intro PutChar8_bytes) (simp add: word_less_nat_alt)
    moreover have "utf8_bytes (unat c) \<noteq> [] \<and> (\<forall>k\<in>set (utf8_bytes (unat c)). 128 \<le> k \<and> k < 256)"
      using n by (auto simp: utf8_bytes_def less_mult_imp_div_less)
    moreover have "\<not> ascii (chr8 (of_nat k))" if "128 \<le> k" "k < 256" for k
      using that byte_chr8_of_nat [of k] by (simp add: wc_of_nat)
    ultimately show ?thesis
      by auto
  qed
  moreover have "PutChar8 c = [chr8 c]" if "c < 0x80" for c
    using that by (simp add: PutChar8_def)
  ultimately show ?thesis
    using assms by (auto simp: transparent_def ascii_based_def ascii_text_char)
qed

lemma local_transparent:
  assumes "ascii_based code"
  shows "transparent (the \<circ> code) (expressed code)"
proof -
  have "0 < c" if "text_char c" for c
    using that by (simp add: text_char_def word_neq_0_conv)
  then show ?thesis
    using assms by (auto simp: transparent_def ascii_based_def ascii_text_char not_less)
qed

lemma text_no_NUL: "transparent K (expressed code) \<Longrightarrow> set cs \<subseteq> expressed code \<Longrightarrow> NUL \<notin> set (text_in K cs)"
  using text_has_ascii [of K "expressed code" cs NUL] by (auto simp: byte_def text_char_def)

lemma to_local:
  assumes "ascii_based code" "converts code wcs mbs" "set cs \<subseteq> expressed code"
  shows "UTF8ToLocalEncoding wcs (c_str (text_in PutChar8 cs)) = Some (text_in (the \<circ> code) cs)"
proof -
  have "UTF8ToUTF32 (text_in PutChar8 cs) = Some cs"
  proof -
    have "\<forall>c\<in>set cs. c < 0x200000 \<and> c \<noteq> 0 \<and> c \<noteq> BOM \<and> c \<noteq> ERROR"
      using assms(3) by (force simp: text_char_def scalar_def word_less_nat_alt)
    from utf8.convert_valid [OF this, of PutChar32 False] show ?thesis
      by (simp add: UTF8ToUTF32_def Convert_def concat_PutChar32)
  qed
  moreover have "c_str (text_in PutChar8 cs) = text_in PutChar8 cs"
    by (rule c_str_id [OF text_no_NUL [OF utf8_transparent [OF assms(1)] assms(3)]])
  moreover have "wcs cs = Some (text_in (the \<circ> code) cs)"
    using assms(2,3) by (auto simp: converts_def text_char_def)
  ultimately show ?thesis
    by (simp add: UTF8ToLocalEncoding_def)
qed

lemma from_local:
  assumes "ascii_based code" "converts code wcs mbs" "set cs \<subseteq> expressed code"
  shows "LocalEncodingToUTF8 mbs (text_in (the \<circ> code) cs) = Some (text_in PutChar8 cs)"
proof -
  have "UTF32ToUTF8 cs = Some (text_in PutChar8 cs)"
  proof -
    have "\<forall>c\<in>set cs. True \<and> c \<noteq> 0 \<and> c \<noteq> BOM \<and> c \<noteq> ERROR"
      using assms(3) by (auto simp: text_char_def)
    from utf32.convert_valid [OF this, of PutChar8 False] show ?thesis
      by (simp add: UTF32ToUTF8_def Convert_def concat_PutChar32)
  qed
  moreover have "c_str (text_in (the \<circ> code) cs) = text_in (the \<circ> code) cs"
    by (rule c_str_id [OF text_no_NUL [OF local_transparent [OF assms(1)] assms(3)]])
  moreover have "mbs (text_in (the \<circ> code) cs) = Some cs"
    using assms(2,3) by (auto simp: converts_def text_char_def)
  ultimately show ?thesis
    by (simp add: LocalEncodingToUTF8_def)
qed

lemma ascii_from_local:
  assumes "ascii_based code" "converts code wcs mbs" "\<forall>b\<in>set a. ascii b \<and> b \<noteq> NUL"
  shows "LocalEncodingToUTF8 mbs a = Some a"
proof -
  note U = utf8_transparent [OF assms(1)] and L = local_transparent [OF assms(1)]
  have a: "\<forall>b\<in>set a. ascii b" "byte ` set a \<subseteq> expressed code"
    using assms(3) ascii_in [OF U] by blast+
  then have "set (map byte a) \<subseteq> expressed code"
    by simp
  from from_local [OF assms(1,2) this] show ?thesis
    unfolding text_ascii [OF U a] text_ascii [OF L a] .
qed

text \<open>
  What the PLS format writes for a name, and what it reads there: the name is converted, and then made
  relative to the playlist, whose own name is not converted.
\<close>

definition pls_value :: "string \<Rightarrow> string \<Rightarrow> string" where
  "pls_value name e = (if IsHttpURL e then e else MakeRelativePath name e)"

definition pls_line :: "nat \<Rightarrow> string \<Rightarrow> string" where
  "pls_line n s = ''File'' @ dec n @ ''='' @ s"

definition same_in_local :: "(u32 \<Rightarrow> string option) \<Rightarrow> string \<Rightarrow> bool" where
  "same_in_local code name \<longleftrightarrow> list_all ascii name \<or> (\<forall>c. text_char c \<longrightarrow> code c \<noteq> None \<longrightarrow> code c = Some (PutChar8 c))"

lemma http_text:
  assumes "transparent K (expressed code)" "set cs \<subseteq> expressed code"
  shows "IsHttpURL (text_in K cs) \<longleftrightarrow> prefix (map byte ''http://'') cs"
proof -
  have "prefix a s \<longleftrightarrow> take 7 s = a" if "length a = 7" for a s :: string
    using that by (metis append_eq_conv_conj prefix_def take_is_prefix)
  then have "IsHttpURL (text_in K cs) \<longleftrightarrow> prefix ''http://'' (text_in K cs)"
    by (simp add: IsHttpURL_def c_str_id [OF text_no_NUL [OF assms]])
  also have "\<dots> \<longleftrightarrow> prefix (map byte ''http://'') cs"
    by (rule text_starts_ascii [OF assms]) (simp add: byte_def)
  finally show ?thesis .
qed

lemma dec_ascii: "b \<in> set (dec n) \<Longrightarrow> ascii b \<and> b \<noteq> NUL"
proof -
  assume "b \<in> set (dec n)"
  then obtain k where k: "k < 10" "b = digit_char k"
    using dec_digits by blast
  then have c: "of_char b = 48 + k"
    by (simp add: of_char_digit_char)
  then have "b \<noteq> NUL"
    by auto
  moreover have "(of_nat (48 + k) :: u32) < 0x80"
    using k(1) wc_of_nat [of "48 + k" "0x80"] by simp
  ultimately show ?thesis
    using c by (simp add: byte_def)
qed

lemma pls_line_local:
  assumes code: "ascii_based code" "converts code wcs mbs" and e: "expressible code e" and name: "same_in_local code name"
    and ends: "\<forall>c\<in>set (pls_value name e). \<not> is_line_end c"
  obtains l where "UTF8ToLocalEncoding wcs (c_str e) = Some l"
    "LocalEncodingToUTF8 mbs (pls_line n (pls_value name l)) = Some (pls_line n (pls_value name e))"
    "\<forall>c\<in>set (pls_value name l). \<not> is_line_end c"
proof -
  note U = utf8_transparent [OF code(1)] and L = local_transparent [OF code(1)]
  let ?K = "the \<circ> code" and ?A = "expressed code"
  obtain cs where cs: "e = text_in PutChar8 cs" "set cs \<subseteq> ?A"
    using e by (rule expressible_text)
  let ?l = "text_in ?K cs"
  have "\<exists>rs. set rs \<subseteq> ?A \<and> pls_value name ?l = text_in ?K rs \<and> pls_value name e = text_in PutChar8 rs"
  proof (cases "prefix (map byte ''http://'') cs")
    case True
    then show ?thesis
      using cs http_text [OF U cs(2)] http_text [OF L cs(2)] unfolding pls_value_def by auto
  next
    case False
    then have v: "pls_value name ?l = MakeRelativePath name ?l" "pls_value name e = MakeRelativePath name e"
      using cs http_text [OF U cs(2)] http_text [OF L cs(2)] unfolding pls_value_def by auto
    obtain rs where rs: "set rs \<subseteq> ?A" "MakeRelativePath name ?l = text_in ?K rs"
      "(\<forall>b\<in>set name. ascii b) \<longrightarrow> MakeRelativePath name e = text_in PutChar8 rs"
      using relative_text [OF L cs(2), of name] U cs(1) by blast
    have "MakeRelativePath name e = text_in PutChar8 rs"
    proof (cases "list_all ascii name")
      case True
      then show ?thesis
        using rs(3) by (simp add: list_all_iff)
    next
      case False
      then have K: "?K c = PutChar8 c" if "c \<in> ?A" for c
        using name that by (auto simp: same_in_local_def)
      have same: "text_in ?K xs = text_in PutChar8 xs" if "set xs \<subseteq> ?A" for xs
      proof -
        have "map ?K xs = map PutChar8 xs"
          by (rule map_cong [OF refl], rule K) (use that in blast)
        then show ?thesis
          by (rule arg_cong)
      qed
      show ?thesis
        using rs(2) unfolding cs(1) same [OF cs(2)] same [OF rs(1)] .
    qed
    with rs(1) show ?thesis
      unfolding v using rs(2) by (intro exI [of _ rs] conjI)
  qed
  then obtain rs where rs: "set rs \<subseteq> ?A" "pls_value name ?l = text_in ?K rs" "pls_value name e = text_in PutChar8 rs"
    by blast
  let ?head = "''File'' @ dec n @ ''=''"
  have plain: "\<forall>b\<in>set ?head. ascii b \<and> b \<noteq> NUL"
    using dec_ascii [of _ n] by (auto simp: byte_def [of "CHR ''F''"] byte_def [of "CHR ''i''"] byte_def [of "CHR ''l''"]
        byte_def [of "CHR ''e''"] byte_def [of "CHR ''=''"])
  have head: "\<forall>b\<in>set ?head. ascii b" "byte ` set ?head \<subseteq> ?A"
    using plain ascii_in [OF U] by blast+
  have line: "pls_line n (text_in K rs) = text_in K (map byte ?head @ rs)" if "transparent K ?A" for K
    using text_ascii [OF that head] by (simp add: pls_line_def)
  have "set (map byte ?head @ rs) \<subseteq> ?A"
    using head(2) rs(1) by auto
  from from_local [OF code this] have "LocalEncodingToUTF8 mbs (pls_line n (pls_value name ?l)) = Some (pls_line n (pls_value name e))"
    unfolding rs(2,3) line [OF L] line [OF U] .
  moreover have "\<forall>c\<in>set (pls_value name ?l). \<not> is_line_end c"
  proof -
    have "ascii NUL" "ascii CHR 0x0A"
      by (simp_all add: byte_def)
    then have "c \<in> set (pls_value name ?l) \<longleftrightarrow> c \<in> set (pls_value name e)" if "is_line_end c" for c
      using that text_has_ascii [OF L rs(1)] text_has_ascii [OF U rs(1)] unfolding rs(2,3) is_line_end_def by blast
    then show ?thesis
      using ends by blast
  qed
  ultimately show ?thesis
    using that [OF to_local [OF code cs(2), folded cs(1)]] by blast
qed

end
