(* ===== verification/PlaylistProps.thy ===== *)
theory PlaylistProps
  imports Faults LocalText
begin

text \<open>
  A playlist that is saved and loaded again is the same playlist, in every format, unless writing or reading the
  file fails.
\<close>

section \<open>Reading lines\<close>

lemma takeWhile_prefix: "n \<le> length xs \<Longrightarrow> \<exists>x\<in>set (take n xs). \<not> P x \<Longrightarrow> takeWhile P xs = takeWhile P (take n xs)"
  by (metis append_take_drop_id takeWhile_append1)

lemma takeWhile_all_prefix: "\<forall>x\<in>set (take n xs). P x \<Longrightarrow> takeWhile P xs = take n xs @ takeWhile P (drop n xs)"
  by (metis append_take_drop_id takeWhile_append2)

context seekable_source
begin

lemma read_line_reads:
  "sinvar s \<Longrightarrow> pos \<le> length (content s) \<Longrightarrow> p0 + length str = pos \<Longrightarrow>
     \<exists>s'. read_line (Seekable_Read read_at) Seekable_Seek p0 str (s, pos) =
       Some (0, str @ takeWhile (\<lambda>c. \<not> is_line_end c) (drop pos (content s)),
         s', min (pos + length (takeWhile (\<lambda>c. \<not> is_line_end c) (drop pos (content s))) + 1) (length (content s))) \<and>
       sinvar s' \<and> content s' = content s"
proof (induction "length (content s) - pos" arbitrary: s pos str rule: less_induct)
  case less
  let ?c = "content s" and ?P = "\<lambda>c. \<not> is_line_end c"
  obtain n s1 where r: "read_at pos 1024 s = Some (0, take n (drop pos ?c), s1)" "sinvar s1" "content s1 = ?c"
    "n \<le> length ?c - pos" "n = 0 \<longrightarrow> pos = length ?c"
    using read_at [OF less.prems(1,2), of 1024] by fastforce
  let ?bs = "take n (drop pos ?c)"
  have rd: "Seekable_Read read_at 1024 (s, pos) = Some (0, ?bs, s1, pos + n)"
    using r(1,4) by (simp add: Seekable_Read_def)
  show ?case
  proof (cases "n = 0")
    case True
    then show ?thesis
      using rd r by (subst read_line.simps) simp
  next
    case False
    then have ne: "?bs \<noteq> []"
      using r(4) by auto
    show ?thesis
    proof (cases "\<exists>c\<in>set ?bs. is_line_end c")
      case True
      then have tw: "takeWhile ?P (drop pos ?c) = takeWhile ?P ?bs"
        using r(4) by (intro takeWhile_prefix) auto
      have "length (takeWhile ?P ?bs) < length ?bs"
        using True by (metis linorder_not_less take_all takeWhile_eq_all_conv takeWhile_eq_take)
      then have "pos + length (takeWhile ?P ?bs) + 1 \<le> length ?c"
        using r(4) less.prems(2) by simp
      then show ?thesis
        using rd r ne True less.prems(3) unfolding tw
        by (subst read_line.simps) (simp add: Seekable_Seek_def Let_def min_def flip: add.assoc)
    next
      case all: False
      then have tw: "takeWhile ?P (drop pos ?c) = ?bs @ takeWhile ?P (drop (pos + n) ?c)"
        using takeWhile_all_prefix [of n "drop pos ?c" ?P] by (simp add: add.commute)
      have "length (content s1) - (pos + n) < length ?c - pos" "pos + n \<le> length (content s1)" "p0 + length (str @ ?bs) = pos + n"
        using False r less.prems by auto
      from less.hyps [OF this(1) r(2) this(2,3)] obtain s2 where
        "read_line (Seekable_Read read_at) Seekable_Seek p0 (str @ ?bs) (s1, pos + n) =
           Some (0, (str @ ?bs) @ takeWhile ?P (drop (pos + n) ?c), s2,
             min (pos + n + length (takeWhile ?P (drop (pos + n) ?c)) + 1) (length ?c))"
        "sinvar s2" "content s2 = ?c"
        unfolding r(3) by blast
      moreover have "length ?bs = n"
        using r(4) by simp
      ultimately show ?thesis
        using rd r(2,3) ne all unfolding tw by (subst read_line.simps) (simp add: add.assoc)
    qed
  qed
qed

lemma ReadLine_reads:
  assumes "sinvar s" "pos \<le> length (content s)" "drop pos (content s) = l @ LF # rest" "\<forall>c\<in>set l. \<not> is_line_end c"
  shows "\<exists>s'. ReadLine FILE_FLAGS (Seekable_Read read_at) Seekable_Seek Tell (s, pos) = Some (0, l, s', pos + length l + 1) \<and>
    sinvar s' \<and> content s' = content s \<and> pos + length l + 1 \<le> length (content s) \<and> drop (pos + length l + 1) (content s) = rest"
proof -
  have flags: "FILE_FLAGS AND READABLE \<noteq> 0" "FILE_FLAGS AND SEEKABLE \<noteq> 0"
    by (simp_all add: FILE_FLAGS_def READABLE_def WRITABLE_def SEEKABLE_def)
  have "takeWhile (\<lambda>c. \<not> is_line_end c) (drop pos (content s)) = l"
    unfolding assms(3) using assms(4) by (intro takeWhile_split) (auto simp: is_line_end_def)
  moreover have "length (drop pos (content s)) = length l + 1 + length rest"
    unfolding assms(3) by simp
  then have "pos + length l + 1 \<le> length (content s)"
    using assms(2) by simp
  moreover have "drop (pos + length l + 1) (content s) = drop (length l + 1) (drop pos (content s))"
    by (simp add: add.commute)
  then have "drop (pos + length l + 1) (content s) = rest"
    unfolding assms(3) by simp
  ultimately show ?thesis
    using read_line_reads [OF assms(1,2), of pos "[]"] flags by (auto simp: ReadLine_def Tell_def min_def)
qed

lemma ReadLine_end:
  assumes "sinvar s" "pos = length (content s)"
  shows "\<exists>s'. ReadLine FILE_FLAGS (Seekable_Read read_at) Seekable_Seek Tell (s, pos) = Some (0, [], s', pos) \<and> sinvar s' \<and> content s' = content s"
  using read_line_reads [OF assms(1), of pos pos "[]"] assms(2)
  by (auto simp: ReadLine_def Tell_def FILE_FLAGS_def READABLE_def WRITABLE_def SEEKABLE_def)

text \<open>The loop of the PLS reader over lines.\<close>

lemma pls_lines_reads:
  assumes "list_all2 (\<lambda>l u. u \<noteq> [] \<and> (\<forall>c\<in>set l. \<not> is_line_end c) \<and> LocalEncodingToUTF8 mb l = Some u) ls us"
    and "LocalEncodingToUTF8 mb [] = Some []"
    and "sinvar s" "pos \<le> length (content s)" "drop pos (content s) = concat (map (\<lambda>l. l @ [LF]) ls)"
  shows "\<exists>s' pos'. pls_lines mb (Seekable_Read read_at) name es (s, pos) = Some (0, fold (pls_entry name) us es, s', pos')"
  using assms(1,3-)
proof (induction ls us arbitrary: es s pos rule: list_all2_induct)
  case Nil
  then have "pos = length (content s)"
    by simp
  then obtain s' where "ReadLine FILE_FLAGS (Seekable_Read read_at) Seekable_Seek Tell (s, pos) = Some (0, [], s', pos)"
    using ReadLine_end [OF Nil.prems(1)] by blast
  moreover have "pls_entry name [] es = es"
    by (simp add: pls_entry_def c_str_def)
  ultimately show ?case
    using assms(2) by (subst pls_lines.simps) (simp add: c_str_def)
next
  case (Cons l ls u us)
  have l: "u \<noteq> []" "\<forall>c\<in>set l. \<not> is_line_end c" "LocalEncodingToUTF8 mb l = Some u"
    using Cons.hyps(1) by simp_all
  have d: "drop pos (content s) = l @ LF # concat (map (\<lambda>l. l @ [LF]) ls)"
    using Cons.prems(3) by simp
  obtain s1 where r: "ReadLine FILE_FLAGS (Seekable_Read read_at) Seekable_Seek Tell (s, pos) = Some (0, l, s1, pos + length l + 1)" "sinvar s1"
    "content s1 = content s" "pos + length l + 1 \<le> length (content s)"
    "drop (pos + length l + 1) (content s) = concat (map (\<lambda>l. l @ [LF]) ls)"
    using ReadLine_reads [OF Cons.prems(1,2) d l(2)] by blast
  have c: "c_str l = l"
    using l(2) by (intro c_str_id) (auto simp: is_line_end_def)
  obtain s' pos' where "pls_lines mb (Seekable_Read read_at) name (pls_entry name u es) (s1, pos + length l + 1) =
      Some (0, fold (pls_entry name) us (pls_entry name u es), s', pos')"
    using Cons.IH [of s1 "pos + length l + 1" "pls_entry name u es"] r(2-5) by auto
  then show ?case
    using r(1) c l by (subst pls_lines.simps) simp
qed

end

section \<open>Reading an XML playlist\<close>

context seekable_source
begin

lemma xml_Parse_says:
  assumes "sinvar s" "NUL \<notin> set (content s)" "says CONTENT [] [] (content s) (atoms evs)"
  shows "\<exists>sp. xml_Parse (Seekable_Read read_at) (s, 0) target table st =
    Some (Some 0, snd (tdp_run evs (TableDrivenParser target table, st)), sp)"
proof -
  have "good SaxParser (content s) (atoms evs)"
    using assms(2,3) by (rule good_start [rotated])
  then obtain ev sp where e: "sax_Parse (Seekable_Read read_at) SaxParser (s, 0) = Some (Some 0, ev, sp)" "atoms ev = atoms (atoms evs)"
    using source.sax_Parse_says [of "(s, 0)" SaxParser "atoms evs"] assms(1) rested_start by auto
  have "tdp_run ev (TableDrivenParser target table, st) = tdp_run evs (TableDrivenParser target table, st)"
    by (metis e(2) tdp_run_atoms)
  then show ?thesis
    using e(1) by (simp add: xml_Parse_def)
qed

end

text \<open>
  Loading gives the file names, or else an error that the system returned from opening or from reading a file.
\<close>

definition loads_or :: "'f os \<Rightarrow> string \<Rightarrow> 'f \<Rightarrow> (u32 \<times> string list \<times> 'f) option \<Rightarrow> string list \<Rightarrow> string list \<Rightarrow> bool" where
  "loads_or os name f r es es0 \<longleftrightarrow>
     (case r of None \<Rightarrow> False
      | Some (rc, es', f') \<Rightarrow>
          if rc = 0 then es' = es
          else os_open os name [O_RDONLY] f = (Inl rc, f') \<and> es' = es0 \<or> read_error os rc)"

lemma mode_flags:
  "open_flags READ = [O_RDONLY]" "READ AND TYPE_MASK \<noteq> TEMP"
  "O_TRUNC \<in> set (open_flags WRITE)" "O_RDWR \<in> set (open_flags WRITE)" "WRITE AND TYPE_MASK \<noteq> TEMP"
  by (simp_all add: open_flags_def WRITE_def READ_def TYPE_MASK_def TEMP_def)

lemma load_xml_document:
  assumes laws: "os_reads os v" "os_opens os v" "v_regular v name" and name: "NUL \<notin> set name"
    and doc: "file_content v name f = doc" "NUL \<notin> set doc" "says CONTENT [] [] doc (atoms evs)"
  shows "loads_or os name f (load_xml os table name es f) (snd (tdp_run evs (TableDrivenParser () table, es))) es"
proof -
  obtain rc ss f1 where o: "OpenFileStream os name READ f = (rc, ss, f1)"
    by (metis prod_cases3)
  from OpenFileStream_cases [OF laws(2,3) o] show ?thesis
  proof (elim disjE conjE exE)
    assume "rc \<noteq> 0" "ss = None" "os_open os name (open_flags READ) f = (Inl rc, f1)"
    then show ?thesis
      using o by (simp add: load_xml_def loads_or_def c_str_id [OF name] mode_flags)
  next
    fix fs f2
    assume "rc = 0" "ss = Some fs" "open_on v (m_fd fs) name f2"
      "file_content v name f2 = (if O_TRUNC \<in> set (open_flags READ) then [] else file_content v name f)"
      "f1 = (if READ AND TYPE_MASK = TEMP then os_unlink os name f2 else f2)"
    then have fs: "ss = Some fs" "rc = 0" "open_on v (m_fd fs) name f1" "file_content v name f1 = doc"
      using doc(1) by (simp_all add: mode_flags)
    let ?rd = "Seekable_Read (FileStream_ReadAt os fs)" and ?md = "Seekable_Read (Mended_ReadAt os v name fs)"
    let ?es = "snd (tdp_run evs (TableDrivenParser () table, es))"
    obtain sp where "xml_Parse ?md (f1, 0) () table es = Some (Some 0, ?es, sp)"
      using seekable_source.xml_Parse_says [OF mended_source [OF laws(1)] fs(3), of evs "()" table es] fs(4) doc by auto
    from xml_Parse_fails_or_agrees [OF mended_agrees this]
    consider "xml_Parse ?rd (f1, 0) () table es = Some (Some 0, ?es, sp)"
      | e es' sp' where "e \<noteq> 0" "read_error os e" "xml_Parse ?rd (f1, 0) () table es = Some (Some e, es', sp')"
      by blast
    then show ?thesis
      using o fs(1,2) by cases (auto simp: load_xml_def loads_or_def c_str_id [OF name] split: prod.split)
  qed
qed

section \<open>The documents\<close>

abbreviation (input) xml_newline :: xml where "xml_newline \<equiv> Text [LF]"

definition asx_doc :: "string list \<Rightarrow> xml list" where
  "asx_doc rels = [Element ''asx'' [(''version'', ''3.0'')]
     (xml_newline # concat (map (\<lambda>r. [Element ''entry'' [] [Element ''ref'' [(''href'', r)] []], xml_newline]) rels)), xml_newline]"

definition wpl_doc :: "string list \<Rightarrow> xml list" where
  "wpl_doc rels = [xml_newline, Element ''smil'' [] [xml_newline, Element ''body'' [] [xml_newline, Element ''seq'' []
     (xml_newline # concat (map (\<lambda>r. [Element ''media'' [(''src'', r)] [], xml_newline]) rels)), xml_newline], xml_newline], xml_newline]"

definition wpl_version :: "(string \<times> string) list" where
  "wpl_version = [(''version'', ''1.0'')]"

definition asx_text :: "string \<Rightarrow> string list \<Rightarrow> string" where
  "asx_text name es = ''<asx version=\"3.0\">'' @ [LF] @ concat (map (asx_line name) es) @ ''</asx>'' @ [LF]"

definition wpl_text :: "string \<Rightarrow> string list \<Rightarrow> string" where
  "wpl_text name es = ''<?wpl version=\"1.0\"?>'' @ [LF] @ ''<smil>'' @ [LF] @ ''<body>'' @ [LF] @ ''<seq>'' @ [LF] @
     concat (map (wpl_line name) es) @ ''</seq>'' @ [LF] @ ''</body>'' @ [LF] @ ''</smil>'' @ [LF]"

lemma escape_LF: "XmlEscape [LF] = [LF]"
  by code_simp

lemma c_str_XmlEscape: "c_str (XmlEscape s) = XmlEscape s"
  by (rule c_str_id) (rule NUL_notin_XmlEscape)

lemma asx_text_renders: "asx_text name es = concat (map render (asx_doc (map (MakeRelativePath name) es)))"
proof -
  have "concat (map (asx_line name) es) =
      concat (map render (concat (map (\<lambda>r. [Element ''entry'' [] [Element ''ref'' [(''href'', r)] []], xml_newline]) (map (MakeRelativePath name) es))))"
    by (induction es) (simp_all add: asx_line_def c_str_XmlEscape escape_LF)
  moreover have "XmlEscape ''3.0'' = ''3.0''"
    by code_simp
  ultimately show ?thesis
    by (simp add: asx_text_def asx_doc_def escape_LF)
qed

lemma wpl_text_renders:
  "wpl_text name es = declaration_text ''wpl'' wpl_version @ concat (map render (wpl_doc (map (MakeRelativePath name) es)))"
proof -
  have "concat (map (wpl_line name) es) =
      concat (map render (concat (map (\<lambda>r. [Element ''media'' [(''src'', r)] [], xml_newline]) (map (MakeRelativePath name) es))))"
    by (induction es) (simp_all add: wpl_line_def c_str_XmlEscape escape_LF)
  moreover have "declaration_text ''wpl'' wpl_version = ''<?wpl version=\"1.0\"?>''"
    by code_simp
  ultimately show ?thesis
    by (simp add: wpl_text_def wpl_doc_def escape_LF)
qed

text \<open>A relative name that fits the parser's buffer when it is escaped, and holds only what XML can.\<close>

definition xml_href_ok :: "string \<Rightarrow> bool" where
  "xml_href_ok r \<longleftrightarrow> length (XmlEscape r) < SAX_BUFSIZE \<and> filter xml_keeps r = r"

lemma docs_ok:
  assumes "\<forall>r\<in>set rels. xml_href_ok r"
  shows "\<forall>x\<in>set (asx_doc rels). xml_ok x \<and> no_pi x" "\<forall>x\<in>set (wpl_doc rels). xml_ok x \<and> no_pi x"
proof -
  have "tag_ok ''asx''" "tag_ok ''entry''" "tag_ok ''ref''" "tag_ok ''smil''" "tag_ok ''body''" "tag_ok ''seq''" "tag_ok ''media''"
    "attr_ok (''version'', ''3.0'')" "attr_ok (''href'', [])" "attr_ok (''src'', [])"
    by code_simp+
  then show "\<forall>x\<in>set (asx_doc rels). xml_ok x \<and> no_pi x" "\<forall>x\<in>set (wpl_doc rels). xml_ok x \<and> no_pi x"
    using assms by (auto simp: asx_doc_def wpl_doc_def xml_href_ok_def char_at_def)
qed

text \<open>What the tables make of them.\<close>

lemma same_name_char: "same_name s t \<longleftrightarrow> map tolower (c_str s) = map tolower (c_str t)"
  by (simp add: same_name_def)

definition asx_ref :: "string \<Rightarrow> (unit, string list) Data" where
  "asx_ref name = Tag ''ref'' [Attribute ''href'' (OnHref name)]"

definition wpl_media :: "string \<Rightarrow> (unit, string list) Data" where
  "wpl_media name = Tag ''media'' [Attribute ''src'' (OnHref name)]"

lemma found:
  "find_child False ''asx'' (ASXParser name) = Some (Tag ''asx'' [Tag ''entry'' [asx_ref name]])"
  "find_child False ''entry'' (Tag ''asx'' [Tag ''entry'' [asx_ref name]]) = Some (Tag ''entry'' [asx_ref name])"
  "find_child False ''ref'' (Tag ''entry'' [asx_ref name]) = Some (asx_ref name)"
  "find_child True ''href'' (asx_ref name) = Some (Attribute ''href'' (OnHref name))"
  "find_child True ''version'' (Tag ''asx'' [Tag ''entry'' [asx_ref name]]) = None"
  "find_child False ''smil'' (PlaylistWPLParser name) = Some (Tag ''smil'' [Tag ''body'' [Tag ''seq'' [wpl_media name]]])"
  "find_child False ''body'' (Tag ''smil'' [Tag ''body'' [Tag ''seq'' [wpl_media name]]]) = Some (Tag ''body'' [Tag ''seq'' [wpl_media name]])"
  "find_child False ''seq'' (Tag ''body'' [Tag ''seq'' [wpl_media name]]) = Some (Tag ''seq'' [wpl_media name])"
  "find_child False ''media'' (Tag ''seq'' [wpl_media name]) = Some (wpl_media name)"
  "find_child True ''src'' (wpl_media name) = Some (Attribute ''src'' (OnHref name))"
  "find_child True ''version'' (PlaylistWPLParser name) = None" "find_child True ''?'' (PlaylistWPLParser name) = None"
  by (simp_all add: find_child_def ASXParser_def PlaylistWPLParser_def Parser_def Tag_def Attribute_def children_of_def
      asx_ref_def wpl_media_def same_name_def c_str_def IsAttribute_def)

lemma plain_tags [simp]: "d_sbegin (Tag n cs) = None" "d_text (Tag n cs) = None" "d_sbegin (asx_ref name) = None"
  "d_text (asx_ref name) = None" "d_sbegin (wpl_media name) = None" "d_text (wpl_media name) = None"
  by (simp_all add: Tag_def asx_ref_def wpl_media_def)

lemma asx_entries:
  "\<forall>r\<in>set rels. filter xml_keeps r = r \<Longrightarrow>
   snd (fold (\<lambda>x. visit x (Tag ''asx'' [Tag ''entry'' [asx_ref name]]) ())
     (concat (map (\<lambda>r. [Element ''entry'' [] [Element ''ref'' [(''href'', r)] []], xml_newline]) rels)) (c, s)) =
   s @ map (MakeAbsolutePath name) rels"
  by (induction rels arbitrary: c s) (auto simp: found visit_attr_def Attribute_def OnHref_def)

lemma wpl_entries:
  "\<forall>r\<in>set rels. filter xml_keeps r = r \<Longrightarrow>
   snd (fold (\<lambda>x. visit x (Tag ''seq'' [wpl_media name]) ())
     (concat (map (\<lambda>r. [Element ''media'' [(''src'', r)] [], xml_newline]) rels)) (c, s)) =
   s @ map (MakeAbsolutePath name) rels"
  by (induction rels arbitrary: c s) (auto simp: found visit_attr_def Attribute_def OnHref_def)

lemma xml_keeps_LF [simp]: "xml_keeps LF"
  by code_simp

lemma asx_walk:
  assumes "\<forall>r\<in>set rels. filter xml_keeps r = r"
  shows "snd (fold (\<lambda>x. visit x (ASXParser name) ()) (asx_doc rels) (c, s)) = s @ map (MakeAbsolutePath name) rels"
proof -
  obtain c2 where "fold (\<lambda>x. visit x (Tag ''asx'' [Tag ''entry'' [asx_ref name]]) ())
     (concat (map (\<lambda>r. [Element ''entry'' [] [Element ''ref'' [(''href'', r)] []], xml_newline]) rels)) ([LF], s) =
     (c2, s @ map (MakeAbsolutePath name) rels)"
    using asx_entries [OF assms, of name "[LF]" s] by (metis prod.collapse)
  then show ?thesis
    by (simp add: asx_doc_def found visit_attr_def)
qed

lemma wpl_walk:
  assumes "\<forall>r\<in>set rels. filter xml_keeps r = r"
  shows "snd (fold (\<lambda>x. visit x (PlaylistWPLParser name) ()) (wpl_doc rels) (c, s)) = s @ map (MakeAbsolutePath name) rels"
proof -
  obtain c2 where "fold (\<lambda>x. visit x (Tag ''seq'' [wpl_media name]) ())
     (concat (map (\<lambda>r. [Element ''media'' [(''src'', r)] [], xml_newline]) rels)) ([LF], s) =
     (c2, s @ map (MakeAbsolutePath name) rels)"
    using wpl_entries [OF assms, of name "[LF]" s] by (metis prod.collapse)
  then show ?thesis
    by (simp add: wpl_doc_def found)
qed

lemma wpl_declaration:
  "tdp_run (declaration_events ''wpl'' wpl_version) (TableDrivenParser () (PlaylistWPLParser name), s) =
    (TableDrivenParser () (PlaylistWPLParser name), s)"
proof -
  have "declaration_events ''wpl'' wpl_version = [OnBegin ''?wpl'', OnAttribute ''version'' ''1.0'', OnAttribute ''?'' []]"
    by code_simp
  then show ?thesis
    by (simp add: tdp_run_Cons tdp_event_def tdp_OnBegin_def tdp_OnAttribute_def TableDrivenParser_def found char_at_def)
qed

section \<open>Saving and loading\<close>

lemma asx_load:
  assumes laws: "os_reads os v" "os_opens os v" "v_regular v name" and name: "NUL \<notin> set name"
    and ok: "\<forall>e\<in>set es. xml_href_ok (MakeRelativePath name e) \<and> MakeAbsolutePath name (MakeRelativePath name e) = e"
    and f: "file_content v name f = asx_text name es"
  shows "loads_or os name f (PlaylistASX_Load os name es0 f) (es0 @ es) es0"
proof -
  let ?doc = "asx_doc (map (MakeRelativePath name) es)"
  have doc: "\<forall>x\<in>set ?doc. xml_ok x" "\<forall>x\<in>set ?doc. no_pi x"
    using docs_ok(1) [of "map (MakeRelativePath name) es"] ok by auto
  have there: "map (MakeAbsolutePath name) (map (MakeRelativePath name) es) = es"
    using ok by (simp add: map_idI)
  have "says CONTENT [] [] (asx_text name es) (atoms (concat (map xml_events ?doc)))"
    unfolding asx_text_renders by (rule document_says [OF doc(1)])
  moreover have "NUL \<notin> set (asx_text name es)"
    unfolding asx_text_renders using doc(1) NUL_notin_render by auto
  moreover have "snd (tdp_run (concat (map xml_events ?doc)) (TableDrivenParser () (ASXParser name), es0)) = es0 @ es"
    using tdp_walks [OF doc(2), of "()" "ASXParser name" es0] asx_walk [of "map (MakeRelativePath name) es"] ok there by (simp add: xml_href_ok_def)
  ultimately show ?thesis
    using load_xml_document [OF laws name f, of "concat (map xml_events ?doc)" "ASXParser name" es0] by (simp add: PlaylistASX_Load_def)
qed

lemma wpl_load:
  assumes laws: "os_reads os v" "os_opens os v" "v_regular v name" and name: "NUL \<notin> set name"
    and ok: "\<forall>e\<in>set es. xml_href_ok (MakeRelativePath name e) \<and> MakeAbsolutePath name (MakeRelativePath name e) = e"
    and f: "file_content v name f = wpl_text name es"
  shows "loads_or os name f (PlaylistWPL_Load os name es0 f) (es0 @ es) es0"
proof -
  let ?doc = "wpl_doc (map (MakeRelativePath name) es)"
  have doc: "\<forall>x\<in>set ?doc. xml_ok x" "\<forall>x\<in>set ?doc. no_pi x"
    using docs_ok(2) [of "map (MakeRelativePath name) es"] ok by auto
  have there: "map (MakeAbsolutePath name) (map (MakeRelativePath name) es) = es"
    using ok by (simp add: map_idI)
  let ?evs = "declaration_events ''wpl'' wpl_version @ concat (map xml_events ?doc)"
  have v: "tag_ok ''?wpl''" "wpl_version \<noteq> []" "\<forall>x\<in>set wpl_version. attr_ok x" "atoms (declaration_events ''wpl'' wpl_version) = declaration_events ''wpl'' wpl_version"
    "NUL \<notin> set (declaration_text ''wpl'' wpl_version)"
    by code_simp+
  have "says CONTENT [] [] (wpl_text name es) (atoms ?evs)"
    using declaration_says [OF v(1-3)] document_says [OF doc(1)] unfolding wpl_text_renders by (simp add: v(4))
  moreover have "NUL \<notin> set (wpl_text name es)"
    unfolding wpl_text_renders using doc(1) v(5) NUL_notin_render by auto
  moreover have "snd (tdp_run ?evs (TableDrivenParser () (PlaylistWPLParser name), es0)) = es0 @ es"
    using tdp_walks [OF doc(2), of "()" "PlaylistWPLParser name" es0] wpl_walk [of "map (MakeRelativePath name) es"] ok there
    by (simp add: tdp_run_append wpl_declaration xml_href_ok_def)
  ultimately show ?thesis
    using load_xml_document [OF laws name f, of ?evs "PlaylistWPLParser name" es0] by (simp add: PlaylistWPL_Load_def)
qed

text \<open>What the C library's file functions leave in the file.\<close>

lemma fprintf_all:
  assumes "os_stdio os v"
  shows "v_printed v f h = Some (name, t) \<Longrightarrow>
    v_printed v (fold (\<lambda>i. os_fprintf os h (g i)) xs f) h = Some (name, t @ concat (map g xs))"
proof (induction xs arbitrary: f t)
  case (Cons x xs)
  have "v_printed v (os_fprintf os h (g x) f) h = Some (name, t @ g x)"
    using assms Cons.prems unfolding os_stdio_def by blast
  then show ?case
    using Cons.IH by simp
qed simp

lemma fprintf_file:
  assumes "os_stdio os v" "v_printed v f h = Some (name, [])"
    and f': "f1 = os_fprintf os h foot (fold (\<lambda>i. os_fprintf os h (g i)) es (os_fprintf os h head f))" "f' = os_fclose os h f1"
    and "\<not> v_unflushed v f' name" "os_ferror os h f1 = 0 \<or> \<not> v_unprinted v f' name"
  shows "file_content v name f' = head @ concat (map g es) @ foot"
proof -
  have step: "v_printed v f h = Some (name, t) \<Longrightarrow> v_printed v (os_fprintf os h s f) h = Some (name, t @ s)" for f t s
    using assms(1) unfolding os_stdio_def by blast
  have "v_printed v f1 h = Some (name, ((([] @ head) @ concat (map g es)) @ foot))"
    unfolding f'(1) by (intro step fprintf_all [OF assms(1)] assms(2))
  then have "v_content v f' name = Some (((([] @ head) @ concat (map g es)) @ foot))"
    using assms(1,5,6) unfolding os_stdio_def f'(2) by metis
  then show ?thesis
    by (simp add: file_content_def)
qed

lemma fopen_cases:
  assumes "os_stdio os v" "v_regular v name" "os_fopen os name f = (r, f0)"
  obtains e where "r = Inl e" "e \<noteq> 0" | h where "r = Inr h" "v_printed v f0 h = Some (name, [])"
proof (cases r)
  case (Inl e)
  moreover have "e \<noteq> 0"
    using assms(1,3) Inl unfolding os_stdio_def by blast
  ultimately show ?thesis
    by (rule that(1))
next
  case (Inr h)
  moreover have "v_printed v f0 h = Some (name, [])"
    using assms Inr unfolding os_stdio_def by blast
  ultimately show ?thesis
    by (rule that(2))
qed

lemma asx_save:
  assumes stdio: "os_stdio os v" "v_regular v name" "NUL \<notin> set name" and save: "PlaylistASX_Save os name es f = (0, f')"
    and kept: "\<not> v_unprinted v f' name" "\<not> v_unflushed v f' name"
  shows "file_content v name f' = asx_text name es"
proof -
  obtain r f0 where r: "os_fopen os name f = (r, f0)"
    by fastforce
  show ?thesis
    using stdio(1,2) r
  proof (cases rule: fopen_cases)
    case (1 e)
    then show ?thesis
      using stdio(3) save r by (simp add: PlaylistASX_Save_def c_str_id)
  next
    case (2 h)
    have "f' = os_fclose os h (os_fprintf os h (''</asx>'' @ [LF])
        (fold (\<lambda>i. os_fprintf os h (asx_line name i)) es (os_fprintf os h (''<asx version=\"3.0\">'' @ [LF]) f0)))"
      using stdio(3) save r 2(1) by (simp add: PlaylistASX_Save_def c_str_id Let_def)
    from fprintf_file [OF stdio(1) 2(2) refl this kept(2)] show ?thesis
      using kept(1) unfolding asx_text_def by (simp only: append_assoc simp_thms)
  qed
qed

lemma wpl_save:
  assumes stdio: "os_stdio os v" "v_regular v name" "NUL \<notin> set name" and save: "PlaylistWPL_Save os name es f = (0, f')"
    and kept: "\<not> v_unflushed v f' name"
  shows "file_content v name f' = wpl_text name es"
proof -
  obtain r f0 where r: "os_fopen os name f = (r, f0)"
    by fastforce
  show ?thesis
    using stdio(1,2) r
  proof (cases rule: fopen_cases)
    case (1 e)
    then show ?thesis
      using stdio(3) save r by (simp add: PlaylistWPL_Save_def c_str_id)
  next
    case (2 h)
    define f1 where "f1 = os_fprintf os h (''</seq>'' @ [LF] @ ''</body>'' @ [LF] @ ''</smil>'' @ [LF])
        (fold (\<lambda>i. os_fprintf os h (wpl_line name i)) es
          (os_fprintf os h (''<?wpl version=\"1.0\"?>'' @ [LF] @ ''<smil>'' @ [LF] @ ''<body>'' @ [LF] @ ''<seq>'' @ [LF]) f0))"
    have "f' = os_fclose os h f1" "os_ferror os h f1 = 0"
      using stdio(3) save r 2(1) by (simp_all add: PlaylistWPL_Save_def c_str_id Let_def f1_def)
    then show ?thesis
      using fprintf_file [OF stdio(1) 2(2) f1_def _ kept] unfolding wpl_text_def by (simp only: append_assoc simp_thms)
  qed
qed

section \<open>PLS\<close>

fun pls_file_lines :: "string \<Rightarrow> nat \<Rightarrow> string list \<Rightarrow> string list" where
  "pls_file_lines name n [] = []"
| "pls_file_lines name n (e # es) = pls_line (n + 1) (pls_value name e) # pls_file_lines name (n + 1) es"

definition pls_text_lines :: "string \<Rightarrow> string list \<Rightarrow> string list" where
  "pls_text_lines name es = ''[playlist]'' # (''numberofentries='' @ dec (length es)) # pls_file_lines name 0 es"

lemma dec_chars: "c \<in> set (dec n) \<Longrightarrow> c \<noteq> NUL \<and> c \<noteq> LF \<and> c \<noteq> CHR ''=''"
proof -
  assume "c \<in> set (dec n)"
  then obtain k where "k < 10" "c = digit_char k"
    using dec_digits by blast
  then show ?thesis
    using of_char_digit_char [of k] by auto
qed

lemma pls_line_read:
  assumes "\<forall>c\<in>set v. \<not> is_line_end c" "v \<noteq> []"
  shows "pls_entry name (pls_line n v) es = es @ [if IsHttpURL v then v else MakeAbsolutePath name v]"
proof -
  have nul: "NUL \<notin> set (''File'' @ dec n @ ''='' @ v)"
    using assms(1) dec_chars by (auto simp: is_line_end_def)
  have "strchr CHR ''='' ((''File'' @ dec n) @ CHR ''='' # v) = Some (length (''File'' @ dec n))"
    using nul dec_chars by (intro strchr_first) auto
  then show ?thesis
    using assms(2) c_str_id [OF nul] by (simp add: pls_line_def pls_entry_def)
qed

lemma pls_file_lines_read:
  assumes "\<forall>e\<in>set es. pls_value name e \<noteq> [] \<and> (\<forall>c\<in>set (pls_value name e). \<not> is_line_end c) \<and>
    (if IsHttpURL (pls_value name e) then pls_value name e else MakeAbsolutePath name (pls_value name e)) = e"
  shows "fold (pls_entry name) (pls_file_lines name n es) es0 = es0 @ es"
  using assms
proof (induction es arbitrary: n es0)
  case (Cons e es)
  then show ?case
    using pls_line_read [of "pls_value name e" name "n + 1" es0] by simp
qed simp

text \<open>Saving converts the names; what was saved without an error is there.\<close>

definition to_local_name :: "(u32 list \<Rightarrow> string option) \<Rightarrow> string \<Rightarrow> string" where
  "to_local_name wcs e = the (UTF8ToLocalEncoding wcs (c_str e))"

lemma to_local_name: "UTF8ToLocalEncoding wcs (c_str e) = Some (to_local_name wcs e)"
  using local_encoding_returns(2) [of wcs "c_str e"] by (auto simp: to_local_name_def)

lemma pls_write_appends:
  assumes laws: "os_writes os v"
  shows "pls_write wcs (Seekable_Write (FileStream_WriteAt os fs)) name n es sp = Some (0, sp') \<Longrightarrow>
    writable_on v (m_fd fs) name (fst sp) \<Longrightarrow> snd sp = length (file_content v name (fst sp)) \<Longrightarrow>
    file_content v name (fst sp') = file_content v name (fst sp) @ concat (map (\<lambda>l. l @ [LF]) (pls_file_lines name n (map (to_local_name wcs) es)))"
proof (induction es arbitrary: n sp)
  case (Cons e es)
  let ?wr = "Seekable_Write (FileStream_WriteAt os fs)" and ?line = "pls_line (n + 1) (pls_value name (to_local_name wcs e)) @ [LF]"
  have v: "(if \<not> IsHttpURL s then MakeRelativePath name s else s) = pls_value name s" for s
    by (simp add: pls_value_def)
  have eq: "pls_write wcs ?wr name n (e # es) sp = do {
      (rc, ss) \<leftarrow> WriteString ?wr ?line sp; (if rc \<noteq> 0 then Some (rc, ss) else pls_write wcs ?wr name (n + 1) es ss) }"
    by (simp add: to_local_name pls_line_def v Let_def)
  obtain sp1 where 1: "WriteString ?wr ?line sp = Some (0, sp1)" "pls_write wcs ?wr name (n + 1) es sp1 = Some (0, sp')"
    using Cons.prems(1) unfolding eq by (auto split: Option.bind_split_asm if_splits)
  show ?case
    using WriteString_appends [OF laws 1(1) Cons.prems(2,3)] Cons.IH [OF 1(2)] by simp
qed simp

definition pls_text :: "string \<Rightarrow> string list \<Rightarrow> string" where
  "pls_text name es = concat (map (\<lambda>l. l @ [LF]) (pls_text_lines name es))"

lemma pls_save:
  assumes laws: "os_writes os v" "os_opens os v" "v_regular v name" and name: "NUL \<notin> set name"
    and save: "PlaylistPLS_Save wcs os name es f = Some (0, f')"
  shows "file_content v name f' = pls_text name (map (to_local_name wcs) es)"
proof -
  obtain rc ss f1 where o: "OpenFileStream os name WRITE f = (rc, ss, f1)"
    by (metis prod_cases3)
  from OpenFileStream_cases [OF laws(2,3) o] show ?thesis
  proof (elim disjE conjE exE)
    assume "rc \<noteq> 0" "ss = None"
    then show ?thesis
      using save o by (simp add: PlaylistPLS_Save_def c_str_id [OF name])
  next
    fix fs f2
    assume "rc = 0" "ss = Some fs" "O_RDWR \<in> set (open_flags WRITE) \<longrightarrow> writable_on v (m_fd fs) name f2"
      "file_content v name f2 = (if O_TRUNC \<in> set (open_flags WRITE) then [] else file_content v name f)"
      "f1 = (if WRITE AND TYPE_MASK = TEMP then os_unlink os name f2 else f2)"
    then have fs: "ss = Some fs" "rc = 0" "writable_on v (m_fd fs) name f1" "file_content v name f1 = []"
      by (simp_all add: mode_flags)
    let ?wr = "Seekable_Write (FileStream_WriteAt os fs)"
    obtain s1 s2 s3 where w: "WriteString ?wr (''[playlist]'' @ [LF]) (f1, 0) = Some (0, s1)"
      "WriteString ?wr (''numberofentries='' @ dec (length es) @ [LF]) s1 = Some (0, s2)"
      "pls_write wcs ?wr name 0 es s2 = Some (0, s3)" "f' = FileStream_close os fs (fst s3)"
      using save o fs(1,2) unfolding PlaylistPLS_Save_def c_str_id [OF name] by (auto simp: Let_def split: Option.bind_split_asm if_splits)
    have 1: "writable_on v (m_fd fs) name (fst s1)" "snd s1 = length (file_content v name (fst s1))"
      "file_content v name (fst s1) = ''[playlist]'' @ [LF]"
      using WriteString_appends [OF laws(1) w(1)] fs(3,4) by auto
    have 2: "writable_on v (m_fd fs) name (fst s2)" "snd s2 = length (file_content v name (fst s2))"
      "file_content v name (fst s2) = (''[playlist]'' @ [LF]) @ ''numberofentries='' @ dec (length es) @ [LF]"
      using WriteString_appends [OF laws(1) w(2) 1(1,2)] unfolding 1(3) by auto
    show ?thesis
      using pls_write_appends [OF laws(1) w(3) 2(1,2)] 2(3) unfolding w(4)
      by (simp add: close_content [OF laws(2)] pls_text_def pls_text_lines_def)
  qed
qed

definition playlist_entry :: "playlist_io \<Rightarrow> string \<Rightarrow> string \<Rightarrow> bool" where
  "playlist_entry io name e \<longleftrightarrow>
     (if io = PlaylistPLS then (\<forall>c\<in>set e. \<not> is_line_end c) \<and> (plain_path e \<or> IsHttpURL e)
      else plain_path e \<and> xml_href_ok (MakeRelativePath name e))"

lemma IsHttpURL_NUL: "NUL \<notin> set s \<Longrightarrow> IsHttpURL s \<longleftrightarrow> take 7 s = ''http://''"
  by (simp add: IsHttpURL_def c_str_id)

lemma pls_value_ok:
  assumes name: "name \<noteq> []" "hd name = CHR ''/''" "last name \<noteq> CHR ''/''" "NUL \<notin> set name"
    and entry: "playlist_entry PlaylistPLS name e"
  shows "pls_value name e \<noteq> [] \<and> (\<forall>c\<in>set (pls_value name e). \<not> is_line_end c) \<and>
    (if IsHttpURL (pls_value name e) then pls_value name e else MakeAbsolutePath name (pls_value name e)) = e"
proof (cases "IsHttpURL e")
  case True
  then have "e \<noteq> []"
    by (auto simp: IsHttpURL_def c_str_def)
  then show ?thesis
    using True entry by (simp add: pls_value_def playlist_entry_def)
next
  case False
  then have p: "plain_path e" "\<forall>c\<in>set e. \<not> is_line_end c"
    using entry by (auto simp: playlist_entry_def)
  note r = relative_round_trip [OF name p(1)]
  have "\<forall>c\<in>set (MakeRelativePath name e). \<not> is_line_end c"
    using r(4) p(2) by (auto simp: is_line_end_def)
  moreover from this have "NUL \<notin> set (MakeRelativePath name e)"
    by (auto simp: is_line_end_def)
  then have "\<not> IsHttpURL (MakeRelativePath name e)"
    using r(5) by (simp add: IsHttpURL_NUL)
  ultimately show ?thesis
    using False r(1,2) by (simp add: pls_value_def)
qed

text \<open>Of each line that was written, what is read is the line in UTF-8.\<close>

definition local_line :: "(string \<Rightarrow> u32 list option) \<Rightarrow> string \<Rightarrow> string \<Rightarrow> bool" where
  "local_line mbs l u \<longleftrightarrow> u \<noteq> [] \<and> (\<forall>c\<in>set l. \<not> is_line_end c) \<and> LocalEncodingToUTF8 mbs l = Some u"

lemma pls_file_lines_local:
  assumes code: "ascii_based code" "converts code wcs mbs" "same_in_local code name"
  shows "\<forall>e\<in>set es. expressible code e \<and> (\<forall>c\<in>set (pls_value name e). \<not> is_line_end c) \<Longrightarrow>
    list_all2 (local_line mbs) (pls_file_lines name n (map (to_local_name wcs) es)) (pls_file_lines name n es)"
proof (induction es arbitrary: n)
  case (Cons e es)
  obtain l where l: "UTF8ToLocalEncoding wcs (c_str e) = Some l"
    "LocalEncodingToUTF8 mbs (pls_line (n + 1) (pls_value name l)) = Some (pls_line (n + 1) (pls_value name e))"
    "\<forall>c\<in>set (pls_value name l). \<not> is_line_end c"
    using pls_line_local [OF code(1,2) _ code(3)] Cons.prems by auto
  have "local_line mbs (pls_line (n + 1) (pls_value name l)) (pls_line (n + 1) (pls_value name e))"
    using l(2,3) dec_chars [of _ "n + 1"] unfolding local_line_def pls_line_def by (auto simp: is_line_end_def)
  then show ?case
    using Cons l(1) by (simp add: to_local_name_def)
qed simp

lemma pls_text_lines_local:
  assumes code: "ascii_based code" "converts code wcs mbs" "same_in_local code name"
    and es: "\<forall>e\<in>set es. expressible code e \<and> (\<forall>c\<in>set (pls_value name e). \<not> is_line_end c)"
  shows "list_all2 (local_line mbs) (pls_text_lines name (map (to_local_name wcs) es)) (pls_text_lines name es)"
proof -
  have "local_line mbs a a" if "a \<noteq> []" "\<forall>b\<in>set a. ascii b \<and> b \<noteq> NUL \<and> b \<noteq> LF" for a
    using that ascii_from_local [OF code(1,2), of a] by (auto simp: local_line_def is_line_end_def)
  moreover have "\<forall>b\<in>set ''[playlist]''. ascii b \<and> b \<noteq> NUL \<and> b \<noteq> LF" "\<forall>b\<in>set (''numberofentries='' @ dec k). ascii b \<and> b \<noteq> NUL \<and> b \<noteq> LF" for k
  proof -
    have plain: "\<forall>b\<in>set ''[playlist]''. ascii b \<and> b \<noteq> NUL \<and> b \<noteq> LF" "\<forall>b\<in>set ''numberofentries=''. ascii b \<and> b \<noteq> NUL \<and> b \<noteq> LF"
      by code_simp+
    show "\<forall>b\<in>set ''[playlist]''. ascii b \<and> b \<noteq> NUL \<and> b \<noteq> LF"
      by (rule plain(1))
    have "\<forall>b\<in>set (dec k). ascii b \<and> b \<noteq> NUL \<and> b \<noteq> LF"
      using dec_ascii dec_chars by blast
    with plain(2) show "\<forall>b\<in>set (''numberofentries='' @ dec k). ascii b \<and> b \<noteq> NUL \<and> b \<noteq> LF"
      unfolding set_append ball_Un by (rule conjI)
  qed
  ultimately show ?thesis
    using pls_file_lines_local [OF code es, of 0] by (simp add: pls_text_lines_def)
qed

lemma pls_load:
  assumes laws: "os_reads os v" "os_opens os v" "v_regular v name"
    and name: "name \<noteq> []" "hd name = CHR ''/''" "last name \<noteq> CHR ''/''" "NUL \<notin> set name"
    and code: "ascii_based code" "converts code wcs mbs" "same_in_local code name"
    and es: "\<forall>e\<in>set es. playlist_entry PlaylistPLS name e \<and> expressible code e"
    and f: "file_content v name f = pls_text name (map (to_local_name wcs) es)"
  shows "loads_or os name f (PlaylistPLS_Load mbs os name es0 f) (es0 @ es) es0"
proof -
  obtain rc ss f1 where o: "OpenFileStream os name READ f = (rc, ss, f1)"
    by (metis prod_cases3)
  have v: "\<forall>e\<in>set es. pls_value name e \<noteq> [] \<and> (\<forall>c\<in>set (pls_value name e). \<not> is_line_end c) \<and>
      (if IsHttpURL (pls_value name e) then pls_value name e else MakeAbsolutePath name (pls_value name e)) = e"
    using pls_value_ok [OF name] es by blast
  then have lines: "list_all2 (local_line mbs) (pls_text_lines name (map (to_local_name wcs) es)) (pls_text_lines name es)"
    using pls_text_lines_local [OF code] es by blast
  have read: "fold (pls_entry name) (pls_text_lines name es) es0 = es0 @ es"
  proof -
    have "c_str (''numberofentries='' @ dec (length es)) = ''numberofentries='' @ dec (length es)"
      using dec_chars by (intro c_str_id) auto
    then have "pls_entry name ''[playlist]'' es0 = es0" "pls_entry name (''numberofentries='' @ dec (length es)) es0 = es0"
      by (simp_all add: pls_entry_def c_str_def)
    then show ?thesis
      using pls_file_lines_read [OF v, of 0 es0] by (simp add: pls_text_lines_def)
  qed
  from OpenFileStream_cases [OF laws(2,3) o] show ?thesis
  proof (elim disjE conjE exE)
    assume "rc \<noteq> 0" "ss = None" "os_open os name (open_flags READ) f = (Inl rc, f1)"
    then show ?thesis
      using o by (simp add: PlaylistPLS_Load_def loads_or_def c_str_id [OF name(4)] mode_flags)
  next
    fix fs f2
    assume "rc = 0" "ss = Some fs" "open_on v (m_fd fs) name f2"
      "file_content v name f2 = (if O_TRUNC \<in> set (open_flags READ) then [] else file_content v name f)"
      "f1 = (if READ AND TYPE_MASK = TEMP then os_unlink os name f2 else f2)"
    then have fs: "ss = Some fs" "rc = 0" "open_on v (m_fd fs) name f1" "file_content v name f1 = pls_text name (map (to_local_name wcs) es)"
      using f by (simp_all add: mode_flags)
    let ?rd = "Seekable_Read (FileStream_ReadAt os fs)" and ?md = "Seekable_Read (Mended_ReadAt os v name fs)"
    obtain s' pos' where "pls_lines mbs ?md name es0 (f1, 0) = Some (0, es0 @ es, s', pos')"
      using seekable_source.pls_lines_reads [OF mended_source [OF laws(1)] lines [unfolded local_line_def [abs_def]] _ fs(3), of 0 name es0]
        ascii_from_local [OF code(1,2), of "[]"] fs(4) read by (auto simp: pls_text_def)
    from pls_lines_fails_or_agrees [OF mended_agrees this]
    consider "pls_lines mbs ?rd name es0 (f1, 0) = Some (0, es0 @ es, s', pos')"
      | e es' sp' where "e \<noteq> 0" "read_error os e" "pls_lines mbs ?rd name es0 (f1, 0) = Some (e, es', sp')"
      by blast
    then show ?thesis
      using o fs(1,2) by cases (auto simp: PlaylistPLS_Load_def loads_or_def c_str_id [OF name(4)] split: prod.split)
  qed
qed

section \<open>The round trip\<close>


text \<open>ISO 8859-1, where an accented letter is one byte.\<close>

definition latin1 :: "u32 \<Rightarrow> string option" where
  "latin1 c = (if c < 0x100 then Some [chr8 c] else None)"

definition latin1_wcstombs :: "u32 list \<Rightarrow> string option" where
  "latin1_wcstombs cs = (if list_all (\<lambda>c. c < 0x100) cs then Some (map chr8 cs) else None)"

definition latin1_mbstowcs :: "string \<Rightarrow> u32 list option" where
  "latin1_mbstowcs s = Some (map byte s)"

lemma latin1: "ascii_based latin1" "converts latin1 latin1_wcstombs latin1_mbstowcs"
proof -
  have "\<not> ascii (chr8 c)" if "0x80 \<le> c" "c < 0x100" for c
    using that by (simp add: byte_chr8)
  moreover have "c < 0x100" if "c < 0x80" for c :: u32
    using that by (simp add: word_less_nat_alt)
  ultimately show "ascii_based latin1"
    by (auto simp: ascii_based_def latin1_def split: if_splits)
  have "text_in (the \<circ> latin1) cs = map chr8 cs \<and> map byte (map chr8 cs) = cs" if "\<forall>c\<in>set cs. c < 0x100" for cs
    using that by (induction cs) (auto simp: latin1_def byte_chr8)
  then show "converts latin1 latin1_wcstombs latin1_mbstowcs"
    by (auto simp: converts_def latin1_wcstombs_def latin1_mbstowcs_def latin1_def list_all_iff split: if_splits)
qed

definition accented :: string where
  "accented = ''/m/caf'' @ [CHR 0xC3, CHR 0xA9] @ ''.mp3''"

lemma accented: "expressible latin1 accented" "playlist_entry PlaylistPLS ''/m/l.pls'' accented"
proof -
  have "text_in PutChar8 (map byte ''/m/caf'' @ [0xE9] @ map byte ''.mp3'') = accented"
    by code_simp
  moreover have "list_all (\<lambda>c. text_char c \<and> latin1 c \<noteq> None) (map byte ''/m/caf'' @ [0xE9] @ map byte ''.mp3'')"
    by code_simp
  ultimately show "expressible latin1 accented"
    using expressible_text_in [of "map byte ''/m/caf'' @ [0xE9] @ map byte ''.mp3''" latin1] by (auto simp: list_all_iff)
  have "\<not> sublist ''//'' accented \<and> \<not> sublist ''/../'' (accented @ ''/'')"
    by code_simp
  then show "playlist_entry PlaylistPLS ''/m/l.pls'' accented"
    by (simp add: playlist_entry_def plain_path_def) (simp add: accented_def is_line_end_def)
qed

declare WriteAll.simps [code] convert_loop.simps [code]

abbreviation (input) asx_file :: playlist where "asx_file \<equiv> \<lparr>m_filename = ''/m/l.asx'', m_impl = Some PlaylistASX\<rparr>"
abbreviation (input) pls_file :: playlist where "pls_file \<equiv> \<lparr>m_filename = ''/m/l.pls'', m_impl = Some PlaylistPLS\<rparr>"

definition after_save :: "(u32 \<times> small_fs) option \<Rightarrow> string \<Rightarrow> (u32 \<times> bool \<times> bool) option" where
  "after_save r name = map_option (\<lambda>(rc, f). (rc, sf_unprinted f name, sf_unflushed f name)) r"


text \<open>And they do come back.\<close>

declare read_line.simps [code] pls_lines.simps [code]

lemma playlists_come_back:
  "(do { (rc, f) \<leftarrow> Playlist_Save latin1_wcstombs (small_os 7 500) pls_file [accented, ''http://h/s''] no_files;
     (rc', es, f) \<leftarrow> Playlist_Load latin1_mbstowcs (small_os 7 500) pls_file f; Some (rc, rc', es) }) = Some (0, 0, [accented, ''http://h/s''])"
  "(do { (rc, f) \<leftarrow> Playlist_Save latin1_wcstombs (small_os 7 500) asx_file [''/n/a&b.mp3'', ''/m/c''] no_files;
     (rc', es, f) \<leftarrow> Playlist_Load latin1_mbstowcs (small_os 7 500) asx_file f; Some (rc, rc', es) }) = Some (0, 0, [''/n/a&b.mp3'', ''/m/c''])"
  by code_simp+

text \<open>On a file system that is full, ASX returns 0 although the C library has reported that text was lost; WPL does not, but neither sees
  that \<^verbatim>\<open>fclose\<close> failed.\<close>

lemma xml_playlists_hide_errors:
  "after_save (Playlist_Save latin1_wcstombs (small_os 7 30) asx_file [''/m/c''] no_files) ''/m/l.asx'' = Some (0, True, True)"
  "map_option fst (Playlist_Save latin1_wcstombs (small_os 7 30) \<lparr>m_filename = ''/m/l.wpl'', m_impl = Some PlaylistWPL\<rparr> [''/m/c''] no_files) = Some EFBIG"
  "after_save (Playlist_Save latin1_wcstombs (small_os 7 80) \<lparr>m_filename = ''/m/l.wpl'', m_impl = Some PlaylistWPL\<rparr> [''/m/c''] no_files) ''/m/l.wpl'' =
    Some (0, False, True)"
  by code_simp+

text \<open>
  PLS compares the converted name with the playlist's, which is not converted: in ISO 8859-1 the directory of the name is, byte
  for byte, the other directory that the playlist is in, and the name is written as if it were there.
\<close>

lemma pls_confuses_directories:
  "to_local_name latin1_wcstombs (''/'' @ [CHR 0xC3, CHR 0x83, CHR 0xC2, CHR 0xA9] @ ''/x'') = ''/'' @ [CHR 0xC3, CHR 0xA9] @ ''/x''"
  "pls_value (''/'' @ [CHR 0xC3, CHR 0xA9] @ ''/l.pls'') (''/'' @ [CHR 0xC3, CHR 0xA9] @ ''/x'') = ''x''"
  "MakeAbsolutePath (''/'' @ [CHR 0xC3, CHR 0xA9] @ ''/l.pls'') ''x'' = ''/'' @ [CHR 0xC3, CHR 0xA9] @ ''/x''"
  by code_simp+

text \<open>Only PLS keeps URLs: the XML formats make a relative name of one.\<close>

lemma xml_playlist_loses_urls:
  "MakeRelativePath ''/m/l.asx'' ''http://h/s'' = ''../../http://h/s''"
  "MakeAbsolutePath ''/m/l.asx'' ''../../http://h/s'' = ''/http://h/s''"
  by code_simp+

end
