(* ===== verification/Sync.thy ===== *)
theory Sync
  imports Diff Paths MediaXml
begin

text \<open>
  libmediadb/sync.h, sync.cpp: making one media database a copy of another. The two databases are
  behind the interface \<^verbatim>\<open>mediadb::Database\<close>, a record of the functions that the synchroniser
  calls, on a database \<^verbatim>\<open>'d\<close>, recordsets \<^verbatim>\<open>'c\<close> and streams \<^verbatim>\<open>'s\<close>; the functions that read
  only observe. The state of the synchroniser holds both databases, and what it tells its observers.
  \<^verbatim>\<open>None\<close> is an abnormal end: an index out of range, a failed \<^verbatim>\<open>assert\<close> or a child list
  that runs over its end; the functions that recurse over a library take the depth they may reach.
\<close>

section \<open>The databases\<close>

record ('d, 'c, 's) library_ops =
  lib_find :: "u32 \<Rightarrow> 'd \<Rightarrow> 'c option"
  lib_int :: "'c \<Rightarrow> nat \<Rightarrow> 'd \<Rightarrow> u32"
  lib_str :: "'c \<Rightarrow> nat \<Rightarrow> 'd \<Rightarrow> string"
  lib_add :: "'d \<Rightarrow> 'c \<times> 'd"
  lib_set_int :: "'c \<Rightarrow> nat \<Rightarrow> u32 \<Rightarrow> 'd \<Rightarrow> 'd"
  lib_set_str :: "'c \<Rightarrow> nat \<Rightarrow> string \<Rightarrow> 'd \<Rightarrow> 'd"
  lib_commit :: "'c \<Rightarrow> 'd \<Rightarrow> u32 \<times> 'd"
  lib_delete :: "'c \<Rightarrow> 'd \<Rightarrow> u32 \<times> 'd"
  lib_alloc :: "'d \<Rightarrow> u32 \<times> 'd"
  lib_open_read :: "u32 \<Rightarrow> 'd \<Rightarrow> 's option"
  lib_open_write :: "u32 \<Rightarrow> 'd \<Rightarrow> 's option \<times> 'd"
  lib_length :: "'s \<Rightarrow> nat"
  lib_set_length :: "nat \<Rightarrow> 's \<Rightarrow> u32 \<times> 's"
  lib_read :: "'s reader"
  lib_write :: "'s writer"
  lib_close :: "u32 \<Rightarrow> 's \<Rightarrow> 'd \<Rightarrow> 'd"

definition field_ARTIST :: nat where "field_ARTIST = 2"
definition field_ALBUM :: nat where "field_ALBUM = 3"
definition field_TRACKNUMBER :: nat where "field_TRACKNUMBER = 4"
definition field_GENRE :: nat where "field_GENRE = 5"
definition field_YEAR :: nat where "field_YEAR = 7"
definition field_SIZEBYTES :: nat where "field_SIZEBYTES = 10"
definition field_PATH :: nat where "field_PATH = 14"

definition FILE :: u32 where "FILE = 0"
definition TUNE :: u32 where "TUNE = 1"
definition TUNEHIGH :: u32 where "TUNEHIGH = 2"
definition PLAYLIST :: u32 where "PLAYLIST = 4"
definition DIR :: u32 where "DIR = 5"

section \<open>State\<close>

datatype sync_stage = BEGIN | DELETING | PLAYLISTS | FILES | END

datatype sync_event =
    OnStage sync_stage
  | OnDelete u32
  | OnAddPlaylist u32 nat nat
  | OnAmendPlaylist u32 nat nat
  | OnAddFile u32 nat nat
  | OnAmendMetadata u32 nat nat

record statistics =
  files_added :: u32
  files_deleted :: u32
  files_modified :: u32
  playlists_added :: u32
  playlists_deleted :: u32
  playlists_modified :: u32
  bytes_transferred :: u64

record ('a, 'b) sync =
  m_src :: 'a
  m_dest :: 'b
  m_dry_run :: bool
  m_srcids_seen :: "u32 list"
  m_srctodest :: "(u32, u32) smap"
  m_desttosrc :: "(u32, u32) smap"
  m_srcids_maybe_add :: "u32 list"
  m_destids_maybe_delete :: "u32 list"
  m_srcids_add_tune :: "u32 list"
  m_srcids_amend_metadata :: "u32 list"
  m_srcids_add_playlist :: "u32 list"
  m_srcids_amend_playlist :: "u32 list"
  m_any_deleted :: bool
  m_statistics :: statistics
  fired :: "sync_event list"

definition Synchroniser :: "'a \<Rightarrow> 'b \<Rightarrow> bool \<Rightarrow> ('a, 'b) sync" where
  "Synchroniser src dest dry_run =
     \<lparr>m_src = src, m_dest = dest, m_dry_run = dry_run, m_srcids_seen = [], m_srctodest = [], m_desttosrc = [],
      m_srcids_maybe_add = [], m_destids_maybe_delete = [], m_srcids_add_tune = [], m_srcids_amend_metadata = [],
      m_srcids_add_playlist = [], m_srcids_amend_playlist = [], m_any_deleted = False,
      m_statistics = \<lparr>files_added = 0, files_deleted = 0, files_modified = 0, playlists_added = 0,
        playlists_deleted = 0, playlists_modified = 0, bytes_transferred = 0\<rparr>,
      fired = []\<rparr>"

definition Fire :: "sync_event \<Rightarrow> ('a, 'b) sync \<Rightarrow> ('a, 'b) sync" where
  "Fire e w = w\<lparr>fired := fired w @ [e]\<rparr>"

text \<open>\<^verbatim>\<open>m_srctodest[k]\<close>, which makes an entry of 0 where there is none.\<close>

definition srctodest_at :: "u32 \<Rightarrow> ('a, 'b) sync \<Rightarrow> u32 \<times> ('a, 'b) sync" where
  "srctodest_at k w =
     (case smap_find (m_srctodest w) k of
        Some d \<Rightarrow> (d, w)
      | None \<Rightarrow> (0, w\<lparr>m_srctodest := smap_set k 0 (m_srctodest w)\<rparr>))"

section \<open>Titles of children\<close>

record name_and_type =
  nat_name :: string
  nat_composite :: bool

definition composite :: "u32 \<Rightarrow> bool" where
  "composite type \<longleftrightarrow> type = PLAYLIST \<or> type = DIR"

definition name_of :: "('d, 'c, 's) library_ops \<Rightarrow> 'd \<Rightarrow> u32 \<Rightarrow> name_and_type option" where
  "name_of L d i =
     (case lib_find L i d of
        None \<Rightarrow> None
      | Some rs \<Rightarrow>
          (let type = lib_int L rs field_TYPE d in
           if type = FILE then None
           else Some \<lparr>nat_name = lib_str L rs field_TITLE d, nat_composite = composite type\<rparr>))"

text \<open>An identifier without a name becomes 0, and every 0 is removed; the lengths then have to agree.\<close>

definition GetNames :: "('d, 'c, 's) library_ops \<Rightarrow> 'd \<Rightarrow> u32 list \<Rightarrow> (u32 list \<times> name_and_type list) option" where
  "GetNames L d ids =
     (let names = concat (map (\<lambda>i. case name_of L d i of None \<Rightarrow> [] | Some n \<Rightarrow> [n]) ids);
          ids = filter (\<lambda>i. i \<noteq> 0) (map (\<lambda>i. if name_of L d i = None then 0 else i) ids)
      in if length ids = length names then Some (ids, names) else None)"

section \<open>The walk over both libraries\<close>

definition Different ::
  "('a, 'c, 's) library_ops \<Rightarrow> ('b, 'e, 't) library_ops \<Rightarrow> 'c \<Rightarrow> 'e \<Rightarrow> nat \<Rightarrow> ('a, 'b) sync \<Rightarrow> bool" where
  "Different S D src dest field w \<longleftrightarrow> lib_str S src field (m_src w) \<noteq> lib_str D dest field (m_dest w)"

definition check_tune ::
  "('a, 'c, 's) library_ops \<Rightarrow> ('b, 'e, 't) library_ops \<Rightarrow> u32 \<Rightarrow> 'c \<Rightarrow> u32 \<Rightarrow> 'e \<Rightarrow> ('a, 'b) sync \<Rightarrow> u32 \<times> ('a, 'b) sync" where
  "check_tune S D srcid srcrs destid destrs w =
     (let destsize = lib_int D destrs field_SIZEBYTES (m_dest w);
          srcsize = lib_int S srcrs field_SIZEBYTES (m_src w);
          tunehigh = lib_int S srcrs field_IDHIGH (m_src w);
          (srcid, srcsize, w) =
            (case (if tunehigh \<noteq> 0 then lib_find S tunehigh (m_src w) else None) of
               Some rs2 \<Rightarrow> (tunehigh, lib_int S rs2 field_SIZEBYTES (m_src w),
                 w\<lparr>m_srctodest := smap_set srcid destid (m_srctodest w)\<rparr>)
             | None \<Rightarrow> (srcid, srcsize, w))
      in if srcsize \<noteq> destsize then (srcid, w\<lparr>m_srcids_add_tune := sset_insert srcid (m_srcids_add_tune w)\<rparr>)
         else if Different S D srcrs destrs field_ARTIST w \<or> Different S D srcrs destrs field_ALBUM w \<or>
                 Different S D srcrs destrs field_GENRE w \<or> Different S D srcrs destrs field_TRACKNUMBER w \<or>
                 Different S D srcrs destrs field_YEAR w then
           (srcid, w\<lparr>m_srcids_amend_metadata := sset_insert srcid (m_srcids_amend_metadata w),
              m_statistics := (m_statistics w)\<lparr>files_modified := files_modified (m_statistics w) + 1\<rparr>\<rparr>)
         else (srcid, w))"

text \<open>
  The loop over the children, which are what is left of both lists; the positions count from 0, those
  in the edit script from 1. The function for a pair of children may set the flag of its caller.
\<close>

function match_children ::
  "(u32 \<Rightarrow> u32 \<Rightarrow> ('a, 'b) sync \<Rightarrow> (u32 \<times> bool \<times> ('a, 'b) sync) option) \<Rightarrow> nat list \<Rightarrow> nat list \<Rightarrow>
   nat \<Rightarrow> u32 list \<Rightarrow> nat \<Rightarrow> u32 list \<Rightarrow> bool \<Rightarrow> ('a, 'b) sync \<Rightarrow> (u32 \<times> bool \<times> ('a, 'b) sync) option"
where
  "match_children check deletions additions src_index src_ids dest_index dest_ids amend w =
     (if src_ids \<noteq> [] \<and> src_index + 1 \<in> set additions then
        match_children check deletions additions (src_index + 1) (tl src_ids) dest_index dest_ids True
          (w\<lparr>m_srcids_maybe_add := sset_insert (hd src_ids) (m_srcids_maybe_add w)\<rparr>)
      else if dest_ids \<noteq> [] \<and> dest_index + 1 \<in> set deletions then
        match_children check deletions additions src_index src_ids (dest_index + 1) (tl dest_ids) True
          (w\<lparr>m_destids_maybe_delete := sset_insert (hd dest_ids) (m_destids_maybe_delete w)\<rparr>)
      else case (src_ids, dest_ids) of
          ([], []) \<Rightarrow> Some (0, amend, w)
        | (s # src_ids, d # dest_ids) \<Rightarrow> do {
            (rc, a, w) \<leftarrow> check s d w;
            (if rc \<noteq> 0 then Some (rc, amend, w)
             else match_children check deletions additions (src_index + 1) src_ids (dest_index + 1) dest_ids (amend \<or> a) w) }
        | _ \<Rightarrow> None)"
  by pat_completeness auto
termination
  by (relation "measure (\<lambda>(_, _, _, _, s, _, d, _, _). length s + length d)") auto

text \<open>The result has the error number and whether the flag \<^verbatim>\<open>*amend_parent\<close> is set.\<close>

fun CheckPlaylistNames ::
  "('a, 'c, 's) library_ops \<Rightarrow> ('b, 'e, 't) library_ops \<Rightarrow> nat \<Rightarrow> u32 \<Rightarrow> u32 \<Rightarrow> ('a, 'b) sync \<Rightarrow> (u32 \<times> bool \<times> ('a, 'b) sync) option"
where
  "CheckPlaylistNames S D 0 srcid destid w = None"
| "CheckPlaylistNames S D (Suc n) srcid destid w =
     (if srcid \<in> set (m_srcids_seen w) \<and> smap_find (m_srctodest w) srcid \<noteq> None then
        (if smap_find (m_srctodest w) srcid \<noteq> Some destid then
           Some (0, True, w\<lparr>m_destids_maybe_delete := sset_insert destid (m_destids_maybe_delete w)\<rparr>)
         else Some (0, False, w))
      else
        (let w = w\<lparr>m_srcids_seen := sset_insert srcid (m_srcids_seen w)\<rparr> in
         case lib_find S srcid (m_src w) of
           None \<Rightarrow> Some (ENOENT, False, w)
         | Some srcrs \<Rightarrow> do {
             src_ids \<leftarrow> ChildrenToVector (lib_str S srcrs field_CHILDREN (m_src w));
             (case lib_find D destid (m_dest w) of
                None \<Rightarrow> Some (ENOENT, False, w)
              | Some destrs \<Rightarrow> do {
                  dest_ids \<leftarrow> ChildrenToVector (lib_str D destrs field_CHILDREN (m_dest w));
                  let (srcid, w) =
                    (if \<not> composite (lib_int D destrs field_TYPE (m_dest w))
                     then check_tune S D srcid srcrs destid destrs w else (srcid, w));
                  let w = w\<lparr>m_desttosrc := smap_set destid srcid (m_desttosrc w),
                    m_srctodest := smap_set srcid destid (m_srctodest w)\<rparr>;
                  (src_ids, src_names) \<leftarrow> GetNames S (m_src w) src_ids;
                  (dest_ids, dest_names) \<leftarrow> GetNames D (m_dest w) dest_ids;
                  let (dist, deletions, additions) = Diff dest_names src_names;
                  (rc, amend, w) \<leftarrow> match_children (CheckPlaylistNames S D n) deletions additions 0 src_ids 0 dest_ids False w;
                  Some (if rc \<noteq> 0 then (rc, False, w)
                    else (0, False, if amend then w\<lparr>m_srcids_amend_playlist := sset_insert srcid (m_srcids_amend_playlist w)\<rparr> else w)) }) }))"

section \<open>Deletions\<close>

text \<open>A loop that calls a function on each identifier until one returns an error.\<close>

fun each :: "(u32 \<Rightarrow> 'x \<Rightarrow> 'w \<Rightarrow> (u32 \<times> 'x \<times> 'w) option) \<Rightarrow> u32 list \<Rightarrow> 'x \<Rightarrow> 'w \<Rightarrow> (u32 \<times> 'x \<times> 'w) option" where
  "each f [] x w = Some (0, x, w)"
| "each f (i # is) x w = do {
     (rc, x, w) \<leftarrow> f i x w;
     (if rc \<noteq> 0 then Some (rc, x, w) else each f is x w) }"

definition count_deleted :: "u32 \<Rightarrow> statistics \<Rightarrow> statistics" where
  "count_deleted type s =
     (if composite type then s\<lparr>playlists_deleted := playlists_deleted s + 1\<rparr>
      else s\<lparr>files_deleted := files_deleted s + 1\<rparr>)"

fun MaybeDelete :: "('b, 'e, 't) library_ops \<Rightarrow> nat \<Rightarrow> u32 \<Rightarrow> u32 list \<Rightarrow> ('a, 'b) sync \<Rightarrow> (u32 \<times> u32 list \<times> ('a, 'b) sync) option" where
  "MaybeDelete D 0 destid already w = None"
| "MaybeDelete D (Suc n) destid already w =
     (if destid \<in> set already then Some (0, already, w)
      else
        (let already = sset_insert destid already in
         if smap_find (m_desttosrc w) destid \<noteq> None then Some (0, already, w)
         else case lib_find D destid (m_dest w) of
             None \<Rightarrow> Some (0, already, w)
           | Some rs \<Rightarrow> do {
               child_ids \<leftarrow> ChildrenToVector (lib_str D rs field_CHILDREN (m_dest w));
               (rc, already, w) \<leftarrow> each (MaybeDelete D n) child_ids already w;
               (if rc \<noteq> 0 then Some (rc, already, w)
                else
                  (let w = (if \<not> m_any_deleted w then (Fire (OnStage DELETING) w)\<lparr>m_any_deleted := True\<rparr> else w);
                       w = w\<lparr>m_statistics := count_deleted (lib_int D rs field_TYPE (m_dest w)) (m_statistics w)\<rparr>;
                       (rc, w) =
                         (if \<not> m_dry_run w then (let (rc, d) = lib_delete D rs (m_dest w) in (rc, w\<lparr>m_dest := d\<rparr>)) else (0, w))
                   in Some (rc, already, Fire (OnDelete destid) w))) }))"

section \<open>Additions\<close>

definition add_item :: "u32 \<Rightarrow> u32 \<Rightarrow> u32 \<Rightarrow> ('a, 'b) sync \<Rightarrow> ('a, 'b) sync" where
  "add_item srcid type bytes w =
     (let st = m_statistics w in
      if composite type then
        w\<lparr>m_statistics := st\<lparr>playlists_added := playlists_added st + 1\<rparr>, m_srcids_add_playlist := m_srcids_add_playlist w @ [srcid]\<rparr>
      else if type = TUNE \<or> type = TUNEHIGH then
        w\<lparr>m_srcids_add_tune := sset_insert srcid (m_srcids_add_tune w),
          m_statistics := st\<lparr>files_added := files_added st + 1, bytes_transferred := bytes_transferred st + ucast bytes\<rparr>\<rparr>
      else w)"

fun MaybeAdd ::
  "('a, 'c, 's) library_ops \<Rightarrow> ('b, 'e, 't) library_ops \<Rightarrow> nat \<Rightarrow> u32 \<Rightarrow> u32 list \<Rightarrow> ('a, 'b) sync \<Rightarrow> (u32 \<times> u32 list \<times> ('a, 'b) sync) option"
where
  "MaybeAdd S D 0 srcid already w = None"
| "MaybeAdd S D (Suc n) srcid already w =
     (if srcid \<in> set already then Some (0, already, w)
      else
        (let already = sset_insert srcid already in
         if smap_find (m_srctodest w) srcid \<noteq> None then Some (0, already, w)
         else case lib_find S srcid (m_src w) of
             None \<Rightarrow> Some (ENOENT, already, w)
           | Some rs \<Rightarrow>
               if lib_int S rs field_TYPE (m_src w) = FILE then
                 Some (0, already, w\<lparr>m_srctodest := smap_set srcid 0 (m_srctodest w)\<rparr>)
               else do {
                 child_ids \<leftarrow> ChildrenToVector (lib_str S rs field_CHILDREN (m_src w));
                 (rc, already, w) \<leftarrow> each (MaybeAdd S D n) child_ids already w;
                 (if rc \<noteq> 0 then Some (rc, already, w)
                  else
                    (let (destid, d) = lib_alloc D (m_dest w);
                         w = w\<lparr>m_dest := d, m_srctodest := smap_set srcid destid (m_srctodest w),
                           m_desttosrc := smap_set destid srcid (m_desttosrc w)\<rparr>;
                         tunehigh = lib_int S rs field_IDHIGH (m_src w);
                         (srcid, rs, w) =
                           (case (if tunehigh \<noteq> 0 then lib_find S tunehigh (m_src w) else None) of
                              Some rs2 \<Rightarrow> (tunehigh, rs2, w\<lparr>m_srctodest := smap_set tunehigh destid (m_srctodest w)\<rparr>)
                            | None \<Rightarrow> (srcid, rs, w))
                     in Some (0, already,
                          add_item srcid (lib_int S rs field_TYPE (m_src w)) (lib_int S rs field_SIZEBYTES (m_src w)) w))) }))"

section \<open>Copying\<close>

fun image_ids :: "u32 list \<Rightarrow> ('a, 'b) sync \<Rightarrow> u32 list \<times> ('a, 'b) sync" where
  "image_ids [] w = ([], w)"
| "image_ids (i # src_ids) w =
     (let (cdestid, w) = srctodest_at i w; (dest_ids, w) = image_ids src_ids w
      in (if cdestid \<noteq> 0 then cdestid # dest_ids else dest_ids, w))"

text \<open>The record with an identifier, or a new record that is given it.\<close>

definition find_or_add :: "('b, 'e, 't) library_ops \<Rightarrow> u32 \<Rightarrow> 'b \<Rightarrow> 'e \<times> 'b" where
  "find_or_add D destid d =
     (case lib_find D destid d of
        Some drs \<Rightarrow> (drs, d)
      | None \<Rightarrow> (let (drs, d) = lib_add D d in (drs, lib_set_int D drs field_ID destid d)))"

definition CopyPlaylist ::
  "('a, 'c, 's) library_ops \<Rightarrow> ('b, 'e, 't) library_ops \<Rightarrow> u32 \<Rightarrow> u32 \<Rightarrow> ('a, 'b) sync \<Rightarrow> (u32 \<times> ('a, 'b) sync) option"
where
  "CopyPlaylist S D srcid destid w =
     (case lib_find S srcid (m_src w) of
        None \<Rightarrow> Some (ENOENT, w)
      | Some srs \<Rightarrow> do {
          src_ids \<leftarrow> ChildrenToVector (lib_str S srs field_CHILDREN (m_src w));
          let (dest_ids, w) = image_ids src_ids w;
          (if m_dry_run w then Some (0, w)
           else
             (let (drs, d) = find_or_add D destid (m_dest w);
                  d = lib_set_str D drs field_TITLE (lib_str S srs field_TITLE (m_src w)) d;
                  d = lib_set_int D drs field_TYPE (lib_int S srs field_TYPE (m_src w)) d;
                  d = lib_set_str D drs field_CHILDREN (VectorToChildren dest_ids) d;
                  (rc, d) = lib_commit D drs d
              in Some (rc, w\<lparr>m_dest := d\<rparr>))) })"

definition CopyMetadata ::
  "('a, 'c, 's) library_ops \<Rightarrow> ('b, 'e, 't) library_ops \<Rightarrow> u32 \<Rightarrow> u32 \<Rightarrow> ('a, 'b) sync \<Rightarrow> u32 \<times> ('a, 'b) sync"
where
  "CopyMetadata S D srcid destid w =
     (case lib_find S srcid (m_src w) of
        None \<Rightarrow> (ENOENT, w)
      | Some rs \<Rightarrow>
          if m_dry_run w then (0, w)
          else
            (let (destrs, d) = find_or_add D destid (m_dest w);
                 d = fold (\<lambda>i. lib_set_str D destrs i (lib_str S rs i (m_src w))) [1..<FIELD_COUNT] d;
                 d = (if lib_int D destrs field_TYPE d = TUNEHIGH then lib_set_int D destrs field_TYPE TUNE d else d);
                 d = (if lib_str D destrs field_TITLE d = [] then
                        lib_set_str D destrs field_TITLE
                          (StripExtension (c_str (GetLeafName (c_str (lib_str S rs field_PATH (m_src w)))))) d
                      else d);
                 (rc, d) = lib_commit D destrs d
             in (rc, w\<lparr>m_dest := d\<rparr>)))"

definition AmendPlaylist ::
  "('a, 'c, 's) library_ops \<Rightarrow> ('b, 'e, 't) library_ops \<Rightarrow> nat \<Rightarrow> u32 \<Rightarrow> nat \<Rightarrow> ('a, 'b) sync \<Rightarrow> (u32 \<times> ('a, 'b) sync) option"
where
  "AmendPlaylist S D denom srcid num w =
     (let w = w\<lparr>m_statistics := (m_statistics w)\<lparr>playlists_modified := playlists_modified (m_statistics w) + 1\<rparr>\<rparr>;
          w = Fire (OnAmendPlaylist srcid num denom) w;
          (destid, w) = srctodest_at srcid w
      in CopyPlaylist S D srcid destid w)"

definition AmendTune ::
  "('a, 'c, 's) library_ops \<Rightarrow> ('b, 'e, 't) library_ops \<Rightarrow> nat \<Rightarrow> u32 \<Rightarrow> nat \<Rightarrow> ('a, 'b) sync \<Rightarrow> (u32 \<times> ('a, 'b) sync) option"
where
  "AmendTune S D denom srcid num w =
     (let w = Fire (OnAmendMetadata srcid num denom) w; (destid, w) = srctodest_at srcid w
      in Some (CopyMetadata S D srcid destid w))"

definition AddPlaylist ::
  "('a, 'c, 's) library_ops \<Rightarrow> ('b, 'e, 't) library_ops \<Rightarrow> nat \<Rightarrow> u32 \<Rightarrow> nat \<Rightarrow> ('a, 'b) sync \<Rightarrow> (u32 \<times> ('a, 'b) sync) option"
where
  "AddPlaylist S D denom srcid num w =
     (let w = Fire (OnAddPlaylist srcid num denom) w; (destid, w) = srctodest_at srcid w
      in CopyPlaylist S D srcid destid w)"

text \<open>The content of a file; the streams are closed at the end.\<close>

definition copy_content ::
  "('a, 'c, 's) library_ops \<Rightarrow> ('b, 'e, 't) library_ops \<Rightarrow> u32 \<Rightarrow> u32 \<Rightarrow> ('a, 'b) sync \<Rightarrow> (u32 \<times> ('a, 'b) sync) option"
where
  "copy_content S D srcid destid w =
     (case lib_open_read S srcid (m_src w) of
        None \<Rightarrow> Some (EIO, w)
      | Some ssps \<Rightarrow>
          (case lib_open_write D destid (m_dest w) of
             (None, d) \<Rightarrow> Some (EPERM, w\<lparr>m_dest := d\<rparr>)
           | (Some sspd, d) \<Rightarrow>
               (let len = unat (of_nat (lib_length S ssps) :: u32); (rc, sspd) = lib_set_length D len sspd in
                if rc \<noteq> 0 then Some (rc, w\<lparr>m_dest := lib_close D destid sspd d\<rparr>)
                else do {
                  (rc, ssps, sspd) \<leftarrow> CopyStream (lib_read S) (lib_write D) ssps sspd;
                  Some (rc, w\<lparr>m_dest := lib_close D destid sspd d\<rparr>) })))"

definition AddTune ::
  "('a, 'c, 's) library_ops \<Rightarrow> ('b, 'e, 't) library_ops \<Rightarrow> nat \<Rightarrow> u32 \<Rightarrow> nat \<Rightarrow> ('a, 'b) sync \<Rightarrow> (u32 \<times> ('a, 'b) sync) option"
where
  "AddTune S D denom srcid num w =
     (let w = Fire (OnAddFile srcid num denom) w; (destid, w) = srctodest_at srcid w in
      if destid = 0 then Some (EINVAL, w)
      else
        (let (rc, w) = CopyMetadata S D srcid destid w in
         if rc \<noteq> 0 then Some (rc, w)
         else if m_dry_run w then Some (0, w)
         else copy_content S D srcid destid w))"

section \<open>The algorithm\<close>

text \<open>The loops over the sets, with a counter.\<close>

fun each_numbered :: "(u32 \<Rightarrow> nat \<Rightarrow> 'w \<Rightarrow> (u32 \<times> 'w) option) \<Rightarrow> nat \<Rightarrow> u32 list \<Rightarrow> 'w \<Rightarrow> (u32 \<times> 'w) option" where
  "each_numbered f j [] w = Some (0, w)"
| "each_numbered f j (i # is) w = do {
     (rc, w) \<leftarrow> f i j w;
     (if rc \<noteq> 0 then Some (rc, w) else each_numbered f (j + 1) is w) }"

definition sync_scan ::
  "('a, 'c, 's) library_ops \<Rightarrow> ('b, 'e, 't) library_ops \<Rightarrow> nat \<Rightarrow> ('a, 'b) sync \<Rightarrow> (u32 \<times> ('a, 'b) sync) option" where
  "sync_scan S D n w = do {
     let w = (Fire (OnStage BEGIN) w)\<lparr>m_srcids_seen := [], m_any_deleted := False\<rparr>;
     (rc, _, w) \<leftarrow> CheckPlaylistNames S D n BROWSE_ROOT BROWSE_ROOT w;
     Some (rc, w) }"

definition sync_delete :: "('b, 'e, 't) library_ops \<Rightarrow> nat \<Rightarrow> ('a, 'b) sync \<Rightarrow> (u32 \<times> ('a, 'b) sync) option" where
  "sync_delete D n w = do {
     (rc, _, w) \<leftarrow> each (MaybeDelete D n) (m_destids_maybe_delete w) [] w;
     Some (rc, w) }"

definition sync_add ::
  "('a, 'c, 's) library_ops \<Rightarrow> ('b, 'e, 't) library_ops \<Rightarrow> nat \<Rightarrow> ('a, 'b) sync \<Rightarrow> (u32 \<times> ('a, 'b) sync) option" where
  "sync_add S D n w = do {
     (rc, _, w) \<leftarrow> each (MaybeAdd S D n) (m_srcids_maybe_add w) [] w;
     Some (rc, w) }"

definition sync_copy ::
  "('a, 'c, 's) library_ops \<Rightarrow> ('b, 'e, 't) library_ops \<Rightarrow> ('a, 'b) sync \<Rightarrow> (u32 \<times> ('a, 'b) sync) option" where
  "sync_copy S D w = do {
     (rc, w) \<leftarrow> each_numbered (AmendPlaylist S D (length (m_srcids_amend_playlist w))) 0 (m_srcids_amend_playlist w) w;
     (if rc \<noteq> 0 then Some (rc, w) else do {
     (rc, w) \<leftarrow> each_numbered (AddPlaylist S D (length (m_srcids_add_playlist w))) 0 (m_srcids_add_playlist w) w;
     (if rc \<noteq> 0 then Some (rc, w) else do {
     (rc, w) \<leftarrow> each_numbered (AddTune S D (length (m_srcids_add_tune w))) 0 (m_srcids_add_tune w) w;
     (if rc \<noteq> 0 then Some (rc, w) else do {
     (rc, w) \<leftarrow> each_numbered (AmendTune S D (length (m_srcids_amend_metadata w))) 0 (m_srcids_amend_metadata w) w;
     (if rc \<noteq> 0 then Some (rc, w) else Some (0, Fire (OnStage END) w)) }) }) }) }"

definition Synchronise ::
  "('a, 'c, 's) library_ops \<Rightarrow> ('b, 'e, 't) library_ops \<Rightarrow> nat \<Rightarrow> ('a, 'b) sync \<Rightarrow> (u32 \<times> ('a, 'b) sync) option" where
  "Synchronise S D n w = do {
     (rc, w) \<leftarrow> sync_scan S D n w;
     (if rc \<noteq> 0 then Some (rc, w) else do {
     (rc, w) \<leftarrow> sync_delete D n w;
     (if rc \<noteq> 0 then Some (rc, w) else do {
     (rc, w) \<leftarrow> sync_add S D n w;
     (if rc \<noteq> 0 then Some (rc, w) else sync_copy S D w) }) }) }"

declare match_children.simps [simp del]

end
