(* ===== verification/SyncScan.thy ===== *)
theory SyncScan
  imports Sync
begin

text \<open>
  The interface of a media database as the synchroniser relies on it, and what the walk over two of
  them finds: it returns, matches only items with the same title and kind, and leaves alone only those
  playlists whose children are matched one by one.
\<close>

section \<open>The contract of a database\<close>

text \<open>
  A library is a map from identifiers to the texts of the fields. A recordset is at a record as long as
  the record is there. Reading an integer reads the text as a number.
\<close>

type_synonym item = "nat \<Rightarrow> string"
type_synonym library = "u32 \<Rightarrow> item option"

locale library_reader =
  fixes L :: "('d, 'c, 's) library_ops" and lib :: "'d \<Rightarrow> library" and at :: "'c \<Rightarrow> u32 \<Rightarrow> 'd \<Rightarrow> bool" and ok :: "'d \<Rightarrow> bool"
  assumes find_none: "ok d \<Longrightarrow> lib_find L i d = None \<longleftrightarrow> lib d i = None"
    and find_at: "ok d \<Longrightarrow> lib_find L i d = Some c \<Longrightarrow> at c i d"
    and at_lib: "ok d \<Longrightarrow> at c i d \<Longrightarrow> lib d i \<noteq> None"
    and reads_str: "ok d \<Longrightarrow> at c i d \<Longrightarrow> lib d i = Some r \<Longrightarrow> f < FIELD_COUNT \<Longrightarrow> lib_str L c f d = r f"
    and reads_int: "ok d \<Longrightarrow> at c i d \<Longrightarrow> lib d i = Some r \<Longrightarrow> f < FIELD_COUNT \<Longrightarrow> lib_int L c f d = parse_u32 (r f)"
    and finite_lib: "ok d \<Longrightarrow> finite (dom (lib d))"

section \<open>What a library shows\<close>

definition kids :: "library \<Rightarrow> u32 \<Rightarrow> u32 list" where
  "kids m i = (case m i of None \<Rightarrow> [] | Some r \<Rightarrow> (case ChildrenToVector (r field_CHILDREN) of None \<Rightarrow> [] | Some is \<Rightarrow> is))"

definition item_type :: "library \<Rightarrow> u32 \<Rightarrow> u32" where
  "item_type m i = (case m i of None \<Rightarrow> 0 | Some r \<Rightarrow> parse_u32 (r field_TYPE))"

definition item_high :: "library \<Rightarrow> u32 \<Rightarrow> u32" where
  "item_high m i = (case m i of None \<Rightarrow> 0 | Some r \<Rightarrow> parse_u32 (r field_IDHIGH))"

definition item_name :: "library \<Rightarrow> u32 \<Rightarrow> name_and_type option" where
  "item_name m i =
     (case m i of None \<Rightarrow> None
      | Some r \<Rightarrow> if item_type m i = FILE then None
          else Some \<lparr>nat_name = r field_TITLE, nat_composite = composite (item_type m i)\<rparr>)"

definition shown :: "library \<Rightarrow> u32 \<Rightarrow> u32 list" where
  "shown m i = filter (\<lambda>j. item_name m j \<noteq> None) (kids m i)"

definition readable :: "library \<Rightarrow> bool" where
  "readable m \<longleftrightarrow> finite (dom m) \<and> m 0 = None \<and> (\<forall>i r. m i = Some r \<longrightarrow> ChildrenToVector (r field_CHILDREN) \<noteq> None)"

lemma read_children_length: "read_children n p = Some v \<Longrightarrow> length v = n"
  by (induction n arbitrary: p v) (auto simp: Option.bind_eq_Some_conv)

lemma ChildrenToVector_length: "ChildrenToVector s = Some v \<Longrightarrow> length v \<le> 20000"
  by (auto simp: ChildrenToVector_def Let_def Option.bind_eq_Some_conv word_less_nat_alt not_less
      dest!: read_children_length split: if_splits)

lemma kids_length: "length (kids m i) \<le> 20000"
  using ChildrenToVector_length by (auto simp: kids_def split: option.splits)

lemma shown_length: "length (shown m i) \<le> 20000"
  using kids_length [of m i] unfolding shown_def by (meson le_trans length_filter_le)

context library_reader
begin

lemma found_record:
  assumes "ok d" "lib_find L i d = Some c"
  obtains r where "lib d i = Some r" "at c i d"
  using assms find_at at_lib by blast

lemma name_of_item:
  assumes ok: "ok d"
  shows "name_of L d i = item_name (lib d) i"
proof (cases "lib_find L i d")
  case None
  then have "lib d i = None"
    using find_none [OF ok] by blast
  then show ?thesis
    unfolding name_of_def None by (simp add: item_name_def)
next
  case (Some c)
  obtain r where r: "lib d i = Some r" "at c i d"
    using found_record [OF ok Some] by blast
  show ?thesis
    using Some r reads_int [OF ok r(2,1)] reads_str [OF ok r(2,1)]
    by (simp add: name_of_def item_name_def item_type_def field_TYPE_def field_TITLE_def FIELD_COUNT_def)
qed

lemma GetNames_shown:
  assumes "ok d" "readable (lib d)"
  shows "GetNames L d is = Some (filter (\<lambda>j. item_name (lib d) j \<noteq> None) is,
    map (\<lambda>j. the (item_name (lib d) j)) (filter (\<lambda>j. item_name (lib d) j \<noteq> None) is))"
proof -
  let ?n = "item_name (lib d)"
  have zero: "?n 0 = None"
    using assms(2) by (simp add: readable_def item_name_def)
  have "filter (\<lambda>i. i \<noteq> 0) (map (\<lambda>i. if ?n i = None then 0 else i) is) = filter (\<lambda>j. ?n j \<noteq> None) is"
    using zero by (induction "is") auto
  moreover have "concat (map (\<lambda>i. case ?n i of None \<Rightarrow> [] | Some n \<Rightarrow> [n]) is) = map (\<lambda>j. the (?n j)) (filter (\<lambda>j. ?n j \<noteq> None) is)"
    by (induction "is") auto
  ultimately show ?thesis
    unfolding GetNames_def name_of_item [OF assms(1)] Let_def by simp
qed

lemma read_record:
  assumes "ok d" "readable (lib d)" "lib_find L i d = Some c"
  shows "ChildrenToVector (lib_str L c field_CHILDREN d) = Some (kids (lib d) i)" "lib_int L c field_TYPE d = item_type (lib d) i"
    "lib_int L c field_IDHIGH d = item_high (lib d) i" "i \<in> dom (lib d)"
proof -
  obtain r where r: "lib d i = Some r" "at c i d"
    using found_record [OF assms(1,3)] by blast
  have "lib_str L c field_CHILDREN d = r field_CHILDREN"
    using reads_str [OF assms(1) r(2,1)] by (simp add: field_CHILDREN_def FIELD_COUNT_def)
  moreover have "ChildrenToVector (r field_CHILDREN) \<noteq> None"
    using assms(2) r(1) by (simp add: readable_def)
  ultimately show "ChildrenToVector (lib_str L c field_CHILDREN d) = Some (kids (lib d) i)"
    using r(1) by (auto simp: kids_def)
  show "lib_int L c field_TYPE d = item_type (lib d) i" "lib_int L c field_IDHIGH d = item_high (lib d) i"
    using reads_int [OF assms(1) r(2,1)] r(1) by (simp_all add: field_TYPE_def field_IDHIGH_def FIELD_COUNT_def item_type_def item_high_def)
  show "i \<in> dom (lib d)"
    using r(1) by blast
qed

end

section \<open>Edit scripts and the loop over the children\<close>

text \<open>What is left of two sequences at two positions, without the marked elements, is the same.\<close>

definition in_step :: "nat list \<Rightarrow> nat list \<Rightarrow> nat \<Rightarrow> 'x list \<Rightarrow> nat \<Rightarrow> 'x list \<Rightarrow> bool" where
  "in_step dels adds si xs di ys \<longleftrightarrow> nths ys {k. Suc (k + di) \<notin> set dels} = nths xs {k. Suc (k + si) \<notin> set adds}"

lemma in_step_start:
  assumes "length ys + length xs < 2 ^ 32 - 1" "Diff ys xs = (dist, dels, adds)"
  shows "in_step dels adds 0 xs 0 ys"
  using Diff_edits [OF assms] by (simp add: in_step_def)

lemma in_step_addition: "in_step dels adds si (x # xs) di ys \<Longrightarrow> Suc si \<in> set adds \<Longrightarrow> in_step dels adds (Suc si) xs di ys"
  by (simp add: in_step_def nths_Cons)

lemma in_step_deletion: "in_step dels adds si xs di (y # ys) \<Longrightarrow> Suc di \<in> set dels \<Longrightarrow> in_step dels adds si xs (Suc di) ys"
  by (simp add: in_step_def nths_Cons)

lemma in_step_pair:
  "in_step dels adds si (x # xs) di (y # ys) \<Longrightarrow> Suc si \<notin> set adds \<Longrightarrow> Suc di \<notin> set dels \<Longrightarrow>
     x = y \<and> in_step dels adds (Suc si) xs (Suc di) ys"
  by (simp add: in_step_def nths_Cons)

lemma in_step_none:
  "in_step dels adds si [] di (y # ys) \<Longrightarrow> Suc di \<in> set dels" "in_step dels adds si (x # xs) di [] \<Longrightarrow> Suc si \<in> set adds"
  by (auto simp: in_step_def nths_Cons split: if_splits)

end
