(* ===== verification/SyncWalk.thy ===== *)
theory SyncWalk
  imports SyncScan
begin

text \<open>
  The walk of the synchroniser over both libraries (sync.cpp, \<^verbatim>\<open>CheckPlaylistNames\<close>): it
  always returns, and what it leaves in the maps and sets of the synchroniser says how the two
  libraries differ.
\<close>

section \<open>What the walk establishes\<close>

text \<open>The items the walk can come to: the root, and what is shown as a child.\<close>

definition listed :: "library \<Rightarrow> u32 set" where
  "listed m = insert BROWSE_ROOT {j. \<exists>i. j \<in> set (shown m i)}"

text \<open>High-quality versions are not children of anything.\<close>

definition high_hidden :: "library \<Rightarrow> bool" where
  "high_hidden m \<longleftrightarrow> (\<forall>i. item_high m i \<noteq> 0 \<longrightarrow> item_high m i \<notin> listed m)"

definition same_item :: "library \<Rightarrow> library \<Rightarrow> u32 \<Rightarrow> u32 \<Rightarrow> bool" where
  "same_item m m' s d \<longleftrightarrow>
     item_name m s \<noteq> None \<and> item_name m s = item_name m' d \<or>
     s = BROWSE_ROOT \<and> d = BROWSE_ROOT \<and> s \<in> dom m \<and> d \<in> dom m'"

text \<open>The item that is copied in place of another: its high-quality version, where it has one.\<close>

definition best_version :: "library \<Rightarrow> u32 \<Rightarrow> u32" where
  "best_version m s = (if item_high m s \<noteq> 0 \<and> item_high m s \<in> dom m then item_high m s else s)"

definition copied_as :: "library \<Rightarrow> library \<Rightarrow> u32 \<Rightarrow> u32 \<Rightarrow> u32" where
  "copied_as m m' s d = (if composite (item_type m' d) then s else best_version m s)"

definition matched :: "library \<Rightarrow> library \<Rightarrow> u32 \<Rightarrow> u32 \<Rightarrow> bool" where
  "matched m m' s d \<longleftrightarrow> (\<exists>s0. (s = s0 \<or> s = best_version m s0) \<and> same_item m m' s0 d)"

definition field_of :: "library \<Rightarrow> u32 \<Rightarrow> nat \<Rightarrow> string" where
  "field_of m i f = (case m i of None \<Rightarrow> [] | Some r \<Rightarrow> r f)"

definition compared_fields :: "nat list" where
  "compared_fields = [field_ARTIST, field_ALBUM, field_GENRE, field_TRACKNUMBER, field_YEAR]"

definition same_tune :: "library \<Rightarrow> library \<Rightarrow> u32 \<Rightarrow> u32 \<Rightarrow> bool" where
  "same_tune m m' s d \<longleftrightarrow>
     parse_u32 (field_of m (best_version m s) field_SIZEBYTES) = parse_u32 (field_of m' d field_SIZEBYTES) \<and>
     (\<forall>f\<in>set compared_fields. field_of m s f = field_of m' d f)"

text \<open>
  What holds of an item once its children have been walked: it has an image; its children have been
  met or are candidates for adding, those of its image are matched or candidates for deletion; and if
  it is not among the playlists to amend, its image lists the images of its children in order. An
  image that is a tune is the same tune, or marked for copying. What is marked is the item or its
  high-quality version.
\<close>

definition settled :: "library \<Rightarrow> library \<Rightarrow> ('a, 'b) sync \<Rightarrow> u32 \<Rightarrow> bool" where
  "settled m m' w s \<longleftrightarrow>
     (\<exists>d. smap_find (m_srctodest w) s = Some d \<and>
        set (shown m s) \<subseteq> set (m_srcids_seen w) \<union> set (m_srcids_maybe_add w) \<and>
        set (shown m' d) \<subseteq> dom (smap_find (m_desttosrc w)) \<union> set (m_destids_maybe_delete w) \<and>
        (copied_as m m' s d \<in> set (m_srcids_amend_playlist w) \<or>
           set (shown m s) \<subseteq> set (m_srcids_seen w) \<and> map (smap_find (m_srctodest w)) (shown m s) = map Some (shown m' d)) \<and>
        (composite (item_type m' d) \<or> same_tune m m' s d \<or>
           best_version m s \<in> set (m_srcids_add_tune w) \<union> set (m_srcids_amend_metadata w)))"

definition scan_inv :: "library \<Rightarrow> library \<Rightarrow> ('a, 'b) sync \<Rightarrow> bool" where
  "scan_inv m m' w \<longleftrightarrow>
     smap_ok (m_srctodest w) \<and> smap_ok (m_desttosrc w) \<and>
     sset_ok (m_srcids_amend_playlist w) \<and> sset_ok (m_srcids_add_tune w) \<and> sset_ok (m_srcids_amend_metadata w) \<and>
     dom (smap_find (m_srctodest w)) \<subseteq> set (m_srcids_seen w) \<union> best_version m ` set (m_srcids_seen w) \<and>
     set (m_srcids_maybe_add w) \<subseteq> listed m \<and>
     set (m_srcids_seen w) \<subseteq> listed m \<inter> dom m \<inter> dom (smap_find (m_srctodest w)) \<and>
     (\<forall>s\<in>set (m_srcids_seen w). \<forall>d. smap_find (m_srctodest w) s = Some d \<longrightarrow>
        same_item m m' s d \<and> d \<in> dom (smap_find (m_desttosrc w))) \<and>
     (\<forall>s d. smap_find (m_srctodest w) s = Some d \<longrightarrow> matched m m' s d) \<and>
     (\<forall>s d. smap_find (m_desttosrc w) d = Some s \<longrightarrow> matched m m' s d \<and> d \<in> dom m') \<and>
     (\<forall>b\<in>set (m_srcids_amend_playlist w). \<exists>s d. b = copied_as m m' s d \<and> s \<in> set (m_srcids_seen w) \<and> same_item m m' s d) \<and>
     (\<forall>b\<in>set (m_srcids_add_tune w) \<union> set (m_srcids_amend_metadata w).
        \<exists>s d. b = best_version m s \<and> s \<in> set (m_srcids_seen w) \<and> same_item m m' s d \<and> \<not> composite (item_type m' d))"

lemma scan_inv_seen:
  assumes "scan_inv m m' w" "s \<in> set (m_srcids_seen w)"
  obtains d where "smap_find (m_srctodest w) s = Some d" "same_item m m' s d" "d \<in> dom (smap_find (m_desttosrc w))" "s \<in> listed m" "s \<in> dom m"
proof -
  have "set (m_srcids_seen w) \<subseteq> listed m \<inter> dom m \<inter> dom (smap_find (m_srctodest w))"
    "\<forall>d. smap_find (m_srctodest w) s = Some d \<longrightarrow> same_item m m' s d \<and> d \<in> dom (smap_find (m_desttosrc w))"
    using assms unfolding scan_inv_def by simp_all
  then show thesis
    using assms(2) that by (meson IntD1 IntD2 domD subsetD)
qed

text \<open>What the walk only adds to, and what it leaves alone.\<close>

definition frame :: "('a, 'b) sync \<Rightarrow> ('a, 'b) sync \<Rightarrow> bool" where
  "frame w w' \<longleftrightarrow> m_src w' = m_src w \<and> m_dest w' = m_dest w \<and> m_dry_run w' = m_dry_run w \<and> fired w' = fired w \<and>
     m_any_deleted w' = m_any_deleted w \<and> m_srcids_add_playlist w' = m_srcids_add_playlist w"

definition extends :: "('a, 'b) sync \<Rightarrow> ('a, 'b) sync \<Rightarrow> bool" where
  "extends w w' \<longleftrightarrow>
     set (m_srcids_seen w) \<subseteq> set (m_srcids_seen w') \<and> set (m_srcids_maybe_add w) \<subseteq> set (m_srcids_maybe_add w') \<and>
     set (m_destids_maybe_delete w) \<subseteq> set (m_destids_maybe_delete w') \<and>
     set (m_srcids_add_tune w) \<subseteq> set (m_srcids_add_tune w') \<and>
     set (m_srcids_amend_metadata w) \<subseteq> set (m_srcids_amend_metadata w') \<and>
     set (m_srcids_amend_playlist w) \<subseteq> set (m_srcids_amend_playlist w') \<and>
     dom (smap_find (m_desttosrc w)) \<subseteq> dom (smap_find (m_desttosrc w')) \<and>
     (\<forall>s\<in>set (m_srcids_seen w). smap_find (m_srctodest w') s = smap_find (m_srctodest w) s)"

definition walked :: "library \<Rightarrow> library \<Rightarrow> ('a, 'b) sync \<Rightarrow> ('a, 'b) sync \<Rightarrow> bool" where
  "walked m m' w w' \<longleftrightarrow> frame w w' \<and> extends w w' \<and> scan_inv m m' w' \<and>
     (\<forall>s\<in>set (m_srcids_seen w') - set (m_srcids_seen w). settled m m' w' s)"

lemma extends_refl [simp]: "extends w w"
  by (simp add: extends_def)

lemma extends_trans: "extends w w' \<Longrightarrow> extends w' w'' \<Longrightarrow> extends w w''"
  unfolding extends_def by (auto simp: subset_iff)

lemma frame_refl [simp]: "frame w w"
  by (simp add: frame_def)

lemma frame_trans: "frame w w' \<Longrightarrow> frame w' w'' \<Longrightarrow> frame w w''"
  by (simp add: frame_def)

lemma images_kept:
  assumes "extends w w'" "set xs \<subseteq> set (m_srcids_seen w)"
  shows "map (smap_find (m_srctodest w')) xs = map (smap_find (m_srctodest w)) xs"
  using assms by (auto simp: extends_def)

lemma settled_extends:
  assumes e: "extends w w'" and s: "s \<in> set (m_srcids_seen w)" and st: "settled m m' w s"
  shows "settled m m' w' s"
proof -
  obtain d where d: "smap_find (m_srctodest w) s = Some d"
    "set (shown m s) \<subseteq> set (m_srcids_seen w) \<union> set (m_srcids_maybe_add w)"
    "set (shown m' d) \<subseteq> dom (smap_find (m_desttosrc w)) \<union> set (m_destids_maybe_delete w)"
    "copied_as m m' s d \<in> set (m_srcids_amend_playlist w) \<or>
       set (shown m s) \<subseteq> set (m_srcids_seen w) \<and> map (smap_find (m_srctodest w)) (shown m s) = map Some (shown m' d)"
    "composite (item_type m' d) \<or> same_tune m m' s d \<or> best_version m s \<in> set (m_srcids_add_tune w) \<union> set (m_srcids_amend_metadata w)"
    using st unfolding settled_def by blast
  have "smap_find (m_srctodest w') s = Some d"
    using e s d(1) by (simp add: extends_def)
  moreover have "set (shown m s) \<subseteq> set (m_srcids_seen w') \<union> set (m_srcids_maybe_add w')"
    using e d(2) unfolding extends_def by blast
  moreover have "set (shown m' d) \<subseteq> dom (smap_find (m_desttosrc w')) \<union> set (m_destids_maybe_delete w')"
    using e d(3) unfolding extends_def by blast
  moreover have "copied_as m m' s d \<in> set (m_srcids_amend_playlist w') \<or>
      set (shown m s) \<subseteq> set (m_srcids_seen w') \<and> map (smap_find (m_srctodest w')) (shown m s) = map Some (shown m' d)"
  proof (cases "copied_as m m' s d \<in> set (m_srcids_amend_playlist w)")
    case True
    then show ?thesis
      using e unfolding extends_def by blast
  next
    case False
    then have "set (shown m s) \<subseteq> set (m_srcids_seen w)" "map (smap_find (m_srctodest w)) (shown m s) = map Some (shown m' d)"
      using d(4) by blast+
    then show ?thesis
      using images_kept [OF e, of "shown m s"] e unfolding extends_def by auto
  qed
  moreover have "composite (item_type m' d) \<or> same_tune m m' s d \<or> best_version m s \<in> set (m_srcids_add_tune w') \<union> set (m_srcids_amend_metadata w')"
    using e d(5) unfolding extends_def by blast
  ultimately show ?thesis
    unfolding settled_def by blast
qed

lemma walked_refl: "scan_inv m m' w \<Longrightarrow> walked m m' w w"
  by (simp add: walked_def)

lemma walked_trans: "walked m m' w w' \<Longrightarrow> walked m m' w' w'' \<Longrightarrow> walked m m' w w''"
  unfolding walked_def using extends_trans [of w w' w''] frame_trans [of w w' w''] settled_extends [of w' w'' _ m m'] by blast

section \<open>The children of one pair\<close>

text \<open>What visiting a pair of items comes to.\<close>

definition visited :: "library \<Rightarrow> library \<Rightarrow> u32 \<Rightarrow> u32 \<Rightarrow> ('a, 'b) sync \<Rightarrow> (u32 \<times> bool \<times> ('a, 'b) sync) option \<Rightarrow> bool" where
  "visited m m' s d w r \<longleftrightarrow>
     (\<exists>a w'. r = Some (0, a, w') \<and> walked m m' w w' \<and> s \<in> set (m_srcids_seen w') \<and>
        d \<in> dom (smap_find (m_desttosrc w')) \<union> set (m_destids_maybe_delete w') \<and>
        (\<not> a \<or> s \<notin> set (m_srcids_seen w) \<longrightarrow> smap_find (m_srctodest w') s = Some d))"

definition children_visited ::
  "library \<Rightarrow> library \<Rightarrow> u32 list \<Rightarrow> u32 list \<Rightarrow> bool \<Rightarrow> ('a, 'b) sync \<Rightarrow> (u32 \<times> bool \<times> ('a, 'b) sync) option \<Rightarrow> bool"
where
  "children_visited m m' xs ys amend w r \<longleftrightarrow>
     (\<exists>a w'. r = Some (0, a, w') \<and> walked m m' w w' \<and> (amend \<longrightarrow> a) \<and>
        set xs \<subseteq> set (m_srcids_seen w') \<union> set (m_srcids_maybe_add w') \<and>
        set ys \<subseteq> dom (smap_find (m_desttosrc w')) \<union> set (m_destids_maybe_delete w') \<and>
        (\<not> a \<longrightarrow> set xs \<subseteq> set (m_srcids_seen w') \<and> map (smap_find (m_srctodest w')) xs = map Some ys))"

lemma walked_kept:
  assumes "walked m m' w w'"
  shows "set (m_srcids_seen w) \<subseteq> set (m_srcids_seen w')" "set (m_srcids_maybe_add w) \<subseteq> set (m_srcids_maybe_add w')"
    "dom (smap_find (m_desttosrc w)) \<union> set (m_destids_maybe_delete w) \<subseteq>
       dom (smap_find (m_desttosrc w')) \<union> set (m_destids_maybe_delete w')"
    "s \<in> set (m_srcids_seen w) \<Longrightarrow> smap_find (m_srctodest w') s = smap_find (m_srctodest w) s"
  using assms unfolding walked_def extends_def by blast+

lemma walked_candidates:
  assumes "scan_inv m m' w"
  shows "s \<in> listed m \<Longrightarrow> walked m m' w (w\<lparr>m_srcids_maybe_add := sset_insert s (m_srcids_maybe_add w)\<rparr>)"
    "walked m m' w (w\<lparr>m_destids_maybe_delete := sset_insert d (m_destids_maybe_delete w)\<rparr>)"
  using assms by (auto simp: walked_def frame_def extends_def scan_inv_def)

lemma children_visited_step:
  assumes "walked m m' w w'" "children_visited m m' xs ys a w' r" "amend \<longrightarrow> a"
    and "set xs' \<subseteq> set xs \<union> set (m_srcids_seen w') \<union> set (m_srcids_maybe_add w')"
    and "set ys' \<subseteq> set ys \<union> dom (smap_find (m_desttosrc w')) \<union> set (m_destids_maybe_delete w')"
    and "a \<or> set xs' \<subseteq> set xs \<union> set (m_srcids_seen w') \<and>
      (\<forall>w''. walked m m' w' w'' \<longrightarrow> map (smap_find (m_srctodest w'')) xs = map Some ys \<longrightarrow>
         map (smap_find (m_srctodest w'')) xs' = map Some ys')"
  shows "children_visited m m' xs' ys' amend w r"
proof -
  obtain a' w'' where r: "r = Some (0, a', w'')" "walked m m' w' w''" "a \<longrightarrow> a'"
    "set xs \<subseteq> set (m_srcids_seen w'') \<union> set (m_srcids_maybe_add w'')"
    "set ys \<subseteq> dom (smap_find (m_desttosrc w'')) \<union> set (m_destids_maybe_delete w'')"
    "\<not> a' \<longrightarrow> set xs \<subseteq> set (m_srcids_seen w'') \<and> map (smap_find (m_srctodest w'')) xs = map Some ys"
    using assms(2) unfolding children_visited_def by blast
  note kept = walked_kept [OF r(2)]
  have "set xs' \<subseteq> set (m_srcids_seen w'') \<union> set (m_srcids_maybe_add w'')"
    using assms(4) r(4) kept(1,2) by blast
  moreover have "set ys' \<subseteq> dom (smap_find (m_desttosrc w'')) \<union> set (m_destids_maybe_delete w'')"
    using assms(5) r(5) kept(3) by blast
  moreover have "\<not> a' \<longrightarrow> set xs' \<subseteq> set (m_srcids_seen w'') \<and> map (smap_find (m_srctodest w'')) xs' = map Some ys'"
    using assms(6) r(2,3,6) kept(1) by blast
  ultimately show ?thesis
    unfolding children_visited_def using r(1,3) assms(3) walked_trans [OF assms(1) r(2)] by blast
qed

lemma match_children_visited:
  fixes w :: "('a, 'b) sync"
  assumes check: "\<And>s d w. P w \<Longrightarrow> s \<in> listed m \<Longrightarrow> item_name m s \<noteq> None \<Longrightarrow> item_name m s = item_name m' d \<Longrightarrow>
      visited m m' s d w (check s d w)"
    and P: "\<And>w w'. P w \<Longrightarrow> walked m m' w w' \<Longrightarrow> P w'" "\<And>w. P w \<Longrightarrow> scan_inv m m' w"
  shows "P w \<Longrightarrow> in_step dels adds si (map (item_name m) xs) di (map (item_name m') ys) \<Longrightarrow>
    set xs \<subseteq> listed m \<Longrightarrow> None \<notin> item_name m ` set xs \<Longrightarrow>
    children_visited m m' xs ys amend w (match_children check dels adds si xs di ys amend w)"
proof (induction "length xs + length ys" arbitrary: si xs di ys amend w rule: less_induct)
  case less
  have inv: "scan_inv m m' w"
    by (rule P(2)) (rule less.prems)
  consider (addition) x xs' where "xs = x # xs'" "si + 1 \<in> set adds"
    | (deletion) y ys' where "ys = y # ys'" "di + 1 \<in> set dels" "xs = [] \<or> si + 1 \<notin> set adds"
    | (none) "xs = []" "ys = []"
    | (pair) x xs' y ys' where "xs = x # xs'" "ys = y # ys'" "si + 1 \<notin> set adds" "di + 1 \<notin> set dels"
  proof (cases xs)
    case Nil
    then show thesis
      using in_step_none(1) less.prems(2) that(2,3) by (cases ys) force+
  next
    case (Cons x xs')
    then show thesis
      using in_step_none(2) less.prems(2) that(1,2,4) by (cases ys) force+
  qed
  then show ?case
  proof cases
    case addition
    let ?w = "w\<lparr>m_srcids_maybe_add := sset_insert x (m_srcids_maybe_add w)\<rparr>"
    have s: "walked m m' w ?w"
      using less.prems(3) addition(1) by (intro walked_candidates(1) [OF inv]) simp
    have "children_visited m m' xs' ys True ?w (match_children check dels adds (si + 1) xs' di ys True ?w)"
      using less.prems addition P(1) [OF _ s] in_step_addition [of dels adds si "item_name m x"] by (intro less.hyps) auto
    from children_visited_step [OF s this, of amend "x # xs'" ys] show ?thesis
      using addition by (subst match_children.simps) auto
  next
    case deletion
    let ?w = "w\<lparr>m_destids_maybe_delete := sset_insert y (m_destids_maybe_delete w)\<rparr>"
    have s: "walked m m' w ?w"
      by (rule walked_candidates(2) [OF inv])
    have "children_visited m m' xs ys' True ?w (match_children check dels adds si xs (di + 1) ys' True ?w)"
      using less.prems deletion P(1) [OF _ s] in_step_deletion [of dels adds si _ di "item_name m' y"] by (intro less.hyps) auto
    from children_visited_step [OF s this, of amend xs "y # ys'"] show ?thesis
      using deletion by (subst match_children.simps) auto
  next
    case none
    then show ?thesis
      using walked_refl [OF inv] by (subst match_children.simps) (auto simp: children_visited_def)
  next
    case pair
    have n: "item_name m x = item_name m' y" "in_step dels adds (si + 1) (map (item_name m) xs') (di + 1) (map (item_name m') ys')"
      using less.prems(2) pair in_step_pair [of dels adds si "item_name m x" _ di "item_name m' y"] by auto
    have "x \<in> listed m" "item_name m x \<noteq> None"
      using less.prems(3,4) pair(1) by force+
    then have "visited m m' x y w (check x y w)"
      using check [OF less.prems(1)] n(1) by blast
    then obtain a w' where c: "check x y w = Some (0, a, w')" "walked m m' w w'" "x \<in> set (m_srcids_seen w')"
      "y \<in> dom (smap_find (m_desttosrc w')) \<union> set (m_destids_maybe_delete w')" "\<not> a \<longrightarrow> smap_find (m_srctodest w') x = Some y"
      unfolding visited_def by blast
    have "children_visited m m' xs' ys' (amend \<or> a) w' (match_children check dels adds (si + 1) xs' (di + 1) ys' (amend \<or> a) w')"
      using less.prems(3,4) pair n(2) P(1) [OF less.prems(1) c(2)] by (intro less.hyps) auto
    from children_visited_step [OF c(2) this, of amend "x # xs'" "y # ys'"]
    have "children_visited m m' (x # xs') (y # ys') amend w (match_children check dels adds (si + 1) xs' (di + 1) ys' (amend \<or> a) w')"
      using c(3,4,5) walked_kept(4) [of m m' w' _ x] by auto
    then show ?thesis
      using pair c(1) by (subst match_children.simps) simp
  qed
qed

section \<open>One pair\<close>

text \<open>The state once a pair of items has been entered in the maps.\<close>

definition entered :: "library \<Rightarrow> library \<Rightarrow> u32 \<Rightarrow> u32 \<Rightarrow> ('a, 'b) sync \<Rightarrow> ('a, 'b) sync \<Rightarrow> bool" where
  "entered m m' s d w w' \<longleftrightarrow> frame w w' \<and> extends w w' \<and> scan_inv m m' w' \<and>
     set (m_srcids_seen w') = insert s (set (m_srcids_seen w)) \<and> smap_find (m_srctodest w') s = Some d \<and>
     (composite (item_type m' d) \<or> same_tune m m' s d \<or> best_version m s \<in> set (m_srcids_add_tune w') \<union> set (m_srcids_amend_metadata w'))"

definition enter :: "library \<Rightarrow> u32 \<Rightarrow> u32 \<Rightarrow> u32 \<Rightarrow> ('a, 'b) sync \<Rightarrow> ('a, 'b) sync" where
  "enter m s b d w = w\<lparr>m_srcids_seen := sset_insert s (m_srcids_seen w),
     m_desttosrc := smap_set d b (m_desttosrc w),
     m_srctodest := smap_set b d (smap_set s d (m_srctodest w))\<rparr>"

lemma enter_entered:
  assumes inv: "scan_inv m m' w" and h: "high_hidden m" and s: "s \<in> listed m" "s \<in> dom m" "s \<notin> set (m_srcids_seen w)"
    and d: "same_item m m' s d" "d \<in> dom m'" and b: "b = s \<or> b = best_version m s"
  shows "frame w (enter m s b d w)" "extends w (enter m s b d w)" "scan_inv m m' (enter m s b d w)"
    "smap_find (m_srctodest (enter m s b d w)) s = Some d"
proof -
  have out: "b = s \<or> b \<notin> listed m"
    using b h by (auto simp: best_version_def high_hidden_def split: if_splits)
  have seen: "set (m_srcids_seen w) \<subseteq> listed m" and ok: "smap_ok (m_srctodest w)" "smap_ok (m_desttosrc w)"
    using inv by (auto simp: scan_inv_def)
  have "matched m m' s d" "matched m m' b d"
    using d(1) b by (auto simp: matched_def)
  note m = this
  let ?w = "enter m s b d w"
  have f: "smap_find (m_srctodest ?w) x = (if x = b \<or> x = s then Some d else smap_find (m_srctodest w) x)"
    "smap_find (m_desttosrc ?w) x = (if x = d then Some b else smap_find (m_desttosrc w) x)"
    "set (m_srcids_seen ?w) = insert s (set (m_srcids_seen w))" "smap_ok (m_srctodest ?w)" "smap_ok (m_desttosrc ?w)"
    "m_srcids_amend_playlist ?w = m_srcids_amend_playlist w" "m_srcids_add_tune ?w = m_srcids_add_tune w"
    "m_srcids_amend_metadata ?w = m_srcids_amend_metadata w" for x
    using ok by (simp_all add: enter_def)
  have "set (m_srcids_seen ?w) \<subseteq> listed m \<inter> dom m \<inter> dom (smap_find (m_srctodest ?w))"
    using inv s(1,2) unfolding scan_inv_def f(3) by (auto simp: f(1))
  moreover have "dom (smap_find (m_srctodest ?w)) \<subseteq> set (m_srcids_seen ?w) \<union> best_version m ` set (m_srcids_seen ?w)"
  proof -
    have "dom (smap_find (m_srctodest ?w)) \<subseteq> {b, s} \<union> dom (smap_find (m_srctodest w))"
      by (auto simp: f(1) split: if_splits)
    moreover have "dom (smap_find (m_srctodest w)) \<subseteq> set (m_srcids_seen w) \<union> best_version m ` set (m_srcids_seen w)"
      using inv by (simp add: scan_inv_def)
    ultimately show ?thesis
      using b unfolding f(3) by blast
  qed
  moreover have "sset_ok (m_srcids_amend_playlist ?w)" "sset_ok (m_srcids_add_tune ?w)" "sset_ok (m_srcids_amend_metadata ?w)"
    "set (m_srcids_maybe_add ?w) \<subseteq> listed m"
    using inv unfolding scan_inv_def f by (simp_all add: enter_def)
  moreover have "same_item m m' x y \<and> y \<in> dom (smap_find (m_desttosrc ?w))"
    if "x \<in> set (m_srcids_seen ?w)" "smap_find (m_srctodest ?w) x = Some y" for x y
  proof (cases "x = s")
    case True
    then have "y = d"
      using that(2) f(1) [of s] by simp
    then show ?thesis
      using True d(1) f(2) [of d] by auto
  next
    case False
    then have "x \<in> set (m_srcids_seen w)" "smap_find (m_srctodest w) x = Some y"
      using that out seen s(3) b by (auto simp: f split: if_splits)
    then have "same_item m m' x y" "y \<in> dom (smap_find (m_desttosrc w))"
      using inv unfolding scan_inv_def by blast+
    then show ?thesis
      by (auto simp: f)
  qed
  moreover have "matched m m' x y" if "smap_find (m_srctodest ?w) x = Some y" for x y
    using that m inv unfolding scan_inv_def f by (auto split: if_splits)
  moreover have "matched m m' x y \<and> y \<in> dom m'" if "smap_find (m_desttosrc ?w) y = Some x" for x y
    using that m(2) d(2) inv unfolding scan_inv_def f by (auto split: if_splits)
  moreover have "\<forall>b\<in>set (m_srcids_amend_playlist ?w). \<exists>s d. b = copied_as m m' s d \<and> s \<in> set (m_srcids_seen ?w) \<and> same_item m m' s d"
    "\<forall>b\<in>set (m_srcids_add_tune ?w) \<union> set (m_srcids_amend_metadata ?w).
        \<exists>s d. b = best_version m s \<and> s \<in> set (m_srcids_seen ?w) \<and> same_item m m' s d \<and> \<not> composite (item_type m' d)"
    using inv unfolding scan_inv_def f by blast+
  ultimately show "scan_inv m m' ?w"
    using f(4,5) unfolding scan_inv_def by blast
  show "extends w (enter m s b d w)"
    using seen ok s out by (auto simp: enter_def extends_def)
  show "frame w (enter m s b d w)" "smap_find (m_srctodest (enter m s b d w)) s = Some d"
    using ok by (simp_all add: enter_def frame_def)
qed

text \<open>Once the children of a pair are visited, the pair is visited.\<close>

lemma entered_visited:
  assumes new: "s \<notin> set (m_srcids_seen w)" and e: "entered m m' s d w w'" and c: "children_visited m m' (shown m s) (shown m' d) False w' r"
    and t: "\<And>a w''. r = Some (0, a, w'') \<Longrightarrow> r' =
      Some (0, False, if a then w''\<lparr>m_srcids_amend_playlist := sset_insert b (m_srcids_amend_playlist w'')\<rparr> else w'')"
    and b: "b = copied_as m m' s d" and d: "same_item m m' s d"
  shows "visited m m' s d w r'"
proof -
  obtain a w'' where r: "r = Some (0, a, w'')" and wk: "walked m m' w' w''"
    and ch: "set (shown m s) \<subseteq> set (m_srcids_seen w'') \<union> set (m_srcids_maybe_add w'')"
      "set (shown m' d) \<subseteq> dom (smap_find (m_desttosrc w'')) \<union> set (m_destids_maybe_delete w'')"
      "\<not> a \<longrightarrow> set (shown m s) \<subseteq> set (m_srcids_seen w'') \<and> map (smap_find (m_srctodest w'')) (shown m s) = map Some (shown m' d)"
    using c unfolding children_visited_def by blast
  define z where "z = (if a then w''\<lparr>m_srcids_amend_playlist := sset_insert b (m_srcids_amend_playlist w'')\<rparr> else w'')"
  have zs: "m_srcids_seen z = m_srcids_seen w''" "m_srctodest z = m_srctodest w''" "m_desttosrc z = m_desttosrc w''"
    "m_srcids_maybe_add z = m_srcids_maybe_add w''" "m_destids_maybe_delete z = m_destids_maybe_delete w''"
    "m_srcids_add_tune z = m_srcids_add_tune w''" "m_srcids_amend_metadata z = m_srcids_amend_metadata w''"
    by (simp_all add: z_def)
  have "s \<in> set (m_srcids_seen w'')"
    using walked_kept(1) [OF wk] e by (auto simp: entered_def)
  then have ez: "extends w'' z" "frame w'' z" and iz: "scan_inv m m' z"
    using wk b d by (auto simp: z_def extends_def frame_def walked_def scan_inv_def)
  have s: "s \<in> set (m_srcids_seen w')" "smap_find (m_srctodest w') s = Some d"
    using e by (auto simp: entered_def)
  have img: "smap_find (m_srctodest z) s = Some d" "s \<in> set (m_srcids_seen z)"
    using walked_kept(1) [OF wk] walked_kept(4) [OF wk, of s] s zs by auto
  have tunes: "set (m_srcids_add_tune w') \<union> set (m_srcids_amend_metadata w') \<subseteq> set (m_srcids_add_tune z) \<union> set (m_srcids_amend_metadata z)"
    using wk zs unfolding walked_def extends_def by auto
  have am: "a \<Longrightarrow> b \<in> set (m_srcids_amend_playlist z)"
    by (simp add: z_def)
  have "b \<in> set (m_srcids_amend_playlist z) \<or>
      set (shown m s) \<subseteq> set (m_srcids_seen z) \<and> map (smap_find (m_srctodest z)) (shown m s) = map Some (shown m' d)"
    using am ch(3) zs(1,2) by auto
  moreover have "composite (item_type m' d) \<or> same_tune m m' s d \<or> best_version m s \<in> set (m_srcids_add_tune z) \<union> set (m_srcids_amend_metadata z)"
    using e tunes unfolding entered_def by blast
  ultimately have "settled m m' z s"
    unfolding settled_def using img(1) ch(1,2) zs b by (intro exI [of _ d]) simp
  moreover have "settled m m' z x" if "x \<in> set (m_srcids_seen z) - set (m_srcids_seen w)" "x \<noteq> s" for x
  proof -
    have "x \<in> set (m_srcids_seen w'') - set (m_srcids_seen w')"
      using that e zs(1) by (auto simp: entered_def)
    then show ?thesis
      using wk settled_extends [OF ez(1)] unfolding walked_def by blast
  qed
  moreover have "frame w z" "extends w z"
    using e wk ez frame_trans [of w w'] frame_trans [of w w'' z] extends_trans [of w w'] extends_trans [of w w'' z]
    unfolding entered_def walked_def by blast+
  ultimately have "walked m m' w z"
    using iz unfolding walked_def by blast
  moreover have "d \<in> dom (smap_find (m_desttosrc z))"
    using iz img unfolding scan_inv_def by blast
  ultimately show ?thesis
    unfolding visited_def using t [OF r] img by (auto simp: z_def [symmetric])
qed

end
