(* ===== verification/SyncFind.thy ===== *)
theory SyncFind
  imports SyncWalk
begin

text \<open>
  Two libraries side by side: what \<^verbatim>\<open>CheckPlaylistNames\<close> does on any pair of databases that
  keep the contract of a database.
\<close>

section \<open>Two tunes\<close>

text \<open>The mark that a pair of tunes gets.\<close>

definition tune_marks :: "library \<Rightarrow> library \<Rightarrow> u32 \<Rightarrow> u32 \<Rightarrow> ('a, 'b) sync \<Rightarrow> ('a, 'b) sync" where
  "tune_marks m m' s d w =
     (if parse_u32 (field_of m (best_version m s) field_SIZEBYTES) \<noteq> parse_u32 (field_of m' d field_SIZEBYTES) then
        w\<lparr>m_srcids_add_tune := sset_insert (best_version m s) (m_srcids_add_tune w)\<rparr>
      else if \<exists>f\<in>set compared_fields. field_of m s f \<noteq> field_of m' d f then
        w\<lparr>m_srcids_amend_metadata := sset_insert (best_version m s) (m_srcids_amend_metadata w),
          m_statistics := (m_statistics w)\<lparr>files_modified := files_modified (m_statistics w) + 1\<rparr>\<rparr>
      else w)"

lemma tune_marks_facts:
  shows "frame w (tune_marks m m' s d w)" "extends w (tune_marks m m' s d w)"
    "m_srcids_seen (tune_marks m m' s d w) = m_srcids_seen w"
    "same_tune m m' s d \<or> best_version m s \<in> set (m_srcids_add_tune (tune_marks m m' s d w)) \<union> set (m_srcids_amend_metadata (tune_marks m m' s d w))"
  by (auto simp: tune_marks_def frame_def extends_def scan_inv_def same_tune_def)

lemma tune_marks_inv:
  assumes "scan_inv m m' w" "s \<in> set (m_srcids_seen w)" "same_item m m' s d" "\<not> composite (item_type m' d)"
  shows "scan_inv m m' (tune_marks m m' s d w)"
proof -
  have marks: "set (m_srcids_add_tune (tune_marks m m' s d w)) \<union> set (m_srcids_amend_metadata (tune_marks m m' s d w)) \<subseteq>
      insert (best_version m s) (set (m_srcids_add_tune w) \<union> set (m_srcids_amend_metadata w))"
    "m_srcids_amend_playlist (tune_marks m m' s d w) = m_srcids_amend_playlist w"
    "m_srctodest (tune_marks m m' s d w) = m_srctodest w" "m_desttosrc (tune_marks m m' s d w) = m_desttosrc w"
    "m_srcids_maybe_add (tune_marks m m' s d w) = m_srcids_maybe_add w"
    by (auto simp: tune_marks_def)
  have "sset_ok (m_srcids_add_tune w) \<Longrightarrow> sset_ok (m_srcids_add_tune (tune_marks m m' s d w))"
    "sset_ok (m_srcids_amend_metadata w) \<Longrightarrow> sset_ok (m_srcids_amend_metadata (tune_marks m m' s d w))"
    by (simp_all add: tune_marks_def)
  note sorted = this
  note eqs = marks(2-) tune_marks_facts(3) [of m m' s d w]
  have "\<forall>b\<in>insert (best_version m s) (set (m_srcids_add_tune w) \<union> set (m_srcids_amend_metadata w)).
        \<exists>s d. b = best_version m s \<and> s \<in> set (m_srcids_seen w) \<and> same_item m m' s d \<and> \<not> composite (item_type m' d)"
    using assms unfolding scan_inv_def by blast
  then show ?thesis
    using assms(1) marks(1) sorted unfolding scan_inv_def eqs by blast
qed

lemma marks_enter: "enter m s b d (tune_marks m m' s d w) = tune_marks m m' s d (enter m s b d w)"
  by (simp add: enter_def tune_marks_def)

lemma marked_entered:
  assumes inv: "scan_inv m m' w" and h: "high_hidden m" and s: "s \<in> listed m" "s \<in> dom m" "s \<notin> set (m_srcids_seen w)"
    and d: "same_item m m' s d" "d \<in> dom m'" and t: "\<not> composite (item_type m' d)"
  shows "entered m m' s d w (enter m s (best_version m s) d (tune_marks m m' s d w))"
proof -
  let ?w = "enter m s (best_version m s) d w"
  note e = enter_entered [OF inv h s d, of "best_version m s", OF disjI2 [OF refl]]
  note f = tune_marks_facts [where m = m and m' = m' and s = s and d = d and w = ?w]
  have seen: "set (m_srcids_seen ?w) = insert s (set (m_srcids_seen w))"
    by (simp add: enter_def)
  have "m_srctodest (tune_marks m m' s d ?w) = m_srctodest ?w"
    by (simp add: tune_marks_def)
  then show ?thesis
    unfolding entered_def marks_enter using e(4) f(3,4) seen frame_trans [OF e(1) f(1)] extends_trans [OF e(2) f(2)]
      tune_marks_inv [OF e(3) _ d(1) t] by simp
qed

lemma plain_entered:
  assumes inv: "scan_inv m m' w" and h: "high_hidden m" and s: "s \<in> listed m" "s \<in> dom m" "s \<notin> set (m_srcids_seen w)"
    and d: "same_item m m' s d" "d \<in> dom m'" and t: "composite (item_type m' d)"
  shows "entered m m' s d w (enter m s s d w)"
  using enter_entered [OF inv h s d, of s] t by (auto simp: entered_def enter_def)

lemma smap_set_again [simp]: "smap_set k v (smap_set k v m) = smap_set k v m"
  by (induction k v m rule: smap_set.induct) auto

context library_reader
begin

lemma field_read:
  assumes "ok x" "at c i x" "f < FIELD_COUNT"
  shows "lib_str L c f x = field_of (lib x) i f" "lib_int L c f x = parse_u32 (field_of (lib x) i f)"
  using assms at_lib [OF assms(1,2)] reads_str [OF assms(1,2)] reads_int [OF assms(1,2)] by (auto simp: field_of_def)

lemma high_read:
  assumes "ok x"
  shows "(if item_high (lib x) i \<noteq> 0 then lib_find L (item_high (lib x) i) x else None) = None \<longleftrightarrow> best_version (lib x) i = i \<and>
      \<not> (item_high (lib x) i \<noteq> 0 \<and> item_high (lib x) i \<in> dom (lib x))"
    "(if item_high (lib x) i \<noteq> 0 then lib_find L (item_high (lib x) i) x else None) = Some c \<Longrightarrow>
       best_version (lib x) i = item_high (lib x) i \<and> at c (item_high (lib x) i) x"
  using assms find_none [OF assms] find_at [OF assms] at_lib [OF assms]
  by (auto simp: best_version_def domIff split: if_splits) (metis option.distinct(1))

end

locale two_libraries =
  src: library_reader S libS atS okS + dest: library_reader D libD atD okD
  for S :: "('a, 'c, 's) library_ops" and libS atS okS and D :: "('b, 'e, 't) library_ops" and libD atD okD
begin

lemma check_tune_marks:
  fixes w :: "('a, 'b) sync"
  assumes ok: "okS (m_src w)" "okD (m_dest w)" and l: "libS (m_src w) = m" "libD (m_dest w) = m'"
    and at: "atS srcrs s (m_src w)" "atD destrs d (m_dest w)"
  shows "\<exists>w'. check_tune S D s srcrs d destrs (w\<lparr>m_srcids_seen := sset_insert s (m_srcids_seen w)\<rparr>) = (best_version m s, w') \<and>
    w'\<lparr>m_desttosrc := smap_set d (best_version m s) (m_desttosrc w'), m_srctodest := smap_set (best_version m s) d (m_srctodest w')\<rparr> =
      enter m s (best_version m s) d (tune_marks m m' s d w)"
proof -
  have small: "field_SIZEBYTES < FIELD_COUNT" "field_IDHIGH < FIELD_COUNT" "field_ARTIST < FIELD_COUNT" "field_ALBUM < FIELD_COUNT"
    "field_GENRE < FIELD_COUNT" "field_TRACKNUMBER < FIELD_COUNT" "field_YEAR < FIELD_COUNT"
    by (simp_all add: field_SIZEBYTES_def field_IDHIGH_def field_ARTIST_def field_ALBUM_def field_GENRE_def
        field_TRACKNUMBER_def field_YEAR_def FIELD_COUNT_def)
  note rd = src.field_read [OF ok(1) at(1)] dest.field_read [OF ok(2) at(2)]
  have hi: "lib_int S srcrs field_IDHIGH (m_src w) = item_high m s"
    using rd(2) [OF small(2)] src.at_lib [OF ok(1) at(1)] l by (auto simp: item_high_def field_of_def)
  let ?w = "w\<lparr>m_srcids_seen := sset_insert s (m_srcids_seen w)\<rparr>"
  have same: "m_src ?w = m_src w" "m_dest ?w = m_dest w"
    by simp_all
  show ?thesis
  proof (cases "if item_high m s \<noteq> 0 then lib_find S (item_high m s) (m_src w) else None")
    case None
    then have b: "best_version m s = s"
      using src.high_read(1) [OF ok(1), of s, unfolded l] by blast
    show ?thesis
      unfolding check_tune_def Let_def same hi None option.case prod.case
      using small l by (auto simp: rd Different_def tune_marks_def compared_fields_def b enter_def)
  next
    case (Some c)
    then have b: "best_version m s = item_high m s" "atS c (item_high m s) (m_src w)"
      using src.high_read(2) [OF ok(1), of s c, unfolded l] by blast+
    show ?thesis
      unfolding check_tune_def Let_def same hi Some option.case prod.case
      using small l by (auto simp: rd src.field_read [OF ok(1) b(2)] Different_def tune_marks_def compared_fields_def b(1) enter_def)
  qed
qed


text \<open>The walk returns when it may go as deep as there are items it has not met.\<close>

lemma CheckPlaylistNames_visited:
  fixes w :: "('a, 'b) sync"
  assumes "okS (m_src w)" "okD (m_dest w)" and "libS (m_src w) = m" "libD (m_dest w) = m'"
    and r: "readable m" "readable m'" and h: "high_hidden m"
    and "scan_inv m m' w" "s \<in> listed m" "same_item m m' s d" "card (dom m - set (m_srcids_seen w)) < n"
  shows "visited m m' s d w (CheckPlaylistNames S D n s d w)"
  using assms(1-4,8-)
proof (induction n arbitrary: s d w)
  case (Suc n)
  note ok = Suc.prems(1,2) and l = Suc.prems(3,4) and inv = Suc.prems(5) and sd = Suc.prems(6,7)
  have ok': "smap_ok (m_srctodest w)" "smap_ok (m_desttosrc w)"
    using inv by (simp_all add: scan_inv_def)
  have dm: "s \<in> dom m" "d \<in> dom m'"
    using sd(2) by (auto simp: same_item_def item_name_def split: option.splits)
  show ?case
  proof (cases "s \<in> set (m_srcids_seen w)")
    case True
    then obtain x where x: "smap_find (m_srctodest w) s = Some x" "x \<in> dom (smap_find (m_desttosrc w))"
      using scan_inv_seen [OF inv] by blast
    show ?thesis
      using True x walked_refl [OF inv] walked_candidates(2) [OF inv, of d] by (cases "x = d") (auto simp: visited_def)
  next
    case False
    let ?w = "w\<lparr>m_srcids_seen := sset_insert s (m_srcids_seen w)\<rparr>"
    have same: "m_src ?w = m_src w" "m_dest ?w = m_dest w"
      by simp_all
    obtain srcrs destrs where f: "lib_find S s (m_src w) = Some srcrs" "lib_find D d (m_dest w) = Some destrs"
      using dm src.find_none [OF ok(1), of s] dest.find_none [OF ok(2), of d] l by (auto simp: domIff)
    have at: "atS srcrs s (m_src w)" "atD destrs d (m_dest w)"
      using src.find_at [OF ok(1) f(1)] dest.find_at [OF ok(2) f(2)] .
    note rds = src.read_record [OF ok(1) r(1)[folded l(1)] f(1), unfolded l] and rdd = dest.read_record [OF ok(2) r(2)[folded l(2)] f(2), unfolded l]
    define b where "b = (if composite (item_type m' d) then s else best_version m s)"
    obtain w1 where w1: "(if \<not> composite (item_type m' d) then check_tune S D s srcrs d destrs ?w else (s, ?w)) = (b, w1)"
      and e: "entered m m' s d w (w1\<lparr>m_desttosrc := smap_set d b (m_desttosrc w1), m_srctodest := smap_set b d (m_srctodest w1)\<rparr>)"
    proof (cases "composite (item_type m' d)")
      case True
      then show thesis
        using that [of ?w] plain_entered [OF inv h sd(1) dm(1) False sd(2) dm(2) True] by (simp add: b_def enter_def)
    next
      case c: False
      then show thesis
        using that check_tune_marks [OF ok l at] marked_entered [OF inv h sd(1) dm(1) False sd(2) dm(2) c] by (auto simp: b_def)
    qed
    define w2 where "w2 = w1\<lparr>m_desttosrc := smap_set d b (m_desttosrc w1), m_srctodest := smap_set b d (m_srctodest w1)\<rparr>"
    have e2: "entered m m' s d w w2"
      using e unfolding w2_def .
    then have w2: "m_src w2 = m_src w" "m_dest w2 = m_dest w" "scan_inv m m' w2" "set (m_srcids_seen w2) = insert s (set (m_srcids_seen w))"
      by (auto simp: entered_def frame_def)
    obtain dist dels adds where df: "Diff (map (\<lambda>j. the (item_name m' j)) (shown m' d)) (map (\<lambda>j. the (item_name m j)) (shown m s)) = (dist, dels, adds)"
      by (metis prod_cases3)
    have names: "GetNames S (m_src w2) (kids m s) = Some (shown m s, map (\<lambda>j. the (item_name m j)) (shown m s))"
      "GetNames D (m_dest w2) (kids m' d) = Some (shown m' d, map (\<lambda>j. the (item_name m' j)) (shown m' d))"
      using src.GetNames_shown [OF ok(1)] dest.GetNames_shown [OF ok(2)] l r w2(1,2) by (simp_all add: shown_def)
    have "card (dom m - set (m_srcids_seen w2)) < card (dom m - set (m_srcids_seen w))"
      using dm(1) False w2(4) r(1) by (intro psubset_card_mono) (auto simp: readable_def)
    then have fuel: "card (dom m - set (m_srcids_seen w2)) < n"
      using Suc.prems(8) by linarith
    define P where "P x \<longleftrightarrow> scan_inv m m' x \<and> m_src x = m_src w \<and> m_dest x = m_dest w \<and> set (m_srcids_seen w2) \<subseteq> set (m_srcids_seen x)" for x
    have P: "P w2" "\<And>x y. P x \<Longrightarrow> walked m m' x y \<Longrightarrow> P y" "\<And>x. P x \<Longrightarrow> scan_inv m m' x"
      using w2 by (auto simp: P_def walked_def frame_def extends_def)
    have check: "visited m m' s' d' x (CheckPlaylistNames S D n s' d' x)"
      if "P x" "s' \<in> listed m" "item_name m s' \<noteq> None" "item_name m s' = item_name m' d'" for s' d' x
    proof (rule Suc.IH)
      have "card (dom m - set (m_srcids_seen x)) \<le> card (dom m - set (m_srcids_seen w2))"
        using that(1) r(1) by (intro card_mono) (auto simp: readable_def P_def)
      then show "card (dom m - set (m_srcids_seen x)) < n"
        using fuel by linarith
    qed (use that ok l in \<open>auto simp: P_def same_item_def\<close>)
    have "in_step dels adds 0 (map (item_name m) (shown m s)) 0 (map (item_name m') (shown m' d))"
    proof -
      have i: "inj Some" and len: "length (shown m' d) + length (shown m s) < 2 ^ 32 - 1"
        using shown_length [of m s] shown_length [of m' d] by simp_all
      have the: "map Some (map (\<lambda>j. the (item_name k j)) (shown k i)) = map (item_name k) (shown k i)" for k i
        by (auto simp: shown_def)
      have "in_step dels adds 0 (map (\<lambda>j. the (item_name m j)) (shown m s)) 0 (map (\<lambda>j. the (item_name m' j)) (shown m' d))"
        using in_step_start [OF _ df] len by simp
      then show ?thesis
        unfolding in_step_def by (simp only: the [symmetric] nths_map)
    qed
    then have c: "children_visited m m' (shown m s) (shown m' d) False w2
        (match_children (CheckPlaylistNames S D n) dels adds 0 (shown m s) 0 (shown m' d) False w2)"
      by (intro match_children_visited [where P = P, OF check P(2,3,1)]) (auto simp: listed_def shown_def)
    show ?thesis
    proof (rule entered_visited [OF False e2 c])
      show "b = copied_as m m' s d"
        by (simp add: b_def copied_as_def)
      show "same_item m m' s d"
        by (rule sd(2))
      fix a w''
      assume m: "match_children (CheckPlaylistNames S D n) dels adds 0 (shown m s) 0 (shown m' d) False w2 = Some (0, a, w'')"
      have "m_src w1 = m_src w2" "m_dest w1 = m_dest w2"
        by (simp_all add: w2_def)
      then show "CheckPlaylistNames S D (Suc n) s d w =
          Some (0, False, if a then w''\<lparr>m_srcids_amend_playlist := sset_insert b (m_srcids_amend_playlist w'')\<rparr> else w'')"
        using False by (simp add: Let_def f same rds rdd w1 w2_def [symmetric] names df m)
    qed
  qed
qed simp


text \<open>The whole scan.\<close>

lemma sync_scan_settles:
  assumes ok: "okS src" "okD dest" and r: "readable (libS src)" "readable (libD dest)" and h: "high_hidden (libS src)"
    and root: "BROWSE_ROOT \<in> dom (libS src)" "BROWSE_ROOT \<in> dom (libD dest)" and n: "card (dom (libS src)) < n"
  shows "\<exists>w. sync_scan S D n (Synchroniser src dest dry) = Some (0, w) \<and> m_src w = src \<and> m_dest w = dest \<and> m_dry_run w = dry \<and>
    fired w = [OnStage BEGIN] \<and> m_srcids_add_playlist w = [] \<and> scan_inv (libS src) (libD dest) w \<and>
    BROWSE_ROOT \<in> set (m_srcids_seen w) \<and> smap_find (m_srctodest w) BROWSE_ROOT = Some BROWSE_ROOT \<and> (\<forall>s\<in>set (m_srcids_seen w). settled (libS src) (libD dest) w s)"
proof -
  let ?w = "(Fire (OnStage BEGIN) (Synchroniser src dest dry))\<lparr>m_srcids_seen := [], m_any_deleted := False\<rparr>"
  have "scan_inv (libS src) (libD dest) ?w"
    by (auto simp: scan_inv_def Synchroniser_def Fire_def sset_ok_def)
  moreover have "m_src ?w = src" "m_dest ?w = dest" "m_srcids_seen ?w = []"
    by (simp_all add: Synchroniser_def Fire_def)
  moreover have "same_item (libS src) (libD dest) BROWSE_ROOT BROWSE_ROOT" "BROWSE_ROOT \<in> listed (libS src)"
    using root by (simp_all add: same_item_def listed_def)
  ultimately have v: "visited (libS src) (libD dest) BROWSE_ROOT BROWSE_ROOT ?w (CheckPlaylistNames S D n BROWSE_ROOT BROWSE_ROOT ?w)"
    using ok r n by (intro CheckPlaylistNames_visited h) simp_all
  obtain a w' where c: "CheckPlaylistNames S D n BROWSE_ROOT BROWSE_ROOT ?w = Some (0, a, w')"
    and w': "walked (libS src) (libD dest) ?w w'" "BROWSE_ROOT \<in> set (m_srcids_seen w')" "smap_find (m_srctodest w') BROWSE_ROOT = Some BROWSE_ROOT"
    using v unfolding visited_def by auto
  have "m_srcids_seen ?w = []" "m_src ?w = src" "m_dest ?w = dest" "m_dry_run ?w = dry" "fired ?w = [OnStage BEGIN]" "m_srcids_add_playlist ?w = []"
    by (simp_all add: Synchroniser_def Fire_def)
  then show ?thesis
    using c w' by (auto simp: sync_scan_def walked_def frame_def)
qed

end

end
