(* ===== verification/SyncDelete.thy ===== *)
theory SyncDelete
  imports SyncFind
begin

text \<open>
  The contract of a database that is written to, and the deletions of the synchroniser: what
  \<^verbatim>\<open>MaybeDelete\<close> removes is exactly what is below the candidates and has no counterpart in the
  source.
\<close>

section \<open>The contract of a database that is written to\<close>

text \<open>The text of a number in a field.\<close>

definition number_text :: "u32 \<Rightarrow> string" where
  "number_text n = (if n = 0 then [] else dec (unat n))"

definition blank_item :: "u32 \<Rightarrow> item" where
  "blank_item i = (\<lambda>_. [])(field_ID := number_text i)"

text \<open>\<^verbatim>\<open>room\<close> is how many records may still be added.\<close>

locale library_writer = library_reader L lib at ok
  for L :: "('d, 'c, 's) library_ops" and lib :: "'d \<Rightarrow> library" and at and ok +
  fixes room :: "'d \<Rightarrow> nat"
  assumes delete: "ok d \<Longrightarrow> at c i d \<Longrightarrow> lib_delete L c d = (rc, d') \<Longrightarrow>
      rc = 0 \<and> ok d' \<and> lib d' = (lib d)(i := None) \<and> room d' = room d"
    and delete_others: "ok d \<Longrightarrow> at c i d \<Longrightarrow> at c' j d \<Longrightarrow> j \<noteq> i \<Longrightarrow> lib_delete L c d = (rc, d') \<Longrightarrow> at c' j d'"
    and adds: "ok d \<Longrightarrow> lib d i = None \<Longrightarrow> i \<noteq> 0 \<Longrightarrow> 0 < room d \<Longrightarrow> lib_add L d = (c, d') \<Longrightarrow> d'' = lib_set_int L c field_ID i d' \<Longrightarrow>
      ok d'' \<and> at c i d'' \<and> lib d'' = (lib d)(i \<mapsto> blank_item i) \<and> room d = Suc (room d'')"
    and set_str: "ok d \<Longrightarrow> at c i d \<Longrightarrow> lib d i = Some r \<Longrightarrow> f < FIELD_COUNT \<Longrightarrow> f \<noteq> field_ID \<Longrightarrow> d' = lib_set_str L c f x d \<Longrightarrow>
      ok d' \<and> at c i d' \<and> lib d' = (lib d)(i \<mapsto> r(f := x)) \<and> room d' = room d"
    and set_type: "ok d \<Longrightarrow> at c i d \<Longrightarrow> lib d i = Some r \<Longrightarrow> d' = lib_set_int L c field_TYPE n d \<Longrightarrow>
      ok d' \<and> at c i d' \<and> lib d' = (lib d)(i \<mapsto> r(field_TYPE := number_text n)) \<and> room d' = room d"
    and commits: "ok d \<Longrightarrow> lib_commit L c d = (rc, d') \<Longrightarrow> rc = 0 \<and> ok d' \<and> lib d' = lib d \<and> room d' = room d"
    and allocates: "ok d \<Longrightarrow> lib_alloc L d = (i, d') \<Longrightarrow> ok d' \<and> lib d' = lib d \<and> room d' = room d"

section \<open>Visiting each\<close>

text \<open>A loop over items with a set of visited ones, each of which is visited at most once.\<close>

lemma each_steps:
  assumes step: "\<And>i A w. i \<in> set js \<Longrightarrow> I A w \<Longrightarrow> \<exists>A' w'. f i A w = Some (0, A', w') \<and> R A w A' w' \<and> i \<in> set A'"
    and refl: "\<And>A w. I A w \<Longrightarrow> R A w A w"
    and trans: "\<And>A w A' w' A'' w''. R A w A' w' \<Longrightarrow> R A' w' A'' w'' \<Longrightarrow> R A w A'' w''"
    and keep: "\<And>A w A' w'. I A w \<Longrightarrow> R A w A' w' \<Longrightarrow> I A' w'"
    and grow: "\<And>A w A' w'. R A w A' w' \<Longrightarrow> set A \<subseteq> set A'"
    and start: "I A w"
  shows "\<exists>A' w'. each f js A w = Some (0, A', w') \<and> R A w A' w' \<and> set js \<subseteq> set A'"
  using step start
proof (induction js arbitrary: A w)
  case (Cons i js)
  obtain A1 w1 where 1: "f i A w = Some (0, A1, w1)" "R A w A1 w1" "i \<in> set A1"
    using Cons.prems(1) [of i A w] Cons.prems(2) by auto
  obtain A2 w2 where 2: "each f js A1 w1 = Some (0, A2, w2)" "R A1 w1 A2 w2" "set js \<subseteq> set A2"
    using Cons.IH [OF _ keep [OF Cons.prems(2) 1(2)]] Cons.prems(1) by auto
  show ?case
    using 1(1,3) 2(1,3) trans [OF 1(2) 2(2)] grow [OF 2(2)] by auto
qed (use refl in auto)

section \<open>What is deleted\<close>

text \<open>The edges that a deletion follows: from an item without a counterpart to its children.\<close>

definition follows :: "library \<Rightarrow> (u32, u32) smap \<Rightarrow> (u32 \<times> u32) set" where
  "follows m k = {(x, y). x \<in> dom m \<and> smap_find k x = None \<and> y \<in> set (kids m x)}"

definition doomed :: "library \<Rightarrow> (u32, u32) smap \<Rightarrow> u32 set \<Rightarrow> u32 set" where
  "doomed m k roots = {x. smap_find k x = None \<and> x \<in> (follows m k)\<^sup>* `` roots}"

fun deletions_of :: "sync_event list \<Rightarrow> u32 set" where
  "deletions_of [] = {}"
| "deletions_of (OnDelete i # es) = insert i (deletions_of es)"
| "deletions_of (_ # es) = deletions_of es"

lemma deletions_of_append [simp]: "deletions_of (es @ es') = deletions_of es \<union> deletions_of es'"
  by (induction es rule: deletions_of.induct) auto

text \<open>What the deletions do not change.\<close>

definition same_plan :: "('a, 'b) sync \<Rightarrow> ('a, 'b) sync \<Rightarrow> bool" where
  "same_plan w w' \<longleftrightarrow> m_src w' = m_src w \<and> m_dry_run w' = m_dry_run w \<and> m_srcids_seen w' = m_srcids_seen w \<and>
     m_srctodest w' = m_srctodest w \<and> m_desttosrc w' = m_desttosrc w \<and> m_srcids_maybe_add w' = m_srcids_maybe_add w \<and>
     m_destids_maybe_delete w' = m_destids_maybe_delete w \<and> m_srcids_add_tune w' = m_srcids_add_tune w \<and>
     m_srcids_amend_metadata w' = m_srcids_amend_metadata w \<and> m_srcids_add_playlist w' = m_srcids_add_playlist w \<and>
     m_srcids_amend_playlist w' = m_srcids_amend_playlist w"

lemma same_plan_refl [simp]: "same_plan w w"
  by (simp add: same_plan_def)

lemma same_plan_trans: "same_plan w w' \<Longrightarrow> same_plan w' w'' \<Longrightarrow> same_plan w w''"
  by (simp add: same_plan_def)

text \<open>The items that are new among the visited ones and have no counterpart.\<close>

definition fresh_unmatched :: "(u32, u32) smap \<Rightarrow> u32 list \<Rightarrow> u32 list \<Rightarrow> u32 set" where
  "fresh_unmatched k A A' = {x \<in> set A' - set A. smap_find k x = None}"

lemma fresh_unmatched_chain:
  "set A \<subseteq> set A' \<Longrightarrow> set A' \<subseteq> set A'' \<Longrightarrow> fresh_unmatched k A A'' = fresh_unmatched k A A' \<union> fresh_unmatched k A' A''"
  by (auto simp: fresh_unmatched_def)

lemma fresh_unmatched_same [simp]: "fresh_unmatched k A A = {}"
  by (simp add: fresh_unmatched_def)

context library_writer
begin

text \<open>From one set of visited items to a larger one.\<close>

definition pruned :: "library \<Rightarrow> u32 list \<Rightarrow> ('a, 'd) sync \<Rightarrow> u32 list \<Rightarrow> ('a, 'd) sync \<Rightarrow> bool" where
  "pruned m A w A' w' \<longleftrightarrow>
     set A \<subseteq> set A' \<and> same_plan w w' \<and> ok (m_dest w') \<and> room (m_dest w') = room (m_dest w) \<and>
     lib (m_dest w') = (if m_dry_run w then lib (m_dest w) else lib (m_dest w) |` (- fresh_unmatched (m_desttosrc w) A A')) \<and>
     (\<forall>c j. j \<in> set A \<longrightarrow> at c j (m_dest w) \<longrightarrow> at c j (m_dest w')) \<and>
     (\<forall>x \<in> set A' - set A. follows m (m_desttosrc w) `` {x} \<subseteq> set A') \<and>
     deletions_of (fired w') = deletions_of (fired w) \<union> (dom m \<inter> fresh_unmatched (m_desttosrc w) A A')"

lemma pruned_refl: "ok (m_dest w) \<Longrightarrow> pruned m A w A w"
  by (auto simp: pruned_def restrict_map_def)

lemma pruned_trans:
  assumes "pruned m A w A' w'" "pruned m A' w' A'' w''"
  shows "pruned m A w A'' w''"
proof -
  have k: "m_desttosrc w' = m_desttosrc w" "m_dry_run w' = m_dry_run w" and sub: "set A \<subseteq> set A'" "set A' \<subseteq> set A''"
    using assms by (auto simp: pruned_def same_plan_def)
  note ch = fresh_unmatched_chain [OF sub, of "m_desttosrc w"]
  have "lib (m_dest w'') = (if m_dry_run w then lib (m_dest w) else lib (m_dest w) |` (- fresh_unmatched (m_desttosrc w) A A''))"
    using assms unfolding pruned_def k ch by (simp add: Int_Un_distrib)
  moreover have "\<forall>x \<in> set A'' - set A. follows m (m_desttosrc w) `` {x} \<subseteq> set A''"
    using assms sub unfolding pruned_def k by blast
  moreover have "deletions_of (fired w'') = deletions_of (fired w) \<union> (dom m \<inter> fresh_unmatched (m_desttosrc w) A A'')"
    using assms unfolding pruned_def k ch by auto
  moreover have "\<forall>c j. j \<in> set A \<longrightarrow> at c j (m_dest w) \<longrightarrow> at c j (m_dest w'')"
    using assms sub unfolding pruned_def by blast
  moreover have "room (m_dest w'') = room (m_dest w)"
    using assms by (simp add: pruned_def)
  ultimately show ?thesis
    using assms sub same_plan_trans [of w w' w''] unfolding pruned_def by blast
qed

text \<open>The visited items that are not left have been deleted or were never there.\<close>

definition prunable :: "library \<Rightarrow> u32 list \<Rightarrow> ('a, 'd) sync \<Rightarrow> bool" where
  "prunable m A w \<longleftrightarrow> ok (m_dest w) \<and> (\<forall>x. x \<notin> set A \<longrightarrow> lib (m_dest w) x = m x) \<and> (lib (m_dest w) \<subseteq>\<^sub>m m)"

lemma prunable_pruned:
  assumes "prunable m A w" "pruned m A w A' w'"
  shows "prunable m A' w'"
  using assms unfolding prunable_def pruned_def
  by (auto simp: restrict_map_def map_le_def fresh_unmatched_def subset_iff split: if_splits)

lemma prunable_readable: "readable m \<Longrightarrow> prunable m A w \<Longrightarrow> readable (lib (m_dest w))"
  by (auto simp: prunable_def readable_def map_le_def dom_def intro: rev_finite_subset)

lemma each_pruned:
  assumes f: "\<And>i A w. i \<in> set js \<Longrightarrow> prunable m A w \<Longrightarrow> m_desttosrc w = k \<Longrightarrow> X \<subseteq> set A \<Longrightarrow>
    \<exists>A' w'. f i A w = Some (0, A', w') \<and> pruned m A w A' w' \<and> i \<in> set A' \<and> set A' - set A \<subseteq> (follows m k)\<^sup>* `` {i}"
    and w: "prunable m A w" "m_desttosrc w = k" "X \<subseteq> set A"
  shows "\<exists>A' w'. each f js A w = Some (0, A', w') \<and> pruned m A w A' w' \<and> set js \<subseteq> set A' \<and> set A' - set A \<subseteq> (follows m k)\<^sup>* `` set js"
proof -
  let ?R = "\<lambda>A w A' w'. pruned m A w A' w' \<and> set A' - set A \<subseteq> (follows m k)\<^sup>* `` set js"
  let ?I = "\<lambda>A w. prunable m A w \<and> m_desttosrc w = k \<and> X \<subseteq> set A"
  have "\<exists>A' w'. each f js A w = Some (0, A', w') \<and> ?R A w A' w' \<and> set js \<subseteq> set A'"
  proof (rule each_steps [where I = ?I and R = ?R])
    show "\<exists>A' w'. f i A w = Some (0, A', w') \<and> ?R A w A' w' \<and> i \<in> set A'" if "i \<in> set js" "?I A w" for i A w
      using f [of i A w] that by blast
    show "?R A w A w" if "?I A w" for A w
      using that pruned_refl [of w m A] by (simp add: prunable_def)
    show "?R A w A'' w''" if "?R A w A' w'" "?R A' w' A'' w''" for A w A' w' A'' w''
      using that pruned_trans [of m A w A' w' A'' w''] by blast
    show "?I A' w'" if "?I A w" "?R A w A' w'" for A w A' w'
      using that prunable_pruned [of m A w A' w'] by (auto simp: pruned_def same_plan_def)
  qed (use w in \<open>auto simp: pruned_def\<close>)
  then show ?thesis
    by blast
qed

lemma pruned_visit:
  assumes "ok (m_dest w)" "i \<notin> set A" "follows m (m_desttosrc w) `` {i} = {}" "smap_find (m_desttosrc w) i = None \<longrightarrow> lib (m_dest w) i = None \<and> i \<notin> dom m"
  shows "pruned m A w (sset_insert i A) w"
proof -
  have "fresh_unmatched (m_desttosrc w) A (sset_insert i A) = (if smap_find (m_desttosrc w) i = None then {i} else {})"
    using assms(2) by (auto simp: fresh_unmatched_def)
  then show ?thesis
    using assms by (auto simp: pruned_def restrict_map_def fun_eq_iff)
qed

lemma pruned_delete:
  assumes p: "pruned m (sset_insert i A) w A' w'" and i: "i \<notin> set A" "smap_find (m_desttosrc w) i = None" "i \<in> dom m"
    and ch: "set (kids m i) \<subseteq> set A'" and at: "at rs i (m_dest w')"
    and z: "same_plan w' z" "deletions_of (fired z) = insert i (deletions_of (fired w'))"
    "m_dest z = (if m_dry_run w' then m_dest w' else snd (lib_delete L rs (m_dest w')))"
  shows "pruned m A w A' z"
proof -
  have k: "m_desttosrc w' = m_desttosrc w" "m_dry_run w' = m_dry_run w" and ok: "ok (m_dest w')" and sub: "set A \<subseteq> set A'" "i \<in> set A'"
    using p by (auto simp: pruned_def same_plan_def)
  have fresh: "fresh_unmatched (m_desttosrc w) A A' = insert i (fresh_unmatched (m_desttosrc w) (sset_insert i A) A')"
    using i sub(2) by (auto simp: fresh_unmatched_def)
  obtain rc d where d: "lib_delete L rs (m_dest w') = (rc, d)" by force
  have l: "ok (m_dest z)" "room (m_dest z) = room (m_dest w')" "lib (m_dest z) = (if m_dry_run w then lib (m_dest w') else (lib (m_dest w'))(i := None))"
    using z(3) k(2) ok delete [OF ok at d] d by auto
  moreover have "at c j (m_dest z)" if "j \<in> set A" "at c j (m_dest w')" for c j
    using that i(1) z(3) delete_others [OF ok at that(2) _ d] d by auto
  moreover have "follows m (m_desttosrc w) `` {i} \<subseteq> set A'"
    using ch by (auto simp: follows_def)
  moreover have "(lib (m_dest w) |` (- fresh_unmatched (m_desttosrc w) (sset_insert i A) A'))(i := None) =
      lib (m_dest w) |` (- fresh_unmatched (m_desttosrc w) A A')"
    unfolding fresh by (auto simp: restrict_map_def)
  ultimately show ?thesis
    using p z(1,2) sub(1) i(3) same_plan_trans [of w w' z] unfolding pruned_def fresh by auto
qed


lemma MaybeDelete_pruned:
  fixes w :: "('a, 'd) sync"
  assumes r: "readable m"
  shows "prunable m A w \<Longrightarrow> m_desttosrc w = k \<Longrightarrow> card (dom m - set A) < n \<Longrightarrow>
    \<exists>A' w'. MaybeDelete L n i A w = Some (0, A', w') \<and> pruned m A w A' w' \<and> i \<in> set A' \<and> set A' - set A \<subseteq> (follows m k)\<^sup>* `` {i}"
proof (induction n arbitrary: i A w)
  case (Suc n)
  have ok: "ok (m_dest w)"
    using Suc.prems(1) by (simp add: prunable_def)
  let ?A = "sset_insert i A"
  consider (old) "i \<in> set A" | (matched) "i \<notin> set A" "smap_find (m_desttosrc w) i \<noteq> None"
    | (absent) "i \<notin> set A" "smap_find (m_desttosrc w) i = None" "lib_find L i (m_dest w) = None"
    | (found) rs where "i \<notin> set A" "smap_find (m_desttosrc w) i = None" "lib_find L i (m_dest w) = Some rs"
    by blast
  then show ?case
  proof cases
    case old
    then show ?thesis
      using pruned_refl [OF ok] by auto
  next
    case matched
    then have "pruned m A w ?A w"
      by (intro pruned_visit ok) (auto simp: follows_def)
    then show ?thesis
      using matched by auto
  next
    case absent
    then have "lib (m_dest w) i = None" "i \<notin> dom m"
      using find_none [OF ok] Suc.prems(1) by (auto simp: prunable_def domIff)
    then have "pruned m A w ?A w"
      using absent by (intro pruned_visit ok) (auto simp: follows_def)
    then show ?thesis
      using absent by auto
  next
    case found
    have m: "lib (m_dest w) i = m i"
      using Suc.prems(1) found(1) by (simp add: prunable_def)
    note rd = read_record [OF ok prunable_readable [OF r Suc.prems(1)] found(3)]
    have kids: "kids (lib (m_dest w)) i = kids m i" and im: "i \<in> dom m"
      using m rd(4) by (auto simp: kids_def domIff)
    have "card (dom m - set ?A) < card (dom m - set A)"
      using im found(1) r by (intro psubset_card_mono) (auto simp: readable_def)
    then have fuel: "card (dom m - set ?A) < n"
      using Suc.prems(3) by linarith
    have pr: "prunable m ?A w"
      using Suc.prems(1) by (auto simp: prunable_def)
    have step: "\<exists>B' z'. MaybeDelete L n j B z = Some (0, B', z') \<and> pruned m B z B' z' \<and> j \<in> set B' \<and> set B' - set B \<subseteq> (follows m k)\<^sup>* `` {j}"
      if "prunable m B z" "m_desttosrc z = k" "set ?A \<subseteq> set B" for j B and z :: "('a, 'd) sync"
    proof (rule Suc.IH [OF that(1,2)])
      have "card (dom m - set B) \<le> card (dom m - set ?A)"
        using that(3) r by (intro card_mono) (auto simp: readable_def)
      then show "card (dom m - set B) < n"
        using fuel by linarith
    qed
    obtain A' w' where ch: "each (MaybeDelete L n) (kids m i) ?A w = Some (0, A', w')" "pruned m ?A w A' w'"
      "set (kids m i) \<subseteq> set A'" "set A' - set ?A \<subseteq> (follows m k)\<^sup>* `` set (kids m i)"
      using each_pruned [where X = "set ?A" and f = "MaybeDelete L n" and js = "kids m i", OF _ pr Suc.prems(2) subset_refl] step by blast
    have at: "at rs i (m_dest w')"
      using ch(2) find_at [OF ok found(3)] by (auto simp: pruned_def)
    define z where "z =
      (let w = (if \<not> m_any_deleted w' then (Fire (OnStage DELETING) w')\<lparr>m_any_deleted := True\<rparr> else w');
           w = w\<lparr>m_statistics := count_deleted (lib_int L rs field_TYPE (m_dest w)) (m_statistics w)\<rparr>;
           (rc, w) = (if \<not> m_dry_run w then (let (rc, d) = lib_delete L rs (m_dest w) in (rc, w\<lparr>m_dest := d\<rparr>)) else (0, w))
       in Fire (OnDelete i) w)"
    have zf: "same_plan w' z" "deletions_of (fired z) = insert i (deletions_of (fired w'))"
      "m_dest z = (if m_dry_run w' then m_dest w' else snd (lib_delete L rs (m_dest w')))"
      unfolding z_def by (auto simp: Let_def same_plan_def Fire_def split: prod.split)
    have "MaybeDelete L (Suc n) i A w = Some (0, A', z)"
      using found ch(1) delete [OF _ at] ch(2) by (auto simp: rd(1) kids z_def Let_def Fire_def pruned_def split: prod.split)
    moreover have "pruned m A w A' z"
      by (rule pruned_delete [OF ch(2) found(1,2) im ch(3) at zf])
    moreover have "i \<in> set A'"
      using ch(2) by (auto simp: pruned_def)
    moreover have "set A' - set A \<subseteq> (follows m k)\<^sup>* `` {i}"
    proof -
      have "(follows m k)\<^sup>* `` set (kids m i) \<subseteq> (follows m k)\<^sup>* `` {i}"
        using im found(2) Suc.prems(2) by (auto simp: follows_def intro: converse_rtrancl_into_rtrancl)
      moreover have "i \<in> (follows m k)\<^sup>* `` {i}"
        by auto
      ultimately show ?thesis
        using ch(4) unfolding set_sset_insert by blast
    qed
    ultimately show ?thesis
      by blast
  qed
qed simp

text \<open>The deletions of a synchroniser.\<close>

lemma sync_delete_doomed:
  fixes w :: "('a, 'd) sync"
  assumes r: "readable (lib (m_dest w))" and ok: "ok (m_dest w)" and n: "card (dom (lib (m_dest w))) < n"
  shows "\<exists>w'. sync_delete L n w = Some (0, w') \<and> same_plan w w' \<and> ok (m_dest w') \<and> room (m_dest w') = room (m_dest w) \<and>
    lib (m_dest w') = (if m_dry_run w then lib (m_dest w)
      else lib (m_dest w) |` (- doomed (lib (m_dest w)) (m_desttosrc w) (set (m_destids_maybe_delete w)))) \<and>
    deletions_of (fired w') = deletions_of (fired w) \<union>
      (dom (lib (m_dest w)) \<inter> doomed (lib (m_dest w)) (m_desttosrc w) (set (m_destids_maybe_delete w)))"
proof -
  let ?m = "lib (m_dest w)" and ?k = "m_desttosrc w" and ?roots = "set (m_destids_maybe_delete w)"
  have pr: "prunable ?m [] w"
    using ok by (simp add: prunable_def)
  have step: "\<exists>B' z'. MaybeDelete L n j B z = Some (0, B', z') \<and> pruned ?m B z B' z' \<and> j \<in> set B' \<and> set B' - set B \<subseteq> (follows ?m ?k)\<^sup>* `` {j}"
    if "prunable ?m B z" "m_desttosrc z = ?k" for j B and z :: "('a, 'd) sync"
  proof (rule MaybeDelete_pruned [OF r that])
    have "card (dom ?m - set B) \<le> card (dom ?m)"
      using r by (intro card_mono) (auto simp: readable_def)
    then show "card (dom ?m - set B) < n"
      using n by linarith
  qed
  obtain A' w' where e: "each (MaybeDelete L n) (m_destids_maybe_delete w) [] w = Some (0, A', w')" "pruned ?m [] w A' w'"
    "?roots \<subseteq> set A'" "set A' \<subseteq> (follows ?m ?k)\<^sup>* `` ?roots"
    using each_pruned [where X = "{}" and f = "MaybeDelete L n" and js = "m_destids_maybe_delete w", OF _ pr refl] step by auto
  have "y \<in> set A'" if "(x, y) \<in> (follows ?m ?k)\<^sup>*" "x \<in> ?roots" for x y
    using that by induction (use e(2,3) in \<open>auto simp: pruned_def\<close>)
  then have "set A' = (follows ?m ?k)\<^sup>* `` ?roots"
    using e(4) by blast
  then have "fresh_unmatched ?k [] A' = doomed ?m ?k ?roots"
    by (auto simp: fresh_unmatched_def doomed_def)
  then show ?thesis
    using e(1,2) by (auto simp: sync_delete_def pruned_def)
qed

end

end
