(* ===== verification/SyncAdd.thy ===== *)
theory SyncAdd
  imports SyncDelete
begin

text \<open>
  The additions of the synchroniser: \<^verbatim>\<open>MaybeAdd\<close> gives every candidate, and everything
  below it, an identifier in the destination, and lists it for copying.
\<close>

section \<open>Sources\<close>

text \<open>
  A library that can be copied as a whole: children exist, items are tunes, playlists or plain files,
  and no item has a high-quality version that stands for it.
\<close>

definition copyable :: "library \<Rightarrow> bool" where
  "copyable m \<longleftrightarrow> readable m \<and>
     (\<forall>i\<in>dom m. set (kids m i) \<subseteq> dom m \<and> item_type m i \<in> {FILE, TUNE, TUNEHIGH, PLAYLIST, DIR}) \<and>
     (\<forall>i. item_high m i = 0 \<or> item_high m i \<notin> dom m)"

lemma copyable_best: "copyable m \<Longrightarrow> best_version m i = i"
  by (auto simp: copyable_def best_version_def)

text \<open>The image of an item, 0 where it has none.\<close>

definition image_of :: "('a, 'b) sync \<Rightarrow> u32 \<Rightarrow> u32" where
  "image_of w i = (case smap_find (m_srctodest w) i of None \<Rightarrow> 0 | Some d \<Rightarrow> d)"

definition kept_plan :: "('a, 'b) sync \<Rightarrow> ('a, 'b) sync \<Rightarrow> bool" where
  "kept_plan w w' \<longleftrightarrow> m_src w' = m_src w \<and> m_dry_run w' = m_dry_run w \<and> m_srcids_seen w' = m_srcids_seen w \<and>
     m_srcids_maybe_add w' = m_srcids_maybe_add w \<and> m_destids_maybe_delete w' = m_destids_maybe_delete w \<and>
     m_srcids_amend_metadata w' = m_srcids_amend_metadata w \<and> m_srcids_amend_playlist w' = m_srcids_amend_playlist w \<and>
     fired w' = fired w"

definition unmapped :: "('a, 'b) sync \<Rightarrow> u32 set \<Rightarrow> u32 set" where
  "unmapped w X = {x \<in> X. smap_find (m_srctodest w) x = None}"

text \<open>What the visit of the items of \<^verbatim>\<open>X\<close>, new among the visited \<^verbatim>\<open>A'\<close>, has done.\<close>

definition planned :: "library \<Rightarrow> u32 set \<Rightarrow> u32 set \<Rightarrow> ('a, 'b) sync \<Rightarrow> ('a, 'b) sync \<Rightarrow> bool" where
  "planned m X A' w w' \<longleftrightarrow> kept_plan w w' \<and> smap_ok (m_srctodest w') \<and> finite X \<and>
     length (m_srcids_add_playlist w') = length (m_srcids_add_playlist w) + card {x \<in> unmapped w X. composite (item_type m x)} \<and>
     (sset_ok (m_srcids_add_tune w) \<longrightarrow> sset_ok (m_srcids_add_tune w')) \<and>
     (\<forall>k. (smap_find (m_srctodest w') k = None \<longleftrightarrow> smap_find (m_srctodest w) k = None \<and> k \<notin> X) \<and>
        (smap_find (m_srctodest w) k \<noteq> None \<longrightarrow> smap_find (m_srctodest w') k = smap_find (m_srctodest w) k)) \<and>
     (\<forall>x\<in>unmapped w X. if item_type m x = FILE then smap_find (m_srctodest w') x = Some 0 else set (kids m x) \<subseteq> A') \<and>
     set (m_srcids_add_playlist w') = set (m_srcids_add_playlist w) \<union> {x \<in> unmapped w X. composite (item_type m x)} \<and>
     set (m_srcids_add_tune w') = set (m_srcids_add_tune w) \<union> {x \<in> unmapped w X. item_type m x \<in> {TUNE, TUNEHIGH}}"

lemma planned_trans:
  assumes 1: "planned m X A' w w'" and 2: "planned m Y A'' w' w''" and sub: "A' \<subseteq> A''"
  shows "planned m (X \<union> Y) A'' w w''"
proof -
  have u: "unmapped w (X \<union> Y) = unmapped w X \<union> unmapped w' Y" "unmapped w X \<inter> unmapped w' Y = {}"
    using 1 by (auto simp: planned_def unmapped_def)
  have kid: "if item_type m x = FILE then smap_find (m_srctodest w'') x = Some 0 else set (kids m x) \<subseteq> A''" if "x \<in> unmapped w (X \<union> Y)" for x
  proof (cases "x \<in> unmapped w' Y")
    case True
    then show ?thesis
      using 2 by (simp add: planned_def)
  next
    case False
    then have "x \<in> unmapped w X"
      using that u by blast
    then have "if item_type m x = FILE then smap_find (m_srctodest w') x = Some 0 else set (kids m x) \<subseteq> A'"
      using 1 by (simp add: planned_def)
    then show ?thesis
      using 2 sub by (auto simp: planned_def split: if_splits)
  qed
  show ?thesis
    unfolding planned_def
  proof (intro conjI ballI allI)
    show "kept_plan w w''" "smap_ok (m_srctodest w'')" "finite (X \<union> Y)"
      using 1 2 by (auto simp: planned_def kept_plan_def)
    show "sset_ok (m_srcids_add_tune w) \<longrightarrow> sset_ok (m_srcids_add_tune w'')"
      using 1 2 by (auto simp: planned_def)
    let ?C = "\<lambda>Z. {x \<in> Z. composite (item_type m x)}"
    have "finite (?C (unmapped w X))" "finite (?C (unmapped w' Y))" "?C (unmapped w X) \<inter> ?C (unmapped w' Y) = {}"
      "?C (unmapped w (X \<union> Y)) = ?C (unmapped w X) \<union> ?C (unmapped w' Y)"
      using 1 2 u by (auto simp: planned_def unmapped_def)
    then have "card (?C (unmapped w (X \<union> Y))) = card (?C (unmapped w X)) + card (?C (unmapped w' Y))"
      by (simp add: card_Un_disjoint)
    then show "length (m_srcids_add_playlist w'') = length (m_srcids_add_playlist w) + card (?C (unmapped w (X \<union> Y)))"
      using 1 2 by (simp add: planned_def)
    show "smap_find (m_srctodest w'') k = None \<longleftrightarrow> smap_find (m_srctodest w) k = None \<and> k \<notin> X \<union> Y"
      "smap_find (m_srctodest w) k \<noteq> None \<longrightarrow> smap_find (m_srctodest w'') k = smap_find (m_srctodest w) k" for k
      using 1 2 unfolding planned_def by (metis UnE UnI1 UnI2)+
    show "set (m_srcids_add_playlist w'') = set (m_srcids_add_playlist w) \<union> {x \<in> unmapped w (X \<union> Y). composite (item_type m x)}"
      "set (m_srcids_add_tune w'') = set (m_srcids_add_tune w) \<union> {x \<in> unmapped w (X \<union> Y). item_type m x \<in> {TUNE, TUNEHIGH}}"
      using 1 2 unfolding planned_def u(1) by blast+
  qed (use kid in blast)
qed

text \<open>One item, once its children have been visited.\<close>

lemma planned_item:
  assumes p: "planned m X A' w w'" and i: "i \<notin> X" "smap_find (m_srctodest w) i = None"
    and ch: "item_type m i \<noteq> FILE \<longrightarrow> set (kids m i) \<subseteq> A'" "item_type m i = FILE \<longrightarrow> d = 0"
    and z: "kept_plan w' z" "m_srctodest z = smap_set i d (m_srctodest w')"
      "length (m_srcids_add_playlist z) = length (m_srcids_add_playlist w') + (if composite (item_type m i) then 1 else 0)"
      "sset_ok (m_srcids_add_tune w') \<longrightarrow> sset_ok (m_srcids_add_tune z)"
      "set (m_srcids_add_playlist z) = set (m_srcids_add_playlist w') \<union> (if composite (item_type m i) then {i} else {})"
      "set (m_srcids_add_tune z) = set (m_srcids_add_tune w') \<union> (if item_type m i \<in> {TUNE, TUNEHIGH} then {i} else {})"
  shows "planned m (insert i X) A' w z"
proof -
  have "planned m {i} A' w' z"
  proof -
    have "smap_find (m_srctodest w') i = None" "smap_ok (m_srctodest w')"
      using p i by (auto simp: planned_def)
    moreover have "unmapped w' {i} = {i}"
      using calculation by (auto simp: unmapped_def)
    moreover have "card {x \<in> {i}. composite (item_type m x)} = (if composite (item_type m i) then 1 else 0)"
      by (simp add: Collect_conv_if)
    moreover have "{x \<in> {i}. composite (item_type m x)} = (if composite (item_type m i) then {i} else {})"
      "{x \<in> {i}. item_type m x \<in> {TUNE, TUNEHIGH}} = (if item_type m i \<in> {TUNE, TUNEHIGH} then {i} else {})"
      by auto
    ultimately show ?thesis
      using z ch by (simp add: planned_def)
  qed
  from planned_trans [OF p this subset_refl] show ?thesis
    by simp
qed

locale two_stores =
  two_libraries S libS atS okS D libD atD okD + dest: library_writer D libD atD okD room
  for S :: "('a, 'c, 's) library_ops" and libS atS okS and D :: "('b, 'e, 't) library_ops" and libD atD okD room
begin

definition same_dest :: "('a, 'b) sync \<Rightarrow> ('a, 'b) sync \<Rightarrow> bool" where
  "same_dest w w' \<longleftrightarrow> okD (m_dest w') \<and> libD (m_dest w') = libD (m_dest w) \<and> room (m_dest w') = room (m_dest w)"

definition plans :: "library \<Rightarrow> u32 list \<Rightarrow> ('a, 'b) sync \<Rightarrow> u32 list \<Rightarrow> ('a, 'b) sync \<Rightarrow> bool" where
  "plans m A w A' w' \<longleftrightarrow> set A \<subseteq> set A' \<and> set A' - set A \<subseteq> dom m \<and> same_dest w w' \<and> planned m (set A' - set A) (set A') w w'"

lemma plans_trans:
  assumes "plans m A w A' w'" "plans m A' w' A'' w''"
  shows "plans m A w A'' w''"
proof -
  have "set A'' - set A = (set A' - set A) \<union> (set A'' - set A')"
    using assms by (auto simp: plans_def)
  then show ?thesis
    using assms planned_trans [of m "set A' - set A" "set A'" w w' "set A'' - set A'" "set A''" w'']
    by (auto simp: plans_def same_dest_def)
qed

lemma plans_mapped:
  assumes "okD (m_dest w)" "smap_ok (m_srctodest w)" "i \<notin> set A" "smap_find (m_srctodest w) i \<noteq> None" "i \<in> dom m"
  shows "plans m A w (sset_insert i A) w"
  using assms by (auto simp: plans_def same_dest_def planned_def kept_plan_def unmapped_def)


definition ready :: "library \<Rightarrow> ('a, 'b) sync \<Rightarrow> bool" where
  "ready m w \<longleftrightarrow> okS (m_src w) \<and> libS (m_src w) = m \<and> okD (m_dest w) \<and> smap_ok (m_srctodest w)"

lemma ready_plans: "ready m w \<Longrightarrow> plans m A w A' w' \<Longrightarrow> ready m w'"
  by (simp add: ready_def plans_def planned_def kept_plan_def same_dest_def)

lemma plans_refl: "ready m w \<Longrightarrow> plans m A w A w"
  by (simp add: plans_def ready_def same_dest_def planned_def kept_plan_def unmapped_def)

lemma add_item_facts:
  "length (m_srcids_add_playlist (add_item i type n w)) = length (m_srcids_add_playlist w) + (if composite type then 1 else 0)"
  "sset_ok (m_srcids_add_tune w) \<longrightarrow> sset_ok (m_srcids_add_tune (add_item i type n w))"
  "kept_plan w (add_item i type n w)" "m_srctodest (add_item i type n w) = m_srctodest w" "m_dest (add_item i type n w) = m_dest w"
  "set (m_srcids_add_playlist (add_item i type n w)) = set (m_srcids_add_playlist w) \<union> (if composite type then {i} else {})"
  "set (m_srcids_add_tune (add_item i type n w)) = set (m_srcids_add_tune w) \<union> (if type \<in> {TUNE, TUNEHIGH} then {i} else {})"
  by (auto simp: add_item_def kept_plan_def composite_def TUNE_def TUNEHIGH_def PLAYLIST_def DIR_def Let_def)

lemma MaybeAdd_plans:
  fixes w :: "('a, 'b) sync"
  assumes m: "copyable m"
  shows "i \<in> dom m \<Longrightarrow> ready m w \<Longrightarrow> card (dom m - set A) < n \<Longrightarrow>
    \<exists>A' w'. MaybeAdd S D n i A w = Some (0, A', w') \<and> plans m A w A' w' \<and> i \<in> set A'"
proof (induction n arbitrary: i A w)
  case (Suc n)
  let ?A = "sset_insert i A"
  have ok: "okS (m_src w)" "okD (m_dest w)" and l: "libS (m_src w) = m" and sm: "smap_ok (m_srctodest w)"
    using Suc.prems(2) by (simp_all add: ready_def)
  have r: "readable m"
    using m by (simp add: copyable_def)
  consider (old) "i \<in> set A" | (mapped) "i \<notin> set A" "smap_find (m_srctodest w) i \<noteq> None"
    | (new) "i \<notin> set A" "smap_find (m_srctodest w) i = None"
    by blast
  then show ?case
  proof cases
    case old
    then show ?thesis
      using plans_refl [OF Suc.prems(2)] by auto
  next
    case mapped
    then show ?thesis
      using plans_mapped [OF ok(2) sm] Suc.prems(1) by auto
  next
    case new
    obtain rs where f: "lib_find S i (m_src w) = Some rs"
      using Suc.prems(1) src.find_none [OF ok(1), of i] l by (auto simp: domIff)
    note rd = src.read_record [OF ok(1) r [folded l] f, unfolded l]
    show ?thesis
    proof (cases "item_type m i = FILE")
      case True
      let ?z = "w\<lparr>m_srctodest := smap_set i 0 (m_srctodest w)\<rparr>"
      have base: "planned m {} (set ?A) w w"
        using sm by (simp add: planned_def kept_plan_def unmapped_def)
      have "planned m {i} (set ?A) w ?z"
        by (rule planned_item [OF base _ new(2)])
          (use True in \<open>auto simp: kept_plan_def composite_def FILE_def PLAYLIST_def DIR_def TUNE_def TUNEHIGH_def\<close>)
      moreover have "set ?A - set A = {i}"
        using new(1) by auto
      ultimately have "plans m A w ?A ?z"
        using ok Suc.prems(1) by (auto simp: plans_def same_dest_def)
      then show ?thesis
        using new f True by (auto simp: rd Let_def)
    next
      case False
      have "card (dom m - set ?A) < card (dom m - set A)"
        using Suc.prems(1) new(1) r by (intro psubset_card_mono) (auto simp: readable_def)
      then have fuel: "card (dom m - set ?A) < n"
        using Suc.prems(3) by linarith
      have "\<exists>A' w'. each (MaybeAdd S D n) (kids m i) ?A w = Some (0, A', w') \<and> plans m ?A w A' w' \<and> set (kids m i) \<subseteq> set A'"
      proof (rule each_steps [where I = "\<lambda>B z. ready m z \<and> set ?A \<subseteq> set B" and R = "plans m"])
        fix j B and z :: "('a, 'b) sync"
        assume j: "j \<in> set (kids m i)" and z: "ready m z \<and> set ?A \<subseteq> set B"
        have "card (dom m - set B) \<le> card (dom m - set ?A)"
          using z r by (intro card_mono) (auto simp: readable_def)
        moreover have "j \<in> dom m"
          using m j Suc.prems(1) by (auto simp: copyable_def)
        ultimately show "\<exists>B' z'. MaybeAdd S D n j B z = Some (0, B', z') \<and> plans m B z B' z' \<and> j \<in> set B'"
          using fuel z by (intro Suc.IH) auto
      next
        fix B and z :: "('a, 'b) sync" and B' z'
        assume "ready m z \<and> set ?A \<subseteq> set B" "plans m B z B' z'"
        then show "ready m z' \<and> set ?A \<subseteq> set B'"
          using ready_plans [of m z B B' z'] by (auto simp: plans_def)
      next
        show "ready m w \<and> set ?A \<subseteq> set ?A"
          using Suc.prems(2) by blast
      qed (simp add: plans_refl, rule plans_trans, assumption+, simp add: plans_def)
      then obtain A' w' where ch: "each (MaybeAdd S D n) (kids m i) ?A w = Some (0, A', w')" "plans m ?A w A' w'" "set (kids m i) \<subseteq> set A'"
        by blast
      have same: "m_src w' = m_src w" "okD (m_dest w')"
        using ch(2) by (simp_all add: plans_def planned_def kept_plan_def same_dest_def)
      obtain d D' where al: "lib_alloc D (m_dest w') = (d, D')" by force
      have high: "item_high m i \<noteq> 0 \<Longrightarrow> lib_find S (item_high m i) (m_src w) = None"
        using src.find_none [OF ok(1)] m l by (auto simp: copyable_def domIff)
      define w1 where "w1 = w'\<lparr>m_dest := D', m_srctodest := smap_set i d (m_srctodest w'), m_desttosrc := smap_set d i (m_desttosrc w')\<rparr>"
      define z where "z = add_item i (item_type m i) (lib_int S rs field_SIZEBYTES (m_src w)) w1"
      note ai = add_item_facts [where w = w1 and i = i and type = "item_type m i" and n = "lib_int S rs field_SIZEBYTES (m_src w)", folded z_def]
      have w1: "kept_plan w' w1" "m_srcids_add_playlist w1 = m_srcids_add_playlist w'" "m_srcids_add_tune w1 = m_srcids_add_tune w'"
        "m_srctodest w1 = smap_set i d (m_srctodest w')" "m_src w1 = m_src w" "m_dest w1 = D'"
        using same(1) by (simp_all add: w1_def kept_plan_def)
      have "planned m (insert i (set A' - set ?A)) (set A') w z"
      proof (rule planned_item [where d = d])
        show "planned m (set A' - set ?A) (set A') w w'"
          using ch(2) by (simp add: plans_def)
        show "kept_plan w' z"
          using w1(1) ai(3) by (simp add: kept_plan_def)
      qed (use new False ch(3) ai w1 in simp_all)
      moreover have "insert i (set A' - set ?A) = set A' - set A" "set A \<subseteq> set A'" "i \<in> set A'"
        using ch(2) new(1) by (auto simp: plans_def)
      moreover have "same_dest w z"
        using dest.allocates [OF same(2) al] ch(2) ai(5) w1(6) by (auto simp: plans_def same_dest_def)
      moreover have "set A' - set A \<subseteq> dom m"
        using calculation(2) ch(2) Suc.prems(1) by (auto simp: plans_def)
      ultimately have "plans m A w A' z"
        by (simp add: plans_def)
      moreover have "MaybeAdd S D (Suc n) i A w = Some (0, A', z)"
        using new False f ch(1) high same(1) by (cases "item_high m i = 0") (simp_all add: rd Let_def al z_def w1_def)
      ultimately show ?thesis
        using \<open>i \<in> set A'\<close> by blast
    qed
  qed
qed simp

text \<open>All candidates, and everything below them, have images.\<close>

lemma sync_add_plans:
  fixes w :: "('a, 'b) sync"
  assumes m: "copyable m" and w: "ready m w" "set (m_srcids_maybe_add w) \<subseteq> dom m" and n: "card (dom m) < n"
  shows "\<exists>X w'. sync_add S D n w = Some (0, w') \<and> same_dest w w' \<and> planned m X X w w' \<and> set (m_srcids_maybe_add w) \<subseteq> X \<and> X \<subseteq> dom m"
proof -
  have "\<exists>A' w'. each (MaybeAdd S D n) (m_srcids_maybe_add w) [] w = Some (0, A', w') \<and> plans m [] w A' w' \<and> set (m_srcids_maybe_add w) \<subseteq> set A'"
  proof (rule each_steps [where I = "\<lambda>B z. ready m z" and R = "plans m"])
    fix j B and z :: "('a, 'b) sync"
    assume j: "j \<in> set (m_srcids_maybe_add w)" and z: "ready m z"
    have "card (dom m - set B) \<le> card (dom m)"
      using m by (intro card_mono) (auto simp: readable_def copyable_def)
    then show "\<exists>B' z'. MaybeAdd S D n j B z = Some (0, B', z') \<and> plans m B z B' z' \<and> j \<in> set B'"
      using n z j w(2) by (intro MaybeAdd_plans [OF m]) auto
  next
    show "ready m w"
      by (rule w)
  qed (simp add: plans_refl, rule plans_trans, assumption+, rule ready_plans, assumption+, simp add: plans_def)
  then show ?thesis
    by (auto simp: sync_add_def plans_def)
qed

end

end
