(* ===== verification/SyncCopy.thy ===== *)
theory SyncCopy
  imports SyncAdd
begin

text \<open>
  The copying of the synchroniser: what \<^verbatim>\<open>CopyPlaylist\<close> and \<^verbatim>\<open>CopyMetadata\<close> write to a
  record of the destination, as functions on records, and that the four loops of
  \<^verbatim>\<open>Synchronise\<close> do just that, in order.
\<close>

section \<open>What is written\<close>

definition play_record :: "library \<Rightarrow> (u32 \<Rightarrow> u32) \<Rightarrow> u32 \<Rightarrow> item \<Rightarrow> item" where
  "play_record m img s r =
     r(field_TITLE := field_of m s field_TITLE, field_TYPE := number_text (item_type m s),
       field_CHILDREN := VectorToChildren (filter (\<lambda>d. d \<noteq> 0) (map img (kids m s))))"

definition meta_base :: "library \<Rightarrow> u32 \<Rightarrow> item \<Rightarrow> item" where
  "meta_base m s r = (\<lambda>f. if f \<noteq> 0 \<and> f < FIELD_COUNT then field_of m s f else r f)"

definition meta_type :: "item \<Rightarrow> item" where
  "meta_type r = (if parse_u32 (r field_TYPE) = TUNEHIGH then r(field_TYPE := number_text TUNE) else r)"

definition meta_title :: "library \<Rightarrow> u32 \<Rightarrow> item \<Rightarrow> item" where
  "meta_title m s r =
     (if r field_TITLE = [] then r(field_TITLE := StripExtension (c_str (GetLeafName (c_str (field_of m s field_PATH))))) else r)"

definition meta_record :: "library \<Rightarrow> u32 \<Rightarrow> item \<Rightarrow> item" where
  "meta_record m s r = meta_title m s (meta_type (meta_base m s r))"

text \<open>Writing a record that may be new.\<close>

definition write_item :: "(u32 \<Rightarrow> u32) \<Rightarrow> (u32 \<Rightarrow> item \<Rightarrow> item) \<Rightarrow> u32 \<Rightarrow> library \<Rightarrow> library" where
  "write_item img upd s l = l(img s \<mapsto> upd s (case l (img s) of None \<Rightarrow> blank_item (img s) | Some r \<Rightarrow> r))"

lemma write_item_other [simp]: "d \<noteq> img s \<Longrightarrow> write_item img upd s l d = l d"
  by (simp add: write_item_def)

lemma writes_other: "d \<notin> img ` set js \<Longrightarrow> fold (write_item img upd) js l d = l d"
  by (induction js arbitrary: l) auto

text \<open>Where images are distinct and writing twice is writing once, what is written stays.\<close>

lemma writes_at:
  assumes "inj_on img (insert s (set js))" "\<And>r. upd s (upd s r) = upd s r" "s \<in> set js"
  shows "fold (write_item img upd) js l (img s) =
    Some (upd s (case l (img s) of None \<Rightarrow> blank_item (img s) | Some r \<Rightarrow> r))"
  using assms(1,3)
proof (induction js arbitrary: l)
  case (Cons i js)
  show ?case
  proof (cases "s \<in> set js")
    case True
    then have ih: "fold (write_item img upd) js (write_item img upd i l) (img s) =
        Some (upd s (case write_item img upd i l (img s) of None \<Rightarrow> blank_item (img s) | Some r \<Rightarrow> r))"
      using Cons by (auto simp: insert_commute insert_absorb intro: inj_on_subset)
    show ?thesis
    proof (cases "i = s")
      case True
      moreover have "write_item img upd s l (img s) = Some (upd s (case l (img s) of None \<Rightarrow> blank_item (img s) | Some r \<Rightarrow> r))"
        by (simp add: write_item_def)
      ultimately show ?thesis
        using ih assms(2) by simp
    next
      case False
      then have "img s \<noteq> img i"
        using Cons.prems(1) by (auto simp: inj_on_def)
      then show ?thesis
        using ih by simp
    qed
  next
    case False
    then have "i = s" "img s \<notin> img ` set js"
      using Cons.prems by (auto simp: inj_on_def)
    then show ?thesis
      using writes_other [of "img s" img js upd "write_item img upd s l"] by (simp add: write_item_def [of img upd s l])
  qed
qed simp

lemma play_record_twice: "play_record m img s (play_record m img s r) = play_record m img s r"
  by (simp add: play_record_def fun_upd_twist)

lemma meta_record_twice: "meta_record m s (meta_record m s r) = meta_record m s r"
proof -
  have "meta_record m s r f = r f" if "\<not> (f \<noteq> 0 \<and> f < FIELD_COUNT)" for f
    using that by (auto simp: meta_record_def meta_title_def meta_type_def meta_base_def field_TITLE_def field_TYPE_def FIELD_COUNT_def)
  then have "meta_base m s (meta_record m s r) = meta_base m s r"
    by (auto simp: meta_base_def fun_eq_iff)
  then show ?thesis
    by (simp add: meta_record_def)
qed

section \<open>Images\<close>

definition steady :: "('a, 'b) sync \<Rightarrow> ('a, 'b) sync \<Rightarrow> bool" where
  "steady w w' \<longleftrightarrow> m_src w' = m_src w \<and> m_dry_run w' = m_dry_run w \<and> smap_ok (m_srctodest w') \<and> image_of w' = image_of w \<and>
     m_srcids_add_tune w' = m_srcids_add_tune w \<and> m_srcids_amend_metadata w' = m_srcids_amend_metadata w \<and>
     m_srcids_add_playlist w' = m_srcids_add_playlist w \<and> m_srcids_amend_playlist w' = m_srcids_amend_playlist w"

lemma steady_refl: "smap_ok (m_srctodest w) \<Longrightarrow> steady w w"
  by (simp add: steady_def)

lemma steady_trans: "steady w w' \<Longrightarrow> steady w' w'' \<Longrightarrow> steady w w''"
  by (simp add: steady_def)

lemma srctodest_at_image:
  assumes "smap_ok (m_srctodest w)" "srctodest_at k w = (d, w')"
  shows "d = image_of w k \<and> steady w w' \<and> m_dest w' = m_dest w"
proof (cases "smap_find (m_srctodest w) k")
  case None
  have "image_of (w\<lparr>m_srctodest := smap_set k 0 (m_srctodest w)\<rparr>) x = image_of w x" for x
    using assms(1) None by (simp add: image_of_def)
  then show ?thesis
    using assms None by (auto simp: srctodest_at_def steady_def image_of_def [of w k])
qed (use assms in \<open>auto simp: srctodest_at_def steady_def image_of_def\<close>)

lemma image_ids_images:
  "smap_ok (m_srctodest w) \<Longrightarrow> \<exists>w'. image_ids js w = (filter (\<lambda>d. d \<noteq> 0) (map (image_of w) js), w') \<and> steady w w' \<and> m_dest w' = m_dest w"
proof (induction js arbitrary: w)
  case (Cons i js)
  obtain d w1 where a: "srctodest_at i w = (d, w1)" by force
  note s = srctodest_at_image [OF Cons.prems a]
  then have "smap_ok (m_srctodest w1)"
    by (simp add: steady_def)
  from Cons.IH [OF this] s a steady_trans show ?case
    by (fastforce simp: steady_def)
qed (simp add: steady_refl)

section \<open>The operations\<close>

context two_stores
begin

lemma find_or_add_found:
  assumes ok: "okD x" and d: "d \<noteq> 0" and room: "0 < room x"
  shows "\<exists>c x'. find_or_add D d x = (c, x') \<and> okD x' \<and> atD c d x' \<and> room x \<le> Suc (room x') \<and>
    libD x' = (libD x)(d \<mapsto> case libD x d of None \<Rightarrow> blank_item d | Some r \<Rightarrow> r)"
proof (cases "lib_find D d x")
  case None
  then have none: "libD x d = None"
    using dest.find_none [OF ok] by blast
  obtain c y where "lib_add D x = (c, y)" by force
  then show ?thesis
    using dest.adds [OF ok none d room _ refl, of c y] None none by (auto simp: find_or_add_def)
next
  case (Some c)
  then obtain r where "libD x d = Some r" "atD c d x"
    using dest.found_record [OF ok] by blast
  then show ?thesis
    using Some ok by (auto simp: find_or_add_def fun_upd_idem)
qed

definition writable :: "library \<Rightarrow> (u32 \<Rightarrow> u32) \<Rightarrow> nat \<Rightarrow> ('a, 'b) sync \<Rightarrow> bool" where
  "writable m img k w \<longleftrightarrow> ready m w \<and> \<not> m_dry_run w \<and> image_of w = img \<and> k \<le> room (m_dest w)"

definition wrote :: "(library \<Rightarrow> library) \<Rightarrow> ('a, 'b) sync \<Rightarrow> ('a, 'b) sync \<Rightarrow> bool" where
  "wrote h w w' \<longleftrightarrow> steady w w' \<and> okD (m_dest w') \<and> libD (m_dest w') = h (libD (m_dest w)) \<and> room (m_dest w) \<le> Suc (room (m_dest w'))"

lemma writable_wrote: "writable m img (Suc k) w \<Longrightarrow> wrote h w w' \<Longrightarrow> writable m img k w'"
  by (auto simp: writable_def wrote_def ready_def steady_def)

text \<open>What happens before the writing.\<close>

lemma wrote_before:
  assumes "steady w v" "m_dest v = m_dest w" "wrote h v w'"
  shows "wrote h w w'"
  using assms steady_trans [of w v w'] by (simp add: wrote_def)

lemma CopyPlaylist_writes:
  fixes w :: "('a, 'b) sync"
  assumes m: "readable m" and w: "writable m img (Suc k) w" and s: "s \<in> dom m" "img s \<noteq> 0"
  shows "\<exists>w'. CopyPlaylist S D s (img s) w = Some (0, w') \<and> wrote (write_item img (play_record m img) s) w w'"
proof -
  have ok: "okS (m_src w)" "okD (m_dest w)" and l: "libS (m_src w) = m" and dry: "\<not> m_dry_run w" and img: "image_of w = img"
    and sm: "smap_ok (m_srctodest w)" and room: "0 < room (m_dest w)"
    using w by (auto simp: writable_def ready_def)
  obtain rs where f: "lib_find S s (m_src w) = Some rs"
    using s(1) src.find_none [OF ok(1), of s] l by (auto simp: domIff)
  note rd = src.read_record [OF ok(1) m [folded l] f, unfolded l]
  have small: "field_TITLE < FIELD_COUNT" "field_TITLE \<noteq> field_ID" "field_CHILDREN < FIELD_COUNT" "field_CHILDREN \<noteq> field_ID"
    by (simp_all add: field_TITLE_def field_CHILDREN_def field_ID_def FIELD_COUNT_def)
  have title: "lib_str S rs field_TITLE (m_src w) = field_of m s field_TITLE"
    using src.field_read(1) [OF ok(1) src.find_at [OF ok(1) f] small(1)] l by simp
  obtain w1 where i: "image_ids (kids m s) w = (filter (\<lambda>d. d \<noteq> 0) (map img (kids m s)), w1)" "steady w w1" "m_dest w1 = m_dest w"
    using image_ids_images [OF sm, of "kids m s"] img by auto
  obtain c x where fa: "find_or_add D (img s) (m_dest w) = (c, x)" "okD x" "atD c (img s) x" "room (m_dest w) \<le> Suc (room x)"
    "libD x = (libD (m_dest w))(img s \<mapsto> case libD (m_dest w) (img s) of None \<Rightarrow> blank_item (img s) | Some r \<Rightarrow> r)"
    using find_or_add_found [OF ok(2) s(2) room] by blast
  define r where "r = (case libD (m_dest w) (img s) of None \<Rightarrow> blank_item (img s) | Some r \<Rightarrow> r)"
  have lx: "libD x (img s) = Some r"
    by (simp add: fa(5) r_def)
  note 1 = dest.set_str [OF fa(2,3) lx small(1,2) refl, of "field_of m s field_TITLE"]
  let ?x1 = "lib_set_str D c field_TITLE (field_of m s field_TITLE) x"
  let ?x2 = "lib_set_int D c field_TYPE (item_type m s) ?x1" and ?ids = "VectorToChildren (filter (\<lambda>d. d \<noteq> 0) (map img (kids m s)))"
  have 2: "okD ?x2" "atD c (img s) ?x2" "libD ?x2 = (libD x)(img s \<mapsto> r(field_TITLE := field_of m s field_TITLE, field_TYPE := number_text (item_type m s)))"
    "room ?x2 = room x"
    using 1 dest.set_type [of ?x1 c "img s" _ _ "item_type m s", OF _ _ _ refl] by auto
  let ?x3 = "lib_set_str D c field_CHILDREN ?ids ?x2"
  have 3: "okD ?x3" "libD ?x3 = (libD x)(img s \<mapsto> play_record m img s r)" "room ?x3 = room x"
    using 2 dest.set_str [of ?x2 c "img s" _ field_CHILDREN _ ?ids, OF _ _ _ small(3,4) refl] by (auto simp: play_record_def)
  obtain rc x4 where c: "lib_commit D c ?x3 = (rc, x4)" by force
  have 4: "rc = 0" "okD x4" "libD x4 = (libD x)(img s \<mapsto> play_record m img s r)" "room x4 = room x"
    using dest.commits [OF 3(1) c] 3 by auto
  have "CopyPlaylist S D s (img s) w = Some (0, w1\<lparr>m_dest := x4\<rparr>)"
    using f dry i(2,3) c 4(1) by (auto simp: CopyPlaylist_def rd title i(1) fa(1) steady_def Let_def)
  moreover have "libD x4 = write_item img (play_record m img) s (libD (m_dest w))"
    by (simp add: 4(3) fa(5) write_item_def r_def)
  moreover have "steady w (w1\<lparr>m_dest := x4\<rparr>)"
    using i(2) by (simp add: steady_def image_of_def fun_eq_iff)
  ultimately show ?thesis
    using 4 fa(4) by (auto simp: wrote_def)
qed


lemma set_fields:
  assumes "okD x" "atD c d x" "libD x d = Some r" "\<forall>f\<in>set js. f \<noteq> field_ID \<and> f < FIELD_COUNT"
  shows "okD (fold (\<lambda>f. lib_set_str D c f (v f)) js x) \<and> atD c d (fold (\<lambda>f. lib_set_str D c f (v f)) js x) \<and>
    libD (fold (\<lambda>f. lib_set_str D c f (v f)) js x) = (libD x)(d \<mapsto> \<lambda>f. if f \<in> set js then v f else r f) \<and>
    room (fold (\<lambda>f. lib_set_str D c f (v f)) js x) = room x"
  using assms
proof (induction js arbitrary: x r)
  case Nil
  then show ?case
    by (auto simp: fun_upd_idem)
next
  case (Cons f js)
  have 1: "okD (lib_set_str D c f (v f) x) \<and> atD c d (lib_set_str D c f (v f) x) \<and>
      libD (lib_set_str D c f (v f) x) = (libD x)(d \<mapsto> r(f := v f)) \<and> room (lib_set_str D c f (v f) x) = room x"
    using Cons.prems by (intro dest.set_str [OF Cons.prems(1-3) _ _ refl]) auto
  have "(\<lambda>g. if g \<in> set js then v g else (r(f := v f)) g) = (\<lambda>g. if g \<in> set (f # js) then v g else r g)"
    by auto
  moreover have "libD (lib_set_str D c f (v f) x) d = Some (r(f := v f))"
    using 1 by simp
  ultimately show ?case
    using Cons.IH [of "lib_set_str D c f (v f) x" "r(f := v f)"] 1 Cons.prems(4) by (simp del: fun_upd_apply)
qed

lemma set_type_meta:
  assumes ok: "okD x" "atD c d x" and r: "libD x d = Some r"
  defines "y \<equiv> (if lib_int D c field_TYPE x = TUNEHIGH then lib_set_int D c field_TYPE TUNE x else x)"
  shows "okD y \<and> atD c d y \<and> libD y = (libD x)(d \<mapsto> meta_type r) \<and> room y = room x"
proof -
  have "lib_int D c field_TYPE x = parse_u32 (r field_TYPE)"
    by (rule dest.reads_int [OF ok r]) (simp add: field_TYPE_def FIELD_COUNT_def)
  then show ?thesis
    using ok r dest.set_type [OF ok r refl, of TUNE] by (simp add: y_def meta_type_def fun_upd_idem)
qed

lemma set_title_meta:
  fixes m s
  assumes ok: "okD x" "atD c d x" and r: "libD x d = Some r"
  defines "t \<equiv> StripExtension (c_str (GetLeafName (c_str (field_of m s field_PATH))))"
  defines "y \<equiv> (if lib_str D c field_TITLE x = [] then lib_set_str D c field_TITLE t x else x)"
  shows "okD y \<and> atD c d y \<and> libD y = (libD x)(d \<mapsto> meta_title m s r) \<and> room y = room x"
proof -
  have small: "field_TITLE < FIELD_COUNT" "field_TITLE \<noteq> field_ID"
    by (simp_all add: field_TITLE_def field_ID_def FIELD_COUNT_def)
  have "lib_str D c field_TITLE x = r field_TITLE"
    by (rule dest.reads_str [OF ok r small(1)])
  then show ?thesis
    using ok r dest.set_str [OF ok r small refl, of t] by (simp add: y_def meta_title_def t_def fun_upd_idem)
qed

lemma CopyMetadata_writes:
  fixes w :: "('a, 'b) sync"
  assumes w: "writable m img (Suc k) w" and s: "s \<in> dom m" "img s \<noteq> 0"
  shows "\<exists>w'. CopyMetadata S D s (img s) w = (0, w') \<and> wrote (write_item img (meta_record m) s) w w'"
proof -
  have ok: "okS (m_src w)" "okD (m_dest w)" and l: "libS (m_src w) = m" and dry: "\<not> m_dry_run w" and sm: "smap_ok (m_srctodest w)"
    and room: "0 < room (m_dest w)"
    using w by (auto simp: writable_def ready_def)
  obtain rs where f: "lib_find S s (m_src w) = Some rs"
    using s(1) src.find_none [OF ok(1), of s] l by (auto simp: domIff)
  have str: "lib_str S rs g (m_src w) = field_of m s g" if "g < FIELD_COUNT" for g
    using src.field_read(1) [OF ok(1) src.find_at [OF ok(1) f] that] l by simp
  have path: "field_PATH < FIELD_COUNT"
    by (simp add: field_PATH_def FIELD_COUNT_def)
  obtain c x where fa: "find_or_add D (img s) (m_dest w) = (c, x)" "okD x" "atD c (img s) x" "room (m_dest w) \<le> Suc (room x)"
    "libD x = (libD (m_dest w))(img s \<mapsto> case libD (m_dest w) (img s) of None \<Rightarrow> blank_item (img s) | Some r \<Rightarrow> r)"
    using find_or_add_found [OF ok(2) s(2) room] by blast
  define r where "r = (case libD (m_dest w) (img s) of None \<Rightarrow> blank_item (img s) | Some r \<Rightarrow> r)"
  have lx: "libD x (img s) = Some r"
    by (simp add: fa(5) r_def)
  let ?x1 = "fold (\<lambda>f. lib_set_str D c f (lib_str S rs f (m_src w))) [1..<FIELD_COUNT] x"
  have "(\<lambda>g. if g \<in> set [1..<FIELD_COUNT] then lib_str S rs g (m_src w) else r g) = meta_base m s r"
    using str by (auto simp: meta_base_def fun_eq_iff)
  then have 1: "okD ?x1" "atD c (img s) ?x1" "libD ?x1 = (libD x)(img s \<mapsto> meta_base m s r)" "room ?x1 = room x"
    using set_fields [OF fa(2,3) lx, of "[1..<FIELD_COUNT]" "\<lambda>f. lib_str S rs f (m_src w)"] by (auto simp: field_ID_def)
  define x2 where "x2 = (if lib_int D c field_TYPE ?x1 = TUNEHIGH then lib_set_int D c field_TYPE TUNE ?x1 else ?x1)"
  have 2: "okD x2" "atD c (img s) x2" "libD x2 = (libD x)(img s \<mapsto> meta_type (meta_base m s r))" "room x2 = room x"
    using set_type_meta [OF 1(1,2), of "meta_base m s r", folded x2_def] 1(3,4) by auto
  define x3 where "x3 = (if lib_str D c field_TITLE x2 = [] then
      lib_set_str D c field_TITLE (StripExtension (c_str (GetLeafName (c_str (field_of m s field_PATH))))) x2 else x2)"
  have 3: "okD x3" "libD x3 = (libD x)(img s \<mapsto> meta_record m s r)" "room x3 = room x"
    using set_title_meta [OF 2(1,2), of "meta_type (meta_base m s r)" m s, folded x3_def] 2(3,4) by (auto simp: meta_record_def)
  obtain rc x4 where c: "lib_commit D c x3 = (rc, x4)" by force
  have 4: "rc = 0" "okD x4" "libD x4 = (libD x)(img s \<mapsto> meta_record m s r)" "room x4 = room x"
    using dest.commits [OF 3(1) c] 3 by auto
  have "CopyMetadata S D s (img s) w = (0, w\<lparr>m_dest := x4\<rparr>)"
    unfolding CopyMetadata_def f fa(1) Let_def option.case prod.case str [OF path] x2_def [symmetric] x3_def [symmetric] c
    using dry 4(1) by simp
  moreover have "libD x4 = write_item img (meta_record m) s (libD (m_dest w))"
    by (simp add: 4(3) fa(5) write_item_def r_def)
  moreover have "steady w (w\<lparr>m_dest := x4\<rparr>)"
    using sm by (simp add: steady_def image_of_def fun_eq_iff)
  ultimately show ?thesis
    using 4 fa(4) by (auto simp: wrote_def)
qed


text \<open>An event, a count and the look-up of the image come before each copy.\<close>

lemma writable_before:
  assumes "writable m img k w" "steady w v" "m_dest v = m_dest w"
  shows "writable m img k v"
  using assms by (auto simp: writable_def ready_def steady_def)

lemma fired_steady: "writable m img k w \<Longrightarrow> steady w (Fire e w) \<and> m_dest (Fire e w) = m_dest w"
  by (auto simp: writable_def ready_def Fire_def steady_def image_of_def fun_eq_iff)

lemma looked_up:
  assumes "writable m img k w"
  shows "\<exists>v. srctodest_at s w = (img s, v) \<and> steady w v \<and> m_dest v = m_dest w"
  using assms srctodest_at_image [of w s] by (cases "srctodest_at s w") (auto simp: writable_def ready_def)

lemma fired_and_looked_up:
  assumes "writable m img k w"
  shows "\<exists>v. srctodest_at s (Fire e w) = (img s, v) \<and> steady w v \<and> m_dest v = m_dest w \<and> writable m img k v"
  using fired_steady [OF assms, of e] looked_up [OF writable_before [OF assms, of "Fire e w"], of s] writable_before [OF assms]
    steady_trans [of w "Fire e w"] by metis

lemma AddPlaylist_writes:
  fixes w :: "('a, 'b) sync"
  assumes m: "readable m" and w: "writable m img (Suc k) w" and s: "s \<in> dom m" "img s \<noteq> 0"
  shows "\<exists>w'. AddPlaylist S D n s j w = Some (0, w') \<and> wrote (write_item img (play_record m img) s) w w'"
proof -
  obtain v where v: "srctodest_at s (Fire (OnAddPlaylist s j n) w) = (img s, v)" "steady w v" "m_dest v = m_dest w" "writable m img (Suc k) v"
    using fired_and_looked_up [OF w] by blast
  show ?thesis
    using CopyPlaylist_writes [OF m v(4) s] wrote_before [OF v(2,3)] by (auto simp: AddPlaylist_def v(1))
qed

lemma AmendPlaylist_writes:
  fixes w :: "('a, 'b) sync"
  assumes m: "readable m" and w: "writable m img (Suc k) w" and s: "s \<in> dom m" "img s \<noteq> 0"
  shows "\<exists>w'. AmendPlaylist S D n s j w = Some (0, w') \<and> wrote (write_item img (play_record m img) s) w w'"
proof -
  let ?w = "w\<lparr>m_statistics := (m_statistics w)\<lparr>playlists_modified := playlists_modified (m_statistics w) + 1\<rparr>\<rparr>"
  have s0: "steady w ?w" "m_dest ?w = m_dest w"
    using w by (auto simp: steady_def writable_def ready_def image_of_def fun_eq_iff)
  obtain v where v: "srctodest_at s (Fire (OnAmendPlaylist s j n) ?w) = (img s, v)" "steady ?w v" "m_dest v = m_dest ?w" "writable m img (Suc k) v"
    using fired_and_looked_up [OF writable_before [OF w s0]] by blast
  show ?thesis
    using CopyPlaylist_writes [OF m v(4) s] wrote_before [OF steady_trans [OF s0(1) v(2)]] v(3) by (auto simp: AmendPlaylist_def v(1))
qed

lemma AmendTune_writes:
  fixes w :: "('a, 'b) sync"
  assumes w: "writable m img (Suc k) w" and s: "s \<in> dom m" "img s \<noteq> 0"
  shows "\<exists>w'. AmendTune S D n s j w = Some (0, w') \<and> wrote (write_item img (meta_record m) s) w w'"
proof -
  obtain v where v: "srctodest_at s (Fire (OnAmendMetadata s j n) w) = (img s, v)" "steady w v" "m_dest v = m_dest w" "writable m img (Suc k) v"
    using fired_and_looked_up [OF w] by blast
  show ?thesis
    using CopyMetadata_writes [OF v(4) s] wrote_before [OF v(2,3)] by (auto simp: AmendTune_def v(1))
qed

lemma each_numbered_writes:
  fixes w :: "('a, 'b) sync"
  assumes f: "\<And>s j k w. s \<in> set js \<Longrightarrow> writable m img (Suc k) w \<Longrightarrow> \<exists>w'. f s j w = Some (0, w') \<and> wrote (h s) w w'"
  shows "writable m img (length js + k) w \<Longrightarrow> \<exists>w'. each_numbered f j js w = Some (0, w') \<and> writable m img k w' \<and> steady w w' \<and>
    libD (m_dest w') = fold h js (libD (m_dest w))"
  using f
proof (induction js arbitrary: j w)
  case Nil
  then show ?case
    by (auto simp: writable_def ready_def intro: steady_refl)
next
  case (Cons s js)
  have "writable m img (Suc (length js + k)) w"
    using Cons.prems(1) by simp
  then obtain w1 where 1: "f s j w = Some (0, w1)" "wrote (h s) w w1" "writable m img (length js + k) w1"
    using Cons.prems(2) [of s "length js + k" w j] writable_wrote by auto
  obtain w2 where 2: "each_numbered f (j + 1) js w1 = Some (0, w2)" "writable m img k w2" "steady w1 w2"
    "libD (m_dest w2) = fold h js (libD (m_dest w1))"
    using Cons.IH [OF 1(3), of "j + 1"] Cons.prems(2) by (meson list.set_intros(2))
  show ?case
    using 1 2 steady_trans [of w w1 w2] by (auto simp: wrote_def)
qed

end

text \<open>Where the content of every file can be copied.\<close>

locale content_stores = two_stores S libS atS okS D libD atD okD room
  for S :: "('a, 'c, 's) library_ops" and libS atS okS and D :: "('b, 'e, 't) library_ops" and libD atD okD room +
  assumes content: "okD x \<Longrightarrow> m_dest w = x \<Longrightarrow> \<exists>x'. copy_content S D s d w = Some (0, w\<lparr>m_dest := x'\<rparr>) \<and> okD x' \<and> libD x' = libD x \<and> room x' = room x"
begin

lemma AddTune_writes:
  fixes w :: "('a, 'b) sync"
  assumes w: "writable m img (Suc k) w" and s: "s \<in> dom m" "img s \<noteq> 0"
  shows "\<exists>w'. AddTune S D n s j w = Some (0, w') \<and> wrote (write_item img (meta_record m) s) w w'"
proof -
  obtain v where v: "srctodest_at s (Fire (OnAddFile s j n) w) = (img s, v)" "steady w v" "m_dest v = m_dest w" "writable m img (Suc k) v"
    using fired_and_looked_up [OF w] by blast
  obtain v1 where v1: "CopyMetadata S D s (img s) v = (0, v1)" "wrote (write_item img (meta_record m) s) v v1"
    using CopyMetadata_writes [OF v(4) s] by blast
  have dry: "\<not> m_dry_run v1"
    using v(4) v1(2) by (simp add: writable_def wrote_def steady_def)
  obtain x where x: "copy_content S D s (img s) v1 = Some (0, v1\<lparr>m_dest := x\<rparr>)" "okD x" "libD x = libD (m_dest v1)" "room x = room (m_dest v1)"
    using content [OF _ refl, of v1] v1(2) by (auto simp: wrote_def)
  have "wrote (write_item img (meta_record m) s) v (v1\<lparr>m_dest := x\<rparr>)"
    using v1(2) x(2-4) by (simp add: wrote_def steady_def image_of_def fun_eq_iff)
  then show ?thesis
    using wrote_before [OF v(2,3)] v1(1) dry x(1) s(2) by (auto simp: AddTune_def v(1) Let_def)
qed

text \<open>The copying stage as a function on the library, for any images.\<close>

lemma sync_copy_writes:
  fixes w :: "('a, 'b) sync"
  assumes m: "readable m"
    and w: "writable m img (length (m_srcids_amend_playlist w) + length (m_srcids_add_playlist w) +
      length (m_srcids_add_tune w) + length (m_srcids_amend_metadata w)) w"
    and s: "\<forall>s\<in>set (m_srcids_amend_playlist w) \<union> set (m_srcids_add_playlist w) \<union> set (m_srcids_add_tune w) \<union> set (m_srcids_amend_metadata w).
      s \<in> dom m \<and> img s \<noteq> 0"
  shows "\<exists>w'. sync_copy S D w = Some (0, w') \<and> okD (m_dest w') \<and> image_of w' = img \<and>
    libD (m_dest w') = fold (write_item img (meta_record m)) (m_srcids_add_tune w @ m_srcids_amend_metadata w)
      (fold (write_item img (play_record m img)) (m_srcids_amend_playlist w @ m_srcids_add_playlist w) (libD (m_dest w)))"
proof -
  let ?ap = "m_srcids_amend_playlist w" and ?pp = "m_srcids_add_playlist w" and ?at = "m_srcids_add_tune w" and ?am = "m_srcids_amend_metadata w"
  have "\<exists>w'. each_numbered (AmendPlaylist S D (length ?ap)) 0 ?ap w = Some (0, w') \<and> writable m img (length ?pp + length ?at + length ?am) w' \<and> steady w w' \<and>
      libD (m_dest w') = fold (write_item img (play_record m img)) ?ap (libD (m_dest w))"
    using w s by (intro each_numbered_writes AmendPlaylist_writes [OF m]) (auto simp: add.assoc)
  then obtain w1 where 1: "each_numbered (AmendPlaylist S D (length ?ap)) 0 ?ap w = Some (0, w1)"
    "writable m img (length ?pp + length ?at + length ?am) w1" "steady w w1"
    "libD (m_dest w1) = fold (write_item img (play_record m img)) ?ap (libD (m_dest w))"
    by blast
  have "\<exists>w'. each_numbered (AddPlaylist S D (length ?pp)) 0 ?pp w1 = Some (0, w') \<and> writable m img (length ?at + length ?am) w' \<and> steady w1 w' \<and>
      libD (m_dest w') = fold (write_item img (play_record m img)) ?pp (libD (m_dest w1))"
    using 1(2) s by (intro each_numbered_writes AddPlaylist_writes [OF m]) (auto simp: add.assoc)
  then obtain w2 where 2: "each_numbered (AddPlaylist S D (length ?pp)) 0 ?pp w1 = Some (0, w2)"
    "writable m img (length ?at + length ?am) w2" "steady w1 w2"
    "libD (m_dest w2) = fold (write_item img (play_record m img)) ?pp (libD (m_dest w1))"
    by blast
  have "\<exists>w'. each_numbered (AddTune S D (length ?at)) 0 ?at w2 = Some (0, w') \<and> writable m img (length ?am) w' \<and> steady w2 w' \<and>
      libD (m_dest w') = fold (write_item img (meta_record m)) ?at (libD (m_dest w2))"
    using 2(2) s by (intro each_numbered_writes AddTune_writes) (auto simp: add.assoc)
  then obtain w3 where 3: "each_numbered (AddTune S D (length ?at)) 0 ?at w2 = Some (0, w3)"
    "writable m img (length ?am) w3" "steady w2 w3"
    "libD (m_dest w3) = fold (write_item img (meta_record m)) ?at (libD (m_dest w2))"
    by blast
  have "\<exists>w'. each_numbered (AmendTune S D (length ?am)) 0 ?am w3 = Some (0, w') \<and> writable m img (0) w' \<and> steady w3 w' \<and>
      libD (m_dest w') = fold (write_item img (meta_record m)) ?am (libD (m_dest w3))"
    using 3(2) s by (intro each_numbered_writes AmendTune_writes) (auto simp: add.assoc)
  then obtain w4 where 4: "each_numbered (AmendTune S D (length ?am)) 0 ?am w3 = Some (0, w4)"
    "writable m img 0 w4" "steady w3 w4"
    "libD (m_dest w4) = fold (write_item img (meta_record m)) ?am (libD (m_dest w3))"
    by blast
  have lists: "m_srcids_add_playlist w1 = ?pp" "m_srcids_add_tune w2 = ?at" "m_srcids_amend_metadata w3 = ?am"
    using 1(3) 2(3) 3(3) by (simp_all add: steady_def)
  have "sync_copy S D w = Some (0, Fire (OnStage END) w4)"
    by (simp add: sync_copy_def 1(1) 2(1) 3(1) 4(1) lists)
  then show ?thesis
    using 4 1(4) 2(4) 3(4) by (auto simp: Fire_def writable_def ready_def image_of_def)
qed

end

end
