(* ===== verification/SyncMirror.thy ===== *)
theory SyncMirror
  imports SyncCopy
begin

text \<open>
  The abstract specification of the synchroniser: afterwards the destination is a mirror of the source,
  a tree with the same shape, names and tunes under other identifiers. It is met whenever the
  identifiers that the destination has allocated are fit for it.
\<close>

section \<open>The specification\<close>

definition mirrorable :: "library \<Rightarrow> bool" where
  "mirrorable m \<longleftrightarrow> copyable m \<and> BROWSE_ROOT \<in> dom m \<and> composite (item_type m BROWSE_ROOT) \<and>
     (\<forall>i\<in>dom m. item_type m i \<in> {TUNE, TUNEHIGH} \<longrightarrow> kids m i = [] \<and> field_of m i field_TITLE \<noteq> [])"

definition plain_dest :: "library \<Rightarrow> bool" where
  "plain_dest m \<longleftrightarrow> readable m \<and> BROWSE_ROOT \<in> dom m \<and> composite (item_type m BROWSE_ROOT) \<and> (\<forall>i. shown m i = kids m i)"

definition reached :: "library \<Rightarrow> u32 set" where
  "reached m = {(i, j). j \<in> set (shown m i)}\<^sup>* `` {BROWSE_ROOT}"

definition mirrored :: "library \<Rightarrow> library \<Rightarrow> (u32 \<Rightarrow> u32) \<Rightarrow> bool" where
  "mirrored m l img \<longleftrightarrow> img BROWSE_ROOT = BROWSE_ROOT \<and>
     (\<forall>s\<in>reached m. shown l (img s) = map img (shown m s) \<and> (s \<noteq> BROWSE_ROOT \<longrightarrow> item_name l (img s) = item_name m s) \<and>
        (composite (item_type m s) \<or> same_tune m l s (img s)))"

definition good_images :: "library \<Rightarrow> ('a, 'b) sync \<Rightarrow> bool" where
  "good_images m w \<longleftrightarrow> inj_on (image_of w) {s. image_of w s \<noteq> 0} \<and> (\<forall>s. image_of w s \<noteq> 0 \<longrightarrow> child_ok (image_of w s)) \<and>
     (\<forall>s\<in>dom (smap_find (m_srctodest w)). item_type m s \<noteq> FILE \<longrightarrow> image_of w s \<noteq> 0)"

section \<open>Plans\<close>

text \<open>What the three stages before the copying have prepared; \<^verbatim>\<open>l\<close> is the destination then.\<close>

definition plan_ok :: "library \<Rightarrow> library \<Rightarrow> library \<Rightarrow> ('a, 'b) sync \<Rightarrow> bool" where
  "plan_ok m m' l w \<longleftrightarrow>
     (let seen = set (m_srcids_seen w); mapped = dom (smap_find (m_srctodest w)); img = image_of w;
          AP = set (m_srcids_amend_playlist w); PP = set (m_srcids_add_playlist w);
          T = set (m_srcids_add_tune w) \<union> set (m_srcids_amend_metadata w)
      in BROWSE_ROOT \<in> seen \<and> img BROWSE_ROOT = BROWSE_ROOT \<and> seen \<subseteq> mapped \<and> mapped \<subseteq> dom m \<and>
        (\<forall>s\<in>mapped. item_type m s \<noteq> FILE \<longrightarrow> set (shown m s) \<subseteq> mapped) \<and>
        (\<forall>s\<in>seen. same_item m m' s (img s) \<and> l (img s) = m' (img s) \<and> (s \<in> AP \<or> map img (shown m s) = shown m' (img s)) \<and>
           (composite (item_type m s) \<or> same_tune m m' s (img s) \<or> s \<in> T)) \<and>
        (\<forall>s\<in>mapped - seen. if item_type m s = FILE then img s = 0 else if composite (item_type m s) then s \<in> PP else s \<in> T) \<and>
        AP \<subseteq> seen \<and> PP \<subseteq> mapped - seen \<and> T \<subseteq> mapped \<and>
        (\<forall>s\<in>T. item_type m s \<in> {TUNE, TUNEHIGH}) \<and> (\<forall>s\<in>PP. composite (item_type m s)) \<and>
        length (m_srcids_amend_playlist w) + length (m_srcids_add_playlist w) +
          length (m_srcids_add_tune w) + length (m_srcids_amend_metadata w) \<le> 4 * card (dom m))"

definition after_copy :: "library \<Rightarrow> ('a, 'b) sync \<Rightarrow> library \<Rightarrow> library" where
  "after_copy m w l =
     fold (write_item (image_of w) (meta_record m)) (m_srcids_add_tune w @ m_srcids_amend_metadata w)
       (fold (write_item (image_of w) (play_record m (image_of w))) (m_srcids_amend_playlist w @ m_srcids_add_playlist w) l)"

section \<open>Records that have been written\<close>

lemma types_distinct [simp]:
  "TUNE \<noteq> FILE" "TUNEHIGH \<noteq> FILE" "\<not> composite TUNE" "\<not> composite TUNEHIGH" "\<not> composite FILE" "TUNE \<noteq> TUNEHIGH"
  by (simp_all add: TUNE_def TUNEHIGH_def FILE_def composite_def PLAYLIST_def DIR_def)

lemma fields_distinct [simp]:
  "field_TITLE \<noteq> field_TYPE" "field_TITLE \<noteq> field_CHILDREN" "field_TYPE \<noteq> field_CHILDREN" "field_TYPE \<noteq> field_TITLE"
  "field_CHILDREN \<noteq> field_TITLE" "field_CHILDREN \<noteq> field_TYPE"
  "0 < field_TITLE" "0 < field_TYPE" "0 < field_CHILDREN"
  "field_TITLE < FIELD_COUNT" "field_TYPE < FIELD_COUNT" "field_CHILDREN < FIELD_COUNT"
  "f \<in> insert field_SIZEBYTES (set compared_fields) \<Longrightarrow> f \<noteq> field_TITLE \<and> f \<noteq> field_TYPE \<and> f \<noteq> field_CHILDREN \<and> 0 < f \<and> f < FIELD_COUNT"
  by (auto simp: field_TITLE_def field_TYPE_def field_CHILDREN_def FIELD_COUNT_def compared_fields_def field_ARTIST_def
      field_ALBUM_def field_GENRE_def field_TRACKNUMBER_def field_YEAR_def field_SIZEBYTES_def)

lemma parse_number_text [simp]: "parse_u32 (number_text n) = n"
  by (simp add: number_text_def)

text \<open>A playlist that has been written.\<close>

lemma played_item:
  assumes l: "l d = Some (play_record m img s r)" and c: "\<forall>d\<in>set (filter (\<lambda>d. d \<noteq> 0) (map img (kids m s))). child_ok d"
  shows "item_type l d = item_type m s" "kids l d = filter (\<lambda>d. d \<noteq> 0) (map img (kids m s))"
    "s \<in> dom m \<Longrightarrow> item_name l d = item_name m s" "f \<in> insert field_SIZEBYTES (set compared_fields) \<Longrightarrow> field_of l d f = r f"
proof -
  have len: "length (filter (\<lambda>d. d \<noteq> 0) (map img (kids m s))) \<le> 20000"
    by (rule le_trans [OF length_filter_le]) (simp add: kids_length)
  show t: "item_type l d = item_type m s"
    using l by (simp add: item_type_def play_record_def)
  show "kids l d = filter (\<lambda>d. d \<noteq> 0) (map img (kids m s))"
    using l children_decode [OF len c] by (simp add: kids_def play_record_def)
  show "item_name l d = item_name m s" if "s \<in> dom m"
    using l t that by (auto simp: item_name_def play_record_def field_of_def)
  show "field_of l d f = r f" if "f \<in> insert field_SIZEBYTES (set compared_fields)"
    using l fields_distinct(13) [OF that] by (simp add: field_of_def play_record_def)
qed

text \<open>A tune that has been written.\<close>

lemma copied_item:
  assumes l: "l d = Some (meta_record m s r)" and s: "s \<in> dom m" "item_type m s \<in> {TUNE, TUNEHIGH}" "field_of m s field_TITLE \<noteq> []"
  shows "item_name l d = item_name m s" "kids l d = kids m s" "best_version m s = s \<Longrightarrow> same_tune m l s d"
proof -
  obtain q where q: "m s = Some q"
    using s(1) by blast
  have b: "meta_base m s r field_TYPE = q field_TYPE" "meta_base m s r field_TITLE = q field_TITLE" "meta_base m s r field_CHILDREN = q field_CHILDREN"
    using q by (simp_all add: meta_base_def field_of_def)
  have rec: "meta_record m s r = meta_type (meta_base m s r)"
    using s(3) q b by (simp add: meta_record_def meta_title_def meta_type_def field_of_def)
  have t: "item_type m s = parse_u32 (q field_TYPE)"
    using q by (simp add: item_type_def)
  show "item_name l d = item_name m s"
    using l q s(2) b t by (auto simp: item_name_def item_type_def rec meta_type_def)
  show "kids l d = kids m s"
    using l q b by (simp add: kids_def rec meta_type_def)
  have "field_of l d f = field_of m s f" if "f \<in> insert field_SIZEBYTES (set compared_fields)" for f
    using fields_distinct(13) [OF that] l by (simp add: field_of_def [of l] rec meta_type_def meta_base_def)
  then show "same_tune m l s d" if "best_version m s = s"
    using that by (simp add: same_tune_def)
qed

text \<open>What is shown of an item depends on its record alone.\<close>

lemma same_record:
  assumes "l d = l' d"
  shows "item_name l d = item_name l' d" "kids l d = kids l' d" "field_of l d f = field_of l' d f" "item_type l d = item_type l' d"
proof -
  show t: "item_type l d = item_type l' d"
    using assms by (simp add: item_type_def)
  show "item_name l d = item_name l' d" "kids l d = kids l' d" "field_of l d f = field_of l' d f"
    using assms by (cases "l' d"; simp add: item_name_def kids_def field_of_def t)+
qed

section \<open>Plans that mirror\<close>

text \<open>
  A plan that is carried out: the items that have images, and what comes of each.
\<close>

definition carried_out :: "library \<Rightarrow> library \<Rightarrow> library \<Rightarrow> ('a, 'b) sync \<Rightarrow> bool" where
  "carried_out m m' l w \<longleftrightarrow> mirrorable m \<and> plain_dest m' \<and> plan_ok m m' l w \<and> good_images m w"

definition live :: "library \<Rightarrow> ('a, 'b) sync \<Rightarrow> u32 set" where
  "live m w = {s \<in> dom (smap_find (m_srctodest w)). item_type m s \<noteq> FILE}"

definition plays :: "('a, 'b) sync \<Rightarrow> u32 set" where
  "plays w = set (m_srcids_amend_playlist w) \<union> set (m_srcids_add_playlist w)"

definition copies :: "('a, 'b) sync \<Rightarrow> u32 set" where
  "copies w = set (m_srcids_add_tune w) \<union> set (m_srcids_amend_metadata w)"

lemma seen_live:
  assumes c: "carried_out m m' l w" and s: "s \<in> set (m_srcids_seen w)"
  shows "s \<in> live m w" "same_item m m' s (image_of w s) \<and> l (image_of w s) = m' (image_of w s)"
proof -
  note mir = c [unfolded carried_out_def, THEN conjunct1] and plan = c [unfolded carried_out_def, THEN conjunct2, THEN conjunct2, THEN conjunct1]
  show same: "same_item m m' s (image_of w s) \<and> l (image_of w s) = m' (image_of w s)"
    using plan s by (simp add: plan_ok_def Let_def)
  have "s \<in> dom (smap_find (m_srctodest w))"
    using plan s by (auto simp: plan_ok_def Let_def)
  moreover have "item_type m s \<noteq> FILE"
    using same mir by (auto simp: same_item_def item_name_def mirrorable_def split: option.splits if_splits)
  ultimately show "s \<in> live m w"
    by (simp add: live_def)
qed

lemma live_facts:
  assumes c: "carried_out m m' l w" and assms: "s \<in> live m w"
  shows "s \<in> dom m" "image_of w s \<noteq> 0" "child_ok (image_of w s)" "item_name m s \<noteq> None"
    "composite (item_type m s) \<or> item_type m s \<in> {TUNE, TUNEHIGH} \<and> kids m s = [] \<and> field_of m s field_TITLE \<noteq> []"
proof -
  note mir = c [unfolded carried_out_def, THEN conjunct1] and plan = c [unfolded carried_out_def, THEN conjunct2, THEN conjunct2, THEN conjunct1]
    and good = c [unfolded carried_out_def, THEN conjunct2, THEN conjunct2, THEN conjunct2]
  show d: "s \<in> dom m"
    using plan assms by (auto simp: plan_ok_def Let_def live_def)
  show nz: "image_of w s \<noteq> 0"
    using good assms by (auto simp: good_images_def live_def)
  then show "child_ok (image_of w s)"
    using good by (simp add: good_images_def)
  show "item_name m s \<noteq> None"
    using d assms by (auto simp: item_name_def live_def)
  have "item_type m s \<in> {FILE, TUNE, TUNEHIGH, PLAYLIST, DIR}" "item_type m s \<noteq> FILE"
    using mir d assms unfolding mirrorable_def copyable_def live_def by blast+
  then show "composite (item_type m s) \<or> item_type m s \<in> {TUNE, TUNEHIGH} \<and> kids m s = [] \<and> field_of m s field_TITLE \<noteq> []"
    using mir d by (auto simp: mirrorable_def composite_def)
qed

lemma live_injective:
  assumes c: "carried_out m m' l w" and s: "s \<in> live m w" "t \<in> live m w" "image_of w s = image_of w t"
  shows "s = t"
proof -
  have "inj_on (image_of w) {s. image_of w s \<noteq> 0}"
    using c by (simp add: carried_out_def good_images_def)
  then show ?thesis
    using live_facts(2) [OF c s(1)] live_facts(2) [OF c s(2)] s(3) by (simp add: inj_on_def)
qed

lemma lists_live:
  assumes c: "carried_out m m' l w"
  shows "plays w \<subseteq> live m w" "copies w \<subseteq> live m w" "s \<in> copies w \<Longrightarrow> item_type m s \<in> {TUNE, TUNEHIGH}"
proof -
  note plan = c [unfolded carried_out_def, THEN conjunct2, THEN conjunct2, THEN conjunct1]
  show t: "item_type m s \<in> {TUNE, TUNEHIGH}" if "s \<in> copies w" for s
    using plan that unfolding plan_ok_def Let_def copies_def by blast
  have "copies w \<subseteq> dom (smap_find (m_srctodest w))"
    using plan unfolding plan_ok_def Let_def copies_def by blast
  then show "copies w \<subseteq> live m w"
    using t by (fastforce simp: live_def)
  have "set (m_srcids_amend_playlist w) \<subseteq> set (m_srcids_seen w)"
    "set (m_srcids_add_playlist w) \<subseteq> dom (smap_find (m_srctodest w))" "\<forall>s\<in>set (m_srcids_add_playlist w). composite (item_type m s)"
    using plan unfolding plan_ok_def Let_def by blast+
  then show "plays w \<subseteq> live m w"
    using seen_live(1) [OF c] unfolding plays_def by (fastforce simp: live_def)
qed

lemma written_images: "carried_out m m' l w \<Longrightarrow> js \<subseteq> live m w \<Longrightarrow> s \<in> live m w \<Longrightarrow> s \<notin> js \<Longrightarrow> image_of w s \<notin> image_of w ` js"
  using live_injective by blast

lemma result_record:
  assumes c: "carried_out m m' l w" and s: "s \<in> live m w"
  defines "g \<equiv> (if s \<in> plays w then Some (play_record m (image_of w) s (case l (image_of w s) of None \<Rightarrow> blank_item (image_of w s) | Some r \<Rightarrow> r))
    else l (image_of w s))"
  shows "after_copy m w l (image_of w s) =
    (if s \<in> copies w then Some (meta_record m s (case g of None \<Rightarrow> blank_item (image_of w s) | Some r \<Rightarrow> r)) else g)"
proof -
  let ?img = "image_of w" and ?P = "m_srcids_amend_playlist w @ m_srcids_add_playlist w" and ?T = "m_srcids_add_tune w @ m_srcids_amend_metadata w"
  have sets: "set ?P = plays w" "set ?T = copies w"
    by (simp_all add: plays_def copies_def)
  have inj: "inj_on ?img (insert s (plays w))" "inj_on ?img (insert s (copies w))"
    using live_injective [OF c] lists_live(1,2) [OF c] s by (auto intro!: inj_onI)
  have "fold (write_item ?img (play_record m ?img)) ?P l (?img s) = g"
  proof (cases "s \<in> plays w")
    case True
    then show ?thesis
      using writes_at [of ?img s ?P "play_record m ?img" l] inj(1) play_record_twice unfolding sets g_def by simp
  next
    case False
    then show ?thesis
      using writes_other [of "?img s" ?img ?P] written_images [OF c lists_live(1) [OF c] s] unfolding sets g_def by simp
  qed
  moreover have "fold (write_item ?img (meta_record m)) ?T x (?img s) =
      (if s \<in> copies w then Some (meta_record m s (case x (?img s) of None \<Rightarrow> blank_item (?img s) | Some r \<Rightarrow> r)) else x (?img s))" for x
  proof (cases "s \<in> copies w")
    case True
    then show ?thesis
      using writes_at [of ?img s ?T "meta_record m" x] inj(2) meta_record_twice unfolding sets by simp
  next
    case False
    then show ?thesis
      using writes_other [of "?img s" ?img ?T] written_images [OF c lists_live(2) [OF c] s] unfolding sets by simp
  qed
  ultimately show ?thesis
    by (simp add: after_copy_def)
qed

text \<open>The images of the children of an item are those of the children that are shown.\<close>

lemma live_kids:
  assumes c: "carried_out m m' l w" and s: "s \<in> live m w"
  shows "set (shown m s) \<subseteq> live m w" "filter (\<lambda>d. d \<noteq> 0) (map (image_of w) (kids m s)) = map (image_of w) (shown m s)"
proof -
  have cp: "copyable m" and plan: "plan_ok m m' l w"
    using c by (simp_all add: carried_out_def mirrorable_def)
  have "set (shown m s) \<subseteq> dom (smap_find (m_srctodest w))"
    using plan s by (auto simp: plan_ok_def Let_def live_def)
  moreover have "item_type m j \<noteq> FILE" if "j \<in> set (shown m s)" for j
    using that by (auto simp: shown_def item_name_def split: option.splits if_splits)
  ultimately show sub: "set (shown m s) \<subseteq> live m w"
    by (auto simp: live_def)
  have zero: "image_of w j = 0" if "j \<in> set (kids m s)" "item_name m j = None" for j
  proof -
    have "j \<in> dom m"
      using cp live_facts(1) [OF c s] that(1) unfolding copyable_def by blast
    then have f: "item_type m j = FILE"
      using that(2) by (auto simp: item_name_def split: if_splits)
    show ?thesis
    proof (cases "j \<in> dom (smap_find (m_srctodest w))")
      case True
      moreover have "j \<notin> set (m_srcids_seen w)"
        using seen_live(1) [OF c] f by (auto simp: live_def)
      ultimately show ?thesis
        using plan f by (auto simp: plan_ok_def Let_def)
    qed (simp add: image_of_def domIff)
  qed
  have "filter (\<lambda>d. d \<noteq> 0) (map (image_of w) js) = map (image_of w) (filter (\<lambda>j. item_name m j \<noteq> None) js)"
    if "\<forall>j\<in>set js. if item_name m j = None then image_of w j = 0 else image_of w j \<noteq> 0" for js
    using that by (induction js) (auto split: if_splits)
  moreover have "image_of w j \<noteq> 0" if "j \<in> set (kids m s)" "item_name m j \<noteq> None" for j
    using sub that live_facts(2) [OF c, of j] by (auto simp: shown_def)
  ultimately show "filter (\<lambda>d. d \<noteq> 0) (map (image_of w) (kids m s)) = map (image_of w) (shown m s)"
    using zero by (simp add: shown_def)
qed

text \<open>What an item comes to: its record has been written as a playlist or as a tune, or left alone.\<close>

lemma outcome:
  assumes c: "carried_out m m' l w" and s: "s \<in> live m w"
  obtains (played) r where "after_copy m w l (image_of w s) = Some (play_record m (image_of w) s r)"
      "composite (item_type m s) \<or> m' (image_of w s) = Some r \<and> same_tune m m' s (image_of w s)"
    | (copied) r where "after_copy m w l (image_of w s) = Some (meta_record m s r)" "item_type m s \<in> {TUNE, TUNEHIGH}"
    | (kept) "after_copy m w l (image_of w s) = m' (image_of w s)" "same_item m m' s (image_of w s)"
      "map (image_of w) (shown m s) = shown m' (image_of w s)" "composite (item_type m s) \<or> same_tune m m' s (image_of w s)"
proof -
  have plan: "plan_ok m m' l w"
    using c by (simp add: carried_out_def)
  note rr = result_record [OF c s]
  show thesis
  proof (cases "s \<in> copies w")
    case True
    then show thesis
      using copied rr lists_live(3) [OF c] by simp
  next
    case nc: False
    show thesis
    proof (cases "s \<in> set (m_srcids_seen w)")
      case True
      then have pf: "s \<in> set (m_srcids_amend_playlist w) \<or> map (image_of w) (shown m s) = shown m' (image_of w s)"
        "composite (item_type m s) \<or> same_tune m m' s (image_of w s)"
        using plan nc by (auto simp: plan_ok_def Let_def copies_def)
      have sl: "same_item m m' s (image_of w s)" "l (image_of w s) = m' (image_of w s)"
        using seen_live(2) [OF c True] by simp_all
      then obtain r where r: "m' (image_of w s) = Some r"
        using live_facts(4) [OF c s] by (auto simp: same_item_def item_name_def split: option.splits)
      show thesis
      proof (cases "s \<in> plays w")
        case True
        then show thesis
          using played [of r] rr nc r sl(2) pf(2) by simp
      next
        case False
        then show thesis
          using kept rr nc sl pf by (simp add: plays_def)
      qed
    next
      case False
      then have "if item_type m s = FILE then image_of w s = 0
          else if composite (item_type m s) then s \<in> set (m_srcids_add_playlist w) else s \<in> copies w"
        using plan s unfolding plan_ok_def Let_def live_def copies_def by blast
      then have "composite (item_type m s) \<and> s \<in> plays w"
        using s nc by (auto simp: live_def plays_def split: if_splits)
      then show thesis
        using played rr nc by simp
    qed
  qed
qed

lemma mirrored_item:
  assumes c: "carried_out m m' l w" and s: "s \<in> live m w"
  shows "item_name (after_copy m w l) (image_of w s) \<noteq> None"
    "s \<noteq> BROWSE_ROOT \<Longrightarrow> item_name (after_copy m w l) (image_of w s) = item_name m s"
    "kids (after_copy m w l) (image_of w s) = map (image_of w) (shown m s)"
    "composite (item_type m s) \<or> same_tune m (after_copy m w l) s (image_of w s)"
proof -
  let ?F = "after_copy m w l" and ?d = "image_of w s"
  have plain: "plain_dest m'" and best: "best_version m s = s"
    using c copyable_best by (auto simp: carried_out_def mirrorable_def)
  note lf = live_facts [OF c s]
  have "item_name ?F ?d \<noteq> None \<and> (s \<noteq> BROWSE_ROOT \<longrightarrow> item_name ?F ?d = item_name m s) \<and>
      kids ?F ?d = map (image_of w) (shown m s) \<and> (composite (item_type m s) \<or> same_tune m ?F s ?d)"
  proof (cases rule: outcome [OF c s, case_names played copied kept])
    case (played r)
    have "\<forall>d\<in>set (filter (\<lambda>d. d \<noteq> 0) (map (image_of w) (kids m s))). child_ok d"
      using live_kids [OF c s] live_facts(3) [OF c] by auto
    note pi = played_item [where l = ?F and d = ?d and m = m and img = "image_of w" and s = s and r = r, OF played(1) this]
    have "field_of ?F ?d f = field_of m' ?d f" if "m' ?d = Some r" "f \<in> insert field_SIZEBYTES (set compared_fields)" for f
      using pi(4) [OF that(2)] that(1) by (simp add: field_of_def [of m'])
    then have "composite (item_type m s) \<or> same_tune m ?F s ?d"
      using played(2) by (auto simp: same_tune_def)
    then show ?thesis
      using pi(2,3) lf(1,4) live_kids(2) [OF c s] by simp
  next
    case (copied r)
    have t: "kids m s = []" "field_of m s field_TITLE \<noteq> []"
      using copied(2) lf(5) by auto
    note ci = copied_item [where l = ?F and d = ?d and m = m and s = s and r = r, OF copied(1) lf(1) copied(2) t(2)]
    show ?thesis
      using ci(1,2) ci(3) [OF best] t(1) lf(4) by (simp add: shown_def)
  next
    case kept
    note sr = same_record [where l = ?F and l' = m' and d = ?d, OF kept(1)]
    have "item_name m' ?d \<noteq> None \<and> (s \<noteq> BROWSE_ROOT \<longrightarrow> item_name m' ?d = item_name m s)"
      using kept(2) lf(4) plain by (auto simp: same_item_def plain_dest_def item_name_def)
    moreover have "kids m' ?d = map (image_of w) (shown m s)"
      using plain kept(3) by (simp add: plain_dest_def)
    moreover have "same_tune m ?F s ?d = same_tune m m' s ?d"
      using sr(3) by (simp add: same_tune_def)
    ultimately show ?thesis
      using sr(1,2) kept(4) by simp
  qed
  then show "item_name ?F ?d \<noteq> None" "s \<noteq> BROWSE_ROOT \<Longrightarrow> item_name ?F ?d = item_name m s"
    "kids ?F ?d = map (image_of w) (shown m s)" "composite (item_type m s) \<or> same_tune m ?F s ?d"
    by blast+
qed

lemma carried_out_mirrored:
  assumes c: "carried_out m m' l w"
  shows "mirrored m (after_copy m w l) (image_of w)"
proof -
  have plan: "plan_ok m m' l w"
    using c by (simp add: carried_out_def)
  have "s \<in> live m w" if "(BROWSE_ROOT, s) \<in> {(i, j). j \<in> set (shown m i)}\<^sup>*" for s
    using that
  proof induction
    case base
    then show ?case
      using plan by (intro seen_live(1) [OF c]) (simp add: plan_ok_def Let_def)
  next
    case (step i j)
    then show ?case
      using live_kids(1) [OF c] by auto
  qed
  then have reached: "reached m \<subseteq> live m w"
    by (auto simp: reached_def)
  have "shown (after_copy m w l) (image_of w s) = map (image_of w) (shown m s)" if "s \<in> live m w" for s
  proof -
    have "filter (\<lambda>d. item_name (after_copy m w l) d \<noteq> None) (map (image_of w) (shown m s)) = map (image_of w) (shown m s)"
      using live_kids(1) [OF c that] mirrored_item(1) [OF c] by (intro filter_True) auto
    then show ?thesis
      unfolding shown_def [of "after_copy m w l"] mirrored_item(3) [OF c that] .
  qed
  moreover have "image_of w BROWSE_ROOT = BROWSE_ROOT"
    using plan by (simp add: plan_ok_def Let_def)
  ultimately show ?thesis
    using reached mirrored_item(2,4) [OF c] unfolding mirrored_def by blast
qed

end
