(* ===== verification/SyncPlan.thy ===== *)
theory SyncPlan
  imports SyncMirror
begin

text \<open>
  The stages of \<^verbatim>\<open>Synchronise\<close> put together: the plan that scanning, deleting and adding
  prepare, and the mirror that copying makes of it.
\<close>

section \<open>The stages before the copying\<close>

definition sync_plan ::
  "('a, 'c, 's) library_ops \<Rightarrow> ('b, 'e, 't) library_ops \<Rightarrow> nat \<Rightarrow> ('a, 'b) sync \<Rightarrow> (u32 \<times> ('a, 'b) sync) option" where
  "sync_plan S D n w = do {
     (rc, w) \<leftarrow> sync_scan S D n w;
     (if rc \<noteq> 0 then Some (rc, w) else do {
     (rc, w) \<leftarrow> sync_delete D n w;
     (if rc \<noteq> 0 then Some (rc, w) else sync_add S D n w) }) }"

lemma Synchronise_plan: "sync_plan S D n w = Some (0, w') \<Longrightarrow> Synchronise S D n w = sync_copy S D w'"
  by (auto simp: sync_plan_def Synchronise_def Option.bind_eq_Some_conv split: if_splits)

lemma shown_in_dom: "j \<in> set (shown m i) \<Longrightarrow> j \<in> dom m \<and> item_type m j \<noteq> FILE"
  by (auto simp: shown_def item_name_def split: option.splits if_splits)

lemma listed_in_dom: "BROWSE_ROOT \<in> dom m \<Longrightarrow> listed m \<subseteq> dom m"
  using shown_in_dom by (auto simp: listed_def)

lemma copyable_hidden:
  assumes "copyable m" "BROWSE_ROOT \<in> dom m"
  shows "high_hidden m"
  using assms(1) listed_in_dom [OF assms(2)] by (auto simp: copyable_def high_hidden_def)

lemma same_item_composite:
  assumes "mirrorable m" "plain_dest m'" "same_item m m' s d"
  shows "composite (item_type m' d) \<longleftrightarrow> composite (item_type m s)" "item_type m s \<noteq> FILE"
  using assms by (auto simp: same_item_def item_name_def mirrorable_def plain_dest_def split: option.splits if_splits)

lemma sset_size: "sset_ok s \<Longrightarrow> finite B \<Longrightarrow> set s \<subseteq> B \<Longrightarrow> length s \<le> card B"
  by (metis card_mono distinct_card sset_ok_def strict_sorted_iff)

text \<open>What the plan takes from the scan, for a source without high-quality versions.\<close>

lemma scanned:
  assumes m: "mirrorable m" and m': "plain_dest m'" and inv: "scan_inv m m' w"
    and st: "\<forall>s\<in>set (m_srcids_seen w). settled m m' w s"
  shows "dom (smap_find (m_srctodest w)) = set (m_srcids_seen w)" "set (m_srcids_seen w) \<subseteq> dom m"
    "set (m_srcids_maybe_add w) \<subseteq> dom m"
    "set (m_srcids_amend_playlist w) \<subseteq> set (m_srcids_seen w)"
    "b \<in> set (m_srcids_add_tune w) \<union> set (m_srcids_amend_metadata w) \<Longrightarrow> b \<in> set (m_srcids_seen w) \<and> item_type m b \<in> {TUNE, TUNEHIGH}"
    "s \<in> set (m_srcids_seen w) \<Longrightarrow> \<exists>d. smap_find (m_srctodest w) s = Some d \<and> same_item m m' s d \<and> d \<in> dom (smap_find (m_desttosrc w)) \<and>
       set (shown m s) \<subseteq> set (m_srcids_seen w) \<union> set (m_srcids_maybe_add w) \<and>
       (s \<in> set (m_srcids_amend_playlist w) \<or> set (shown m s) \<subseteq> set (m_srcids_seen w) \<and> map (smap_find (m_srctodest w)) (shown m s) = map Some (shown m' d)) \<and>
       (composite (item_type m s) \<or> same_tune m m' s d \<or> s \<in> set (m_srcids_add_tune w) \<union> set (m_srcids_amend_metadata w))"
proof -
  have c: "copyable m" and best: "best_version m x = x" for x
    using m copyable_best [of m] by (simp_all add: mirrorable_def)
  then have copied: "copied_as m m' s d = s" for s d
    by (simp add: copied_as_def)
  have ld: "listed m \<subseteq> dom m"
    using m by (intro listed_in_dom) (simp add: mirrorable_def)
  show seen: "set (m_srcids_seen w) \<subseteq> dom m" "set (m_srcids_maybe_add w) \<subseteq> dom m"
    using inv ld unfolding scan_inv_def by blast+
  have "best_version m ` set (m_srcids_seen w) = set (m_srcids_seen w)"
    using best by simp
  then show "dom (smap_find (m_srctodest w)) = set (m_srcids_seen w)"
    using inv unfolding scan_inv_def by blast
  show "set (m_srcids_amend_playlist w) \<subseteq> set (m_srcids_seen w)"
    using inv copied unfolding scan_inv_def by auto
  show "b \<in> set (m_srcids_seen w) \<and> item_type m b \<in> {TUNE, TUNEHIGH}"
    if "b \<in> set (m_srcids_add_tune w) \<union> set (m_srcids_amend_metadata w)"
  proof -
    have "\<exists>s d. b = best_version m s \<and> s \<in> set (m_srcids_seen w) \<and> same_item m m' s d \<and> \<not> composite (item_type m' d)"
      using inv that unfolding scan_inv_def by blast
    then obtain d where d: "b \<in> set (m_srcids_seen w)" "same_item m m' b d" "\<not> composite (item_type m' d)"
      by (auto simp: best)
    then have "item_type m b \<in> {FILE, TUNE, TUNEHIGH, PLAYLIST, DIR}"
      using c seen(1) unfolding copyable_def by blast
    then show ?thesis
      using d same_item_composite [OF m m' d(2)] by (auto simp: composite_def)
  qed
  assume s: "s \<in> set (m_srcids_seen w)"
  then obtain d where d: "smap_find (m_srctodest w) s = Some d" "same_item m m' s d" "d \<in> dom (smap_find (m_desttosrc w))"
    using scan_inv_seen [OF inv] by blast
  have sw: "settled m m' w s"
    using st s by blast
  show "\<exists>d. smap_find (m_srctodest w) s = Some d \<and> same_item m m' s d \<and> d \<in> dom (smap_find (m_desttosrc w)) \<and>
       set (shown m s) \<subseteq> set (m_srcids_seen w) \<union> set (m_srcids_maybe_add w) \<and>
       (s \<in> set (m_srcids_amend_playlist w) \<or> set (shown m s) \<subseteq> set (m_srcids_seen w) \<and> map (smap_find (m_srctodest w)) (shown m s) = map Some (shown m' d)) \<and>
       (composite (item_type m s) \<or> same_tune m m' s d \<or> s \<in> set (m_srcids_add_tune w) \<union> set (m_srcids_amend_metadata w))"
    using sw d same_item_composite(1) [OF m m' d(2)] unfolding settled_def best copied by auto
qed

text \<open>From what was scanned, and a destination that keeps what is matched, additions make a plan.\<close>

lemma plan_from_scan:
  assumes m: "mirrorable m" and m': "plain_dest m'" and inv: "scan_inv m m' w0"
    and st: "\<forall>s\<in>set (m_srcids_seen w0). settled m m' w0 s"
    and root: "BROWSE_ROOT \<in> set (m_srcids_seen w0)" "smap_find (m_srctodest w0) BROWSE_ROOT = Some BROWSE_ROOT"
    and none: "m_srcids_add_playlist w0 = []" and sp: "same_plan w0 w1" and pl: "planned m X X w1 w2" and X: "set (m_srcids_maybe_add w0) \<subseteq> X" "X \<subseteq> dom m"
    and l: "\<And>d. d \<in> dom (smap_find (m_desttosrc w0)) \<Longrightarrow> l d = m' d"
  shows "plan_ok m m' l w2"
proof -
  let ?seen = "set (m_srcids_seen w0)" and ?map2 = "dom (smap_find (m_srctodest w2))"
  note sc = scanned [OF m m' inv st]
  have fin: "finite (dom m)" and c: "copyable m"
    using m by (simp_all add: mirrorable_def copyable_def readable_def)
  have w1: "m_srcids_seen w1 = m_srcids_seen w0" "m_srctodest w1 = m_srctodest w0" "m_srcids_amend_playlist w1 = m_srcids_amend_playlist w0"
    "m_srcids_add_playlist w1 = []" "m_srcids_add_tune w1 = m_srcids_add_tune w0" "m_srcids_amend_metadata w1 = m_srcids_amend_metadata w0"
    using sp none by (simp_all add: same_plan_def)
  have w2: "m_srcids_seen w2 = m_srcids_seen w0" "m_srcids_amend_playlist w2 = m_srcids_amend_playlist w0" "m_srcids_amend_metadata w2 = m_srcids_amend_metadata w0"
    using pl w1 by (simp_all add: planned_def kept_plan_def)
  have u: "unmapped w1 X = X - ?seen"
    using sc(1) by (auto simp: unmapped_def w1(2) domIff)
  have find2: "smap_find (m_srctodest w2) s = smap_find (m_srctodest w0) s" if "s \<in> ?seen" for s
    using pl sc(1) that unfolding planned_def w1(2) by (auto simp: domIff)
  have "k \<in> ?map2 \<longleftrightarrow> k \<in> dom (smap_find (m_srctodest w0)) \<or> k \<in> X" for k
  proof -
    have "smap_find (m_srctodest w2) k = None \<longleftrightarrow> smap_find (m_srctodest w0) k = None \<and> k \<notin> X"
      using pl by (simp add: planned_def w1(2))
    then show ?thesis
      unfolding domIff by simp
  qed
  then have map2: "?map2 = ?seen \<union> X"
    unfolding sc(1) by blast
  have new: "if item_type m s = FILE then smap_find (m_srctodest w2) s = Some 0 else set (kids m s) \<subseteq> X" if "s \<in> X - ?seen" for s
    using pl that unfolding planned_def u by blast
  have lists: "set (m_srcids_add_playlist w2) = {x \<in> X - ?seen. composite (item_type m x)}"
    "set (m_srcids_add_tune w2) = set (m_srcids_add_tune w0) \<union> {x \<in> X - ?seen. item_type m x \<in> {TUNE, TUNEHIGH}}"
    using pl unfolding planned_def u w1 by auto
  have seen_item: "same_item m m' s (image_of w2 s) \<and> l (image_of w2 s) = m' (image_of w2 s) \<and> set (shown m s) \<subseteq> ?map2 \<and>
      (s \<in> set (m_srcids_amend_playlist w2) \<or> map (image_of w2) (shown m s) = shown m' (image_of w2 s)) \<and>
      (composite (item_type m s) \<or> same_tune m m' s (image_of w2 s) \<or> s \<in> set (m_srcids_add_tune w2) \<union> set (m_srcids_amend_metadata w2))"
    if s: "s \<in> ?seen" for s
  proof -
    obtain d where d: "smap_find (m_srctodest w0) s = Some d" "same_item m m' s d" "d \<in> dom (smap_find (m_desttosrc w0))"
      "set (shown m s) \<subseteq> ?seen \<union> set (m_srcids_maybe_add w0)"
      "s \<in> set (m_srcids_amend_playlist w0) \<or> set (shown m s) \<subseteq> ?seen \<and> map (smap_find (m_srctodest w0)) (shown m s) = map Some (shown m' d)"
      "composite (item_type m s) \<or> same_tune m m' s d \<or> s \<in> set (m_srcids_add_tune w0) \<union> set (m_srcids_amend_metadata w0)"
      using sc(6) [OF s] by blast
    have img: "image_of w2 s = d"
      using find2 [OF s] d(1) by (simp add: image_of_def)
    have "map (image_of w2) (shown m s) = shown m' d"
      if "set (shown m s) \<subseteq> ?seen" "map (smap_find (m_srctodest w0)) (shown m s) = map Some (shown m' d)"
    proof -
      have "map Some (map (image_of w2) (shown m s)) = map (smap_find (m_srctodest w0)) (shown m s)"
        using that(1) sc(6) find2 by (fastforce simp: image_of_def)
      then show ?thesis
        using that(2) by (simp only: inj_map_eq_map [of Some] inj_Some)
    qed
    then show ?thesis
      using d l [OF d(3)] X(1) unfolding img map2 w2 lists by blast
  qed
  have new_item: "set (shown m s) \<subseteq> ?map2" if "s \<in> X - ?seen" "item_type m s \<noteq> FILE" for s
    using new [OF that(1)] that(2) map2 by (auto simp: shown_def)
  have bounds: "length (m_srcids_amend_playlist w2) \<le> card (dom m)" "length (m_srcids_add_tune w2) \<le> card (dom m)"
    "length (m_srcids_amend_metadata w2) \<le> card (dom m)" "length (m_srcids_add_playlist w2) \<le> card (dom m)"
  proof -
    have ss: "sset_ok (m_srcids_amend_playlist w0)" "sset_ok (m_srcids_amend_metadata w0)" "sset_ok (m_srcids_add_tune w2)"
      using inv pl unfolding scan_inv_def planned_def w1 by blast+
    show "length (m_srcids_amend_playlist w2) \<le> card (dom m)" "length (m_srcids_amend_metadata w2) \<le> card (dom m)"
      unfolding w2 using sc(2,4,5) by (auto intro!: sset_size ss fin)
    show "length (m_srcids_add_tune w2) \<le> card (dom m)"
      by (rule sset_size [OF ss(3) fin]) (use sc(2,5) X(2) lists(2) in blast)
    show "length (m_srcids_add_playlist w2) \<le> card (dom m)"
      using pl X(2) unfolding planned_def w1(4) by (auto intro!: card_mono fin simp: unmapped_def)
  qed
  have kinds: "item_type m s \<in> {TUNE, TUNEHIGH}" if "s \<in> X - ?seen" "item_type m s \<noteq> FILE" "\<not> composite (item_type m s)" for s
  proof -
    have "item_type m s \<in> {FILE, TUNE, TUNEHIGH, PLAYLIST, DIR}"
      using c that(1) X(2) unfolding copyable_def by blast
    then show ?thesis
      using that(2,3) by (auto simp: composite_def)
  qed
  show ?thesis
    unfolding plan_ok_def Let_def w2
  proof (intro conjI ballI impI)
    show "image_of w2 BROWSE_ROOT = BROWSE_ROOT"
      using find2 root by (simp add: image_of_def)
    show "?seen \<subseteq> ?map2" "?map2 \<subseteq> dom m"
      using map2 sc(2) X(2) by auto
    show "set (shown m s) \<subseteq> ?map2" if "s \<in> ?map2" "item_type m s \<noteq> FILE" for s
      using that seen_item new_item map2 by blast
    show "if item_type m s = FILE then image_of w2 s = 0 else if composite (item_type m s) then s \<in> set (m_srcids_add_playlist w2)
        else s \<in> set (m_srcids_add_tune w2) \<union> set (m_srcids_amend_metadata w0)" if "s \<in> ?map2 - ?seen" for s
      using that new [of s] kinds [of s] lists map2 by (auto simp: image_of_def)
    show "set (m_srcids_add_playlist w2) \<subseteq> ?map2 - ?seen"
      "set (m_srcids_add_tune w2) \<union> set (m_srcids_amend_metadata w0) \<subseteq> ?map2"
      using lists map2 sc(5) by blast+
    show "item_type m s \<in> {TUNE, TUNEHIGH}" if "s \<in> set (m_srcids_add_tune w2) \<union> set (m_srcids_amend_metadata w0)" for s
      using that lists(2) sc(5) by blast
    show "composite (item_type m s)" if "s \<in> set (m_srcids_add_playlist w2)" for s
      using that lists(1) by blast
    show "length (m_srcids_amend_playlist w0) + length (m_srcids_add_playlist w2) + length (m_srcids_add_tune w2) + length (m_srcids_amend_metadata w0) \<le> 4 * card (dom m)"
      using bounds unfolding w2 by linarith
  qed (use root sc(4) seen_item w2 in \<open>auto simp: w2\<close>)
qed

section \<open>The whole synchronisation\<close>

context two_stores
begin

text \<open>The stages before the copying always return, and leave a plan.\<close>

lemma sync_plan_ok:
  assumes ok: "okS src" "okD dest" and m: "mirrorable (libS src)" "plain_dest (libD dest)"
    and n: "card (dom (libS src)) < n" "card (dom (libD dest)) < n"
  shows "\<exists>w. sync_plan S D n (Synchroniser src dest dry) = Some (0, w) \<and> plan_ok (libS src) (libD dest) (libD (m_dest w)) w \<and>
    ready (libS src) w \<and> m_dry_run w = dry \<and> room (m_dest w) = room dest \<and> (dry \<longrightarrow> libD (m_dest w) = libD dest)"
proof -
  let ?m = "libS src" and ?m' = "libD dest"
  have c: "copyable ?m" "readable ?m" "BROWSE_ROOT \<in> dom ?m" and d: "readable ?m'" "BROWSE_ROOT \<in> dom ?m'"
    using m by (simp_all add: mirrorable_def copyable_def plain_dest_def)
  obtain w0 where w0: "sync_scan S D n (Synchroniser src dest dry) = Some (0, w0)" "m_src w0 = src" "m_dest w0 = dest" "m_dry_run w0 = dry"
    "m_srcids_add_playlist w0 = []" "scan_inv ?m ?m' w0" "BROWSE_ROOT \<in> set (m_srcids_seen w0)"
    "smap_find (m_srctodest w0) BROWSE_ROOT = Some BROWSE_ROOT" "\<forall>s\<in>set (m_srcids_seen w0). settled ?m ?m' w0 s"
    using sync_scan_settles [OF ok c(2) d(1) copyable_hidden [OF c(1,3)] c(3) d(2) n(1), of dry] by auto
  obtain w1 where w1: "sync_delete D n w0 = Some (0, w1)" "same_plan w0 w1" "okD (m_dest w1)" "room (m_dest w1) = room dest"
    "libD (m_dest w1) = (if dry then ?m' else ?m' |` (- doomed ?m' (m_desttosrc w0) (set (m_destids_maybe_delete w0))))"
    using dest.sync_delete_doomed [of w0 n] w0(3,4) ok(2) d(1) n(2) by auto
  have sm: "smap_ok (m_srctodest w0)"
    using w0(6) by (simp add: scan_inv_def)
  have r1: "ready ?m w1"
    using w1(2,3) ok(1) w0(2) sm by (simp add: ready_def same_plan_def)
  have ma: "set (m_srcids_maybe_add w1) \<subseteq> dom ?m"
    using scanned(3) [OF m w0(6,9)] w1(2) by (simp add: same_plan_def)
  obtain X w2 where w2: "sync_add S D n w1 = Some (0, w2)" "same_dest w1 w2" "planned ?m X X w1 w2"
    "set (m_srcids_maybe_add w1) \<subseteq> X" "X \<subseteq> dom ?m"
    using sync_add_plans [OF c(1) r1 ma n(1)] by blast
  have "libD (m_dest w2) = libD (m_dest w1)" "room (m_dest w2) = room dest" "okD (m_dest w2)"
    using w2(2) w1(4) by (simp_all add: same_dest_def)
  moreover have "libD (m_dest w1) y = ?m' y" if "y \<in> dom (smap_find (m_desttosrc w0))" for y
    using that by (auto simp: w1(5) restrict_map_def doomed_def)
  ultimately have "plan_ok ?m ?m' (libD (m_dest w2)) w2"
    using w1(2) w2(4) by (intro plan_from_scan [OF m w0(6,9,7,8,5) w1(2) w2(3) _ w2(5)]) (simp_all add: same_plan_def)
  moreover have "ready ?m w2" "m_dry_run w2 = dry"
    using r1 w1(2) w0(4) w2(2,3) by (simp_all add: ready_def planned_def kept_plan_def same_dest_def same_plan_def)
  ultimately show ?thesis
    using w0(1) w1(1,4,5) w2(1,2) by (auto simp: sync_plan_def same_dest_def)
qed

text \<open>The copying of a dry run leaves the destination alone.\<close>

definition idle :: "library \<Rightarrow> 'b \<Rightarrow> ('a, 'b) sync \<Rightarrow> bool" where
  "idle m x w \<longleftrightarrow> ready m w \<and> m_dry_run w \<and> m_dest w = x"

lemma idle_steady: "idle m x w \<Longrightarrow> steady w v \<Longrightarrow> m_dest v = m_dest w \<Longrightarrow> idle m x v"
  by (auto simp: idle_def ready_def steady_def)

lemma idle_looked_up:
  assumes "idle m x w"
  shows "\<exists>v. srctodest_at s (Fire e w) = (image_of w s, v) \<and> idle m x v"
proof -
  have f: "idle m x (Fire e w)" "image_of (Fire e w) = image_of w"
    using assms by (auto simp: idle_def ready_def Fire_def image_of_def fun_eq_iff)
  obtain d v where v: "srctodest_at s (Fire e w) = (d, v)" by force
  show ?thesis
    using srctodest_at_image [OF _ v] f idle_steady [OF f(1), of v] v by (auto simp: idle_def ready_def)
qed

lemma CopyPlaylist_dry:
  fixes w :: "('a, 'b) sync"
  assumes m: "readable m" and w: "idle m x w"
  shows "\<exists>rc w'. CopyPlaylist S D s d w = Some (rc, w') \<and> idle m x w'"
proof (cases "lib_find S s (m_src w)")
  case None
  then show ?thesis
    using w by (auto simp: CopyPlaylist_def)
next
  case (Some rs)
  have ok: "okS (m_src w)" "libS (m_src w) = m" "smap_ok (m_srctodest w)" "m_dry_run w"
    using w by (simp_all add: idle_def ready_def)
  obtain v where "image_ids (kids m s) w = (filter (\<lambda>d. d \<noteq> 0) (map (image_of w) (kids m s)), v)" "steady w v" "m_dest v = m_dest w"
    using image_ids_images [OF ok(3)] by blast
  then show ?thesis
    using Some ok(4) idle_steady [OF w] src.read_record(1) [OF ok(1) m [folded ok(2)] Some, unfolded ok(2)]
    by (auto simp: CopyPlaylist_def Let_def steady_def)
qed

lemma CopyMetadata_dry: "m_dry_run w \<Longrightarrow> snd (CopyMetadata S D s d w) = w"
  by (simp add: CopyMetadata_def split: option.split)

lemma playlist_ops_dry:
  fixes w :: "('a, 'b) sync"
  assumes m: "readable m" and w: "idle m x w"
  shows "\<exists>rc w'. AmendPlaylist S D n s j w = Some (rc, w') \<and> idle m x w'" "\<exists>rc w'. AddPlaylist S D n s j w = Some (rc, w') \<and> idle m x w'"
proof -
  let ?w = "w\<lparr>m_statistics := (m_statistics w)\<lparr>playlists_modified := playlists_modified (m_statistics w) + 1\<rparr>\<rparr>"
  have "idle m x ?w"
    using w by (auto simp: idle_def ready_def)
  from idle_looked_up [OF this] show "\<exists>rc w'. AmendPlaylist S D n s j w = Some (rc, w') \<and> idle m x w'"
    using CopyPlaylist_dry [OF m] unfolding AmendPlaylist_def Let_def by (metis (no_types, lifting) case_prod_conv)
  from idle_looked_up [OF w] show "\<exists>rc w'. AddPlaylist S D n s j w = Some (rc, w') \<and> idle m x w'"
    using CopyPlaylist_dry [OF m] unfolding AddPlaylist_def Let_def by (metis (no_types, lifting) case_prod_conv)
qed

lemma tune_ops_dry:
  fixes w :: "('a, 'b) sync"
  assumes w: "idle m x w"
  shows "\<exists>rc w'. AddTune S D n s j w = Some (rc, w') \<and> idle m x w'" "\<exists>rc w'. AmendTune S D n s j w = Some (rc, w') \<and> idle m x w'"
proof -
  obtain v where v: "srctodest_at s (Fire (OnAddFile s j n) w) = (image_of w s, v)" "idle m x v"
    using idle_looked_up [OF w] by blast
  obtain rc z where "CopyMetadata S D s (image_of w s) v = (rc, z)" by force
  then show "\<exists>rc w'. AddTune S D n s j w = Some (rc, w') \<and> idle m x w'"
    using v CopyMetadata_dry [of v s "image_of w s"] by (simp add: AddTune_def Let_def idle_def)
  obtain u where u: "srctodest_at s (Fire (OnAmendMetadata s j n) w) = (image_of w s, u)" "idle m x u"
    using idle_looked_up [OF w] by blast
  obtain rc z where "CopyMetadata S D s (image_of w s) u = (rc, z)" by force
  then show "\<exists>rc w'. AmendTune S D n s j w = Some (rc, w') \<and> idle m x w'"
    using u CopyMetadata_dry [of u s "image_of w s"] by (simp add: AmendTune_def Let_def idle_def)
qed

lemma each_numbered_dry:
  fixes w :: "('a, 'b) sync"
  assumes "\<And>s j w. idle m x w \<Longrightarrow> \<exists>rc w'. f s j w = Some (rc, w') \<and> idle m x w'"
  shows "idle m x w \<Longrightarrow> \<exists>rc w'. each_numbered f j js w = Some (rc, w') \<and> idle m x w'"
proof (induction js arbitrary: j w)
  case (Cons s js)
  obtain rc v where "f s j w = Some (rc, v)" "idle m x v"
    using assms [OF Cons.prems] by blast
  then show ?case
    using Cons.IH [of v "j + 1"] by (cases "rc = 0") auto
qed auto

lemma sync_copy_dry:
  fixes w :: "('a, 'b) sync"
  assumes m: "readable m" and w: "idle m x w"
  shows "\<exists>rc w'. sync_copy S D w = Some (rc, w') \<and> m_dest w' = x"
proof -
  have step: "\<exists>rc w'. (do { (rc, v) \<leftarrow> each_numbered f j js v; (if rc \<noteq> 0 then Some (rc, v) else g v) }) = Some (rc, w') \<and> m_dest w' = x"
    if v: "idle m x v" and f: "\<And>s j w. idle m x w \<Longrightarrow> \<exists>rc w'. f s j w = Some (rc, w') \<and> idle m x w'"
      and g: "\<And>v. idle m x v \<Longrightarrow> \<exists>rc w'. g v = Some (rc, w') \<and> m_dest w' = x" for f g j js and v :: "('a, 'b) sync"
  proof -
    obtain rc z where "each_numbered f j js v = Some (rc, z)" "idle m x z"
      using each_numbered_dry [where f = f and j = j and js = js, OF f v] by blast
    then show ?thesis
      using g [of z] by (cases "rc = 0") (auto simp: idle_def)
  qed
  show ?thesis
    unfolding sync_copy_def
    by (intro step w playlist_ops_dry [OF m] tune_ops_dry) (auto simp: idle_def Fire_def)
qed

text \<open>A dry run leaves the destination as it was.\<close>

lemma Synchronise_dry:
  assumes ok: "okS src" "okD dest" and m: "mirrorable (libS src)" "plain_dest (libD dest)"
    and n: "card (dom (libS src)) < n" "card (dom (libD dest)) < n"
  shows "\<exists>rc w. Synchronise S D n (Synchroniser src dest True) = Some (rc, w) \<and> libD (m_dest w) = libD dest"
proof -
  obtain w where w: "sync_plan S D n (Synchroniser src dest True) = Some (0, w)" "idle (libS src) (m_dest w) w" "libD (m_dest w) = libD dest"
    using sync_plan_ok [OF ok m n, of True] by (auto simp: idle_def)
  have "readable (libS src)"
    using m(1) by (simp add: mirrorable_def copyable_def)
  from sync_copy_dry [OF this w(2)] show ?thesis
    unfolding Synchronise_plan [OF w(1)] using w(3) by auto
qed

end

context content_stores
begin

lemma Synchronise_mirrors:
  assumes ok: "okS src" "okD dest" and m: "mirrorable (libS src)" "plain_dest (libD dest)"
    and n: "card (dom (libS src)) < n" "card (dom (libD dest)) < n" and room: "4 * card (dom (libS src)) \<le> room dest"
    and plan: "sync_plan S D n (Synchroniser src dest False) = Some (0, w)" and good: "good_images (libS src) w"
  shows "\<exists>w'. Synchronise S D n (Synchroniser src dest False) = Some (0, w') \<and> okD (m_dest w') \<and>
    mirrored (libS src) (libD (m_dest w')) (image_of w')"
proof -
  let ?m = "libS src" and ?m' = "libD dest"
  have p: "plan_ok ?m ?m' (libD (m_dest w)) w" and r: "ready ?m w" "\<not> m_dry_run w" "room (m_dest w) = room dest"
    using sync_plan_ok [OF ok m n, of False] plan by auto
  have c: "carried_out ?m ?m' (libD (m_dest w)) w"
    using m p good by (simp add: carried_out_def)
  let ?k = "length (m_srcids_amend_playlist w) + length (m_srcids_add_playlist w) + length (m_srcids_add_tune w) + length (m_srcids_amend_metadata w)"
  have "?k \<le> 4 * card (dom ?m)"
    using p by (simp add: plan_ok_def Let_def)
  then have w: "writable ?m (image_of w) ?k w"
    using r room by (simp add: writable_def)
  have "plays w \<union> copies w \<subseteq> live ?m w"
    using lists_live(1,2) [OF c] by blast
  then have s: "\<forall>s\<in>set (m_srcids_amend_playlist w) \<union> set (m_srcids_add_playlist w) \<union> set (m_srcids_add_tune w) \<union> set (m_srcids_amend_metadata w).
      s \<in> dom ?m \<and> image_of w s \<noteq> 0"
    using live_facts(1,2) [OF c] unfolding plays_def copies_def by blast
  have "readable ?m"
    using m(1) by (simp add: mirrorable_def copyable_def)
  then show ?thesis
    using sync_copy_writes [OF _ w s] carried_out_mirrored [OF c] unfolding Synchronise_plan [OF plan] after_copy_def by auto
qed

end

end
