(* ===== verification/SyncImages.thy ===== *)
theory SyncImages
  imports SyncPlan
begin

text \<open>
  The images of the items stay apart: where no item of the destination is listed twice and its
  allocator has enough unused identifiers in a row, no two items get the same image, so that the
  synchroniser makes a mirror.
\<close>

section \<open>Images\<close>

definition below :: "library \<Rightarrow> (u32 \<times> u32) set" where
  "below m = {(i, j). j \<in> set (shown m i)}"

definition listed_once :: "library \<Rightarrow> bool" where
  "listed_once m \<longleftrightarrow> acyclic (below m) \<and> single_valued ((below m)\<inverse>) \<and> (\<forall>i. distinct (shown m i))"

text \<open>Every item has an image of its own, which leads back to it; files that are no media have 0.\<close>

definition images_ok :: "library \<Rightarrow> ('a, 'b) sync \<Rightarrow> bool" where
  "images_ok m w \<longleftrightarrow> smap_ok (m_srctodest w) \<and> smap_ok (m_desttosrc w) \<and>
     (\<forall>s d. smap_find (m_srctodest w) s = Some d \<longrightarrow>
        d = 0 \<and> item_type m s = FILE \<or> child_ok d \<and> smap_find (m_desttosrc w) d = Some s)"

definition same_maps :: "('a, 'b) sync \<Rightarrow> ('a, 'b) sync \<Rightarrow> bool" where
  "same_maps w w' \<longleftrightarrow> m_src w' = m_src w \<and> m_dest w' = m_dest w \<and> m_srctodest w' = m_srctodest w \<and> m_desttosrc w' = m_desttosrc w"

lemma images_ok_same: "same_maps w w' \<Longrightarrow> images_ok m w' = images_ok m w"
  by (simp add: same_maps_def images_ok_def)

lemma images_ok_pair:
  assumes "images_ok m w" "child_ok d" "d \<notin> dom (smap_find (m_desttosrc w))"
    "m_srctodest w' = smap_set s d (m_srctodest w)" "m_desttosrc w' = smap_set d s (m_desttosrc w)"
  shows "images_ok m w'"
  using assms unfolding images_ok_def by auto

lemma images_ok_file:
  assumes "images_ok m w" "item_type m s = FILE" "m_srctodest w' = smap_set s 0 (m_srctodest w)" "m_desttosrc w' = m_desttosrc w"
  shows "images_ok m w'"
  using assms unfolding images_ok_def by auto

lemma images_ok_good:
  assumes "images_ok m w"
  shows "good_images m w"
proof -
  have im: "smap_find (m_srctodest w) s = Some (image_of w s) \<and> child_ok (image_of w s) \<and> smap_find (m_desttosrc w) (image_of w s) = Some s"
    if "image_of w s \<noteq> 0" for s
    using assms that by (auto simp: images_ok_def image_of_def split: option.splits)
  have "inj_on (image_of w) {s. image_of w s \<noteq> 0}"
    using im by (intro inj_onI) (metis mem_Collect_eq option.inject)
  moreover have "image_of w s \<noteq> 0" if sd: "s \<in> dom (smap_find (m_srctodest w))" "item_type m s \<noteq> FILE" for s
  proof -
    obtain d where d: "smap_find (m_srctodest w) s = Some d"
      using sd(1) by blast
    then have "child_ok d"
      using assms sd(2) unfolding images_ok_def by blast
    then show ?thesis
      using d by (auto simp: image_of_def child_ok_def)
  qed
  ultimately show ?thesis
    using im by (auto simp: good_images_def)
qed

section \<open>The walk\<close>

text \<open>What can be come to from an item; two children of an item have nothing in common there.\<close>

abbreviation under :: "library \<Rightarrow> u32 \<Rightarrow> u32 set" where
  "under m d \<equiv> (below m)\<^sup>* `` {d}"

lemma under_child: "y \<in> set (shown m d) \<Longrightarrow> under m y \<subseteq> under m d"
  by (auto simp: below_def intro: converse_rtrancl_into_rtrancl)

lemma under_children:
  assumes t: "listed_once m" and y: "y \<in> set (shown m d)"
  shows "d \<notin> under m y" "z \<in> set (shown m d) \<Longrightarrow> z \<noteq> y \<Longrightarrow> under m y \<inter> under m z = {}"
proof -
  have ac: "(x, x) \<notin> (below m)\<^sup>+" for x
    using t by (auto simp: listed_once_def acyclic_def)
  have b: "(d, y) \<in> below m"
    using y by (simp add: below_def)
  show up: "d \<notin> under m y"
    using ac rtrancl_into_trancl2 [OF b] by auto
  assume z: "z \<in> set (shown m d)" "z \<noteq> y"
  have no: "(p, q) \<notin> (below m)\<^sup>*" if pq: "p \<in> set (shown m d)" "q \<in> set (shown m d)" "p \<noteq> q" for p q
  proof
    assume "(p, q) \<in> (below m)\<^sup>*"
    then obtain r where r: "(p, r) \<in> (below m)\<^sup>*" "(r, q) \<in> below m"
      using pq(3) by (meson rtranclE)
    have "(d, q) \<in> below m" "single_valued ((below m)\<inverse>)"
      using pq(2) t by (simp_all add: below_def listed_once_def)
    then have "r = d"
      using r(2) unfolding single_valued_def by blast
    then show False
      using r(1) ac rtrancl_into_trancl2 [of d p "below m" d] pq(1) by (auto simp: below_def)
  qed
  show "under m y \<inter> under m z = {}"
  proof (rule ccontr)
    assume "under m y \<inter> under m z \<noteq> {}"
    then obtain x where "(x, y) \<in> ((below m)\<inverse>)\<^sup>*" "(x, z) \<in> ((below m)\<inverse>)\<^sup>*"
      by (auto simp: rtrancl_converse)
    moreover have "single_valued ((below m)\<inverse>)"
      using t by (simp add: listed_once_def)
    ultimately have "(y, z) \<in> ((below m)\<inverse>)\<^sup>* \<or> (z, y) \<in> ((below m)\<inverse>)\<^sup>*"
      using single_valued_confluent by metis
    then show False
      using no [OF y z(1)] no [OF z(1) y] z(2) by (auto simp: rtrancl_converse)
  qed
qed

text \<open>A step of the walk that comes to the items of a set keeps the images apart, and makes only these an image.\<close>

definition imaged :: "library \<Rightarrow> u32 set \<Rightarrow> ('a, 'b) sync \<Rightarrow> ('a, 'b) sync \<Rightarrow> bool" where
  "imaged m X w w' \<longleftrightarrow> m_src w' = m_src w \<and> m_dest w' = m_dest w \<and> images_ok m w' \<and>
     dom (smap_find (m_desttosrc w')) \<subseteq> dom (smap_find (m_desttosrc w)) \<union> X"

lemma imaged_same: "images_ok m w \<Longrightarrow> same_maps w w' \<Longrightarrow> imaged m X w w'"
  using images_ok_same [of w w' m] by (auto simp: imaged_def same_maps_def)

lemma imaged_trans: "imaged m X w w' \<Longrightarrow> imaged m Y w' w'' \<Longrightarrow> X \<union> Y \<subseteq> Z \<Longrightarrow> imaged m Z w w''"
  unfolding imaged_def by (intro conjI) (simp, simp, simp, blast)

lemma match_children_imaged:
  fixes w :: "('a, 'b) sync"
  assumes check: "\<And>s d w rc a w'. check s d w = Some (rc, a, w') \<Longrightarrow> m_src w = src \<Longrightarrow> m_dest w = dest \<Longrightarrow> images_ok m w \<Longrightarrow>
      under m' d \<inter> dom (smap_find (m_desttosrc w)) = {} \<Longrightarrow> imaged m (under m' d) w w'"
  shows "match_children check dels adds si xs di ys amend w = Some (rc, a, w') \<Longrightarrow> m_src w = src \<Longrightarrow> m_dest w = dest \<Longrightarrow>
    images_ok m w \<Longrightarrow> distinct ys \<Longrightarrow> (\<forall>y\<in>set ys. under m' y \<inter> dom (smap_find (m_desttosrc w)) = {}) \<Longrightarrow>
    (\<forall>y\<in>set ys. \<forall>z\<in>set ys. z \<noteq> y \<longrightarrow> under m' y \<inter> under m' z = {}) \<Longrightarrow>
    imaged m (\<Union>y\<in>set ys. under m' y) w w'"
proof (induction "length xs + length ys" arbitrary: si xs di ys amend w rule: less_induct)
  case less
  consider (addition) x xs' where "xs = x # xs'" "si + 1 \<in> set adds"
    | (deletion) y ys' where "ys = y # ys'" "di + 1 \<in> set dels" "xs = [] \<or> si + 1 \<notin> set adds"
    | (stop) "xs = [] \<or> si + 1 \<notin> set adds" "ys = [] \<or> di + 1 \<notin> set dels" "xs = [] \<or> ys = []"
    | (pair) x xs' y ys' where "xs = x # xs'" "ys = y # ys'" "si + 1 \<notin> set adds" "di + 1 \<notin> set dels"
    by (cases xs; cases ys) auto
  then show ?case
  proof cases
    case addition
    let ?w = "w\<lparr>m_srcids_maybe_add := sset_insert x (m_srcids_maybe_add w)\<rparr>"
    have s: "imaged m {} w ?w"
      using less.prems(4) by (rule imaged_same) (simp add: same_maps_def)
    have "imaged m (\<Union>y\<in>set ys. under m' y) ?w w'"
      using less.prems addition s by (intro less.hyps [of xs' ys "si + 1" di True ?w])
        (simp_all add: imaged_def match_children.simps [of _ _ _ _ "x # xs'"])
    then show ?thesis
      using imaged_trans [OF s] by simp
  next
    case deletion
    let ?w = "w\<lparr>m_destids_maybe_delete := sset_insert y (m_destids_maybe_delete w)\<rparr>"
    have s: "imaged m {} w ?w"
      using less.prems(4) by (rule imaged_same) (simp add: same_maps_def)
    have "match_children check dels adds si xs (di + 1) ys' True ?w = Some (rc, a, w')"
      using less.prems(1) deletion by (subst (asm) match_children.simps) (auto split: if_splits)
    then have "imaged m (\<Union>y\<in>set ys'. under m' y) ?w w'"
      using less.prems(2-) deletion s by (intro less.hyps [of xs ys' si "di + 1" True ?w]) (simp_all add: imaged_def)
    then show ?thesis
      using imaged_trans [OF s, of _ w'] deletion(1) by simp
  next
    case stop
    then have "w' = w"
      using less.prems(1) by (subst (asm) match_children.simps) (auto split: if_splits list.splits)
    then show ?thesis
      using imaged_same [OF less.prems(4)] by (simp add: same_maps_def)
  next
    case pair
    obtain rc1 a1 w1 where c: "check x y w = Some (rc1, a1, w1)"
      and r: "if rc1 \<noteq> 0 then w' = w1
        else match_children check dels adds (si + 1) xs' (di + 1) ys' (amend \<or> a1) w1 = Some (rc, a, w')"
      using less.prems(1) pair by (subst (asm) match_children.simps) (auto simp: Option.bind_eq_Some_conv split: if_splits)
    have i: "imaged m (under m' y) w w1"
      using check [OF c] less.prems(2-4,6) pair(2) by simp
    show ?thesis
    proof (cases "rc1 = 0")
      case True
      have "under m' z \<inter> dom (smap_find (m_desttosrc w1)) = {}" if "z \<in> set ys'" for z
      proof -
        have "z \<noteq> y"
          using less.prems(5) pair(2) that by auto
        then have "under m' y \<inter> under m' z = {}" "under m' z \<inter> dom (smap_find (m_desttosrc w)) = {}"
          using less.prems(6,7) pair(2) that by auto
        then show ?thesis
          using i unfolding imaged_def by blast
      qed
      then have "imaged m (\<Union>y\<in>set ys'. under m' y) w1 w'"
        using less.prems(2-) pair i r True by (intro less.hyps [of xs' ys' "si + 1" "di + 1" "amend \<or> a1" w1]) (simp_all add: imaged_def)
      then show ?thesis
        using imaged_trans [OF i] pair(2) by simp
    next
      case False
      then show ?thesis
        using i r pair(2) by (auto simp: imaged_def)
    qed
  qed
qed

lemma check_tune_maps:
  assumes "check_tune S D s srcrs d destrs w = (b, w')"
    and "lib_int S srcrs field_IDHIGH (m_src w) = h" "h = 0 \<or> lib_find S h (m_src w) = None"
  shows "b = s \<and> same_maps w w'"
  using assms by (auto simp: check_tune_def Let_def same_maps_def split: if_splits)

context two_libraries
begin

lemma CheckPlaylistNames_imaged:
  fixes w :: "('a, 'b) sync"
  assumes ok: "okS src" "okD dest" and m: "copyable (libS src)" "readable (libD dest)" "listed_once (libD dest)"
    and ids: "\<forall>d\<in>dom (libD dest). child_ok d"
  shows "CheckPlaylistNames S D n s d w = Some (rc, a, w') \<Longrightarrow> m_src w = src \<Longrightarrow> m_dest w = dest \<Longrightarrow> images_ok (libS src) w \<Longrightarrow>
    under (libD dest) d \<inter> dom (smap_find (m_desttosrc w)) = {} \<Longrightarrow> imaged (libS src) (under (libD dest) d) w w'"
proof (induction n arbitrary: s d w rc a w')
  case (Suc n)
  let ?m = "libS src" and ?m' = "libD dest" and ?w = "w\<lparr>m_srcids_seen := sset_insert s (m_srcids_seen w)\<rparr>"
  have same: "imaged ?m (under ?m' d) w x" if "same_maps w x" for x
    using Suc.prems(4) that by (rule imaged_same)
  have r: "readable ?m"
    using m(1) by (simp add: copyable_def)
  have w: "same_maps w ?w" "m_src ?w = src" "m_dest ?w = dest"
    using Suc.prems(2,3) by (simp_all add: same_maps_def)
  consider (known) "s \<in> set (m_srcids_seen w)" "smap_find (m_srctodest w) s \<noteq> None"
    | (absent) "\<not> (s \<in> set (m_srcids_seen w) \<and> smap_find (m_srctodest w) s \<noteq> None)" "lib_find S s src = None \<or> lib_find D d dest = None"
    | (found) srcrs destrs where "\<not> (s \<in> set (m_srcids_seen w) \<and> smap_find (m_srctodest w) s \<noteq> None)"
        "lib_find S s src = Some srcrs" "lib_find D d dest = Some destrs"
    by (cases "s \<in> set (m_srcids_seen w) \<and> smap_find (m_srctodest w) s \<noteq> None"; cases "lib_find S s src"; cases "lib_find D d dest") blast+
  then show ?case
  proof cases
    case known
    then have "same_maps w w'"
      using Suc.prems(1) by (auto simp: same_maps_def split: if_splits)
    then show ?thesis
      by (rule same)
  next
    case absent
    then have "same_maps w w'"
      using Suc.prems(1) w(2,3) by (auto simp: same_maps_def Let_def Option.bind_eq_Some_conv split: option.splits)
    then show ?thesis
      by (rule same)
  next
    case found
    note rds = src.read_record [OF ok(1) r found(2)] and rdd = dest.read_record [OF ok(2) m(2) found(3)]
    have high: "item_high ?m s = 0 \<or> lib_find S (item_high ?m s) src = None"
      using m(1) src.find_none [OF ok(1)] by (auto simp: copyable_def domIff)
    obtain b w1 where t: "(if \<not> composite (item_type ?m' d) then check_tune S D s srcrs d destrs ?w else (s, ?w)) = (b, w1)"
      by force
    have b: "b = s \<and> same_maps ?w w1"
      using t check_tune_maps [of S D s srcrs d destrs ?w b w1, OF _ _ high [folded w(2)]] rds(3) w(2) by (auto simp: same_maps_def split: if_splits)
    define w2 where "w2 = w1\<lparr>m_desttosrc := smap_set d b (m_desttosrc w1), m_srctodest := smap_set b d (m_srctodest w1)\<rparr>"
    have w2: "m_src w2 = src" "m_dest w2 = dest" "m_srctodest w2 = smap_set s d (m_srctodest w)" "m_desttosrc w2 = smap_set d s (m_desttosrc w)"
      using b w Suc.prems(2,3) by (simp_all add: w2_def same_maps_def)
    have "child_ok d" "d \<notin> dom (smap_find (m_desttosrc w))"
      using ids rdd(4) Suc.prems(5) by auto
    then have i2: "images_ok ?m w2"
      using images_ok_pair [OF Suc.prems(4)] w2(3,4) by blast
    have "smap_ok (m_desttosrc w)"
      using Suc.prems(4) by (simp add: images_ok_def)
    then have dom2: "dom (smap_find (m_desttosrc w2)) = insert d (dom (smap_find (m_desttosrc w)))"
      by (auto simp: w2(4))
    obtain dist dels adds where df: "Diff (map (\<lambda>j. the (item_name ?m' j)) (shown ?m' d)) (map (\<lambda>j. the (item_name ?m j)) (shown ?m s)) = (dist, dels, adds)"
      by (metis prod_cases3)
    have names: "GetNames S src (kids ?m s) = Some (shown ?m s, map (\<lambda>j. the (item_name ?m j)) (shown ?m s))"
      "GetNames D dest (kids ?m' d) = Some (shown ?m' d, map (\<lambda>j. the (item_name ?m' j)) (shown ?m' d))"
      using src.GetNames_shown [OF ok(1) r] dest.GetNames_shown [OF ok(2) m(2)] by (simp_all add: shown_def)
    let ?r = "match_children (CheckPlaylistNames S D n) dels adds 0 (shown ?m s) 0 (shown ?m' d) False w2"
    have e: "m_src w1 = src" "m_dest w1 = dest"
      using w2(1,2) by (simp_all add: w2_def)
    have "CheckPlaylistNames S D (Suc n) s d w = do {
        (rc, amend, w3) \<leftarrow> ?r;
        Some (if rc \<noteq> 0 then (rc, False, w3)
          else (0, False, if amend then w3\<lparr>m_srcids_amend_playlist := sset_insert b (m_srcids_amend_playlist w3)\<rparr> else w3)) }"
      unfolding CheckPlaylistNames.simps(2) if_not_P [OF found(1)]
      by (simp add: Let_def Suc.prems(2,3) found(2,3) rds rdd t w2_def [symmetric] e names df)
    note run = this [unfolded Suc.prems(1)]
    obtain rc1 a1 w3 where c: "?r = Some (rc1, a1, w3)"
      using run by (cases ?r) auto
    have w': "same_maps w3 w'"
      using run unfolding c by (simp add: same_maps_def split: if_splits)
    have "imaged ?m (\<Union>y\<in>set (shown ?m' d). under ?m' y) w2 w3"
    proof (rule match_children_imaged [OF _ c w2(1,2) i2])
      show "\<forall>y\<in>set (shown ?m' d). under ?m' y \<inter> dom (smap_find (m_desttosrc w2)) = {}"
      proof
        fix y assume y: "y \<in> set (shown ?m' d)"
        show "under ?m' y \<inter> dom (smap_find (m_desttosrc w2)) = {}"
          using under_child [OF y] under_children(1) [OF m(3) y] Suc.prems(5) unfolding dom2 by blast
      qed
      show "distinct (shown ?m' d)"
        using m(3) by (simp add: listed_once_def)
    qed (use Suc.IH under_children(2) [OF m(3)] in \<open>blast+\<close>)
    then have 23: "imaged ?m (under ?m' d) w2 w3"
      using under_child [of _ ?m' d] unfolding imaged_def by blast
    have "imaged ?m (under ?m' d) w w2"
      using i2 w2(1,2) dom2 Suc.prems(2,3) by (simp add: imaged_def)
    from imaged_trans [OF this 23, of "under ?m' d"] have i3: "imaged ?m (under ?m' d) w w3"
      by simp
    have "imaged ?m {} w3 w'"
      using i3 w' by (intro imaged_same) (simp_all add: imaged_def)
    from imaged_trans [OF i3 this] show ?thesis
      by simp
  qed
qed simp

end

section \<open>Deleting and adding\<close>

lemma each_keeps:
  assumes "\<And>i x w rc x' w'. i \<in> set js \<Longrightarrow> I w \<Longrightarrow> f i x w = Some (rc, x', w') \<Longrightarrow> R x w x' w'"
    and "\<And>x w x' w'. I w \<Longrightarrow> R x w x' w' \<Longrightarrow> I w'" and "\<And>x w. I w \<Longrightarrow> R x w x w"
    and "\<And>x w x' w' x'' w''. R x w x' w' \<Longrightarrow> R x' w' x'' w'' \<Longrightarrow> R x w x'' w''"
  shows "each f js x w = Some (rc, x', w') \<Longrightarrow> I w \<Longrightarrow> R x w x' w'"
  using assms(1)
proof (induction js arbitrary: x w)
  case (Cons i js)
  obtain rc1 x1 w1 where c: "f i x w = Some (rc1, x1, w1)"
    using Cons.prems(1) by (cases "f i x w") auto
  have r: "R x w x1 w1"
    by (rule Cons.prems(3) [OF _ Cons.prems(2) c]) simp
  show ?case
  proof (cases "rc1 = 0")
    case True
    have "R x1 w1 x' w'"
    proof (rule Cons.IH)
      show "each f js x1 w1 = Some (rc, x', w')" "I w1"
        using Cons.prems(1) c True assms(2) [OF Cons.prems(2) r] by simp_all
    qed (rule Cons.prems(3), simp_all)
    then show ?thesis
      using assms(4) r by blast
  next
    case False
    then show ?thesis
      using Cons.prems(1) c r by simp
  qed
qed (use assms(3) in simp)

lemma add_item_maps: "same_maps w (add_item i type n w)"
  by (simp add: add_item_def same_maps_def Let_def)

text \<open>
  A destination whose allocator is in the middle of a gap: \<^verbatim>\<open>vacant\<close> are the identifiers that
  it still has there.
\<close>

locale allocating_stores = content_stores S libS atS okS D libD atD okD room
  for S :: "('a, 'c, 's) library_ops" and libS atS okS and D :: "('b, 'e, 't) library_ops" and libD atD okD room +
  fixes vacant :: "'b \<Rightarrow> u32 set"
  assumes issues: "lib_alloc D x = (i, x') \<Longrightarrow> vacant x \<noteq> {} \<Longrightarrow> i \<in> vacant x \<and> vacant x' = vacant x - {i}"
    and vacant_delete: "lib_delete D c x = (rc, x') \<Longrightarrow> vacant x' = vacant x"
    and vacant_ok: "i \<in> vacant x \<Longrightarrow> child_ok i"
begin

lemma MaybeDelete_vacant:
  fixes w :: "('a, 'b) sync"
  shows "MaybeDelete D n d A w = Some (rc, A', w') \<Longrightarrow> vacant (m_dest w') = vacant (m_dest w)"
proof (induction n arbitrary: d A w rc A' w')
  case (Suc n)
  show ?case
  proof (cases "d \<in> set A \<or> smap_find (m_desttosrc w) d \<noteq> None \<or> lib_find D d (m_dest w) = None")
    case True
    then have "w' = w"
      using Suc.prems by (auto simp: Let_def split: if_splits)
    then show ?thesis
      by simp
  next
    case False
    then obtain rs where rs: "lib_find D d (m_dest w) = Some rs"
      by auto
    then obtain js where js: "ChildrenToVector (lib_str D rs field_CHILDREN (m_dest w)) = Some js"
      using Suc.prems False by (cases "ChildrenToVector (lib_str D rs field_CHILDREN (m_dest w))") (auto simp: Let_def)
    obtain rc1 B w1 where c: "each (MaybeDelete D n) js (sset_insert d A) w = Some (rc1, B, w1)"
      using Suc.prems False rs js by (cases "each (MaybeDelete D n) js (sset_insert d A) w") (auto simp: Let_def)
    have v: "vacant (m_dest w1) = vacant (m_dest w)"
      by (rule each_keeps [where R = "\<lambda>_ w _ w'. vacant (m_dest w') = vacant (m_dest w)" and I = "\<lambda>_. True", OF _ _ _ _ c])
        (use Suc.IH in auto)
    have "m_dest w' = m_dest w1 \<or> (\<exists>rc. lib_delete D rs (m_dest w1) = (rc, m_dest w'))"
      using Suc.prems False rs js c by (auto simp: Let_def Fire_def split: if_splits prod.splits)
    then show ?thesis
      using v vacant_delete [of rs "m_dest w1"] by auto
  qed
qed simp

definition supplied :: "library \<Rightarrow> ('a, 'b) sync \<Rightarrow> bool" where
  "supplied m w \<longleftrightarrow> images_ok m w \<and> okS (m_src w) \<and> libS (m_src w) = m \<and> vacant (m_dest w) \<inter> dom (smap_find (m_desttosrc w)) = {} \<and>
     card (dom m - dom (smap_find (m_srctodest w))) \<le> card (vacant (m_dest w))"

definition supplies :: "library \<Rightarrow> u32 list \<Rightarrow> ('a, 'b) sync \<Rightarrow> u32 list \<Rightarrow> ('a, 'b) sync \<Rightarrow> bool" where
  "supplies m A w A' w' \<longleftrightarrow> set A \<subseteq> set A' \<and> m_src w' = m_src w \<and> supplied m w' \<and>
     (\<forall>x\<in>set A. smap_find (m_srctodest w') x = smap_find (m_srctodest w) x)"

lemma supplies_refl: "supplied m w \<Longrightarrow> supplies m A w A w"
  by (simp add: supplies_def)

lemma supplies_trans: "supplies m A w A' w' \<Longrightarrow> supplies m A' w' A'' w'' \<Longrightarrow> supplies m A w A'' w''"
  unfolding supplies_def by auto

text \<open>An item that has no image yet gets an unused identifier, or 0.\<close>

lemma supplied_new:
  fixes w w' :: "('a, 'b) sync"
  assumes w: "supplied m w" and s: "s \<in> dom m" "smap_find (m_srctodest w) s = None" and a: "lib_alloc D (m_dest w) = (d, x)"
    and w': "m_src w' = m_src w" "m_dest w' = x" "m_srctodest w' = smap_set s d (m_srctodest w)" "m_desttosrc w' = smap_set d s (m_desttosrc w)"
  shows "supplied m w'"
proof -
  have ok: "smap_ok (m_srctodest w)" "smap_ok (m_desttosrc w)" and i: "images_ok m w"
    and v: "vacant (m_dest w) \<inter> dom (smap_find (m_desttosrc w)) = {}"
    and c: "card (dom m - dom (smap_find (m_srctodest w))) \<le> card (vacant (m_dest w))"
    using w by (auto simp: supplied_def images_ok_def)
  have "dom m - dom (smap_find (m_srctodest w)) \<noteq> {}"
    using s by blast
  then have "vacant (m_dest w) \<noteq> {}"
    using c by (metis card_eq_0_iff finite le_zero_eq)
  then have d: "d \<in> vacant (m_dest w)" "vacant x = vacant (m_dest w) - {d}"
    using issues [OF a] by auto
  have "dom m - dom (smap_find (m_srctodest w')) = (dom m - dom (smap_find (m_srctodest w))) - {s}"
    using ok(1) by (auto simp: w'(3) split: if_splits)
  moreover have "s \<in> dom m - dom (smap_find (m_srctodest w))"
    using s by blast
  ultimately have "card (dom m - dom (smap_find (m_srctodest w'))) \<le> card (vacant x)"
    using c d by (simp add: card_Diff_singleton diff_le_mono)
  moreover have "images_ok m w'"
    using images_ok_pair [OF i vacant_ok [OF d(1)]] v d(1) w'(3,4) by blast
  moreover have "dom (smap_find (m_desttosrc w')) = insert d (dom (smap_find (m_desttosrc w)))"
    using ok(2) by (auto simp: w'(4) split: if_splits)
  ultimately show ?thesis
    using w v d(2) w'(1,2) by (auto simp: supplied_def)
qed

lemma supplied_file:
  assumes w: "supplied m w" and s: "item_type m s = FILE"
  shows "supplied m (w\<lparr>m_srctodest := smap_set s 0 (m_srctodest w)\<rparr>)"
proof -
  have "smap_ok (m_srctodest w)" "images_ok m w"
    using w by (auto simp: supplied_def images_ok_def)
  moreover from this(1) have "dom (smap_find (smap_set s 0 (m_srctodest w))) = insert s (dom (smap_find (m_srctodest w)))"
    by (auto split: if_splits)
  then have "card (dom m - dom (smap_find (smap_set s 0 (m_srctodest w)))) \<le> card (dom m - dom (smap_find (m_srctodest w)))"
    by (intro card_mono) auto
  moreover have "images_ok m (w\<lparr>m_srctodest := smap_set s 0 (m_srctodest w)\<rparr>)"
    using calculation(2) by (rule images_ok_file [OF _ s]) simp_all
  ultimately show ?thesis
    using w by (auto simp: supplied_def)
qed

lemma MaybeAdd_supplies:
  fixes w :: "('a, 'b) sync"
  assumes m: "copyable m"
  shows "MaybeAdd S D n i A w = Some (rc, A', w') \<Longrightarrow> supplied m w \<Longrightarrow> supplies m A w A' w'"
proof (induction n arbitrary: i A w rc A' w')
  case (Suc n)
  let ?A = "sset_insert i A"
  have ok: "okS (m_src w)" and l: "libS (m_src w) = m" and sm: "smap_ok (m_srctodest w)"
    using Suc.prems(2) by (auto simp: supplied_def images_ok_def)
  have r: "readable (libS (m_src w))"
    using m l by (simp add: copyable_def)
  have grows: "supplies m A w ?A w"
    using Suc.prems(2) by (auto simp: supplies_def)
  consider (old) "i \<in> set A" | (stop) "i \<notin> set A" "smap_find (m_srctodest w) i \<noteq> None \<or> lib_find S i (m_src w) = None"
    | (new) rs where "i \<notin> set A" "smap_find (m_srctodest w) i = None" "lib_find S i (m_src w) = Some rs"
    by (cases "lib_find S i (m_src w)") blast+
  then show ?case
  proof cases
    case old
    then show ?thesis
      using Suc.prems supplies_refl by simp
  next
    case stop
    then have "A' = ?A" "w' = w"
      using Suc.prems(1) by (auto simp: Let_def split: if_splits option.splits)
    then show ?thesis
      using grows by simp
  next
    case new
    note rd = src.read_record [OF ok r new(3), unfolded l]
    show ?thesis
    proof (cases "item_type m i = FILE")
      case True
      then have e: "A' = ?A" "w' = w\<lparr>m_srctodest := smap_set i 0 (m_srctodest w)\<rparr>"
        using Suc.prems(1) new by (auto simp: rd Let_def)
      show ?thesis
        using supplied_file [OF Suc.prems(2) True] new(1) sm unfolding e by (auto simp: supplies_def)
    next
      case False
      obtain rc1 B w1 where c: "each (MaybeAdd S D n) (kids m i) ?A w = Some (rc1, B, w1)"
        using Suc.prems(1) new False by (cases "each (MaybeAdd S D n) (kids m i) ?A w") (auto simp: rd Let_def)
      have ch: "supplies m ?A w B w1"
      proof (rule each_keeps [where I = "supplied m" and R = "supplies m", OF _ _ supplies_refl supplies_trans c Suc.prems(2)])
        fix z B' z' and A :: "u32 list"
        assume "supplies m A z B' z'"
        then show "supplied m z'"
          by (simp add: supplies_def)
      qed (use Suc.IH in blast)
      then have 1: "supplied m w1" "m_src w1 = m_src w" "set ?A \<subseteq> set B"
        "\<forall>x\<in>set ?A. smap_find (m_srctodest w1) x = smap_find (m_srctodest w) x"
        by (simp_all add: supplies_def)
      have sm1: "smap_ok (m_srctodest w1)"
        using 1(1) by (simp add: supplied_def images_ok_def)
      show ?thesis
      proof (cases "rc1 = 0")
        case True
        obtain d D' where al: "lib_alloc D (m_dest w1) = (d, D')" by force
        define w2 where "w2 = w1\<lparr>m_dest := D', m_srctodest := smap_set i d (m_srctodest w1), m_desttosrc := smap_set d i (m_desttosrc w1)\<rparr>"
        define z where "z = add_item i (item_type m i) (lib_int S rs field_SIZEBYTES (m_src w)) w2"
        have "item_high m i \<noteq> 0 \<Longrightarrow> lib_find S (item_high m i) (m_src w) = None"
          using src.find_none [OF ok] m l by (auto simp: copyable_def domIff)
        then have "A' = B" "w' = z"
          using Suc.prems(1) new False c True 1(2) by (cases "item_high m i = 0"; simp add: rd Let_def al z_def w2_def)+
        moreover have "same_maps w2 z"
          unfolding z_def by (rule add_item_maps)
        then have eqs: "m_src z = m_src w1" "m_dest z = D'" "m_srctodest z = smap_set i d (m_srctodest w1)" "m_desttosrc z = smap_set d i (m_desttosrc w1)"
          by (simp_all add: same_maps_def w2_def)
        have "supplied m z"
          using supplied_new [OF 1(1) rd(4) _ al eqs] 1(4) new(2) by simp
        moreover have "\<forall>x\<in>set A. smap_find (m_srctodest z) x = smap_find (m_srctodest w) x"
          using 1(4) new(1) sm1 by (auto simp: eqs(3))
        ultimately show ?thesis
          using 1(2,3) eqs(1) by (auto simp: supplies_def)
      next
        case False
        then have "A' = B" "w' = w1"
          using Suc.prems(1) new \<open>item_type m i \<noteq> FILE\<close> c by (auto simp: rd Let_def)
        then show ?thesis
          using supplies_trans [OF grows ch] by simp
      qed
    qed
  qed
qed (simp)

text \<open>The plan gives every item an image of its own.\<close>

lemma sync_plan_good:
  assumes ok: "okS src" "okD dest" and m: "mirrorable (libS src)" "plain_dest (libD dest)"
    and t: "listed_once (libD dest)" "\<forall>d\<in>dom (libD dest). child_ok d"
    and n: "card (dom (libS src)) < n" "card (dom (libD dest)) < n"
    and v: "vacant dest \<inter> dom (libD dest) = {}" "card (dom (libS src)) \<le> card (vacant dest)"
    and p: "sync_plan S D n (Synchroniser src dest dry) = Some (0, w)"
  shows "good_images (libS src) w"
proof -
  let ?m = "libS src" and ?m' = "libD dest"
  let ?w = "(Fire (OnStage BEGIN) (Synchroniser src dest dry))\<lparr>m_srcids_seen := [], m_any_deleted := False\<rparr>"
  have c: "copyable ?m" "readable ?m" "BROWSE_ROOT \<in> dom ?m" and d: "readable ?m'" "BROWSE_ROOT \<in> dom ?m'"
    using m by (simp_all add: mirrorable_def copyable_def plain_dest_def)
  obtain w0 where w0: "sync_scan S D n (Synchroniser src dest dry) = Some (0, w0)" "m_src w0 = src" "m_dest w0 = dest" "scan_inv ?m ?m' w0"
    using sync_scan_settles [OF ok c(2) d(1) copyable_hidden [OF c(1,3)] c(3) d(2) n(1), of dry] by blast
  obtain a where "CheckPlaylistNames S D n BROWSE_ROOT BROWSE_ROOT ?w = Some (0, a, w0)"
    using w0(1) by (cases "CheckPlaylistNames S D n BROWSE_ROOT BROWSE_ROOT ?w") (auto simp: sync_scan_def Let_def)
  note walk = CheckPlaylistNames_imaged [OF ok c(1) d(1) t this]
  have "dom (smap_find ([] :: (u32, u32) smap)) = {}"
    by auto
  then have i0: "images_ok ?m w0"
    using walk by (simp add: Synchroniser_def Fire_def images_ok_def imaged_def)
  have dm: "dom (smap_find (m_desttosrc w0)) \<subseteq> dom ?m'"
    using w0(4) unfolding scan_inv_def by blast
  obtain w1 where w1: "sync_delete D n w0 = Some (0, w1)" "same_plan w0 w1"
    using dest.sync_delete_doomed [of w0 n] w0(3) ok(2) d(1) n(2) by auto
  obtain B1 where e1: "each (MaybeDelete D n) (m_destids_maybe_delete w0) [] w0 = Some (0, B1, w1)"
    using w1(1) by (cases "each (MaybeDelete D n) (m_destids_maybe_delete w0) [] w0") (auto simp: sync_delete_def)
  have "vacant (m_dest w1) = vacant (m_dest w0)"
    by (rule each_keeps [where R = "\<lambda>_ w _ w'. vacant (m_dest w') = vacant (m_dest w)" and I = "\<lambda>_. True", OF _ _ _ _ e1])
      (use MaybeDelete_vacant in auto)
  then have v1: "vacant (m_dest w1) = vacant dest"
    using w0(3) by simp
  have "card (dom ?m - dom (smap_find (m_srctodest w0))) \<le> card (dom ?m)"
    using c(2) by (intro card_mono) (auto simp: readable_def)
  then have "card (dom ?m - dom (smap_find (m_srctodest w0))) \<le> card (vacant dest)"
    using v(2) by linarith
  moreover have "vacant dest \<inter> dom (smap_find (m_desttosrc w0)) = {}"
    using v(1) dm by blast
  moreover have "images_ok ?m w1"
    using i0 w1(2) by (simp add: images_ok_def same_plan_def)
  ultimately have s1: "supplied ?m w1"
    using w1(2) w0(2) ok(1) v1 by (simp add: supplied_def same_plan_def)
  have "sync_add S D n w1 = Some (0, w)"
    using p w0(1) w1(1) by (simp add: sync_plan_def)
  then obtain B2 where e2: "each (MaybeAdd S D n) (m_srcids_maybe_add w1) [] w1 = Some (0, B2, w)"
    by (cases "each (MaybeAdd S D n) (m_srcids_maybe_add w1) [] w1") (auto simp: sync_add_def)
  have "supplies ?m [] w1 B2 w"
  proof (rule each_keeps [where I = "supplied ?m" and R = "supplies ?m", OF _ _ supplies_refl supplies_trans e2 s1])
    fix z B' z' and A :: "u32 list"
    assume "supplies ?m A z B' z'"
    then show "supplied ?m z'"
      by (simp add: supplies_def)
  qed (use MaybeAdd_supplies [OF c(1)] in blast)
  then show ?thesis
    using images_ok_good by (auto simp: supplies_def supplied_def)
qed

text \<open>The destination becomes a mirror of the source.\<close>

lemma Synchronise_makes_mirror:
  assumes ok: "okS src" "okD dest" and m: "mirrorable (libS src)" "plain_dest (libD dest)"
    and t: "listed_once (libD dest)" "\<forall>d\<in>dom (libD dest). child_ok d"
    and n: "card (dom (libS src)) < n" "card (dom (libD dest)) < n" and room: "4 * card (dom (libS src)) \<le> room dest"
    and v: "vacant dest \<inter> dom (libD dest) = {}" "card (dom (libS src)) \<le> card (vacant dest)"
  shows "\<exists>w. Synchronise S D n (Synchroniser src dest False) = Some (0, w) \<and> okD (m_dest w) \<and>
    mirrored (libS src) (libD (m_dest w)) (image_of w)"
proof -
  obtain w where w: "sync_plan S D n (Synchroniser src dest False) = Some (0, w)"
    using sync_plan_ok [OF ok m n, of False] by blast
  show ?thesis
    by (rule Synchronise_mirrors [OF ok m n room w sync_plan_good [OF ok m t n v w]])
qed

end

end
