(* ===== verification/SyncFake.thy ===== *)
theory SyncFake
  imports SyncImages SteamStore Allocate Merge
begin

text \<open>
  libmediadb/fake\_database.h: a media database on the in-memory database of libdbsteam, with the
  allocator of identifiers and without files. It keeps the contract of a database, whatever the
  regular expressions do.
\<close>

section \<open>The database\<close>

record fake =
  fk_db :: steam
  fk_aid :: allocator

definition fake_infos :: "(nat \<times> u32) list" where
  "fake_infos =
     [(field_ID, FIELD_INT OR FIELD_INDEXED), (field_PATH, FIELD_STRING OR FIELD_INDEXED),
      (field_ARTIST, FIELD_STRING OR FIELD_INDEXED), (field_ALBUM, FIELD_STRING OR FIELD_INDEXED),
      (field_GENRE, FIELD_STRING OR FIELD_INDEXED), (field_TITLE, FIELD_STRING OR FIELD_INDEXED)]"

definition FakeDatabase :: fake where
  "FakeDatabase = \<lparr>fk_db = fold (\<lambda>(which, flags). SetFieldInfo which flags) fake_infos (Database FIELD_COUNT []), fk_aid = AllocateID\<rparr>"

definition with_db :: "fake \<Rightarrow> steam \<Rightarrow> fake" where
  "with_db d db = d\<lparr>fk_db := db\<rparr>"

text \<open>A query for an identifier; the cursor is at its first result.\<close>

definition fake_find :: "(string \<Rightarrow> bool) \<Rightarrow> (string option \<Rightarrow> string \<Rightarrow> bool) \<Rightarrow> u32 \<Rightarrow> fake \<Rightarrow> cursor option" where
  "fake_find rok re i d = do {
     q \<leftarrow> id_query i;
     (ro, _) \<leftarrow> Execute rok re \<lparr>sq_query = q, m_regexes = []\<rparr> (fk_db d);
     rs \<leftarrow> ro;
     (if rs_IsEOF rs then None else Some (rs_cursor rs)) }"

definition fake_Allocate :: "(string \<Rightarrow> bool) \<Rightarrow> (string option \<Rightarrow> string \<Rightarrow> bool) \<Rightarrow> fake \<Rightarrow> u32 \<times> fake" where
  "fake_Allocate rok re d =
     (case Allocate rok re (fk_aid d) (fk_db d) of
        None \<Rightarrow> (0, d)
      | Some (i, a, db) \<Rightarrow> (i, \<lparr>fk_db = db, fk_aid = a\<rparr>))"

text \<open>
  \<^verbatim>\<open>Delete\<close> then moves the cursor on, which the synchroniser does not look at. A stream is
  the string of a \<^verbatim>\<open>StringStream\<close> and its position; what is written to it is lost.
\<close>

definition fake_library :: "(string \<Rightarrow> bool) \<Rightarrow> (string option \<Rightarrow> string \<Rightarrow> bool) \<Rightarrow> (fake, cursor, string \<times> nat) library_ops" where
  "fake_library rok re =
     \<lparr>lib_find = fake_find rok re,
      lib_int = (\<lambda>rs f d. fst (GetInteger (fk_db d) rs f)),
      lib_str = (\<lambda>rs f d. GetString (fk_db d) rs f),
      lib_add = (\<lambda>d. (let (rc, rs, db) = AddRecord (fk_db d) (Recordset (fk_db d)) in (rs, with_db d db))),
      lib_set_int = (\<lambda>rs f n d. with_db d (snd (SetInteger (fk_db d) rs f n))),
      lib_set_str = (\<lambda>rs f s d. with_db d (snd (SetString (fk_db d) rs f s))),
      lib_commit = (\<lambda>rs d. (let (rc, db) = Commit (fk_db d) in (rc, with_db d db))),
      lib_delete = (\<lambda>rs d. (let (rc, db) = delete_record (fk_db d) rs in (rc, with_db d db))),
      lib_alloc = fake_Allocate rok re,
      lib_open_read = (\<lambda>i d. Some ([], 0)),
      lib_open_write = (\<lambda>i d. (Some ([], 0), d)),
      lib_length = (\<lambda>(s, pos). length s),
      lib_set_length = StringStream_SetLength,
      lib_read = Seekable_Read StringStream_ReadAt,
      lib_write = Seekable_Write StringStream_WriteAt,
      lib_close = (\<lambda>i st d. d)\<rparr>"

section \<open>What it holds\<close>

text \<open>The records are found through the index of identifiers.\<close>

definition holders :: "fake \<Rightarrow> u32 \<Rightarrow> u32 list" where
  "holders d i = index_get (m_intindexes (fk_db d) ! field_ID) i"

definition fake_item :: "fake \<Rightarrow> u32 \<Rightarrow> item" where
  "fake_item d r = (\<lambda>f. if f < FIELD_COUNT then GetString (fk_db d) (record_at r) f else [])"

definition fake_lib :: "fake \<Rightarrow> library" where
  "fake_lib d i = (case holders d i of [] \<Rightarrow> None | r # _ \<Rightarrow> Some (fake_item d r))"

definition fake_at :: "cursor \<Rightarrow> u32 \<Rightarrow> fake \<Rightarrow> bool" where
  "fake_at c i d \<longleftrightarrow> \<not> cursor.m_eof c \<and> holders d i = [m_record c]"

definition fake_fields :: "u32 list" where
  "fake_fields = (replicate FIELD_COUNT 0)[field_ID := 9, field_PATH := 8, field_ARTIST := 8, field_ALBUM := 8,
     field_GENRE := 8, field_TITLE := 8]"

definition fake_ok :: "fake \<Rightarrow> bool" where
  "fake_ok d \<longleftrightarrow> steam_ok (fk_db d) \<and> m_fields (fk_db d) = fake_fields \<and> (\<forall>i. length (holders d i) \<le> 1)"

definition fake_room :: "fake \<Rightarrow> nat" where
  "fake_room d = 2 ^ 32 - 1 - unat (m_next_recno (fk_db d))"

lemma fake_ok_facts:
  assumes "fake_ok d"
  shows "steam_ok (fk_db d)" "m_nfields (fk_db d) = FIELD_COUNT" "m_fields (fk_db d) = fake_fields"
    "alloc_db_ok (fk_db d)" "is_indexed (fake_fields ! field_ID)" "is_int_type (fake_fields ! field_ID)" "field_ID < FIELD_COUNT"
proof -
  show i: "is_indexed (fake_fields ! field_ID)" "is_int_type (fake_fields ! field_ID)" "field_ID < FIELD_COUNT"
    by code_simp+
  have "length fake_fields = FIELD_COUNT"
    by (simp add: fake_fields_def)
  then show s: "steam_ok (fk_db d)" "m_nfields (fk_db d) = FIELD_COUNT" "m_fields (fk_db d) = fake_fields"
    using assms by (auto simp: fake_ok_def steam_ok_def)
  show "alloc_db_ok (fk_db d)"
    using i s by (simp add: alloc_db_ok_def)
qed

lemma holders_key:
  assumes "fake_ok d"
  shows "set (holders d i) = {r. int_key (m_data (fk_db d)) field_ID r = Some i}" "sset_ok (holders d i)"
  using fake_ok_facts [OF assms] by (auto simp: steam_ok_def field_indexes_ok_def Let_def index_tracks_def index_postings_def
      holders_def index_get_ok)

lemma holders_single:
  assumes "fake_ok d" "r \<in> set (holders d i)"
  shows "holders d i = [r]"
proof -
  have "length (holders d i) \<le> 1"
    using assms(1) by (simp add: fake_ok_def)
  then show ?thesis
    using assms(2) by (cases "holders d i") auto
qed

lemma fake_at_record:
  assumes "fake_ok d" "fake_at c i d"
  shows "\<not> cursor.m_eof c" "smap_find (m_data (fk_db d)) (m_record c) \<noteq> None" "fake_lib d i = Some (fake_item d (m_record c))"
    "record_at (m_record c) = c"
  using assms holders_key(1) [OF assms(1), of i] by (auto simp: fake_at_def fake_lib_def int_key_def split: option.splits)

lemma id_query_indexed:
  assumes "fake_ok d"
  shows "fake_find rok re i d = (case holders d i of [] \<Rightarrow> None | r # _ \<Rightarrow> Some (record_at r))"
proof -
  have q: "id_query i = Some \<lparr>m_restrictions = [int_restriction field_ID EQ i], m_relations = [], m_root = 1, m_orderby = [], m_collateby = []\<rparr>"
    by (simp add: id_query_def Restrict_int_def push_restriction_def new_query_def Where_def in_range_def)
  have "cursor.truncate (IndexedRecordset_int (fk_db d) field_ID i) = record_at r" if "holders d i = r # rs" for r rs
    using that by (auto simp: IndexedRecordset_int_def index_first_def index_cursor_of_def holders_def index_get_def cursor.truncate_def
        split: option.splits)
  moreover have "cursor.m_eof (IndexedRecordset_int (fk_db d) field_ID i) \<longleftrightarrow> holders d i = []"
    using Indexed_start(1) [OF fake_ok_facts(1) [OF assms], of field_ID i] fake_ok_facts [OF assms]
    by (auto simp: holders_def indexed_pending_def IndexedRecordset_int_def index_first_def index_cursor_of_def index_get_def
        split: option.splits)
  ultimately show ?thesis
    using fake_ok_facts [OF assms] unfolding fake_find_def q
    by (auto simp: Execute_def Let_def int_restriction_def rs_cursor_def split: list.splits)
qed

section \<open>Reading\<close>

interpretation fake: library_reader "fake_library rok re" fake_lib fake_at fake_ok for rok re
proof unfold_locales
  fix d :: fake and i :: u32 and c :: cursor and r :: item and f :: nat
  assume ok: "fake_ok d"
  note facts = fake_ok_facts [OF ok]
  show "lib_find (fake_library rok re) i d = None \<longleftrightarrow> fake_lib d i = None"
    by (simp add: fake_library_def id_query_indexed [OF ok] fake_lib_def split: list.splits)
  show "fake_at c i d" if found: "lib_find (fake_library rok re) i d = Some c"
  proof -
    obtain r rs where r: "holders d i = r # rs" "c = record_at r"
      using found by (auto simp: fake_library_def id_query_indexed [OF ok] split: list.splits)
    then have "holders d i = [r]"
      by (intro holders_single ok) simp
    then show ?thesis
      using r(2) by (simp add: fake_at_def)
  qed
  have "dom (fake_lib d) \<subseteq> (\<lambda>r. the (int_key (m_data (fk_db d)) field_ID r)) ` fst ` set (m_data (fk_db d))"
  proof
    fix j assume "j \<in> dom (fake_lib d)"
    then obtain r rs where "holders d j = r # rs"
      by (auto simp: fake_lib_def split: list.splits)
    then have "int_key (m_data (fk_db d)) field_ID r = Some j"
      using holders_key(1) [OF ok, of j] by auto
    then show "j \<in> (\<lambda>r. the (int_key (m_data (fk_db d)) field_ID r)) ` fst ` set (m_data (fk_db d))"
      using smap_find_None [of "m_data (fk_db d)" r] by (force simp: int_key_def split: option.splits)
  qed
  then show "finite (dom (fake_lib d))"
    by (rule finite_subset) simp
  assume at: "fake_at c i d"
  note rec = fake_at_record [OF ok at]
  then show "fake_lib d i \<noteq> None"
    by simp
  assume l: "fake_lib d i = Some r" and f: "f < FIELD_COUNT"
  show s: "lib_str (fake_library rok re) c f d = r f"
    using l f rec(3,4) by (auto simp: fake_library_def fake_item_def)
  show "lib_int (fake_library rok re) c f d = parse_u32 (r f)"
    using GetInteger_GetString [OF facts(1), of f c] f facts(2) s by (simp add: fake_library_def)
qed

section \<open>Writing\<close>

lemma SetString_index: "which \<noteq> g \<Longrightarrow> m_intindexes (snd (SetString db rs which s)) ! g = m_intindexes db ! g"
  by (auto simp: SetString_def Let_def put_value_def string_add_def string_drop_def int_add_def int_drop_def split: option.splits)

lemma SetInteger_index: "which \<noteq> g \<Longrightarrow> m_intindexes (snd (SetInteger db rs which n)) ! g = m_intindexes db ! g"
  by (auto simp: SetInteger_def Let_def put_value_def string_add_def string_drop_def int_add_def int_drop_def split: option.splits)

lemma holders_only:
  assumes "fake_ok d" "fake_at c i d" "m_record c \<in> set (holders d j)"
  shows "j = i"
proof -
  have "m_record c \<in> set (holders d i)"
    using assms(2) by (simp add: fake_at_def)
  then show ?thesis
    using assms(3) unfolding holders_key(1) [OF assms(1)] by simp
qed

text \<open>A write to another field than the identifier.\<close>

lemma fake_written:
  assumes ok: "fake_ok d" and at: "fake_at c i d" and r: "fake_lib d i = Some r" and f: "f < FIELD_COUNT"
    and w: "reads_after (fk_db d) (rc, db) c f x n" and db: "steam_ok db" "same_shape (fk_db d) db"
      "m_intindexes db ! field_ID = m_intindexes (fk_db d) ! field_ID"
  shows "fake_ok (with_db d db) \<and> fake_at c i (with_db d db) \<and> fake_lib (with_db d db) = (fake_lib d)(i \<mapsto> r(f := x)) \<and>
    fake_room (with_db d db) = fake_room d"
proof -
  let ?d = "with_db d db"
  have h: "holders ?d = holders d"
    using db(3) by (simp add: holders_def with_db_def fun_eq_iff)
  note rec = fake_at_record [OF ok at]
  have "GetString db c f = x" "\<And>rs' g. m_record rs' \<noteq> m_record c \<or> g \<noteq> f \<Longrightarrow> GetString db rs' g = GetString (fk_db d) rs' g"
    using w by (auto simp: reads_after_def)
  moreover have "GetString db (record_at (m_record c)) f = GetString db c f"
    using rec(4) by simp
  ultimately have item: "fake_item ?d q = (if q = m_record c then (fake_item d q)(f := x) else fake_item d q)" for q
    using f by (auto simp: fake_item_def with_db_def fun_eq_iff)
  have "fake_lib ?d j = ((fake_lib d)(i \<mapsto> r(f := x))) j" for j
  proof (cases "j = i")
    case True
    have "holders d i = [m_record c]" "r = fake_item d (m_record c)"
      using at rec(3) r by (simp_all add: fake_at_def)
    then show ?thesis
      using True item by (simp add: fake_lib_def h)
  next
    case False
    have "q \<noteq> m_record c" if "q \<in> set (holders d j)" for q
      using that False holders_only [OF ok at] by blast
    then show ?thesis
      using False item by (auto simp: fake_lib_def h split: list.splits)
  qed
  then show ?thesis
    using ok at h db(1,2) by (auto simp: fake_ok_def fake_at_def fake_room_def same_shape_def with_db_def)
qed

lemma holders_after:
  assumes "fake_ok d" "steam_ok db" "m_fields db = m_fields (fk_db d)"
    and "\<And>r. int_key (m_data db) field_ID r = (if r = q then k else int_key (m_data (fk_db d)) field_ID r)"
  shows "set (holders (with_db d db) i) = (set (holders d i) - {q}) \<union> (if k = Some i then {q} else {})"
    "sset_ok (holders (with_db d db) i)"
proof -
  have "m_nfields db = FIELD_COUNT" "is_indexed (m_fields db ! field_ID)" "is_int_type (m_fields db ! field_ID)" "field_ID < FIELD_COUNT"
    using fake_ok_facts [OF assms(1)] assms(2,3) by (auto simp: steam_ok_def)
  then have h: "set (holders (with_db d db) i) = {r. int_key (m_data db) field_ID r = Some i}" "sset_ok (holders (with_db d db) i)"
    using assms(2) by (auto simp: steam_ok_def field_indexes_ok_def Let_def index_tracks_def index_postings_def
        holders_def index_get_ok with_db_def)
  then show "sset_ok (holders (with_db d db) i)"
    by simp
  show "set (holders (with_db d db) i) = (set (holders d i) - {q}) \<union> (if k = Some i then {q} else {})"
    using h(1) holders_key(1) [OF assms(1), of i] assms(4) by auto
qed

lemma short_sset: "sset_ok s \<Longrightarrow> set s = {} \<Longrightarrow> s = []" "sset_ok s \<Longrightarrow> set s = {x} \<Longrightarrow> s = [x]"
  by (auto simp: sset_ok_def intro: sorted_distinct_set_unique [of s "[x]"] dest: strict_sorted_iff [THEN iffD1])

lemma int_key_value: "int_key (m_data db) f r = Option.bind (value_at db r f) (\<lambda>v. if ivalid v then Some (fv_i v) else None)"
  by (simp add: int_key_def value_at_def split: option.splits)

lemma fake_item_frame: "(\<And>f. value_at db r f = value_at (fk_db d) r f) \<Longrightarrow> fake_item (with_db d db) r = fake_item d r"
  by (simp add: fake_item_def with_db_def GetString_value fun_eq_iff)

text \<open>Deleting.\<close>

lemma delete_record_frame:
  assumes "delete_record db rs = (rc, db')"
  shows "m_fields db' = m_fields db" "m_nfields db' = m_nfields db" "m_next_recno db' = m_next_recno db"
proof -
  have "m_fields (foldl (unindex_field r row) x fs) = m_fields x \<and> m_nfields (foldl (unindex_field r row) x fs) = m_nfields x \<and>
      m_next_recno (foldl (unindex_field r row) x fs) = m_next_recno x" for r row x fs
    by (induction fs arbitrary: x) auto
  then show "m_fields db' = m_fields db" "m_nfields db' = m_nfields db" "m_next_recno db' = m_next_recno db"
    using assms by (auto simp: delete_record_def Let_def split: if_splits option.splits)
qed

lemma fake_deleted:
  assumes ok: "fake_ok d" and at: "fake_at c i d" and del: "delete_record (fk_db d) c = (rc, db)"
  shows "rc = 0 \<and> fake_ok (with_db d db) \<and> fake_lib (with_db d db) = (fake_lib d)(i := None) \<and> fake_room (with_db d db) = fake_room d"
    "fake_at c' j d \<Longrightarrow> j \<noteq> i \<Longrightarrow> fake_at c' j (with_db d db)"
proof -
  note facts = fake_ok_facts [OF ok] and rec = fake_at_record [OF ok at] and frame = delete_record_frame [OF del]
  have gone: "rc = 0" "smap_find (m_data db) (m_record c) = None" "\<And>r f. r \<noteq> m_record c \<Longrightarrow> value_at db r f = value_at (fk_db d) r f"
    using delete_record_gone [OF facts(1) rec(1,2) del] by auto
  have ok': "steam_ok db"
    using delete_record_ok [OF facts(1), of c] del by simp
  have "int_key (m_data db) field_ID r = (if r = m_record c then None else int_key (m_data (fk_db d)) field_ID r)" for r
    using gone(2,3) by (simp add: int_key_value) (simp add: value_at_def)
  note h = holders_after [OF ok ok' frame(1) this]
  have hs: "holders (with_db d db) k = (if k = i then [] else holders d k)" for k
  proof (cases "k = i")
    case True
    then show ?thesis
      using h [of i] at short_sset(1) [of "holders (with_db d db) i"] by (auto simp: fake_at_def)
  next
    case False
    then have "m_record c \<notin> set (holders d k)"
      using holders_only [OF ok at] by blast
    then have "set (holders (with_db d db) k) = set (holders d k)"
      using h(1) [of k] by simp
    moreover have "holders d k = [] \<or> (\<exists>x. holders d k = [x])"
      using ok by (cases "holders d k") (auto simp: fake_ok_def dest: spec [of _ k])
    ultimately show ?thesis
      using False h(2) [of k] short_sset [of "holders (with_db d db) k"] by auto
  qed
  have item: "fake_item (with_db d db) r = fake_item d r" if "r \<noteq> m_record c" for r
    using that gone(3) by (intro fake_item_frame) simp
  have "fake_lib (with_db d db) k = ((fake_lib d)(i := None)) k" for k
  proof (cases "k = i")
    case False
    then have "m_record c \<notin> set (holders d k)"
      using holders_only [OF ok at] by blast
    then show ?thesis
      using False hs item by (auto simp: fake_lib_def split: list.splits)
  qed (simp add: fake_lib_def hs)
  then show "rc = 0 \<and> fake_ok (with_db d db) \<and> fake_lib (with_db d db) = (fake_lib d)(i := None) \<and> fake_room (with_db d db) = fake_room d"
    using gone(1) ok ok' frame hs by (auto simp: fake_ok_def fake_room_def with_db_def fun_eq_iff)
  show "fake_at c' j (with_db d db)" if "fake_at c' j d" "j \<noteq> i"
    using that hs by (simp add: fake_at_def)
qed

text \<open>Adding.\<close>

lemma SetInteger_key:
  assumes "steam_ok db" "\<not> cursor.m_eof rs" "smap_find (m_data db) (m_record rs) \<noteq> None" "which < m_nfields db"
  shows "int_key (m_data (snd (SetInteger db rs which n))) which r = (if r = m_record rs then Some n else int_key (m_data db) which r)"
proof -
  obtain row where row: "smap_find (m_data db) (m_record rs) = Some row"
    using assms(3) by auto
  have v: "value_at (snd (SetInteger db rs which n)) r which = (if r = m_record rs then
      value_at (snd (SetInteger db rs which n)) (m_record rs) which else value_at db r which)"
    using assms(2) row by (auto simp: SetInteger_def Let_def value_at_put [OF assms(1) row assms(4)])
  have "Option.bind (value_at (snd (SetInteger db rs which n)) (m_record rs) which) (\<lambda>v. if ivalid v then Some (fv_i v) else None) = Some n"
    using assms(2) row by (auto simp: SetInteger_def Let_def value_at_put [OF assms(1) row assms(4)])
  then show ?thesis
    using v by (simp add: int_key_value)
qed

lemma fake_added:
  assumes ok: "fake_ok d" and i: "fake_lib d i = None" "i \<noteq> 0" "0 < fake_room d"
    and add: "AddRecord (fk_db d) (Recordset (fk_db d)) = (rc, c, db)" and db': "db' = snd (SetInteger db c field_ID i)"
  shows "fake_ok (with_db d db') \<and> fake_at c i (with_db d db') \<and> fake_lib (with_db d db') = (fake_lib d)(i \<mapsto> blank_item i) \<and>
    fake_room d = Suc (fake_room (with_db d db'))"
proof -
  note facts = fake_ok_facts [OF ok]
  have n: "m_next_recno (fk_db d) \<noteq> - 1"
    using i(3) by (auto simp: fake_room_def unsigned_minus_1_eq_mask mask_eq_exp_minus_1)
  note new = AddRecord_new [OF facts(1) n add] and keys = AddRecord_keys [OF facts(1) add]
  have okdb: "steam_ok db"
    using AddRecord_ok [OF facts(1) n] add by (metis snd_conv)
  have nf: "m_nfields db = FIELD_COUNT" "m_fields db = fake_fields" "field_ID < m_nfields db"
    using keys facts by simp_all
  have cur: "\<not> cursor.m_eof c" "smap_find (m_data db) (m_record c) \<noteq> None"
    using new keys by simp_all
  have ok': "steam_ok db'"
    unfolding db' by (rule SetInteger_ok [OF okdb nf(3)])
  have shape: "same_shape db db'"
    unfolding db' by (rule SetInteger_shape [OF okdb])
  have reads: "reads_after db (fst (SetInteger db c field_ID i), db') c field_ID (dec (unat i)) i"
    using SetInteger_reads [OF okdb nf(3) cur, of i] i(2) by (simp add: db')
  have "int_key (m_data db') field_ID r = (if r = m_record c then Some i else int_key (m_data (fk_db d)) field_ID r)" for r
    using new SetInteger_key [OF okdb cur nf(3), of i r] by (simp add: db' int_key_value)
  moreover have "m_fields db' = m_fields (fk_db d)"
    using shape keys(5) by (simp add: same_shape_def)
  ultimately have h: "set (holders (with_db d db') k) = (set (holders d k) - {m_record c}) \<union> (if Some i = Some k then {m_record c} else {})"
    "sset_ok (holders (with_db d db') k)" for k
    using holders_after [OF ok ok'] by blast+
  have none: "holders d i = []" and fresh: "m_record c \<notin> set (holders d k)" for k
    using i(1) new holders_key(1) [OF ok, of k] by (auto simp: fake_lib_def int_key_def split: list.splits)
  have hs: "holders (with_db d db') k = (if k = i then [m_record c] else holders d k)" for k
  proof (cases "k = i")
    case True
    then show ?thesis
      using h [of i] none short_sset(2) [of "holders (with_db d db') i"] by auto
  next
    case False
    then have "set (holders (with_db d db') k) = set (holders d k)"
      using h(1) [of k] fresh [of k] by simp
    moreover have "holders d k = [] \<or> (\<exists>x. holders d k = [x])"
      using ok by (cases "holders d k") (auto simp: fake_ok_def dest: spec [of _ k])
    ultimately show ?thesis
      using False h(2) [of k] short_sset [of "holders (with_db d db') k"] by auto
  qed
  have item: "fake_item (with_db d db') r = (if r = m_record c then blank_item i else fake_item d r)" for r
  proof -
    have "GetString db' (record_at r) f = (if r = m_record c \<and> f = field_ID then dec (unat i) else GetString db (record_at r) f)" for f
      using reads cur(1) by (cases c) (auto simp: reads_after_def)
    moreover have "GetString db (record_at r) f = (if r = m_record c then [] else GetString (fk_db d) (record_at r) f)" if "f < FIELD_COUNT" for f
      using new that facts(2) cur(1) by (cases c) (auto intro: GetString_frame)
    ultimately show ?thesis
      using i(2) facts(7) by (auto simp: fake_item_def with_db_def blank_item_def number_text_def fun_eq_iff)
  qed
  have "fake_lib (with_db d db') k = ((fake_lib d)(i \<mapsto> blank_item i)) k" for k
    using hs [of k] item fresh [of k] by (auto simp: fake_lib_def split: list.splits)
  moreover have "m_next_recno db' = m_next_recno (fk_db d) + 1"
    using shape keys(3) by (simp add: same_shape_def)
  then have "fake_room d = Suc (fake_room (with_db d db'))"
    using i(3) unat_Suc [of "m_next_recno (fk_db d)"] by (simp add: fake_room_def with_db_def)
  ultimately show ?thesis
    using ok ok' hs cur(1) nf shape by (auto simp: fake_ok_def fake_at_def same_shape_def with_db_def fun_eq_iff)
qed

text \<open>Allocating.\<close>

lemma fake_allocated:
  assumes ok: "fake_ok d"
  shows "\<exists>i a db. Allocate rok re (fk_aid d) (fk_db d) = Some (i, a, db) \<and> same_reads (fk_db d) db"
  using next_gap_spec [OF fake_ok_facts(4) [OF ok], of rok re "\<lambda>expected found. found + 1" "m_gap_end (fk_aid d) + 1" "fk_aid d"]
    same_reads_refl [OF fake_ok_facts(1) [OF ok]]
  by (auto simp: Allocate_def)

lemma fake_same_reads:
  assumes ok: "fake_ok d" and same: "same_reads (fk_db d) db"
  shows "fake_ok \<lparr>fk_db = db, fk_aid = a\<rparr> \<and> fake_lib \<lparr>fk_db = db, fk_aid = a\<rparr> = fake_lib d \<and> fake_room \<lparr>fk_db = db, fk_aid = a\<rparr> = fake_room d"
proof -
  have h: "holders \<lparr>fk_db = db, fk_aid = a\<rparr> = holders d"
    using same by (simp add: holders_def same_reads_def fun_eq_iff)
  have i: "fake_item \<lparr>fk_db = db, fk_aid = a\<rparr> = fake_item d"
    using same_reads_values(1) [OF same] by (simp add: fake_item_def fun_eq_iff)
  have "fake_lib \<lparr>fk_db = db, fk_aid = a\<rparr> = fake_lib d"
    unfolding fake_lib_def [abs_def] h i ..
  then show ?thesis
    using ok same unfolding fake_ok_def h by (simp add: fake_room_def same_reads_def)
qed

text \<open>The types and indexes of the fields that are not identifiers.\<close>

lemma fake_string_field: "f < FIELD_COUNT \<Longrightarrow> f \<noteq> field_ID \<Longrightarrow> \<not> is_int_type (fake_fields ! f)"
proof -
  have "\<forall>f\<in>set [0..<FIELD_COUNT]. f = field_ID \<or> \<not> is_int_type (fake_fields ! f)"
    by code_simp
  then show "f < FIELD_COUNT \<Longrightarrow> f \<noteq> field_ID \<Longrightarrow> \<not> is_int_type (fake_fields ! f)"
    by auto
qed

lemma fake_type_field: "\<not> is_indexed (fake_fields ! field_TYPE)" "field_TYPE < FIELD_COUNT" "field_TYPE \<noteq> field_ID"
  by code_simp+

interpretation fake: library_writer "fake_library rok re" fake_lib fake_at fake_ok fake_room for rok re
proof unfold_locales
  fix d d' d'' :: fake and i j rc n :: u32 and c c' :: cursor and r :: item and f :: nat and x :: string
  assume ok: "fake_ok d"
  note facts = fake_ok_facts [OF ok]
  show "rc = 0 \<and> fake_ok d' \<and> fake_lib d' = (fake_lib d)(i := None) \<and> fake_room d' = fake_room d"
    if "fake_at c i d" "lib_delete (fake_library rok re) c d = (rc, d')"
    using that fake_deleted(1) [OF ok that(1)] by (auto simp: fake_library_def split: prod.splits)
  show "fake_at c' j d'" if "fake_at c i d" "fake_at c' j d" "j \<noteq> i" "lib_delete (fake_library rok re) c d = (rc, d')"
    using that fake_deleted(2) [OF ok that(1) _ that(2,3)] by (auto simp: fake_library_def split: prod.splits)
  show "fake_ok d'' \<and> fake_at c i d'' \<and> fake_lib d'' = (fake_lib d)(i \<mapsto> blank_item i) \<and> fake_room d = Suc (fake_room d'')"
    if "fake_lib d i = None" "i \<noteq> 0" "0 < fake_room d" "lib_add (fake_library rok re) d = (c, d')"
      "d'' = lib_set_int (fake_library rok re) c field_ID i d'"
    using that fake_added [OF ok that(1-3)] by (auto simp: fake_library_def with_db_def split: prod.splits)
  show "fake_ok d' \<and> fake_at c i d' \<and> fake_lib d' = (fake_lib d)(i \<mapsto> r(f := x)) \<and> fake_room d' = fake_room d"
    if at: "fake_at c i d" and r: "fake_lib d i = Some r" and f: "f < FIELD_COUNT" "f \<noteq> field_ID"
      and d': "d' = lib_set_str (fake_library rok re) c f x d"
  proof -
    note rec = fake_at_record [OF ok at]
    have fn: "f < m_nfields (fk_db d)"
      using f(1) facts(2) by simp
    have "reads_after (fk_db d) (fst (SetString (fk_db d) c f x), snd (SetString (fk_db d) c f x)) c f x (parse_u32 x)"
      using SetString_reads_after [OF facts(1) fn rec(1,2), of x] fake_string_field [OF f] facts(3) by simp
    from fake_written [OF ok at r f(1) this SetString_ok [OF facts(1) fn] SetString_shape [OF facts(1)] SetString_index [OF f(2)]]
    show ?thesis
      by (simp add: d' fake_library_def)
  qed
  show "fake_ok d' \<and> fake_at c i d' \<and> fake_lib d' = (fake_lib d)(i \<mapsto> r(field_TYPE := number_text n)) \<and> fake_room d' = fake_room d"
    if at: "fake_at c i d" and r: "fake_lib d i = Some r" and d': "d' = lib_set_int (fake_library rok re) c field_TYPE n d"
  proof -
    note rec = fake_at_record [OF ok at]
    have fn: "field_TYPE < m_nfields (fk_db d)"
      using fake_type_field facts(2) by simp
    have "reads_after (fk_db d) (fst (SetInteger (fk_db d) c field_TYPE n), snd (SetInteger (fk_db d) c field_TYPE n)) c field_TYPE (number_text n) n"
      using SetInteger_reads [OF facts(1) fn rec(1,2), of n] fake_type_field(1) facts(3) by (simp add: number_text_def)
    from fake_written [OF ok at r fake_type_field(2) this SetInteger_ok [OF facts(1) fn] SetInteger_shape [OF facts(1)]
        SetInteger_index [OF fake_type_field(3)]]
    show ?thesis
      by (simp add: d' fake_library_def)
  qed
  show "rc = 0 \<and> fake_ok d' \<and> fake_lib d' = fake_lib d \<and> fake_room d' = fake_room d"
    if "lib_commit (fake_library rok re) c d = (rc, d')"
    using that ok by (auto simp: fake_library_def Commit_def with_db_def)
  show "fake_ok d' \<and> fake_lib d' = fake_lib d \<and> fake_room d' = fake_room d" if "lib_alloc (fake_library rok re) d = (i, d')"
    using that fake_allocated [OF ok, of rok re] fake_same_reads [OF ok] by (auto simp: fake_library_def fake_Allocate_def)
qed

text \<open>A database to read from beside one to write to.\<close>

interpretation fake_pair: two_libraries "fake_library rok re" fake_lib fake_at fake_ok "fake_library rok re" fake_lib fake_at fake_ok for rok re
  by unfold_locales

interpretation fake_stores: two_stores "fake_library rok re" fake_lib fake_at fake_ok "fake_library rok re" fake_lib fake_at fake_ok fake_room for rok re
  by unfold_locales

interpretation fakes: content_stores "fake_library rok re" fake_lib fake_at fake_ok "fake_library rok re" fake_lib fake_at fake_ok fake_room for rok re
proof unfold_locales
  fix x :: fake and w :: "(fake, fake) sync" and s d
  assume "fake_ok x" "m_dest w = x"
  moreover have "copy_content (fake_library rok re) (fake_library rok re) s d w = Some (0, w)"
    by (simp add: copy_content_def fake_library_def StringStream_SetLength_def CopyStream.simps WriteAll.simps Seekable_Read_def StringStream_ReadAt_def)
  ultimately show "\<exists>x'. copy_content (fake_library rok re) (fake_library rok re) s d w = Some (0, w\<lparr>m_dest := x'\<rparr>) \<and>
      fake_ok x' \<and> fake_lib x' = fake_lib x \<and> fake_room x' = fake_room x"
    by (intro exI [of _ x]) auto
qed

text \<open>What the allocator has left of its gap, without identifiers that do not fit into a list of children.\<close>

definition fake_vacant :: "fake \<Rightarrow> u32 set" where
  "fake_vacant d = {i. 0 < m_gap_begin (fk_aid d) \<and> m_gap_begin (fk_aid d) \<le> i \<and> i < m_gap_end (fk_aid d) \<and> i < 0x80000000}"

interpretation fake_supply: allocating_stores "fake_library rok re" fake_lib fake_at fake_ok "fake_library rok re" fake_lib fake_at fake_ok fake_room fake_vacant
  for rok re
proof unfold_locales
  fix x x' :: fake and i rc :: u32 and c :: cursor
  show "fake_vacant x' = fake_vacant x" if "lib_delete (fake_library rok re) c x = (rc, x')"
    using that by (auto simp: fake_library_def with_db_def fake_vacant_def split: prod.splits)
  show "child_ok i" if "i \<in> fake_vacant x"
    using that by (auto simp: fake_vacant_def child_ok_def intro: less_le_trans)
  let ?b = "m_gap_begin (fk_aid x)"
  show "i \<in> fake_vacant x \<and> fake_vacant x' = fake_vacant x - {i}" if a: "lib_alloc (fake_library rok re) x = (i, x')" and v: "fake_vacant x \<noteq> {}"
  proof -
    have b: "0 < ?b" "?b < m_gap_end (fk_aid x)" "?b < 0x80000000"
      using v by (auto simp: fake_vacant_def)
    then have "?b \<noteq> m_gap_end (fk_aid x)"
      by auto
    then have e: "i = ?b" "fk_aid x' = (fk_aid x)\<lparr>m_gap_begin := ?b + 1\<rparr>"
      using a by (auto simp: fake_library_def fake_Allocate_def Allocate_def)
    have "unat (?b + 1) = Suc (unat ?b)"
    proof -
      have "?b < UINT_MAX"
        using b(3) by (rule less_trans) (simp add: UINT_MAX_def)
      then show ?thesis
        by (simp add: unat_succ)
    qed
    then have "?b + 1 \<le> j \<longleftrightarrow> ?b \<le> j \<and> j \<noteq> ?b" "0 < ?b + 1" for j
      by (auto simp: word_le_nat_alt word_less_nat_alt word_unat_eq_iff)
    then show ?thesis
      using b e by (auto simp: fake_vacant_def)
  qed
qed

end
