(* ===== verification/SyncDry.thy ===== *)
theory SyncDry
  imports Sync
begin

text \<open>
  A dry run of the synchroniser, on databases of any kind: nothing is relied on here of the functions
  behind \<^verbatim>\<open>mediadb::Database\<close>. Every operation of sync.cpp that ends leaves both databases as
  they are, but that the additions ask the destination for identifiers.
\<close>

definition allocated :: "('b, 'e, 't) library_ops \<Rightarrow> 'b \<Rightarrow> 'b" where
  "allocated D d = snd (lib_alloc D d)"

definition dry_kept :: "('b, 'e, 't) library_ops \<Rightarrow> ('a, 'b) sync \<Rightarrow> ('a, 'b) sync \<Rightarrow> bool" where
  "dry_kept D w w' \<longleftrightarrow> m_dry_run w' = m_dry_run w \<and> m_src w' = m_src w \<and>
     (m_dry_run w \<longrightarrow> (\<exists>k. m_dest w' = (allocated D ^^ k) (m_dest w)))"

lemma dry_kept_same: "m_dry_run w' = m_dry_run w \<Longrightarrow> m_src w' = m_src w \<Longrightarrow> m_dest w' = m_dest w \<Longrightarrow> dry_kept D w w'"
  by (auto simp: dry_kept_def intro: exI [of _ 0])

lemma dry_kept_refl [simp]: "dry_kept D w w"
  by (simp add: dry_kept_same)

lemma dry_kept_trans:
  assumes "dry_kept D w w'" "dry_kept D w' w''"
  shows "dry_kept D w w''"
proof -
  have "\<exists>i. m_dest w'' = (allocated D ^^ i) (m_dest w)"
    if "m_dest w' = (allocated D ^^ k) (m_dest w)" "m_dest w'' = (allocated D ^^ j) (m_dest w')" for k j
    using that by (intro exI [of _ "j + k"]) (simp add: funpow_add)
  then show ?thesis
    using assms unfolding dry_kept_def by metis
qed

lemma srctodest_at_same:
  "srctodest_at k w = (d, w') \<Longrightarrow> m_dry_run w' = m_dry_run w \<and> m_src w' = m_src w \<and> m_dest w' = m_dest w"
  by (auto simp: srctodest_at_def split: option.splits)

lemma image_ids_same:
  "image_ids js w = (ks, w') \<Longrightarrow> m_dry_run w' = m_dry_run w \<and> m_src w' = m_src w \<and> m_dest w' = m_dest w"
  by (induction js arbitrary: ks w) (auto simp: Let_def split: prod.splits dest: srctodest_at_same)

lemma check_tune_same:
  "check_tune S D s srs d drs w = (s', w') \<Longrightarrow> m_dry_run w' = m_dry_run w \<and> m_src w' = m_src w \<and> m_dest w' = m_dest w"
  by (auto simp: check_tune_def Let_def split: option.splits if_splits)

lemma dry_kept_from:
  "dry_kept D w1 w' \<Longrightarrow> m_dry_run w1 = m_dry_run w \<Longrightarrow> m_src w1 = m_src w \<Longrightarrow> m_dest w1 = m_dest w \<Longrightarrow> dry_kept D w w'"
  by (simp add: dry_kept_def)

lemma dry_kept_to:
  "dry_kept D w w1 \<Longrightarrow> m_dry_run w' = m_dry_run w1 \<Longrightarrow> m_src w' = m_src w1 \<Longrightarrow> m_dest w' = m_dest w1 \<Longrightarrow> dry_kept D w w'"
  by (simp add: dry_kept_def)

lemmas bind_Some = Option.bind_eq_Some_conv

section \<open>The loops\<close>

lemma match_children_dry:
  fixes w :: "('a, 'b) sync"
  assumes "\<And>s d (w :: ('a, 'b) sync) rc a w'. check s d w = Some (rc, a, w') \<Longrightarrow> dry_kept D w w'"
  shows "match_children check dels adds i xs j ys amend w = Some (rc, a, w') \<Longrightarrow> dry_kept D w w'"
proof (induction "length xs + length ys" arbitrary: i xs j ys amend w rule: less_induct)
  case less
  consider (addition) x xs' where "xs = x # xs'" "i + 1 \<in> set adds"
    | (deletion) y ys' where "ys = y # ys'" "j + 1 \<in> set dels" "xs = [] \<or> i + 1 \<notin> set adds"
    | (stop) "xs = [] \<or> i + 1 \<notin> set adds" "ys = [] \<or> j + 1 \<notin> set dels" "xs = [] \<or> ys = []"
    | (pair) x xs' y ys' where "xs = x # xs'" "ys = y # ys'" "i + 1 \<notin> set adds" "j + 1 \<notin> set dels"
    by (cases xs; cases ys) auto
  then show ?case
  proof cases
    case addition
    then have "match_children check dels adds (i + 1) xs' j ys True (w\<lparr>m_srcids_maybe_add := sset_insert x (m_srcids_maybe_add w)\<rparr>) = Some (rc, a, w')"
      using less.prems by (subst (asm) match_children.simps) simp
    from less.hyps [OF _ this] show ?thesis
      by (rule dry_kept_from) (use addition in simp_all)
  next
    case deletion
    then have "match_children check dels adds i xs (j + 1) ys' True (w\<lparr>m_destids_maybe_delete := sset_insert y (m_destids_maybe_delete w)\<rparr>) = Some (rc, a, w')"
      using less.prems by (subst (asm) match_children.simps) (auto split: if_splits)
    from less.hyps [OF _ this] show ?thesis
      by (rule dry_kept_from) (use deletion in simp_all)
  next
    case stop
    then have "w' = w"
      using less.prems by (subst (asm) match_children.simps) (auto split: if_splits list.splits)
    then show ?thesis
      by simp
  next
    case pair
    obtain rc1 a1 w1 where c: "check x y w = Some (rc1, a1, w1)"
      and r: "if rc1 \<noteq> 0 then w' = w1
        else match_children check dels adds (i + 1) xs' (j + 1) ys' (amend \<or> a1) w1 = Some (rc, a, w')"
      using less.prems pair by (subst (asm) match_children.simps) (auto simp: bind_Some split: if_splits)
    have "rc1 = 0 \<Longrightarrow> dry_kept D w1 w'"
      using less.hyps [of xs' ys' "i + 1" "j + 1" "amend \<or> a1" w1] r pair by simp
    then show ?thesis
      using assms [OF c] dry_kept_trans r by (cases "rc1 = 0") auto
  qed
qed

lemma each_dry:
  fixes w :: "('a, 'b) sync"
  assumes "\<And>i x (w :: ('a, 'b) sync) rc x' w'. f i x w = Some (rc, x', w') \<Longrightarrow> dry_kept D w w'"
  shows "each f js x w = Some (rc, x', w') \<Longrightarrow> dry_kept D w w'"
proof (induction js arbitrary: x w)
  case (Cons i js)
  then show ?case
    by (auto simp: bind_Some split: if_splits intro: dry_kept_trans dest!: assms)
qed simp

lemma each_numbered_dry_kept:
  fixes w :: "('a, 'b) sync"
  assumes "\<And>i j (w :: ('a, 'b) sync) rc w'. f i j w = Some (rc, w') \<Longrightarrow> m_dry_run w \<Longrightarrow> dry_kept D w w'"
  shows "each_numbered f j js w = Some (rc, w') \<Longrightarrow> m_dry_run w \<Longrightarrow> dry_kept D w w'"
proof (induction js arbitrary: j w)
  case (Cons i js)
  obtain rc1 w1 where 1: "f i j w = Some (rc1, w1)" "rc1 = 0 \<Longrightarrow> each_numbered f (j + 1) js w1 = Some (rc, w')" "rc1 \<noteq> 0 \<Longrightarrow> w' = w1"
    using Cons.prems(1) by (auto simp: bind_Some split: if_splits)
  have k: "dry_kept D w w1"
    by (rule assms [OF 1(1) Cons.prems(2)])
  then have "m_dry_run w1"
    using Cons.prems(2) by (simp add: dry_kept_def)
  then show ?case
    using Cons.IH [OF 1(2)] 1(3) k dry_kept_trans by (cases "rc1 = 0") auto
qed simp

section \<open>The walk, the deletions and the additions\<close>

lemma CheckPlaylistNames_dry:
  "CheckPlaylistNames S D n s d w = Some (rc, a, w') \<Longrightarrow> dry_kept D w w'"
proof (induction n arbitrary: s d w rc a w')
  case (Suc n)
  let ?w1 = "w\<lparr>m_srcids_seen := sset_insert s (m_srcids_seen w)\<rparr>"
  show ?case
  proof (cases "s \<in> set (m_srcids_seen w) \<and> smap_find (m_srctodest w) s \<noteq> None")
    case True
    then show ?thesis
      using Suc.prems by (auto split: if_splits intro!: dry_kept_same)
  next
    case seen: False
    show ?thesis
    proof (cases "lib_find S s (m_src w) = None \<or> lib_find D d (m_dest w) = None")
      case True
      then show ?thesis
        using Suc.prems seen by (auto simp: Let_def bind_Some split: option.splits intro!: dry_kept_same)
    next
      case False
      then obtain srs drs where rs: "lib_find S s (m_src w) = Some srs" "lib_find D d (m_dest w) = Some drs"
        by auto
      obtain s2 w2 where 2: "(if \<not> composite (lib_int D drs field_TYPE (m_dest w)) then check_tune S D s srs d drs ?w1 else (s, ?w1)) = (s2, w2)"
        by fastforce
      then have same: "m_dry_run w2 = m_dry_run w" "m_src w2 = m_src w" "m_dest w2 = m_dest w"
        by (auto split: if_splits dest!: check_tune_same)
      define w3 where "w3 = w2\<lparr>m_desttosrc := smap_set d s2 (m_desttosrc w2), m_srctodest := smap_set s2 d (m_srctodest w2)\<rparr>"
      have "\<exists>dels adds xs ys a1 rc1 w4. match_children (CheckPlaylistNames S D n) dels adds 0 xs 0 ys False w3 = Some (rc1, a1, w4) \<and>
          m_dry_run w' = m_dry_run w4 \<and> m_src w' = m_src w4 \<and> m_dest w' = m_dest w4"
        using Suc.prems seen rs 2 by (auto simp: Let_def w3_def split: Option.bind_split_asm prod.split_asm if_split_asm intro!: exI)
      moreover have "match_children (CheckPlaylistNames S D n) dels adds 0 xs 0 ys False w3 = Some (rc1, a1, w4) \<Longrightarrow> dry_kept D w3 w4"
        for dels adds xs ys rc1 a1 w4
        by (rule match_children_dry) (rule Suc.IH)
      ultimately obtain w4 where "dry_kept D w3 w4" "m_dry_run w' = m_dry_run w4" "m_src w' = m_src w4" "m_dest w' = m_dest w4"
        by blast
      then show ?thesis
        using same unfolding dry_kept_def w3_def by simp
    qed
  qed
qed simp

lemma MaybeDelete_dry: "MaybeDelete D n d already w = Some (rc, already', w') \<Longrightarrow> dry_kept D w w'"
proof (induction n arbitrary: d already w rc already' w')
  case (Suc n)
  let ?already = "sset_insert d already"
  show ?case
  proof (cases "d \<in> set already \<or> smap_find (m_desttosrc w) d \<noteq> None \<or> lib_find D d (m_dest w) = None")
    case True
    then show ?thesis
      using Suc.prems by (auto simp: Let_def split: if_splits)
  next
    case False
    then obtain rs where rs: "d \<notin> set already" "smap_find (m_desttosrc w) d = None" "lib_find D d (m_dest w) = Some rs"
      by auto
    then obtain js rc1 a1 w1 where js: "ChildrenToVector (lib_str D rs field_CHILDREN (m_dest w)) = Some js"
      "each (MaybeDelete D n) js ?already w = Some (rc1, a1, w1)"
      using Suc.prems by (auto simp: Let_def split: Option.bind_split_asm)
    have k: "dry_kept D w w1"
      using js(2) by (rule each_dry [rotated]) (rule Suc.IH)
    moreover have "dry_kept D w1 w'"
      using Suc.prems rs js by (auto simp: Let_def Fire_def dry_kept_def split: if_splits prod.splits intro: exI [of _ 0])
    ultimately show ?thesis
      by (rule dry_kept_trans)
  qed
qed simp

lemma add_item_same: "m_dry_run (add_item s t b w) = m_dry_run w" "m_src (add_item s t b w) = m_src w" "m_dest (add_item s t b w) = m_dest w"
  by (simp_all add: add_item_def Let_def)

lemma MaybeAdd_dry: "MaybeAdd S D n s already w = Some (rc, already', w') \<Longrightarrow> dry_kept D w w'"
proof (induction n arbitrary: s already w rc already' w')
  case (Suc n)
  let ?already = "sset_insert s already"
  show ?case
  proof (cases "s \<in> set already \<or> smap_find (m_srctodest w) s \<noteq> None \<or> lib_find S s (m_src w) = None \<or>
      lib_int S (the (lib_find S s (m_src w))) field_TYPE (m_src w) = FILE")
    case True
    then show ?thesis
      using Suc.prems by (auto simp: Let_def split: if_splits option.splits intro!: dry_kept_same)
  next
    case False
    then obtain rs where rs: "s \<notin> set already" "smap_find (m_srctodest w) s = None" "lib_find S s (m_src w) = Some rs"
      "lib_int S rs field_TYPE (m_src w) \<noteq> FILE"
      by auto
    then obtain js rc1 a1 w1 where js: "ChildrenToVector (lib_str S rs field_CHILDREN (m_src w)) = Some js"
      "each (MaybeAdd S D n) js ?already w = Some (rc1, a1, w1)"
      using Suc.prems by (auto simp: Let_def split: Option.bind_split_asm)
    have k: "dry_kept D w w1"
      using js(2) by (rule each_dry [rotated]) (rule Suc.IH)
    moreover have "dry_kept D w1 w'"
    proof (cases "rc1 = 0")
      case True
      obtain i d where a: "lib_alloc D (m_dest w1) = (i, d)"
        by fastforce
      have "m_dry_run w' = m_dry_run w1 \<and> m_src w' = m_src w1 \<and> m_dest w' = d"
        using Suc.prems rs js True a by (auto simp: Let_def add_item_same split: if_splits option.splits)
      moreover have "d = (allocated D ^^ 1) (m_dest w1)"
        using a by (simp add: allocated_def)
      ultimately show ?thesis
        unfolding dry_kept_def by blast
    next
      case False
      then show ?thesis
        using Suc.prems rs js by (simp add: Let_def)
    qed
    ultimately show ?thesis
      by (rule dry_kept_trans)
  qed
qed simp

section \<open>The copies\<close>

lemma CopyPlaylist_dry_same:
  assumes "CopyPlaylist S D s d w = Some (rc, w')" "m_dry_run w"
  shows "dry_kept D w w'"
proof (cases "lib_find S s (m_src w)")
  case None
  then show ?thesis
    using assms by (simp add: CopyPlaylist_def)
next
  case (Some srs)
  then obtain js where js: "ChildrenToVector (lib_str S srs field_CHILDREN (m_src w)) = Some js"
    using assms(1) by (auto simp: CopyPlaylist_def split: Option.bind_split_asm)
  obtain ks w1 where "image_ids js w = (ks, w1)"
    by fastforce
  then show ?thesis
    using assms Some js image_ids_same [of js w ks w1] by (auto simp: CopyPlaylist_def intro: dry_kept_same)
qed

lemma CopyMetadata_dry_same: "CopyMetadata S D s d w = (rc, w') \<Longrightarrow> m_dry_run w \<Longrightarrow> w' = w"
  by (auto simp: CopyMetadata_def split: option.splits)

lemma copy_ops_dry:
  fixes w :: "('a, 'b) sync"
  assumes "m_dry_run w"
  shows "AmendPlaylist S D k s j w = Some (rc, w') \<Longrightarrow> dry_kept D w w'"
    and "AddPlaylist S D k s j w = Some (rc, w') \<Longrightarrow> dry_kept D w w'"
    and "AmendTune S D k s j w = Some (rc, w') \<Longrightarrow> dry_kept D w w'"
    and "AddTune S D k s j w = Some (rc, w') \<Longrightarrow> dry_kept D w w'"
proof -
  have at: "m_dry_run w2 \<and> m_src w2 = m_src w \<and> m_dest w2 = m_dest w"
    if "srctodest_at s w1 = (d, w2)" "m_dry_run w1 = m_dry_run w" "m_src w1 = m_src w" "m_dest w1 = m_dest w" for w1 w2 :: "('a, 'b) sync" and d
    using srctodest_at_same [OF that(1)] that assms by simp
  have playlist: "dry_kept D w w'" if "srctodest_at s w1 = (d, w2)" "m_dry_run w1 = m_dry_run w" "m_src w1 = m_src w" "m_dest w1 = m_dest w"
    "CopyPlaylist S D s d w2 = Some (rc, w')" for w1 w2 :: "('a, 'b) sync" and d
    using at [OF that(1-4)] CopyPlaylist_dry_same [OF that(5)] assms dry_kept_from [of D w2 w' w] by simp
  show "AmendPlaylist S D k s j w = Some (rc, w') \<Longrightarrow> dry_kept D w w'" "AddPlaylist S D k s j w = Some (rc, w') \<Longrightarrow> dry_kept D w w'"
    by (auto simp: AmendPlaylist_def AddPlaylist_def Let_def Fire_def split: prod.splits intro: playlist)
  show "AmendTune S D k s j w = Some (rc, w') \<Longrightarrow> dry_kept D w w'" "AddTune S D k s j w = Some (rc, w') \<Longrightarrow> dry_kept D w w'"
    using assms by (auto simp: AmendTune_def AddTune_def Let_def Fire_def split: prod.splits if_splits intro!: dry_kept_same dest!: at dest: CopyMetadata_dry_same)
qed

section \<open>The stages\<close>

lemma stage_dry:
  assumes "(do { (rc, v) \<leftarrow> r; (if rc \<noteq> 0 then Some (rc, v) else g v) }) = Some (rc', w')" "m_dry_run w"
    and "\<And>rc v. r = Some (rc, v) \<Longrightarrow> dry_kept D w v"
    and "\<And>v. g v = Some (rc', w') \<Longrightarrow> m_dry_run v \<Longrightarrow> dry_kept D v w'"
  shows "dry_kept D w w'"
proof -
  obtain rc v where r: "r = Some (rc, v)" "(if rc \<noteq> 0 then Some (rc, v) else g v) = Some (rc', w')"
    using assms(1) by (auto split: Option.bind_split_asm)
  have k: "dry_kept D w v"
    by (rule assms(3) [OF r(1)])
  then have "m_dry_run v"
    using assms(2) by (simp add: dry_kept_def)
  then show ?thesis
    using r(2) k assms(4) [of v] dry_kept_trans by (cases "rc = 0") auto
qed

lemma sync_copy_dry_kept:
  assumes "sync_copy S D w = Some (rc, w')" "m_dry_run w"
  shows "dry_kept D w w'"
  using assms unfolding sync_copy_def
  by (elim stage_dry) (auto elim!: each_numbered_dry_kept [rotated] intro: copy_ops_dry dry_kept_same simp: Fire_def)

lemma sync_stages_dry:
  "sync_scan S D n w = Some (rc, w') \<Longrightarrow> dry_kept D w w'"
  "sync_delete D n w = Some (rc, w') \<Longrightarrow> dry_kept D w w'"
  "sync_add S D n w = Some (rc, w') \<Longrightarrow> dry_kept D w w'"
proof -
  let ?w = "(Fire (OnStage BEGIN) w)\<lparr>m_srcids_seen := [], m_any_deleted := False\<rparr>"
  show "dry_kept D w w'" if st: "sync_scan S D n w = Some (rc, w')"
  proof -
    obtain a where "CheckPlaylistNames S D n BROWSE_ROOT BROWSE_ROOT ?w = Some (rc, a, w')"
      using st by (auto simp: sync_scan_def Let_def split: Option.bind_split_asm)
    from CheckPlaylistNames_dry [OF this] show ?thesis
      by (rule dry_kept_from) (simp_all add: Fire_def)
  qed
  show "dry_kept D w w'" if st: "sync_delete D n w = Some (rc, w')"
  proof -
    obtain a where "each (MaybeDelete D n) (m_destids_maybe_delete w) [] w = Some (rc, a, w')"
      using st by (auto simp: sync_delete_def split: Option.bind_split_asm)
    then show ?thesis
      by (rule each_dry [rotated]) (rule MaybeDelete_dry)
  qed
  show "dry_kept D w w'" if st: "sync_add S D n w = Some (rc, w')"
  proof -
    obtain a where "each (MaybeAdd S D n) (m_srcids_maybe_add w) [] w = Some (rc, a, w')"
      using st by (auto simp: sync_add_def split: Option.bind_split_asm)
    then show ?thesis
      by (rule each_dry [rotated]) (rule MaybeAdd_dry)
  qed
qed

lemma Synchronise_dry_kept:
  assumes "Synchronise S D n w = Some (rc, w')" "m_dry_run w"
  shows "dry_kept D w w'"
  using assms unfolding Synchronise_def
  by (elim stage_dry) (auto intro: sync_stages_dry sync_copy_dry_kept)

end
