(* ===== verification/SyncProps.thy ===== *)
theory SyncProps
  imports SyncFake SyncDry
begin

text \<open>
  The synchroniser between two databases of the in-memory kind: the theorems, each with a small
  library that it applies to.
\<close>

section \<open>Small libraries\<close>

text \<open>The databases here are never queried by regular expressions.\<close>

abbreviation no_regex :: "string \<Rightarrow> bool" where
  "no_regex \<equiv> \<lambda>_. True"

abbreviation no_match :: "string option \<Rightarrow> string \<Rightarrow> bool" where
  "no_match \<equiv> \<lambda>_ _. False"

definition put_item :: "u32 \<Rightarrow> string \<Rightarrow> u32 \<Rightarrow> u32 list \<Rightarrow> fake \<Rightarrow> fake" where
  "put_item i title type js d =
     (let L = fake_library no_regex no_match; (c, d) = lib_add L d; d = lib_set_int L c field_ID i d;
          d = lib_set_str L c field_TITLE title d; d = lib_set_int L c field_TYPE type d
      in lib_set_str L c field_CHILDREN (VectorToChildren js) d)"

definition small_item :: "u32 \<Rightarrow> string \<Rightarrow> u32 \<Rightarrow> u32 list \<Rightarrow> item" where
  "small_item i title type js =
     (blank_item i)(field_TITLE := title, field_TYPE := number_text type, field_CHILDREN := VectorToChildren js)"

lemma put_item:
  assumes ok: "fake_ok d" and i: "fake_lib d i = None" "i \<noteq> 0" "0 < fake_room d"
  shows "fake_ok (put_item i title type js d) \<and> fake_lib (put_item i title type js d) = (fake_lib d)(i \<mapsto> small_item i title type js) \<and>
    fake_room d = Suc (fake_room (put_item i title type js d))"
proof -
  let ?L = "fake_library no_regex no_match"
  obtain c d1 where a: "lib_add ?L d = (c, d1)" by force
  let ?d2 = "lib_set_int ?L c field_ID i d1" and ?d3 = "\<lambda>d. lib_set_str ?L c field_TITLE title d" and ?d4 = "\<lambda>d. lib_set_int ?L c field_TYPE type d"
  have small: "field_TITLE < FIELD_COUNT" "field_TITLE \<noteq> field_ID" "field_CHILDREN < FIELD_COUNT" "field_CHILDREN \<noteq> field_ID"
    by (simp_all add: field_TITLE_def field_CHILDREN_def field_ID_def FIELD_COUNT_def)
  have 2: "fake_ok ?d2" "fake_at c i ?d2" "fake_lib ?d2 = (fake_lib d)(i \<mapsto> blank_item i)" "fake_room d = Suc (fake_room ?d2)"
    using fake.adds [OF ok i a refl] by blast+
  have 3: "fake_ok (?d3 ?d2)" "fake_at c i (?d3 ?d2)" "fake_lib (?d3 ?d2) = (fake_lib d)(i \<mapsto> (blank_item i)(field_TITLE := title))"
    "fake_room (?d3 ?d2) = fake_room ?d2"
    using fake.set_str [OF 2(1,2) _ small(1,2) refl, of "blank_item i" no_regex no_match title] 2(3) by auto
  have 4: "fake_ok (?d4 (?d3 ?d2))" "fake_at c i (?d4 (?d3 ?d2))"
    "fake_lib (?d4 (?d3 ?d2)) = (fake_lib d)(i \<mapsto> (blank_item i)(field_TITLE := title, field_TYPE := number_text type))"
    "fake_room (?d4 (?d3 ?d2)) = fake_room ?d2"
    using fake.set_type [OF 3(1,2) _ refl, of "(blank_item i)(field_TITLE := title)" no_regex no_match type] 3(3,4) by auto
  show ?thesis
    using fake.set_str [OF 4(1,2) _ small(3,4) refl, of "(blank_item i)(field_TITLE := title, field_TYPE := number_text type)" no_regex no_match
        "VectorToChildren js"] 2(4) 4(3,4) a
    by (simp add: put_item_def small_item_def Let_def)
qed

text \<open>A database without records is in order whatever its fields are.\<close>

lemma new_fields_ok:
  assumes "\<forall>flags\<in>set fs. flags_ok flags" "length fs = n"
  shows "steam_ok (Database n [] \<lparr>m_fields := fs\<rparr>)"
proof -
  have "string_key [] f = (\<lambda>_. None)" "int_key [] f = (\<lambda>_. None)" for f
    by (auto simp: string_key_def int_key_def)
  then show ?thesis
    using assms by (auto simp: Database_def steam_ok_def field_indexes_ok_def Let_def)
qed

lemma FakeDatabase_fields: "fk_db FakeDatabase = Database FIELD_COUNT [] \<lparr>m_fields := fake_fields\<rparr>"
  by (simp add: FakeDatabase_def fake_infos_def SetFieldInfo_def Database_def fake_fields_def FIELD_INT_def FIELD_STRING_def FIELD_INDEXED_def)

lemma FakeDatabase_ok: "fake_ok FakeDatabase" "fake_lib FakeDatabase = Map.empty" "fake_room FakeDatabase = 2 ^ 32 - 1"
proof -
  have "\<forall>flags\<in>set fake_fields. flags_ok flags"
    by code_simp
  moreover have "length fake_fields = FIELD_COUNT"
    by (simp add: fake_fields_def)
  ultimately have "steam_ok (fk_db FakeDatabase)"
    unfolding FakeDatabase_fields by (rule new_fields_ok)
  moreover have "holders FakeDatabase = (\<lambda>_. [])"
    by (simp add: holders_def FakeDatabase_fields Database_def index_get_def field_ID_def FIELD_COUNT_def fun_eq_iff)
  ultimately show "fake_ok FakeDatabase" "fake_lib FakeDatabase = Map.empty" "fake_room FakeDatabase = 2 ^ 32 - 1"
    by (simp_all add: fake_ok_def fake_lib_def fake_room_def FakeDatabase_fields Database_def fun_eq_iff)
qed

text \<open>Tune A below the root, to be copied to a library that has tune B there instead.\<close>

abbreviation fakes_ops :: "(fake, cursor, string \<times> nat) library_ops" where
  "fakes_ops \<equiv> fake_library no_regex no_match"

definition source1 :: fake where
  "source1 = put_item 0x104 ''A'' TUNE [] (put_item 0x100 ''root'' PLAYLIST [0x104] FakeDatabase)"

definition target0 :: fake where
  "target0 = put_item 0x101 ''B'' TUNE [] (put_item 0x100 ''library'' PLAYLIST [0x101] FakeDatabase)"

definition target1 :: fake where
  "target1 = snd (fake_Allocate no_regex no_match target0)"

definition source_items :: library where
  "source_items = [0x100 \<mapsto> small_item 0x100 ''root'' PLAYLIST [0x104], 0x104 \<mapsto> small_item 0x104 ''A'' TUNE []]"

definition target_items :: library where
  "target_items = [0x100 \<mapsto> small_item 0x100 ''library'' PLAYLIST [0x101], 0x101 \<mapsto> small_item 0x101 ''B'' TUNE []]"

lemma two_puts:
  fixes t t' :: string and y y' :: u32 and js js' :: "u32 list"
  assumes "i \<noteq> 0" "j \<noteq> 0" "i \<noteq> j"
  defines "d \<equiv> put_item j t' y' js' (put_item i t y js FakeDatabase)"
  shows "fake_ok d" "fake_lib d = [i \<mapsto> small_item i t y js, j \<mapsto> small_item j t' y' js']" "fake_room d = 2 ^ 32 - 3"
proof -
  let ?d = "put_item i t y js FakeDatabase"
  have 1: "fake_ok ?d" "fake_lib ?d = [i \<mapsto> small_item i t y js]" "Suc (fake_room ?d) = 2 ^ 32 - 1"
    using put_item [OF FakeDatabase_ok(1), of i t y js] FakeDatabase_ok(2,3) assms(1) by auto
  then show "fake_ok d" "fake_lib d = [i \<mapsto> small_item i t y js, j \<mapsto> small_item j t' y' js']" "fake_room d = 2 ^ 32 - 3"
    using put_item [OF 1(1), of j t' y' js'] assms by auto
qed

lemma source1: "fake_ok source1" "fake_lib source1 = source_items"
  using two_puts [of "0x100" "0x104"] by (simp_all add: source1_def source_items_def)

lemma target0: "fake_ok target0" "fake_lib target0 = target_items" "fake_room target0 = 2 ^ 32 - 3"
  using two_puts [of "0x100" "0x101"] by (simp_all add: target0_def target_items_def)

text \<open>Its first identifiers come from behind the two that it has.\<close>

lemma ids_holders:
  assumes "fake_ok d"
  shows "set (ids (fk_db d)) = dom (fake_lib d)"
proof -
  have "i \<in> dom (fake_lib d) \<longleftrightarrow> (\<exists>r. r \<in> set (holders d i))" for i
    by (cases "holders d i") (auto simp: fake_lib_def)
  then show ?thesis
    unfolding holders_key(1) [OF assms] using ids_sorted [OF fake_ok_facts(4) [OF assms]] by auto
qed

lemma target1:
  "fake_ok target1" "fake_lib target1 = target_items" "fake_room target1 = 2 ^ 32 - 3" "fake_vacant target1 = {i. 0x103 \<le> i \<and> i < 0x80000000}"
proof -
  obtain i d where a: "fake_Allocate no_regex no_match target0 = (i, d)" by force
  then have "lib_alloc fakes_ops target0 = (i, d)"
    by (simp add: fake_library_def)
  from fake.allocates [OF target0(1) this] show "fake_ok target1" "fake_lib target1 = target_items" "fake_room target1 = 2 ^ 32 - 3"
    using target0(2,3) a by (simp_all add: target1_def)
  have aid: "fk_aid target0 = AllocateID"
    by (simp add: target0_def put_item_def fake_library_def with_db_def Let_def FakeDatabase_def split: prod.splits)
  have "sorted_wrt (<) (ids (fk_db target0))" "set (ids (fk_db target0)) = {0x100, 0x101}"
    using ids_sorted [OF fake_ok_facts(4) [OF target0(1)]] ids_holders [OF target0(1)] by (auto simp: target0(2) target_items_def)
  then have ids: "ids (fk_db target0) = [0x100, 0x101]"
    by (intro sorted_distinct_set_unique) (auto simp: strict_sorted_iff)
  have "gap_from (\<lambda>e k. k + 1) (m_gap_end AllocateID + 1) [0x100, 0x101] = (0x102, None)"
    by (simp add: AllocateID_def)
  then have "m_gap_begin (fk_aid d) = 0x103 \<and> m_gap_end (fk_aid d) = UINT_MAX"
    using next_gap_spec [OF fake_ok_facts(4) [OF target0(1)], of no_regex no_match "\<lambda>e k. k + 1" "m_gap_end AllocateID + 1" AllocateID] a
    by (auto simp: ids fake_Allocate_def aid Allocate_def AllocateID_def)
  then show "fake_vacant target1 = {i. 0x103 \<le> i \<and> i < 0x80000000}"
    using a by (auto simp: target1_def fake_vacant_def UINT_MAX_def intro: less_trans)
qed

lemma small_children [simp]:
  "ChildrenToVector (VectorToChildren [0x104]) = Some [0x104]" "ChildrenToVector (VectorToChildren [0x101]) = Some [0x101]"
  "ChildrenToVector [] = Some []"
  by code_simp+

lemma small_types [simp]:
  "parse_u32 (number_text TUNE) = TUNE" "parse_u32 (number_text PLAYLIST) = PLAYLIST" "TUNE \<noteq> FILE" "PLAYLIST \<noteq> FILE" "TUNE \<noteq> PLAYLIST"
  "composite PLAYLIST" "\<not> composite TUNE"
  by (simp_all add: parse_number_text composite_def TUNE_def PLAYLIST_def FILE_def DIR_def)

lemma small_item_fields [simp]:
  "small_item i t y js field_TITLE = t" "small_item i t y js field_TYPE = number_text y"
  "small_item i t y js field_CHILDREN = VectorToChildren js" "small_item i t y js field_IDHIGH = []"
  by (simp_all add: small_item_def blank_item_def field_TITLE_def field_TYPE_def field_CHILDREN_def field_IDHIGH_def field_ID_def)

lemma source_facts:
  "dom source_items = {0x100, 0x104}" "kids source_items i = (if i = 0x100 then [0x104] else [])"
  "item_type source_items i = (if i = 0x100 then PLAYLIST else if i = 0x104 then TUNE else 0)" "item_high source_items i = 0"
  "field_of source_items 0x104 field_TITLE = ''A''" "readable source_items"
  by (auto simp: source_items_def kids_def item_type_def item_high_def field_of_def readable_def)

lemma target_facts:
  "dom target_items = {0x100, 0x101}" "shown target_items i = (if i = 0x100 then [0x101] else [])"
  "kids target_items i = shown target_items i" "item_type target_items 0x100 = PLAYLIST" "readable target_items"
  by (auto simp: target_items_def kids_def item_type_def readable_def shown_def item_name_def)

lemma source_mirrorable: "mirrorable source_items"
  by (auto simp: mirrorable_def copyable_def source_facts BROWSE_ROOT_def composite_def FILE_def TUNE_def TUNEHIGH_def PLAYLIST_def DIR_def)

lemma target_plain: "plain_dest target_items" "listed_once target_items" "\<forall>d\<in>dom target_items. child_ok d"
proof -
  have "below target_items = {(0x100, 0x101)}"
    by (auto simp: below_def target_facts split: if_splits)
  moreover have "acyclic ({} :: (u32 \<times> u32) set)"
    by (simp add: acyclic_def)
  then have "acyclic {(0x100::u32, 0x101::u32)}"
    by (simp add: acyclic_insert)
  ultimately show "listed_once target_items"
    by (auto simp: listed_once_def single_valued_def target_facts)
  show "plain_dest target_items" "\<forall>d\<in>dom target_items. child_ok d"
    by (auto simp: plain_dest_def target_facts BROWSE_ROOT_def child_ok_def)
qed

lemma small_cards: "card (dom (fake_lib source1)) = 2" "card (dom (fake_lib target1)) = 2" "2 \<le> card (fake_vacant target1)"
proof -
  show "card (dom (fake_lib source1)) = 2" "card (dom (fake_lib target1)) = 2"
    by (simp_all add: source1(2) target1(2) source_facts target_facts)
  have "{0x103, 0x104} \<subseteq> fake_vacant target1"
    by (simp add: target1(4))
  from card_mono [OF _ this] show "2 \<le> card (fake_vacant target1)"
    by simp
qed

section \<open>Making a mirror\<close>

text \<open>C3: a destination whose items are each listed once, and whose allocator has enough unused identifiers
  in a row, is made a mirror of the source: the synchroniser ends without an error, and then every item
  that can be come to from the root of the source has its image, with the same title and kind, the images
  of its children in the same order, and for a tune the same tags and size.
\<close>

theorem Synchronise_makes_mirror_of:
  assumes "fake_ok src" "fake_ok dest" "mirrorable (fake_lib src)" "plain_dest (fake_lib dest)"
    and "listed_once (fake_lib dest)" "\<forall>d\<in>dom (fake_lib dest). child_ok d"
    and "card (dom (fake_lib src)) < n" "card (dom (fake_lib dest)) < n" "4 * card (dom (fake_lib src)) \<le> fake_room dest"
    and "fake_vacant dest \<inter> dom (fake_lib dest) = {}" "card (dom (fake_lib src)) \<le> card (fake_vacant dest)"
  shows "\<exists>w. Synchronise (fake_library rok re) (fake_library rok re) n (Synchroniser src dest False) = Some (0, w) \<and>
    fake_ok (m_dest w) \<and> mirrored (fake_lib src) (fake_lib (m_dest w)) (image_of w)"
  by (rule fake_supply.Synchronise_makes_mirror [OF assms])

theorem Synchronise_makes_mirror_of_witness:
  "\<exists>w. Synchronise fakes_ops fakes_ops 3 (Synchroniser source1 target1 False) = Some (0, w) \<and>
     fake_ok (m_dest w) \<and> mirrored (fake_lib source1) (fake_lib (m_dest w)) (image_of w)"
proof (rule Synchronise_makes_mirror_of)
  show "fake_vacant target1 \<inter> dom (fake_lib target1) = {}"
    by (auto simp: target1 target_facts)
qed (use source1 target1 source_mirrorable target_plain small_cards in simp_all)

text \<open>C38: A dry run changes neither database. On databases of any kind, whatever their functions do: when it
  ends, with or without an error, the source is the same, and the destination is what it becomes when it is
  asked for some number of new identifiers and nothing else, which is what the synchroniser does to name what it
  would add; no record is added, changed, committed or deleted, and no file is opened for writing. Between the in-memory databases,
  from a source that can be mirrored, it does end, and the destination lists the same items as before.
\<close>

theorem Synchronise_dry_run:
  shows "(\<forall>rc w. Synchronise S D m (Synchroniser a b True) = Some (rc, w) \<longrightarrow>
      m_src w = a \<and> (\<exists>k. m_dest w = ((\<lambda>d. snd (lib_alloc D d)) ^^ k) b)) \<and>
    (fake_ok src \<and> fake_ok dest \<and> mirrorable (fake_lib src) \<and> plain_dest (fake_lib dest) \<and>
     card (dom (fake_lib src)) < n \<and> card (dom (fake_lib dest)) < n \<longrightarrow>
     (\<exists>rc w. Synchronise (fake_library rok re) (fake_library rok re) n (Synchroniser src dest True) = Some (rc, w) \<and>
        fake_lib (m_dest w) = fake_lib dest))"
proof (rule conjI)
  have "allocated D = (\<lambda>d. snd (lib_alloc D d))"
    by (simp add: fun_eq_iff allocated_def)
  then show "\<forall>rc w. Synchronise S D m (Synchroniser a b True) = Some (rc, w) \<longrightarrow>
      m_src w = a \<and> (\<exists>k. m_dest w = ((\<lambda>d. snd (lib_alloc D d)) ^^ k) b)"
    using Synchronise_dry_kept [where S = S and D = D and n = m and w = "Synchroniser a b True"] by (auto simp: dry_kept_def Synchroniser_def)
qed (use fake_stores.Synchronise_dry in blast)

theorem Synchronise_dry_run_witness:
  "\<exists>rc w k. Synchronise fakes_ops fakes_ops 3 (Synchroniser source1 target1 True) = Some (rc, w) \<and> m_src w = source1 \<and>
     m_dest w = ((\<lambda>d. snd (lib_alloc fakes_ops d)) ^^ k) target1 \<and> fake_lib (m_dest w) = fake_lib target1"
proof -
  note dry = Synchronise_dry_run [where rok = no_regex and re = no_match and n = 3 and src = source1 and dest = target1]
  obtain rc w where w: "Synchronise fakes_ops fakes_ops 3 (Synchroniser source1 target1 True) = Some (rc, w)" "fake_lib (m_dest w) = fake_lib target1"
    using dry [where S = fakes_ops and D = fakes_ops and m = 3 and a = source1 and b = target1]
      source1 target1 source_mirrorable target_plain(1) small_cards by auto
  moreover obtain k where "m_src w = source1" "m_dest w = ((\<lambda>d. snd (lib_alloc fakes_ops d)) ^^ k) target1"
    using dry [where S = fakes_ops and D = fakes_ops and m = 3 and a = source1 and b = target1] w(1) by blast
  ultimately show ?thesis
    by blast
qed

section \<open>The stages\<close>

text \<open>C36: the walk over both libraries returns without an error, and leaves every item that it has met
  settled: matched to an item with the same title and kind; its children met or candidates for adding,
  those of its image matched or candidates for deletion; its image lists the images of its children in
  order, or else it is marked; a tune has the same tags and size as its image, or else it is marked.
\<close>

theorem sync_scan_settles_all:
  assumes "fake_ok src" "fake_ok dest" "readable (fake_lib src)" "readable (fake_lib dest)" "high_hidden (fake_lib src)"
    and "BROWSE_ROOT \<in> dom (fake_lib src)" "BROWSE_ROOT \<in> dom (fake_lib dest)" "card (dom (fake_lib src)) < n"
  shows "\<exists>w. sync_scan (fake_library rok re) (fake_library rok re) n (Synchroniser src dest dry) = Some (0, w) \<and>
    scan_inv (fake_lib src) (fake_lib dest) w \<and> BROWSE_ROOT \<in> set (m_srcids_seen w) \<and>
    (\<forall>s\<in>set (m_srcids_seen w). settled (fake_lib src) (fake_lib dest) w s)"
  using fake_pair.sync_scan_settles [OF assms, where dry = dry and rok = rok and re = re] by blast

text \<open>On the small libraries: tune A, which the destination does not have, becomes a candidate for adding.\<close>

theorem sync_scan_settles_all_witness:
  "\<exists>w. sync_scan fakes_ops fakes_ops 3 (Synchroniser source1 target1 False) = Some (0, w) \<and>
     0x104 \<in> set (m_srcids_seen w) \<union> set (m_srcids_maybe_add w)"
proof -
  have "high_hidden source_items"
    by (simp add: high_hidden_def source_facts)
  then obtain w where w: "sync_scan fakes_ops fakes_ops 3 (Synchroniser source1 target1 False) = Some (0, w)"
    "BROWSE_ROOT \<in> set (m_srcids_seen w)" "\<forall>s\<in>set (m_srcids_seen w). settled source_items target_items w s"
    using sync_scan_settles_all [where src = source1 and dest = target1 and n = 3 and dry = False and rok = no_regex and re = no_match] source1 target1 small_cards
    by (auto simp: source_facts target_facts BROWSE_ROOT_def)
  obtain r where "source_items 0x104 = Some r"
    by (simp add: source_items_def)
  then have "item_name source_items 0x104 \<noteq> None"
    by (simp add: item_name_def source_facts)
  then have "0x104 \<in> set (shown source_items BROWSE_ROOT)"
    by (simp add: shown_def source_facts BROWSE_ROOT_def)
  then show ?thesis
    using w unfolding settled_def by blast
qed

text \<open>C37: the deletions remove exactly the items without a counterpart that can be come to from the
  candidates by way of such items, and tell the observers of exactly these; a dry run tells the
  same and removes nothing.
\<close>

theorem sync_delete_exactly:
  assumes "readable (fake_lib (m_dest w))" "fake_ok (m_dest w)" "card (dom (fake_lib (m_dest w))) < n"
  shows "\<exists>w'. sync_delete (fake_library rok re) n w = Some (0, w') \<and> fake_ok (m_dest w') \<and>
    fake_lib (m_dest w') = (if m_dry_run w then fake_lib (m_dest w)
      else fake_lib (m_dest w) |` (- doomed (fake_lib (m_dest w)) (m_desttosrc w) (set (m_destids_maybe_delete w)))) \<and>
    deletions_of (fired w') = deletions_of (fired w) \<union>
      (dom (fake_lib (m_dest w)) \<inter> doomed (fake_lib (m_dest w)) (m_desttosrc w) (set (m_destids_maybe_delete w)))"
  using fake.sync_delete_doomed [OF assms, of rok re] by blast

theorem sync_delete_exactly_witness:
  "\<exists>w'. sync_delete fakes_ops 3 ((Synchroniser source1 target1 False)\<lparr>m_destids_maybe_delete := [0x101]\<rparr>) = Some (0, w') \<and>
     dom (fake_lib (m_dest w')) = {0x100} \<and> deletions_of (fired w') = {0x101}"
proof -
  let ?w = "(Synchroniser source1 target1 False)\<lparr>m_destids_maybe_delete := [0x101]\<rparr>"
  have w: "m_dest ?w = target1" "m_desttosrc ?w = []" "m_destids_maybe_delete ?w = [0x101]" "fired ?w = []" "\<not> m_dry_run ?w"
    by (simp_all add: Synchroniser_def)
  have "0x101 \<notin> Domain (follows target_items [])"
    by (auto simp: follows_def target_facts)
  then have "(0x101, x) \<in> (follows target_items [])\<^sup>* \<longleftrightarrow> x = 0x101" for x
    using Not_Domain_rtrancl by metis
  then have "doomed target_items [] {0x101} = {0x101}"
    by (auto simp: doomed_def)
  moreover obtain w' where "sync_delete fakes_ops 3 ?w = Some (0, w')"
    "fake_lib (m_dest w') = target_items |` (- doomed target_items [] {0x101})"
    "deletions_of (fired w') = dom target_items \<inter> doomed target_items [] {0x101}"
    using sync_delete_exactly [of ?w 3 no_regex no_match] w target1(1,2) target_facts(5) small_cards(2) by auto
  ultimately show ?thesis
    by (auto simp: target_facts)
qed

section \<open>An identifier for two items\<close>

text \<open>A tune that is new to the destination.\<close>

definition new_tune :: "library \<Rightarrow> ('a, 'b) sync \<Rightarrow> u32 \<Rightarrow> bool" where
  "new_tune m w s \<longleftrightarrow> s \<in> dom m \<and> item_type m s = TUNE \<and> kids m s = [] \<and> item_high m s = 0 \<and> smap_find (m_srctodest w) s = None"

lemma MaybeAdd_tune:
  assumes ok: "fake_ok (m_src w)" "readable (fake_lib (m_src w))" and s: "new_tune (fake_lib (m_src w)) w s" "s \<notin> set A"
    and al: "fake_Allocate rok re (m_dest w) = (d, x)" and sm: "smap_ok (m_srctodest w)"
  shows "\<exists>w'. MaybeAdd (fake_library rok re) (fake_library rok re) (Suc n) s A w = Some (0, sset_insert s A, w') \<and> m_src w' = m_src w \<and>
    m_dest w' = x \<and> m_srctodest w' = smap_set s d (m_srctodest w)"
proof -
  let ?L = "fake_library rok re"
  obtain rs where rs: "lib_find ?L s (m_src w) = Some rs"
    using s(1) fake.find_none [OF ok(1), of rok re s] by (cases "lib_find ?L s (m_src w)") (auto simp: new_tune_def)
  note rd = fake.read_record [OF ok rs]
  let ?w = "w\<lparr>m_dest := x, m_srctodest := smap_set s d (m_srctodest w), m_desttosrc := smap_set d s (m_desttosrc w)\<rparr>"
  let ?w' = "add_item s TUNE (lib_int ?L rs field_SIZEBYTES (m_src w)) ?w"
  have "lib_alloc ?L (m_dest w) = (d, x)"
    using al by (simp add: fake_library_def)
  then have "MaybeAdd ?L ?L (Suc n) s A w = Some (0, sset_insert s A, ?w')"
    using s rs by (simp add: rd new_tune_def Let_def)
  moreover have "same_maps ?w ?w'"
    by (rule add_item_maps)
  ultimately show ?thesis
    by (simp add: same_maps_def)
qed

text \<open>C39: when the allocator of the destination finds a gap of a single identifier, two tunes that are added
  get the same identifier, so that the second will be written over the first.
\<close>

theorem sync_add_shares_identifier:
  assumes ok: "fake_ok (m_src w)" "readable (fake_lib (m_src w))" "fake_ok (m_dest w)" "smap_ok (m_srctodest w)"
    and s: "new_tune (fake_lib (m_src w)) w s" "new_tune (fake_lib (m_src w)) w t" "s \<noteq> t" "m_srcids_maybe_add w = [s, t]"
    and a: "m_gap_begin (fk_aid (m_dest w)) = m_gap_end (fk_aid (m_dest w))"
      "Allocate rok re (fk_aid (m_dest w)) (fk_db (m_dest w)) = Some (new, a', db')" "m_gap_begin a' = m_gap_end a'"
    and low: "k \<in> dom (fake_lib (m_dest w))" "k \<le> m_gap_end (fk_aid (m_dest w)) + 1" "k \<le> m_gap_end a' + 1"
  shows "\<exists>w'. sync_add (fake_library rok re) (fake_library rok re) (Suc n) w = Some (0, w') \<and> image_of w' s = new \<and> image_of w' t = new"
proof -
  let ?L = "fake_library rok re" and ?d = "m_dest w"
  obtain r where r: "int_key (m_data (fk_db ?d)) field_ID r = Some k"
    using low(1) ids_holders [OF ok(3)] ids_sorted [OF fake_ok_facts(4) [OF ok(3)]] by auto
  obtain a'' db'' where second: "Allocate rok re a' db' = Some (new, a'', db'')"
    using Allocate_reissues [OF fake_ok_facts(4) [OF ok(3)] a(1) r low(2,3) a(2,3)] by blast
  obtain w1 where w1: "MaybeAdd ?L ?L (Suc n) s [] w = Some (0, [s], w1)" "m_src w1 = m_src w" "m_dest w1 = \<lparr>fk_db = db', fk_aid = a'\<rparr>"
    "m_srctodest w1 = smap_set s new (m_srctodest w)"
    using MaybeAdd_tune [OF ok(1,2) s(1) _ _ ok(4), of "[]" rok re new "\<lparr>fk_db = db', fk_aid = a'\<rparr>" n] a(2) by (auto simp: fake_Allocate_def)
  have "new_tune (fake_lib (m_src w1)) w1 t" "smap_ok (m_srctodest w1)"
    using s(2,3) ok(4) w1(2,4) by (simp_all add: new_tune_def)
  then obtain B w2 where w2: "MaybeAdd ?L ?L (Suc n) t [s] w1 = Some (0, B, w2)" "m_srctodest w2 = smap_set t new (m_srctodest w1)"
    using MaybeAdd_tune [of w1 t "[s]" rok re new "\<lparr>fk_db = db'', fk_aid = a''\<rparr>" n] ok(1,2) w1(2,3) s(3) second by (auto simp: fake_Allocate_def)
  have "sync_add ?L ?L (Suc n) w = Some (0, w2)"
    using w1(1) w2(1) s(4) by (simp add: sync_add_def del: MaybeAdd.simps)
  moreover have "image_of w2 s = new" "image_of w2 t = new"
    using s(3) ok(4) w2(2) w1(4) by (simp_all add: image_of_def)
  ultimately show ?thesis
    by blast
qed

definition source2 :: fake where
  "source2 = put_item 0x105 ''B'' TUNE [] (put_item 0x104 ''A'' TUNE [] FakeDatabase)"

definition target2 :: fake where
  "target2 = put_item 0x102 ''C'' TUNE [] (put_item 0x100 ''library'' PLAYLIST [0x102] FakeDatabase)"

theorem sync_add_shares_identifier_witness:
  "\<exists>w'. sync_add fakes_ops fakes_ops 3 ((Synchroniser source2 target2 False)\<lparr>m_srcids_maybe_add := [0x104, 0x105]\<rparr>) = Some (0, w') \<and>
     image_of w' 0x104 = 0x101 \<and> image_of w' 0x105 = 0x101"
proof -
  let ?w = "(Synchroniser source2 target2 False)\<lparr>m_srcids_maybe_add := [0x104, 0x105]\<rparr>"
  have w: "m_src ?w = source2" "m_dest ?w = target2" "m_srctodest ?w = []" "m_srcids_maybe_add ?w = [0x104, 0x105]"
    by (simp_all add: Synchroniser_def)
  have s: "fake_ok source2" "fake_lib source2 = [0x104 \<mapsto> small_item 0x104 ''A'' TUNE [], 0x105 \<mapsto> small_item 0x105 ''B'' TUNE []]"
    using two_puts [of "0x104" "0x105"] by (simp_all add: source2_def)
  have t: "fake_ok target2" "fake_lib target2 = [0x100 \<mapsto> small_item 0x100 ''library'' PLAYLIST [0x102], 0x102 \<mapsto> small_item 0x102 ''C'' TUNE []]"
    using two_puts [of "0x100" "0x102"] by (simp_all add: target2_def)
  have new: "readable (fake_lib source2)" "new_tune (fake_lib source2) ?w 0x104" "new_tune (fake_lib source2) ?w 0x105"
    by (auto simp: s(2) new_tune_def readable_def item_type_def kids_def item_high_def w(3))
  have aid: "fk_aid target2 = AllocateID"
    by (simp add: target2_def put_item_def fake_library_def with_db_def Let_def FakeDatabase_def split: prod.splits)
  have "sorted_wrt (<) (ids (fk_db target2))" "set (ids (fk_db target2)) = {0x100, 0x102}"
    using ids_sorted [OF fake_ok_facts(4) [OF t(1)]] ids_holders [OF t(1)] by (auto simp: t(2))
  then have ids: "ids (fk_db target2) = [0x100, 0x102]"
    by (intro sorted_distinct_set_unique) (auto simp: strict_sorted_iff)
  have "gap_from (\<lambda>e k. k + 1) (m_gap_end AllocateID + 1) [0x100, 0x102] = (0x101, Some 0x102)"
    by (simp add: AllocateID_def)
  then obtain db' where al: "Allocate no_regex no_match (fk_aid target2) (fk_db target2) = Some (0x101, \<lparr>m_gap_begin = 0x102, m_gap_end = 0x102\<rparr>, db')"
    using next_gap_spec [OF fake_ok_facts(4) [OF t(1)], of no_regex no_match "\<lambda>e k. k + 1" "m_gap_end AllocateID + 1" AllocateID]
    by (auto simp: ids aid Allocate_def AllocateID_def)
  have "\<exists>w'. sync_add fakes_ops fakes_ops (Suc 2) ?w = Some (0, w') \<and> image_of w' 0x104 = 0x101 \<and> image_of w' 0x105 = 0x101"
  proof (rule sync_add_shares_identifier)
    show "Allocate no_regex no_match (fk_aid (m_dest ?w)) (fk_db (m_dest ?w)) = Some (0x101, \<lparr>m_gap_begin = 0x102, m_gap_end = 0x102\<rparr>, db')"
      using al by (simp only: w)
    show "(0x100::u32) \<in> dom (fake_lib (m_dest ?w))"
      by (simp only: w t(2)) simp
    show "m_gap_begin (fk_aid (m_dest ?w)) = m_gap_end (fk_aid (m_dest ?w))" "(0x100::u32) \<le> m_gap_end (fk_aid (m_dest ?w)) + 1"
      by (simp_all only: w aid) (simp_all add: AllocateID_def)
  qed (simp_all only: w s(1) t(1) new, simp_all)
  then show ?thesis
    by simp
qed

end
