(* ===== verification/Spec2Isabelle.thy ===== *)
theory Spec2Isabelle
  imports Prelude Escape Schema SteamExecute Diff Merge StreamProps WriteBuffer MultiStreams Allocate Utf8 XmlTable MediaXmlRead PlayQueueProps PlaylistProps SyncProps
begin

text \<open>
  Chorale is a suite for media in a home network: libraries that keep databases of media files and
  serve, play and synchronise them. This development models the parts of it that hold its own logic, in
  C++ under src/, and proves what makes them correct. A definition has the name of the function or class
  it models; a \<^verbatim>\<open>std::string\<close> is a list of 8-bit characters, \<^verbatim>\<open>uint32_t\<close> and \<^verbatim>\<open>unsigned int\<close> are 32-bit
  words, sizes and positions are natural numbers that wrap around where the code lets them, an error is
  its errno, and \<^verbatim>\<open>None\<close> is a computation that does not end or that has no defined behaviour in C++
  (an index out of range, a failed assertion); which of the two is said where it matters.

  The parts and how they interact. A \<^verbatim>\<open>mediadb::Database\<close> holds one record per item (libmediadb/schema.h
  numbers its fields). The in-memory database of libdbsteam, below most others, answers queries that are
  put together with the builder of libdb. Databases are merged into one (libdbmerge), written to and read
  from XML (libmediadb/xml.cpp) by way of the stream classes and the SAX parser of libutil, made copies of
  each other by the synchroniser (libmediadb/sync.cpp), and played by the queue of liboutput, which asks
  them for URLs. Playlist files (libimport) are read and written with the same streams and parsers.

  \<^item> \<^theory_text>\<open>Prelude\<close>: words, characters, C strings, \<^verbatim>\<open>strtoul\<close>, decimal printing, and the lemmas on codecs that
    work character by character.
  \<^item> \<^theory_text>\<open>Escape\<close> (libutil/urlescape.cpp, xmlescape.cpp, quote_escape.cpp, the URL functions of file.cpp): both
    directions of each encoding, a round trip for each.
  \<^item> \<^theory_text>\<open>Schema\<close> (libmediadb/schema.cpp): lists of children as strings; the round trip with its exact bounds,
    and what is lost beyond them.
  \<^item> \<^theory_text>\<open>StdMap\<close>, \<^theory_text>\<open>SteamDb\<close>, \<^theory_text>\<open>SteamInv\<close>, \<^theory_text>\<open>SteamQuery\<close>, \<^theory_text>\<open>SteamMatch\<close>, \<^theory_text>\<open>SteamCursors\<close>, \<^theory_text>\<open>SteamResults\<close>,
    \<^theory_text>\<open>SteamExecute\<close>, \<^theory_text>\<open>SteamStore\<close> (libdbsteam): a record \<^typ>\<open>steam\<close> with the rows, which cache a string and an
    integer per field, and the two kinds of index; the operations of a cursor; the four kinds of cursor.
    The invariant \<^const>\<open>steam_ok\<close> ties caches and indexes to the rows and holds in all reachable states. A
    cursor is an enumerator (a locale that each kind is shown to be) and a query delivers the records that
    satisfy its condition, in the order it asks for, where the code does that; a lookup in an index finds
    those that have an entry, and \<^const>\<open>index_exact\<close> says when these are all.
  \<^item> \<^theory_text>\<open>Query\<close> (libdb/query.cpp): the builder as an arena of nodes; every built query is well-formed, a clone
    is a copy, printing ends.
  \<^item> \<^theory_text>\<open>Allocate\<close> (libmediadb/allocate_id.cpp, libdbempeg/allocate_id.cpp): identifiers on top of the queries.
  \<^item> \<^theory_text>\<open>Diff\<close> (libutil/diff.h): the edit script is correct and shortest.
  \<^item> \<^theory_text>\<open>Merge\<close> (libdbmerge): identifiers of many databases in one space, told apart by the top byte.
  \<^item> \<^theory_text>\<open>Streams\<close>, \<^theory_text>\<open>StreamLaws\<close>, \<^theory_text>\<open>Memory\<close>, \<^theory_text>\<open>StreamProps\<close>, \<^theory_text>\<open>WriteBuffer\<close>, \<^theory_text>\<open>MultiStreams\<close> (libutil/stream.cpp,
    string_stream.cpp, partial_stream.cpp, line_reader.cpp, memory_stream.cpp, async_write_buffer.cpp,
    multi_stream.cpp): the helpers of a stream work on any stream that keeps the contract of the locale
    for seekable streams or byte sources; strings, chunks of memory and windows are shown to keep it. The
    two concurrent classes are step relations whose steps are what happens under the lock.
  \<^item> \<^theory_text>\<open>Utf8\<close> (libutil/utf8.cpp): conversions between the three encodings, and to and from the encoding of
    the locale, whose conversion of single characters is a parameter.
  \<^item> \<^theory_text>\<open>Paths\<close>, \<^theory_text>\<open>Url\<close> (libutil/file.cpp, file_posix.cpp, http.cpp): names of files and URLs as text; a relative
    name leads back to the name it was made from.
  \<^item> \<^theory_text>\<open>Files\<close>, \<^theory_text>\<open>Playlists\<close>, \<^theory_text>\<open>Faults\<close>, \<^theory_text>\<open>LocalText\<close>, \<^theory_text>\<open>PlaylistProps\<close> (libutil/file_stream_posix.cpp,
    libimport/playlist*.cpp): streams on files, and the three formats of playlists, each saved and loaded again. The
    operating system and the C library's files are a record of functions; what is relied on is the laws
    \<^const>\<open>os_reads\<close>, \<^const>\<open>os_writes\<close>, \<^const>\<open>os_opens\<close> and \<^const>\<open>os_stdio\<close>, which are what POSIX and C say of calls that may
    fail, and which a small system with limited files keeps. \<^theory_text>\<open>Faults\<close> compares a reader that may fail with one that does
    not; \<^theory_text>\<open>LocalText\<close> shows that what is done to file names byte by byte is done to the characters, in every
    encoding that has ASCII as a part.
  \<^item> \<^theory_text>\<open>Sax\<close>, \<^theory_text>\<open>SaxRuns\<close>, \<^theory_text>\<open>SaxDocs\<close>, \<^theory_text>\<open>XmlTable\<close> (libutil/xml.cpp, xml.h): the parser with its buffer of 1024 bytes
    and ten states as one function per round; a grammar of what it accepts, which every round keeps to,
    and a size that every round lowers; the documents that are printed are in the grammar. The table-driven
    parsers do to a document what a recursive walk over it would.
  \<^item> \<^theory_text>\<open>MediaXml\<close>, \<^theory_text>\<open>MediaXmlWrite\<close>, \<^theory_text>\<open>MediaXmlRead\<close> (libmediadb/xml.cpp): a library is printed, read through the
    parser, and stored into the in-memory database; it is the same library.
  \<^item> \<^theory_text>\<open>PlayQueue\<close>, \<^theory_text>\<open>PlayQueueInv\<close>, \<^theory_text>\<open>PlayQueueProps\<close> (liboutput/queue.cpp, test_url_player.h): the two orders of a
    play queue, what it tells the player, and what the player says.
  \<^item> \<^theory_text>\<open>Sync\<close> (libmediadb/sync.cpp, sync.h): the synchroniser, as a function on two databases behind their
    interface; \<^verbatim>\<open>Synchronise\<close> is the walk \<^const>\<open>sync_scan\<close>, then \<^const>\<open>sync_delete\<close>, \<^const>\<open>sync_add\<close> and \<^const>\<open>sync_copy\<close>.
    \<^theory_text>\<open>SyncScan\<close>, \<^theory_text>\<open>SyncWalk\<close> and \<^theory_text>\<open>SyncFind\<close> show what the walk finds, \<^theory_text>\<open>SyncDelete\<close>, \<^theory_text>\<open>SyncAdd\<close> and \<^theory_text>\<open>SyncCopy\<close>
    what each later stage does to the destination, \<^theory_text>\<open>SyncMirror\<close>, \<^theory_text>\<open>SyncPlan\<close> and \<^theory_text>\<open>SyncImages\<close> put these together:
    the destination becomes a mirror of the source. \<^theory_text>\<open>SyncFake\<close> (libmediadb/fake_database.h) is a database
    that keeps the contracts, on the models of libdbsteam and of the allocator, and \<^theory_text>\<open>SyncProps\<close> states the
    theorems on it. It has no files, so that theorems on it say nothing of the copying of contents; \<^theory_text>\<open>SyncDry\<close>, what a dry
    run does, is about databases of any kind.

  Interfaces are locales: ordered maps and sets, enumerators, stream contracts, the contract of a
  database under a merged one, a database to read from, to write to and to allocate in, and pairs of these
  for the synchroniser. Each is interpreted on the definitions that provide it, and the client's lemmas
  are used through the interpretation.

  Bounds and fuel. Loops that may not end are partial functions into \<^verbatim>\<open>option\<close>, and a theorem that
  they return is stated as such. The functions of the synchroniser that recurse over a library take the
  depth they may reach; one more than the number of items is shown to be enough, whatever cycles the lists
  of children have, because no item is entered twice. Bounds that theorems state are those of the code: 20000 children, identifiers below \<open>2 ^ 31\<close> in lists of children, 1023 bytes of a tag, 32-bit
  record numbers that have not run out.

  What the mirror needs. The source has only tunes and playlists besides files that are skipped, its tunes
  have titles and no high-quality versions beside them; the destination lists each item once, and its
  allocator is within a gap that has an identifier for every item of the source. Without the last the code
  gives one identifier to several items, which is a theorem of \<^theory_text>\<open>SyncProps\<close>. The stages before the
  copying have theorems of their own with weaker hypotheses.

  Not modelled. Sockets, threads and polling, the scheduler and the HTTP server and client on top of
  them; the UPnP stack and the services, whose interfaces the build generates; databases on other
  machines; the scanner of the local database, which walks a file system and reads tags through a
  library; encoders, compact discs, GStreamer, DVB and Qt, which are calls of third-party libraries; the
  tools and the daemon, which wire these together. Locks are not modelled: an operation that takes a
  lock is atomic. What is logged is not modelled.
\<close>

end
